(* ===== verification/Prelude.thy ===== *)
theory Prelude
  imports Complex_Main
begin

text \<open>
  What the component theories share: the collections of simplification rules the proofs use, the
  insertion-ordered \<open>Map\<close> and \<open>Set\<close> of JavaScript as lists, the decimal form of a number, and two
  interfaces stated as locales. \<open>transition_system\<close> is a state, its steps and an invariant the
  steps keep; \<open>bounded_memory\<close> is a set of remembered identifiers that forgets its oldest entries
  past a limit, which three components of the plugin implement each in its own way.
\<close>

section \<open>Collections of rules\<close>

named_theorems js_defs \<open>definitions of the JavaScript helpers\<close>
named_theorems js_map_simps \<open>lookups after updates of an insertion-ordered map\<close>

lemma find_SomeD: "List.find P xs = Some x \<Longrightarrow> x \<in> set xs \<and> P x"
  by (induction xs) (auto split: if_splits)

lemma filter_single: "filter Q U = [t] \<Longrightarrow> length U = 1 \<Longrightarrow> U = [t] \<and> Q t"
  by (cases U) (auto split: if_splits)

section \<open>Runs of a machine\<close>

text \<open>The state after a list of events, each handled to its end before the next.\<close>

definition run :: "('s \<Rightarrow> 'e \<Rightarrow> 's) \<Rightarrow> 's \<Rightarrow> 'e list \<Rightarrow> 's" where
  "run step s es = foldl step s es"

lemma run_Nil [simp]: "run step s [] = s"
  by (simp add: run_def)

lemma run_Cons [simp]: "run step s (e # es) = run step (step s e) es"
  by (simp add: run_def)

lemma run_append [simp]: "run step s (es @ fs) = run step (run step s es) fs"
  by (simp add: run_def)

text \<open>
  A machine whose environment keeps to a discipline: \<open>obeys\<close> says that each event of a run is allowed
  in the state it meets, and the invariant is kept by the allowed steps.
\<close>

fun obeys :: "('s \<Rightarrow> 'e \<Rightarrow> bool) \<Rightarrow> ('s \<Rightarrow> 'e \<Rightarrow> 's) \<Rightarrow> 's \<Rightarrow> 'e list \<Rightarrow> bool" where
  "obeys allowed step s [] = True"
| "obeys allowed step s (e # es) = (allowed s e \<and> obeys allowed step (step s e) es)"

lemma obeys_True [simp]: "obeys (\<lambda>_ _. True) step s es"
  by (induction es arbitrary: s) simp_all

locale guarded_system =
  fixes start :: "'s"
    and step :: "'s \<Rightarrow> 'e \<Rightarrow> 's"
    and allowed :: "'s \<Rightarrow> 'e \<Rightarrow> bool"
    and good :: "'s \<Rightarrow> bool"
  assumes good_start: "good start"
    and good_allowed: "good s \<Longrightarrow> allowed s e \<Longrightarrow> good (step s e)"
begin

lemma good_obeying: "good s \<Longrightarrow> obeys allowed step s es \<Longrightarrow> good (run step s es)"
  by (induction es arbitrary: s) (simp_all add: good_allowed)

lemma good_disciplined_run: "obeys allowed step start es \<Longrightarrow> good (run step start es)"
  by (rule good_obeying [OF good_start])

end

locale transition_system =
  fixes start :: "'s"
    and step :: "'s \<Rightarrow> 'e \<Rightarrow> 's"
    and good :: "'s \<Rightarrow> bool"
  assumes good_init: "good start"
    and good_step: "good s \<Longrightarrow> good (step s e)"

sublocale transition_system \<subseteq> free: guarded_system start step "\<lambda>_ _. True" good
  by unfold_locales (simp_all add: good_init good_step)

context transition_system
begin

lemma good_from: "good s \<Longrightarrow> good (run step s es)"
  by (rule free.good_obeying) simp_all

lemma good_run: "good (run step start es)"
  by (rule good_from [OF good_init])

end

section \<open>Insertion-ordered maps\<close>

text \<open>
  A JavaScript \<open>Map\<close>: its entries in the order their keys were first set. Setting a present key
  keeps its place; deleting and setting again moves it to the end.
\<close>

type_synonym ('k, 'v) jsmap = "('k \<times> 'v) list"

definition mget :: "('k, 'v) jsmap \<Rightarrow> 'k \<Rightarrow> 'v option" where
  "mget m k = map_of m k"

fun mset_key :: "'k \<Rightarrow> 'v \<Rightarrow> ('k, 'v) jsmap \<Rightarrow> ('k, 'v) jsmap" where
  "mset_key k v [] = [(k, v)]"
| "mset_key k v ((k', v') # m) = (if k' = k then (k, v) # m else (k', v') # mset_key k v m)"

definition mdel :: "'k \<Rightarrow> ('k, 'v) jsmap \<Rightarrow> ('k, 'v) jsmap" where
  "mdel k m = filter (\<lambda>e. fst e \<noteq> k) m"

definition mkeys :: "('k, 'v) jsmap \<Rightarrow> 'k list" where
  "mkeys m = map fst m"

lemma mget_Nil [simp, js_map_simps]: "mget [] k = None"
  by (simp add: mget_def)

lemma mget_Cons [simp, js_map_simps]: "mget ((k', v) # m) k = (if k = k' then Some v else mget m k)"
  by (simp add: mget_def)

lemma mget_mset [simp, js_map_simps]: "mget (mset_key k v m) k' = (if k' = k then Some v else mget m k')"
  by (induction m) auto

lemma mget_mdel [simp, js_map_simps]: "mget (mdel k m) k' = (if k' = k then None else mget m k')"
  unfolding mdel_def by (induction m) auto

lemma mkeys_mset: "mkeys (mset_key k v m) = (if k \<in> set (mkeys m) then mkeys m else mkeys m @ [k])"
  by (induction m) (auto simp: mkeys_def rev_image_eqI)

lemma mkeys_mdel: "mkeys (mdel k m) = filter (\<lambda>x. x \<noteq> k) (mkeys m)"
  unfolding mkeys_def mdel_def by (induction m) auto

lemma distinct_mkeys_mset: "distinct (mkeys m) \<Longrightarrow> distinct (mkeys (mset_key k v m))"
  by (simp add: mkeys_mset)

lemma distinct_mkeys_mdel: "distinct (mkeys m) \<Longrightarrow> distinct (mkeys (mdel k m))"
  by (simp add: mkeys_mdel)

lemma mget_None_iff: "mget m k = None \<longleftrightarrow> k \<notin> set (mkeys m)"
  unfolding mget_def mkeys_def by (simp add: map_of_eq_None_iff)

lemma mget_SomeD: "mget m k = Some v \<Longrightarrow> (k, v) \<in> set m"
  unfolding mget_def by (rule map_of_SomeD)

lemma mget_Some_iff: "distinct (mkeys m) \<Longrightarrow> mget m k = Some v \<longleftrightarrow> (k, v) \<in> set m"
  unfolding mget_def mkeys_def by (simp add: map_of_eq_Some_iff)

lemma set_mset_key: "e \<in> set (mset_key k v m) \<Longrightarrow> e = (k, v) \<or> e \<in> set m"
  by (induction m) (auto split: if_splits)

lemma set_mdel: "e \<in> set (mdel k m) \<longleftrightarrow> e \<in> set m \<and> fst e \<noteq> k"
  by (auto simp: mdel_def)

lemma length_mset_key: "length (mset_key k v m) = (if k \<in> set (mkeys m) then length m else Suc (length m))"
proof -
  have "length (mkeys (mset_key k v m)) = (if k \<in> set (mkeys m) then length (mkeys m) else Suc (length (mkeys m)))"
    by (simp add: mkeys_mset)
  then show ?thesis by (simp add: mkeys_def)
qed

text \<open>What the maps promise their clients, whatever their representation.\<close>

locale keyed_map =
  fixes get :: "'m \<Rightarrow> 'k \<Rightarrow> 'v option"
    and put :: "'k \<Rightarrow> 'v \<Rightarrow> 'm \<Rightarrow> 'm"
    and del :: "'k \<Rightarrow> 'm \<Rightarrow> 'm"
  assumes get_put: "get (put k v m) k' = (if k' = k then Some v else get m k')"
    and get_del: "get (del k m) k' = (if k' = k then None else get m k')"
begin

lemma put_del_commute: "k \<noteq> k' \<Longrightarrow> get (put k v (del k' m)) x = get (del k' (put k v m)) x"
  by (simp add: get_put get_del)

lemma del_put: "get (del k (put k v m)) x = get (del k m) x"
  by (simp add: get_put get_del)

text \<open>Deleting only when the entry is still the one a caller put there leaves every other entry.\<close>

lemma guarded_del:
  "get (if get m k = Some v then del k m else m) x = (if x = k \<and> get m k = Some v then None else get m x)"
  by (simp add: get_del)

end

interpretation jsmap: keyed_map mget mset_key mdel
  by unfold_locales simp_all

section \<open>Bounded memories\<close>

text \<open>
  A JavaScript \<open>Set\<close> used as a memory of identifiers, oldest first. The age of an entry is the
  number of entries after it: a memory that evicts oldest first keeps an entry as long as its age
  is below the capacity.
\<close>

definition sadd :: "'a \<Rightarrow> 'a list \<Rightarrow> 'a list" where
  "sadd x xs = (if x \<in> set xs then xs else xs @ [x])"

fun age :: "'a \<Rightarrow> 'a list \<Rightarrow> nat" where
  "age y [] = 0"
| "age y (x # xs) = (if y \<in> set xs then age y xs else length xs)"

lemma set_sadd [simp]: "set (sadd x xs) = insert x (set xs)"
  by (auto simp: sadd_def)

lemma distinct_sadd [simp]: "distinct (sadd x xs) = distinct xs"
  by (simp add: sadd_def)

lemma length_sadd: "length (sadd x xs) = (if x \<in> set xs then length xs else Suc (length xs))"
  by (simp add: sadd_def)

lemma age_append: "y \<in> set xs \<or> y \<in> set ys \<Longrightarrow> age y (xs @ ys) = (if y \<in> set ys then age y ys else age y xs + length ys)"
  by (induction xs) auto

lemma age_sadd: "y \<in> set xs \<Longrightarrow> age y (sadd x xs) \<le> Suc (age y xs)"
  by (cases "y = x") (auto simp: sadd_def age_append)

lemma age_less_length: "y \<in> set xs \<Longrightarrow> age y xs < length xs"
  by (induction xs) (auto simp: less_SucI)

lemma age_tl: "y \<in> set (tl xs) \<Longrightarrow> age y (tl xs) = age y xs"
  by (cases xs) auto

lemma age_hd: "distinct (x # xs) \<Longrightarrow> age x (x # xs) = length xs"
  by simp

locale bounded_memory =
  fixes remember_id :: "'a list \<Rightarrow> 'a \<Rightarrow> 'a list"
    and capacity :: nat
  assumes remember_distinct: "distinct xs \<Longrightarrow> distinct (remember_id xs x)"
    and remember_bound: "distinct xs \<Longrightarrow> length xs \<le> capacity \<Longrightarrow> length (remember_id xs x) \<le> capacity"
    and remember_new: "distinct xs \<Longrightarrow> length xs \<le> capacity \<Longrightarrow> x \<in> set (remember_id xs x)"
    and remember_subset: "set (remember_id xs x) \<subseteq> insert x (set xs)"
    and remember_fresh: "distinct xs \<Longrightarrow> length xs \<le> capacity \<Longrightarrow> x \<notin> set xs \<Longrightarrow> age x (remember_id xs x) = 0"
    and remember_age: "distinct xs \<Longrightarrow> length xs \<le> capacity \<Longrightarrow> y \<in> set xs \<Longrightarrow> Suc (age y xs) < capacity \<Longrightarrow>
          y \<in> set (remember_id xs x) \<and> age y (remember_id xs x) \<le> Suc (age y xs)"
begin

lemma bound_all:
  "distinct xs \<Longrightarrow> length xs \<le> capacity \<Longrightarrow>
   distinct (foldl remember_id xs ys) \<and> length (foldl remember_id xs ys) \<le> capacity"
  by (induction ys arbitrary: xs) (simp_all add: remember_distinct remember_bound)

lemma subset_all: "set (foldl remember_id xs ys) \<subseteq> set xs \<union> set ys"
proof (induction ys arbitrary: xs)
  case (Cons y ys)
  from Cons.IH [of "remember_id xs y"] remember_subset [of xs y] show ?case by auto
qed simp

text \<open>An entry survives as many further entries as the capacity leaves room for.\<close>

lemma retained:
  assumes "distinct xs" and "length xs \<le> capacity" and "y \<in> set xs" and "age y xs + length ys < capacity"
  shows "y \<in> set (foldl remember_id xs ys)"
  using assms
proof (induction ys arbitrary: xs)
  case (Cons z ys)
  from Cons.prems have kept: "y \<in> set (remember_id xs z)" "age y (remember_id xs z) \<le> Suc (age y xs)"
    using remember_age [of xs y z] by simp_all
  with Cons.prems show ?case
    using Cons.IH [of "remember_id xs z"] by (simp add: remember_distinct remember_bound)
qed simp

text \<open>Below its capacity the memory forgets nothing.\<close>

lemma remembered_all:
  assumes "length ys \<le> capacity"
  shows "set (foldl remember_id [] ys) = set ys"
proof
  show "set (foldl remember_id [] ys) \<subseteq> set ys" using subset_all [of "[]" ys] by simp
  show "set ys \<subseteq> set (foldl remember_id [] ys)"
  proof
    fix y assume "y \<in> set ys"
    then obtain us vs where ys: "ys = us @ y # vs" by (meson split_list)
    let ?m = "foldl remember_id [] us"
    have m: "distinct ?m" "length ?m \<le> capacity" using bound_all [of "[]" us] by simp_all
    have new: "y \<in> set (remember_id ?m y)" using m by (rule remember_new)
    have "length (remember_id ?m y) \<le> capacity" using m by (rule remember_bound)
    moreover have "age y (remember_id ?m y) + length vs < capacity \<or> vs = []"
    proof -
      have "length (remember_id ?m y) \<le> Suc (length us)"
      proof -
        have "set (remember_id ?m y) \<subseteq> set (us @ [y])" using subset_all [of "[]" us] remember_subset [of ?m y] by auto
        then have "card (set (remember_id ?m y)) \<le> length (us @ [y])"
          by (meson card_length card_mono finite_set order_trans)
        then show ?thesis using distinct_card [OF remember_distinct [OF m(1), of y]] by simp
      qed
      with age_less_length [OF new] assms ys show ?thesis by auto
    qed
    ultimately show "y \<in> set (foldl remember_id [] ys)"
      using new retained [of "remember_id ?m y" y vs] m ys by (auto simp: remember_distinct)
  qed
qed

end

text \<open>The memory that makes room before it adds, even for an entry it has.\<close>

definition remember_evicting :: "nat \<Rightarrow> 'a list \<Rightarrow> 'a \<Rightarrow> 'a list" where
  "remember_evicting n xs x = sadd x (if n \<le> length xs then tl xs else xs)"

lemma bounded_memory_evicting:
  assumes "0 < n"
  shows "bounded_memory (remember_evicting n :: 'a list \<Rightarrow> 'a \<Rightarrow> 'a list) n"
proof
  fix xs :: "'a list" and x y :: 'a
  show "distinct xs \<Longrightarrow> distinct (remember_evicting n xs x)"
    by (simp add: remember_evicting_def distinct_tl)
  show "distinct xs \<Longrightarrow> length xs \<le> n \<Longrightarrow> length (remember_evicting n xs x) \<le> n"
    using assms by (auto simp: remember_evicting_def length_sadd)
  show "distinct xs \<Longrightarrow> length xs \<le> n \<Longrightarrow> x \<in> set (remember_evicting n xs x)"
    by (simp add: remember_evicting_def)
  show "set (remember_evicting n xs x) \<subseteq> insert x (set xs)"
    by (cases xs) (auto simp: remember_evicting_def)
  show "distinct xs \<Longrightarrow> length xs \<le> n \<Longrightarrow> x \<notin> set xs \<Longrightarrow> age x (remember_evicting n xs x) = 0"
    by (cases xs) (auto simp: remember_evicting_def sadd_def age_append)
  assume a: "distinct xs" "length xs \<le> n" "y \<in> set xs" "Suc (age y xs) < n"
  show "y \<in> set (remember_evicting n xs x) \<and> age y (remember_evicting n xs x) \<le> Suc (age y xs)"
  proof (cases "n \<le> length xs")
    case True
    then obtain z zs where xs: "xs = z # zs" using assms by (cases xs) auto
    with a True have "y \<in> set (tl xs)" by (auto split: if_splits)
    then show ?thesis using True age_sadd [of y "tl xs" x] age_tl [of y xs] by (simp add: remember_evicting_def)
  next
    case False
    with a age_sadd [of y xs x] show ?thesis by (simp add: remember_evicting_def)
  qed
qed

end
