(* ===== verification/Js_Values.thy ===== *)
theory Js_Values
  imports Prelude
begin

text \<open>
  The values a TypeScript \<open>unknown\<close> can hold, as the plugin inspects them: JSON with \<open>undefined\<close>,
  numbers with their special values, and the string operations the sources use. Strings are lists
  of characters, one per UTF-16 code unit of the Latin-1 range; object properties are a list of
  entries in their own key order. Getters, prototypes and symbols are not modelled: a value the
  plugin reads came out of \<open>JSON.parse\<close> or was built as a literal.
\<close>

section \<open>Numbers\<close>

datatype jsnum = Fin rat | PInf | NInf | NaN

definition is_finite :: "jsnum \<Rightarrow> bool" where
  "is_finite n = (case n of Fin _ \<Rightarrow> True | _ \<Rightarrow> False)"

definition num_eq :: "jsnum \<Rightarrow> jsnum \<Rightarrow> bool" where
  "num_eq a b = (a = b \<and> a \<noteq> NaN)"

lemma is_finite_simps [simp]: "is_finite (Fin q)" "\<not> is_finite PInf" "\<not> is_finite NInf" "\<not> is_finite NaN"
  by (simp_all add: is_finite_def)

section \<open>Values\<close>

datatype jsval = JUndef | JNull | JBool bool | JNum jsnum | JStr string
  | JArr "jsval list" | JObj "(string \<times> jsval) list"

abbreviation jint :: "int \<Rightarrow> jsval" where
  "jint i \<equiv> JNum (Fin (of_int i))"

fun truthy :: "jsval \<Rightarrow> bool" where
  "truthy JUndef = False"
| "truthy JNull = False"
| "truthy (JBool b) = b"
| "truthy (JNum n) = (n \<noteq> Fin 0 \<and> n \<noteq> NaN)"
| "truthy (JStr s) = (s \<noteq> [])"
| "truthy (JArr _) = True"
| "truthy (JObj _) = True"

text \<open>\<open>typeof v === "object"\<close>, which \<open>null\<close> satisfies as well.\<close>

fun typeof_object :: "jsval \<Rightarrow> bool" where
  "typeof_object JNull = True"
| "typeof_object (JArr _) = True"
| "typeof_object (JObj _) = True"
| "typeof_object _ = False"

definition is_object :: "jsval \<Rightarrow> bool" where
  "is_object v = (v \<noteq> JNull \<and> typeof_object v)"

fun is_array :: "jsval \<Rightarrow> bool" where
  "is_array (JArr _) = True"
| "is_array _ = False"

text \<open>
  A named property of a value known not to be \<open>null\<close> or \<open>undefined\<close>. Only objects carry the names
  the sources read; an array has numeric indices, a \<open>length\<close> and methods, none of them such a name.
\<close>

fun jget :: "jsval \<Rightarrow> string \<Rightarrow> jsval" where
  "jget (JObj ps) k = (case map_of ps k of None \<Rightarrow> JUndef | Some v \<Rightarrow> v)"
| "jget _ k = JUndef"

text \<open>\<open>a ?? b\<close>\<close>

definition coalesce :: "jsval \<Rightarrow> jsval \<Rightarrow> jsval" where
  "coalesce a b = (if a = JUndef \<or> a = JNull then b else a)"

text \<open>Guards of the form \<open>typeof v === "string" ? v : undefined\<close>.\<close>

fun as_str :: "jsval \<Rightarrow> string option" where
  "as_str (JStr s) = Some s"
| "as_str _ = None"

fun as_bool :: "jsval \<Rightarrow> bool option" where
  "as_bool (JBool b) = Some b"
| "as_bool _ = None"

fun as_num :: "jsval \<Rightarrow> jsnum option" where
  "as_num (JNum n) = Some n"
| "as_num _ = None"

text \<open>\<open>typeof v === "number" && Number.isFinite(v)\<close>\<close>

fun as_finite :: "jsval \<Rightarrow> rat option" where
  "as_finite (JNum (Fin q)) = Some q"
| "as_finite _ = None"

fun as_arr :: "jsval \<Rightarrow> jsval list option" where
  "as_arr (JArr vs) = Some vs"
| "as_arr _ = None"

definition opt_field :: "string \<Rightarrow> 'a option \<Rightarrow> ('a \<Rightarrow> jsval) \<Rightarrow> (string \<times> jsval) list" where
  "opt_field k x f = (case x of None \<Rightarrow> [] | Some v \<Rightarrow> [(k, f v)])"

lemma as_str_Some [simp]: "as_str v = Some s \<longleftrightarrow> v = JStr s"
  by (cases v) auto

lemma as_bool_Some [simp]: "as_bool v = Some b \<longleftrightarrow> v = JBool b"
  by (cases v) auto

lemma as_num_Some [simp]: "as_num v = Some n \<longleftrightarrow> v = JNum n"
  by (cases v) auto

lemma as_finite_Some [simp]: "as_finite v = Some q \<longleftrightarrow> v = JNum (Fin q)"
  by (cases v rule: as_finite.cases) auto

lemma as_arr_Some [simp]: "as_arr v = Some vs \<longleftrightarrow> v = JArr vs"
  by (cases v) auto

lemma is_object_simps [simp]:
  "is_object (JObj ps)" "is_object (JArr vs)" "\<not> is_object JNull" "\<not> is_object JUndef"
  "\<not> is_object (JStr s)" "\<not> is_object (JBool b)" "\<not> is_object (JNum n)"
  by (simp_all add: is_object_def)

text \<open>
  \<open>a === b\<close> on two values of which neither is an object: objects are compared by reference, which
  the sources never rely on without a structural comparison after it.
\<close>

fun strict_prim :: "jsval \<Rightarrow> jsval \<Rightarrow> bool" where
  "strict_prim (JNum a) (JNum b) = num_eq a b"
| "strict_prim (JArr _) _ = False"
| "strict_prim (JObj _) _ = False"
| "strict_prim a b = (a = b)"

section \<open>Strings\<close>

text \<open>The white space of the Latin-1 range that \<open>trim\<close> and \<open>\s\<close> know.\<close>

definition is_ws :: "char \<Rightarrow> bool" where
  "is_ws c = (of_char c \<in> {9, 10, 11, 12, 13, 32, 160 :: nat})"

definition trim_start :: "string \<Rightarrow> string" where
  "trim_start s = dropWhile is_ws s"

definition trim_end :: "string \<Rightarrow> string" where
  "trim_end s = rev (dropWhile is_ws (rev s))"

definition trim :: "string \<Rightarrow> string" where
  "trim s = trim_end (trim_start s)"

definition is_digit :: "char \<Rightarrow> bool" where
  "is_digit c = (48 \<le> (of_char c :: nat) \<and> (of_char c :: nat) \<le> 57)"

definition is_upper :: "char \<Rightarrow> bool" where
  "is_upper c = (65 \<le> (of_char c :: nat) \<and> (of_char c :: nat) \<le> 90)"

definition is_lower :: "char \<Rightarrow> bool" where
  "is_lower c = (97 \<le> (of_char c :: nat) \<and> (of_char c :: nat) \<le> 122)"

definition is_alnum :: "char \<Rightarrow> bool" where
  "is_alnum c = (is_digit c \<or> is_upper c \<or> is_lower c)"

text \<open>\<open>toLowerCase\<close> on the ASCII letters and on the Latin-1 capitals.\<close>

definition lower_char :: "char \<Rightarrow> char" where
  "lower_char c = (let n = of_char c :: nat in
     if 65 \<le> n \<and> n \<le> 90 \<or> 192 \<le> n \<and> n \<le> 222 \<and> n \<noteq> 215 then char_of (n + 32) else c)"

definition lower :: "string \<Rightarrow> string" where
  "lower s = map lower_char s"

fun starts_with :: "string \<Rightarrow> string \<Rightarrow> bool" where
  "starts_with s [] = True"
| "starts_with [] (p # ps) = False"
| "starts_with (c # s) (p # ps) = (c = p \<and> starts_with s ps)"

definition ends_with :: "string \<Rightarrow> string \<Rightarrow> bool" where
  "ends_with s p = starts_with (rev s) (rev p)"

text \<open>\<open>indexOf\<close> as an option, and \<open>str_includes\<close>.\<close>

fun index_of :: "string \<Rightarrow> string \<Rightarrow> nat option" where
  "index_of [] p = (if p = [] then Some 0 else None)"
| "index_of (c # s) p = (if starts_with (c # s) p then Some 0 else map_option Suc (index_of s p))"

definition str_includes :: "string \<Rightarrow> string \<Rightarrow> bool" where
  "str_includes s p = (index_of s p \<noteq> None)"

fun join :: "string \<Rightarrow> string list \<Rightarrow> string" where
  "join sep [] = []"
| "join sep [s] = s"
| "join sep (s # t # ss) = s @ sep @ join sep (t # ss)"

lemma starts_with_iff: "starts_with s p \<longleftrightarrow> (\<exists>t. s = p @ t)"
  by (induction s p rule: starts_with.induct) auto

lemma starts_with_take: "starts_with s (take n s)"
  by (metis append_take_drop_id starts_with_iff)

lemma starts_with_refl [simp]: "starts_with s s"
  by (auto simp: starts_with_iff)

lemma starts_with_trans: "starts_with s t \<Longrightarrow> starts_with t u \<Longrightarrow> starts_with s u"
  by (auto simp: starts_with_iff)

lemma starts_with_length: "starts_with s p \<Longrightarrow> length p \<le> length s"
  by (auto simp: starts_with_iff)

lemma starts_with_take_iff: "starts_with s p \<longleftrightarrow> p = take (length p) s"
  by (metis append_eq_conv_conj starts_with_iff starts_with_take)

lemma starts_with_same_length: "starts_with s p \<Longrightarrow> length p = length s \<Longrightarrow> p = s"
  by (auto simp: starts_with_iff)

lemma starts_with_slice: "starts_with s p \<Longrightarrow> starts_with s (p @ take n (drop (length p) s))"
  by (metis append_take_drop_id drop_drop starts_with_iff append.assoc append_eq_conv_conj)

lemma starts_with_append [simp]: "starts_with (p @ t) p"
  by (auto simp: starts_with_iff)

lemma ends_with_iff: "ends_with s p \<longleftrightarrow> (\<exists>t. s = t @ p)"
  unfolding ends_with_def starts_with_iff by (metis rev_append rev_rev_ident)

lemma index_of_None: "index_of s p = None \<Longrightarrow> s \<noteq> u @ p @ v"
proof (induction s arbitrary: u)
  case (Cons c s)
  then show ?case
    by (cases u) (auto simp: starts_with_iff split: if_splits)
qed (auto split: if_splits)

lemma str_includes_iff: "str_includes s p \<longleftrightarrow> (\<exists>u v. s = u @ p @ v)"
proof
  assume "str_includes s p"
  then show "\<exists>u v. s = u @ p @ v" unfolding str_includes_def
  proof (induction s)
    case (Cons c s)
    show ?case
    proof (cases "starts_with (c # s) p")
      case True
      then show ?thesis by (metis append_Nil starts_with_iff)
    next
      case False
      with Cons obtain u v where "s = u @ p @ v" by auto
      then have "c # s = (c # u) @ p @ v" by simp
      then show ?thesis by blast
    qed
  qed (auto split: if_splits)
next
  assume "\<exists>u v. s = u @ p @ v"
  then show "str_includes s p" unfolding str_includes_def using index_of_None by blast
qed

lemma trim_idem: "trim (trim s) = trim s"
proof -
  have e: "dropWhile is_ws (dropWhile is_ws xs) = dropWhile is_ws xs" for xs by simp
  have "trim_start (trim s) = trim s"
  proof (cases "trim_start s")
    case Nil
    moreover have "trim_start (trim_end []) = trim_end []" by (simp add: trim_end_def trim_start_def)
    ultimately show ?thesis by (simp add: trim_def)
  next
    case (Cons c t)
    then have "\<not> is_ws c" using hd_dropWhile [of is_ws s] by (auto simp: trim_start_def)
    moreover have "\<exists>u. trim_end (c # t) = c # u"
      using calculation by (auto simp: trim_end_def dropWhile_append intro: exI [of _ "rev (dropWhile is_ws (rev t))"])
    ultimately show ?thesis using Cons by (auto simp: trim_def trim_start_def)
  qed
  then show ?thesis by (simp add: trim_def trim_end_def)
qed

section \<open>Decimal numerals\<close>

text \<open>\<open>String(n)\<close> of an integer below the range where JavaScript turns to exponents.\<close>

definition digit_char :: "nat \<Rightarrow> char" where
  "digit_char d = char_of (48 + d)"

fun show_nat :: "nat \<Rightarrow> string" where
  "show_nat n = (if n < 10 then [digit_char n] else show_nat (n div 10) @ [digit_char (n mod 10)])"

declare show_nat.simps [simp del]

definition show_int :: "int \<Rightarrow> string" where
  "show_int i = (if i < 0 then ''-'' @ show_nat (nat (- i)) else show_nat (nat i))"

definition digit_val :: "char \<Rightarrow> nat" where
  "digit_val c = of_char c - 48"

definition nat_of_digits :: "string \<Rightarrow> nat" where
  "nat_of_digits s = foldl (\<lambda>n c. 10 * n + digit_val c) 0 s"

lemma of_char_digit [simp]: "d < 10 \<Longrightarrow> (of_char (digit_char d) :: nat) = 48 + d"
  by (simp add: digit_char_def)

lemma digit_val_char [simp]: "d < 10 \<Longrightarrow> digit_val (digit_char d) = d"
  by (simp add: digit_val_def)

lemma is_digit_char [simp]: "d < 10 \<Longrightarrow> is_digit (digit_char d)"
  by (simp add: is_digit_def)

lemma show_nat_digits: "c \<in> set (show_nat n) \<Longrightarrow> is_digit c"
proof (induction n rule: show_nat.induct)
  case (1 n)
  then show ?case by (subst (asm) (2) show_nat.simps) (auto split: if_splits)
qed

lemma show_nat_nonempty [simp]: "show_nat n \<noteq> []"
  by (subst show_nat.simps) simp

lemma nat_of_show [simp]: "nat_of_digits (show_nat n) = n"
proof (induction n rule: show_nat.induct)
  case (1 n)
  show ?case
  proof (cases "n < 10")
    case True
    then show ?thesis by (subst show_nat.simps) (simp add: nat_of_digits_def)
  next
    case False
    then have "nat_of_digits (show_nat n) = 10 * nat_of_digits (show_nat (n div 10)) + n mod 10"
      by (subst show_nat.simps) (simp add: nat_of_digits_def)
    with False 1 show ?thesis by simp
  qed
qed

lemma show_nat_inj [simp]: "show_nat m = show_nat n \<longleftrightarrow> m = n"
  by (metis nat_of_show)

lemma show_int_inj [simp]: "show_int i = show_int j \<longleftrightarrow> i = j"
proof
  assume e: "show_int i = show_int j"
  have dash: "show_nat n \<noteq> ''-'' @ t" for n t
    using show_nat_digits [of "CHR ''-''" n] by (auto simp: is_digit_def)
  show "i = j"
  proof (cases "i < 0"; cases "j < 0")
  qed (use e dash [symmetric] dash in \<open>auto simp: show_int_def\<close>)
qed simp

text \<open>A key made of a part, a separator and a numeral determines the numeral: the separator is no digit.\<close>

lemma split_last_sep:
  fixes c :: 'a
  assumes "u @ c # s = v @ c # t" and "c \<notin> set s" and "c \<notin> set t"
  shows "u = v \<and> s = t"
proof -
  have "takeWhile (\<lambda>x. x \<noteq> c) (rev (w @ c # r)) = rev r" if "c \<notin> set r" for w r :: "'a list"
    using that by (simp add: takeWhile_append takeWhile_eq_all_conv)
  with assms have "rev s = rev t" by metis
  with assms(1) show ?thesis by simp
qed

section \<open>Conversions between strings and numbers\<close>

text \<open>
  \<open>Number(s)\<close> of a string: white space around it is dropped, the empty string is zero, and the rest
  must be a decimal literal with an optional sign and exponent, a signed \<open>Infinity\<close>, or an unsigned
  literal in base 16, 8 or 2. Values are exact where JavaScript rounds to a double.
\<close>

definition hex_val :: "char \<Rightarrow> nat option" where
  "hex_val c = (if is_digit c then Some (digit_val c)
     else let n = of_char (lower_char c) :: nat in if 97 \<le> n \<and> n \<le> 102 then Some (n - 87) else None)"

fun radix_value :: "nat \<Rightarrow> nat \<Rightarrow> string \<Rightarrow> nat option" where
  "radix_value r acc [] = Some acc"
| "radix_value r acc (c # s) = (case hex_val c of
      Some d \<Rightarrow> if d < r then radix_value r (r * acc + d) s else None
    | None \<Rightarrow> None)"

definition radix_number :: "nat \<Rightarrow> string \<Rightarrow> jsnum" where
  "radix_number r ds = (if ds = [] then NaN else case radix_value r 0 ds of Some n \<Rightarrow> Fin (of_nat n) | None \<Rightarrow> NaN)"

definition scale10 :: "rat \<Rightarrow> int \<Rightarrow> rat" where
  "scale10 q e = (if 0 \<le> e then q * 10 ^ nat e else q / 10 ^ nat (- e))"

definition exponent_of :: "string \<Rightarrow> int option" where
  "exponent_of s = (case s of
      [] \<Rightarrow> Some 0
    | c # r \<Rightarrow>
        if c \<noteq> CHR ''e'' \<and> c \<noteq> CHR ''E'' then None
        else let (neg, ds) = (case r of
                   d # ds \<Rightarrow> if d = CHR ''-'' then (True, ds) else if d = CHR ''+'' then (False, ds) else (False, r)
                 | [] \<Rightarrow> (False, []))
        in if ds = [] \<or> \<not> list_all is_digit ds then None
           else Some (if neg then - int (nat_of_digits ds) else int (nat_of_digits ds)))"

definition unsigned_decimal :: "string \<Rightarrow> jsnum" where
  "unsigned_decimal s =
     (if s = ''Infinity'' then PInf
      else let ip = takeWhile is_digit s; r1 = dropWhile is_digit s;
               (fp, r2) = (case r1 of
                   c # r \<Rightarrow> if c = CHR ''.'' then (takeWhile is_digit r, dropWhile is_digit r) else ([], r1)
                 | [] \<Rightarrow> ([], []))
      in if ip = [] \<and> fp = [] then NaN
         else case exponent_of r2 of
             None \<Rightarrow> NaN
           | Some e \<Rightarrow> Fin (scale10 (of_nat (nat_of_digits (ip @ fp))) (e - int (length fp))))"

definition js_number :: "string \<Rightarrow> jsnum" where
  "js_number raw =
     (let s = trim raw in
      if s = [] then Fin 0
      else if starts_with s ''0x'' \<or> starts_with s ''0X'' then radix_number 16 (drop 2 s)
      else if starts_with s ''0o'' \<or> starts_with s ''0O'' then radix_number 8 (drop 2 s)
      else if starts_with s ''0b'' \<or> starts_with s ''0B'' then radix_number 2 (drop 2 s)
      else if hd s = CHR ''-'' then
        (case unsigned_decimal (tl s) of Fin q \<Rightarrow> Fin (- q) | PInf \<Rightarrow> NInf | _ \<Rightarrow> NaN)
      else unsigned_decimal (if hd s = CHR ''+'' then tl s else s))"

text \<open>
  What the language leaves to the runtime: the digits of a number that is no small integer, and the
  instant \<open>Date.parse\<close> reads out of a string.
\<close>

record runtime =
  fmt_num :: "rat \<Rightarrow> string"
  date_parse :: "string \<Rightarrow> int option"

definition num_to_string :: "runtime \<Rightarrow> jsnum \<Rightarrow> string" where
  "num_to_string R n = (case n of
      Fin q \<Rightarrow> if q = of_int \<lfloor>q\<rfloor> \<and> \<bar>q\<bar> < 10 ^ 21 then show_int \<lfloor>q\<rfloor> else fmt_num R q
    | PInf \<Rightarrow> ''Infinity'' | NInf \<Rightarrow> ''-Infinity'' | NaN \<Rightarrow> ''NaN'')"

text \<open>\<open>String(v)\<close>; an array joins its items, of which \<open>null\<close> and \<open>undefined\<close> are empty.\<close>

fun to_string :: "runtime \<Rightarrow> jsval \<Rightarrow> string" where
  "to_string R JUndef = ''undefined''"
| "to_string R JNull = ''null''"
| "to_string R (JBool b) = (if b then ''true'' else ''false'')"
| "to_string R (JNum n) = num_to_string R n"
| "to_string R (JStr s) = s"
| "to_string R (JArr vs) = join '','' (map (\<lambda>v. if v = JNull \<or> v = JUndef then [] else to_string R v) vs)"
| "to_string R (JObj ps) = ''[object Object]''"

text \<open>\<open>Object.keys\<close> and \<open>o[k]\<close> of any value but \<open>null\<close> and \<open>undefined\<close>, for what comes out of JSON.\<close>

fun object_keys :: "jsval \<Rightarrow> string list" where
  "object_keys (JObj ps) = map fst ps"
| "object_keys (JArr vs) = map show_nat [0..<length vs]"
| "object_keys (JStr s) = map show_nat [0..<length s]"
| "object_keys _ = []"

lemma nat_of_digits_numeral: "js_number (show_nat n) = Fin (of_nat n)"
proof -
  have d: "is_digit c" if "c \<in> set (show_nat n)" for c using that by (rule show_nat_digits)
  then have ws: "\<not> is_ws c" if "c \<in> set (show_nat n)" for c using that by (fastforce simp: is_digit_def is_ws_def)
  then have t: "trim (show_nat n) = show_nat n"
  proof -
    have dw: "dropWhile is_ws xs = xs" if "\<forall>c \<in> set xs. \<not> is_ws c" for xs
      using that by (cases xs) auto
    have "trim_start (show_nat n) = show_nat n" using dw ws by (simp add: trim_start_def)
    moreover have "trim_end (show_nat n) = show_nat n" using dw [of "rev (show_nat n)"] ws by (simp add: trim_end_def)
    ultimately show ?thesis by (simp add: trim_def)
  qed
  have nd: "c \<notin> set (show_nat n)" if "\<not> is_digit c" for c using d that by blast
  have sw: "\<not> starts_with (show_nat n) [a, c]" if "\<not> is_digit c" for a c
    using nd [OF that] by (auto simp: starts_with_iff)
  have hd: "hd (show_nat n) \<noteq> CHR ''-''" "hd (show_nat n) \<noteq> CHR ''+''"
    using d [of "hd (show_nat n)"] by (auto simp: is_digit_def)
  have tk: "takeWhile is_digit (show_nat n) = show_nat n" "dropWhile is_digit (show_nat n) = []"
    using d by (simp_all add: takeWhile_eq_all_conv dropWhile_eq_Nil_conv)
  have "show_nat n \<noteq> ''Infinity''" using nd [of "CHR ''I''"] by (auto simp: is_digit_def)
  then have "unsigned_decimal (show_nat n) = Fin (of_nat n)"
    by (simp add: unsigned_decimal_def tk exponent_of_def scale10_def)
  moreover have "\<not> starts_with (show_nat n) ''0x'' \<and> \<not> starts_with (show_nat n) ''0X'' \<and>
      \<not> starts_with (show_nat n) ''0o'' \<and> \<not> starts_with (show_nat n) ''0O'' \<and>
      \<not> starts_with (show_nat n) ''0b'' \<and> \<not> starts_with (show_nat n) ''0B''"
    by (intro conjI sw) (simp_all add: is_digit_def)
  ultimately show ?thesis using hd by (simp add: js_number_def t Let_def)
qed

end
