(* ===== verification/A2UI_Core.thy ===== *)
theory A2UI_Core
  imports Js_Values "HOL-Library.Monad_Syntax" "HOL-Library.Sublist"
begin

text \<open>
  The chat kit for A2UI surfaces (\<open>frontend/src/lib/a2ui/core.ts\<close>, copied into the mobile app): the flat list
  of components an agent sends becomes a typed tree, or nothing when any of it has the wrong shape; its
  values are read from a local data model by JSON Pointers, which the inputs write. Every \<open>fail()\<close> of the
  source ends the whole parse, so a parser returns an option. Types are erased: a \<open>Dynamic\<close> value stays
  the checked value it is. The recursion is total: a component can be used once only, so the unused ones
  get fewer. The two functions on dates are not modelled.
\<close>

section \<open>Values of the right shape\<close>

definition CATALOG_ID :: string where "CATALOG_ID = ''https://clawbits.ai/a2ui/chat/v1''"

definition TONES :: "string list" where "TONES = [''ok'', ''info'', ''warn'', ''bad'', ''idle'']"

definition JUSTIFY :: "string list" where
  "JUSTIFY = [''start'', ''center'', ''end'', ''spaceBetween'', ''spaceAround'', ''spaceEvenly'', ''stretch'']"

definition ALIGN :: "string list" where "ALIGN = [''start'', ''center'', ''end'', ''stretch'']"

definition CHECKS :: "string list" where "CHECKS = [''required'', ''length'', ''email'']"

text \<open>\<open>/^https:\/\/[A-Za-z0-9.-]+(?::\d{1,5})?(?:[/?#]\S*)?$/\<close>: the host ends where its characters do.\<close>

definition host_char :: "char \<Rightarrow> bool" where
  "host_char c = (is_alnum c \<or> c = CHR ''.'' \<or> c = CHR ''-'')"

definition url_tail :: "string \<Rightarrow> bool" where
  "url_tail s = (case s of [] \<Rightarrow> True
    | c # r \<Rightarrow> c \<in> {CHR ''/'', CHR ''?'', CHR ''#''} \<and> list_all (\<lambda>x. \<not> is_ws x) r)"

definition HTTPS_URL :: "string \<Rightarrow> bool" where
  "HTTPS_URL s =
     (starts_with s ''https://'' \<and>
      (let r = drop 8 s; host = takeWhile host_char r; after = dropWhile host_char r in
       host \<noteq> [] \<and>
       (case after of
          [] \<Rightarrow> True
        | c # t \<Rightarrow>
            if c = CHR '':'' then
              (let port = takeWhile is_digit t in
               1 \<le> length port \<and> length port \<le> 5 \<and> url_tail (dropWhile is_digit t))
            else url_tail after)))"

definition INDEX :: "string \<Rightarrow> bool" where
  "INDEX s = (s = ''0'' \<or> (s \<noteq> [] \<and> hd s \<noteq> CHR ''0'' \<and> list_all is_digit s))"

text \<open>\<open>/^[^\s@]+@[^\s@]+\.[^\s@]+$/\<close>: one at sign, and a dot inside what follows it.\<close>

definition EMAIL :: "string \<Rightarrow> bool" where
  "EMAIL s =
     (let user = takeWhile (\<lambda>c. c \<noteq> CHR ''@'') s; domain = drop (Suc (length user)) s in
      user \<noteq> [] \<and> length user < length s \<and> list_all (\<lambda>c. \<not> is_ws c) (user @ domain) \<and> CHR ''@'' \<notin> set domain \<and>
      list_ex (\<lambda>i. domain ! i = CHR ''.'') [1..<length domain - 1])"

definition as_obj :: "jsval \<Rightarrow> (string \<times> jsval) list option" where
  "as_obj v = (case v of JObj ps \<Rightarrow> Some ps | _ \<Rightarrow> None)"

definition field :: "(string \<times> jsval) list \<Rightarrow> string \<Rightarrow> jsval" where
  "field ps k = jget (JObj ps) k"

definition has_key :: "(string \<times> jsval) list \<Rightarrow> string \<Rightarrow> bool" where
  "has_key ps k = (k \<in> fst ` set ps)"

definition positive :: "jsval \<Rightarrow> rat option" where
  "positive v = (case as_finite v of Some q \<Rightarrow> if q > 0 then Some q else None | None \<Rightarrow> None)"

definition cell :: "jsval \<Rightarrow> jsval option" where
  "cell v = (if as_str v \<noteq> None \<or> as_finite v \<noteq> None then Some v else None)"

definition optional :: "jsval \<Rightarrow> (jsval \<Rightarrow> 'a option) \<Rightarrow> 'a option option" where
  "optional v parse = (if v = JUndef then Some None else map_option Some (parse v))"

definition list_of :: "jsval \<Rightarrow> (jsval \<Rightarrow> 'a option) \<Rightarrow> 'a list option" where
  "list_of v parse = (case v of JArr vs \<Rightarrow> those (map parse vs) | _ \<Rightarrow> None)"

definition filled :: "'a list \<Rightarrow> 'a list option" where
  "filled xs = (if xs = [] then None else Some xs)"

definition entry :: "((string \<times> jsval) list \<Rightarrow> 'a option) \<Rightarrow> jsval \<Rightarrow> 'a option" where
  "entry parse v = Option.bind (as_obj v) parse"

definition oneOf :: "string list \<Rightarrow> jsval \<Rightarrow> string option \<Rightarrow> string option" where
  "oneOf allowed v fallback =
     (if v = JUndef \<and> fallback \<noteq> None then fallback else List.find (\<lambda>a. JStr a = v) allowed)"

section \<open>Bindings and calls\<close>

lemma size_field: "size (field ps k) < size (JObj ps)"
proof (cases "map_of ps k")
  case None
  then show ?thesis by (simp add: field_def)
next
  case (Some v)
  then have "(k, v) \<in> set ps" by (rule map_of_SomeD)
  then have "size v < size_list (size_prod (\<lambda>_. 0) size) ps"
    by (induction ps) auto
  with Some show ?thesis by (simp add: field_def)
qed

lemma size_entry: "(k, v) \<in> set ps \<Longrightarrow> size v < size (JObj ps)"
proof -
  assume "(k, v) \<in> set ps"
  then have "size v < size_list (size_prod (\<lambda>_. 0) size) ps" by (induction ps) auto
  then show ?thesis by simp
qed

lemma size_field2: "Suc (2 * size (field ps k)) < 2 * size (JObj ps)"
  using size_field [of ps k] by linarith

lemma size_entry2: "(k, v) \<in> set ps \<Longrightarrow> 2 * size v < Suc (2 * size (JObj ps))"
  using size_entry [of k v ps] by linarith

definition bound_value :: "jsval \<Rightarrow> bool" where
  "bound_value v = (case v of JObj ps \<Rightarrow> has_key ps ''@path'' \<or> has_key ps ''@call'' | _ \<Rightarrow> False)"

function (sequential) bound :: "jsval \<Rightarrow> jsval option"
  and record_of :: "jsval \<Rightarrow> (string \<times> jsval) list option" where
  "bound (JObj ps) =
     (if has_key ps ''@path'' then map_option (\<lambda>p. JObj [(''@path'', JStr p)]) (as_str (field ps ''@path''))
      else do {
        f \<leftarrow> oneOf CHECKS (field ps ''@call'') None;
        args \<leftarrow> record_of (field ps ''args'');
        Some (JObj [(''@call'', JStr f), (''args'', JObj args)])
      })"
| "bound _ = None"
| "record_of (JObj ps) =
     those (map (\<lambda>(k, item). if bound_value item then map_option (Pair k) (bound item) else Some (k, item)) ps)"
| "record_of _ = None"
  by pat_completeness auto

termination
  by (relation "measure (\<lambda>x. case x of Inl v \<Rightarrow> 2 * size v | Inr v \<Rightarrow> 2 * size v + 1)")
    (auto simp del: jsval.size simp: size_field2 size_entry2)

definition dynamic :: "(jsval \<Rightarrow> jsval option) \<Rightarrow> jsval \<Rightarrow> jsval option" where
  "dynamic literal v = (case v of JObj _ \<Rightarrow> bound v | _ \<Rightarrow> literal v)"

definition text_value :: "jsval \<Rightarrow> jsval option" where
  "text_value = dynamic (\<lambda>v. map_option JStr (as_str v))"

definition flag :: "jsval \<Rightarrow> jsval option" where
  "flag = dynamic (\<lambda>v. map_option JBool (as_bool v))"

definition strings :: "jsval \<Rightarrow> jsval option" where
  "strings = dynamic (\<lambda>v. map_option (\<lambda>ss. JArr (map JStr ss)) (list_of v as_str))"

section \<open>Nodes\<close>

datatype ui_action = Link string | Send string "(string \<times> jsval) list" "jsval option"

datatype check = Check (condition: jsval) (check_message: "string option")

datatype ui_node =
    UiText string jsval string
  | UiBox string string "ui_node list" string string
  | UiCard string ui_node
  | UiDivider string
  | UiButton string ui_node string ui_action "check list"
  | UiTextField string jsval jsval string "check list"
  | UiChoicePicker string "jsval option" "(jsval \<times> string) list" jsval string
  | UiCheckBox string jsval jsval
  | UiDateTimeInput string jsval jsval bool bool
  | UiNotice string string "string option" string
  | UiKeyValue string "(string \<times> string) list"
  | UiStats string "(string \<times> string \<times> string option \<times> string option \<times> string option) list"
  | UiStatusList string "(string \<times> string option \<times> string) list"
  | UiTable string string "string list" "jsval list list" "rat option"
  | UiPie string string "string option" "string option" "(string \<times> rat) list"
  | UiSeries string string "string option" "string option" string "string list" "(string \<times> rat list) list"

definition action_of :: "jsval \<Rightarrow> ui_action option" where
  "action_of v = do {
     fs \<leftarrow> as_obj v;
     if field fs ''functionCall'' \<noteq> JUndef then do {
       call \<leftarrow> as_obj (field fs ''functionCall'');
       args \<leftarrow> as_obj (field call ''args'');
       url \<leftarrow> as_str (field args ''url'');
       if field call ''@call'' = JStr ''openUrl'' \<and> HTTPS_URL url then Some (Link url) else None
     } else do {
       event \<leftarrow> as_obj (field fs ''event'');
       name \<leftarrow> as_str (field event ''name'');
       ctx \<leftarrow> (if field event ''context'' = JUndef then Some [] else record_of (field event ''context''));
       msg \<leftarrow> optional (field event ''userMessage'') text_value;
       Some (Send name ctx msg)
     }
   }"

definition check_of :: "(string \<times> jsval) list \<Rightarrow> check option" where
  "check_of c = do {
     cond \<leftarrow> as_obj (field c ''condition'');
     b \<leftarrow> bound (JObj cond);
     msg \<leftarrow> optional (field c ''message'') as_str;
     Some (Check b msg)
   }"

definition checks_of :: "jsval \<Rightarrow> check list option" where
  "checks_of v = (if v = JUndef then Some [] else list_of v (entry check_of))"

definition segment_of :: "(string \<times> jsval) list \<Rightarrow> (string \<times> rat) option" where
  "segment_of s = do { l \<leftarrow> as_str (field s ''label''); v \<leftarrow> positive (field s ''value''); Some (l, v) }"

definition series_of :: "(string \<times> jsval) list \<Rightarrow> (string \<times> rat list) option" where
  "series_of s = do { n \<leftarrow> as_str (field s ''name''); vs \<leftarrow> list_of (field s ''values'') as_finite; Some (n, vs) }"

definition chart :: "(string \<times> jsval) list \<Rightarrow> string \<Rightarrow> ui_node option" where
  "chart c i = do {
     title \<leftarrow> as_str (field c ''title'');
     x \<leftarrow> optional (field c ''xLabel'') as_str;
     y \<leftarrow> optional (field c ''yLabel'') as_str;
     if field c ''chartType'' = JStr ''pie'' then do {
       parsed \<leftarrow> list_of (field c ''segments'') (entry segment_of);
       segments \<leftarrow> filled parsed;
       Some (UiPie i title x y segments)
     } else do {
       names \<leftarrow> list_of (field c ''categories'') as_str;
       categories \<leftarrow> filled names;
       parsed \<leftarrow> list_of (field c ''series'') (entry series_of);
       series \<leftarrow> filled parsed;
       if list_ex (\<lambda>s. length (snd s) \<noteq> length categories) series then None
       else do {
         t \<leftarrow> oneOf [''bar'', ''line'', ''area''] (field c ''chartType'') None;
         Some (UiSeries i title x y t categories series)
       }
     }
   }"

text \<open>
  The children a component names, in the order \<open>node\<close> asks for them, and the node made of the fields and
  the children built before. In the source \<open>node\<close> calls \<open>child\<close> where it comes to the field; a failure
  anywhere ends the parse either way.
\<close>

definition child_ids :: "(string \<times> jsval) list \<Rightarrow> jsval list option" where
  "child_ids c =
     (if field c ''component'' \<in> {JStr ''Column'', JStr ''Row''} then as_arr (field c ''children'')
      else if field c ''component'' \<in> {JStr ''Card'', JStr ''Button''} then Some [field c ''child'']
      else Some [])"

definition button_node :: "(string \<times> jsval) list \<Rightarrow> string \<Rightarrow> ui_node \<Rightarrow> ui_node option" where
  "button_node c i label = (case label of
      UiText _ _ _ \<Rightarrow> do {
        variant \<leftarrow> oneOf [''default'', ''primary'', ''borderless''] (field c ''variant'') (Some ''default'');
        act \<leftarrow> action_of (field c ''action'');
        cs \<leftarrow> checks_of (field c ''checks'');
        Some (UiButton i label variant act cs)
      }
    | _ \<Rightarrow> None)"

definition text_field_node :: "(string \<times> jsval) list \<Rightarrow> string \<Rightarrow> ui_node option" where
  "text_field_node c i = do {
     label \<leftarrow> text_value (field c ''label'');
     val \<leftarrow> text_value (field c ''value'');
     variant \<leftarrow> oneOf [''shortText'', ''longText'', ''number''] (field c ''variant'') (Some ''shortText'');
     cs \<leftarrow> checks_of (field c ''checks'');
     Some (UiTextField i label val variant cs)
   }"

definition option_of :: "(string \<times> jsval) list \<Rightarrow> (jsval \<times> string) option" where
  "option_of o1 = do { l \<leftarrow> text_value (field o1 ''label''); v \<leftarrow> as_str (field o1 ''value''); Some (l, v) }"

definition choice_picker :: "(string \<times> jsval) list \<Rightarrow> string \<Rightarrow> ui_node option" where
  "choice_picker c i = do {
     label \<leftarrow> optional (field c ''label'') text_value;
     options \<leftarrow> list_of (field c ''options'') (entry option_of);
     val \<leftarrow> strings (field c ''value'');
     variant \<leftarrow> oneOf [''mutuallyExclusive'', ''multipleSelection''] (field c ''variant'') (Some ''mutuallyExclusive'');
     Some (UiChoicePicker i label options val variant)
   }"

definition date_time_input :: "(string \<times> jsval) list \<Rightarrow> string \<Rightarrow> ui_node option" where
  "date_time_input c i = do {
     label \<leftarrow> text_value (field c ''label'');
     val \<leftarrow> text_value (field c ''value'');
     d \<leftarrow> optional (field c ''enableDate'') as_bool;
     t \<leftarrow> optional (field c ''enableTime'') as_bool;
     Some (UiDateTimeInput i label val (d = Some True) (t = Some True))
   }"

definition stat_of :: "(string \<times> jsval) list \<Rightarrow> (string \<times> string \<times> string option \<times> string option \<times> string option) option" where
  "stat_of s = do {
     l \<leftarrow> as_str (field s ''label'');
     v \<leftarrow> as_str (field s ''value'');
     u \<leftarrow> optional (field s ''unit'') as_str;
     d \<leftarrow> optional (field s ''delta'') as_str;
     t \<leftarrow> optional (field s ''trend'') (\<lambda>t. oneOf [''up'', ''down'', ''flat''] t None);
     Some (l, v, u, d, t)
   }"

definition status_of :: "(string \<times> jsval) list \<Rightarrow> (string \<times> string option \<times> string) option" where
  "status_of s = do {
     t \<leftarrow> as_str (field s ''title'');
     u \<leftarrow> optional (field s ''subtitle'') as_str;
     tone \<leftarrow> oneOf TONES (field s ''tone'') None;
     Some (t, u, tone)
   }"

definition key_value :: "(string \<times> jsval) list \<Rightarrow> (string \<times> string) option" where
  "key_value s = do { l \<leftarrow> as_str (field s ''label''); v \<leftarrow> as_str (field s ''value''); Some (l, v) }"

definition ui_table :: "(string \<times> jsval) list \<Rightarrow> string \<Rightarrow> ui_node option" where
  "ui_table c i = do {
     caption \<leftarrow> as_str (field c ''caption'');
     headers \<leftarrow> list_of (field c ''headers'') as_str;
     rows \<leftarrow> list_of (field c ''rows'') (\<lambda>row. list_of row cell);
     j \<leftarrow> optional (field c ''rowHeaderColumnIndex'') as_finite;
     Some (UiTable i caption headers rows j)
   }"

text \<open>The components without children, by name.\<close>

definition leaf_node :: "(string \<times> jsval) list \<Rightarrow> string \<Rightarrow> ui_node option" where
  "leaf_node c i =
     (let name = field c ''component'' in
      if name = JStr ''Text'' then do {
        t \<leftarrow> text_value (field c ''text'');
        variant \<leftarrow> oneOf [''caption'', ''body''] (field c ''variant'') (Some ''body'');
        Some (UiText i t variant) }
      else if name = JStr ''Divider'' then Some (UiDivider i)
      else if name = JStr ''TextField'' then text_field_node c i
      else if name = JStr ''ChoicePicker'' then choice_picker c i
      else if name = JStr ''CheckBox'' then do {
        label \<leftarrow> text_value (field c ''label'');
        val \<leftarrow> flag (field c ''value'');
        Some (UiCheckBox i label val) }
      else if name = JStr ''DateTimeInput'' then date_time_input c i
      else if name = JStr ''Notice'' then do {
        tone \<leftarrow> oneOf TONES (field c ''tone'') None;
        title \<leftarrow> optional (field c ''title'') as_str;
        t \<leftarrow> as_str (field c ''text'');
        Some (UiNotice i tone title t) }
      else if name = JStr ''KeyValue'' then map_option (UiKeyValue i) (list_of (field c ''items'') (entry key_value))
      else if name = JStr ''Stats'' then map_option (UiStats i) (list_of (field c ''items'') (entry stat_of))
      else if name = JStr ''StatusList'' then map_option (UiStatusList i) (list_of (field c ''items'') (entry status_of))
      else if name = JStr ''Table'' then ui_table c i
      else if name = JStr ''Chart'' then chart c i
      else None)"

definition node :: "(string \<times> jsval) list \<Rightarrow> string \<Rightarrow> ui_node list \<Rightarrow> ui_node option" where
  "node c i kids =
     (case field c ''component'' of
        JStr name \<Rightarrow>
          if name = ''Column'' \<or> name = ''Row'' then do {
            j \<leftarrow> oneOf JUSTIFY (field c ''justify'') (Some ''start'');
            a \<leftarrow> oneOf ALIGN (field c ''align'') (Some ''stretch'');
            Some (UiBox name i kids j a) }
          else if name = ''Card'' then Some (UiCard i (hd kids))
          else if name = ''Button'' then button_node c i (hd kids)
          else leaf_node c i
      | _ \<Rightarrow> None)"

section \<open>The tree\<close>

type_synonym table = "(string, (string \<times> jsval) list) jsmap"

function (sequential) child :: "table \<Rightarrow> string list \<Rightarrow> jsval \<Rightarrow> (ui_node \<times> string list) option"
  and children :: "table \<Rightarrow> string list \<Rightarrow> jsval list \<Rightarrow> (ui_node list \<times> string list) option" where
  "child byId used (JStr key) =
     (case mget byId key of
        None \<Rightarrow> None
      | Some component \<Rightarrow>
          if key \<in> set used then None
          else (case child_ids component of
              None \<Rightarrow> None
            | Some ids \<Rightarrow>
                (case children byId (key # used) ids of
                   None \<Rightarrow> None
                 | Some (ns, used') \<Rightarrow> map_option (\<lambda>n. (n, used')) (node component key ns))))"
| "child byId used _ = None"
| "children byId used [] = Some ([], used)"
| "children byId used (i # is) =
     (case child byId used i of
        None \<Rightarrow> None
      | Some (n, used1) \<Rightarrow>
          (case children byId used1 is of None \<Rightarrow> None | Some (ns, used2) \<Rightarrow> Some (n # ns, used2)))"
  by pat_completeness auto

text \<open>What was used stays used, so a branch never has more components left than the one before it.\<close>

lemma used_grows:
  "child_children_dom (Inl (byId, used, i)) \<Longrightarrow> child byId used i = Some (n, used') \<Longrightarrow> set used \<subseteq> set used'"
  "child_children_dom (Inr (byId, used, is)) \<Longrightarrow> children byId used is = Some (ns, used') \<Longrightarrow> set used \<subseteq> set used'"
proof (induction arbitrary: n used' and ns used' rule: child_children.pinduct)
qed (auto simp: child.psimps children.psimps split: option.splits if_splits prod.splits, blast+)

definition unused :: "table \<Rightarrow> string list \<Rightarrow> nat" where
  "unused byId used = card (set (mkeys byId) - set used)"

lemma unused_mono: "set used \<subseteq> set used' \<Longrightarrow> unused byId used' \<le> unused byId used"
  by (auto simp: unused_def intro: card_mono)

lemma unused_less: "mget byId key = Some c \<Longrightarrow> key \<notin> set used \<Longrightarrow> unused byId (key # used) < unused byId used"
proof -
  assume "mget byId key = Some c" "key \<notin> set used"
  then have "key \<in> set (mkeys byId) - set used" using mget_None_iff [of byId key] by auto
  moreover have "set (mkeys byId) - set (key # used) = set (mkeys byId) - set used - {key}" by auto
  ultimately show ?thesis unfolding unused_def by (metis List.finite_set card_Diff1_less finite_Diff)
qed

termination child
proof (relation "measures [\<lambda>x. case x of Inl (b, u, i) \<Rightarrow> unused b u | Inr (b, u, is) \<Rightarrow> unused b u,
                           \<lambda>x. case x of Inl _ \<Rightarrow> 0 | Inr (b, u, is) \<Rightarrow> Suc (length is)]", goal_cases)
  case (4 byId used i "is" a n used1)
  then show ?case using used_grows(1) [of byId used i n used1] unused_mono [of used used1 byId] by auto
qed (auto simp: unused_less)

declare child.simps [simp del] children.simps [simp del]

text \<open>The map of the components by their identifiers: a component without one, or with a taken one, fails.\<close>

fun index_components :: "table \<Rightarrow> jsval list \<Rightarrow> table option" where
  "index_components byId [] = Some byId"
| "index_components byId (item # items) = do {
     component \<leftarrow> as_obj item;
     i \<leftarrow> as_str (field component ''id'');
     if mget byId i \<noteq> None then None else index_components (mset_key i component byId) items
   }"

definition buildTree :: "string \<Rightarrow> jsval list \<Rightarrow> ui_node option" where
  "buildTree catalogId components =
     (if catalogId \<noteq> CATALOG_ID then None
      else case index_components [] components of
          None \<Rightarrow> None
        | Some byId \<Rightarrow> map_option fst (child byId [] (JStr ''root'')))"

section \<open>What a tree is\<close>

text \<open>The identifiers of a tree, a node's before those of its children.\<close>

fun ui_id :: "ui_node \<Rightarrow> string" where
  "ui_id (UiText i _ _) = i" | "ui_id (UiBox _ i _ _ _) = i" | "ui_id (UiCard i _) = i" | "ui_id (UiDivider i) = i"
| "ui_id (UiButton i _ _ _ _) = i" | "ui_id (UiTextField i _ _ _ _) = i" | "ui_id (UiChoicePicker i _ _ _ _) = i"
| "ui_id (UiCheckBox i _ _) = i" | "ui_id (UiDateTimeInput i _ _ _ _) = i" | "ui_id (UiNotice i _ _ _) = i"
| "ui_id (UiKeyValue i _) = i" | "ui_id (UiStats i _) = i" | "ui_id (UiStatusList i _) = i" | "ui_id (UiTable i _ _ _ _) = i"
| "ui_id (UiPie i _ _ _ _) = i" | "ui_id (UiSeries i _ _ _ _ _ _) = i"

fun ui_kids :: "ui_node \<Rightarrow> ui_node list" where
  "ui_kids (UiBox _ _ ns _ _) = ns"
| "ui_kids (UiCard _ n) = [n]"
| "ui_kids (UiButton _ n _ _ _) = [n]"
| "ui_kids _ = []"

fun node_ids :: "ui_node \<Rightarrow> string list" where
  "node_ids (UiBox _ i ns _ _) = i # concat (map node_ids ns)"
| "node_ids (UiCard i n) = i # node_ids n"
| "node_ids (UiButton i n _ _ _) = i # node_ids n"
| "node_ids n = [ui_id n]"

lemma node_ids_kids: "node_ids n = ui_id n # concat (map node_ids (ui_kids n))"
  by (cases n) simp_all

text \<open>
  The specification of the tree under a reference, without the bookkeeping of \<open>child\<close>: the component of that
  identifier has the right shape, and its children are the trees under the references it holds.
\<close>

inductive renders :: "table \<Rightarrow> jsval \<Rightarrow> ui_node \<Rightarrow> bool" for byId where
  renders: "mget byId key = Some c \<Longrightarrow> child_ids c = Some ids \<Longrightarrow> list_all2 (renders byId) ids ns \<Longrightarrow>
     node c key ns = Some n \<Longrightarrow> renders byId (JStr key) n"
  monos list.rel_mono_strong

lemma leaf_node_shape: "leaf_node c i = Some n \<Longrightarrow> ui_id n = i \<and> ui_kids n = []"
  by (auto simp: leaf_node_def text_field_node_def choice_picker_def date_time_input_def ui_table_def chart_def Let_def
      split: if_splits bind_splits option.splits)

lemma button_node_shape: "button_node c i label = Some n \<Longrightarrow> ui_id n = i \<and> ui_kids n = [label]"
  by (auto simp: button_node_def split: if_splits bind_splits ui_node.splits)

lemma node_shape:
  assumes "child_ids c = Some ids" and "length ns = length ids" and "node c i ns = Some n"
  shows "ui_id n = i \<and> ui_kids n = ns"
  using assms leaf_node_shape [of c i n] button_node_shape [of c i "hd ns" n]
  by (auto simp: node_def child_ids_def length_Suc_conv split: jsval.splits if_splits bind_splits)

text \<open>A parsed tree is the one the specification gives; it holds each identifier once, and those are the used ones.\<close>

lemma child_sound:
  "child byId used i = Some (n, used') \<Longrightarrow>
     renders byId i n \<and> distinct (node_ids n) \<and> set (node_ids n) \<inter> set used = {} \<and> set used' = set used \<union> set (node_ids n)"
  "children byId used is = Some (ns, used') \<Longrightarrow>
     list_all2 (renders byId) is ns \<and> distinct (concat (map node_ids ns)) \<and>
     set (concat (map node_ids ns)) \<inter> set used = {} \<and> set used' = set used \<union> set (concat (map node_ids ns))"
proof (induction byId used i and byId used "is" arbitrary: n used' and ns used' rule: child_children.induct)
  case (1 byId used key)
  from "1.prems" obtain c ids ns where c: "mget byId key = Some c" "key \<notin> set used" "child_ids c = Some ids"
    and ns: "children byId (key # used) ids = Some (ns, used')" and n: "node c key ns = Some n"
    by (auto simp: child.simps split: option.splits if_splits prod.splits)
  from "1.IH" [OF c ns] have ih: "list_all2 (renders byId) ids ns" "distinct (concat (map node_ids ns))"
    "set (concat (map node_ids ns)) \<inter> set (key # used) = {}" "set used' = set (key # used) \<union> set (concat (map node_ids ns))"
    by simp_all
  have "ui_id n = key \<and> ui_kids n = ns" by (rule node_shape [OF c(3) list_all2_lengthD [OF ih(1), symmetric] n])
  then have ids: "node_ids n = key # concat (map node_ids ns)" using node_ids_kids [of n] by simp
  have "renders byId (JStr key) n" using c(1,3) ih(1) n by (rule renders)
  then show ?case unfolding ids using ih(2-) c(2) by auto
next
  case (4 byId used i "is")
  from "4.prems" obtain n1 u1 ns1 where i: "child byId used i = Some (n1, u1)"
    and tail: "children byId u1 is = Some (ns1, used')" and ns: "ns = n1 # ns1"
    by (auto simp: children.simps split: option.splits prod.splits)
  from "4.IH"(1) [OF i] "4.IH"(2) [OF i refl tail] show ?case unfolding ns by auto
qed (simp_all add: child.simps children.simps)

lemma child_complete:
  "renders byId i n \<Longrightarrow> distinct (node_ids n) \<Longrightarrow> set (node_ids n) \<inter> set used = {} \<Longrightarrow>
   \<exists>used'. child byId used i = Some (n, used')"
proof (induction arbitrary: used rule: renders.induct)
  case (renders key c ids ns n)
  have all: "\<exists>used'. children byId used is = Some (ms, used')"
    if "list_all2 (\<lambda>i n. renders byId i n \<and> (\<forall>u. distinct (node_ids n) \<longrightarrow> set (node_ids n) \<inter> set u = {} \<longrightarrow>
          (\<exists>u'. child byId u i = Some (n, u')))) is ms"
      "distinct (concat (map node_ids ms))" "set (concat (map node_ids ms)) \<inter> set used = {}" for "is" ms used
    using that
  proof (induction "is" ms arbitrary: used rule: list_all2_induct)
    case (Cons i "is" m ms)
    then obtain u1 where u1: "child byId used i = Some (m, u1)" by auto
    from child_sound(1) [OF u1] Cons.prems have "set (concat (map node_ids ms)) \<inter> set u1 = {}" by auto
    with Cons.IH [of u1] Cons.prems obtain u2 where "children byId u1 is = Some (ms, u2)" by auto
    with u1 show ?case by (simp add: children.simps)
  qed (simp add: children.simps)
  have r: "list_all2 (renders byId) ids ns" using renders.IH by (rule list_all2_mono) simp
  have "ui_id n = key \<and> ui_kids n = ns"
    by (rule node_shape [OF renders.hyps(2) list_all2_lengthD [OF r, symmetric] renders.hyps(3)])
  then have i: "node_ids n = key # concat (map node_ids ns)" using node_ids_kids [of n] by simp
  have "\<exists>used'. children byId (key # used) ids = Some (ns, used')"
  proof (rule all)
    show "list_all2 (\<lambda>i n. renders byId i n \<and> (\<forall>u. distinct (node_ids n) \<longrightarrow> set (node_ids n) \<inter> set u = {} \<longrightarrow>
          (\<exists>u'. child byId u i = Some (n, u')))) ids ns"
      using renders.IH by (rule list_all2_mono) auto
  qed (use renders.prems i in auto)
  with renders.hyps renders.prems i show ?case by (auto simp: child.simps)
qed

text \<open>
  C12: A surface is drawn exactly as the tree its components describe: the parser, which marks each component as
  it uses it, returns a tree if and only if the catalog is the kit's, every component has an identifier of its own, the root
  renders into that tree by the references alone, and no identifier occurs in it twice. In particular a surface whose
  references form a cycle or share a component is refused.
\<close>
theorem buildTree_iff_renders:
  "buildTree catalogId components = Some t \<longleftrightarrow>
   catalogId = CATALOG_ID \<and>
   (\<exists>byId. index_components [] components = Some byId \<and> renders byId (JStr ''root'') t \<and> distinct (node_ids t))"
proof
  assume "buildTree catalogId components = Some t"
  then show "catalogId = CATALOG_ID \<and>
   (\<exists>byId. index_components [] components = Some byId \<and> renders byId (JStr ''root'') t \<and> distinct (node_ids t))"
    by (auto simp: buildTree_def dest!: child_sound(1) split: if_splits option.splits)
next
  assume "catalogId = CATALOG_ID \<and>
   (\<exists>byId. index_components [] components = Some byId \<and> renders byId (JStr ''root'') t \<and> distinct (node_ids t))"
  then show "buildTree catalogId components = Some t"
    using child_complete [of _ "JStr ''root''" t "[]"] by (fastforce simp: buildTree_def)
qed

section \<open>The data model\<close>

text \<open>The tokens of a JSON Pointer: the parts after its first slash, with \<open>~1\<close> and then \<open>~0\<close> unescaped.\<close>

fun split_slash :: "string \<Rightarrow> string list" where
  "split_slash [] = [[]]"
| "split_slash (c # s) =
     (if c = CHR ''/'' then [] # split_slash s
      else case split_slash s of p # ps \<Rightarrow> (c # p) # ps | [] \<Rightarrow> [[c]])"

fun unescape :: "char \<Rightarrow> char \<Rightarrow> string \<Rightarrow> string" where
  "unescape d r (c1 # c2 # s) = (if c1 = CHR ''~'' \<and> c2 = d then r # unescape d r s else c1 # unescape d r (c2 # s))"
| "unescape d r s = s"

definition tokens :: "string \<Rightarrow> string list" where
  "tokens path = map (\<lambda>t. unescape (CHR ''0'') (CHR ''~'') (unescape (CHR ''1'') (CHR ''/'') t)) (tl (split_slash path))"

definition pointer_step :: "jsval \<Rightarrow> string \<Rightarrow> jsval" where
  "pointer_step v key = (case v of
      JArr items \<Rightarrow> if INDEX key \<and> nat_of_digits key < length items then items ! nat_of_digits key else JUndef
    | JObj ps \<Rightarrow> field ps key
    | _ \<Rightarrow> JUndef)"

definition pointer :: "jsval \<Rightarrow> string \<Rightarrow> jsval" where
  "pointer model path =
     (if path \<noteq> [] \<and> \<not> starts_with path ''/'' then JUndef else foldl pointer_step model (tokens path))"

fun put :: "jsval \<Rightarrow> string list \<Rightarrow> jsval \<Rightarrow> jsval option" where
  "put v [] new = Some new"
| "put v (key # rest) new = (case v of
      JArr items \<Rightarrow>
        (let i = (if INDEX key then nat_of_digits key else length items) in
         if i < length items then map_option (\<lambda>x. JArr (items[i := x])) (put (items ! i) rest new) else None)
    | _ \<Rightarrow>
        (case (if v = JUndef then Some [] else as_obj v) of
           None \<Rightarrow> None
         | Some fs \<Rightarrow> map_option (\<lambda>x. JObj (mset_key key x fs)) (put (field fs key) rest new)))"

definition pathOf :: "jsval \<Rightarrow> string option" where
  "pathOf v = (case v of JObj ps \<Rightarrow> as_str (field ps ''@path'') | _ \<Rightarrow> None)"

definition write_model :: "jsval \<Rightarrow> string \<Rightarrow> jsval \<Rightarrow> jsval" where
  "write_model model path new =
     (if \<not> starts_with path ''/'' then model
      else case put model (tokens path) new of Some m \<Rightarrow> m | None \<Rightarrow> model)"

text \<open>The values bound in a click's request, \<open>null\<close> where the model holds none.\<close>

definition bound_values :: "(string \<times> jsval) list \<Rightarrow> jsval \<Rightarrow> (string \<times> jsval) list" where
  "bound_values ctx model =
     List.map_filter (\<lambda>(k, v). map_option (\<lambda>p. (k, coalesce (pointer model p) JNull)) (pathOf v)) ctx"

definition actionRequest :: "ui_node \<Rightarrow> jsval \<Rightarrow> rat \<Rightarrow> string \<Rightarrow> jsval option" where
  "actionRequest button model rv clientKey = (case button of
      UiButton i _ _ (Send _ ctx _) _ \<Rightarrow>
        Some (JObj [(''rev'', JNum (Fin rv)), (''sourceComponentId'', JStr i),
          (''bound'', JObj (bound_values ctx model)), (''client_key'', JStr clientKey)])
    | _ \<Rightarrow> None)"

definition resolve :: "jsval \<Rightarrow> jsval \<Rightarrow> jsval" where
  "resolve v model = (case v of
      JObj ps \<Rightarrow>
        (case as_str (field ps ''@path'') of
           Some p \<Rightarrow> pointer model p
         | None \<Rightarrow> if as_str (field ps ''@call'') \<noteq> None then JUndef else v)
    | _ \<Rightarrow> v)"

definition resolveText :: "jsval \<Rightarrow> jsval \<Rightarrow> string" where
  "resolveText v model = (case resolve v model of JStr s \<Rightarrow> s | _ \<Rightarrow> [])"

definition resolveBool :: "jsval \<Rightarrow> jsval \<Rightarrow> bool" where
  "resolveBool v model = (resolve v model = JBool True)"

definition resolveStrings :: "jsval \<Rightarrow> jsval \<Rightarrow> string list" where
  "resolveStrings v model = (case resolve v model of JArr vs \<Rightarrow> List.map_filter as_str vs | _ \<Rightarrow> [])"

section \<open>Checks\<close>

definition empty_value :: "jsval \<Rightarrow> bool" where
  "empty_value v = (case v of JStr s \<Rightarrow> trim s = [] | JUndef \<Rightarrow> True | JNull \<Rightarrow> True | JArr vs \<Rightarrow> vs = [] | _ \<Rightarrow> False)"

definition num_less :: "jsnum \<Rightarrow> jsnum \<Rightarrow> bool" where
  "num_less a b = (case (a, b) of
      (Fin p, Fin q) \<Rightarrow> p < q | (NaN, _) \<Rightarrow> False | (_, NaN) \<Rightarrow> False
    | (NInf, _) \<Rightarrow> b \<noteq> NInf | (_, PInf) \<Rightarrow> a \<noteq> PInf | _ \<Rightarrow> False)"

definition length_failure :: "runtime \<Rightarrow> (string \<times> jsval) list \<Rightarrow> string \<Rightarrow> string option" where
  "length_failure R args t =
     (let count = Fin (of_nat (length t)) in
      case as_num (field args ''min'') of
        Some mn \<Rightarrow>
          if num_less count mn then Some (''Use at least '' @ num_to_string R mn @ '' characters.'')
          else (case as_num (field args ''max'') of
              Some mx \<Rightarrow> if num_less mx count then Some (''Use at most '' @ num_to_string R mx @ '' characters.'') else None
            | None \<Rightarrow> None)
      | None \<Rightarrow>
          (case as_num (field args ''max'') of
              Some mx \<Rightarrow> if num_less mx count then Some (''Use at most '' @ num_to_string R mx @ '' characters.'') else None
            | None \<Rightarrow> None))"

text \<open>A condition is an object \<open>bound\<close> has made: a path, or a call of one of the three checks with its arguments.\<close>

definition conditionFailure :: "runtime \<Rightarrow> jsval \<Rightarrow> jsval \<Rightarrow> string option" where
  "conditionFailure R c model =
     (case c of
        JObj ps \<Rightarrow>
          (if has_key ps ''@path'' then
             (if (case field ps ''@path'' of JStr p \<Rightarrow> pointer model p = JBool True | _ \<Rightarrow> False) then None
              else Some ''Check this field.'')
           else let args = (case field ps ''args'' of JObj qs \<Rightarrow> qs | _ \<Rightarrow> []);
                    v = resolve (field args ''value'') model;
                    t = (case v of JStr s \<Rightarrow> s | _ \<Rightarrow> [])
             in if field ps ''@call'' = JStr ''required'' then (if empty_value v then Some ''Required.'' else None)
                else if field ps ''@call'' = JStr ''length'' then length_failure R args t
                else if field ps ''@call'' = JStr ''email'' then
                  (if t = [] \<or> EMAIL t then None else Some ''Enter an email address.'')
                else None)
      | _ \<Rightarrow> None)"

definition checkFailures :: "runtime \<Rightarrow> check list \<Rightarrow> jsval \<Rightarrow> string list" where
  "checkFailures R cs model =
     List.map_filter (\<lambda>c. case conditionFailure R (condition c) model of
         None \<Rightarrow> None
       | Some failure \<Rightarrow> Some (case check_message c of Some m \<Rightarrow> if m = [] then failure else m | None \<Rightarrow> failure)) cs"

section \<open>Reading back what was written\<close>

lemma digit_char_val: "is_digit c \<Longrightarrow> digit_char (digit_val c) = c"
  by (auto simp: digit_char_def digit_val_def is_digit_def)

lemma digit_val_less: "is_digit c \<Longrightarrow> digit_val c < 10"
  by (auto simp: digit_val_def is_digit_def)

text \<open>An index is the numeral of its value, so different indices are different places of an array.\<close>

lemma show_index: "INDEX s \<Longrightarrow> show_nat (nat_of_digits s) = s"
proof (induction s rule: rev_induct)
  case (snoc c xs)
  from snoc.prems have c: "is_digit c" by (auto simp: INDEX_def is_digit_def append_eq_Cons_conv)
  show ?case
  proof (cases "xs = []")
    case True
    then show ?thesis using digit_val_less [OF c] digit_char_val [OF c]
      by (subst show_nat.simps) (simp add: nat_of_digits_def)
  next
    case False
    with snoc.prems have xs: "INDEX xs" "hd xs \<noteq> CHR ''0''"
      by (auto simp: INDEX_def append_eq_Cons_conv)
    then have ih: "show_nat (nat_of_digits xs) = xs" using snoc.IH by simp
    have "nat_of_digits xs \<noteq> 0"
    proof
      assume "nat_of_digits xs = 0"
      with ih have "xs = show_nat 0" by simp
      also have "\<dots> = ''0''" by code_simp
      finally show False using xs(2) by simp
    qed
    then have "show_nat (10 * nat_of_digits xs + digit_val c) = show_nat (nat_of_digits xs) @ [digit_char (digit_val c)]"
      using digit_val_less [OF c] by (subst show_nat.simps) simp
    then show ?thesis using ih digit_char_val [OF c] by (simp add: nat_of_digits_def)
  qed
qed (simp add: INDEX_def)

lemma index_inj: "INDEX a \<Longrightarrow> INDEX b \<Longrightarrow> nat_of_digits a = nat_of_digits b \<Longrightarrow> a = b"
  by (metis show_index)

lemma field_mset [simp]: "field (mset_key k v ps) k' = (if k' = k then v else field ps k')"
  using mget_mset [of k v ps k'] by (simp add: field_def mget_def)

lemma field_Nil [simp]: "field [] k = JUndef"
  by (simp add: field_def)

lemma field_Cons [simp]: "field ((k', v) # ps) k = (if k = k' then v else field ps k)"
  by (simp add: field_def)

text \<open>The shape of a successful \<open>put\<close>, one key of the path at a time.\<close>

lemma put_Cons:
  assumes "put v (key # rest) new = Some w"
  obtains x where "put (pointer_step v key) rest new = Some x" and "pointer_step w key = x"
    and "\<And>k. k \<noteq> key \<Longrightarrow> pointer_step w k = pointer_step v k"
proof (cases v)
  case (JArr items)
  with assms obtain x where k: "INDEX key" "nat_of_digits key < length items"
    and x: "put (items ! nat_of_digits key) rest new = Some x" and w: "w = JArr (items[nat_of_digits key := x])"
    by (auto simp: Let_def split: if_splits)
  have "pointer_step w j = pointer_step v j" if "j \<noteq> key" for j
    using that k index_inj [of j key] by (auto simp: w JArr pointer_step_def nth_list_update)
  with k x show ?thesis by (intro that [of x]) (simp_all add: w JArr pointer_step_def)
qed (use assms that in \<open>auto simp: pointer_step_def as_obj_def\<close>)

declare put.simps(2) [simp del]

lemma put_read: "put v ks new = Some w \<Longrightarrow> foldl pointer_step w ks = new"
proof (induction ks arbitrary: v w)
  case (Cons key rest)
  then show ?case by (auto elim!: put_Cons)
qed simp

lemma put_frame:
  "put v ks new = Some w \<Longrightarrow> \<not> prefix ks ls \<Longrightarrow> \<not> prefix ls ks \<Longrightarrow> foldl pointer_step w ls = foldl pointer_step v ls"
proof (induction ks arbitrary: v w ls)
  case (Cons key rest)
  then obtain l ls' where ls: "ls = l # ls'" by (cases ls) auto
  from Cons.prems(1) show ?case
  proof (rule put_Cons)
    fix x assume "put (pointer_step v key) rest new = Some x" "pointer_step w key = x"
      "\<And>k. k \<noteq> key \<Longrightarrow> pointer_step w k = pointer_step v k"
    then show ?thesis using Cons.IH [of "pointer_step v key" x ls'] Cons.prems(2,3) by (cases "l = key") (simp_all add: ls)
  qed
qed simp

text \<open>
  An input writes its own place and no other. A write either leaves the model as it is (the root, a path that is no
  pointer, one through a literal or past the end of an array) or is read back at its path; and a pointer of which
  neither is a part of the other reads the same before and after it, also through arrays and through the objects the
  write created.
\<close>
theorem write_reads_back:
  "(write_model model path v = model \<or> pointer (write_model model path v) path = v) \<and>
   (\<not> prefix (tokens path) (tokens other) \<and> \<not> prefix (tokens other) (tokens path) \<longrightarrow>
    pointer (write_model model path v) other = pointer model other)"
proof (cases "put model (tokens path) v")
  case (Some m)
  then show ?thesis
    using put_read [OF Some] put_frame [OF Some, of "tokens other"] by (auto simp: write_model_def pointer_def)
qed (simp add: write_model_def)

definition demo_model :: jsval where
  "demo_model = JObj [(''a/b'', JArr [JObj [(''x'', jint 1)], JObj [(''x'', jint 2)]])]"

lemma write_reads_back_witness:
  "pointer (write_model demo_model ''/a~1b/1/x'' (JStr ''new'')) ''/a~1b/1/x'' = JStr ''new'' \<and>
   pointer (write_model demo_model ''/a~1b/1/x'' (JStr ''new'')) ''/a~1b/0/x'' = pointer demo_model ''/a~1b/0/x'' \<and>
   pointer demo_model ''/a~1b/0/x'' = jint 1"
proof -
  have t: "tokens ''/a~1b/1/x'' = [''a/b'', ''1'', ''x'']" "tokens ''/a~1b/0/x'' = [''a/b'', ''0'', ''x'']" by code_simp+
  have "pointer (write_model demo_model ''/a~1b/1/x'' (JStr ''new'')) ''/a~1b/0/x'' = pointer demo_model ''/a~1b/0/x''"
    using write_reads_back [of demo_model "''/a~1b/1/x''" "JStr ''new''" "''/a~1b/0/x''"] by (simp add: t)
  moreover have "pointer (write_model demo_model ''/a~1b/1/x'' (JStr ''new'')) ''/a~1b/1/x'' = JStr ''new''"
    by (simp add: pointer_def write_model_def t demo_model_def field_def mget_def pointer_step_def INDEX_def is_digit_def
        nat_of_digits_def digit_val_def as_obj_def put.simps)
  moreover have "pointer demo_model ''/a~1b/0/x'' = jint 1"
    by (simp add: pointer_def t demo_model_def field_def pointer_step_def INDEX_def nat_of_digits_def digit_val_def)
  ultimately show ?thesis by simp
qed

text \<open>A card around a line of text is drawn; the same card around itself is not.\<close>

definition demo_card :: "string \<Rightarrow> jsval list" where
  "demo_card inner =
     [JObj [(''id'', JStr ''root''), (''component'', JStr ''Card''), (''child'', JStr inner)],
      JObj [(''id'', JStr ''line''), (''component'', JStr ''Text''), (''text'', JObj [(''@path'', JStr ''/name'')])]]"

lemma demo_card_drawn:
  "buildTree CATALOG_ID (demo_card ''line'') =
     Some (UiCard ''root'' (UiText ''line'' (JObj [(''@path'', JStr ''/name'')]) ''body'')) \<and>
   buildTree CATALOG_ID (demo_card ''root'') = None"
  by (simp add: buildTree_def demo_card_def child.simps children.simps field_def as_obj_def mget_def child_ids_def node_def
      leaf_node_def text_value_def dynamic_def has_key_def oneOf_def Let_def)

end
