(* ===== verification/Game_Guards.thy ===== *)
theory Game_Guards
  imports Js_Values
begin

text \<open>
  What keeps the sessions of chat games apart (\<open>plugin/src/widgets/session.ts\<close>, first half): the keys of
  the games' own sessions, the tools a move may call, the hooks that keep other sessions out of a
  game's, the guard of memory runs, and the runs that hold a session. The list of the agent's sessions
  is an argument, as the host's session store answers it.
\<close>

section \<open>Strings\<close>

fun last_index_of :: "string \<Rightarrow> string \<Rightarrow> nat option" where
  "last_index_of [] p = (if p = [] then Some 0 else None)"
| "last_index_of (c # s) p =
     (case last_index_of s p of
        Some i \<Rightarrow> Some (Suc i)
      | None \<Rightarrow> if starts_with (c # s) p then Some 0 else None)"

fun split_on :: "char \<Rightarrow> string \<Rightarrow> string list" where
  "split_on d [] = [[]]"
| "split_on d (c # s) =
     (if c = d then [] # split_on d s
      else case split_on d s of r # rs \<Rightarrow> (c # r) # rs | [] \<Rightarrow> [[c]])"

lemma split_on_nonempty [simp]: "split_on d s \<noteq> []"
  by (induction s) (auto split: list.splits)

lemma split_on_no_sep: "d \<notin> set s \<Longrightarrow> split_on d s = [s]"
  by (induction s) auto

lemma split_on_append: "d \<notin> set s \<Longrightarrow> split_on d (s @ d # t) = s # split_on d t"
  by (induction s) auto

lemma last_index_at_end:
  assumes "\<And>i. 0 < i \<Longrightarrow> \<not> starts_with (drop i (p @ s)) p"
  shows "last_index_of (u @ p @ s) p = Some (length u)"
proof -
  have none: "last_index_of t p = None" if "\<forall>i. \<not> starts_with (drop i t) p" for t
    using that
  proof (induction t)
    case Nil
    then show ?case using starts_with.simps(1) by (cases p) auto
  next
    case (Cons c t)
    have "\<forall>i. \<not> starts_with (drop i t) p"
    proof
      fix i from Cons.prems have "\<not> starts_with (drop (Suc i) (c # t)) p" by blast
      then show "\<not> starts_with (drop i t) p" by simp
    qed
    moreover from Cons.prems have "\<not> starts_with (drop 0 (c # t)) p" by blast
    ultimately show ?case using Cons.IH by simp
  qed
  have here: "last_index_of (p @ s) p = Some 0"
  proof (cases p)
    case (Cons c q)
    have "\<forall>i. \<not> starts_with (drop i (q @ s)) p"
    proof
      fix i from assms [of "Suc i"] show "\<not> starts_with (drop i (q @ s)) p" by (simp add: Cons)
    qed
    then have "last_index_of (q @ s) p = None" by (rule none)
    moreover have "starts_with (p @ s) p" by (rule starts_with_append)
    ultimately show ?thesis by (simp add: Cons)
  next
    case Nil
    with assms [of 1] show ?thesis by simp
  qed
  then show ?thesis by (induction u) simp_all
qed

section \<open>Keys of a game's session\<close>

definition GAME_PEER_PREFIX :: string where "GAME_PEER_PREFIX = ''widget-''"

definition GAME_SESSION_MARKER :: string where "GAME_SESSION_MARKER = '':clawbits:channel:'' @ GAME_PEER_PREFIX"

definition GAME_TRANSCRIPT_MARKER :: string where "GAME_TRANSCRIPT_MARKER = ''clawbits-game-session-7c1e''"

text \<open>\<open>/-g([1-9]\d*)$/u.exec\<close>: what is before the match, and its digits.\<close>

definition GAME_GENERATION :: "string \<Rightarrow> (string \<times> string) option" where
  "GAME_GENERATION peer =
     (let ds = rev (takeWhile is_digit (rev peer)) in
      case dropWhile is_digit (rev peer) of
        g # d # w \<Rightarrow>
          if g = CHR ''g'' \<and> d = CHR ''-'' \<and> ds \<noteq> [] \<and> hd ds \<noteq> CHR ''0'' then Some (rev w, ds) else None
      | _ \<Rightarrow> None)"

definition gamePeerId :: "string \<Rightarrow> nat \<Rightarrow> string" where
  "gamePeerId widgetId gen = GAME_PEER_PREFIX @ widgetId @ (if gen > 0 then ''-g'' @ show_nat gen else [])"

definition isGamePeerId :: "string \<Rightarrow> bool" where
  "isGamePeerId target = starts_with (lower target) GAME_PEER_PREFIX"

definition gameSessionOf :: "string option \<Rightarrow> (string \<times> nat) option" where
  "gameSessionOf sessionKey =
     (case sessionKey of
        None \<Rightarrow> None
      | Some key \<Rightarrow>
         (case last_index_of (lower key) GAME_SESSION_MARKER of
            None \<Rightarrow> None
          | Some i \<Rightarrow>
             (let peer = drop (i + length GAME_SESSION_MARKER) key in
              if peer = [] \<or> CHR '':'' \<in> set peer then None
              else (let (widgetId, gen) = (case GAME_GENERATION peer of
                          Some (w, ds) \<Rightarrow> (w, nat_of_digits ds) | None \<Rightarrow> (peer, 0))
                    in if widgetId = [] then None else Some (widgetId, gen)))))"

definition gameSessionWidgetId :: "string option \<Rightarrow> string option" where
  "gameSessionWidgetId sessionKey = map_option fst (gameSessionOf sessionKey)"

definition isOwnGameSession :: "string option \<Rightarrow> string \<Rightarrow> nat option \<Rightarrow> bool" where
  "isOwnGameSession sessionKey widgetId gen =
     (case gameSessionOf sessionKey of
        None \<Rightarrow> False
      | Some (w, g) \<Rightarrow> lower w = lower widgetId \<and> (gen = None \<or> gen = Some g))"

definition sessionAgentId :: "string \<Rightarrow> string option" where
  "sessionAgentId key =
     (let r = drop 6 key; a = takeWhile (\<lambda>c. c \<noteq> CHR '':'') r in
      if lower (take 6 key) = ''agent:'' \<and> a \<noteq> [] \<and> length a < length r then Some a else None)"

lemma lower_append [simp]: "lower (s @ t) = lower s @ lower t"
  by (simp add: lower_def)

lemma length_lower [simp]: "length (lower s) = length s"
  by (simp add: lower_def)

lemma drop_lower: "drop n (lower s) = lower (drop n s)"
  by (simp add: lower_def drop_map)

lemma lower_colon: "CHR '':'' \<in> set (lower s) \<longleftrightarrow> CHR '':'' \<in> set s"
proof -
  have "(of_char (lower_char c) :: nat) = of_char CHR '':'' \<longleftrightarrow> (of_char c :: nat) = of_char CHR '':''" for c
    by (auto simp: lower_char_def Let_def)
  then have e: "CHR '':'' = lower_char c \<longleftrightarrow> CHR '':'' = c" for c
    unfolding of_char_eq_iff by metis
  show ?thesis by (simp add: lower_def image_iff e)
qed

lemma lower_marker: "lower GAME_SESSION_MARKER = GAME_SESSION_MARKER"
  by code_simp

lemma count_drop: "count_list (drop i s) c \<le> count_list s c"
  by (metis append_take_drop_id count_list_append le_add2)

lemma count_colons: "CHR '':'' \<notin> set s \<Longrightarrow> count_list s CHR '':'' = 0"
  by (simp add: count_list_0_iff)

lemma marker_once:
  assumes "CHR '':'' \<notin> set s" and "0 < i"
  shows "\<not> starts_with (drop i (GAME_SESSION_MARKER @ s)) GAME_SESSION_MARKER"
proof
  assume "starts_with (drop i (GAME_SESSION_MARKER @ s)) GAME_SESSION_MARKER"
  then obtain r where "drop i (GAME_SESSION_MARKER @ s) = GAME_SESSION_MARKER @ r" by (auto simp: starts_with_iff)
  then have "count_list (drop i (GAME_SESSION_MARKER @ s)) CHR '':'' \<ge> 3"
    by (simp add: GAME_SESSION_MARKER_def GAME_PEER_PREFIX_def)
  moreover obtain k where i: "i = Suc k" using assms(2) by (cases i) simp_all
  have "drop i (GAME_SESSION_MARKER @ s) = drop k (tl GAME_SESSION_MARKER @ s)"
    by (simp add: i GAME_SESSION_MARKER_def)
  then have "count_list (drop i (GAME_SESSION_MARKER @ s)) CHR '':'' \<le> count_list (tl GAME_SESSION_MARKER @ s) CHR '':''"
    by (metis count_drop)
  moreover have "count_list (tl GAME_SESSION_MARKER @ s) CHR '':'' = 2"
    using count_colons [OF assms(1)] by (simp add: GAME_SESSION_MARKER_def GAME_PEER_PREFIX_def)
  ultimately show False by simp
qed

lemma gameSessionOf_key:
  assumes "CHR '':'' \<notin> set peer" and "peer \<noteq> []"
  shows "gameSessionOf (Some (u @ GAME_SESSION_MARKER @ peer)) =
    (let (w, g) = (case GAME_GENERATION peer of Some (w, ds) \<Rightarrow> (w, nat_of_digits ds) | None \<Rightarrow> (peer, 0))
     in if w = [] then None else Some (w, g))"
proof -
  have "last_index_of (lower u @ GAME_SESSION_MARKER @ lower peer) GAME_SESSION_MARKER = Some (length (lower u))"
    using assms(1) by (intro last_index_at_end marker_once) (simp_all add: lower_colon)
  then have "last_index_of (lower (u @ GAME_SESSION_MARKER @ peer)) GAME_SESSION_MARKER = Some (length u)"
    by (simp add: lower_marker)
  then show ?thesis using assms by (simp add: gameSessionOf_def Let_def)
qed

lemma show_nat_head: "0 < n \<Longrightarrow> hd (show_nat n) \<noteq> CHR ''0''"
proof (induction n rule: show_nat.induct)
  case (1 n)
  show ?case
  proof (cases "n < 10")
    case True
    have "digit_char n \<noteq> CHR ''0''"
    proof
      assume "digit_char n = CHR ''0''"
      then have "(of_char (digit_char n) :: nat) = of_char CHR ''0''" by (rule arg_cong)
      with True \<open>0 < n\<close> show False by simp
    qed
    with True show ?thesis by (subst show_nat.simps) simp
  next
    case False
    with 1 have "hd (show_nat (n div 10)) \<noteq> CHR ''0''" by simp
    with False show ?thesis by (subst show_nat.simps) simp
  qed
qed

lemma GAME_GENERATION_show:
  assumes "0 < n"
  shows "GAME_GENERATION (w @ ''-g'' @ show_nat n) = Some (w, show_nat n)"
proof -
  have d: "\<forall>c \<in> set (rev (show_nat n)). is_digit c" using show_nat_digits by auto
  have g: "\<not> is_digit CHR ''g''" by (simp add: is_digit_def)
  have "takeWhile is_digit (rev (show_nat n) @ ''g-'' @ rev w) = rev (show_nat n)"
    "dropWhile is_digit (rev (show_nat n) @ ''g-'' @ rev w) = ''g-'' @ rev w"
    using d g by (simp_all add: takeWhile_append dropWhile_append)
  with show_nat_head [OF assms] show ?thesis by (simp add: GAME_GENERATION_def)
qed

text \<open>
  The key of a game's own session determines its game and generation: the peer of a widget and a
  generation, in whatever agent's key, is read back as exactly that widget and generation.
\<close>

theorem game_session_key_roundtrip:
  assumes "widgetId \<noteq> []" and "CHR '':'' \<notin> set widgetId" and "GAME_GENERATION widgetId = None"
  shows "gameSessionOf (Some (''agent:'' @ agent @ '':clawbits:channel:'' @ gamePeerId widgetId gen)) = Some (widgetId, gen)"
proof -
  let ?peer = "widgetId @ (if gen > 0 then ''-g'' @ show_nat gen else [])"
  have key: "''agent:'' @ agent @ '':clawbits:channel:'' @ gamePeerId widgetId gen
      = (''agent:'' @ agent) @ GAME_SESSION_MARKER @ ?peer"
    by (simp add: gamePeerId_def GAME_SESSION_MARKER_def)
  have "CHR '':'' \<notin> set (show_nat gen)"
    using show_nat_digits [of "CHR '':''" gen] by (auto simp: is_digit_def)
  then have "CHR '':'' \<notin> set ?peer" "?peer \<noteq> []" using assms by auto
  then show ?thesis unfolding key
    using gameSessionOf_key [of ?peer "''agent:'' @ agent"] assms GAME_GENERATION_show [of gen widgetId]
    by (cases "gen > 0") simp_all
qed

lemma game_session_key_roundtrip_witness:
  "gameSessionOf (Some (''agent:'' @ ''main'' @ '':clawbits:channel:'' @ gamePeerId ''5f2a'' 3)) = Some (''5f2a'', 3)"
  by (rule game_session_key_roundtrip) code_simp+

section \<open>What a move may call\<close>

definition GAME_TOOLS :: "string list" where
  "GAME_TOOLS = [''clawbits_widget_act'', ''clawbits_widget_get'', ''clawbits_widget_list'']"

definition TOOL_LOOKUPS :: "string list" where
  "TOOL_LOOKUPS = [''tool_search'', ''tool_describe'']"

definition TOOL_CALL :: string where "TOOL_CALL = ''tool_call''"

text \<open>\<open>/^(?:openclaw:[^:]+:)?([^:]+)$/u.exec(id)?.[1]\<close>\<close>

definition CATALOG_TOOL_ID :: "string \<Rightarrow> string option" where
  "CATALOG_TOOL_ID i =
     (case split_on CHR '':'' i of
        [y] \<Rightarrow> if y = [] then None else Some y
      | [a, x, y] \<Rightarrow> if a = ''openclaw'' \<and> x \<noteq> [] \<and> y \<noteq> [] then Some y else None
      | _ \<Rightarrow> None)"

definition SILENT_REASON :: string where
  "SILENT_REASON = ''This is a Clawbits chat game turn: it uses only the game's tools and posts nothing. Take your move with clawbits_widget_act, then finish with NO_REPLY.''"

definition SESSION_TOOLS :: "string list" where
  "SESSION_TOOLS = [''sessions_history'', ''sessions_send'', ''sessions_search'', ''sessions_list'']"

definition GAME_SESSION_LABEL :: string where "GAME_SESSION_LABEL = ''clawbits game ''"

definition PRIVATE_REASON :: string where
  "PRIVATE_REASON = ''A Clawbits chat game's own session is private to its moves: no other session reads it or sends to it. clawbits_widget_get shows the game's public view.''"

definition tool_name :: "string option \<Rightarrow> string" where
  "tool_name n = lower (trim (case n of Some s \<Rightarrow> s | None \<Rightarrow> []))"

definition gameTurnToolAllowed :: "string option \<Rightarrow> jsval \<Rightarrow> bool" where
  "gameTurnToolAllowed toolName params =
     (let name = tool_name toolName in
      if name \<in> set GAME_TOOLS \<or> name \<in> set TOOL_LOOKUPS then True
      else if name \<noteq> TOOL_CALL then False
      else let i = (case as_str (jget params ''id'') of Some s \<Rightarrow> lower (trim s) | None \<Rightarrow> [])
        in case CATALOG_TOOL_ID i of Some inner \<Rightarrow> inner \<in> set GAME_TOOLS | None \<Rightarrow> False)"

text \<open>A hook's answer: the reason of a block, or nothing.\<close>

definition gameTurnToolBlock :: "string option \<Rightarrow> string option \<Rightarrow> jsval \<Rightarrow> string option" where
  "gameTurnToolBlock toolName sessionKey params =
     (if gameSessionWidgetId sessionKey = None then None
      else if gameTurnToolAllowed toolName params then None else Some SILENT_REASON)"

section \<open>Keeping other sessions out\<close>

record game_ref =
  gr_key :: string
  gr_sessionId :: "string option"

definition namesGameSession :: "string \<Rightarrow> bool" where
  "namesGameSession v = (str_includes (lower v) (tl GAME_SESSION_MARKER) \<or> starts_with (lower v) GAME_SESSION_LABEL)"

text \<open>\<open>Number(v)\<close>\<close>

definition to_number :: "runtime \<Rightarrow> jsval \<Rightarrow> jsnum" where
  "to_number R v =
     (case v of
        JNum n \<Rightarrow> n
      | JBool b \<Rightarrow> Fin (if b then 1 else 0)
      | JNull \<Rightarrow> Fin 0
      | JUndef \<Rightarrow> NaN
      | _ \<Rightarrow> js_number (to_string R v))"

definition num_positive :: "jsnum \<Rightarrow> bool" where
  "num_positive n = (case n of Fin q \<Rightarrow> 0 < q | PInf \<Rightarrow> True | _ \<Rightarrow> False)"

definition peek_refs :: "jsval \<Rightarrow> string list" where
  "peek_refs params =
     map trim (filter (\<lambda>s. trim s \<noteq> []) (List.map_filter (\<lambda>k. as_str (jget params k)) [''sessionKey'', ''key'', ''sessionId'', ''label'']))"

definition across_sessions :: "runtime \<Rightarrow> string \<Rightarrow> jsval \<Rightarrow> bool" where
  "across_sessions R name params =
     (name = ''sessions_search'' \<and> peek_refs params = [] \<or>
      name = ''sessions_list'' \<and> as_str (jget params ''label'') = None \<and>
        (num_positive (to_number R (coalesce (jget params ''messageLimit'') (jint 0))) \<or>
         jget params ''includeLastMessage'' = JBool True))"

text \<open>The agents asked for their sessions, one after the other; the first without a list ends it.\<close>

fun listed_games :: "(string option \<Rightarrow> game_ref list option) \<Rightarrow> string option list \<Rightarrow> game_ref list option" where
  "listed_games ls [] = Some []"
| "listed_games ls (a # as) =
     (case ls a of
        None \<Rightarrow> None
      | Some gs \<Rightarrow> map_option (\<lambda>r. gs @ r) (listed_games ls as))"

text \<open>\<open>[...new Set(xs)]\<close>: the first of equal items stays.\<close>

definition remdups_first :: "'a list \<Rightarrow> 'a list" where
  "remdups_first xs = foldl (\<lambda>acc x. sadd x acc) [] xs"

definition gameSessionPeekBlock ::
  "runtime \<Rightarrow> string option \<Rightarrow> jsval \<Rightarrow> string option \<Rightarrow> string option \<Rightarrow> (string option \<Rightarrow> game_ref list option) \<Rightarrow> string option" where
  "gameSessionPeekBlock R toolName params sessionKey agentId ls =
     (let name = tool_name toolName in
      if name \<notin> set SESSION_TOOLS \<or> gameSessionWidgetId sessionKey \<noteq> None then None
      else let refs = peek_refs params in
        if list_ex namesGameSession refs then Some PRIVATE_REASON
        else let ids = filter (\<lambda>r. CHR '':'' \<notin> set r) refs; across = across_sessions R name params in
          if ids = [] \<and> \<not> across then None
          else case listed_games ls (remdups_first [agentId, as_str (jget params ''agentId'')]) of
              None \<Rightarrow> if across then Some PRIVATE_REASON else None
            | Some games \<Rightarrow>
                if across \<and> games \<noteq> [] then Some PRIVATE_REASON
                else if list_ex (\<lambda>g. case gr_sessionId g of Some i \<Rightarrow> i \<in> set ids | None \<Rightarrow> False) games
                  then Some PRIVATE_REASON else None)"

definition gameTurnSendCancel :: "string option \<Rightarrow> string option" where
  "gameTurnSendCancel sessionKey = (if gameSessionWidgetId sessionKey \<noteq> None then Some SILENT_REASON else None)"

text \<open>The \<open>before_tool_call\<close> hook the plugin registers.\<close>

definition before_tool_call ::
  "runtime \<Rightarrow> string option \<Rightarrow> jsval \<Rightarrow> string option \<Rightarrow> string option \<Rightarrow> (string option \<Rightarrow> game_ref list option) \<Rightarrow> string option" where
  "before_tool_call R toolName params sessionKey agentId ls =
     (case gameTurnToolBlock toolName sessionKey params of
        Some r \<Rightarrow> Some r
      | None \<Rightarrow> gameSessionPeekBlock R toolName params sessionKey agentId ls)"

lemma remdups_first_set [simp]: "set (remdups_first xs) = set xs"
proof -
  have "set (foldl (\<lambda>acc x. sadd x acc) ys xs) = set ys \<union> set xs" for ys :: "'a list"
    by (induction xs arbitrary: ys) auto
  then show ?thesis by (simp add: remdups_first_def)
qed

lemma catalog_cases:
  assumes "CATALOG_TOOL_ID i = Some y"
  shows "i = y \<or> (\<exists>x. i = ''openclaw:'' @ x @ '':'' @ y)"
proof -
  have join: "s = concat (map (\<lambda>r. r @ '':'') (butlast (split_on CHR '':'' s))) @ last (split_on CHR '':'' s)" for s
    by (induction s) (auto split: list.splits)
  from assms show ?thesis unfolding CATALOG_TOOL_ID_def using join [of i]
    by (auto split: list.splits if_splits)
qed

text \<open>The tools a move's call reaches: its own, or the one a catalog call names.\<close>

definition reaches_game_tool :: "string \<Rightarrow> string \<Rightarrow> bool" where
  "reaches_game_tool name i =
     (name \<in> set GAME_TOOLS \<or> name \<in> set TOOL_LOOKUPS \<or>
      (name = TOOL_CALL \<and> list_ex (\<lambda>t. i = t \<or> (starts_with i ''openclaw:'' \<and> ends_with i ('':'' @ t))) GAME_TOOLS))"

lemma allowed_reaches:
  assumes "gameTurnToolAllowed toolName params"
  shows "reaches_game_tool (tool_name toolName) (case as_str (jget params ''id'') of Some s \<Rightarrow> lower (trim s) | None \<Rightarrow> [])"
proof -
  let ?i = "case as_str (jget params ''id'') of Some s \<Rightarrow> lower (trim s) | None \<Rightarrow> []"
  show ?thesis
  proof (cases "tool_name toolName \<in> set GAME_TOOLS \<or> tool_name toolName \<in> set TOOL_LOOKUPS")
    case False
    with assms obtain y where n: "tool_name toolName = TOOL_CALL" and y: "CATALOG_TOOL_ID ?i = Some y" "y \<in> set GAME_TOOLS"
      by (auto simp: gameTurnToolAllowed_def Let_def split: if_splits option.splits)
    have "?i = y \<or> (starts_with ?i ''openclaw:'' \<and> ends_with ?i ('':'' @ y))"
      using catalog_cases [OF y(1)] by (auto simp: starts_with_iff ends_with_iff)
    with n y(2) show ?thesis by (auto simp: reaches_game_tool_def list_ex_iff)
  qed (auto simp: reaches_game_tool_def)
qed

text \<open>
  A move calls only its game's tools: inside a game's own session the hook lets a call through
  only when it is one of the game's tools or a lookup, or a catalog call whose identifier is such a
  tool, bare or with the name of a plugin before it.
\<close>

theorem move_calls_only_game_tools:
  assumes "before_tool_call R toolName params sessionKey agentId ls = None" and "gameSessionWidgetId sessionKey \<noteq> None"
  shows "reaches_game_tool (tool_name toolName) (case as_str (jget params ''id'') of Some s \<Rightarrow> lower (trim s) | None \<Rightarrow> [])"
  using assms by (intro allowed_reaches) (auto simp: before_tool_call_def gameTurnToolBlock_def split: option.splits if_splits)

definition demo_runtime_g :: runtime where
  "demo_runtime_g = \<lparr>fmt_num = (\<lambda>q. []), date_parse = (\<lambda>s. None)\<rparr>"

lemma move_calls_only_game_tools_witness:
  "reaches_game_tool ''tool_call'' ''openclaw:clawbits:clawbits_widget_act'' \<and>
   before_tool_call demo_runtime_g (Some ''tool_call'') (JObj [(''id'', JStr ''openclaw:clawbits:clawbits_widget_act'')])
     (Some ''agent:main:clawbits:channel:widget-5f2a'') None (\<lambda>_. None) = None"
proof -
  let ?p = "JObj [(''id'', JStr ''openclaw:clawbits:clawbits_widget_act'')]" and ?k = "Some ''agent:main:clawbits:channel:widget-5f2a''"
  have h: "before_tool_call demo_runtime_g (Some ''tool_call'') ?p ?k None (\<lambda>_. None) = None" by code_simp
  have k: "gameSessionWidgetId ?k \<noteq> None" by code_simp
  have e: "tool_name (Some ''tool_call'') = ''tool_call''"
    "(case as_str (jget ?p ''id'') of Some s \<Rightarrow> lower (trim s) | None \<Rightarrow> []) = ''openclaw:clawbits:clawbits_widget_act''"
    by code_simp+
  from move_calls_only_game_tools [OF h k] h show ?thesis unfolding e by blast
qed

lemma listed_games_Some:
  assumes "\<forall>a \<in> set as. ls a \<noteq> None"
  obtains games where "listed_games ls as = Some games" "set games = (\<Union>a \<in> set as. set (the (ls a)))"
  using assms
proof (induction as arbitrary: thesis)
  case (Cons a as)
  then obtain games where g: "listed_games ls as = Some games" "set games = (\<Union>a \<in> set as. set (the (ls a)))" by auto
  from Cons.prems(2) obtain gs where "ls a = Some gs" by auto
  with g Cons.prems(1) [of "gs @ games"] show ?case by simp
qed simp

text \<open>The reference names a game of the list: by its transcript, for a reference that is no key.\<close>

definition names_listed :: "game_ref list \<Rightarrow> string \<Rightarrow> bool" where
  "names_listed games r = (CHR '':'' \<notin> set r \<and> list_ex (\<lambda>g. gr_sessionId g = Some r) games)"

text \<open>
  Outside a game's own session no session tool reaches a game's session: when the host lists the
  sessions of the calling agent and of the agent the call names, a call let through names no game
  session by key, by label or by the transcript of any listed game, and reads across all sessions
  only when neither agent holds a game.
\<close>

theorem session_tools_miss_games:
  assumes "before_tool_call R toolName params sessionKey agentId ls = None" and "gameSessionWidgetId sessionKey = None"
    and "tool_name toolName \<in> set SESSION_TOOLS"
    and "ls agentId = Some own" and "ls (as_str (jget params ''agentId'')) = Some other"
  shows "\<not> list_ex (\<lambda>r. namesGameSession r \<or> names_listed (own @ other) r) (peek_refs params) \<and>
    (across_sessions R (tool_name toolName) params \<longrightarrow> own @ other = [])"
proof -
  let ?as = "remdups_first [agentId, as_str (jget params ''agentId'')]"
  have "\<forall>a \<in> set ?as. ls a \<noteq> None" using assms(4,5) by simp
  then obtain games where g: "listed_games ls ?as = Some games" "set games = (\<Union>a \<in> set ?as. set (the (ls a)))"
    by (rule listed_games_Some)
  with assms(4,5) have sg: "set games = set own \<union> set other" by simp
  from assms(1-3) have pk: "gameSessionPeekBlock R toolName params sessionKey agentId ls = None"
    by (auto simp: before_tool_call_def gameTurnToolBlock_def)
  have names: "\<not> list_ex namesGameSession (peek_refs params)"
    using pk assms(2,3) by (auto simp: gameSessionPeekBlock_def Let_def split: if_splits)
  have miss: "\<not> (r \<in> set (peek_refs params) \<and> names_listed (own @ other) r)" for r
  proof
    assume r: "r \<in> set (peek_refs params) \<and> names_listed (own @ other) r"
    then obtain m where m: "m \<in> set games" "gr_sessionId m = Some r" "CHR '':'' \<notin> set r"
      using sg by (auto simp: names_listed_def list_ex_iff)
    then have "r \<in> set (filter (\<lambda>r. CHR '':'' \<notin> set r) (peek_refs params))" using r by simp
    moreover from this have "filter (\<lambda>r. CHR '':'' \<notin> set r) (peek_refs params) \<noteq> []" by (metis empty_iff empty_set)
    moreover have "list_ex (\<lambda>g. case gr_sessionId g of Some i \<Rightarrow> i \<in> set (filter (\<lambda>r. CHR '':'' \<notin> set r) (peek_refs params)) | None \<Rightarrow> False) games"
      using m calculation(1) by (auto simp: list_ex_iff intro!: bexI [of _ m])
    ultimately show False using pk assms(2,3) g(1) names
      by (simp add: gameSessionPeekBlock_def Let_def split: if_splits)
  qed
  have "across_sessions R (tool_name toolName) params \<Longrightarrow> games = []"
    using pk assms(2,3) g(1) names by (simp add: gameSessionPeekBlock_def Let_def split: if_splits)
  with sg have "across_sessions R (tool_name toolName) params \<longrightarrow> own @ other = []" by auto
  with names miss show ?thesis by (auto simp: list_ex_iff)
qed

definition demo_lister :: "string option \<Rightarrow> game_ref list option" where
  "demo_lister a = (if a = Some ''main'' then Some [\<lparr>gr_key = ''agent:main:clawbits:channel:widget-5f2a'', gr_sessionId = Some ''t1''\<rparr>] else None)"

lemma session_tools_miss_games_witness:
  "\<not> list_ex (\<lambda>r. namesGameSession r \<or> names_listed (the (demo_lister (Some ''main'')) @ the (demo_lister (Some ''main''))) r)
     (peek_refs (JObj [(''sessionId'', JStr ''t2''), (''agentId'', JStr ''main'')]))"
proof -
  let ?p = "JObj [(''sessionId'', JStr ''t2''), (''agentId'', JStr ''main'')]"
  have "before_tool_call demo_runtime_g (Some ''sessions_history'') ?p (Some ''agent:main:main'') (Some ''main'') demo_lister = None"
    "gameSessionWidgetId (Some ''agent:main:main'') = None" "tool_name (Some ''sessions_history'') \<in> set SESSION_TOOLS"
    by code_simp+
  moreover have "demo_lister (Some ''main'') = Some (the (demo_lister (Some ''main'')))"
    "demo_lister (as_str (jget ?p ''agentId'')) = Some (the (demo_lister (Some ''main'')))"
    by (simp_all add: demo_lister_def)
  ultimately show ?thesis using session_tools_miss_games by blast
qed

text \<open>
  The refusal by transcript is lost when the call names a further agent the host cannot list: the
  transcript is that of a listed game of the calling agent, and still the hook lets the call through.
\<close>

theorem unlisted_agent_opens_transcript:
  "list_ex (\<lambda>g. gr_sessionId g = Some ''t1'') (the (demo_lister (Some ''main''))) \<and>
   before_tool_call demo_runtime_g (Some ''sessions_history'') (JObj [(''sessionId'', JStr ''t1''), (''agentId'', JStr ''ghost'')])
     (Some ''agent:main:main'') (Some ''main'') demo_lister = None"
  by code_simp

section \<open>Memory runs\<close>

text \<open>\<open>JSON.stringify\<close> of a value out of JSON; an \<open>undefined\<close> property is left out.\<close>

definition hex_digit :: "nat \<Rightarrow> char" where
  "hex_digit n = (if n < 10 then digit_char n else char_of (87 + n))"

definition json_char :: "char \<Rightarrow> string" where
  "json_char c = (let n = of_char c :: nat in
     if n = 34 then [CHR 0x5C, CHR 0x22] else if n = 92 then [CHR 0x5C, CHR 0x5C]
     else if n = 8 then [CHR 0x5C, CHR ''b''] else if n = 9 then [CHR 0x5C, CHR ''t'']
     else if n = 10 then [CHR 0x5C, CHR ''n''] else if n = 12 then [CHR 0x5C, CHR ''f'']
     else if n = 13 then [CHR 0x5C, CHR ''r'']
     else if n < 32 then [CHR 0x5C] @ ''u00'' @ [hex_digit (n div 16), hex_digit (n mod 16)]
     else [c])"

definition json_quote :: "string \<Rightarrow> string" where
  "json_quote s = [CHR 0x22] @ concat (map json_char s) @ [CHR 0x22]"

fun json_text :: "runtime \<Rightarrow> jsval \<Rightarrow> string" where
  "json_text R JUndef = ''null''"
| "json_text R JNull = ''null''"
| "json_text R (JBool b) = (if b then ''true'' else ''false'')"
| "json_text R (JNum n) = (if is_finite n then num_to_string R n else ''null'')"
| "json_text R (JStr s) = json_quote s"
| "json_text R (JArr vs) = ''['' @ join '','' (map (json_text R) vs) @ '']''"
| "json_text R (JObj ps) = ''{'' @ join '','' (concat (map (\<lambda>(k, v). if v = JUndef then [] else [json_quote k @ '':'' @ json_text R v]) ps)) @ ''}''"

definition MEMORY_RUN_REASON :: string where "MEMORY_RUN_REASON = ''clawbits chat game transcript''"

definition gameMemoryRunBlock :: "runtime \<Rightarrow> jsval \<Rightarrow> string option \<Rightarrow> string option \<Rightarrow> string option" where
  "gameMemoryRunBlock R messages trigger sessionKey =
     (if trigger \<noteq> Some ''memory'' then None
      else if gameSessionWidgetId sessionKey \<noteq> None then Some MEMORY_RUN_REASON
      else if str_includes (json_text R (coalesce messages (JArr []))) GAME_TRANSCRIPT_MARKER then Some MEMORY_RUN_REASON
      else None)"

text \<open>\<open>/^v?(\d+)\.(\d+)\.(\d+)/\<close> on the version, from OpenClaw 2026.9.3 on.\<close>

definition take_number :: "string \<Rightarrow> (nat \<times> string) option" where
  "take_number s = (let ds = takeWhile is_digit s in if ds = [] then None else Some (nat_of_digits ds, dropWhile is_digit s))"

definition take_dot :: "string \<Rightarrow> string option" where
  "take_dot s = (case s of c # r \<Rightarrow> if c = CHR ''.'' then Some r else None | [] \<Rightarrow> None)"

definition version_parts :: "string \<Rightarrow> (nat \<times> nat \<times> nat) option" where
  "version_parts s =
     (let s1 = (case s of c # r \<Rightarrow> if c = CHR ''v'' then r else s | [] \<Rightarrow> s) in
      case take_number s1 of None \<Rightarrow> None | Some (y, r1) \<Rightarrow>
      case take_dot r1 of None \<Rightarrow> None | Some r2 \<Rightarrow>
      case take_number r2 of None \<Rightarrow> None | Some (m, r3) \<Rightarrow>
      case take_dot r3 of None \<Rightarrow> None | Some r4 \<Rightarrow>
      map_option (\<lambda>(p, _). (y, m, p)) (take_number r4))"

definition hostFlushesApart :: "jsval \<Rightarrow> bool" where
  "hostFlushesApart version =
     (case map_option (version_parts \<circ> trim) (as_str version) of
        Some (Some (year, month, patch)) \<Rightarrow> 2026 * 1000000 + 9 * 1000 + 3 \<le> year * 1000000 + month * 1000 + patch
      | _ \<Rightarrow> True)"

text \<open>Some string of the value, a key included, contains the text.\<close>

fun mentions :: "string \<Rightarrow> jsval \<Rightarrow> bool" where
  "mentions m (JStr s) = str_includes s m"
| "mentions m (JArr vs) = list_ex (mentions m) vs"
| "mentions m (JObj ps) = list_ex (\<lambda>(k, v). v \<noteq> JUndef \<and> (str_includes k m \<or> mentions m v)) ps"
| "mentions m _ = False"

lemma str_includes_append: "str_includes s p \<Longrightarrow> str_includes (u @ s @ v) p"
  unfolding str_includes_iff by (metis append.assoc)

lemma str_includes_join: "s \<in> set ss \<Longrightarrow> str_includes s p \<Longrightarrow> str_includes (join sep ss) p"
proof (induction sep ss rule: join.induct)
  case (3 sep s' t ss)
  then show ?case
    using str_includes_append [of s' p "[]" "sep @ join sep (t # ss)"] str_includes_append [of "join sep (t # ss)" p "s' @ sep" "[]"]
    by auto
qed simp_all

lemma str_includes_quote:
  assumes "\<forall>c \<in> set p. json_char c = [c]" and "str_includes s p"
  shows "str_includes (json_quote s) p"
proof -
  from assms(2) obtain u v where s: "s = u @ p @ v" by (auto simp: str_includes_iff)
  have "concat (map json_char p) = p" using assms(1) by (induction p) auto
  then have "json_quote s = ([CHR 0x22] @ concat (map json_char u)) @ p @ (concat (map json_char v) @ [CHR 0x22])"
    by (simp add: s json_quote_def)
  then show ?thesis unfolding str_includes_iff by blast
qed

lemma mentions_text:
  assumes "\<forall>c \<in> set p. json_char c = [c]"
  shows "mentions p v \<Longrightarrow> str_includes (json_text R v) p"
proof (induction v)
  case (JStr s)
  with str_includes_quote [OF assms] show ?case by simp
next
  case (JArr vs)
  then obtain v where v: "v \<in> set vs" "mentions p v" by (auto simp: list_ex_iff)
  then have "str_includes (join '','' (map (json_text R) vs)) p"
    by (intro str_includes_join [where s = "json_text R v"]) (simp_all add: JArr.IH)
  then show ?case using str_includes_append [of "join '','' (map (json_text R) vs)" p "''[''" "'']''"] by simp
next
  case (JObj ps)
  then obtain k v where kv: "(k, v) \<in> set ps" "v \<noteq> JUndef" "str_includes k p \<or> mentions p v" by (auto simp: list_ex_iff)
  let ?items = "concat (map (\<lambda>(k, v). if v = JUndef then [] else [json_quote k @ '':'' @ json_text R v]) ps)"
  have i: "json_quote k @ '':'' @ json_text R v \<in> set ?items" using kv(1,2) by force
  have "str_includes (json_quote k @ '':'' @ json_text R v) p"
    using kv(3)
  proof
    assume "str_includes k p"
    then show ?thesis
      using str_includes_append [OF str_includes_quote [OF assms, of k], of "[]" "'':'' @ json_text R v"] by simp
  next
    assume "mentions p v"
    then have "str_includes (json_text R v) p" using JObj.IH [OF kv(1), of v] by simp
    then show ?thesis using str_includes_append [of "json_text R v" p "json_quote k @ '':''" "[]"] by simp
  qed
  with i have "str_includes (join '','' ?items) p" by (rule str_includes_join)
  then show ?case using str_includes_append [of "join '','' ?items" p "''{''" "''}''"] by simp
qed simp_all

lemma marker_chars: "\<forall>c \<in> set GAME_TRANSCRIPT_MARKER. json_char c = [c]"
  by code_simp

text \<open>
  No memory run reads a game: it is refused in a game's own session, and in any other session when
  the marker of a game's briefs occurs anywhere in the strings of its messages.
\<close>

theorem memory_run_over_game_is_refused:
  assumes "gameSessionWidgetId sessionKey \<noteq> None \<or> mentions GAME_TRANSCRIPT_MARKER messages"
  shows "gameMemoryRunBlock R messages (Some ''memory'') sessionKey = Some MEMORY_RUN_REASON"
proof -
  have "mentions GAME_TRANSCRIPT_MARKER messages \<Longrightarrow> coalesce messages (JArr []) = messages"
    by (cases messages) (simp_all add: coalesce_def)
  with assms mentions_text [OF marker_chars, of messages R] show ?thesis
    by (auto simp: gameMemoryRunBlock_def)
qed

lemma memory_run_over_game_is_refused_witness:
  "gameMemoryRunBlock demo_runtime_g (JArr [JObj [(''content'', JStr ''brief clawbits-game-session-7c1e end'')]]) (Some ''memory'')
     (Some ''agent:main:internal-session-effects:1'') = Some MEMORY_RUN_REASON"
  by (rule memory_run_over_game_is_refused) (rule disjI2, code_simp)

section \<open>Runs on a game's session\<close>

definition GAME_RUN_STALE_MS :: int where "GAME_RUN_STALE_MS = 900000"

text \<open>A run's session and when it began, or nothing for a hold, which is never stale.\<close>

record game_runs =
  gameRuns :: "(string, string \<times> int option) jsmap"
  gameHolds :: nat

definition trackGameRun :: "int \<Rightarrow> string \<Rightarrow> string option \<Rightarrow> string \<Rightarrow> game_runs \<Rightarrow> game_runs" where
  "trackGameRun now runId sessionKey phase s =
     (if phase = ''start'' then
        (case sessionKey of
           Some k \<Rightarrow> if k \<noteq> [] \<and> gameSessionOf (Some k) \<noteq> None
             then s\<lparr>gameRuns := mset_key runId (lower k, Some now) (gameRuns s)\<rparr> else s
         | None \<Rightarrow> s)
      else if phase = ''end'' \<or> phase = ''error'' then s\<lparr>gameRuns := mdel runId (gameRuns s)\<rparr>
      else s)"

definition hold_id :: "nat \<Rightarrow> string" where
  "hold_id n = ''hold:'' @ show_nat n"

definition holdGameSession :: "string \<Rightarrow> game_runs \<Rightarrow> game_runs" where
  "holdGameSession sessionKey s =
     (let n = Suc (gameHolds s) in
      s\<lparr>gameHolds := n, gameRuns := mset_key (hold_id n) (lower sessionKey, None) (gameRuns s)\<rparr>)"

definition releaseHold :: "nat \<Rightarrow> game_runs \<Rightarrow> game_runs" where
  "releaseHold n s = s\<lparr>gameRuns := mdel (hold_id n) (gameRuns s)\<rparr>"

text \<open>The answer, and the runs without the stale ones the search came by.\<close>

fun busy_scan :: "int \<Rightarrow> string \<Rightarrow> (string, string \<times> int option) jsmap \<Rightarrow> bool \<times> (string, string \<times> int option) jsmap" where
  "busy_scan now key [] = (False, [])"
| "busy_scan now key ((i, k, since) # rs) =
     (if (case since of Some t \<Rightarrow> GAME_RUN_STALE_MS < now - t | None \<Rightarrow> False) then busy_scan now key rs
      else if k = key then (True, (i, k, since) # rs)
      else (let (b, rs') = busy_scan now key rs in (b, (i, k, since) # rs')))"

definition gameSessionBusy :: "int \<Rightarrow> string \<Rightarrow> game_runs \<Rightarrow> bool \<times> game_runs" where
  "gameSessionBusy now sessionKey s =
     (let (b, rs) = busy_scan now (lower sessionKey) (gameRuns s) in (b, s\<lparr>gameRuns := rs\<rparr>))"

datatype runs_event = Track int string "string option" string | Hold string | Release nat | AskBusy int string

definition runs_step :: "game_runs \<Rightarrow> runs_event \<Rightarrow> game_runs" where
  "runs_step s e =
     (case e of
        Track now i k ph \<Rightarrow> trackGameRun now i k ph s
      | Hold k \<Rightarrow> holdGameSession k s
      | Release n \<Rightarrow> releaseHold n s
      | AskBusy now k \<Rightarrow> snd (gameSessionBusy now k s))"

text \<open>Nothing that happens is the release of the hold, nor an event of a run with its identifier.\<close>

definition spares :: "nat \<Rightarrow> runs_event \<Rightarrow> bool" where
  "spares n e = (case e of Release m \<Rightarrow> m \<noteq> n | Track now i k ph \<Rightarrow> i \<noteq> hold_id n | _ \<Rightarrow> True)"

lemma hold_id_inj [simp]: "hold_id m = hold_id n \<longleftrightarrow> m = n"
  by (simp add: hold_id_def)

lemma busy_scan_mget: "mget rs i = Some (k, None) \<Longrightarrow> mget (snd (busy_scan now key rs)) i = Some (k, None)"
  by (induction now key rs rule: busy_scan.induct) (auto split: if_splits option.splits prod.splits)

lemma busy_scan_true: "mget rs i = Some (key, None) \<Longrightarrow> fst (busy_scan now key rs)"
  by (induction now key rs rule: busy_scan.induct) (auto split: if_splits option.splits prod.splits)

lemma hold_kept:
  assumes "mget (gameRuns s) (hold_id n) = Some (k, None)" and "n \<le> gameHolds s" and "spares n e"
  shows "mget (gameRuns (runs_step s e)) (hold_id n) = Some (k, None) \<and> n \<le> gameHolds (runs_step s e)"
proof (cases e)
  case (AskBusy t x)
  with assms busy_scan_mget [of "gameRuns s" "hold_id n" k t "lower x"] show ?thesis
    by (simp add: runs_step_def gameSessionBusy_def split_beta)
next
  case (Track t i x ph)
  with assms show ?thesis by (auto simp: runs_step_def spares_def trackGameRun_def split: option.split)
qed (use assms in \<open>auto simp: runs_step_def spares_def holdGameSession_def releaseHold_def Let_def\<close>)

text \<open>
  A held session is busy until it is released: after a move's dispatch holds a session, no other
  run, hold, release or query, at whatever time, makes it free, so that it cannot be deleted.
\<close>

theorem held_session_is_busy:
  assumes "list_all (spares (Suc (gameHolds s))) es"
  shows "fst (gameSessionBusy now key (run runs_step (holdGameSession key s) es))"
proof -
  have "mget (gameRuns (run runs_step u es)) (hold_id n) = Some (k, None)"
    if "mget (gameRuns u) (hold_id n) = Some (k, None)" "n \<le> gameHolds u" "list_all (spares n) es" for u n k
    using that
  proof (induction es arbitrary: u)
    case (Cons e es)
    with hold_kept [of u n k e] show ?case by simp
  qed simp
  from this [of "holdGameSession key s" "Suc (gameHolds s)" "lower key"] assms
  have "mget (gameRuns (run runs_step (holdGameSession key s) es)) (hold_id (Suc (gameHolds s))) = Some (lower key, None)"
    by (simp add: holdGameSession_def Let_def)
  then show ?thesis using busy_scan_true by (auto simp: gameSessionBusy_def Let_def split: prod.splits; metis fst_conv)
qed

lemma held_session_is_busy_witness:
  "fst (gameSessionBusy 99999999 ''K'' (run runs_step (holdGameSession ''K'' \<lparr>gameRuns = [], gameHolds = 0\<rparr>)
     [Hold ''K'', AskBusy 5 ''k'', Release 2, Track 1 ''r1'' None ''end'']))"
  by (rule held_session_is_busy) (simp add: spares_def hold_id_def)

end
