(* ===== verification/Skills_Scan.thy ===== *)
theory Skills_Scan
  imports Game_Guards
begin

text \<open>
  The scan of an agent's skill directories (\<open>plugin/src/skills/scan.ts\<close>). The disk is what its calls answer
  while the scan runs: which paths are directories and files, what \<open>readdir\<close> lists and what \<open>readFile\<close> reads.
  Paths are strings, with \<open>path.join\<close> and \<open>path.dirname\<close> of POSIX. \<open>JSON.parse\<close>, the digest and the decoding
  of UTF-8 are parameters.
\<close>

section \<open>Paths\<close>

definition normal_segment :: "bool \<Rightarrow> string list \<Rightarrow> string \<Rightarrow> string list" where
  "normal_segment absolute segs x =
     (if x = [] \<or> x = ''.'' then segs
      else if x = ''..'' then
        (if segs \<noteq> [] \<and> List.last segs \<noteq> ''..'' then butlast segs else if absolute then segs else segs @ [x])
      else segs @ [x])"

definition path_normalize :: "string \<Rightarrow> string" where
  "path_normalize p =
     (let absolute = starts_with p ''/'';
          body = join ''/'' (foldl (normal_segment absolute) [] (split_on CHR ''/'' p))
      in if p = [] then ''.''
         else if body = [] then (if absolute then ''/'' else if ends_with p ''/'' then ''./'' else ''.'')
         else (if absolute then ''/'' else []) @ body @ (if ends_with p ''/'' then ''/'' else []))"

definition path_join :: "string list \<Rightarrow> string" where
  "path_join ps = (let parts = filter (\<lambda>p. p \<noteq> []) ps in
     if parts = [] then ''.'' else path_normalize (join ''/'' parts))"

text \<open>What is left of a path, read from its end, when the last segment and the separators after it are gone.\<close>

definition cut_segment :: "string \<Rightarrow> string" where
  "cut_segment cs = dropWhile (\<lambda>x. x \<noteq> CHR ''/'') (dropWhile (\<lambda>x. x = CHR ''/'') cs)"

definition dirname :: "string \<Rightarrow> string" where
  "dirname p = (case p of
      [] \<Rightarrow> ''.''
    | c # cs \<Rightarrow>
       (case cut_segment (rev cs) of
          [] \<Rightarrow> if c = CHR ''/'' then ''/'' else ''.''
        | x # r \<Rightarrow> if c = CHR ''/'' \<and> r = [] then ''//'' else c # rev r))"

section \<open>The disk and a skill\<close>

datatype dirent_kind = EntryDir | EntryLink | EntryOther

record disk_view =
  v_isdir :: "string \<Rightarrow> bool"
  v_isfile :: "string \<Rightarrow> bool"
  v_list :: "string \<Rightarrow> (string \<times> dirent_kind) list option"
  v_read :: "string \<Rightarrow> string option"

record scan_host =
  h_parse :: "string \<Rightarrow> jsval option"
  h_digest :: "string \<Rightarrow> string"
  h_utf8 :: "string \<Rightarrow> string"

record skill_manifest =
  mf_name :: "string option"
  mf_description :: "string option"

record skill_md =
  md_hash :: string
  md_text :: "string option"

record scanned_skill =
  sk_slug :: string
  sk_path :: string
  sk_root :: string
  sk_source :: "string option"
  sk_manifest :: "skill_manifest option"
  sk_md :: "skill_md option"

definition SKILL_MARKERS :: "string list" where "SKILL_MARKERS = [''SKILL.md'', ''skill.md'']"
definition OPENCLAW_ORIGIN :: string where "OPENCLAW_ORIGIN = ''.openclaw/source-origin.json''"
definition MAX_DEPTH :: nat where "MAX_DEPTH = 4"
definition MAX_SKILLS :: nat where "MAX_SKILLS = 500"
definition MAX_SKILL_MD_BYTES :: nat where "MAX_SKILL_MD_BYTES = 64 * 1024"

definition readJson :: "scan_host \<Rightarrow> disk_view \<Rightarrow> string \<Rightarrow> jsval" where
  "readJson H V file = (case v_read V file of
      None \<Rightarrow> JUndef
    | Some raw \<Rightarrow> (case h_parse H (h_utf8 H raw) of Some v \<Rightarrow> v | None \<Rightarrow> JUndef))"

text \<open>\<open>/^(name|description):\s*(.*)$/u\<close> on a trimmed line, and the quotes around its value.\<close>

definition line_value :: "string \<Rightarrow> string option" where
  "line_value s = (let v = dropWhile is_ws s in
     if list_all (\<lambda>c. of_char c \<notin> {10, 13 :: nat}) v then Some v else None)"

definition frontmatter_field :: "string \<Rightarrow> (bool \<times> string) option" where
  "frontmatter_field l =
     (if starts_with l ''name:'' then map_option (Pair True) (line_value (drop 5 l))
      else if starts_with l ''description:'' then map_option (Pair False) (line_value (drop 12 l))
      else None)"

definition unquote_value :: "string \<Rightarrow> string" where
  "unquote_value v = (case v of
      c # cs \<Rightarrow> (if (c = CHR 34 \<or> c = CHR 39) \<and> cs \<noteq> [] \<and> List.last cs = c then butlast cs else v)
    | [] \<Rightarrow> [])"

definition frontmatter_line :: "skill_manifest \<Rightarrow> string \<Rightarrow> skill_manifest" where
  "frontmatter_line mf l = (case frontmatter_field (trim l) of
      Some (True, v) \<Rightarrow> mf\<lparr>mf_name := Some (unquote_value v)\<rparr>
    | Some (False, v) \<Rightarrow> mf\<lparr>mf_description := Some (unquote_value v)\<rparr>
    | None \<Rightarrow> mf)"

definition parseFrontmatter :: "string \<Rightarrow> skill_manifest" where
  "parseFrontmatter t =
     (case (if starts_with t ''---'' then index_of (drop 3 t) (CHR 10 # ''---'') else None) of
        None \<Rightarrow> \<lparr>mf_name = None, mf_description = None\<rparr>
      | Some n \<Rightarrow> foldl frontmatter_line \<lparr>mf_name = None, mf_description = None\<rparr> (split_on CHR 10 (take n (drop 3 t))))"

definition text_fits :: "string \<Rightarrow> bool" where
  "text_fits raw = (length raw \<le> MAX_SKILL_MD_BYTES)"

lemma text_fits_code [code]: "text_fits raw = (int (length raw) \<le> 65536)"
  by (simp add: text_fits_def MAX_SKILL_MD_BYTES_def)

definition readSkillMd :: "scan_host \<Rightarrow> disk_view \<Rightarrow> string \<Rightarrow> skill_manifest option \<times> skill_md option" where
  "readSkillMd H V file = (case v_read V file of
      None \<Rightarrow> (None, None)
    | Some raw \<Rightarrow>
        (Some (parseFrontmatter (h_utf8 H raw)),
         Some \<lparr>md_hash = ''sha256:'' @ h_digest H raw,
           md_text = (if text_fits raw then Some (h_utf8 H raw) else None)\<rparr>))"

definition findSkillMd :: "disk_view \<Rightarrow> string \<Rightarrow> string option" where
  "findSkillMd V dir =
     map_option (\<lambda>n. path_join [dir, n]) (List.find (\<lambda>n. v_isfile V (path_join [dir, n])) SKILL_MARKERS)"

section \<open>The walk\<close>

definition enters :: "disk_view \<Rightarrow> string \<Rightarrow> string \<times> dirent_kind \<Rightarrow> bool" where
  "enters V dir e =
     (\<not> starts_with (fst e) ''.'' \<and>
      (snd e = EntryDir \<or> (snd e = EntryLink \<and> v_isdir V (path_join [dir, fst e]))))"

definition listing :: "disk_view \<Rightarrow> string \<Rightarrow> (string \<times> dirent_kind) list" where
  "listing V dir = (case v_list V dir of Some es \<Rightarrow> es | None \<Rightarrow> [])"

definition skill_at :: "scan_host \<Rightarrow> disk_view \<Rightarrow> string \<Rightarrow> string \<Rightarrow> string \<Rightarrow> string \<Rightarrow> scanned_skill" where
  "skill_at H V rt child slug file =
     \<lparr>sk_slug = slug, sk_path = file, sk_root = rt,
      sk_source = as_str (jget (readJson H V (path_join [child, OPENCLAW_ORIGIN])) ''source''),
      sk_manifest = fst (readSkillMd H V file), sk_md = snd (readSkillMd H V file)\<rparr>"

function (sequential) walk and walk_entries where
  "walk H V dir rt depth out =
     (if MAX_DEPTH < depth then out else walk_entries H V dir rt depth (listing V dir) out)"
| "walk_entries H V dir rt depth [] out = out"
| "walk_entries H V dir rt depth (e # es) out =
     (if MAX_SKILLS \<le> length out then out
      else if \<not> enters V dir e then walk_entries H V dir rt depth es out
      else let child = path_join [dir, fst e] in
        (case findSkillMd V child of
           None \<Rightarrow> walk_entries H V dir rt depth es (walk H V child rt (depth + 1) out)
         | Some file \<Rightarrow> walk_entries H V dir rt depth es (out @ [skill_at H V rt child (fst e) file])))"
  by pat_completeness auto

text \<open>
  What gets smaller: the levels left below the depth limit, then the entries left in a directory.
\<close>

definition levels_left :: "nat \<Rightarrow> nat" where
  "levels_left depth = 2 * (Suc MAX_DEPTH - depth)"

termination walk
  by (relation "measures
       [\<lambda>x. case x of Inl (H, V, dir, rt, depth, out) \<Rightarrow> levels_left depth
                   | Inr (H, V, dir, rt, depth, es, out) \<Rightarrow> levels_left depth - 1,
        \<lambda>x. case x of Inl _ \<Rightarrow> 0 | Inr (H, V, dir, rt, depth, es, out) \<Rightarrow> Suc (length es)]")
    (auto simp: levels_left_def)

declare walk.simps [simp del] walk_entries.simps [simp del]

definition first_of_slug :: "scanned_skill list \<Rightarrow> scanned_skill \<Rightarrow> scanned_skill list" where
  "first_of_slug kept s = (if sk_slug s \<in> set (map sk_slug kept) then kept else kept @ [s])"

record scan_result =
  sr_skills :: "scanned_skill list"
  sr_scanned :: "string list"
  sr_truncated :: bool

definition scanSkills :: "scan_host \<Rightarrow> disk_view \<Rightarrow> string list \<Rightarrow> scan_result" where
  "scanSkills H V roots =
     (let scanned = filter (v_isdir V) roots;
          out = foldl (\<lambda>out rt. walk H V rt rt 0 out) [] scanned
      in \<lparr>sr_skills = foldl first_of_slug [] out, sr_scanned = scanned, sr_truncated = (MAX_SKILLS \<le> length out)\<rparr>)"

section \<open>The roots\<close>

record skill_env =
  se_home :: string
  se_state_dir :: "string option"
  se_openclaw_home :: "string option"
  se_bundled :: "string option"

text \<open>\<open>x?.trim() || y\<close>\<close>

definition trimmed_or :: "string option \<Rightarrow> string \<Rightarrow> string" where
  "trimmed_or x y = (case map_option trim x of Some (c # s) \<Rightarrow> c # s | _ \<Rightarrow> y)"

definition resolveSkillRoots :: "skill_env \<Rightarrow> string option \<Rightarrow> string list" where
  "resolveSkillRoots E workspaceDir =
     (let stateDir = trimmed_or (se_state_dir E) (trimmed_or (se_openclaw_home E) (path_join [se_home E, ''.openclaw'']));
          workspace = trimmed_or workspaceDir (path_join [stateDir, ''workspace''])
      in foldl (\<lambda>s x. sadd x s) []
        [path_join [workspace, ''skills''], path_join [workspace, ''.agents'', ''skills''],
         path_join [se_home E, ''.agents'', ''skills''], path_join [stateDir, ''skills''],
         path_join [stateDir, ''plugin-skills'']])"

definition writeRoot :: "skill_env \<Rightarrow> string option \<Rightarrow> string" where
  "writeRoot E workspaceDir = hd (resolveSkillRoots E workspaceDir)"

definition is_openclaw :: "scan_host \<Rightarrow> disk_view \<Rightarrow> string \<Rightarrow> bool" where
  "is_openclaw H V dir = (jget (readJson H V (path_join [dir, ''package.json''])) ''name'' = JStr ''openclaw'')"

definition dir_or_none :: "disk_view \<Rightarrow> string \<Rightarrow> string option" where
  "dir_or_none V d = (if v_isdir V d then Some d else None)"

text \<open>The climb to the package root; \<open>None\<close> would be a loop that never ends.\<close>

partial_function (option) climb :: "scan_host \<Rightarrow> disk_view \<Rightarrow> string \<Rightarrow> string option option" where
  "climb H V dir =
     (if is_openclaw H V dir then Some (dir_or_none V (path_join [dir, ''skills'']))
      else if dirname dir = dir then Some None
      else climb H V (dirname dir))"

declare climb.simps [code]

text \<open>\<open>realpath\<close> may fail.\<close>

definition resolveBundledSkillsDir ::
  "scan_host \<Rightarrow> disk_view \<Rightarrow> (string \<Rightarrow> string option) \<Rightarrow> skill_env \<Rightarrow> string option \<Rightarrow> string option option" where
  "resolveBundledSkillsDir H V realpath E entry = (case map_option trim (se_bundled E) of
      Some (c # s) \<Rightarrow> Some (dir_or_none V (c # s))
    | _ \<Rightarrow> (case entry of
        Some (c # s) \<Rightarrow> climb H V (dirname (case realpath (c # s) of Some r \<Rightarrow> r | None \<Rightarrow> c # s))
      | _ \<Rightarrow> Some None))"

section \<open>The climb ends\<close>

lemma cut_segment_shorter: "cs \<noteq> [] \<Longrightarrow> length (cut_segment cs) < length cs"
proof (induction cs)
  case (Cons c cs)
  then show ?case
    by (cases "cs = []") (auto simp: cut_segment_def less_Suc_eq_le length_dropWhile_le)
qed simp

lemma dirname_shorter: "2 \<le> length p \<Longrightarrow> length (dirname p) < length p"
proof (cases p)
  case (Cons c cs)
  assume "2 \<le> length p"
  with Cons have "cs \<noteq> []" by auto
  then have "length (cut_segment (rev cs)) < length cs" using cut_segment_shorter [of "rev cs"] by simp
  then show ?thesis by (auto simp: dirname_def Cons split: list.split)
qed simp

lemma dirname_short: "length p \<le> 1 \<Longrightarrow> dirname (dirname p) = dirname p"
  by (cases p) (auto simp: dirname_def cut_segment_def)

text \<open>A path and the directories above it, as far up as \<open>n\<close> steps.\<close>

primrec ancestors :: "nat \<Rightarrow> string \<Rightarrow> string list" where
  "ancestors 0 d = [d]"
| "ancestors (Suc n) d = d # ancestors n (dirname d)"

definition skills_of :: "disk_view \<Rightarrow> string option \<Rightarrow> string option" where
  "skills_of V pkg = Option.bind pkg (\<lambda>d. dir_or_none V (path_join [d, ''skills'']))"

lemma skills_of_simps [simp]:
  "skills_of V None = None" "skills_of V (Some d) = dir_or_none V (path_join [d, ''skills''])"
  by (simp_all add: skills_of_def)

lemma find_ancestors_top:
  "dirname d = d \<Longrightarrow> List.find P (ancestors n d) = (if P d then Some d else None)"
  by (induction n) auto

lemma climb_top:
  "dirname d = d \<Longrightarrow> climb H V d = Some (skills_of V (List.find (is_openclaw H V) (ancestors n d)))"
  by (subst climb.simps) (simp add: find_ancestors_top)

lemma climb_finds:
  "length d \<le> n \<Longrightarrow> climb H V d = Some (skills_of V (List.find (is_openclaw H V) (ancestors (Suc n) d)))"
proof (induction n arbitrary: d)
  case 0
  have "dirname [] = ''.''" "dirname ''.'' = ''.''" by (simp_all add: dirname_def cut_segment_def)
  with 0 climb_top [of "''.''" H V 0] show ?case by (subst climb.simps) simp
next
  case (Suc n)
  have "climb H V (dirname d) = Some (skills_of V (List.find (is_openclaw H V) (ancestors (Suc n) (dirname d))))"
  proof (cases "length d \<le> 1")
    case True
    then show ?thesis by (intro climb_top dirname_short)
  next
    case False
    with dirname_shorter [of d] Suc.prems show ?thesis by (intro Suc.IH) auto
  qed
  then show ?case
    using climb_top [of d H V "Suc (Suc n)"] by (cases "dirname d = d") (simp_all add: climb.simps [of H V d])
qed

section \<open>What a scan finds\<close>

text \<open>
  The skills below a directory, as the layout of the disk defines them: a directory with a marker is a skill, a
  directory without one may hold skills, down to the depth limit.
\<close>

inductive on_shelf :: "disk_view \<Rightarrow> string \<Rightarrow> nat \<Rightarrow> string \<Rightarrow> string \<Rightarrow> bool" for V where
  skill: "\<lbrakk>depth \<le> MAX_DEPTH; e \<in> set (listing V dir); enters V dir e;
     findSkillMd V (path_join [dir, fst e]) = Some file\<rbrakk> \<Longrightarrow> on_shelf V dir depth (fst e) file"
| nested: "\<lbrakk>depth \<le> MAX_DEPTH; e \<in> set (listing V dir); enters V dir e;
     findSkillMd V (path_join [dir, fst e]) = None; on_shelf V (path_join [dir, fst e]) (Suc depth) slug file\<rbrakk>
   \<Longrightarrow> on_shelf V dir depth slug file"

inductive_cases on_shelfE: "on_shelf V dir depth slug file"

definition finds :: "disk_view \<Rightarrow> string \<Rightarrow> nat \<Rightarrow> string \<times> dirent_kind \<Rightarrow> (string \<times> string) set" where
  "finds V dir depth e =
     (if \<not> enters V dir e then {}
      else case findSkillMd V (path_join [dir, fst e]) of
          Some f \<Rightarrow> {(fst e, f)}
        | None \<Rightarrow> {(slug, file). on_shelf V (path_join [dir, fst e]) (Suc depth) slug file})"

lemma on_shelf_finds:
  "on_shelf V dir depth slug file \<longleftrightarrow>
   depth \<le> MAX_DEPTH \<and> (\<exists>e \<in> set (listing V dir). (slug, file) \<in> finds V dir depth e)" (is "?l \<longleftrightarrow> ?r")
proof
  assume ?l then show ?r
    by cases (auto simp: finds_def intro!: bexI)
next
  assume ?r
  then obtain e where e: "depth \<le> MAX_DEPTH" "e \<in> set (listing V dir)" "(slug, file) \<in> finds V dir depth e" by blast
  then show ?l
    using on_shelf.skill [OF e(1,2)] on_shelf.nested [OF e(1,2)]
    by (auto simp: finds_def split: if_splits option.splits)
qed

text \<open>The skills of a walk, as their names and marker files under the root the walk began at.\<close>

definition sightings :: "scanned_skill list \<Rightarrow> (string \<times> string \<times> string) set" where
  "sightings out = (\<lambda>s. (sk_root s, sk_slug s, sk_path s)) ` set out"

definition under_root :: "string \<Rightarrow> (string \<times> string) set \<Rightarrow> (string \<times> string \<times> string) set" where
  "under_root rt X = Pair rt ` X"

lemma sightings_simps [simp]:
  "sightings [] = {}" "sightings (xs @ ys) = sightings xs \<union> sightings ys"
  "sightings [skill_at H V rt child slug file] = {(rt, slug, file)}"
  by (auto simp: sightings_def skill_at_def)

lemma walk_grows:
  shows "length out \<le> length (walk H V dir rt depth out)"
    and "length out \<le> length (walk_entries H V dir rt depth es out)"
proof (induction H V dir rt depth out and H V dir rt depth es out rule: walk_walk_entries.induct)
  case (1 H V dir rt depth out)
  then show ?case by (subst walk.simps) simp
next
  case (2 H V dir rt depth out)
  then show ?case by (simp add: walk_entries.simps)
next
  case (3 H V dir rt depth e es out)
  show ?case
  proof (cases "MAX_SKILLS \<le> length out \<or> \<not> enters V dir e")
    case True
    with 3 show ?thesis by (subst walk_entries.simps) auto
  next
    case False
    show ?thesis
    proof (cases "findSkillMd V (path_join [dir, fst e])")
      case None
      with 3(2,3) False show ?thesis by (subst walk_entries.simps) (auto simp: Let_def intro: order_trans)
    next
      case (Some f)
      with 3(4) [OF _ _ refl Some] False show ?thesis by (subst walk_entries.simps) (simp add: Let_def)
    qed
  qed
qed

lemma walk_sightings:
  shows "length (walk H V dir rt depth out) < MAX_SKILLS \<Longrightarrow>
      sightings (walk H V dir rt depth out) =
      sightings out \<union> Pair rt ` {(slug, file). on_shelf V dir depth slug file}"
    and "length (walk_entries H V dir rt depth es out) < MAX_SKILLS \<Longrightarrow> depth \<le> MAX_DEPTH \<Longrightarrow>
      sightings (walk_entries H V dir rt depth es out) =
      sightings out \<union> Pair rt ` (\<Union>e \<in> set es. finds V dir depth e)"
proof (induction H V dir rt depth out and H V dir rt depth es out rule: walk_walk_entries.induct)
  case (1 H V dir rt depth out)
  show ?case
  proof (cases "MAX_DEPTH < depth")
    case True
    then have none: "{(slug, file). on_shelf V dir depth slug file} = {}" by (auto simp: on_shelf_finds)
    from True show ?thesis unfolding none by (subst walk.simps) simp
  next
    case False
    then have "{(slug, file). on_shelf V dir depth slug file} = (\<Union>e \<in> set (listing V dir). finds V dir depth e)"
      by (auto simp: on_shelf_finds)
    with 1 False show ?thesis by (simp add: walk.simps)
  qed
next
  case (2 H V dir rt depth out)
  then show ?case by (simp add: walk_entries.simps)
next
  case (3 H V dir rt depth e es out)
  let ?child = "path_join [dir, fst e]"
  from "3.prems" walk_grows(2) [of out H V dir rt depth "e # es"]
  have room: "\<not> MAX_SKILLS \<le> length out" by simp
  show ?case
  proof (cases "enters V dir e")
    case False
    then have "finds V dir depth e = {}" by (simp add: finds_def)
    with 3 False room show ?thesis by (simp add: walk_entries.simps)
  next
    case True
    show ?thesis
    proof (cases "findSkillMd V ?child")
      case None
      let ?w = "walk H V ?child rt (depth + 1) out"
      have eq: "walk_entries H V dir rt depth (e # es) out = walk_entries H V dir rt depth es ?w"
        using True None room by (simp add: walk_entries.simps Let_def)
      with "3.prems" have "length (walk_entries H V dir rt depth es ?w) < MAX_SKILLS" by simp
      moreover from this have "length ?w < MAX_SKILLS" using walk_grows(2) [of ?w H V dir rt depth es] by simp
      moreover have "finds V dir depth e = {(slug, file). on_shelf V ?child (Suc depth) slug file}"
        using True None by (simp add: finds_def)
      ultimately show ?thesis
        using 3(2) [OF room _ refl None] 3(3) [OF room _ refl None] True "3.prems"
        by (simp add: eq image_Un Un_assoc)
    next
      case (Some f)
      have eq: "walk_entries H V dir rt depth (e # es) out =
          walk_entries H V dir rt depth es (out @ [skill_at H V rt ?child (fst e) f])"
        using True Some room by (simp add: walk_entries.simps Let_def)
      moreover have "finds V dir depth e = {(fst e, f)}" using True Some by (simp add: finds_def)
      ultimately show ?thesis
        using 3(4) [OF room _ refl Some] True "3.prems" by (simp add: image_Un Un_assoc)
    qed
  qed
qed

text \<open>All roots: what a scan that is not truncated has seen, before duplicates go.\<close>

lemma roots_grow: "length out \<le> length (foldl (\<lambda>out rt. walk H V rt rt 0 out) out roots)"
proof (induction roots arbitrary: out)
  case (Cons r roots)
  from Cons.IH [of "walk H V r r 0 out"] walk_grows(1) [of out H V r r 0] show ?case by simp
qed simp

lemma roots_sightings:
  "length (foldl (\<lambda>out rt. walk H V rt rt 0 out) out roots) < MAX_SKILLS \<Longrightarrow>
   sightings (foldl (\<lambda>out rt. walk H V rt rt 0 out) out roots) =
   sightings out \<union> {(r, slug, file). r \<in> set roots \<and> on_shelf V r 0 slug file}"
proof (induction roots arbitrary: out)
  case (Cons r roots)
  let ?w = "walk H V r r 0 out"
  have "length ?w < MAX_SKILLS" using Cons.prems roots_grow [of ?w H V roots] by simp
  from walk_sightings(1) [OF this] Cons.IH [of ?w] Cons.prems show ?case by auto
qed auto

lemma first_of_slug_slugs:
  "set (map sk_slug (foldl first_of_slug kept out)) = set (map sk_slug kept) \<union> set (map sk_slug out)"
  by (induction out arbitrary: kept) (auto simp: first_of_slug_def)

lemma first_of_slug_distinct:
  "distinct (map sk_slug kept) \<Longrightarrow> distinct (map sk_slug (foldl first_of_slug kept out))"
  by (induction out arbitrary: kept) (auto simp: first_of_slug_def)

lemma first_of_slug_subset: "set (foldl first_of_slug kept out) \<subseteq> set kept \<union> set out"
proof (induction out arbitrary: kept)
  case (Cons s out)
  from Cons.IH [of "first_of_slug kept s"] show ?case by (auto simp: first_of_slug_def split: if_splits)
qed simp

lemma first_of_slug_length: "length (foldl first_of_slug kept out) \<le> length kept + length out"
proof (induction out arbitrary: kept)
  case (Cons s out)
  from Cons.IH [of "first_of_slug kept s"] show ?case by (simp add: first_of_slug_def split: if_splits)
qed simp

lemma first_of_slug_new:
  "s \<in> set (foldl first_of_slug kept out) \<Longrightarrow>
   s \<in> set kept \<or> s \<in> set out \<and> sk_slug s \<notin> set (map sk_slug kept)"
proof (induction out arbitrary: kept)
  case (Cons x out)
  from Cons.IH [OF Cons.prems [simplified]] show ?case
    by (auto simp: first_of_slug_def split: if_splits)
qed simp

definition of_root :: "string \<Rightarrow> scanned_skill list \<Rightarrow> scanned_skill list \<Rightarrow> bool" where
  "of_root rt out out' = (\<exists>ext. out' = out @ ext \<and> (\<forall>s \<in> set ext. sk_root s = rt))"

lemma of_root_refl [simp]: "of_root rt out out"
  by (simp add: of_root_def)

lemma of_root_trans: "of_root rt a b \<Longrightarrow> of_root rt b c \<Longrightarrow> of_root rt a c"
  by (auto simp: of_root_def)

lemma of_root_skill: "of_root rt (out @ [skill_at H V rt child slug file]) c \<Longrightarrow> of_root rt out c"
  by (auto simp: of_root_def skill_at_def)

lemma walk_of_root:
  shows "of_root rt out (walk H V dir rt depth out)"
    and "of_root rt out (walk_entries H V dir rt depth es out)"
proof (induction H V dir rt depth out and H V dir rt depth es out rule: walk_walk_entries.induct)
  case (1 H V dir rt depth out)
  then show ?case by (subst walk.simps) simp
next
  case (2 H V dir rt depth out)
  then show ?case by (simp add: walk_entries.simps)
next
  case (3 H V dir rt depth e es out)
  show ?case
  proof (cases "MAX_SKILLS \<le> length out \<or> \<not> enters V dir e")
    case True
    with 3(1) show ?thesis by (auto simp: walk_entries.simps)
  next
    case False
    show ?thesis
    proof (cases "findSkillMd V (path_join [dir, fst e])")
      case None
      with 3(2,3) False show ?thesis by (auto simp: walk_entries.simps Let_def intro: of_root_trans)
    next
      case (Some f)
      with 3(4) [OF _ _ refl Some] False show ?thesis
        by (auto simp: walk_entries.simps Let_def intro: of_root_skill)
    qed
  qed
qed

text \<open>The first root, in order of precedence, that holds a skill of a name.\<close>

definition holds :: "disk_view \<Rightarrow> string \<Rightarrow> string \<Rightarrow> bool" where
  "holds V slug rt = (v_isdir V rt \<and> (\<exists>file. on_shelf V rt 0 slug file))"

lemma scan_precedence:
  assumes "length (foldl (\<lambda>out rt. walk H V rt rt 0 out) [] (filter (v_isdir V) roots)) < MAX_SKILLS"
    and "s \<in> set (foldl first_of_slug [] (foldl (\<lambda>out rt. walk H V rt rt 0 out) [] (filter (v_isdir V) roots)))"
  shows "List.find (holds V (sk_slug s)) roots = Some (sk_root s)"
  using assms
proof (induction roots arbitrary: s rule: rev_induct)
  case (snoc r roots)
  let ?out = "foldl (\<lambda>out rt. walk H V rt rt 0 out) [] (filter (v_isdir V) roots)"
  have find_snoc: "List.find P (xs @ [x]) = (case List.find P xs of Some y \<Rightarrow> Some y | None \<Rightarrow> if P x then Some x else None)"
    for P and xs :: "string list" and x
    by (induction xs) auto
  show ?case
  proof (cases "v_isdir V r")
    case False
    with snoc.IH [of s] snoc.prems show ?thesis by (simp add: find_snoc)
  next
    case True
    let ?w = "walk H V r r 0 ?out"
    have w: "length ?w < MAX_SKILLS" "s \<in> set (foldl first_of_slug [] ?w)" using snoc.prems True by simp_all
    have small: "length ?out < MAX_SKILLS" using w(1) walk_grows(1) [of ?out H V r r 0] by simp
    obtain ext where ext: "?w = ?out @ ext" "\<forall>x \<in> set ext. sk_root x = r"
      using walk_of_root(1) [of r ?out H V r 0] by (auto simp: of_root_def)
    from w(2) have "s \<in> set (foldl first_of_slug (foldl first_of_slug [] ?out) ext)" by (simp add: ext(1))
    from first_of_slug_new [OF this]
    consider "s \<in> set (foldl first_of_slug [] ?out)" | "s \<in> set ext" "sk_slug s \<notin> set (map sk_slug ?out)"
      using first_of_slug_slugs [of "[]" ?out] by auto
    then show ?thesis
    proof cases
      case 1
      with snoc.IH [OF small 1] show ?thesis by (simp add: find_snoc)
    next
      case 2
      have rt: "sk_root s = r" using 2 ext by simp
      have "(r, sk_slug s, sk_path s) \<in> sightings ?w"
        unfolding ext(1) sightings_def using 2(1) rt by (intro image_eqI [where x = s]) simp_all
      moreover have "(r, sk_slug s, sk_path s) \<notin> sightings ?out" using 2(2) by (auto simp: sightings_def)
      ultimately have "holds V (sk_slug s) r"
        using walk_sightings(1) [OF w(1)] True by (auto simp: holds_def)
      moreover have "List.find (holds V (sk_slug s)) roots = None"
      proof -
        have "\<not> holds V (sk_slug s) x" if x: "x \<in> set roots" for x
        proof
          assume "holds V (sk_slug s) x"
          then obtain f where "(x, sk_slug s, f) \<in> sightings ?out"
            using roots_sightings [OF small] x by (auto simp: holds_def)
          with 2(2) show False by (auto simp: sightings_def)
        qed
        then show ?thesis by (auto simp: find_None_iff)
      qed
      ultimately show ?thesis using rt by (simp add: find_snoc)
    qed
  qed
qed simp

section \<open>Well-formed reports\<close>

text \<open>What a scanned skill promises, whether or not the scan was cut short.\<close>

definition scanned_ok :: "scan_host \<Rightarrow> disk_view \<Rightarrow> scanned_skill \<Rightarrow> bool" where
  "scanned_ok H V s =
     (v_isdir V (sk_root s) \<and> v_isfile V (sk_path s) \<and> \<not> starts_with (sk_slug s) ''.'' \<and>
      (sk_manifest s, sk_md s) = readSkillMd H V (sk_path s))"

lemma findSkillMd_file: "findSkillMd V dir = Some f \<Longrightarrow> v_isfile V f"
  by (auto simp: findSkillMd_def dest: find_SomeD)

lemma walk_ok:
  shows "v_isdir V rt \<Longrightarrow> list_all (scanned_ok H V) out \<Longrightarrow> list_all (scanned_ok H V) (walk H V dir rt depth out)"
    and "v_isdir V rt \<Longrightarrow> list_all (scanned_ok H V) out \<Longrightarrow> list_all (scanned_ok H V) (walk_entries H V dir rt depth es out)"
proof (induction H V dir rt depth out and H V dir rt depth es out rule: walk_walk_entries.induct)
  case (1 H V dir rt depth out)
  then show ?case by (subst walk.simps) simp
next
  case (2 H V dir rt depth out)
  then show ?case by (simp add: walk_entries.simps)
next
  case (3 H V dir rt depth e es out)
  show ?case
  proof (cases "MAX_SKILLS \<le> length out \<or> \<not> enters V dir e")
    case True
    with 3(1) "3.prems" show ?thesis by (auto simp: walk_entries.simps)
  next
    case False
    show ?thesis
    proof (cases "findSkillMd V (path_join [dir, fst e])")
      case None
      with 3(2,3) "3.prems" False show ?thesis by (simp add: walk_entries.simps Let_def)
    next
      case (Some f)
      have "scanned_ok H V (skill_at H V rt (path_join [dir, fst e]) (fst e) f)"
        using "3.prems" False findSkillMd_file [OF Some] by (auto simp: scanned_ok_def skill_at_def enters_def)
      with 3(4) [OF _ _ refl Some] "3.prems" Some False show ?thesis by (simp add: walk_entries.simps Let_def)
    qed
  qed
qed

lemma walk_length:
  shows "length out \<le> MAX_SKILLS \<Longrightarrow> length (walk H V dir rt depth out) \<le> MAX_SKILLS"
    and "length out \<le> MAX_SKILLS \<Longrightarrow> length (walk_entries H V dir rt depth es out) \<le> MAX_SKILLS"
proof (induction H V dir rt depth out and H V dir rt depth es out rule: walk_walk_entries.induct)
  case (1 H V dir rt depth out)
  then show ?case by (subst walk.simps) simp
next
  case (2 H V dir rt depth out)
  then show ?case by (simp add: walk_entries.simps)
next
  case (3 H V dir rt depth e es out)
  then show ?case by (auto simp: walk_entries.simps Let_def split: option.splits)
qed

lemma roots_ok:
  "list_all (v_isdir V) roots \<Longrightarrow> list_all (scanned_ok H V) out \<Longrightarrow> length out \<le> MAX_SKILLS \<Longrightarrow>
   list_all (scanned_ok H V) (foldl (\<lambda>out rt. walk H V rt rt 0 out) out roots) \<and>
   length (foldl (\<lambda>out rt. walk H V rt rt 0 out) out roots) \<le> MAX_SKILLS"
  by (induction roots arbitrary: out) (simp_all add: walk_ok walk_length)

section \<open>Properties\<close>

text \<open>C21: The search for the bundled skills always returns: an override stands for itself if it is a directory; otherwise the climb
  from the gateway's entry script reaches the top after at most as many steps as the path is long, and the answer is the
  skill directory of the nearest directory on the way whose package is \<open>openclaw\<close>, if there is one.\<close>

theorem bundled_search_returns:
  "resolveBundledSkillsDir H V realpath E entry =
     Some (case trimmed_or (se_bundled E) [] of
         c # s \<Rightarrow> dir_or_none V (c # s)
       | [] \<Rightarrow> (case entry of
             Some (c # s) \<Rightarrow>
               (let d = dirname (case realpath (c # s) of Some r \<Rightarrow> r | None \<Rightarrow> c # s) in
                skills_of V (List.find (is_openclaw H V) (ancestors (Suc (length d)) d)))
           | _ \<Rightarrow> None))"
  by (auto simp: resolveBundledSkillsDir_def trimmed_or_def Let_def climb_finds [OF order_refl] simp del: ancestors.simps
      split: option.splits list.splits)

text \<open>C22: A scan that was not cut short lists the disk: the names it lists are the names of the skills that lie under its
  roots down to the depth limit, each once, and each is taken from the first root that holds one of that name.\<close>

theorem scan_lists_shelves:
  assumes "\<not> sr_truncated (scanSkills H V roots)"
  shows "set (map sk_slug (sr_skills (scanSkills H V roots))) = {slug. \<exists>rt \<in> set roots. holds V slug rt} \<and>
    distinct (map sk_slug (sr_skills (scanSkills H V roots))) \<and>
    list_all (\<lambda>s. List.find (holds V (sk_slug s)) roots = Some (sk_root s)) (sr_skills (scanSkills H V roots))"
proof -
  let ?out = "foldl (\<lambda>out rt. walk H V rt rt 0 out) [] (filter (v_isdir V) roots)"
  have out: "length ?out < MAX_SKILLS" and skills: "sr_skills (scanSkills H V roots) = foldl first_of_slug [] ?out"
    using assms by (simp_all add: scanSkills_def Let_def)
  have "set (map sk_slug ?out) = (\<lambda>(r, slug, file). slug) ` sightings ?out"
    by (simp add: sightings_def image_image)
  also have "\<dots> = {slug. \<exists>rt \<in> set roots. holds V slug rt}"
    using roots_sightings [OF out] by (force simp: holds_def)
  finally have "set (map sk_slug (foldl first_of_slug [] ?out)) = {slug. \<exists>rt \<in> set roots. holds V slug rt}"
    using first_of_slug_slugs [of "[]" ?out] by simp
  moreover have "distinct (map sk_slug (foldl first_of_slug [] ?out))"
    by (rule first_of_slug_distinct) simp
  moreover have "list_all (\<lambda>s. List.find (holds V (sk_slug s)) roots = Some (sk_root s)) (foldl first_of_slug [] ?out)"
    using scan_precedence [OF out] by (simp add: list_all_iff)
  ultimately show ?thesis by (simp add: skills)
qed

text \<open>Two roots: the first holds \<open>notes\<close>, the second the same name again and \<open>web/search\<close> below a directory.\<close>

definition shelf_listing :: "string \<Rightarrow> (string \<times> dirent_kind) list option" where
  "shelf_listing dir =
     (if dir = ''/a'' then Some [(''.x'', EntryDir), (''notes'', EntryDir)]
      else if dir = ''/b'' then Some [(''notes'', EntryDir), (''web'', EntryLink), (''f'', EntryOther)]
      else if dir = ''/b/web'' then Some [(''search'', EntryDir)]
      else None)"

definition shelf_disk :: disk_view where
  "shelf_disk = \<lparr>v_isdir = (\<lambda>p. p \<in> {''/a'', ''/b'', ''/b/web''}),
     v_isfile = (\<lambda>p. p \<in> {''/a/notes/SKILL.md'', ''/b/notes/SKILL.md'', ''/b/web/search/skill.md''}),
     v_list = shelf_listing, v_read = (\<lambda>_. None)\<rparr>"

definition shelf_host :: scan_host where
  "shelf_host = \<lparr>h_parse = (\<lambda>_. None), h_digest = (\<lambda>s. s), h_utf8 = (\<lambda>s. s)\<rparr>"

definition shelf_scan :: scan_result where
  "shelf_scan = scanSkills shelf_host shelf_disk [''/a'', ''/no'', ''/b'']"

lemma shelf_whole: "\<not> sr_truncated shelf_scan"
  unfolding shelf_scan_def by code_simp

theorem scan_lists_shelves_witness:
  "set (map sk_slug (sr_skills shelf_scan)) = {slug. \<exists>rt \<in> set [''/a'', ''/no'', ''/b'']. holds shelf_disk slug rt} \<and>
   sk_slug (hd (sr_skills shelf_scan)) = ''notes'' \<and> sk_root (hd (sr_skills shelf_scan)) = ''/a''"
proof -
  have "map (\<lambda>s. (sk_slug s, sk_root s)) (sr_skills shelf_scan) = [(''notes'', ''/a''), (''search'', ''/b'')]"
    unfolding shelf_scan_def by code_simp
  then show ?thesis
    using scan_lists_shelves [OF shelf_whole [unfolded shelf_scan_def]]
    by (auto simp: shelf_scan_def [symmetric])
qed

text \<open>A report of a scan is well formed whatever the disk holds: at most five hundred skills under different names, each with a
  marker file that exists below a root that is a directory, no hidden name, and the manifest and text of that very file.\<close>

theorem scan_is_well_formed:
  "length (sr_skills (scanSkills H V roots)) \<le> MAX_SKILLS \<and>
   distinct (map sk_slug (sr_skills (scanSkills H V roots))) \<and>
   list_all (scanned_ok H V) (sr_skills (scanSkills H V roots)) \<and>
   sr_scanned (scanSkills H V roots) = filter (v_isdir V) roots"
proof -
  let ?out = "foldl (\<lambda>out rt. walk H V rt rt 0 out) [] (filter (v_isdir V) roots)"
  have ok: "list_all (scanned_ok H V) ?out \<and> length ?out \<le> MAX_SKILLS"
    by (rule roots_ok) (simp_all add: list_all_iff)
  moreover have "set (foldl first_of_slug [] ?out) \<subseteq> set ?out" using first_of_slug_subset [of "[]" ?out] by simp
  moreover have "length (foldl first_of_slug [] ?out) \<le> length ?out" using first_of_slug_length [of "[]" ?out] by simp
  moreover have "distinct (map sk_slug (foldl first_of_slug [] ?out))" by (rule first_of_slug_distinct) simp
  ultimately show ?thesis by (auto simp: scanSkills_def Let_def list_all_iff)
qed

end
