(* ===== verification/Skills_Apply.thy ===== *)
theory Skills_Apply
  imports Game_Guards
begin

text \<open>
  The applier of an agent's skills (\<open>plugin/src/skills/apply.ts\<close>), the only module that writes or deletes
  directories. The disk is a record of functions over its own state, each of which may fail; a world
  carries that state and the writes made so far. Paths are the segments of absolute normal paths. The
  text of a marker is kept as the marker it is the JSON of.
\<close>

section \<open>Paths\<close>

type_synonym path = "string list"

text \<open>\<open>path.join\<close> of a directory and a relative path, as segments.\<close>

definition join_path :: "path \<Rightarrow> string \<Rightarrow> path" where
  "join_path dir p = foldl (\<lambda>segs x. if x = [] \<or> x = ''.'' then segs else if x = ''..'' then butlast segs else segs @ [x])
     dir (split_on CHR ''/'' p)"

definition under :: "path \<Rightarrow> path \<Rightarrow> bool" where
  "under dir p = (take (length dir) p = dir)"

definition strictly_under :: "path \<Rightarrow> path \<Rightarrow> bool" where
  "strictly_under dir p = (under dir p \<and> length dir < length p)"

text \<open>
  \<open>dest.startsWith(staging + path.sep)\<close> for \<open>dest = path.join(staging, p)\<close>: a path below, or the
  directory itself when \<open>p\<close> leaves a separator at its end.
\<close>

definition joined_below :: "path \<Rightarrow> string \<Rightarrow> bool" where
  "joined_below dir p =
     (strictly_under dir (join_path dir p) \<or> (join_path dir p = dir \<and> ends_with p ''/''))"

lemma under_refl [simp]: "under p p" by (simp add: under_def)

lemma under_append [simp]: "under p (p @ q)" by (simp add: under_def)

lemma under_trans: "under a b \<Longrightarrow> under b c \<Longrightarrow> under a c"
proof -
  assume "under a b" and "under b c"
  then have "take (length a) (take (length b) c) = a" "length a \<le> length b"
    by (metis under_def, metis under_def length_take min.cobounded1 min_def nat_le_linear)
  then show ?thesis by (simp add: under_def min_def)
qed

lemma joined_below_under: "joined_below dir p \<Longrightarrow> under dir (join_path dir p)"
  by (auto simp: joined_below_def strictly_under_def)

definition plain_segment :: "string \<Rightarrow> bool" where
  "plain_segment s = (s \<notin> {[], ''.'', ''..''} \<and> CHR ''/'' \<notin> set s)"

lemma join_plain: "plain_segment s \<Longrightarrow> join_path dir s = dir @ [s]"
  by (auto simp: plain_segment_def join_path_def split_on_no_sep)

section \<open>Items, markers and results\<close>

definition MARKER :: string where "MARKER = ''.clawbits/origin.json''"
definition STAGING_DIR :: string where "STAGING_DIR = ''.clawbits-staging''"

definition SLUG :: "string \<Rightarrow> bool" where
  "SLUG s =
     (case s of
        [] \<Rightarrow> False
      | c # r \<Rightarrow> (is_lower c \<or> is_digit c) \<and> length r \<le> 63 \<and> list_all (\<lambda>d. is_lower d \<or> is_digit d \<or> d = CHR ''-'') r)"

record skill_marker =
  sm_installId :: string
  sm_slug :: string
  sm_contentHash :: string
  sm_installedAt :: string

record desired_skill =
  ds_install_id :: string
  ds_slug :: string
  ds_absent :: bool
  ds_generation :: int
  ds_version :: "string option"
  ds_hash :: "string option"
  ds_takeover :: bool

datatype apply_status = SApplied | SRemoved | SFailed

record apply_result =
  ar_install_id :: string
  ar_slug :: string
  ar_generation :: int
  ar_status :: apply_status
  ar_error :: "string option"
  ar_hash :: "string option"
  ar_path :: "path option"

datatype content = Text string | MarkerText skill_marker

datatype disk_op = Rm path | Mkdir path | Write path content | Rename path path

section \<open>The disk\<close>

record 'd disk =
  d_do :: "disk_op \<Rightarrow> 'd \<Rightarrow> string option \<times> 'd"
  d_exists :: "path \<Rightarrow> 'd \<Rightarrow> bool"
  d_marker :: "path \<Rightarrow> 'd \<Rightarrow> jsval option"

record 'd dworld =
  dw_disk :: 'd
  dw_log :: "disk_op list"

text \<open>One operation: the error it throws, if any.\<close>

definition doing :: "'d disk \<Rightarrow> disk_op \<Rightarrow> 'd dworld \<Rightarrow> string option \<times> 'd dworld" where
  "doing D op w = (let (e, d) = d_do D op (dw_disk w) in (e, \<lparr>dw_disk = d, dw_log = dw_log w @ [op]\<rparr>))"

text \<open>\<open>d_marker\<close> is the parsed text of the marker file, or nothing when there is none to parse.\<close>

definition readMarker :: "'d disk \<Rightarrow> path \<Rightarrow> 'd \<Rightarrow> jsval option" where
  "readMarker D dir d =
     (case d_marker D dir d of
        Some v \<Rightarrow> (case as_str (jget v ''contentHash'') of Some _ \<Rightarrow> Some v | None \<Rightarrow> None)
      | None \<Rightarrow> None)"

type_synonym skill_file = "string \<times> content"

fun write_files :: "'d disk \<Rightarrow> path \<Rightarrow> skill_file list \<Rightarrow> 'd dworld \<Rightarrow> string option \<times> 'd dworld" where
  "write_files D staging [] w = (None, w)"
| "write_files D staging ((p, c) # fs) w =
     (let dest = join_path staging p in
      if \<not> joined_below staging p then (Some (''refusing to write outside the skill directory: '' @ p), w)
      else case doing D (Mkdir (butlast dest)) w of
          (Some e, w1) \<Rightarrow> (Some e, w1)
        | (None, w1) \<Rightarrow> (case doing D (Write dest c) w1 of
              (Some e, w2) \<Rightarrow> (Some e, w2) | (None, w2) \<Rightarrow> write_files D staging fs w2))"

definition staging_dir :: "path \<Rightarrow> string \<Rightarrow> path" where
  "staging_dir rt i = join_path (rt @ [STAGING_DIR]) i"

definition item_marker :: "desired_skill \<Rightarrow> string \<Rightarrow> skill_marker" where
  "item_marker it now = \<lparr>sm_installId = ds_install_id it, sm_slug = ds_slug it,
     sm_contentHash = (case ds_hash it of Some h \<Rightarrow> h | None \<Rightarrow> []), sm_installedAt = now\<rparr>"

definition materialize :: "'d disk \<Rightarrow> string \<Rightarrow> path \<Rightarrow> desired_skill \<Rightarrow> (string \<times> string) list \<Rightarrow> 'd dworld
    \<Rightarrow> string option \<times> 'd dworld" where
  "materialize D now rt it files w =
     (let staging = staging_dir rt (ds_install_id it); target = join_path rt (ds_slug it) in
      case doing D (Rm staging) w of
        (Some e, w1) \<Rightarrow> (Some e, w1)
      | (None, w1) \<Rightarrow>
          (case write_files D staging (map (\<lambda>(p, c). (p, Text c)) files @ [(MARKER, MarkerText (item_marker it now))]) w1 of
             (Some e, w2) \<Rightarrow> (Some e, w2)
           | (None, w2) \<Rightarrow>
               (case doing D (Rm target) w2 of
                  (Some e, w3) \<Rightarrow> (Some e, w3)
                | (None, w3) \<Rightarrow> doing D (Rename staging target) w3)))"

definition base_result :: "desired_skill \<Rightarrow> apply_status \<Rightarrow> apply_result" where
  "base_result it st = \<lparr>ar_install_id = ds_install_id it, ar_slug = ds_slug it, ar_generation = ds_generation it,
     ar_status = st, ar_error = None, ar_hash = None, ar_path = None\<rparr>"

definition fail_result :: "desired_skill \<Rightarrow> string \<Rightarrow> apply_result" where
  "fail_result it e = (base_result it SFailed)\<lparr>ar_error := Some (take 500 e)\<rparr>"

definition show_path :: "path \<Rightarrow> string" where
  "show_path p = concat (map (\<lambda>s. ''/'' @ s) p)"

definition set_text :: "string option \<Rightarrow> bool" where
  "set_text s = (s \<noteq> None \<and> s \<noteq> Some [])"

definition applyOne :: "'d disk \<Rightarrow> string \<Rightarrow> path \<Rightarrow> desired_skill \<Rightarrow> (string \<Rightarrow> string + (string \<times> string) list) \<Rightarrow> 'd dworld
    \<Rightarrow> apply_result option \<times> 'd dworld" where
  "applyOne D now rt it fetchVersion w =
     (if \<not> SLUG (ds_slug it) then (Some (fail_result it (''invalid skill slug: '' @ ds_slug it)), w)
      else let target = join_path rt (ds_slug it); marker = readMarker D target (dw_disk w) in
        if ds_absent it then
          (if \<not> d_exists D target (dw_disk w) then (Some (base_result it SRemoved), w)
           else if marker = None then (Some (fail_result it ''a skill of that name exists but was not installed by Clawbits''), w)
           else case doing D (Rm target) w of
               (err, w1) \<Rightarrow>
                 (if d_exists D target (dw_disk w1)
                  then (Some (fail_result it (case err of Some e \<Rightarrow> e | None \<Rightarrow> show_path target @ '' still exists after removal'')), w1)
                  else (Some (base_result it SRemoved), w1)))
        else if \<not> set_text (ds_version it) \<or> \<not> set_text (ds_hash it)
          then (Some (fail_result it ''no published version to install''), w)
        else if (case marker of Some v \<Rightarrow> jget v ''contentHash'' = JStr (the (ds_hash it)) \<and> jget v ''installId'' = JStr (ds_install_id it) | None \<Rightarrow> False)
          then (None, w)
        else if marker = None \<and> \<not> ds_takeover it \<and> d_exists D target (dw_disk w)
          then (Some (fail_result it ''a skill of that name already exists on this agent''), w)
        else case fetchVersion (the (ds_version it)) of
            Inl e \<Rightarrow> (Some (fail_result it e), w)
          | Inr files \<Rightarrow>
              (case materialize D now rt it files w of
                 (Some e, w1) \<Rightarrow> (Some (fail_result it e), w1)
               | (None, w1) \<Rightarrow> (Some ((base_result it SApplied)\<lparr>ar_hash := ds_hash it, ar_path := Some target\<rparr>), w1)))"

fun apply_each :: "'d disk \<Rightarrow> string \<Rightarrow> path \<Rightarrow> desired_skill list \<Rightarrow> (string \<Rightarrow> string + (string \<times> string) list) \<Rightarrow> 'd dworld
    \<Rightarrow> apply_result list \<times> 'd dworld" where
  "apply_each D now rt [] f w = ([], w)"
| "apply_each D now rt (it # its) f w =
     (case applyOne D now rt it f w of
        (r, w1) \<Rightarrow> (case apply_each D now rt its f w1 of
            (rs, w2) \<Rightarrow> ((case r of Some x \<Rightarrow> x # rs | None \<Rightarrow> rs), w2)))"

text \<open>A stable sort by removal: what the comparison of the source gives.\<close>

definition removals_first :: "desired_skill list \<Rightarrow> desired_skill list" where
  "removals_first its = filter ds_absent its @ filter (\<lambda>x. \<not> ds_absent x) its"

definition applyDesired :: "'d disk \<Rightarrow> string \<Rightarrow> path \<Rightarrow> desired_skill list \<Rightarrow> (string \<Rightarrow> string + (string \<times> string) list) \<Rightarrow> 'd dworld
    \<Rightarrow> (string + apply_result list) \<times> 'd dworld" where
  "applyDesired D now rt its f w =
     (case doing D (Mkdir rt) w of
        (Some e, w1) \<Rightarrow> (Inl e, w1)
      | (None, w1) \<Rightarrow>
          (case apply_each D now rt (removals_first its) f w1 of
             (rs, w2) \<Rightarrow> (case doing D (Rm (rt @ [STAGING_DIR])) w2 of
                 (Some e, w3) \<Rightarrow> (Inl e, w3) | (None, w3) \<Rightarrow> (Inr rs, w3))))"

section \<open>Where the applier writes\<close>

fun op_paths :: "disk_op \<Rightarrow> path list" where
  "op_paths (Rm p) = [p]"
| "op_paths (Mkdir p) = [p]"
| "op_paths (Write p c) = [p]"
| "op_paths (Rename p q) = [p, q]"

text \<open>The staging directory, the directory of a slug, and what is below them.\<close>

definition skill_area :: "path \<Rightarrow> path \<Rightarrow> bool" where
  "skill_area rt p = (strictly_under rt p \<and> (p ! length rt = STAGING_DIR \<or> SLUG (p ! length rt)))"

definition safe_op :: "path \<Rightarrow> disk_op \<Rightarrow> bool" where
  "safe_op rt op = (op = Mkdir rt \<or> list_all (skill_area rt) (op_paths op))"

definition safe_log :: "path \<Rightarrow> 'd dworld \<Rightarrow> bool" where
  "safe_log rt w = list_all (safe_op rt) (dw_log w)"

lemma doing_log: "doing D op w = (e, w') \<Longrightarrow> dw_log w' = dw_log w @ [op]"
  by (auto simp: doing_def split: prod.splits)

lemma doing_safe: "doing D op w = (e, w') \<Longrightarrow> safe_log rt w \<Longrightarrow> safe_op rt op \<Longrightarrow> safe_log rt w'"
  by (auto simp: safe_log_def dest: doing_log)

lemma slug_plain: "SLUG s \<Longrightarrow> plain_segment s"
  by (cases s) (auto simp: SLUG_def plain_segment_def is_lower_def is_digit_def list_all_iff split: list.splits)

lemma area_below: "under (rt @ [s]) p \<Longrightarrow> s = STAGING_DIR \<or> SLUG s \<Longrightarrow> skill_area rt p"
proof -
  assume u: "under (rt @ [s]) p" and s: "s = STAGING_DIR \<or> SLUG s"
  then have tk: "take (Suc (length rt)) p = rt @ [s]" by (simp add: under_def)
  then have "length rt < length p" by (metis length_append_singleton length_take min.cobounded1 Suc_le_eq)
  moreover from this tk have "take (length rt) p = rt" "p ! length rt = s"
    by (simp_all add: take_Suc_conv_app_nth)
  ultimately show ?thesis using s by (simp add: skill_area_def strictly_under_def under_def)
qed

lemma write_files_safe:
  assumes "under (rt @ [STAGING_DIR]) (butlast staging)"
  shows "write_files D staging fs w = (e, w') \<Longrightarrow> safe_log rt w \<Longrightarrow> safe_log rt w'"
proof (induction fs arbitrary: w)
  case (Cons f fs)
  obtain p c where f: "f = (p, c)" by fastforce
  show ?case
  proof (cases "joined_below staging p")
    case True
    let ?dest = "join_path staging p"
    have "staging \<noteq> []" using assms by (auto simp: under_def)
    then have below: "under (rt @ [STAGING_DIR]) staging"
      using assms under_trans [of "rt @ [STAGING_DIR]" "butlast staging" staging] by (metis append_butlast_last_id under_append)
    have d: "under (rt @ [STAGING_DIR]) ?dest" using below joined_below_under [OF True] under_trans by blast
    have m: "under (rt @ [STAGING_DIR]) (butlast ?dest)"
    proof (cases "?dest = staging")
      case False
      with True have "strictly_under staging ?dest" by (auto simp: joined_below_def)
      then have "under staging (butlast ?dest)"
        by (auto simp: strictly_under_def under_def butlast_conv_take take_Suc_conv_app_nth min_def)
      with below show ?thesis using under_trans by blast
    qed (use assms in simp)
    obtain e1 w1 where c1: "doing D (Mkdir (butlast ?dest)) w = (e1, w1)" by fastforce
    have s1: "safe_log rt w1" using doing_safe [OF c1 Cons.prems(2)] m area_below by (simp add: safe_op_def)
    obtain e2 w2 where c2: "doing D (Write ?dest c) w1 = (e2, w2)" by fastforce
    have s2: "safe_log rt w2" using doing_safe [OF c2 s1] d area_below by (simp add: safe_op_def)
    from Cons.IH [OF _ s2] Cons.prems c1 c2 True s1 s2 show ?thesis
      by (auto simp: f Let_def split: option.splits)
  qed (use Cons.prems in \<open>auto simp: f Let_def\<close>)
qed simp

lemma materialize_safe:
  assumes "materialize D now rt it files w = (e, w')" and "safe_log rt w" and "SLUG (ds_slug it)" and "plain_segment (ds_install_id it)"
  shows "safe_log rt w'"
proof -
  let ?st = "staging_dir rt (ds_install_id it)" and ?tg = "join_path rt (ds_slug it)"
  have st: "?st = rt @ [STAGING_DIR, ds_install_id it]" using assms(4) by (simp add: staging_dir_def join_plain)
  have tg: "?tg = rt @ [ds_slug it]" using assms(3) by (simp add: join_plain slug_plain)
  have a: "skill_area rt ?st" "skill_area rt ?tg"
    unfolding st tg using assms(3) area_below [of rt STAGING_DIR] area_below [of rt "ds_slug it"]
    by (simp_all add: under_def)
  obtain e1 w1 where c1: "doing D (Rm ?st) w = (e1, w1)" by fastforce
  have s1: "safe_log rt w1" using doing_safe [OF c1 assms(2)] a by (simp add: safe_op_def)
  let ?fs = "map (\<lambda>(p, c). (p, Text c)) files @ [(MARKER, MarkerText (item_marker it now))]"
  obtain e2 w2 where c2: "write_files D ?st ?fs w1 = (e2, w2)" by fastforce
  have "butlast ?st = rt @ [STAGING_DIR]" by (simp add: st butlast_append)
  then have s2: "safe_log rt w2" using write_files_safe [OF _ c2 s1] by simp
  obtain e3 w3 where c3: "doing D (Rm ?tg) w2 = (e3, w3)" by fastforce
  have s3: "safe_log rt w3" using doing_safe [OF c3 s2] a by (simp add: safe_op_def)
  obtain e4 w4 where c4: "doing D (Rename ?st ?tg) w3 = (e4, w4)" by fastforce
  have s4: "safe_log rt w4" using doing_safe [OF c4 s3] a by (simp add: safe_op_def)
  show ?thesis using assms(1) c1 c2 c3 c4 s1 s2 s3 s4
    by (auto simp: materialize_def Let_def split: option.splits)
qed

lemma applyOne_safe:
  assumes "applyOne D now rt it f w = (r, w')" and "safe_log rt w" and "plain_segment (ds_install_id it)"
  shows "safe_log rt w'"
proof (cases "SLUG (ds_slug it)")
  case True
  obtain e1 w1 where c1: "doing D (Rm (join_path rt (ds_slug it))) w = (e1, w1)" by fastforce
  have "skill_area rt (join_path rt (ds_slug it))"
    using True area_below [of rt "ds_slug it"] by (simp add: join_plain slug_plain)
  then have s1: "safe_log rt w1" using doing_safe [OF c1 assms(2)] by (simp add: safe_op_def)
  have s2: "materialize D now rt it files w = (e, w2) \<Longrightarrow> safe_log rt w2" for files e w2
    using materialize_safe assms(2,3) True by blast
  show ?thesis using assms(1,2) c1 s1 s2 True
    by (auto simp: applyOne_def Let_def split: if_splits option.splits sum.splits prod.splits)
qed (use assms in \<open>auto simp: applyOne_def\<close>)

lemma apply_each_safe:
  "apply_each D now rt its f w = (rs, w') \<Longrightarrow> safe_log rt w \<Longrightarrow> list_all (\<lambda>it. plain_segment (ds_install_id it)) its \<Longrightarrow> safe_log rt w'"
proof (induction its arbitrary: w rs)
  case (Cons it its)
  obtain r w1 where c: "applyOne D now rt it f w = (r, w1)" by fastforce
  with applyOne_safe [OF c] Cons show ?case by (auto split: prod.splits)
qed simp

text \<open>
  C10: The applier touches nothing but skills: when the install identifiers are plain names, every
  directory and file it creates, writes, renames or deletes lies in the staging directory or in a
  directory named by a valid slug, right below the root, whatever the slugs, paths and contents the
  server sent and whatever fails on the way; besides that it only creates the root.
\<close>

theorem writes_stay_inside:
  assumes "applyDesired D now rt its f w = (r, w')" and "dw_log w = []"
    and "list_all (\<lambda>it. plain_segment (ds_install_id it)) its"
  shows "list_all (safe_op rt) (dw_log w')"
proof -
  obtain e1 w1 where c1: "doing D (Mkdir rt) w = (e1, w1)" by fastforce
  have s1: "safe_log rt w1" using doing_safe [OF c1] assms(2) by (simp add: safe_log_def safe_op_def)
  obtain rs w2 where c2: "apply_each D now rt (removals_first its) f w1 = (rs, w2)" by fastforce
  have "list_all (\<lambda>it. plain_segment (ds_install_id it)) (removals_first its)"
    using assms(3) by (auto simp: removals_first_def list_all_iff)
  with apply_each_safe [OF c2 s1] have s2: "safe_log rt w2" .
  obtain e3 w3 where c3: "doing D (Rm (rt @ [STAGING_DIR])) w2 = (e3, w3)" by fastforce
  have "safe_log rt w3" using doing_safe [OF c3 s2] area_below [of rt STAGING_DIR "rt @ [STAGING_DIR]"] by (simp add: safe_op_def)
  with assms(1) c1 c2 c3 s1 have "safe_log rt w'" by (auto simp: applyDesired_def split: option.splits)
  then show ?thesis by (simp add: safe_log_def)
qed

lemma write_files_extends: "write_files D st fs w = (e, w') \<Longrightarrow> \<exists>ops. dw_log w' = dw_log w @ ops"
proof (induction fs arbitrary: w)
  case (Cons f fs)
  obtain p c where f: "f = (p, c)" by fastforce
  obtain e1 w1 where c1: "doing D (Mkdir (butlast (join_path st p))) w = (e1, w1)" by fastforce
  obtain e2 w2 where c2: "doing D (Write (join_path st p) c) w1 = (e2, w2)" by fastforce
  from Cons c1 c2 doing_log [OF c1] doing_log [OF c2] show ?case
    by (fastforce simp: f Let_def split: if_splits option.splits)
qed simp

lemma materialize_first:
  assumes "materialize D now rt it files w = (e, w')"
  shows "\<exists>ops. dw_log w' = dw_log w @ Rm (staging_dir rt (ds_install_id it)) # ops"
proof -
  let ?st = "staging_dir rt (ds_install_id it)" and ?tg = "join_path rt (ds_slug it)"
  let ?fs = "map (\<lambda>(p, c). (p, Text c)) files @ [(MARKER, MarkerText (item_marker it now))]"
  obtain e1 w1 where c1: "doing D (Rm ?st) w = (e1, w1)" by fastforce
  obtain e2 w2 where c2: "write_files D ?st ?fs w1 = (e2, w2)" by fastforce
  obtain e3 w3 where c3: "doing D (Rm ?tg) w2 = (e3, w3)" by fastforce
  obtain e4 w4 where c4: "doing D (Rename ?st ?tg) w3 = (e4, w4)" by fastforce
  show ?thesis
    using assms c1 c2 c3 c4 doing_log [OF c1] write_files_extends [OF c2] doing_log [OF c3] doing_log [OF c4]
    by (auto simp: materialize_def Let_def split: option.splits)
qed

text \<open>
  The identifier of an install is used as a path without a check: an identifier of three steps up
  makes the applier delete the parent of the directory that holds the skills root, before anything else, while the
  slug and every file path of the same item are checked.
\<close>

theorem install_id_escapes_root:
  assumes "SLUG (ds_slug it)" and "ds_install_id it = ''../../..''" and "\<not> ds_absent it"
    and "set_text (ds_version it)" and "set_text (ds_hash it)"
    and "\<not> d_exists D (rt @ [ds_slug it]) (dw_disk w)" and "d_marker D (rt @ [ds_slug it]) (dw_disk w) = None"
    and "f (the (ds_version it)) = Inr files"
    and "applyOne D now rt it f w = (r, w')"
  shows "\<exists>ops. dw_log w' = dw_log w @ Rm (butlast (butlast rt)) # ops"
proof -
  have st: "staging_dir rt (ds_install_id it) = butlast (butlast rt)"
    by (simp add: staging_dir_def join_path_def assms(2) butlast_append)
  obtain e w1 where m: "materialize D now rt it files w = (e, w1)" by fastforce
  from assms m have "w' = w1"
    by (auto simp: applyOne_def Let_def readMarker_def join_plain slug_plain split: option.splits)
  with materialize_first [OF m] show ?thesis by (simp add: st)
qed

section \<open>The drift gate\<close>

definition marker_json :: "skill_marker \<Rightarrow> jsval" where
  "marker_json m = JObj [(''version'', jint 1), (''installId'', JStr (sm_installId m)), (''slug'', JStr (sm_slug m)),
     (''contentHash'', JStr (sm_contentHash m)), (''installedAt'', JStr (sm_installedAt m))]"

text \<open>What the operations of the file system promise of the markers they leave.\<close>

definition disk_laws :: "'d disk \<Rightarrow> bool" where
  "disk_laws D \<longleftrightarrow>
     (\<forall>p m d d'. d_do D (Write (p @ [''.clawbits'', ''origin.json'']) (MarkerText m)) d = (None, d') \<longrightarrow> d_marker D p d' = Some (marker_json m)) \<and>
     (\<forall>p q d d'. d_do D (Rm q) d = (None, d') \<longrightarrow> \<not> under q (p @ [''.clawbits'', ''origin.json'']) \<longrightarrow> d_marker D p d' = d_marker D p d) \<and>
     (\<forall>p q d d'. d_do D (Rename p q) d = (None, d') \<longrightarrow> d_marker D q d' = d_marker D p d)"

lemma write_files_last:
  "write_files D st (fs @ [(p, c)]) w = (None, w') \<Longrightarrow> \<exists>u. doing D (Write (join_path st p) c) u = (None, w')"
proof (induction fs arbitrary: w)
  case Nil
  then show ?case by (auto simp: Let_def split: if_splits option.splits prod.splits)
next
  case (Cons f fs)
  obtain q b where f: "f = (q, b)" by fastforce
  from Cons.prems obtain u where "write_files D st (fs @ [(p, c)]) u = (None, w')"
    by (auto simp: f Let_def split: if_splits option.splits prod.splits)
  then show ?case by (rule Cons.IH)
qed

lemma doing_disk: "doing D op w = (e, w') \<Longrightarrow> d_do D op (dw_disk w) = (e, dw_disk w')"
  by (auto simp: doing_def split: prod.splits)

lemma materialize_marker:
  assumes "materialize D now rt it files w = (None, w')" and "disk_laws D"
    and "SLUG (ds_slug it)" and "plain_segment (ds_install_id it)"
  shows "d_marker D (rt @ [ds_slug it]) (dw_disk w') = Some (marker_json (item_marker it now))"
proof -
  let ?st = "rt @ [STAGING_DIR, ds_install_id it]" and ?tg = "rt @ [ds_slug it]"
  have p: "staging_dir rt (ds_install_id it) = ?st" "join_path rt (ds_slug it) = ?tg"
    using assms(3,4) by (simp_all add: staging_dir_def join_plain slug_plain)
  from assms(1) obtain w1 w2 w3 where
    c2: "write_files D ?st (map (\<lambda>(p, c). (p, Text c)) files @ [(MARKER, MarkerText (item_marker it now))]) w1 = (None, w2)" and
    c3: "doing D (Rm ?tg) w2 = (None, w3)" and c4: "doing D (Rename ?st ?tg) w3 = (None, w')"
    by (auto simp: materialize_def Let_def p split: option.splits prod.splits)
  have mk: "join_path ?st MARKER = ?st @ [''.clawbits'', ''origin.json'']"
    by (simp add: join_path_def MARKER_def)
  from write_files_last [OF c2] mk obtain u where
    "doing D (Write (?st @ [''.clawbits'', ''origin.json'']) (MarkerText (item_marker it now))) u = (None, w2)" by auto
  then have m2: "d_marker D ?st (dw_disk w2) = Some (marker_json (item_marker it now))"
    using assms(2) doing_disk unfolding disk_laws_def by blast
  have "ds_slug it \<noteq> STAGING_DIR"
    using assms(3) by (auto simp: SLUG_def STAGING_DIR_def is_lower_def is_digit_def split: list.splits)
  then have "\<not> under ?tg (?st @ [''.clawbits'', ''origin.json''])" by (simp add: under_def)
  then have m3: "d_marker D ?st (dw_disk w3) = d_marker D ?st (dw_disk w2)"
    using assms(2) doing_disk [OF c3] unfolding disk_laws_def by blast
  have "d_marker D ?tg (dw_disk w') = d_marker D ?st (dw_disk w3)"
    using assms(2) doing_disk [OF c4] unfolding disk_laws_def by blast
  with m2 m3 show ?thesis by simp
qed

text \<open>
  An applied skill is not written again: once an item has been applied, the next pass over the same
  item finds its marker, does nothing to the disk and reports nothing, so that the gateway's watcher is
  not triggered by a skill that did not change.
\<close>

theorem applied_skill_is_left_alone:
  assumes "applyOne D now rt it f w = (Some res, w1)" and "ar_status res = SApplied"
    and "disk_laws D" and "plain_segment (ds_install_id it)"
  shows "applyOne D later rt it g w1 = (None, w1)"
proof -
  from assms(1,2) obtain files where pr: "SLUG (ds_slug it)" "\<not> ds_absent it" "set_text (ds_version it)" "set_text (ds_hash it)"
    and m: "materialize D now rt it files w = (None, w1)"
    by (auto simp: applyOne_def Let_def fail_result_def base_result_def split: if_splits option.splits sum.splits prod.splits)
  have "d_marker D (rt @ [ds_slug it]) (dw_disk w1) = Some (marker_json (item_marker it now))"
    using materialize_marker [OF m assms(3) pr(1) assms(4)] .
  then have "readMarker D (rt @ [ds_slug it]) (dw_disk w1) = Some (marker_json (item_marker it now))"
    by (simp add: readMarker_def marker_json_def)
  moreover from pr(4) obtain h where "ds_hash it = Some h" by (auto simp: set_text_def)
  ultimately show ?thesis using pr
    by (simp add: applyOne_def Let_def join_plain slug_plain marker_json_def item_marker_def)
qed

text \<open>What a call deletes.\<close>

lemma write_files_removes:
  "write_files D st fs w = (e, w') \<Longrightarrow> \<exists>ops. dw_log w' = dw_log w @ ops \<and> (\<forall>p. Rm p \<notin> set ops)"
proof (induction fs arbitrary: w)
  case (Cons f fs)
  obtain p c where f: "f = (p, c)" by fastforce
  obtain e1 w1 where c1: "doing D (Mkdir (butlast (join_path st p))) w = (e1, w1)" by fastforce
  obtain e2 w2 where c2: "doing D (Write (join_path st p) c) w1 = (e2, w2)" by fastforce
  consider "w' = w" | "w' = w1" | "w' = w2" | "write_files D st fs w2 = (e, w')"
    using Cons.prems c1 c2 by (cases e1; cases e2) (auto simp: f Let_def split: if_splits)
  then show ?case
  proof cases
    case 4
    then obtain ops where "dw_log w' = dw_log w2 @ ops" "\<forall>p. Rm p \<notin> set ops" using Cons.IH by blast
    then show ?thesis by (intro exI [of _ "[Mkdir (butlast (join_path st p)), Write (join_path st p) c] @ ops"])
        (simp add: doing_log [OF c1] doing_log [OF c2])
  qed (simp_all add: doing_log [OF c1] doing_log [OF c2])
qed simp

lemma materialize_removes:
  assumes "materialize D now rt it files w = (e, w')"
  shows "\<exists>ops. dw_log w' = dw_log w @ ops \<and>
    (\<forall>p. Rm p \<in> set ops \<longrightarrow> p = join_path rt (ds_slug it) \<or> p = staging_dir rt (ds_install_id it))"
proof -
  let ?st = "staging_dir rt (ds_install_id it)" and ?tg = "join_path rt (ds_slug it)"
  let ?fs = "map (\<lambda>(p, c). (p, Text c)) files @ [(MARKER, MarkerText (item_marker it now))]"
  obtain e1 w1 where c1: "doing D (Rm ?st) w = (e1, w1)" by fastforce
  obtain e2 w2 where c2: "write_files D ?st ?fs w1 = (e2, w2)" by fastforce
  obtain ops where ops: "dw_log w2 = dw_log w1 @ ops" "\<forall>p. Rm p \<notin> set ops" using write_files_removes [OF c2] by blast
  obtain e3 w3 where c3: "doing D (Rm ?tg) w2 = (e3, w3)" by fastforce
  obtain e4 w4 where c4: "doing D (Rename ?st ?tg) w3 = (e4, w4)" by fastforce
  have "w' = w1 \<or> w' = w2 \<or> w' = w3 \<or> w' = w4"
    using assms c1 c2 c3 c4 by (auto simp: materialize_def Let_def split: option.splits)
  with ops doing_log [OF c1] doing_log [OF c3] doing_log [OF c4] show ?thesis by auto
qed

lemma absent_call:
  assumes "applyOne D now rt it f w = (res, w1)" and "SLUG (ds_slug it)" and "ds_absent it"
  shows "(\<forall>r. res = Some r \<longrightarrow> ar_status r = SRemoved \<longrightarrow> \<not> d_exists D (rt @ [ds_slug it]) (dw_disk w1)) \<and>
    (dw_log w1 = dw_log w \<or> dw_log w1 = dw_log w @ [Rm (rt @ [ds_slug it])] \<and> readMarker D (rt @ [ds_slug it]) (dw_disk w) \<noteq> None)"
proof -
  let ?t = "rt @ [ds_slug it]"
  have j: "join_path rt (ds_slug it) = ?t" using assms(2) by (simp add: join_plain slug_plain)
  obtain e w2 where c: "doing D (Rm ?t) w = (e, w2)" by fastforce
  show ?thesis
  proof (cases "d_exists D ?t (dw_disk w) \<and> readMarker D ?t (dw_disk w) \<noteq> None")
    case True
    then obtain v where v: "readMarker D ?t (dw_disk w) = Some v" by auto
    with True assms c have w: "w1 = w2" "\<forall>r. res = Some r \<longrightarrow> ar_status r = SRemoved \<longrightarrow> \<not> d_exists D ?t (dw_disk w2)"
      by (auto simp: applyOne_def Let_def j fail_result_def base_result_def split: if_splits)
    then show ?thesis using doing_log [OF c] v by simp
  next
    case False
    with assms show ?thesis by (auto simp: applyOne_def Let_def j fail_result_def base_result_def split: if_splits)
  qed
qed

lemma install_call:
  assumes "applyOne D now rt it f w = (res, w1)" and "SLUG (ds_slug it)" and "\<not> ds_absent it"
  shows "(\<forall>r. res = Some r \<longrightarrow> ar_status r \<noteq> SRemoved) \<and>
    (w1 = w \<or> (\<exists>files e. materialize D now rt it files w = (e, w1)) \<and>
      (readMarker D (rt @ [ds_slug it]) (dw_disk w) \<noteq> None \<or> ds_takeover it \<or> \<not> d_exists D (rt @ [ds_slug it]) (dw_disk w)))"
proof -
  let ?t = "rt @ [ds_slug it]"
  have j: "join_path rt (ds_slug it) = ?t" using assms(2) by (simp add: join_plain slug_plain)
  show ?thesis
  proof (cases "f (the (ds_version it))")
    case (Inl e)
    with assms show ?thesis by (auto simp: applyOne_def Let_def j fail_result_def base_result_def split: if_splits)
  next
    case (Inr files)
    obtain e w2 where m: "materialize D now rt it files w = (e, w2)" by fastforce
    show ?thesis
    proof (cases "readMarker D ?t (dw_disk w) = None \<and> \<not> ds_takeover it \<and> d_exists D ?t (dw_disk w)")
      case True
      with assms show ?thesis by (auto simp: applyOne_def Let_def j fail_result_def base_result_def split: if_splits)
    next
      case False
      have "w1 = w \<or> w1 = w2" "\<forall>r. res = Some r \<longrightarrow> ar_status r \<noteq> SRemoved"
        using assms Inr m by (cases e; auto simp: applyOne_def Let_def j fail_result_def base_result_def split: if_splits)+
      moreover have "\<exists>files e. materialize D now rt it files w = (e, w2)" using m by blast
      ultimately show ?thesis using False by auto
    qed
  qed
qed

text \<open>
  C11: A removal is reported only when it is verified, and nothing of the user's is deleted unasked. A result that says removed means
  that the skill's directory does not exist after the call, also when the removal reported an error. Whatever the
  result, a call deletes at most the item's skill directory and, to install, the item's staging directory; and it
  deletes only if the skill directory carries our marker, or the item is to be installed and either may take the
  directory over or found none.
\<close>

theorem removal_is_verified:
  assumes "applyOne D now rt it f w = (res, w1)"
  shows "(case res of Some r \<Rightarrow> ar_status r = SRemoved \<longrightarrow> SLUG (ds_slug it) \<and> \<not> d_exists D (rt @ [ds_slug it]) (dw_disk w1) | None \<Rightarrow> True) \<and>
    (\<exists>ops. dw_log w1 = dw_log w @ ops \<and>
      (\<forall>p. Rm p \<in> set ops \<longrightarrow>
        (p = rt @ [ds_slug it] \<or> \<not> ds_absent it \<and> p = staging_dir rt (ds_install_id it)) \<and>
        (readMarker D (rt @ [ds_slug it]) (dw_disk w) \<noteq> None \<or>
         \<not> ds_absent it \<and> (ds_takeover it \<or> \<not> d_exists D (rt @ [ds_slug it]) (dw_disk w)))))"
proof (cases "SLUG (ds_slug it)")
  case True
  show ?thesis
  proof (cases "ds_absent it")
    case absent: True
    show ?thesis using absent_call [OF assms True absent] by (cases res) (auto simp: absent True)
  next
    case install: False
    note c = install_call [OF assms True install]
    show ?thesis
    proof (cases "w1 = w")
      case False
      with c obtain files e where m: "materialize D now rt it files w = (e, w1)" by blast
      from materialize_removes [OF m] obtain ops where "dw_log w1 = dw_log w @ ops"
          "\<forall>p. Rm p \<in> set ops \<longrightarrow> p = rt @ [ds_slug it] \<or> p = staging_dir rt (ds_install_id it)"
        by (auto simp: join_plain slug_plain True)
      with c False install show ?thesis by (cases res) auto
    qed (use c in \<open>cases res; auto\<close>)
  qed
next
  case False
  with assms show ?thesis by (auto simp: applyOne_def fail_result_def base_result_def)
qed

section \<open>Examples\<close>

text \<open>A disk that holds markers only: each path's marker, and the paths that exist.\<close>

fun demo_do :: "disk_op \<Rightarrow> (path \<times> jsval) list \<Rightarrow> string option \<times> (path \<times> jsval) list" where
  "demo_do (Rm q) d = (None, filter (\<lambda>e. \<not> under q (fst e @ [''.clawbits'', ''origin.json''])) d)"
| "demo_do (Write q (MarkerText m)) d =
     (None, if drop (length q - 2) q = [''.clawbits'', ''origin.json''] then (take (length q - 2) q, marker_json m) # d else d)"
| "demo_do (Rename p q) d =
     (None, case map_of d p of Some v \<Rightarrow> (q, v) # filter (\<lambda>e. fst e \<noteq> p) d | None \<Rightarrow> filter (\<lambda>e. fst e \<noteq> q) d)"
| "demo_do _ d = (None, d)"

definition demo_disk :: "(path \<times> jsval) list disk" where
  "demo_disk = \<lparr>d_do = demo_do, d_exists = (\<lambda>p d. map_of d p \<noteq> None), d_marker = (\<lambda>p d. map_of d p)\<rparr>"

definition demo_skill :: "bool \<Rightarrow> string \<Rightarrow> desired_skill" where
  "demo_skill absent i = \<lparr>ds_install_id = i, ds_slug = ''notes'', ds_absent = absent, ds_generation = 2,
     ds_version = Some ''v1'', ds_hash = Some ''abc'', ds_takeover = False\<rparr>"

definition demo_root :: path where "demo_root = [''home'', ''skills'']"

definition demo_fetch :: "string \<Rightarrow> string + (string \<times> string) list" where
  "demo_fetch v = Inr [(''SKILL.md'', ''text'')]"

definition empty_disk :: "(path \<times> jsval) list dworld" where
  "empty_disk = \<lparr>dw_disk = [], dw_log = []\<rparr>"

lemma map_of_filter_key: "(\<And>v. P (k, v)) \<Longrightarrow> map_of (filter P d) k = map_of d k"
  by (induction d) auto

lemma map_of_filter_none: "(\<And>v. \<not> P (k, v)) \<Longrightarrow> map_of (filter P d) k = None"
  by (induction d) auto

lemma demo_disk_laws: "disk_laws demo_disk"
  unfolding disk_laws_def
proof (intro conjI allI impI)
  fix p q d d'
  assume "d_do demo_disk (Rm q) d = (None, d')" and "\<not> under q (p @ [''.clawbits'', ''origin.json''])"
  then show "d_marker demo_disk p d' = d_marker demo_disk p d"
    by (auto simp: demo_disk_def intro!: map_of_filter_key)
next
  fix p q d d'
  assume "d_do demo_disk (Rename p q) d = (None, d')"
  then show "d_marker demo_disk q d' = d_marker demo_disk p d"
    by (auto simp: demo_disk_def map_of_filter_none split: option.splits)
qed (auto simp: demo_disk_def)

lemma applied_skill_is_left_alone_witness:
  "let w = snd (applyOne demo_disk ''now'' demo_root (demo_skill False ''i1'') demo_fetch empty_disk) in
   applyOne demo_disk ''later'' demo_root (demo_skill False ''i1'') demo_fetch w = (None, w)"
proof -
  obtain r w1 where e: "applyOne demo_disk ''now'' demo_root (demo_skill False ''i1'') demo_fetch empty_disk = (r, w1)" by fastforce
  have "map_option ar_status (fst (applyOne demo_disk ''now'' demo_root (demo_skill False ''i1'') demo_fetch empty_disk)) = Some SApplied"
    by code_simp
  with e obtain res where r: "r = Some res" "ar_status res = SApplied" by auto
  have "plain_segment (ds_install_id (demo_skill False ''i1''))" by code_simp
  with applied_skill_is_left_alone [OF e [unfolded r(1)] r(2) demo_disk_laws] e show ?thesis by (simp add: Let_def)
qed

lemma writes_stay_inside_witness:
  "list_all (safe_op demo_root) (dw_log (snd (applyDesired demo_disk ''now'' demo_root [demo_skill False ''i1'', demo_skill True ''i2''] demo_fetch empty_disk)))"
proof -
  obtain r w' where e: "applyDesired demo_disk ''now'' demo_root [demo_skill False ''i1'', demo_skill True ''i2''] demo_fetch empty_disk = (r, w')"
    by fastforce
  have "list_all (\<lambda>it. plain_segment (ds_install_id it)) [demo_skill False ''i1'', demo_skill True ''i2'']" by code_simp
  with writes_stay_inside [OF e] e show ?thesis by (simp add: empty_disk_def)
qed

lemma removal_is_verified_witness:
  "\<not> d_exists demo_disk (demo_root @ [''notes''])
     (dw_disk (snd (applyOne demo_disk ''now'' demo_root (demo_skill True ''i1'') demo_fetch
       \<lparr>dw_disk = [(demo_root @ [''notes''], JObj [(''contentHash'', JStr ''abc'')])], dw_log = []\<rparr>)))"
proof -
  let ?w = "\<lparr>dw_disk = [(demo_root @ [''notes''], JObj [(''contentHash'', JStr ''abc'')])], dw_log = []\<rparr>"
  obtain r w1 where e: "applyOne demo_disk ''now'' demo_root (demo_skill True ''i1'') demo_fetch ?w = (r, w1)" by fastforce
  have "map_option ar_status (fst (applyOne demo_disk ''now'' demo_root (demo_skill True ''i1'') demo_fetch ?w)) = Some SRemoved"
    by code_simp
  with e obtain res where r: "r = Some res" "ar_status res = SRemoved" by auto
  from removal_is_verified [OF e] e r show ?thesis by (simp add: demo_skill_def)
qed

lemma install_id_escapes_root_witness:
  "\<exists>ops. dw_log (snd (applyOne demo_disk ''now'' demo_root (demo_skill False ''../../..'') demo_fetch empty_disk)) = Rm [] # ops"
proof -
  obtain r w1 where e: "applyOne demo_disk ''now'' demo_root (demo_skill False ''../../..'') demo_fetch empty_disk = (r, w1)" by fastforce
  have "SLUG (ds_slug (demo_skill False ''../../..''))" by code_simp
  from install_id_escapes_root [OF this _ _ _ _ _ _ _ e] e show ?thesis
    by (simp add: demo_skill_def set_text_def demo_disk_def empty_disk_def demo_fetch_def demo_root_def)
qed

end
