(* ===== verification/Skills_Sync.thy ===== *)
theory Skills_Sync
  imports Skills_Scan Skills_Apply
begin

text \<open>
  The reporter of an agent's skills (\<open>plugin/src/skills/sync.ts\<close>): what one pass reports after it has applied the
  desired skills and scanned the disk, and what it remembers of the reports the server took; and what the server keeps of a
  report (\<open>clawbits/db/table_write.py\<close>). The answers a pass meets are its argument: the desired set, the outcome of the
  applier, the disk after it and whether the report was accepted. The key of the bundled set, \<open>JSON.stringify\<close> of it,
  is a parameter.
\<close>

section \<open>Reports\<close>

definition INTERVAL_MS :: rat where "INTERVAL_MS = 300000"
definition MAX_BACKOFF_MS :: rat where "MAX_BACKOFF_MS = 1800000"

text \<open>What the server holds from the reports it took.\<close>

record reported =
  rp_bodies :: "(string, string) jsmap"
  rp_bundled :: "string option"

record wire_skill =
  wi_skill :: scanned_skill
  wi_content_hash :: "string option"
  wi_omitted :: bool
  wi_skill_md :: "string option"

definition toWire :: "(string, string) jsmap \<Rightarrow> scanned_skill \<Rightarrow> wire_skill" where
  "toWire bodies s =
     \<lparr>wi_skill = s, wi_content_hash = map_option md_hash (sk_md s),
      wi_omitted = (case sk_md s of Some md \<Rightarrow> md_text md = None | None \<Rightarrow> False),
      wi_skill_md = (case sk_md s of
          Some md \<Rightarrow> (if mget bodies (sk_slug s) \<noteq> Some (md_hash md) then md_text md else None)
        | None \<Rightarrow> None)\<rparr>"

type_synonym bundled_set = "(string \<times> string option) list"

record skills_report =
  rr_root :: string
  rr_scanned :: "string list"
  rr_truncated :: bool
  rr_skills :: "wire_skill list"
  rr_applied :: "apply_result list"
  rr_bundled :: "bundled_set option"

section \<open>One pass\<close>

record sync_pass =
  sp_paused :: "bool option"
  sp_applied :: "apply_result list option"
  sp_disk :: disk_view
  sp_env :: skill_env
  sp_workspace :: "string option"
  sp_entry :: "string option"
  sp_realpath :: "string \<Rightarrow> string option"
  sp_accepted :: bool

text \<open>The desired set is \<open>sp_paused\<close> here, \<open>None\<close> when the request for it fails; the applier runs unless it is paused, and may throw.\<close>

definition applied_in :: "sync_pass \<Rightarrow> apply_result list option" where
  "applied_in p = (case sp_paused p of None \<Rightarrow> None | Some True \<Rightarrow> Some [] | Some False \<Rightarrow> sp_applied p)"

definition skills_on_disk :: "scan_host \<Rightarrow> sync_pass \<Rightarrow> scan_result" where
  "skills_on_disk H p = scanSkills H (sp_disk p) (resolveSkillRoots (sp_env p) (sp_workspace p))"

definition bundled_in :: "scan_host \<Rightarrow> sync_pass \<Rightarrow> bundled_set option" where
  "bundled_in H p = (case resolveBundledSkillsDir H (sp_disk p) (sp_realpath p) (sp_env p) (sp_entry p) of
      Some (Some d) \<Rightarrow> Some (map (\<lambda>s. (sk_slug s, Option.bind (sk_manifest s) mf_description))
        (sr_skills (scanSkills H (sp_disk p) [d])))
    | _ \<Rightarrow> None)"

definition sync_report :: "scan_host \<Rightarrow> (bundled_set \<Rightarrow> string) \<Rightarrow> sync_pass \<Rightarrow> reported \<Rightarrow> skills_report option" where
  "sync_report H key p rep = map_option (\<lambda>applied.
     \<lparr>rr_root = writeRoot (sp_env p) (sp_workspace p),
      rr_scanned = sr_scanned (skills_on_disk H p),
      rr_truncated = sr_truncated (skills_on_disk H p),
      rr_skills = map (toWire (rp_bodies rep)) (sr_skills (skills_on_disk H p)),
      rr_applied = applied,
      rr_bundled = (case bundled_in H p of
          Some b \<Rightarrow> (if rp_bundled rep \<noteq> Some (key b) then Some b else None)
        | None \<Rightarrow> None)\<rparr>) (applied_in p)"

definition removed_slugs :: "apply_result list \<Rightarrow> string list" where
  "removed_slugs applied = map ar_slug (filter (\<lambda>a. ar_status a = SRemoved) applied)"

definition body_entries :: "string list \<Rightarrow> scanned_skill list \<Rightarrow> (string \<times> string) list" where
  "body_entries removed skills = concat (map (\<lambda>s. case sk_md s of
       Some md \<Rightarrow> (if sk_slug s \<in> set removed then [] else [(sk_slug s, md_hash md)])
     | None \<Rightarrow> []) skills)"

definition map_of_entries :: "('k \<times> 'v) list \<Rightarrow> ('k, 'v) jsmap" where
  "map_of_entries es = foldl (\<lambda>m (k, v). mset_key k v m) [] es"

definition note_report :: "scan_host \<Rightarrow> (bundled_set \<Rightarrow> string) \<Rightarrow> sync_pass \<Rightarrow> skills_report \<Rightarrow> reported \<Rightarrow> reported" where
  "note_report H key p r rep =
     \<lparr>rp_bodies = map_of_entries (body_entries (removed_slugs (rr_applied r)) (sr_skills (skills_on_disk H p))),
      rp_bundled = (case bundled_in H p of Some b \<Rightarrow> Some (key b) | None \<Rightarrow> rp_bundled rep)\<rparr>"

definition syncOnce :: "scan_host \<Rightarrow> (bundled_set \<Rightarrow> string) \<Rightarrow> sync_pass \<Rightarrow> reported \<Rightarrow> skills_report option \<times> reported" where
  "syncOnce H key p rep = (case sync_report H key p rep of
      Some r \<Rightarrow> (if sp_accepted p then (Some r, note_report H key p r rep) else (None, rep))
    | None \<Rightarrow> (None, rep))"

text \<open>The wait after a pass: longer after each failure in a row, within a bound, with \<open>x\<close> between 0 and 1 for the jitter.\<close>

definition retry_delay :: "nat \<Rightarrow> rat \<Rightarrow> rat" where
  "retry_delay failures x = min (INTERVAL_MS * 2 ^ failures) MAX_BACKOFF_MS * (0.85 + x * 0.3)"

lemma retry_delay_bounds:
  assumes "0 \<le> x" and "x < 1"
  shows "255000 \<le> retry_delay failures x \<and> retry_delay failures x < 2070000"
proof -
  let ?m = "min (INTERVAL_MS * 2 ^ failures) MAX_BACKOFF_MS"
  have "(1 :: rat) \<le> 2 ^ failures" by simp
  then have m: "300000 \<le> ?m" "?m \<le> 1800000" by (simp_all add: INTERVAL_MS_def MAX_BACKOFF_MS_def)
  have "300000 * 0.85 \<le> ?m * (0.85 + x * 0.3)" using m assms by (intro mult_mono) auto
  moreover have "?m * (0.85 + x * 0.3) \<le> 1800000 * (0.85 + x * 0.3)" using m assms by (intro mult_right_mono) auto
  moreover have "1800000 * (0.85 + x * 0.3) < 2070000" using assms by simp
  ultimately show ?thesis by (simp add: retry_delay_def)
qed

section \<open>What the server keeps\<close>

text \<open>
  \<open>_as_str\<close> and \<open>str.strip\<close> of Python, the length of a text in UTF-8, and the bounds of the handler
  (\<open>TableWrite.apply_skill_state_report\<close>). A character of the model is one of the first 256 code points.
\<close>

definition SKILL_REPORT_MAX_ITEMS :: nat where "SKILL_REPORT_MAX_ITEMS = 500"
definition REPORTED_SKILL_MD_MAX :: int where "REPORTED_SKILL_MD_MAX = 65536"

definition py_ws :: "char \<Rightarrow> bool" where
  "py_ws c = (of_char c \<in> {9, 10, 11, 12, 13, 28, 29, 30, 31, 32, 133, 160 :: nat})"

definition py_strip :: "string \<Rightarrow> string" where
  "py_strip s = rev (dropWhile py_ws (rev (dropWhile py_ws s)))"

definition bounded_str :: "nat \<Rightarrow> string option \<Rightarrow> string option" where
  "bounded_str limit v = (case map_option py_strip v of Some (c # cs) \<Rightarrow> Some (take limit (c # cs)) | _ \<Rightarrow> None)"

definition utf8_length :: "string \<Rightarrow> int" where
  "utf8_length t = sum_list (map (\<lambda>c. if (of_char c :: nat) < 128 then 1 else 2) t)"

definition storable_text :: "string \<Rightarrow> bool" where
  "storable_text t = (CHR 0x00 \<notin> set t \<and> utf8_length t \<le> REPORTED_SKILL_MD_MAX)"

text \<open>A row keeps the hash and the text of the marker file; its other columns are not modelled.\<close>

record skill_row =
  ro_content_hash :: "string option"
  ro_skill_md :: "string option"

datatype report_item = ReportedSkill wire_skill | ReportedOutcome apply_result

type_synonym skill_rows = "string \<Rightarrow> skill_row option"

definition empty_row :: skill_row where
  "empty_row = \<lparr>ro_content_hash = None, ro_skill_md = None\<rparr>"

definition row_takes :: "wire_skill \<Rightarrow> skill_row \<Rightarrow> skill_row" where
  "row_takes w row =
     (let h = bounded_str 1000 (wi_content_hash w);
          kept = (if h \<noteq> ro_content_hash row then None else ro_skill_md row)
      in \<lparr>ro_content_hash = h,
          ro_skill_md = (case wi_skill_md w of
              Some t \<Rightarrow> (if storable_text t then Some t else kept)
            | None \<Rightarrow> kept)\<rparr>)"

text \<open>An item with a blank name is passed over, and an outcome changes no hash and no text.\<close>

fun item_slug :: "report_item \<Rightarrow> string" where
  "item_slug (ReportedSkill w) = py_strip (sk_slug (wi_skill w))"
| "item_slug (ReportedOutcome a) = py_strip (ar_slug a)"

fun take_item :: "skill_rows \<Rightarrow> report_item \<Rightarrow> skill_rows" where
  "take_item rows (ReportedSkill w) =
     (let slug = py_strip (sk_slug (wi_skill w)) in
      if slug = [] then rows
      else rows(slug \<mapsto> row_takes w (case rows slug of Some row \<Rightarrow> row | None \<Rightarrow> empty_row)))"
| "take_item rows (ReportedOutcome a) = rows"

definition report_items :: "skills_report \<Rightarrow> report_item list" where
  "report_items r = take SKILL_REPORT_MAX_ITEMS (map ReportedSkill (rr_skills r) @ map ReportedOutcome (rr_applied r))"

fun is_removed :: "report_item \<Rightarrow> bool" where
  "is_removed (ReportedOutcome a) = (ar_status a = SRemoved)"
| "is_removed (ReportedSkill w) = False"

definition seen_in :: "report_item list \<Rightarrow> string set" where
  "seen_in items = item_slug ` set (filter (\<lambda>i. \<not> is_removed i) items)"

definition removed_in :: "report_item list \<Rightarrow> string set" where
  "removed_in items = item_slug ` set (filter is_removed items)"

text \<open>
  After the items the handler deletes rows that the report did not see, if they are the agent's own, and rows it
  confirms as removed, if they await that; \<open>keeps\<close> says which of these rows stay.
\<close>

definition take_items :: "(string \<Rightarrow> bool) \<Rightarrow> report_item list \<Rightarrow> skill_rows \<Rightarrow> skill_rows" where
  "take_items keeps items rows = (\<lambda>slug.
     if (slug \<notin> seen_in items \<or> slug \<in> removed_in items) \<and> \<not> keeps slug then None
     else foldl take_item rows items slug)"

definition bundled_rows :: "bundled_set \<Rightarrow> bundled_set" where
  "bundled_rows b = concat (map (\<lambda>(slug, d). case bounded_str 128 (Some slug) of
       Some x \<Rightarrow> [(x, bounded_str 1000 d)] | None \<Rightarrow> []) (take SKILL_REPORT_MAX_ITEMS b))"

record server_copy =
  sv_skills :: skill_rows
  sv_bundled :: "bundled_set option"

definition server_takes :: "(string \<Rightarrow> bool) \<Rightarrow> skills_report \<Rightarrow> server_copy \<Rightarrow> server_copy" where
  "server_takes keeps r S =
     \<lparr>sv_skills = take_items keeps (report_items r) (sv_skills S),
      sv_bundled = (case rr_bundled r of Some b \<Rightarrow> Some (bundled_rows b) | None \<Rightarrow> sv_bundled S)\<rparr>"

text \<open>
  The reporter and the server together: a pass, with whether the server took a report whose answer never came
  (an answered report it always took) and with the rows it keeps; a skill installed from the catalog, which
  gives it a row; and a row forgotten by an operator (\<open>forget_skill_install\<close>).
\<close>

datatype sync_event =
    SyncPass sync_pass bool "string \<Rightarrow> bool"
  | RowInstalled string
  | RowForgotten string

fun sync_step :: "scan_host \<Rightarrow> (bundled_set \<Rightarrow> string) \<Rightarrow> reported \<times> server_copy \<Rightarrow> sync_event \<Rightarrow> reported \<times> server_copy" where
  "sync_step H key (rep, S) (SyncPass p taken keeps) =
     (snd (syncOnce H key p rep),
      case sync_report H key p rep of
        Some r \<Rightarrow> (if sp_accepted p \<or> taken then server_takes keeps r S else S)
      | None \<Rightarrow> S)"
| "sync_step H key (rep, S) (RowInstalled slug) =
     (rep, S\<lparr>sv_skills := (sv_skills S)(slug \<mapsto> (case sv_skills S slug of Some row \<Rightarrow> row | None \<Rightarrow> empty_row))\<rparr>)"
| "sync_step H key (rep, S) (RowForgotten slug) = (rep, S\<lparr>sv_skills := (sv_skills S)(slug := None)\<rparr>)"

definition sync_start :: "reported \<times> server_copy" where
  "sync_start = (\<lparr>rp_bodies = [], rp_bundled = None\<rparr>, \<lparr>sv_skills = (\<lambda>_. None), sv_bundled = None\<rparr>)"

definition copy_after :: "scan_host \<Rightarrow> (bundled_set \<Rightarrow> string) \<Rightarrow> sync_event list \<Rightarrow> server_copy" where
  "copy_after H key es = snd (run (sync_step H key) sync_start es)"

text \<open>The row a marker file should have.\<close>

definition md_row :: "skill_md option \<Rightarrow> skill_row" where
  "md_row md = \<lparr>ro_content_hash = map_option md_hash md,
     ro_skill_md = (case Option.bind md md_text of
         Some t \<Rightarrow> (if storable_text t then Some t else None)
       | None \<Rightarrow> None)\<rparr>"

text \<open>
  What the mirror rests on: marker files are among \<open>files\<close>, whose digests differ and are short texts with no
  white space around them; skills have names with none either; no report is taken without its answer, and no
  row forgotten.
\<close>

definition digests_tell :: "scan_host \<Rightarrow> string set \<Rightarrow> bool" where
  "digests_tell H files = (inj_on (h_digest H) files \<and>
     (\<forall>raw \<in> files. bounded_str 1000 (Some (''sha256:'' @ h_digest H raw)) = Some (''sha256:'' @ h_digest H raw)))"

definition plain_slug :: "string \<Rightarrow> bool" where
  "plain_slug s = (s \<noteq> [] \<and> py_strip s = s)"

definition plain_pass :: "scan_host \<Rightarrow> string set \<Rightarrow> sync_pass \<Rightarrow> bool" where
  "plain_pass H files p =
     ((\<forall>path. v_read (sp_disk p) path \<in> insert None (Some ` files)) \<and>
      list_all (\<lambda>s. plain_slug (sk_slug s)) (sr_skills (skills_on_disk H p)) \<and>
      list_all (\<lambda>a. plain_slug (ar_slug a)) (case applied_in p of Some applied \<Rightarrow> applied | None \<Rightarrow> []))"

fun undisturbed :: "scan_host \<Rightarrow> string set \<Rightarrow> sync_event \<Rightarrow> bool" where
  "undisturbed H files (SyncPass p taken keeps) = (plain_pass H files p \<and> (taken \<longrightarrow> sp_accepted p))"
| "undisturbed H files (RowInstalled slug) = True"
| "undisturbed H files (RowForgotten slug) = False"

text \<open>A row that is empty or some file's.\<close>

definition file_row :: "scan_host \<Rightarrow> string \<Rightarrow> skill_row" where
  "file_row H raw = md_row (Some \<lparr>md_hash = ''sha256:'' @ h_digest H raw,
     md_text = (if text_fits raw then Some (h_utf8 H raw) else None)\<rparr>)"

definition row_ok :: "scan_host \<Rightarrow> string set \<Rightarrow> skill_row \<Rightarrow> bool" where
  "row_ok H files row = (row = empty_row \<or> (\<exists>raw \<in> files. row = file_row H raw))"

definition copy_ok :: "scan_host \<Rightarrow> (bundled_set \<Rightarrow> string) \<Rightarrow> string set \<Rightarrow> reported \<times> server_copy \<Rightarrow> bool" where
  "copy_ok H key files s =
     ((\<forall>slug row. sv_skills (snd s) slug = Some row \<longrightarrow> row_ok H files row) \<and>
      (\<forall>slug h. mget (rp_bodies (fst s)) slug = Some h \<longrightarrow>
         (\<exists>row. sv_skills (snd s) slug = Some row \<and> ro_content_hash row = Some h)) \<and>
      (\<forall>k. rp_bundled (fst s) = Some k \<longrightarrow> (\<exists>b. sv_bundled (snd s) = Some (bundled_rows b) \<and> key b = k)))"

lemma file_row_hash [simp]: "ro_content_hash (file_row H raw) = Some (''sha256:'' @ h_digest H raw)"
  by (simp add: file_row_def md_row_def)

lemma file_row_unique:
  "digests_tell H files \<Longrightarrow> raw \<in> files \<Longrightarrow> row_ok H files row \<Longrightarrow>
   ro_content_hash row = Some (''sha256:'' @ h_digest H raw) \<Longrightarrow> row = file_row H raw"
  by (auto simp: row_ok_def digests_tell_def empty_row_def dest: inj_onD)

lemma scanned_file:
  assumes "scanned_ok H V s" and "sk_md s = Some md" and "\<forall>path. v_read V path \<in> insert None (Some ` files)"
  obtains raw where "raw \<in> files" and "md_row (Some md) = file_row H raw" and "md_hash md = ''sha256:'' @ h_digest H raw"
proof -
  from assms(1,2) obtain mf where "readSkillMd H V (sk_path s) = (mf, Some md)" unfolding scanned_ok_def by metis
  then obtain raw where raw: "v_read V (sk_path s) = Some raw"
      and md: "md = \<lparr>md_hash = ''sha256:'' @ h_digest H raw, md_text = (if text_fits raw then Some (h_utf8 H raw) else None)\<rparr>"
    by (auto simp: readSkillMd_def split: option.splits)
  moreover have "raw \<in> files" using assms(3) [rule_format, of "sk_path s"] raw by auto
  ultimately show thesis using that by (simp add: file_row_def)
qed

text \<open>A row leaves the server as that of the very file it reports.\<close>

lemma row_takes_toWire:
  assumes digests: "digests_tell H files" and ok: "row_ok H files row"
    and told: "\<And>h. mget bodies (sk_slug s) = Some h \<Longrightarrow> ro_content_hash row = Some h"
    and md: "\<And>md. sk_md s = Some md \<Longrightarrow>
      \<exists>raw \<in> files. md_row (Some md) = file_row H raw \<and> md_hash md = ''sha256:'' @ h_digest H raw"
  shows "row_takes (toWire bodies s) row = md_row (sk_md s)"
proof (cases "sk_md s")
  case None
  have "ro_content_hash row = None \<Longrightarrow> ro_skill_md row = None" using ok by (auto simp: row_ok_def empty_row_def)
  with None show ?thesis
    by (auto simp: row_takes_def toWire_def md_row_def bounded_str_def)
next
  case (Some md)
  then obtain raw where raw: "raw \<in> files" "md_row (Some md) = file_row H raw" "md_hash md = ''sha256:'' @ h_digest H raw"
    using md by blast
  have hash: "bounded_str 1000 (Some (md_hash md)) = Some (md_hash md)"
    using digests raw(1,3) by (simp add: digests_tell_def)
  have same: "row = md_row (Some md)" if "ro_content_hash row = Some (md_hash md)"
    using file_row_unique [OF digests raw(1) ok] that raw(2,3) by simp
  show ?thesis
  proof (cases "ro_content_hash row = Some (md_hash md)")
    case True
    from same [OF True] Some show ?thesis
      by (auto simp: row_takes_def toWire_def hash md_row_def Let_def split: option.splits)
  next
    case False
    then have "mget bodies (sk_slug s) \<noteq> Some (md_hash md)" using told by blast
    with False Some show ?thesis
      by (auto simp: row_takes_def toWire_def hash md_row_def Let_def split: option.splits)
  qed
qed

text \<open>What a scan gives the reporter: one well-formed skill per name, and no more than a report holds.\<close>

lemma scan_distinct: "distinct (map sk_slug (sr_skills (scanSkills H V roots)))"
  by (simp add: scanSkills_def Let_def first_of_slug_distinct)

lemma scan_bounds:
  "list_all (scanned_ok H V) (sr_skills (scanSkills H V roots)) \<and> length (sr_skills (scanSkills H V roots)) \<le> MAX_SKILLS"
proof -
  let ?out = "foldl (\<lambda>out rt. walk H V rt rt 0 out) [] (filter (v_isdir V) roots)"
  have out: "list_all (scanned_ok H V) ?out" "length ?out \<le> MAX_SKILLS"
    using roots_ok [of V "filter (v_isdir V) roots" H "[]"] by (simp_all add: list_all_iff)
  have "set (sr_skills (scanSkills H V roots)) \<subseteq> set ?out"
    using first_of_slug_subset [of "[]" ?out] by (simp add: scanSkills_def Let_def)
  moreover have "length (sr_skills (scanSkills H V roots)) \<le> length ?out"
    using first_of_slug_length [of "[]" ?out] by (simp add: scanSkills_def Let_def)
  ultimately show ?thesis using out by (auto simp: list_all_iff)
qed

lemma set_map_of_entries: "mget (foldl (\<lambda>m (k, v). mset_key k v m) m es) k = Some v \<Longrightarrow> (k, v) \<in> set es \<or> mget m k = Some v"
proof (induction es arbitrary: m)
  case (Cons e es)
  obtain k' v' where e: "e = (k', v')" by (cases e)
  from Cons.IH [of "mset_key k' v' m"] Cons.prems show ?case by (auto simp: e split: if_splits)
qed simp

lemma body_entriesD:
  assumes "mget (map_of_entries (body_entries removed ss)) k = Some h"
  obtains s md where "s \<in> set ss" "sk_slug s = k" "sk_md s = Some md" "md_hash md = h" "k \<notin> set removed"
proof -
  have "(k, h) \<in> set (body_entries removed ss)"
    using set_map_of_entries [OF assms [unfolded map_of_entries_def]] by simp
  then show ?thesis using that by (force simp: body_entries_def split: option.splits if_splits)
qed

text \<open>The rows after the items of a report: each listed skill's row took its item, the others stayed.\<close>

lemma take_outcomes: "foldl take_item rows (map ReportedOutcome as) = rows"
  by (induction as) simp_all

lemma take_skills:
  assumes "distinct (map sk_slug ss)" and "list_all (\<lambda>s. plain_slug (sk_slug s)) ss"
  shows "foldl take_item rows (map (\<lambda>s. ReportedSkill (toWire bodies s)) ss) slug =
    (case List.find (\<lambda>s. sk_slug s = slug) ss of
       Some s \<Rightarrow> Some (row_takes (toWire bodies s) (case rows slug of Some row \<Rightarrow> row | None \<Rightarrow> empty_row))
     | None \<Rightarrow> rows slug)"
  using assms
proof (induction ss arbitrary: rows)
  case (Cons s ss)
  have plain: "py_strip (sk_slug s) = sk_slug s" "sk_slug s \<noteq> []" using Cons.prems(2) by (simp_all add: plain_slug_def)
  have slug: "wi_skill (toWire bodies s) = s" by (simp add: toWire_def)
  have "List.find (\<lambda>x. sk_slug x = sk_slug s) ss = None" 
    using Cons.prems(1) by (simp add: find_None_iff image_iff) metis
  with Cons show ?case by (cases "slug = sk_slug s") (auto simp: plain slug Let_def split: option.split)
qed simp

lemma items_of_report:
  assumes r: "sync_report H key p rep = Some r" and plain: "plain_pass H files p"
  shows "foldl take_item rows (report_items r) slug =
      (case List.find (\<lambda>s. sk_slug s = slug) (sr_skills (skills_on_disk H p)) of
         Some s \<Rightarrow> Some (row_takes (toWire (rp_bodies rep) s) (case rows slug of Some row \<Rightarrow> row | None \<Rightarrow> empty_row))
       | None \<Rightarrow> rows slug)" (is ?rows)
    and "s \<in> set (sr_skills (skills_on_disk H p)) \<Longrightarrow> sk_slug s \<in> seen_in (report_items r)" (is "?s \<Longrightarrow> ?seen")
    and "removed_in (report_items r) \<subseteq> set (removed_slugs (rr_applied r))" (is ?gone)
proof -
  let ?ss = "sr_skills (skills_on_disk H p)"
  obtain k where items: "report_items r = map (\<lambda>s. ReportedSkill (toWire (rp_bodies rep) s)) ?ss @ map ReportedOutcome (take k (rr_applied r))"
    using r scan_bounds [of H "sp_disk p" "resolveSkillRoots (sp_env p) (sp_workspace p)"]
    by (auto simp: report_items_def sync_report_def skills_on_disk_def SKILL_REPORT_MAX_ITEMS_def MAX_SKILLS_def take_map comp_def)
  have skills: "list_all (\<lambda>s. plain_slug (sk_slug s)) ?ss" and outcomes: "list_all (\<lambda>a. plain_slug (ar_slug a)) (rr_applied r)"
    using plain r by (auto simp: plain_pass_def sync_report_def)
  show ?rows
    using take_skills [OF _ skills] by (simp add: items take_outcomes skills_on_disk_def scan_distinct)
  show ?seen if ?s
    using that skills by (force simp: items seen_in_def list_all_iff plain_slug_def toWire_def)
  show ?gone
    using outcomes by (force simp: items removed_in_def removed_slugs_def list_all_iff plain_slug_def dest: in_set_takeD)
qed

lemma find_by_slug:
  "distinct (map sk_slug ss) \<Longrightarrow> s \<in> set ss \<Longrightarrow> List.find (\<lambda>x. sk_slug x = sk_slug s) ss = Some s"
  by (induction ss) auto

text \<open>The row of a listed skill after a report, and how a good copy stays good.\<close>

lemma row_after_report:
  assumes ok: "copy_ok H key files (rep, S)" and digests: "digests_tell H files" and plain: "plain_pass H files p"
    and s: "s \<in> set (sr_skills (skills_on_disk H p))"
  shows "row_takes (toWire (rp_bodies rep) s) (case sv_skills S (sk_slug s) of Some row \<Rightarrow> row | None \<Rightarrow> empty_row) =
      md_row (sk_md s)"
    and "row_ok H files (md_row (sk_md s))"
proof -
  let ?row = "case sv_skills S (sk_slug s) of Some row \<Rightarrow> row | None \<Rightarrow> empty_row"
  have md: "\<exists>raw \<in> files. md_row (Some md) = file_row H raw \<and> md_hash md = ''sha256:'' @ h_digest H raw"
    if "sk_md s = Some md" for md
  proof -
    have "scanned_ok H (sp_disk p) s"
      using s scan_bounds [of H "sp_disk p" "resolveSkillRoots (sp_env p) (sp_workspace p)"]
      by (simp add: skills_on_disk_def list_all_iff)
    from scanned_file [OF this that] plain show ?thesis unfolding plain_pass_def by metis
  qed
  show "row_takes (toWire (rp_bodies rep) s) ?row = md_row (sk_md s)"
  proof (rule row_takes_toWire [OF digests _ _ md])
    show "row_ok H files ?row" using ok by (auto simp: copy_ok_def row_ok_def split: option.split)
    show "ro_content_hash ?row = Some h" if "mget (rp_bodies rep) (sk_slug s) = Some h" for h
      using ok that by (force simp: copy_ok_def)
  qed
  show "row_ok H files (md_row (sk_md s))"
    using md by (cases "sk_md s") (auto simp: row_ok_def md_row_def empty_row_def)
qed

lemma server_has_skill:
  assumes ok: "copy_ok H key files (rep, S)" and digests: "digests_tell H files" and plain: "plain_pass H files p"
    and r: "sync_report H key p rep = Some r"
    and s: "s \<in> set (sr_skills (skills_on_disk H p))"
    and here: "sk_slug s \<notin> set (removed_slugs (rr_applied r))"
  shows "sv_skills (server_takes keeps r S) (sk_slug s) = Some (md_row (sk_md s))"
proof -
  have "List.find (\<lambda>x. sk_slug x = sk_slug s) (sr_skills (skills_on_disk H p)) = Some s"
    using s by (simp add: skills_on_disk_def find_by_slug [OF scan_distinct])
  with row_after_report(1) [OF ok digests plain s] items_of_report [OF r plain] s here show ?thesis
    by (auto simp: server_takes_def take_items_def)
qed

lemma server_has_bundled:
  assumes "copy_ok H key files (rep, S)" and "inj key" and "sync_report H key p rep = Some r"
  shows "sv_bundled (server_takes keeps r S) =
    (case bundled_in H p of Some b \<Rightarrow> Some (bundled_rows b) | None \<Rightarrow> sv_bundled S)"
proof (cases "bundled_in H p")
  case None
  with assms(3) show ?thesis by (auto simp: server_takes_def sync_report_def)
next
  case (Some b)
  show ?thesis
  proof (cases "rp_bundled rep = Some (key b)")
    case True
    then obtain b' where "sv_bundled S = Some (bundled_rows b')" "key b' = key b" using assms(1) by (auto simp: copy_ok_def)
    moreover from this injD [OF assms(2)] have "b' = b" by blast
    ultimately show ?thesis using True Some assms(3) by (auto simp: server_takes_def sync_report_def)
  qed (use Some assms(3) in \<open>auto simp: server_takes_def sync_report_def\<close>)
qed

lemma copy_ok_report:
  assumes ok: "copy_ok H key files (rep, S)" and digests: "digests_tell H files" and key: "inj key"
    and plain: "plain_pass H files p" and r: "sync_report H key p rep = Some r"
  shows "copy_ok H key files (note_report H key p r rep, server_takes keeps r S)"
proof -
  let ?ss = "sr_skills (skills_on_disk H p)" and ?S = "server_takes keeps r S"
  have "row_ok H files row" if row: "sv_skills ?S slug = Some row" for slug row
  proof (cases "List.find (\<lambda>s. sk_slug s = slug) ?ss")
    case None
    then have "sv_skills S slug = Some row"
      using row by (auto simp: server_takes_def take_items_def items_of_report(1) [OF r plain] split: if_splits)
    with ok show ?thesis by (simp add: copy_ok_def)
  next
    case (Some s)
    then have s: "s \<in> set ?ss" "sk_slug s = slug" by (auto dest: find_SomeD)
    with row Some row_after_report [OF ok digests plain s(1)] show ?thesis
      by (auto simp: server_takes_def take_items_def items_of_report(1) [OF r plain] split: if_splits)
  qed
  moreover have "\<exists>row. sv_skills ?S slug = Some row \<and> ro_content_hash row = Some h"
    if h: "mget (rp_bodies (note_report H key p r rep)) slug = Some h" for slug h
  proof -
    from h obtain s md where s: "s \<in> set ?ss" "sk_slug s = slug" "sk_md s = Some md" "md_hash md = h"
        "slug \<notin> set (removed_slugs (rr_applied r))"
      by (auto simp: note_report_def elim: body_entriesD)
    with server_has_skill [OF ok digests plain r s(1)] show ?thesis by (simp add: md_row_def)
  qed
  moreover have "\<exists>b. sv_bundled ?S = Some (bundled_rows b) \<and> key b = k"
    if k: "rp_bundled (note_report H key p r rep) = Some k" for k
    using k ok by (cases "bundled_in H p") (auto simp: note_report_def copy_ok_def server_has_bundled [OF ok key r])
  ultimately show ?thesis unfolding copy_ok_def by simp
qed

lemma copy_ok_step:
  "digests_tell H files \<Longrightarrow> inj key \<Longrightarrow> undisturbed H files e \<Longrightarrow> copy_ok H key files s \<Longrightarrow>
   copy_ok H key files (sync_step H key s e)"
proof -
  assume digests: "digests_tell H files" and key: "inj key" and calm: "undisturbed H files e" and ok: "copy_ok H key files s"
  obtain rep S where s: "s = (rep, S)" by (cases s)
  show ?thesis
  proof (cases e)
    case (SyncPass p taken keeps)
    then have plain: "plain_pass H files p" and answered: "taken \<Longrightarrow> sp_accepted p" using calm by simp_all
    show ?thesis
    proof (cases "sync_report H key p rep")
      case (Some r)
      with copy_ok_report [OF ok [unfolded s] digests key plain Some] ok answered show ?thesis
        by (auto simp: s SyncPass syncOnce_def)
    qed (use ok in \<open>simp add: s SyncPass syncOnce_def\<close>)
  next
    case (RowInstalled slug)
    show ?thesis
    proof (cases "sv_skills S slug")
      case None
      then have "mget (rp_bodies rep) slug = None" using ok unfolding s copy_ok_def fst_conv snd_conv by (metis not_None_eq)
      with ok None show ?thesis by (auto simp: s RowInstalled copy_ok_def row_ok_def)
    next
      case (Some row)
      then have "(sv_skills S)(slug \<mapsto> row) = sv_skills S" by (simp add: map_upd_triv)
      with ok Some show ?thesis by (simp add: s RowInstalled)
    qed
  qed (use calm in simp)
qed

lemma copy_ok_run:
  assumes "digests_tell H files" and "inj key" and "list_all (undisturbed H files) es"
  shows "copy_ok H key files (run (sync_step H key) sync_start es)"
  using assms(3)
proof (induction es rule: rev_induct)
  case Nil
  show ?case by (simp add: copy_ok_def sync_start_def)
next
  case (snoc e es)
  then show ?case by (simp add: copy_ok_step [OF assms(1,2)])
qed

section \<open>Properties\<close>

text \<open>C23: After a pass whose report was accepted, the server's row of each skill on the disk, save those removed in the pass,
  holds the hash of its marker file, and its text exactly if the scan read it whole and the server stores it (at most 65536 bytes
  of UTF-8, no NUL); and the server holds the bundled skills as it bounds them. So it is although a text or a bundled set is sent
  only where no accepted report told its hash, whatever earlier passes failed, whatever was installed, removed and put back, and
  whatever rows of skills that a report does not list or lists as removed the server deletes: provided that the marker files' digests
  differ and are plain, that names have no white space around them, that no report was taken without its answer coming back, and
  that no operator had a row forgotten.\<close>

theorem server_mirrors_skills:
  assumes "digests_tell H files" and "inj key" and "list_all (undisturbed H files) es"
    and "plain_pass H files p" and "applied_in p = Some applied" and "sp_accepted p"
  shows "list_all (\<lambda>s. sk_slug s \<in> set (removed_slugs applied) \<or>
            sv_skills (copy_after H key (es @ [SyncPass p taken keeps])) (sk_slug s) = Some (md_row (sk_md s)))
          (sr_skills (skills_on_disk H p)) \<and>
    sv_bundled (copy_after H key (es @ [SyncPass p taken keeps])) =
      (case bundled_in H p of Some b \<Rightarrow> Some (bundled_rows b) | None \<Rightarrow> sv_bundled (copy_after H key es))"
proof -
  obtain rep S where before: "run (sync_step H key) sync_start es = (rep, S)" by (cases "run (sync_step H key) sync_start es")
  have ok: "copy_ok H key files (rep, S)" using copy_ok_run [OF assms(1-3)] by (simp add: before)
  obtain r where r: "sync_report H key p rep = Some r" and applied: "rr_applied r = applied"
    using assms(5) by (simp add: sync_report_def)
  have after: "copy_after H key (es @ [SyncPass p taken keeps]) = server_takes keeps r S" and old: "copy_after H key es = S"
    using r assms(6) by (simp_all add: copy_after_def before)
  from server_has_skill [OF ok assms(1,4) r, of _ keeps] server_has_bundled [OF ok assms(2) r, of keeps] show ?thesis
    unfolding after old list_all_iff by (auto simp: applied)
qed

text \<open>Two passes over the demonstration disk, with a text in one of the marker files.\<close>

definition sync_demo_disk :: disk_view where
  "sync_demo_disk = shelf_disk\<lparr>v_isdir := (\<lambda>p. p \<in> {''/a/skills'', ''/lib''}),
     v_isfile := (\<lambda>p. p \<in> {''/a/skills/notes/SKILL.md'', ''/lib/web/SKILL.md''}),
     v_list := (\<lambda>p. if p = ''/a/skills'' then Some [(''notes'', EntryDir)] else if p = ''/lib'' then Some [(''web'', EntryDir)] else None),
     v_read := (\<lambda>p. if p = ''/a/skills/notes/SKILL.md'' then Some ''hi'' else None)\<rparr>"

definition sync_demo_pass :: sync_pass where
  "sync_demo_pass = \<lparr>sp_paused = Some False, sp_applied = Some [], sp_disk = sync_demo_disk,
     sp_env = \<lparr>se_home = ''/h'', se_state_dir = None, se_openclaw_home = None, se_bundled = Some ''/lib''\<rparr>,
     sp_workspace = Some ''/a'', sp_entry = None, sp_realpath = (\<lambda>_. None), sp_accepted = True\<rparr>"

fun coded_string :: "string \<Rightarrow> string" where
  "coded_string [] = ''.''"
| "coded_string (c # s) = CHR ''x'' # c # coded_string s"

fun coded_option :: "string option \<Rightarrow> string" where
  "coded_option None = ''n''"
| "coded_option (Some s) = CHR ''y'' # coded_string s"

fun coded_bundled :: "bundled_set \<Rightarrow> string" where
  "coded_bundled [] = []"
| "coded_bundled ((s, d) # b) = coded_string s @ coded_option d @ coded_bundled b"

lemma coded_string_inj: "coded_string s @ u = coded_string t @ v \<longleftrightarrow> s = t \<and> u = v"
proof (induction s arbitrary: t)
  case Nil
  then show ?case by (cases t) simp_all
next
  case (Cons c s)
  then show ?case by (cases t) simp_all
qed

lemma coded_option_inj: "coded_option d @ u = coded_option e @ v \<longleftrightarrow> d = e \<and> u = v"
  by (cases d; cases e) (simp_all add: coded_string_inj)

lemma coded_string_nonempty [simp]: "coded_string s \<noteq> []"
  by (cases s) simp_all

lemma coded_bundled_inj: "coded_bundled b = coded_bundled c \<longleftrightarrow> b = c"
proof (induction b c rule: list_induct2')
  case (4 e b f c)
  show ?case
    by (cases e; cases f) (simp only: coded_bundled.simps coded_string_inj coded_option_inj 4 list.inject prod.inject conj_assoc)
qed auto

lemma demo_plain: "digests_tell shelf_host {''hi''}" "inj coded_bundled" "plain_pass shelf_host {''hi''} sync_demo_pass"
  "applied_in sync_demo_pass = Some []" "sp_accepted sync_demo_pass"
proof -
  show "digests_tell shelf_host {''hi''}"
    by (simp add: digests_tell_def) code_simp
  show "inj coded_bundled" by (simp add: inj_def coded_bundled_inj)
  have "list_all (\<lambda>s. plain_slug (sk_slug s)) (sr_skills (skills_on_disk shelf_host sync_demo_pass))" by code_simp
  then show "plain_pass shelf_host {''hi''} sync_demo_pass"
    by (simp add: plain_pass_def) (simp add: sync_demo_pass_def sync_demo_disk_def applied_in_def)
qed (simp_all add: applied_in_def sync_demo_pass_def)

theorem server_mirrors_skills_witness:
  "sv_skills (copy_after shelf_host coded_bundled ([SyncPass sync_demo_pass False (\<lambda>_. False)] @ [SyncPass sync_demo_pass False (\<lambda>_. True)])) ''notes''
     = Some \<lparr>ro_content_hash = Some ''sha256:hi'', ro_skill_md = Some ''hi''\<rparr> \<and>
   sv_bundled (copy_after shelf_host coded_bundled ([SyncPass sync_demo_pass False (\<lambda>_. False)] @ [SyncPass sync_demo_pass False (\<lambda>_. True)]))
     = Some [(''web'', None)]"
proof -
  have skills: "map (\<lambda>s. (sk_slug s, md_row (sk_md s))) (sr_skills (skills_on_disk shelf_host sync_demo_pass))
      = [(''notes'', \<lparr>ro_content_hash = Some ''sha256:hi'', ro_skill_md = Some ''hi''\<rparr>)]" by code_simp
  have bundled: "map_option bundled_rows (bundled_in shelf_host sync_demo_pass) = Some [(''web'', None)]" by code_simp
  then obtain b where b: "bundled_in shelf_host sync_demo_pass = Some b" "bundled_rows b = [(''web'', None)]" by blast
  from skills obtain s where s: "sr_skills (skills_on_disk shelf_host sync_demo_pass) = [s]"
      "sk_slug s = ''notes''" "md_row (sk_md s) = \<lparr>ro_content_hash = Some ''sha256:hi'', ro_skill_md = Some ''hi''\<rparr>"
    by (auto simp only: map_eq_Cons_conv map_is_Nil_conv prod.inject)
  have calm: "list_all (undisturbed shelf_host {''hi''}) [SyncPass sync_demo_pass False (\<lambda>_. False)]"
    by (simp add: demo_plain)
  show ?thesis
    using server_mirrors_skills [OF demo_plain(1,2) calm demo_plain(3-5), of False "\<lambda>_. True"]
    by (simp only: b s list_all_iff ball_simps removed_slugs_def list.map filter.simps list.set empty_iff simp_thms option.simps)
qed

text \<open>
  The last two provisos are needed. A row that an operator has forgotten comes back with the next report, but without
  its text; and when a report was taken without its answer, a file put back as it was before loses its text.
\<close>

definition changed_demo_pass :: sync_pass where
  "changed_demo_pass = sync_demo_pass\<lparr>sp_disk := sync_demo_disk\<lparr>v_read :=
     (\<lambda>p. if p = ''/a/skills/notes/SKILL.md'' then Some ''ho'' else None)\<rparr>, sp_accepted := False\<rparr>"

theorem forgotten_row_keeps_no_text:
  "sv_skills (copy_after shelf_host coded_bundled
      [SyncPass sync_demo_pass False (\<lambda>_. True), RowForgotten ''notes'', SyncPass sync_demo_pass False (\<lambda>_. True)]) ''notes''
     = Some \<lparr>ro_content_hash = Some ''sha256:hi'', ro_skill_md = None\<rparr>"
  by code_simp

theorem lost_answer_loses_text:
  "sv_skills (copy_after shelf_host coded_bundled
      [SyncPass sync_demo_pass False (\<lambda>_. True), SyncPass changed_demo_pass True (\<lambda>_. True),
       SyncPass sync_demo_pass False (\<lambda>_. True)]) ''notes''
     = Some \<lparr>ro_content_hash = Some ''sha256:hi'', ro_skill_md = None\<rparr>"
  by code_simp

end
