(* ===== verification/Channel_Posts.thy ===== *)
theory Channel_Posts
  imports Js_Values
begin

text \<open>
  The posts of an open channel in the web client (\<open>frontend/src/hooks/useChannelEvents.ts\<close>): the cached page of posts,
  the updates that wait for the next flush, and what each event of the channel's stream does to both. A post is the object the
  server sent, as its entries; \<open>parse\<close> reads a timestamp, \<open>None\<close> where it is none. The cache is shared: the answer of a refetch
  replaces the page, and so do the writes of the page itself (\<open>pages/ChannelPage.tsx\<close>, \<open>hooks/usePinnedPosts.ts\<close>: sends, edits,
  reactions, pins and their rollbacks), which are events with the page they leave.
\<close>

section \<open>Posts\<close>

type_synonym web_post = "(string, jsval) jsmap"

definition prop_of :: "web_post \<Rightarrow> string \<Rightarrow> jsval" where
  "prop_of p k = (case mget p k of Some v \<Rightarrow> v | None \<Rightarrow> JUndef)"

definition post_id :: "web_post \<Rightarrow> rat" where
  "post_id p = (case as_finite (prop_of p ''post_id'') of Some q \<Rightarrow> q | None \<Rightarrow> 0)"

definition time_of :: "(string \<Rightarrow> rat option) \<Rightarrow> jsval \<Rightarrow> rat" where
  "time_of parse v = (case as_str v of
      Some (c # s) \<Rightarrow> (case parse (c # s) of Some t \<Rightarrow> t | None \<Rightarrow> 0)
    | _ \<Rightarrow> 0)"

definition versionOf :: "(string \<Rightarrow> rat option) \<Rightarrow> web_post \<Rightarrow> rat" where
  "versionOf parse p =
     max (time_of parse (prop_of p ''created_at''))
       (max (time_of parse (prop_of p ''updated_at'')) (time_of parse (prop_of p ''edited_at'')))"

definition ui_rev :: "web_post \<Rightarrow> rat" where
  "ui_rev p = (case as_finite (jget (prop_of p ''ui'') ''rev'') of Some r \<Rightarrow> r | None \<Rightarrow> -1)"

text \<open>\<open>{ ...a, ...b }\<close>\<close>

definition spread_post :: "web_post \<Rightarrow> web_post \<Rightarrow> web_post" where
  "spread_post a b = foldl (\<lambda>m k. mset_key k (prop_of b k) m) a (mkeys b)"

definition patched_post :: "web_post \<Rightarrow> web_post \<Rightarrow> web_post" where
  "patched_post existing patch =
     mset_key ''ui'' (prop_of (if ui_rev patch < ui_rev existing then existing else patch) ''ui'') (spread_post existing patch)"

section \<open>The cache\<close>

record post_page =
  pg_posts :: "web_post list"
  pg_total :: int

record channel_posts =
  page :: "post_page option"
  waiting :: "(rat, web_post) jsmap"
  refetching :: bool
  reconnected :: bool

text \<open>A row that stands for the reply an agent is about to write.\<close>

definition placeholder_of :: "web_post \<Rightarrow> web_post \<Rightarrow> bool" where
  "placeholder_of patch p =
     (truthy (prop_of patch ''agent_id'') \<and> post_id p < 0 \<and> prop_of p ''status'' = JStr ''streaming'' \<and>
      prop_of p ''agent_id'' = prop_of patch ''agent_id'')"

fun change_first :: "('a \<Rightarrow> bool) \<Rightarrow> ('a \<Rightarrow> 'a) \<Rightarrow> 'a list \<Rightarrow> 'a list" where
  "change_first P f [] = []"
| "change_first P f (x # xs) = (if P x then f x # xs else x # change_first P f xs)"

record flushing =
  fl_posts :: "web_post list"
  fl_delta :: int
  fl_moved :: bool

definition flush_one :: "(string \<Rightarrow> rat option) \<Rightarrow> flushing \<Rightarrow> web_post \<Rightarrow> flushing" where
  "flush_one parse s patch =
     (let kept = filter (\<lambda>p. \<not> placeholder_of patch p) (fl_posts s);
          gone = int (length (fl_posts s)) - int (length kept);
          s1 = \<lparr>fl_posts = kept, fl_delta = fl_delta s - gone, fl_moved = (fl_moved s \<or> gone \<noteq> 0)\<rparr>
      in case List.find (\<lambda>p. post_id p = post_id patch) kept of
           None \<Rightarrow> (if 0 \<le> post_id patch
             then s1\<lparr>fl_posts := patch # kept, fl_delta := fl_delta s1 + 1, fl_moved := True\<rparr> else s1)
         | Some existing \<Rightarrow>
             (if versionOf parse existing \<le> versionOf parse patch
              then s1\<lparr>fl_posts := change_first (\<lambda>p. post_id p = post_id patch) (\<lambda>p. patched_post p patch) kept, fl_moved := True\<rparr>
              else s1))"

definition flush_page :: "(string \<Rightarrow> rat option) \<Rightarrow> web_post list \<Rightarrow> post_page option \<Rightarrow> post_page option" where
  "flush_page parse patches g = (case g of
      None \<Rightarrow> (let fresh = filter (\<lambda>p. 0 < post_id p) patches in
        if fresh = [] then None else Some \<lparr>pg_posts = fresh, pg_total = int (length fresh)\<rparr>)
    | Some g \<Rightarrow> (let s = foldl (flush_one parse) \<lparr>fl_posts = pg_posts g, fl_delta = 0, fl_moved = False\<rparr> patches in
        Some (if fl_moved s then \<lparr>pg_posts = fl_posts s, pg_total = max 0 (pg_total g + fl_delta s)\<rparr> else g)))"

definition flushPostUpdates :: "(string \<Rightarrow> rat option) \<Rightarrow> channel_posts \<Rightarrow> channel_posts" where
  "flushPostUpdates parse s =
     (if waiting s = [] then s
      else s\<lparr>waiting := [], page := flush_page parse (map snd (waiting s)) (page s)\<rparr>)"

text \<open>The row a sent message holds until the server's post arrives.\<close>

definition optimistic_for :: "web_post \<Rightarrow> web_post \<Rightarrow> bool" where
  "optimistic_for post p =
     (truthy (prop_of post ''client_msg_uuid'') \<and> prop_of p ''client_msg_uuid'' = prop_of post ''client_msg_uuid'' \<and> post_id p < 0)"

definition create_post :: "(string \<Rightarrow> rat option) \<Rightarrow> web_post \<Rightarrow> post_page option \<Rightarrow> post_page" where
  "create_post parse post g = (case g of
      None \<Rightarrow> \<lparr>pg_posts = [post], pg_total = 1\<rparr>
    | Some g \<Rightarrow>
       (if list_ex (optimistic_for post) (pg_posts g)
        then g\<lparr>pg_posts := change_first (optimistic_for post) (\<lambda>p. patched_post p post) (pg_posts g)\<rparr>
        else (case List.find (\<lambda>p. post_id p = post_id post) (pg_posts g) of
            Some existing \<Rightarrow>
              if versionOf parse post < versionOf parse existing then g
              else g\<lparr>pg_posts := change_first (\<lambda>p. post_id p = post_id post) (\<lambda>p. patched_post p post) (pg_posts g)\<rparr>
          | None \<Rightarrow>
             (let kept = filter (\<lambda>p. \<not> placeholder_of post p) (pg_posts g) in
              \<lparr>pg_posts = post # kept, pg_total = pg_total g + 1 - (int (length (pg_posts g)) - int (length kept))\<rparr>))))"

definition queue_update :: "(string \<Rightarrow> rat option) \<Rightarrow> web_post \<Rightarrow> channel_posts \<Rightarrow> channel_posts" where
  "queue_update parse post s =
     (case mget (waiting s) (post_id post) of
        None \<Rightarrow> s\<lparr>waiting := mset_key (post_id post) post (waiting s)\<rparr>
      | Some pending \<Rightarrow>
          if versionOf parse pending \<le> versionOf parse post
          then s\<lparr>waiting := mset_key (post_id post) (patched_post pending post) (waiting s)\<rparr> else s)"

definition delete_post :: "rat \<Rightarrow> post_page option \<Rightarrow> post_page option" where
  "delete_post i g = map_option (\<lambda>g. let posts = filter (\<lambda>p. post_id p \<noteq> i) (pg_posts g) in
     if length posts \<noteq> length (pg_posts g) then \<lparr>pg_posts = posts, pg_total = pg_total g - 1\<rparr> else g) g"

text \<open>What the page shows or will show of a post.\<close>

definition cached_post :: "channel_posts \<Rightarrow> rat \<Rightarrow> web_post option" where
  "cached_post s i = Option.bind (page s) (\<lambda>g. List.find (\<lambda>p. post_id p = i) (pg_posts g))"

definition known_post :: "channel_posts \<Rightarrow> rat \<Rightarrow> web_post option" where
  "known_post s i = (case mget (waiting s) i of Some p \<Rightarrow> Some p | None \<Rightarrow> cached_post s i)"

datatype channel_event =
    PostCreated web_post | PostUpdated web_post | PostDeleted rat | FlushDue
  | PresenceSnapshot | PostsAnswered post_page | PageWritten "post_page option"

definition hidden_status :: "web_post \<Rightarrow> bool" where
  "hidden_status p = (prop_of p ''status'' = JStr ''draft'' \<or> prop_of p ''status'' = JStr ''rejected'')"

text \<open>A reply that is published while its draft was streaming is shown at once.\<close>

definition reply_published :: "channel_posts \<Rightarrow> web_post \<Rightarrow> bool" where
  "reply_published s p =
     (prop_of p ''agent_id'' \<noteq> JNull \<and> prop_of p ''status'' = JStr ''published'' \<and>
      (case known_post s (post_id p) of Some k \<Rightarrow> prop_of k ''status'' = JStr ''streaming'' | None \<Rightarrow> False))"

fun on_post_event :: "(string \<Rightarrow> rat option) \<Rightarrow> channel_posts \<Rightarrow> channel_event \<Rightarrow> channel_posts" where
  "on_post_event parse s (PostCreated p) =
     (if hidden_status p then s\<lparr>refetching := True\<rparr>
      else let s1 = s\<lparr>page := Some (create_post parse p (page s))\<rparr> in
        if reply_published s p then flushPostUpdates parse s1 else s1)"
| "on_post_event parse s (PostUpdated p) =
     (if hidden_status p then s\<lparr>refetching := True\<rparr>
      else let s1 = queue_update parse p s in if reply_published s p then flushPostUpdates parse s1 else s1)"
| "on_post_event parse s (PostDeleted i) = s\<lparr>page := delete_post i (page s)\<rparr>"
| "on_post_event parse s FlushDue = flushPostUpdates parse s"
| "on_post_event parse s PresenceSnapshot = s\<lparr>refetching := (refetching s \<or> reconnected s), reconnected := True\<rparr>"
| "on_post_event parse s (PostsAnswered g) = s\<lparr>page := Some g, refetching := False\<rparr>"
| "on_post_event parse s (PageWritten g) = s\<lparr>page := g\<rparr>"

section \<open>A post never goes back\<close>

lemma mget_copied: "mget (foldl (\<lambda>m k. mset_key k (f k) m) m ks) k = (if k \<in> set ks then Some (f k) else mget m k)"
  by (induction ks arbitrary: m) auto

lemma prop_of_spread: "prop_of (spread_post a b) k = (if k \<in> set (mkeys b) then prop_of b k else prop_of a k)"
  by (simp add: prop_of_def spread_post_def mget_copied)

lemma prop_of_absent: "k \<notin> set (mkeys p) \<Longrightarrow> prop_of p k = JUndef"
  by (simp add: prop_of_def mget_None_iff [symmetric])

lemma prop_of_patched:
  "k \<noteq> ''ui'' \<Longrightarrow> prop_of (patched_post e p) k = (if k \<in> set (mkeys p) then prop_of p k else prop_of e k)"
  using prop_of_spread [of e p k] by (simp add: patched_post_def prop_of_def)

lemma ui_rev_patched [simp]: "ui_rev (patched_post e p) = max (ui_rev e) (ui_rev p)"
  by (auto simp: ui_rev_def patched_post_def prop_of_def)

lemma post_id_patched: "post_id (patched_post e p) = post_id p \<or> post_id (patched_post e p) = post_id e \<and> post_id p = 0"
  by (auto simp: post_id_def prop_of_patched prop_of_absent)

lemma post_id_patched_same [simp]: "post_id e = post_id p \<Longrightarrow> post_id (patched_post e p) = post_id p"
  using post_id_patched [of e p] by auto

text \<open>Timestamps since the epoch: the version of a merged post is at least the patch's.\<close>

definition since_epoch :: "(string \<Rightarrow> rat option) \<Rightarrow> bool" where
  "since_epoch parse = (\<forall>s t. parse s = Some t \<longrightarrow> 0 \<le> t)"

lemma time_of_nonneg: "since_epoch parse \<Longrightarrow> 0 \<le> time_of parse v"
  by (auto simp: since_epoch_def time_of_def split: option.splits list.splits)

lemma time_of_undef [simp]: "time_of parse JUndef = 0"
  by (simp add: time_of_def)

lemma time_of_patched:
  "since_epoch parse \<Longrightarrow> k \<noteq> ''ui'' \<Longrightarrow> time_of parse (prop_of p k) \<le> time_of parse (prop_of (patched_post e p) k)"
  by (simp add: prop_of_patched prop_of_absent time_of_nonneg)

lemma versionOf_patched: "since_epoch parse \<Longrightarrow> versionOf parse p \<le> versionOf parse (patched_post e p)"
  unfolding versionOf_def by (intro max.mono time_of_patched) simp_all

definition newer :: "(string \<Rightarrow> rat option) \<Rightarrow> web_post \<Rightarrow> web_post \<Rightarrow> bool" where
  "newer parse p q = (versionOf parse p \<le> versionOf parse q \<and> ui_rev p \<le> ui_rev q)"

lemma newer_refl [simp]: "newer parse p p"
  by (simp add: newer_def)

lemma newer_trans: "newer parse p q \<Longrightarrow> newer parse q r \<Longrightarrow> newer parse p r"
  by (auto simp: newer_def)

lemma newer_patched:
  "since_epoch parse \<Longrightarrow> versionOf parse e \<le> versionOf parse p \<Longrightarrow> newer parse e (patched_post e p) \<and> newer parse p (patched_post e p)"
  using versionOf_patched [of parse p e] by (auto simp: newer_def)

text \<open>Looking a post up in a list after each of the changes.\<close>

definition seen :: "rat \<Rightarrow> web_post list \<Rightarrow> web_post option" where
  "seen i ps = List.find (\<lambda>p. post_id p = i) ps"

lemma seen_simps [simp]: "seen i [] = None" "seen i (p # ps) = (if post_id p = i then Some p else seen i ps)"
  by (simp_all add: seen_def)

lemma seen_id: "seen i ps = Some p \<Longrightarrow> post_id p = i \<and> p \<in> set ps"
  unfolding seen_def by (drule find_SomeD) simp

lemma seen_filter: "(\<And>p. post_id p = i \<Longrightarrow> P p) \<Longrightarrow> seen i (filter P ps) = seen i ps"
  by (induction ps) auto

lemma seen_change_same:
  "(\<And>p. post_id p = i \<Longrightarrow> post_id (f p) = i) \<Longrightarrow>
   seen i (change_first (\<lambda>p. post_id p = i) f ps) = map_option f (seen i ps)"
  by (induction ps) auto

lemma seen_change_other:
  "(\<And>p. P p \<Longrightarrow> post_id p \<noteq> i \<and> post_id (f p) \<noteq> i) \<Longrightarrow> seen i (change_first P f ps) = seen i ps"
  by (induction ps) auto

lemma placeholder_negative: "placeholder_of patch p \<Longrightarrow> post_id p < 0"
  by (simp add: placeholder_of_def)

lemma seen_kept: "0 < i \<Longrightarrow> seen i (filter (\<lambda>p. \<not> placeholder_of patch p) ps) = seen i ps"
  by (rule seen_filter) (auto dest: placeholder_negative)

text \<open>What a patch does to the post it is for, and to any other.\<close>

definition take_patch :: "(string \<Rightarrow> rat option) \<Rightarrow> web_post \<Rightarrow> web_post option \<Rightarrow> web_post option" where
  "take_patch parse patch old = (case old of
      None \<Rightarrow> Some patch
    | Some e \<Rightarrow> Some (if versionOf parse e \<le> versionOf parse patch then patched_post e patch else e))"

lemma flush_one_seen:
  assumes i: "0 < i"
  shows "seen i (fl_posts (flush_one parse s patch)) =
    (if post_id patch = i then take_patch parse patch (seen i (fl_posts s)) else seen i (fl_posts s))"
proof -
  let ?kept = "filter (\<lambda>p. \<not> placeholder_of patch p) (fl_posts s)"
  have kept: "seen i ?kept = seen i (fl_posts s)" using i by (rule seen_kept)
  show ?thesis
  proof (cases "seen (post_id patch) ?kept")
    case None
    then have "fl_posts (flush_one parse s patch) = (if 0 \<le> post_id patch then patch # ?kept else ?kept)"
      by (simp add: flush_one_def seen_def Let_def)
    then show ?thesis using kept None i by (auto simp: take_patch_def)
  next
    case (Some e)
    then have posts: "fl_posts (flush_one parse s patch) =
        (if versionOf parse e \<le> versionOf parse patch
         then change_first (\<lambda>p. post_id p = post_id patch) (\<lambda>p. patched_post p patch) ?kept else ?kept)"
      by (simp add: flush_one_def seen_def Let_def)
    show ?thesis
    proof (cases "post_id patch = i")
      case True
      then show ?thesis using kept Some seen_change_same [of i "\<lambda>p. patched_post p patch" ?kept]
        by (simp add: posts take_patch_def)
    next
      case False
      then have "seen i (change_first (\<lambda>p. post_id p = post_id patch) (\<lambda>p. patched_post p patch) ?kept) = seen i ?kept"
        by (intro seen_change_other) auto
      then show ?thesis using kept False by (simp add: posts)
    qed
  qed
qed

lemma take_patch_newer:
  "since_epoch parse \<Longrightarrow> old = Some p \<Longrightarrow> \<exists>q. take_patch parse patch old = Some q \<and> newer parse p q"
  by (auto simp: take_patch_def newer_patched)

lemma take_patch_version:
  "since_epoch parse \<Longrightarrow> \<exists>q. take_patch parse patch old = Some q \<and> versionOf parse patch \<le> versionOf parse q"
  by (cases old) (auto simp: take_patch_def versionOf_patched)

lemma flush_newer:
  assumes "since_epoch parse" and "0 < i"
  shows "seen i (fl_posts s) = Some p \<Longrightarrow>
    \<exists>q. seen i (fl_posts (foldl (flush_one parse) s patches)) = Some q \<and> newer parse p q"
proof (induction patches arbitrary: s p)
  case (Cons patch patches)
  have "\<exists>q. seen i (fl_posts (flush_one parse s patch)) = Some q \<and> newer parse p q"
    using flush_one_seen [OF assms(2), of parse s patch] take_patch_newer [OF assms(1) Cons.prems, of patch] Cons.prems by auto
  then show ?case using Cons.IH [of "flush_one parse s patch"] newer_trans by fastforce
qed simp

lemma flush_version:
  assumes "since_epoch parse" and "0 < i" and "w \<in> set patches" and "post_id w = i"
  shows "\<exists>q. seen i (fl_posts (foldl (flush_one parse) s patches)) = Some q \<and> versionOf parse w \<le> versionOf parse q"
proof -
  obtain us vs where patches: "patches = us @ w # vs" using assms(3) by (meson split_list)
  let ?s = "foldl (flush_one parse) s us"
  obtain q where "seen i (fl_posts (flush_one parse ?s w)) = Some q" "versionOf parse w \<le> versionOf parse q"
    using flush_one_seen [OF assms(2), of parse ?s w] take_patch_version [OF assms(1), of w "seen i (fl_posts ?s)"] assms(4)
    by auto
  with flush_newer [OF assms(1,2), of "flush_one parse ?s w" q vs] show ?thesis
    by (auto simp: patches newer_def intro: order_trans)
qed

lemma filter_whole: "length (filter P xs) = length xs \<Longrightarrow> filter P xs = xs"
  using length_filter_less [of _ xs P] by (intro filter_True) fastforce

lemma flush_one_unmoved:
  assumes "\<not> fl_moved (flush_one parse s patch)"
  shows "fl_posts (flush_one parse s patch) = fl_posts s \<and> \<not> fl_moved s"
proof -
  let ?kept = "filter (\<lambda>p. \<not> placeholder_of patch p) (fl_posts s)"
  have "\<not> fl_moved s \<and> length ?kept = length (fl_posts s) \<and> fl_posts (flush_one parse s patch) = ?kept"
  proof (cases "List.find (\<lambda>p. post_id p = post_id patch) ?kept")
    case None
    with assms show ?thesis by (simp add: flush_one_def Let_def split: if_splits)
  next
    case (Some e)
    with assms show ?thesis by (simp add: flush_one_def Let_def split: if_splits)
  qed
  then show ?thesis using filter_whole by metis
qed

lemma flush_unmoved:
  "\<not> fl_moved (foldl (flush_one parse) s patches) \<Longrightarrow> fl_posts (foldl (flush_one parse) s patches) = fl_posts s \<and> \<not> fl_moved s"
proof (induction patches arbitrary: s)
  case (Cons patch patches)
  then have "\<not> fl_moved (flush_one parse s patch)" and "fl_posts (foldl (flush_one parse) s (patch # patches)) = fl_posts (flush_one parse s patch)"
    by auto
  with flush_one_unmoved [of parse s patch] show ?case by simp
qed simp

definition page_seen :: "rat \<Rightarrow> post_page option \<Rightarrow> web_post option" where
  "page_seen i g = Option.bind g (\<lambda>g. seen i (pg_posts g))"

lemma page_seen_simps [simp]: "page_seen i None = None" "page_seen i (Some g) = seen i (pg_posts g)"
  by (simp_all add: page_seen_def)

lemma cached_post_page: "cached_post s i = page_seen i (page s)"
  by (simp add: cached_post_def page_seen_def seen_def)

lemma cached_frame [simp]:
  "cached_post (s\<lparr>refetching := b\<rparr>) i = cached_post s i" "cached_post (s\<lparr>refetching := b, reconnected := c\<rparr>) i = cached_post s i"
  by (simp_all add: cached_post_def)

lemma page_seen_flush:
  "page_seen i (flush_page parse patches (Some g)) =
   seen i (fl_posts (foldl (flush_one parse) \<lparr>fl_posts = pg_posts g, fl_delta = 0, fl_moved = False\<rparr> patches))"
  using flush_unmoved [of parse "\<lparr>fl_posts = pg_posts g, fl_delta = 0, fl_moved = False\<rparr>" patches]
  by (auto simp: page_seen_def flush_page_def Let_def)

lemma page_flush_newer:
  "since_epoch parse \<Longrightarrow> 0 < i \<Longrightarrow> page_seen i g = Some p \<Longrightarrow>
   \<exists>q. page_seen i (flush_page parse patches g) = Some q \<and> newer parse p q"
  by (cases g) (simp_all add: page_seen_flush flush_newer)

lemma flushPostUpdates_newer:
  "since_epoch parse \<Longrightarrow> 0 < i \<Longrightarrow> cached_post s i = Some p \<Longrightarrow>
   \<exists>q. cached_post (flushPostUpdates parse s) i = Some q \<and> newer parse p q"
  unfolding flushPostUpdates_def cached_post_page
  using page_flush_newer [of parse i "page s" p "map snd (waiting s)"] by (cases "waiting s = []") auto

text \<open>
  The discipline on the news of post \<open>i\<close>: no other news of a post comes before its own event while its sender's row awaits it, and a
  page that is put in place of the one shown holds the post if it is shown, no older.
\<close>

definition fresh_page :: "(string \<Rightarrow> rat option) \<Rightarrow> rat \<Rightarrow> channel_posts \<Rightarrow> post_page option \<Rightarrow> bool" where
  "fresh_page parse i s g =
     (case cached_post s i of None \<Rightarrow> True | Some p \<Rightarrow> (case page_seen i g of Some q \<Rightarrow> newer parse p q | None \<Rightarrow> False))"

fun arrives_once :: "(string \<Rightarrow> rat option) \<Rightarrow> rat \<Rightarrow> channel_posts \<Rightarrow> channel_event \<Rightarrow> bool" where
  "arrives_once parse i s (PostCreated p) =
     (case page s of None \<Rightarrow> True
      | Some g \<Rightarrow> \<not> (list_ex (optimistic_for p) (pg_posts g) \<and> seen (post_id p) (pg_posts g) \<noteq> None))"
| "arrives_once parse i s (PostsAnswered g) = fresh_page parse i s (Some g)"
| "arrives_once parse i s (PageWritten g) = fresh_page parse i s g"
| "arrives_once parse i s _ = True"

lemma fresh_pageD: "fresh_page parse i s g \<Longrightarrow> cached_post s i = Some p \<Longrightarrow> \<exists>q. page_seen i g = Some q \<and> newer parse p q"
  by (auto simp: fresh_page_def split: option.splits)

lemma optimistic_negative: "optimistic_for post p \<Longrightarrow> post_id p < 0"
  by (simp add: optimistic_for_def)

lemma seen_change_optimistic:
  "0 < i \<Longrightarrow> post_id post \<noteq> i \<Longrightarrow>
   seen i (change_first (optimistic_for post) (\<lambda>p. patched_post p post) ps) = seen i ps"
proof (rule seen_change_other)
  fix p assume "0 < i" "post_id post \<noteq> i" "optimistic_for post p"
  then show "post_id p \<noteq> i \<and> post_id (patched_post p post) \<noteq> i"
    using post_id_patched [of p post] optimistic_negative [of post p] by auto
qed

lemma page_seen_create_other:
  assumes i: "0 < i" and other: "post_id post \<noteq> i"
  shows "page_seen i (Some (create_post parse post g)) = page_seen i g"
proof (cases g)
  case None
  then show ?thesis using other by (simp add: create_post_def)
next
  case (Some h)
  have "seen i (change_first (\<lambda>p. post_id p = post_id post) (\<lambda>p. patched_post p post) (pg_posts h)) = seen i (pg_posts h)"
    using other by (intro seen_change_other) auto
  with Some show ?thesis using other seen_change_optimistic [OF i other] seen_kept [OF i]
    by (simp add: create_post_def Let_def split: option.split)
qed

lemma page_seen_create:
  assumes i: "0 < post_id post"
    and once: "\<not> (list_ex (optimistic_for post) (pg_posts h) \<and> seen (post_id post) (pg_posts h) \<noteq> None)"
  shows "seen (post_id post) (pg_posts (create_post parse post (Some h))) =
    take_patch parse post (seen (post_id post) (pg_posts h)) \<or> seen (post_id post) (pg_posts h) = None"
proof (cases "seen (post_id post) (pg_posts h)")
  case (Some e)
  with once have "\<not> list_ex (optimistic_for post) (pg_posts h)" by simp
  then have "pg_posts (create_post parse post (Some h)) =
      (if versionOf parse post < versionOf parse e then pg_posts h
       else change_first (\<lambda>p. post_id p = post_id post) (\<lambda>p. patched_post p post) (pg_posts h))"
    using Some by (simp add: create_post_def seen_def)
  then show ?thesis
    using Some seen_change_same [of "post_id post" "\<lambda>p. patched_post p post" "pg_posts h"] by (simp add: take_patch_def not_less)
qed simp

lemma create_newer:
  assumes "since_epoch parse" and "0 < i" and once: "arrives_once parse i s (PostCreated post)" and "page_seen i (page s) = Some p"
  shows "\<exists>q. page_seen i (Some (create_post parse post (page s))) = Some q \<and> newer parse p q"
proof (cases "post_id post = i")
  case False
  with assms(4) page_seen_create_other [OF assms(2) False] show ?thesis by simp
next
  case True
  obtain h where h: "page s = Some h" using assms(4) by (cases "page s") auto
  have "seen i (pg_posts (create_post parse post (Some h))) = take_patch parse post (seen i (pg_posts h))"
    using page_seen_create [of post h parse] once assms(2,4) True by (auto simp: h)
  with take_patch_newer [OF assms(1), of "seen i (pg_posts h)" p post] assms(4) show ?thesis by (simp add: h)
qed

lemma page_queue [simp]: "page (queue_update parse p s) = page s"
  by (simp add: queue_update_def split: option.split)

lemma page_seen_delete: "j \<noteq> i \<Longrightarrow> page_seen i (delete_post j g) = page_seen i g"
  by (cases g) (auto simp: delete_post_def Let_def seen_filter)

lemma event_newer:
  assumes epoch: "since_epoch parse" and i: "0 < i" and once: "arrives_once parse i s e"
    and p: "cached_post s i = Some p" and here: "e \<noteq> PostDeleted i"
  shows "\<exists>q. cached_post (on_post_event parse s e) i = Some q \<and> newer parse p q"
proof (cases e)
  case (PostCreated post)
  let ?s = "s\<lparr>page := Some (create_post parse post (page s))\<rparr>"
  obtain q where q: "cached_post ?s i = Some q" "newer parse p q"
    using create_newer [OF epoch i once [unfolded PostCreated]] p by (auto simp: cached_post_page)
  with flushPostUpdates_newer [OF epoch i q(1)] p show ?thesis
    by (auto simp: PostCreated Let_def intro: newer_trans)
next
  case (PostUpdated post)
  have "cached_post (queue_update parse post s) i = Some p" using p by (simp add: cached_post_page)
  with flushPostUpdates_newer [OF epoch i this] p show ?thesis by (auto simp: PostUpdated Let_def)
next
  case (PostDeleted j)
  with here p page_seen_delete [of j i "page s"] show ?thesis by (simp add: cached_post_page)
next
  case FlushDue
  with flushPostUpdates_newer [OF epoch i p] show ?thesis by simp
next
  case (PostsAnswered g)
  with once have "fresh_page parse i s (Some g)" by simp
  from fresh_pageD [OF this p] show ?thesis by (simp add: PostsAnswered cached_post_page)
next
  case (PageWritten g)
  with once have "fresh_page parse i s (g)" by simp
  from fresh_pageD [OF this p] show ?thesis by (simp add: PageWritten cached_post_page)
qed (use p in \<open>simp add: cached_post_page\<close>)

lemma run_newer:
  "since_epoch parse \<Longrightarrow> 0 < i \<Longrightarrow> obeys (arrives_once parse i) (on_post_event parse) s es \<Longrightarrow> PostDeleted i \<notin> set es \<Longrightarrow>
   cached_post s i = Some p \<Longrightarrow> \<exists>q. cached_post (run (on_post_event parse) s es) i = Some q \<and> newer parse p q"
proof (induction es arbitrary: s p)
  case (Cons e es)
  obtain q where q: "cached_post (on_post_event parse s e) i = Some q" "newer parse p q"
    using event_newer [OF Cons.prems(1,2) _ Cons.prems(5), of e] Cons.prems(3,4) by auto
  obtain r where "cached_post (run (on_post_event parse) (on_post_event parse s e) es) i = Some r" "newer parse q r"
    using Cons.IH [OF Cons.prems(1,2) _ _ q(1)] Cons.prems(3,4) by auto
  with q(2) newer_trans show ?case by auto
qed simp

section \<open>No update is lost\<close>

text \<open>Each waiting update is filed under the identifier of its post.\<close>

definition filed :: "channel_posts \<Rightarrow> bool" where
  "filed s = list_all (\<lambda>(k, w). post_id w = k) (waiting s)"

lemma filed_queue: "filed s \<Longrightarrow> filed (queue_update parse p s)"
proof -
  have set_key: "list_all (\<lambda>(k, w). post_id w = k) m \<Longrightarrow> post_id v = j \<Longrightarrow> list_all (\<lambda>(k, w). post_id w = k) (mset_key j v m)" for m j v
    by (induction m) auto
  assume s: "filed s"
  then have "post_id w = post_id p" if "mget (waiting s) (post_id p) = Some w" for w
    using mget_SomeD [OF that] by (auto simp: filed_def list_all_iff)
  with s set_key show ?thesis by (auto simp: filed_def queue_update_def split: option.split)
qed

lemma filed_event: "filed s \<Longrightarrow> filed (on_post_event parse s e)"
proof -
  have page: "filed (s\<lparr>page := g\<rparr>) = filed s" for s g by (simp add: filed_def)
  have flush: "filed s \<Longrightarrow> filed (flushPostUpdates parse s)" for s by (simp add: filed_def flushPostUpdates_def)
  have flags: "filed (s\<lparr>refetching := b\<rparr>) = filed s" "filed (s\<lparr>refetching := b, reconnected := c\<rparr>) = filed s"
    "filed (s\<lparr>page := g, refetching := b\<rparr>) = filed s" for s b c g by (simp_all add: filed_def)
  assume "filed s"
  then show ?thesis by (cases e) (simp_all add: Let_def page flush flags filed_queue)
qed

text \<open>The page shows version \<open>t\<close> of a post or a later one, or will after the next flush.\<close>

definition covered :: "(string \<Rightarrow> rat option) \<Rightarrow> rat \<Rightarrow> rat \<Rightarrow> channel_posts \<Rightarrow> bool" where
  "covered parse i t s =
     ((\<exists>w. mget (waiting s) i = Some w \<and> t \<le> versionOf parse w) \<or>
      (\<exists>q. cached_post s i = Some q \<and> t \<le> versionOf parse q))"

lemma covered_frame [simp]: "covered parse i t (s\<lparr>refetching := b\<rparr>) = covered parse i t s"
  by (simp add: covered_def)

lemma seen_waiting: "list_all (\<lambda>(k, w). post_id w = k) m \<Longrightarrow> seen i (map snd m) = mget m i"
  by (induction m) auto

lemma flush_covered:
  assumes epoch: "since_epoch parse" and i: "0 < i" and filed: "filed s" and c: "covered parse i t s"
  shows "\<exists>q. cached_post (flushPostUpdates parse s) i = Some q \<and> t \<le> versionOf parse q"
proof (cases "\<exists>q. cached_post s i = Some q \<and> t \<le> versionOf parse q")
  case True
  with flushPostUpdates_newer [OF epoch i] show ?thesis by (fastforce simp: newer_def)
next
  case False
  with c obtain w where w: "mget (waiting s) i = Some w" "t \<le> versionOf parse w" by (auto simp: covered_def)
  have seen: "seen i (map snd (waiting s)) = Some w" using filed w(1) by (simp add: filed_def seen_waiting)
  have nonempty: "waiting s \<noteq> []" using w(1) by auto
  show ?thesis
  proof (cases "page s")
    case None
    have fresh: "seen i (filter (\<lambda>p. 0 < post_id p) (map snd (waiting s))) = Some w"
      using seen_filter [of i "\<lambda>p. 0 < post_id p" "map snd (waiting s)"] i seen by simp
    then have "filter (\<lambda>p. 0 < post_id p) (map snd (waiting s)) \<noteq> []" by auto
    with fresh w(2) show ?thesis
      by (simp add: flushPostUpdates_def nonempty None flush_page_def cached_post_page Let_def)
  next
    case (Some g)
    obtain q where "page_seen i (flush_page parse (map snd (waiting s)) (Some g)) = Some q" "versionOf parse w \<le> versionOf parse q"
      using flush_version [OF epoch i, of w "map snd (waiting s)"] seen_id [OF seen] by (auto simp: page_seen_flush)
    with w(2) show ?thesis
      by (auto simp: flushPostUpdates_def nonempty Some cached_post_page)
  qed
qed

lemma queue_covered:
  assumes epoch: "since_epoch parse" and c: "covered parse i t s"
  shows "covered parse i t (queue_update parse p s)"
proof (cases "mget (waiting s) (post_id p)")
  case None
  with c show ?thesis by (auto simp: covered_def queue_update_def cached_post_page)
next
  case (Some w)
  have "versionOf parse w \<le> versionOf parse (patched_post w p)" if "versionOf parse w \<le> versionOf parse p"
    using that versionOf_patched [OF epoch, of p w] by simp
  with c Some show ?thesis
    by (cases "versionOf parse w \<le> versionOf parse p")
      (auto simp: covered_def queue_update_def cached_post_page intro: order_trans)
qed

lemma queued_is_covered:
  "since_epoch parse \<Longrightarrow> covered parse (post_id p) (versionOf parse p) (queue_update parse p s)"
  by (auto simp: covered_def queue_update_def versionOf_patched split: option.splits)

lemma flush_keeps_covered:
  "since_epoch parse \<Longrightarrow> 0 < i \<Longrightarrow> filed s \<Longrightarrow> covered parse i t s \<Longrightarrow> covered parse i t (flushPostUpdates parse s)"
  using flush_covered by (auto simp: covered_def [of _ _ _ "flushPostUpdates parse s"])

lemma replaced_covered:
  assumes "fresh_page parse i s g" and "covered parse i t s"
  shows "covered parse i t (s\<lparr>page := g\<rparr>)" and "covered parse i t (s\<lparr>page := g, refetching := b\<rparr>)"
proof -
  show c: "covered parse i t (s\<lparr>page := g\<rparr>)"
  proof (cases "\<exists>p. cached_post s i = Some p \<and> t \<le> versionOf parse p")
    case True
    then obtain p q where "t \<le> versionOf parse p" "page_seen i g = Some q" "newer parse p q" using fresh_pageD [OF assms(1)] by blast
    then show ?thesis by (auto simp: covered_def cached_post_page newer_def intro: order_trans)
  next
    case False
    with assms(2) show ?thesis by (simp add: covered_def)
  qed
  then show "covered parse i t (s\<lparr>page := g, refetching := b\<rparr>)" by (simp add: covered_def cached_post_page)
qed

lemma event_covered:
  assumes epoch: "since_epoch parse" and i: "0 < i" and f: "filed s" and once: "arrives_once parse i s e"
    and here: "e \<noteq> PostDeleted i" and c: "covered parse i t s"
  shows "covered parse i t (on_post_event parse s e)"
proof (cases e)
  case (PostCreated post)
  let ?s = "s\<lparr>page := Some (create_post parse post (page s))\<rparr>"
  have "covered parse i t ?s"
  proof (cases "\<exists>q. cached_post s i = Some q \<and> t \<le> versionOf parse q")
    case True
    then obtain q r where "t \<le> versionOf parse q" "cached_post ?s i = Some r" "newer parse q r"
      using create_newer [OF epoch i once [unfolded PostCreated]] by (auto simp: cached_post_page)
    then show ?thesis by (auto simp: covered_def newer_def intro: order_trans)
  next
    case False
    with c show ?thesis by (simp add: covered_def)
  qed
  moreover have "filed ?s" using f by (simp add: filed_def)
  ultimately show ?thesis using c flush_keeps_covered [OF epoch i] by (simp add: PostCreated Let_def)
next
  case (PostUpdated post)
  with c f queue_covered [OF epoch c, of post] filed_queue [OF f, of parse post] flush_keeps_covered [OF epoch i]
  show ?thesis by (simp add: Let_def)
next
  case (PostDeleted j)
  with here c page_seen_delete [of j i "page s"] show ?thesis by (simp add: covered_def cached_post_page)
next
  case FlushDue
  with c f flush_keeps_covered [OF epoch i] show ?thesis by simp
next
  case (PostsAnswered g)
  with once have "fresh_page parse i s (Some g)" by simp
  from replaced_covered [OF this c] show ?thesis by (simp add: PostsAnswered)
next
  case (PageWritten g)
  with once have "fresh_page parse i s (g)" by simp
  from replaced_covered [OF this c] show ?thesis by (simp add: PageWritten)
qed (use c in \<open>simp add: covered_def cached_post_page\<close>)

lemma update_covered:
  "since_epoch parse \<Longrightarrow> 0 < post_id p \<Longrightarrow> filed s \<Longrightarrow> \<not> hidden_status p \<Longrightarrow>
   covered parse (post_id p) (versionOf parse p) (on_post_event parse s (PostUpdated p))"
  using flush_keeps_covered [of parse "post_id p" "queue_update parse p s"]
  by (simp add: Let_def queued_is_covered filed_queue)

lemma run_covered:
  "since_epoch parse \<Longrightarrow> 0 < i \<Longrightarrow> filed s \<Longrightarrow> obeys (arrives_once parse i) (on_post_event parse) s es \<Longrightarrow> PostDeleted i \<notin> set es \<Longrightarrow>
   covered parse i t s \<Longrightarrow> covered parse i t (run (on_post_event parse) s es) \<and> filed (run (on_post_event parse) s es)"
proof (induction es arbitrary: s)
  case (Cons e es)
  then have "covered parse i t (on_post_event parse s e)" by (intro event_covered) auto
  with Cons filed_event [OF Cons.prems(3), of parse e] show ?case by simp
qed simp

section \<open>Properties\<close>

definition demo_time :: "string \<Rightarrow> rat option" where
  "demo_time s = Some (of_nat (length s))"

definition demo_post :: "rat \<Rightarrow> string \<Rightarrow> string \<Rightarrow> web_post" where
  "demo_post i updated text =
     [(''post_id'', JNum (Fin i)), (''updated_at'', JStr updated), (''message'', JStr text), (''agent_id'', JNull)]"

definition demo_page :: channel_posts where
  "demo_page = \<lparr>page = Some \<lparr>pg_posts = [demo_post 7 ''11'' ''one''], pg_total = 1\<rparr>, waiting = [], refetching = False, reconnected = False\<rparr>"

lemma demo_epoch: "since_epoch demo_time"
  by (simp add: since_epoch_def demo_time_def)

lemma demo_simps [simp]:
  "post_id (demo_post i u t) = i" "versionOf demo_time (demo_post i u t) = of_nat (length u)"
  "ui_rev (demo_post i u t) = -1" "\<not> hidden_status (demo_post i u t)" "\<not> optimistic_for (demo_post i u t) p"
  "cached_post demo_page 7 = Some (demo_post 7 ''11'' ''one'')" "filed demo_page"
proof -
  show "versionOf demo_time (demo_post i u t) = of_nat (length u)"
    by (cases u) (simp_all add: demo_post_def versionOf_def time_of_def prop_of_def demo_time_def mget_def)
qed (simp_all add: demo_post_def post_id_def prop_of_def ui_rev_def hidden_status_def optimistic_for_def cached_post_def
    demo_page_def filed_def mget_def)

text \<open>C24: No event takes a post back. As long as a page that is put in place of the one shown (the answer of a refetch, or a write of the page
  itself) holds a shown post no older than it is shown, and the creation of one's own post is the first news of it: a post that is shown
  stays shown, and neither its text nor its surface goes back to an earlier state, whatever created, updated, stale and repeated events
  arrive in whatever order and whenever the waiting updates are flushed, until it is deleted.\<close>

theorem posts_never_regress:
  assumes "since_epoch parse" and "0 < i" and "obeys (arrives_once parse i) (on_post_event parse) s es"
    and "PostDeleted i \<notin> set es" and "cached_post s i = Some p"
  shows "\<exists>q. cached_post (run (on_post_event parse) s es) i = Some q \<and>
    versionOf parse p \<le> versionOf parse q \<and> ui_rev p \<le> ui_rev q"
  using run_newer [OF assms] by (simp add: newer_def)

definition demo_news :: "channel_event list" where
  "demo_news = [PostUpdated (demo_post 7 ''1'' ''stale''), FlushDue, PostCreated (demo_post 8 ''111'' ''two''), PresenceSnapshot, PresenceSnapshot,
     PostsAnswered \<lparr>pg_posts = [demo_post 8 ''111'' ''two'', demo_post 7 ''11'' ''one''], pg_total = 2\<rparr>]"

theorem posts_never_regress_witness:
  "\<exists>q. cached_post (run (on_post_event demo_time) demo_page demo_news) 7 = Some q \<and> 2 \<le> versionOf demo_time q \<and> -1 \<le> ui_rev q"
proof -
  have "obeys (arrives_once demo_time 7) (on_post_event demo_time) demo_page demo_news" by code_simp
  moreover have "PostDeleted 7 \<notin> set demo_news" by (simp add: demo_news_def)
  ultimately show ?thesis using posts_never_regress [OF demo_epoch, of 7 demo_page demo_news "demo_post 7 ''11'' ''one''"] by simp
qed

text \<open>The answer of a refetch has no such guard: one the server gave before an update takes the post back, and no update waits.\<close>

definition shown_text :: "channel_posts \<Rightarrow> rat \<Rightarrow> jsval option" where
  "shown_text s i = map_option (\<lambda>p. prop_of p ''message'') (cached_post s i)"

definition overtaken_answer :: "channel_event list" where
  "overtaken_answer =
     [PostCreated (mset_key ''status'' (JStr ''draft'') (demo_post 9 ''1'' ''draft'')), PostUpdated (demo_post 7 ''111'' ''edit''), FlushDue,
      PostsAnswered \<lparr>pg_posts = [demo_post 7 ''11'' ''one''], pg_total = 1\<rparr>]"

theorem older_answer_regresses:
  "shown_text (run (on_post_event demo_time) demo_page (butlast overtaken_answer)) 7 = Some (JStr ''edit'') \<and>
   refetching (run (on_post_event demo_time) demo_page (butlast overtaken_answer)) \<and>
   shown_text (run (on_post_event demo_time) demo_page overtaken_answer) 7 = Some (JStr ''one'') \<and>
   waiting (run (on_post_event demo_time) demo_page overtaken_answer) = []"
  by (intro conjI; code_simp)

text \<open>Under the same discipline, the version of an update that arrived, or a later one, is on the page after the next flush, however many events come between and
  even if the page had not been loaded, unless the post is deleted in between.\<close>

theorem updates_reach_page:
  assumes "since_epoch parse" and "0 < post_id p" and "\<not> hidden_status p" and "filed s"
    and "obeys (arrives_once parse (post_id p)) (on_post_event parse) s (us @ PostUpdated p # vs)" and "PostDeleted (post_id p) \<notin> set vs"
  shows "\<exists>q. cached_post (flushPostUpdates parse (run (on_post_event parse) s (us @ PostUpdated p # vs))) (post_id p) = Some q \<and>
    versionOf parse p \<le> versionOf parse q"
proof -
  let ?u = "run (on_post_event parse) s us"
  have obeys_run: "obeys allowed step s (as @ bs) \<Longrightarrow> obeys allowed step (run step s as) bs"
    for allowed :: "channel_posts \<Rightarrow> channel_event \<Rightarrow> bool" and step s as bs
    by (induction as arbitrary: s) auto
  have filed: "filed ?u"
    using assms(4) by (induction us arbitrary: s) (auto simp: filed_event)
  have "obeys (arrives_once parse (post_id p)) (on_post_event parse) (on_post_event parse ?u (PostUpdated p)) vs"
    using obeys_run [OF assms(5)] by simp
  from run_covered [OF assms(1,2) filed_event [OF filed] this assms(6) update_covered [OF assms(1,2) filed assms(3)]]
  show ?thesis using flush_covered [OF assms(1,2)] by simp
qed

theorem updates_reach_page_witness:
  "\<exists>q. cached_post (flushPostUpdates demo_time (run (on_post_event demo_time) demo_page
       ([FlushDue] @ PostUpdated (demo_post 7 ''1111'' ''new'') # [PostUpdated (demo_post 7 ''1'' ''stale'')]))) 7 = Some q \<and>
     4 \<le> versionOf demo_time q"
proof -
  have "obeys (arrives_once demo_time (post_id (demo_post 7 ''1111'' ''new''))) (on_post_event demo_time) demo_page
      ([FlushDue] @ PostUpdated (demo_post 7 ''1111'' ''new'') # [PostUpdated (demo_post 7 ''1'' ''stale'')])" by simp
  from updates_reach_page [OF demo_epoch _ _ _ this] show ?thesis by simp
qed

text \<open>An update that waits for its flush brings a deleted post back.\<close>

theorem deleted_post_returns:
  "cached_post (run (on_post_event demo_time) demo_page [PostUpdated (demo_post 7 ''111'' ''edit''), PostDeleted 7]) 7 = None \<and>
   cached_post (run (on_post_event demo_time) demo_page [PostUpdated (demo_post 7 ''111'' ''edit''), PostDeleted 7, FlushDue]) 7
     = Some (demo_post 7 ''111'' ''edit'')"
  by code_simp

end
