(* ===== verification/Sanitize.thy ===== *)
theory Sanitize
  imports Js_Values
begin

text \<open>
  What of a tool call leaves the machine (\<open>plugin/src/activity/sanitize.ts\<close>): the redaction of a tool's
  arguments, of the host's own detail and of the descriptor of a result, each a label. The ellipsis of
  a cut is the character the Windows code page has at 133, as the model's characters are a byte. The
  flattening of thinking text is not modelled.
\<close>

section \<open>Redaction\<close>

definition TOOL_SUMMARY_MAX_CHARS :: nat where "TOOL_SUMMARY_MAX_CHARS = 1000"

text \<open>\<open>SECRET_KEY_RE\<close>, with its optional separators written out.\<close>

definition SECRET_WORDS :: "string list" where
  "SECRET_WORDS = [''token'', ''secret'', ''password'', ''passwd'', ''authorization'', ''cookie'', ''bearer'', ''credential'',
     ''apikey'', ''api-key'', ''api_key'', ''privatekey'', ''private-key'', ''private_key'']"

definition SECRET_KEY :: "string \<Rightarrow> bool" where
  "SECRET_KEY key = list_ex (str_includes (lower key)) SECRET_WORDS"

definition blob_char :: "char \<Rightarrow> bool" where
  "blob_char c = (is_alnum c \<or> c \<in> set ''+/_=.-'')"

definition SECRET_VALUE :: "string \<Rightarrow> bool" where
  "SECRET_VALUE v = (24 \<le> length v \<and> list_all blob_char v)"

definition PRIMARY_ARG_KEYS :: "string list" where
  "PRIMARY_ARG_KEYS = [''command'', ''query'', ''url'', ''path'', ''file_path'', ''filePath'', ''pattern'', ''prompt'', ''title'',
     ''name'', ''message'', ''text'', ''to'', ''action'']"

definition PATH_ARG_KEYS :: "string list" where
  "PATH_ARG_KEYS = [''path'', ''file_path'', ''filePath'']"

definition CONTENT_ARG_KEYS :: "string list" where
  "CONTENT_ARG_KEYS = [''content'', ''contents'', ''body'', ''data'', ''patch'', ''diff'', ''old_string'', ''new_string'', ''oldText'', ''newText'']"

text \<open>\<open>value.replace(/\s+/gu, " ")\<close>\<close>

fun squeeze :: "bool \<Rightarrow> string \<Rightarrow> string" where
  "squeeze inside [] = []"
| "squeeze inside (c # s) =
     (if is_ws c then (if inside then squeeze True s else CHR '' '' # squeeze True s) else c # squeeze False s)"

definition collapseWhitespace :: "string \<Rightarrow> string" where
  "collapseWhitespace v = trim (squeeze False v)"

definition ELLIPSIS :: char where "ELLIPSIS = CHR 0x85"

definition truncate_text :: "string \<Rightarrow> nat \<Rightarrow> string" where
  "truncate_text v m = (if length v \<le> m then v else trim_end (take (m - 1) v) @ [ELLIPSIS])"

definition isSafeSummaryValue :: "string \<Rightarrow> string \<Rightarrow> bool" where
  "isSafeSummaryValue key v =
     (if SECRET_KEY key then False
      else let collapsed = collapseWhitespace v in
        if collapsed = [] then False
        else (key \<in> set PATH_ARG_KEYS \<and> CHR ''/'' \<in> set collapsed) \<or> CHR '' '' \<in> set collapsed \<or> \<not> SECRET_VALUE collapsed)"

definition OPAQUE_ACTIONS :: "string list" where
  "OPAQUE_ACTIONS = [''other'', ''unknown'', ''unspecified'', ''none'']"

definition isOpaqueAction :: "string \<Rightarrow> string \<Rightarrow> bool" where
  "isOpaqueAction key v = (key = ''action'' \<and> lower (collapseWhitespace v) \<in> set OPAQUE_ACTIONS)"

definition isSummaryCandidate :: "string \<Rightarrow> string \<Rightarrow> bool" where
  "isSummaryCandidate key v = (isSafeSummaryValue key v \<and> \<not> isOpaqueAction key v)"

section \<open>Labels\<close>

fun first_primary :: "jsval \<Rightarrow> string list \<Rightarrow> string option" where
  "first_primary rec [] = None"
| "first_primary rec (k # ks) =
     (case as_str (jget rec k) of
        Some v \<Rightarrow> if isSummaryCandidate k v then Some v else first_primary rec ks
      | None \<Rightarrow> first_primary rec ks)"

fun first_entry :: "(string \<times> jsval) list \<Rightarrow> string option" where
  "first_entry [] = None"
| "first_entry ((k, w) # ps) =
     (case as_str w of
        Some v \<Rightarrow> if k \<notin> set CONTENT_ARG_KEYS \<and> isSummaryCandidate k v then Some v else first_entry ps
      | None \<Rightarrow> first_entry ps)"

definition pickPrimaryArg :: "jsval \<Rightarrow> string option" where
  "pickPrimaryArg args =
     (case args of
        JStr s \<Rightarrow> if isSafeSummaryValue ''arg'' s then Some s else None
      | JObj ps \<Rightarrow>
          (if jget args ''queryUnavailable'' = JBool True then None
           else case first_primary args PRIMARY_ARG_KEYS of Some v \<Rightarrow> Some v | None \<Rightarrow> first_entry ps)
      | _ \<Rightarrow> None)"

definition action_token :: "string \<Rightarrow> bool" where
  "action_token t =
     (case t of
        [] \<Rightarrow> False
      | c # r \<Rightarrow> (is_lower c \<or> is_upper c) \<and> length r \<le> 31 \<and> list_all (\<lambda>d. is_alnum d \<or> d = CHR ''_'' \<or> d = CHR ''-'') r)"

definition pickActionQualifier :: "jsval \<Rightarrow> string \<Rightarrow> string option" where
  "pickActionQualifier args primary =
     (case args of
        JObj ps \<Rightarrow>
          (case as_str (jget args ''action'') of
             None \<Rightarrow> None
           | Some a \<Rightarrow>
              (let token = collapseWhitespace a in
               if token = primary \<or> isOpaqueAction ''action'' token then None
               else if action_token token then Some token else None))
      | _ \<Rightarrow> None)"

definition clean_name :: "string \<Rightarrow> string" where
  "clean_name toolName =
     (let n = collapseWhitespace (if toolName = [] then ''tool'' else toolName) in if n = [] then ''tool'' else n)"

definition quoted_text :: "string \<Rightarrow> string" where
  "quoted_text s = [CHR 0x27] @ s @ [CHR 0x27]"

definition sanitizeToolSummary :: "string \<Rightarrow> jsval \<Rightarrow> string" where
  "sanitizeToolSummary toolName args =
     (let name = clean_name toolName in
      case pickPrimaryArg args of
        None \<Rightarrow> name
      | Some primary \<Rightarrow>
         (let snippet = truncate_text (collapseWhitespace primary) TOOL_SUMMARY_MAX_CHARS in
          if snippet = [] then name
          else case pickActionQualifier args snippet of
              Some a \<Rightarrow> name @ '': '' @ a @ '' '' @ quoted_text snippet
            | None \<Rightarrow> name @ '': '' @ quoted_text snippet))"

text \<open>\<open>/^"([^"]*)"$/u\<close>: what stands between the quotes.\<close>

definition unquote :: "string \<Rightarrow> string option" where
  "unquote s =
     (case s of
        [] \<Rightarrow> None
      | c # r \<Rightarrow> if c = CHR 0x22 \<and> r \<noteq> [] \<and> last r = CHR 0x22 \<and> CHR 0x22 \<notin> set (butlast r) then Some (butlast r) else None)"

definition sanitizeToolDetail :: "string \<Rightarrow> jsval \<Rightarrow> string option" where
  "sanitizeToolDetail toolName meta =
     (case as_str meta of
        None \<Rightarrow> None
      | Some m \<Rightarrow>
         (let name = clean_name toolName; collapsed = collapseWhitespace m in
          if collapsed = [] \<or> \<not> isSafeSummaryValue ''meta'' collapsed then None
          else let q = unquote collapsed;
                   detail = truncate_text (case q of Some i \<Rightarrow> i | None \<Rightarrow> collapsed) TOOL_SUMMARY_MAX_CHARS
            in if detail = [] \<or> detail = name then None
               else if q \<noteq> None then Some (name @ '': '' @ quoted_text detail) else Some (name @ '': '' @ detail)))"

definition RESULT_DESCRIPTOR_KEYS :: "string list" where
  "RESULT_DESCRIPTOR_KEYS = [''query'', ''url'', ''pattern'']"

definition sanitizeToolResultDescriptor :: "string \<Rightarrow> jsval \<Rightarrow> string option" where
  "sanitizeToolResultDescriptor toolName result =
     (case result of
        JObj _ \<Rightarrow>
          (let descriptor = concat (map (\<lambda>k. opt_field k (as_str (jget result k)) JStr) RESULT_DESCRIPTOR_KEYS) in
           if descriptor = [] then None
           else let full = descriptor @ opt_field ''action'' (as_str (jget result ''action'')) JStr;
                    name = clean_name toolName; summary = sanitizeToolSummary name (JObj full)
             in if summary = name then None else Some summary)
      | _ \<Rightarrow> None)"

section \<open>What a label can show\<close>

lemma first_primary_safe: "first_primary rec ks = Some v \<Longrightarrow> \<exists>k \<in> set ks. jget rec k = JStr v \<and> isSummaryCandidate k v"
  by (induction ks) (auto split: option.splits if_splits)

lemma first_entry_safe:
  "first_entry ps = Some v \<Longrightarrow> \<exists>k. (k, JStr v) \<in> set ps \<and> k \<notin> set CONTENT_ARG_KEYS \<and> isSummaryCandidate k v"
  by (induction ps) (auto split: option.splits if_splits)

text \<open>The value a label is made of: a top-level string, redacted under its own key.\<close>

definition value_shown :: "jsval \<Rightarrow> string \<Rightarrow> bool" where
  "value_shown args v =
     (case args of
        JStr s \<Rightarrow> v = s \<and> isSafeSummaryValue ''arg'' s
      | JObj ps \<Rightarrow> list_ex (\<lambda>k. jget args k = JStr v \<and> isSafeSummaryValue k v) PRIMARY_ARG_KEYS \<or>
          list_ex (\<lambda>(k, w). w = JStr v \<and> k \<notin> set CONTENT_ARG_KEYS \<and> isSafeSummaryValue k v) ps
      | _ \<Rightarrow> False)"

lemma pickPrimaryArg_value_shown: "pickPrimaryArg args = Some v \<Longrightarrow> value_shown args v"
  using first_primary_safe [of args PRIMARY_ARG_KEYS v] first_entry_safe
  by (auto simp: pickPrimaryArg_def value_shown_def isSummaryCandidate_def list_ex_iff simp del: jget.simps
      split: jsval.splits if_splits option.splits; fastforce)

lemma length_trim_end: "length (trim_end s) \<le> length s"
  by (simp add: trim_end_def) (metis length_dropWhile_le length_rev)

lemma truncate_bound: "0 < m \<Longrightarrow> length (truncate_text v m) \<le> m"
  using length_trim_end [of "take (m - 1) v"] by (auto simp: truncate_text_def)

lemma qualifier_bound: "pickActionQualifier args p = Some a \<Longrightarrow> length a \<le> 32 \<and> action_token a"
  by (auto simp: pickActionQualifier_def action_token_def Let_def split: jsval.splits option.splits if_splits list.splits)

definition summary_of :: "string \<Rightarrow> jsval \<Rightarrow> string \<Rightarrow> bool" where
  "summary_of name args label \<longleftrightarrow>
     label = name \<or>
     (\<exists>v q. value_shown args v \<and> label = name @ '': '' @ q @ quoted_text (truncate_text (collapseWhitespace v) 1000) \<and>
        (q = [] \<or> (\<exists>a. q = a @ '' '' \<and> action_token a)))"

text \<open>
  A summary shows at most one argument, a string of the top level that passed the redaction under
  its own key, cut to a thousand characters, with at most one enum-shaped token before it: no nested
  value, no content argument as a fallback, and never more than the name and that.
\<close>

theorem summary_shows_one_safe_argument:
  "summary_of (clean_name toolName) args (sanitizeToolSummary toolName args) \<and>
   length (sanitizeToolSummary toolName args) \<le> length (clean_name toolName) + 1037"
proof (cases "pickPrimaryArg args")
  case None
  then show ?thesis by (simp add: sanitizeToolSummary_def summary_of_def)
next
  case (Some v)
  let ?s = "truncate_text (collapseWhitespace v) TOOL_SUMMARY_MAX_CHARS"
  have v: "value_shown args v" using pickPrimaryArg_value_shown [OF Some] .
  have b: "length ?s \<le> 1000" using truncate_bound [of 1000 "collapseWhitespace v"] by (simp add: TOOL_SUMMARY_MAX_CHARS_def)
  show ?thesis
  proof (cases "?s = []")
    case True
    with Some show ?thesis by (simp add: sanitizeToolSummary_def summary_of_def Let_def)
  next
    case False
    show ?thesis
    proof (cases "pickActionQualifier args ?s")
      case None
      with Some False have e: "sanitizeToolSummary toolName args = clean_name toolName @ '': '' @ [] @ quoted_text ?s"
        by (simp add: sanitizeToolSummary_def Let_def)
      with v b show ?thesis unfolding summary_of_def e TOOL_SUMMARY_MAX_CHARS_def by (auto simp: quoted_text_def)
    next
      case (Some a)
      with \<open>pickPrimaryArg args = Some v\<close> False
      have e: "sanitizeToolSummary toolName args = clean_name toolName @ '': '' @ (a @ '' '') @ quoted_text ?s"
        by (simp add: sanitizeToolSummary_def Let_def)
      from qualifier_bound [OF Some] have "length a \<le> 32" "action_token a" by auto
      with v b show ?thesis unfolding summary_of_def e TOOL_SUMMARY_MAX_CHARS_def by (auto simp: quoted_text_def)
    qed
  qed
qed

text \<open>
  Nothing of a tool's result leaves the machine but four descriptors: two results with the same
  query, url, pattern and action have the same label, whatever else they hold.
\<close>

theorem result_label_reads_descriptors_only:
  assumes "list_all (\<lambda>k. jget (JObj ps) k = jget (JObj qs) k) [''query'', ''url'', ''pattern'', ''action'']"
  shows "sanitizeToolResultDescriptor toolName (JObj ps) = sanitizeToolResultDescriptor toolName (JObj qs)"
  using assms by (simp add: sanitizeToolResultDescriptor_def RESULT_DESCRIPTOR_KEYS_def del: jget.simps)

lemma result_label_reads_descriptors_only_witness:
  "sanitizeToolResultDescriptor ''web_search'' (JObj [(''query'', JStr ''gas price''), (''results'', JStr ''page text'')])
     = sanitizeToolResultDescriptor ''web_search'' (JObj [(''query'', JStr ''gas price'')])"
  by (rule result_label_reads_descriptors_only) simp

text \<open>
  The token before the argument is not redacted: an action of thirty characters that reads as a
  credential, and that the redaction refuses as a value, is shown in the label.
\<close>

theorem action_token_skips_redaction:
  "\<exists>blob. \<not> isSafeSummaryValue ''action'' blob \<and>
     sanitizeToolSummary ''exec'' (JObj [(''command'', JStr ''ls''), (''action'', JStr blob)])
       = ''exec: '' @ blob @ '' '' @ quoted_text ''ls''"
proof (intro exI conjI)
  let ?b = "''sk_live_51HqT2eZvKYlo2CabcdEF''"
  show "\<not> isSafeSummaryValue ''action'' ?b" by code_simp
  show "sanitizeToolSummary ''exec'' (JObj [(''command'', JStr ''ls''), (''action'', JStr ?b)])
       = ''exec: '' @ ?b @ '' '' @ quoted_text ''ls''" by code_simp
qed

end
