(* ===== verification/Thinking_Stitch.thy ===== *)
theory Thinking_Stitch
  imports Sanitize "HOL-Library.Sublist"
begin

text \<open>
  An agent's thinking, rebuilt from the rolling tails the live lane streams
  (\<open>frontend/src/lib/thinkingStitch.ts\<close>; the mobile app holds the same text in \<open>apps/mobile/src/lib/liveTurn.ts\<close>).
  The ellipsis and the curly closing quotes are the characters the Windows code page has at 133, 146
  and 148, as the model's characters are a byte.
\<close>

section \<open>Welding a tail\<close>

definition THINKING_ACC_MAX_CHARS :: nat where "THINKING_ACC_MAX_CHARS = 8000"

text \<open>\<open>incoming.replace(/^\<dots>+\s*/u, "")\<close>\<close>

definition drop_gap :: "string \<Rightarrow> string" where
  "drop_gap s = (case s of [] \<Rightarrow> []
    | c # _ \<Rightarrow> if c = ELLIPSIS then trim_start (dropWhile (\<lambda>x. x = ELLIPSIS) s) else s)"

text \<open>The largest \<open>k\<close> of the loop for which the last \<open>k\<close> characters so far begin the tail; zero when none does.\<close>

fun overlap_from :: "string \<Rightarrow> string \<Rightarrow> nat \<Rightarrow> nat" where
  "overlap_from acc tail 0 = 0"
| "overlap_from acc tail (Suc k) = (if ends_with acc (take (Suc k) tail) then Suc k else overlap_from acc tail k)"

definition stitchThinkingTail :: "string \<Rightarrow> string \<Rightarrow> string" where
  "stitchThinkingTail acc rawTail =
     (let incoming = trim rawTail in
      if acc = [] then incoming
      else let tail = drop_gap incoming in
        if tail = [] \<or> str_includes acc tail then acc
        else let overlap = overlap_from acc tail (min (length acc) (length tail));
                 merged = (if overlap > 0 then acc @ drop overlap tail
                           else acc @ [CHR '' '', ELLIPSIS, CHR '' ''] @ tail)
          in if length merged > THINKING_ACC_MAX_CHARS
             then ELLIPSIS # drop (length merged - THINKING_ACC_MAX_CHARS) merged else merged)"

section \<open>The sentence being written\<close>

definition closing :: "char \<Rightarrow> bool" where
  "closing c = (c \<in> {CHR 0x22, CHR 0x27, CHR 0x94, CHR 0x92, CHR '')'', CHR '']''})"

definition full_stop :: "char \<Rightarrow> bool" where
  "full_stop c = (c \<in> {CHR ''.'', CHR ''!'', CHR ''?''})"

text \<open>The look-behind of \<open>SENTENCE_END\<close>, on the text so far, last character first.\<close>

definition SENTENCE_END :: "string \<Rightarrow> bool" where
  "SENTENCE_END r = (case r of [] \<Rightarrow> False
    | c # cs \<Rightarrow> full_stop c \<or> (closing c \<and> cs \<noteq> [] \<and> full_stop (hd cs)))"

function (sequential) sentences :: "string \<Rightarrow> string \<Rightarrow> string list" where
  "sentences r [] = [rev r]"
| "sentences r (c # s) =
     (if is_ws c \<and> SENTENCE_END r then rev r # sentences [] (dropWhile is_ws s) else sentences (c # r) s)"
  by pat_completeness auto

termination
  by (relation "measure (\<lambda>(r, s). length s)") (auto simp: le_imp_less_Suc length_dropWhile_le)

definition currentSentence :: "string \<Rightarrow> (nat \<times> string) option" where
  "currentSentence t = (let ss = sentences [] (trim t) in if last ss = [] then None else Some (length ss - 1, last ss))"

section \<open>What a weld keeps\<close>

lemma overlap_from_ends: "0 < overlap_from acc tail k \<Longrightarrow> ends_with acc (take (overlap_from acc tail k) tail)"
  by (induction k) auto

lemma overlap_from_max:
  "ends_with acc (take j tail) \<Longrightarrow> j \<le> k \<Longrightarrow> j \<le> overlap_from acc tail k"
  by (induction k) (auto simp: le_Suc_eq)

definition welded :: "string \<Rightarrow> string \<Rightarrow> string \<Rightarrow> bool" where
  "welded acc tail r \<longleftrightarrow> (\<exists>k gap. r = acc @ gap @ drop k tail \<and> ends_with acc (take k tail) \<and>
     (\<forall>j. j \<le> length tail \<and> ends_with acc (take j tail) \<longrightarrow> j \<le> k) \<and>
     (gap = [] \<or> k = 0 \<and> gap = [CHR '' '', ELLIPSIS, CHR '' '']))"

lemma ends_with_Nil [simp]: "ends_with s []"
  by (simp add: ends_with_def)

lemma ends_with_len: "ends_with s p \<Longrightarrow> length p \<le> length s"
  by (auto simp: ends_with_iff)

lemma merged_welded:
  assumes "k = overlap_from acc tail (min (length acc) (length tail))"
  shows "welded acc tail (if k > 0 then acc @ drop k tail else acc @ [CHR '' '', ELLIPSIS, CHR '' ''] @ tail)"
proof -
  have m: "j \<le> k" if "j \<le> length tail" "ends_with acc (take j tail)" for j
    using that ends_with_len [OF that(2)] assms overlap_from_max [of acc j tail "min (length acc) (length tail)"] by simp
  show ?thesis
  proof (cases "k > 0")
    case True
    then have "ends_with acc (take k tail)" using overlap_from_ends assms by blast
    then show ?thesis unfolding welded_def using m True by (intro exI [of _ k] exI [of _ "[]"]) auto
  next
    case False
    then show ?thesis unfolding welded_def using m
      by (intro exI [of _ 0] exI [of _ "[CHR '' '', ELLIPSIS, CHR '' '']"]) auto
  qed
qed

text \<open>
  A weld loses nothing until the bound. Unless the new tail is already contained, the text so far is followed by
  the rest of the tail after their longest overlap, or after a gap when they do not overlap; only the newest
  eight thousand characters of that are kept, behind an ellipsis. So the burst always ends with the
  newest tail, and never outgrows the bound by more than the mark.
\<close>
theorem weld_keeps_both:
  assumes "acc \<noteq> []" and "\<not> str_includes acc (drop_gap (trim raw))"
  shows "\<exists>m. welded acc (drop_gap (trim raw)) m \<and>
    (if length m \<le> 8000 then stitchThinkingTail acc raw = m
     else \<exists>cut. m = cut @ tl (stitchThinkingTail acc raw) \<and> length (stitchThinkingTail acc raw) = 8001 \<and>
       hd (stitchThinkingTail acc raw) = ELLIPSIS)"
proof -
  let ?t = "drop_gap (trim raw)"
  define k where "k = overlap_from acc ?t (min (length acc) (length ?t))"
  define m where "m = (if k > 0 then acc @ drop k ?t else acc @ [CHR '' '', ELLIPSIS, CHR '' ''] @ ?t)"
  have t: "?t \<noteq> []" using assms(2) by (metis append_Nil str_includes_iff)
  have s: "stitchThinkingTail acc raw =
      (if length m > 8000 then ELLIPSIS # drop (length m - 8000) m else m)"
    using assms t unfolding stitchThinkingTail_def Let_def THINKING_ACC_MAX_CHARS_def m_def k_def by simp
  have "welded acc ?t m" unfolding m_def by (rule merged_welded) (rule k_def)
  moreover have "m = take (length m - 8000) m @ drop (length m - 8000) m" by simp
  ultimately show ?thesis unfolding s by (intro exI [of _ m]) (auto intro!: exI [of _ "take (length m - 8000) m"])
qed

lemma weld_keeps_both_witness:
  "\<exists>m. welded ''I read the fi'' ''the file first'' m \<and>
    (if length m \<le> 8000 then stitchThinkingTail ''I read the fi'' ''the file first'' = m
     else \<exists>cut. m = cut @ tl (stitchThinkingTail ''I read the fi'' ''the file first'') \<and>
       length (stitchThinkingTail ''I read the fi'' ''the file first'') = 8001 \<and>
       hd (stitchThinkingTail ''I read the fi'' ''the file first'') = ELLIPSIS) \<and>
   stitchThinkingTail ''I read the fi'' ''the file first'' = ''I read the file first''"
proof -
  have d: "drop_gap (trim ''the file first'') = ''the file first''" by code_simp
  have i: "\<not> str_includes ''I read the fi'' ''the file first''" by code_simp
  have "stitchThinkingTail ''I read the fi'' ''the file first'' = ''I read the file first''" by code_simp
  with weld_keeps_both [of "''I read the fi''" "''the file first''", unfolded d] i show ?thesis by blast
qed

lemma stitch_bound: "length acc \<le> 8001 \<Longrightarrow> length (trim raw) \<le> 8001 \<Longrightarrow> length (stitchThinkingTail acc raw) \<le> 8001"
  by (auto simp: stitchThinkingTail_def Let_def THINKING_ACC_MAX_CHARS_def)

end
