(* ===== verification/Turn_Steps.thy ===== *)
theory Turn_Steps
  imports Thinking_Stitch
begin

text \<open>
  An agent's turn in flight as the web client folds it from the status lane
  (\<open>frontend/src/lib/turnSteps.ts\<close>): its tool and narration steps, its bursts of thinking in their places
  between them, what a published reply keeps of both, and the headline of the newest signal. An optional
  property is an option; a label is the trimmed one.
\<close>

section \<open>Steps\<close>

record agent_activity =
  ac_kind :: string
  ac_id :: "string option"
  ac_label :: "string option"
  ac_tool :: "string option"
  ac_ok :: "bool option"
  ac_ms :: "rat option"

datatype web_step =
    ToolStep (ws_id: string) (ws_tool: string) (ws_label: "string option") (ws_status: string) (ws_ms: "rat option")
  | NoteStep (ws_id: string) (ws_text: string)

record thought =
  th_at :: nat
  th_text :: string

record kept_thought =
  kt_before :: "string option"
  kt_text :: string

record 's kept_turn =
  tn_steps :: "'s list"
  tn_thoughts :: "kept_thought list"

record 's live_turn =
  lt_key :: string
  lt_steps :: "'s list"
  lt_thoughts :: "thought list"

definition given :: "string option \<Rightarrow> bool" where
  "given x = (x \<noteq> None \<and> x \<noteq> Some [])"

fun upsert :: "('s \<Rightarrow> string) \<Rightarrow> 's list \<Rightarrow> 's \<Rightarrow> 's list" where
  "upsert f [] step = [step]"
| "upsert f (s # ss) step = (if f s = f step then step # ss else s # upsert f ss step)"

definition fresh_id :: "string option \<Rightarrow> string \<Rightarrow> nat \<Rightarrow> string" where
  "fresh_id i name n = (case i of Some x \<Rightarrow> x | None \<Rightarrow> name @ '':'' @ show_nat n)"

fun web_running :: "web_step \<Rightarrow> bool" where
  "web_running (ToolStep _ _ _ status _) = (status = ''running'')"
| "web_running (NoteStep _ _) = False"

text \<open>The step a start merges into: the one of its id, or a running call of the same tool that is the last step.\<close>

definition web_started :: "web_step list \<Rightarrow> agent_activity \<Rightarrow> web_step option" where
  "web_started steps act =
     (if given (ac_id act) then List.find (\<lambda>s. Some (ws_id s) = ac_id act) steps
      else if steps \<noteq> [] \<and> web_running (last steps) \<and>
              ws_tool (last steps) = (case ac_tool act of Some t \<Rightarrow> t | None \<Rightarrow> [])
        then Some (last steps) else None)"

definition web_start :: "web_step list \<Rightarrow> agent_activity \<Rightarrow> string option \<Rightarrow> web_step" where
  "web_start steps act label =
     (let tool = (case ac_tool act of Some t \<Rightarrow> t | None \<Rightarrow> []); prev = web_started steps act;
          i = (case prev of Some s \<Rightarrow> ws_id s | None \<Rightarrow> fresh_id (ac_id act) ''tool'' (length steps))
      in case prev of
           Some (ToolStep i0 pt pl st pm) \<Rightarrow> ToolStep i0 pt (if given label then label else pl) st pm
         | _ \<Rightarrow> ToolStep i tool label ''running'' None)"

definition web_done :: "agent_activity \<Rightarrow> string option \<Rightarrow> web_step \<Rightarrow> web_step" where
  "web_done act label prev = (case prev of
      ToolStep i0 pt pl st pm \<Rightarrow>
        (let detailed = (\<lambda>t. given t \<and> t \<noteq> Some pt) in
         ToolStep i0 pt (if detailed pl then pl else if detailed label then label else if pl = None then label else pl)
           (if ac_ok act = Some False then ''error'' else ''done'')
           (case ac_ms act of Some m \<Rightarrow> Some m | None \<Rightarrow> pm))
    | NoteStep _ _ \<Rightarrow> prev)"

definition web_applyStep :: "web_step list \<Rightarrow> agent_activity \<Rightarrow> string option \<Rightarrow> web_step list" where
  "web_applyStep steps act label =
     (if ac_kind act = ''note'' then
        (if given label then upsert ws_id steps (NoteStep (fresh_id (ac_id act) ''note'' (length steps)) (the label)) else steps)
      else if ac_kind act = ''tool'' then upsert ws_id steps (web_start steps act label)
      else if ac_kind act = ''tool_done'' then
        (case (if given (ac_id act) then List.find (\<lambda>s. Some (ws_id s) = ac_id act) steps
               else List.find web_running (rev steps)) of
           Some (ToolStep i t l st m) \<Rightarrow> upsert ws_id steps (web_done act label (ToolStep i t l st m))
         | _ \<Rightarrow> steps)
      else steps)"

section \<open>Thinking\<close>

text \<open>A tail welds onto the latest burst while no step followed it, else it begins the next unless it is already held.\<close>

definition add_thought :: "nat \<Rightarrow> string \<Rightarrow> thought list \<Rightarrow> thought list" where
  "add_thought n label ths =
     (if ths = [] then [\<lparr>th_at = n, th_text = label\<rparr>]
      else let burst = last ths; t = stitchThinkingTail (th_text burst) label in
        if t = th_text burst then ths
        else if th_at burst = n then butlast ths @ [\<lparr>th_at = n, th_text = t\<rparr>]
        else ths @ [\<lparr>th_at = n, th_text = label\<rparr>])"

definition web_applyActivity :: "web_step live_turn \<Rightarrow> agent_activity \<Rightarrow> web_step live_turn" where
  "web_applyActivity turn act =
     (let label = map_option trim (ac_label act) in
      if ac_kind act \<noteq> ''thinking'' then turn\<lparr>lt_steps := web_applyStep (lt_steps turn) act label\<rparr>
      else if \<not> given label then turn
      else turn\<lparr>lt_thoughts := add_thought (length (lt_steps turn)) (the label) (lt_thoughts turn)\<rparr>)"

definition keep_thoughts :: "('s \<Rightarrow> string) \<Rightarrow> 's list \<Rightarrow> thought list \<Rightarrow> kept_thought list" where
  "keep_thoughts f steps ths =
     map (\<lambda>t. \<lparr>kt_before = (if th_at t < length steps then Some (f (steps ! th_at t)) else None), kt_text = th_text t\<rparr>) ths"

definition web_keepTurn :: "web_step live_turn \<Rightarrow> web_step kept_turn" where
  "web_keepTurn turn = \<lparr>tn_steps = lt_steps turn, tn_thoughts = keep_thoughts ws_id (lt_steps turn) (lt_thoughts turn)\<rparr>"

section \<open>The headline\<close>

datatype 's headline = Words (hl_thinking: bool) (hl_key: string) (hl_text: string) | OfTool (hl_key: string) (hl_step: 's)

definition punct :: "char \<Rightarrow> bool" where
  "punct c = (c \<in> {CHR ''.'', CHR '';'', CHR '':'', CHR ''!'', CHR ''?'', ELLIPSIS})"

definition drop_stop :: "string \<Rightarrow> string" where
  "drop_stop s = (case rev s of
      c # cs \<Rightarrow> if closing c \<and> cs \<noteq> [] \<and> punct (hd cs) then rev (dropWhile punct cs) @ [c] else rev (dropWhile punct (c # cs))
    | [] \<Rightarrow> [])"

definition bare :: "string \<Rightarrow> string" where
  "bare t = drop_stop (case t of [] \<Rightarrow> [] | c # r \<Rightarrow> if c = ELLIPSIS then trim_start r else t)"

text \<open>The sentence of a burst of thinking that no step followed yet.\<close>

definition thinking_headline :: "nat \<Rightarrow> thought list \<Rightarrow> (string \<times> string) option" where
  "thinking_headline n ths =
     (if ths = [] \<or> th_at (last ths) \<noteq> n then None
      else map_option (\<lambda>(i, t). (''thinking:'' @ show_nat n @ '':'' @ show_nat i, bare t)) (currentSentence (th_text (last ths))))"

definition web_headlineOf :: "web_step live_turn \<Rightarrow> web_step headline option" where
  "web_headlineOf turn =
     (case thinking_headline (length (lt_steps turn)) (lt_thoughts turn) of
        Some (k, t) \<Rightarrow> Some (Words True k t)
      | None \<Rightarrow>
          if lt_steps turn = [] then None
          else (case last (lt_steps turn) of
              NoteStep i t \<Rightarrow> Some (Words False i (bare t))
            | ToolStep i a b c d \<Rightarrow> Some (OfTool i (ToolStep i a b c d))))"

text \<open>The steps a post stores, as the client shows them.\<close>

record post_step =
  ps_note :: bool
  ps_id :: string
  ps_label :: string
  ps_tool :: "string option"
  ps_ok :: "bool option"
  ps_ms :: "rat option"

definition postSteps :: "post_step list \<Rightarrow> web_step list" where
  "postSteps = map (\<lambda>s. if ps_note s then NoteStep (ps_id s) (ps_label s)
     else ToolStep (ps_id s) (case ps_tool s of Some t \<Rightarrow> t | None \<Rightarrow> []) (if ps_label s = [] then None else Some (ps_label s))
       (if ps_ok s = Some False then ''error'' else ''done'') (ps_ms s))"

section \<open>Steps keep their identity\<close>

lemma upsert_ids: "map f (upsert f ss x) = (if f x \<in> f ` set ss then map f ss else map f ss @ [f x])"
  by (induction ss) auto

lemma upsert_length: "length (upsert f ss x) = (if f x \<in> f ` set ss then length ss else Suc (length ss))"
  by (induction ss) auto

lemma distinct_upsert: "distinct (map f ss) \<Longrightarrow> distinct (map f (upsert f ss x))"
  by (simp add: upsert_ids)

lemma map_upsert: "(\<And>s. g (h s) = f s) \<Longrightarrow> map h (upsert f ss x) = upsert g (map h ss) (h x)"
  by (induction ss) simp_all

lemma set_upsert: "y \<in> set (upsert f ss x) \<Longrightarrow> y = x \<or> y \<in> set ss"
  by (induction ss) (auto split: if_splits)

lemma add_thought_at: "sorted (map th_at ths) \<Longrightarrow> list_all (\<lambda>t. th_at t \<le> n) ths \<Longrightarrow>
  sorted (map th_at (add_thought n l ths)) \<and> list_all (\<lambda>t. th_at t \<le> n) (add_thought n l ths)"
proof (cases ths rule: rev_cases)
  case (snoc us u)
  then show "sorted (map th_at ths) \<Longrightarrow> list_all (\<lambda>t. th_at t \<le> n) ths \<Longrightarrow> ?thesis"
    by (auto simp: add_thought_def Let_def sorted_append list_all_iff)
qed (simp add: add_thought_def)

end
