(* ===== verification/Live_Turn.thy ===== *)
theory Live_Turn
  imports Turn_Steps
begin

text \<open>
  The turns in flight of the mobile app (\<open>apps/mobile/src/lib/liveTurn.ts\<close>): the fold of the status lane, which
  the source keeps in step with the web client's, and the session state around it: the turns of a channel's
  generating agents, their expiries, the held headlines, the open traces and the turns that replies kept.
  A timer is the entry of its due time; the clock is an argument of the steps, and what the listeners are
  told is left out. A headline is compared as the value whose JSON the source compares.
\<close>

section \<open>Steps\<close>

datatype step_kind = ToolKind | NoteKind

lemma step_kind_neq [simp]: "k \<noteq> NoteKind \<longleftrightarrow> k = ToolKind" "k \<noteq> ToolKind \<longleftrightarrow> k = NoteKind"
  by (cases k; simp)+

record turn_step =
  ts_kind :: step_kind
  ts_id :: string
  ts_label :: string
  ts_tool :: "string option"
  ts_ok :: "bool option"
  ts_ms :: "rat option"

definition running :: "turn_step \<Rightarrow> bool" where
  "running s = (ts_kind s = ToolKind \<and> ts_ok s = None)"

definition started :: "turn_step list \<Rightarrow> agent_activity \<Rightarrow> turn_step option" where
  "started steps act =
     (if given (ac_id act) then List.find (\<lambda>s. Some (ts_id s) = ac_id act) steps
      else if steps \<noteq> [] \<and> running (last steps) \<and> ts_tool (last steps) = ac_tool act then Some (last steps) else None)"

definition start_step :: "turn_step list \<Rightarrow> agent_activity \<Rightarrow> string \<Rightarrow> turn_step" where
  "start_step steps act label =
     (let prev = started steps act;
          i = (case prev of Some s \<Rightarrow> ts_id s | None \<Rightarrow> fresh_id (ac_id act) ''tool'' (length steps));
          new = \<lparr>ts_kind = ToolKind, ts_id = i, ts_label = label, ts_tool = ac_tool act, ts_ok = None, ts_ms = None\<rparr>
      in case prev of
           Some s \<Rightarrow> if ts_kind s = ToolKind then s\<lparr>ts_label := (if label \<noteq> [] then label else ts_label s)\<rparr> else new
         | None \<Rightarrow> new)"

definition done_step :: "agent_activity \<Rightarrow> string \<Rightarrow> turn_step \<Rightarrow> turn_step" where
  "done_step act label prev =
     (let detailed = (\<lambda>t. t \<noteq> [] \<and> Some t \<noteq> ts_tool prev) in
      prev\<lparr>ts_ok := Some (ac_ok act \<noteq> Some False),
           ts_ms := (case ac_ms act of Some m \<Rightarrow> Some m | None \<Rightarrow> ts_ms prev),
           ts_label := (if detailed (ts_label prev) then ts_label prev else if detailed label then label
                        else if ts_label prev \<noteq> [] then ts_label prev else label)\<rparr>)"

definition applyStep :: "turn_step list \<Rightarrow> agent_activity \<Rightarrow> string \<Rightarrow> turn_step list" where
  "applyStep steps act label =
     (if ac_kind act = ''note'' then
        (if label \<noteq> []
         then upsert ts_id steps \<lparr>ts_kind = NoteKind, ts_id = fresh_id (ac_id act) ''note'' (length steps), ts_label = label,
                                 ts_tool = None, ts_ok = None, ts_ms = None\<rparr>
         else steps)
      else if ac_kind act = ''tool'' then upsert ts_id steps (start_step steps act label)
      else if ac_kind act = ''tool_done'' then
        (case (if given (ac_id act) then List.find (\<lambda>s. Some (ts_id s) = ac_id act) steps
               else List.find running (rev steps)) of
           Some s \<Rightarrow> if ts_kind s = ToolKind then upsert ts_id steps (done_step act label s) else steps
         | None \<Rightarrow> steps)
      else steps)"

definition applyActivity :: "turn_step live_turn \<Rightarrow> agent_activity \<Rightarrow> turn_step live_turn" where
  "applyActivity turn act =
     (let label = (case ac_label act of Some l \<Rightarrow> trim l | None \<Rightarrow> []) in
      if ac_kind act \<noteq> ''thinking'' then turn\<lparr>lt_steps := applyStep (lt_steps turn) act label\<rparr>
      else if label = [] then turn
      else turn\<lparr>lt_thoughts := add_thought (length (lt_steps turn)) label (lt_thoughts turn)\<rparr>)"

definition keepTurn :: "turn_step live_turn \<Rightarrow> turn_step kept_turn" where
  "keepTurn turn = \<lparr>tn_steps = lt_steps turn, tn_thoughts = keep_thoughts ts_id (lt_steps turn) (lt_thoughts turn)\<rparr>"

definition headlineOf :: "turn_step live_turn \<Rightarrow> turn_step headline option" where
  "headlineOf turn =
     (case thinking_headline (length (lt_steps turn)) (lt_thoughts turn) of
        Some (k, t) \<Rightarrow> Some (Words True k t)
      | None \<Rightarrow>
          if lt_steps turn = [] then None
          else let s = last (lt_steps turn) in
            if ts_kind s = NoteKind then Some (Words False (ts_id s) (bare (ts_label s))) else Some (OfTool (ts_id s) s))"

definition withThoughts :: "turn_step list \<Rightarrow> kept_thought list \<Rightarrow> (turn_step + kept_thought) list" where
  "withThoughts steps ths =
     concat (map (\<lambda>s. map Inr (filter (\<lambda>t. kt_before t = Some (ts_id s)) ths) @ [Inl s]) steps) @
     map Inr (filter (\<lambda>t. \<not> (given (kt_before t) \<and> the (kt_before t) \<in> ts_id ` set steps)) ths)"

datatype segment = TextSegment string string | ToolSegment string turn_step nat bool

definition segmentOf :: "turn_step list \<Rightarrow> turn_step headline option \<Rightarrow> bool \<Rightarrow> segment option" where
  "segmentOf steps hl writing = (case hl of
      Some (OfTool k s) \<Rightarrow>
        (let live = (ts_ok s = None);
             more = (if live then length (filter (\<lambda>x. running x \<and> ts_id x \<noteq> k) steps) else 0)
         in if writing \<and> \<not> live then None else Some (ToolSegment k s more live))
    | Some (Words thinking k t) \<Rightarrow>
        if writing then None else Some (TextSegment k (if thinking then ''Thinking '' @ [CHR 0xB7] @ '' '' @ t else t))
    | None \<Rightarrow> if writing then None else Some (TextSegment ''word'' ''Warming up''))"

definition countOf :: "turn_step list \<Rightarrow> kept_thought list \<Rightarrow> bool \<Rightarrow> string option" where
  "countOf steps ths speaking =
     (let tools = length (filter (\<lambda>s. ts_kind s = ToolKind) steps) in
      if tools > 0 then Some (show_nat tools @ '' step'' @ (if tools = 1 then [] else ''s''))
      else if \<not> speaking \<and> length steps + length ths > 0 then Some ''Thought'' else None)"

section \<open>The session\<close>

definition GENERATING_TTL_MS :: int where "GENERATING_TTL_MS = 15000"

definition HOLD_MS :: int where "HOLD_MS = 500"

definition THINKING_HOLD_MS :: int where "THINKING_HOLD_MS = 1500"

record headline_entry =
  he_shown :: "turn_step headline"
  he_since :: int
  he_offered :: "turn_step headline"
  he_timer :: "(turn_step headline \<times> int) option"

type_synonym turns = "(string, turn_step live_turn) jsmap"

record live_state =
  lv_channels :: "(string, turns) jsmap"
  lv_expiries :: "(string, string \<times> string \<times> int) jsmap"
  lv_headlines :: "(string, headline_entry) jsmap"
  lv_opened :: "string list"
  lv_kept :: "(string, (string, turn_step kept_turn) jsmap) jsmap"

definition live_init :: live_state where
  "live_init = \<lparr>lv_channels = [], lv_expiries = [], lv_headlines = [], lv_opened = [], lv_kept = []\<rparr>"

definition liveKey :: "string \<Rightarrow> string \<Rightarrow> string" where
  "liveKey channel agent = ''turn:'' @ channel @ '':agent:'' @ agent"

definition liveTurns :: "string \<Rightarrow> live_state \<Rightarrow> turns" where
  "liveTurns channel s = (case mget (lv_channels s) channel of Some ts \<Rightarrow> ts | None \<Rightarrow> [])"

definition write_turns :: "string \<Rightarrow> turns \<Rightarrow> live_state \<Rightarrow> live_state" where
  "write_turns channel ts s = s\<lparr>lv_channels := mset_key channel ts (lv_channels s)\<rparr>"

definition forget :: "string \<Rightarrow> string option \<Rightarrow> live_state \<Rightarrow> live_state" where
  "forget key replyKey s =
     (let handed = key \<in> set (lv_opened s); o1 = removeAll key (lv_opened s) in
      s\<lparr>lv_expiries := mdel key (lv_expiries s), lv_headlines := mdel key (lv_headlines s),
        lv_opened := (if handed \<and> given replyKey then sadd (the replyKey) o1 else o1)\<rparr>)"

definition keep_reply :: "string \<Rightarrow> string option \<Rightarrow> turn_step live_turn \<Rightarrow> live_state \<Rightarrow> live_state" where
  "keep_reply channel replyKey turn s =
     (if given replyKey \<and> length (lt_steps turn) + length (lt_thoughts turn) > 0
      then s\<lparr>lv_kept := mset_key channel
             (mset_key (the replyKey) (keepTurn turn) (case mget (lv_kept s) channel of Some m \<Rightarrow> m | None \<Rightarrow> [])) (lv_kept s)\<rparr>
      else s)"

definition endTurn :: "string \<Rightarrow> string \<Rightarrow> string option \<Rightarrow> live_state \<Rightarrow> live_state" where
  "endTurn channel agent replyKey s =
     forget (liveKey channel agent) replyKey
       (case mget (liveTurns channel s) agent of
          None \<Rightarrow> s
        | Some turn \<Rightarrow> write_turns channel (mdel agent (liveTurns channel s)) (keep_reply channel replyKey turn s))"

definition expire :: "string \<Rightarrow> string \<Rightarrow> int \<Rightarrow> live_state \<Rightarrow> live_state" where
  "expire channel agent now s =
     s\<lparr>lv_expiries := mset_key (liveKey channel agent) (channel, agent, now + GENERATING_TTL_MS) (lv_expiries s)\<rparr>"

text \<open>The timer of \<open>expire\<close>, when it has come due.\<close>

definition expiry_fires :: "string \<Rightarrow> int \<Rightarrow> live_state \<Rightarrow> live_state" where
  "expiry_fires key now s = (case mget (lv_expiries s) key of
      Some (channel, agent, due) \<Rightarrow> if now < due then s else endTurn channel agent None s
    | None \<Rightarrow> s)"

record member_status =
  ms_kind :: string
  ms_id :: string
  ms_status :: string
  ms_activity :: "agent_activity option"

definition seed_turn :: "string \<Rightarrow> string \<Rightarrow> turn_step live_turn" where
  "seed_turn channel agent = \<lparr>lt_key = liveKey channel agent, lt_steps = [], lt_thoughts = []\<rparr>"

definition memberStatus :: "string \<Rightarrow> member_status \<Rightarrow> int \<Rightarrow> live_state \<Rightarrow> live_state" where
  "memberStatus channel m now s =
     (if ms_kind m \<noteq> ''agent'' then s
      else if ms_status m \<noteq> ''generating'' then endTurn channel (ms_id m) None s
      else let ts = liveTurns channel s;
               turn = (case mget ts (ms_id m) of Some t \<Rightarrow> t | None \<Rightarrow> seed_turn channel (ms_id m));
               next = (case ms_activity m of Some act \<Rightarrow> applyActivity turn act | None \<Rightarrow> turn)
        in expire channel (ms_id m) now
             (if Some next \<noteq> mget ts (ms_id m) then write_turns channel (mset_key (ms_id m) next ts) s else s))"

text \<open>A turn already followed keeps its own steps; a mid-turn join starts from the agent's current one.\<close>

definition snapshot_turn :: "string \<Rightarrow> turns \<Rightarrow> member_status \<Rightarrow> turn_step live_turn" where
  "snapshot_turn channel ts m = (case mget ts (ms_id m) of
      Some t \<Rightarrow> t
    | None \<Rightarrow> (case ms_activity m of
          Some act \<Rightarrow> applyActivity (seed_turn channel (ms_id m)) act
        | None \<Rightarrow> seed_turn channel (ms_id m)))"

fun snapshot_members :: "string \<Rightarrow> int \<Rightarrow> turns \<Rightarrow> member_status list \<Rightarrow> turns \<times> live_state \<Rightarrow> turns \<times> live_state" where
  "snapshot_members channel now ts [] ns = ns"
| "snapshot_members channel now ts (m # ms) ns =
     (if ms_kind m \<noteq> ''agent'' \<or> ms_status m \<noteq> ''generating'' then snapshot_members channel now ts ms ns
      else snapshot_members channel now ts ms
             (mset_key (ms_id m) (snapshot_turn channel ts m) (fst ns), expire channel (ms_id m) now (snd ns)))"

definition presenceSnapshot :: "string \<Rightarrow> member_status list \<Rightarrow> int \<Rightarrow> live_state \<Rightarrow> live_state" where
  "presenceSnapshot channel members now s =
     (let ts = liveTurns channel s; (next, s1) = snapshot_members channel now ts members ([], s) in
      write_turns channel next
        (fold (\<lambda>agent s. if mget next agent = None then forget (liveKey channel agent) None s else s) (mkeys ts) s1))"

definition replyPublished :: "string \<Rightarrow> string option \<Rightarrow> string \<Rightarrow> live_state \<Rightarrow> live_state" where
  "replyPublished channel agent post s = (if given agent then endTurn channel (the agent) (Some post) s else s)"

definition endChannelTurns :: "string \<Rightarrow> live_state \<Rightarrow> live_state" where
  "endChannelTurns channel s =
     (let s1 = fold (\<lambda>key s. if starts_with key (liveKey channel []) then forget key None s else s)
                 (remdups (mkeys (lv_expiries s) @ mkeys (lv_headlines s) @ lv_opened s)) s
      in s1\<lparr>lv_channels := mdel channel (lv_channels s1), lv_kept := mdel channel (lv_kept s1)\<rparr>)"

section \<open>Headlines and traces\<close>

definition show_headline :: "turn_step headline \<Rightarrow> int \<Rightarrow> headline_entry \<Rightarrow> headline_entry" where
  "show_headline h now e = e\<lparr>he_shown := h, he_since := now, he_timer := None\<rparr>"

definition thinking_both :: "turn_step headline \<Rightarrow> turn_step headline \<Rightarrow> bool" where
  "thinking_both a b = (case (a, b) of (Words True _ _, Words True _ _) \<Rightarrow> True | _ \<Rightarrow> False)"

definition finished_tool :: "turn_step headline \<Rightarrow> bool" where
  "finished_tool h = (case h of OfTool _ s \<Rightarrow> ts_ok s \<noteq> None | _ \<Rightarrow> False)"

definition offer_entry :: "turn_step headline \<Rightarrow> int \<Rightarrow> headline_entry \<Rightarrow> headline_entry" where
  "offer_entry h now e0 =
     (if h = he_offered e0 then e0
      else let e = e0\<lparr>he_offered := h, he_timer := None\<rparr>; thinking = thinking_both (he_shown e) h in
        if hl_key h = hl_key (he_shown e) \<and> \<not> thinking then e\<lparr>he_shown := h\<rparr>
        else let due = he_since e + (if thinking then THINKING_HOLD_MS else HOLD_MS) in
          if due - now \<le> 0 then show_headline h now e
          else if \<not> finished_tool h then e\<lparr>he_timer := Some (h, due)\<rparr>
          else e)"

definition offerHeadline :: "string \<Rightarrow> turn_step headline \<Rightarrow> int \<Rightarrow> live_state \<Rightarrow> live_state" where
  "offerHeadline key h now s =
     s\<lparr>lv_headlines := mset_key key
        (case mget (lv_headlines s) key of
           None \<Rightarrow> \<lparr>he_shown = h, he_since = now, he_offered = h, he_timer = None\<rparr>
         | Some e \<Rightarrow> offer_entry h now e) (lv_headlines s)\<rparr>"

text \<open>The timer of a pending headline, when it has come due.\<close>

definition headline_fires :: "string \<Rightarrow> int \<Rightarrow> live_state \<Rightarrow> live_state" where
  "headline_fires key now s = (case mget (lv_headlines s) key of
      Some e \<Rightarrow>
        (case he_timer e of
           Some (h, due) \<Rightarrow> if now < due then s else s\<lparr>lv_headlines := mset_key key (show_headline h now e) (lv_headlines s)\<rparr>
         | None \<Rightarrow> s)
    | None \<Rightarrow> s)"

definition heldHeadline :: "string \<Rightarrow> live_state \<Rightarrow> turn_step headline option" where
  "heldHeadline key s = map_option he_shown (mget (lv_headlines s) key)"

definition turnHeadline :: "turn_step live_turn option \<Rightarrow> live_state \<Rightarrow> turn_step headline option" where
  "turnHeadline turn s =
     (let next = Option.bind turn headlineOf;
          held = Option.bind turn (\<lambda>t. heldHeadline (lt_key t) s)
      in case (if held \<noteq> None then held else next) of
           Some (OfTool k st) \<Rightarrow>
             (case Option.bind turn (\<lambda>t. List.find (\<lambda>x. ts_id x = k) (lt_steps t)) of
                Some x \<Rightarrow> if ts_kind x = ToolKind then Some (OfTool k x) else Some (OfTool k st)
              | None \<Rightarrow> Some (OfTool k st))
         | h \<Rightarrow> h)"

definition traceOpen :: "string option \<Rightarrow> live_state \<Rightarrow> bool" where
  "traceOpen key s = (case key of Some k \<Rightarrow> k \<in> set (lv_opened s) | None \<Rightarrow> False)"

definition toggleTrace :: "string \<Rightarrow> live_state \<Rightarrow> live_state" where
  "toggleTrace key s =
     s\<lparr>lv_opened := (if key \<in> set (lv_opened s) then removeAll key (lv_opened s) else sadd key (lv_opened s))\<rparr>"

definition keptTurn :: "string \<Rightarrow> string \<Rightarrow> live_state \<Rightarrow> turn_step kept_turn option" where
  "keptTurn channel reply s = Option.bind (mget (lv_kept s) channel) (\<lambda>m. mget m reply)"

section \<open>Runs\<close>

datatype session_step =
    Status string member_status int
  | Snapshot string "member_status list" int
  | Reply string "string option" string
  | Leave string
  | ExpiryTimer string int
  | OfferNext string "turn_step headline" int
  | HeadlineTimer string int
  | Toggle string

fun live_do :: "live_state \<Rightarrow> session_step \<Rightarrow> live_state" where
  "live_do s (Status c m now) = memberStatus c m now s"
| "live_do s (Snapshot c ms now) = presenceSnapshot c ms now s"
| "live_do s (Reply c a p) = replyPublished c a p s"
| "live_do s (Leave c) = endChannelTurns c s"
| "live_do s (ExpiryTimer k now) = expiry_fires k now s"
| "live_do s (OfferNext k h now) = offerHeadline k h now s"
| "live_do s (HeadlineTimer k now) = headline_fires k now s"
| "live_do s (Toggle k) = toggleTrace k s"

section \<open>The steps and thoughts of a turn\<close>

text \<open>What every fold keeps: steps with identifiers of their own, thoughts in the order of their places.\<close>

definition turn_ok :: "turn_step live_turn \<Rightarrow> bool" where
  "turn_ok t \<longleftrightarrow> distinct (map ts_id (lt_steps t)) \<and> sorted (map th_at (lt_thoughts t)) \<and>
     list_all (\<lambda>x. th_at x \<le> length (lt_steps t)) (lt_thoughts t)"

lemma applyStep_upserts: "applyStep ss act l = ss \<or> (\<exists>x. applyStep ss act l = upsert ts_id ss x)"
  by (auto simp: applyStep_def split: option.splits)

lemma applyStep_ok: "distinct (map ts_id ss) \<Longrightarrow> distinct (map ts_id (applyStep ss act l)) \<and> length ss \<le> length (applyStep ss act l)"
  using applyStep_upserts [of ss act l] by (auto simp: distinct_upsert upsert_length)

lemma applyActivity_ok: "turn_ok t \<Longrightarrow> turn_ok (applyActivity t act)"
  using applyStep_ok [of "lt_steps t" act] add_thought_at [of "lt_thoughts t" "length (lt_steps t)"]
  by (auto simp: turn_ok_def applyActivity_def Let_def list_all_iff intro: order_trans)

lemma turn_ok_seed [simp]: "turn_ok (seed_turn c a)"
  by (simp add: turn_ok_def seed_turn_def)

lemma applyActivity_key [simp]: "lt_key (applyActivity t act) = lt_key t"
  by (simp add: applyActivity_def Let_def)

lemma folded_ok: "turn_ok t \<Longrightarrow> turn_ok (foldl applyActivity t acts)"
  by (induction acts arbitrary: t) (simp_all add: applyActivity_ok)

text \<open>The turn as it was told: each thought before the step that followed it, in the order of the steps.\<close>

definition as_told :: "turn_step live_turn \<Rightarrow> (turn_step + string) list" where
  "as_told t = (let n = length (lt_steps t) in
     concat (map (\<lambda>i. map (Inr \<circ> th_text) (filter (\<lambda>x. th_at x = i) (lt_thoughts t)) @ [Inl (lt_steps t ! i)]) [0..<n]) @
     map (Inr \<circ> th_text) (filter (\<lambda>x. n \<le> th_at x) (lt_thoughts t)))"

lemma kept_before:
  "map (map_sum id kt_text) (map Inr (filter P (keep_thoughts f ss ths))) =
   map (Inr \<circ> th_text) (filter (\<lambda>x. P \<lparr>kt_before = (if th_at x < length ss then Some (f (ss ! th_at x)) else None), kt_text = th_text x\<rparr>) ths)"
  by (induction ths) (auto simp: keep_thoughts_def)

lemma concat_nth: "concat (map g xs) = concat (map (\<lambda>i. g (xs ! i)) [0..<length xs])"
  by (metis map_map comp_apply map_nth map_cong)

lemma same_step: "distinct (map f ss) \<Longrightarrow> i < length ss \<Longrightarrow> (j < length ss \<and> f (ss ! j) = f (ss ! i)) = (j = i)"
  by (metis distinct_conv_nth length_map nth_map)

text \<open>
  A reply tells the turn as it happened. For every turn folded from the lane whose steps have identifiers that are not
  empty, the kept thoughts put back among its steps stand where they arose: each before the step that
  followed it, each once, those after the last step at the end.
\<close>
theorem kept_turn_is_as_told:
  assumes "t = foldl applyActivity (seed_turn c a) acts" and "[] \<notin> ts_id ` set (lt_steps t)"
  shows "map (map_sum id kt_text) (withThoughts (tn_steps (keepTurn t)) (tn_thoughts (keepTurn t))) = as_told t"
proof -
  have "turn_ok t" unfolding assms(1) by (rule folded_ok) simp
  then have d: "distinct (map ts_id (lt_steps t))" by (simp add: turn_ok_def)
  let ?ss = "lt_steps t" and ?k = "keep_thoughts ts_id (lt_steps t) (lt_thoughts t)"
  have i: "map (map_sum id kt_text) (map Inr (filter (\<lambda>x. kt_before x = Some (ts_id (?ss ! i))) ?k)) =
      map (Inr \<circ> th_text) (filter (\<lambda>x. th_at x = i) (lt_thoughts t))" if "i < length ?ss" for i
    unfolding kept_before using same_step [OF d that] by (intro arg_cong [where f = "map _"] filter_cong) auto
  have l: "map (map_sum id kt_text) (map Inr (filter (\<lambda>x. \<not> (given (kt_before x) \<and> the (kt_before x) \<in> ts_id ` set ?ss)) ?k)) =
      map (Inr \<circ> th_text) (filter (\<lambda>x. length ?ss \<le> th_at x) (lt_thoughts t))"
    unfolding kept_before using assms(2)
    by (intro arg_cong [where f = "map _"] filter_cong) (auto simp: given_def image_iff, metis nth_mem)
  have "map (map_sum id kt_text) (concat (map (\<lambda>s. map Inr (filter (\<lambda>x. kt_before x = Some (ts_id s)) ?k) @ [Inl s]) ?ss)) =
      concat (map (\<lambda>i. map (Inr \<circ> th_text) (filter (\<lambda>x. th_at x = i) (lt_thoughts t)) @ [Inl (?ss ! i)]) [0..<length ?ss])"
    unfolding map_concat map_map
    by (subst concat_nth) (intro arg_cong [where f = concat] map_cong, simp_all add: i del: map_map)
  then show ?thesis
    unfolding withThoughts_def keepTurn_def as_told_def Let_def by (simp only: map_append l kept_turn.select_convs)
qed

lemma kept_turn_is_as_told_witness:
  "\<exists>t. t = foldl applyActivity (seed_turn ''c'' ''a'')
      [\<lparr>ac_kind = ''thinking'', ac_id = None, ac_label = Some ''look'', ac_tool = None, ac_ok = None, ac_ms = None\<rparr>,
       \<lparr>ac_kind = ''tool'', ac_id = Some ''s1'', ac_label = Some ''ls'', ac_tool = Some ''ls'', ac_ok = None, ac_ms = None\<rparr>] \<and>
     map (map_sum id kt_text) (withThoughts (tn_steps (keepTurn t)) (tn_thoughts (keepTurn t))) = as_told t \<and>
     length (as_told t) = 2"
proof -
  let ?acts = "[\<lparr>ac_kind = ''thinking'', ac_id = None, ac_label = Some ''look'', ac_tool = None, ac_ok = None, ac_ms = None\<rparr>,
       \<lparr>ac_kind = ''tool'', ac_id = Some ''s1'', ac_label = Some ''ls'', ac_tool = Some ''ls'', ac_ok = None, ac_ms = None\<rparr>]"
  have "[] \<notin> ts_id ` set (lt_steps (foldl applyActivity (seed_turn ''c'' ''a'') ?acts))" by code_simp
  from kept_turn_is_as_told [OF refl this]
  show ?thesis by (intro exI [of _ "foldl applyActivity (seed_turn ''c'' ''a'') ?acts"] conjI refl) (assumption, code_simp)
qed

section \<open>The web client folds the same turn\<close>

text \<open>A step of the mobile app as the web client holds it.\<close>

definition web_view :: "turn_step \<Rightarrow> web_step" where
  "web_view s = (if ts_kind s = NoteKind then NoteStep (ts_id s) (ts_label s)
     else ToolStep (ts_id s) (case ts_tool s of Some t \<Rightarrow> t | None \<Rightarrow> []) (if ts_label s = [] then None else Some (ts_label s))
       (case ts_ok s of None \<Rightarrow> ''running'' | Some True \<Rightarrow> ''done'' | Some False \<Rightarrow> ''error'') (ts_ms s))"

text \<open>An event as the plugin sends it: a label is absent or says something, and so is the name of a tool.\<close>

definition clean :: "agent_activity \<Rightarrow> bool" where
  "clean act = ((case ac_label act of Some l \<Rightarrow> trim l \<noteq> [] | None \<Rightarrow> True) \<and> ac_tool act \<noteq> Some [])"

definition clean_step :: "turn_step \<Rightarrow> bool" where
  "clean_step s = (ts_tool s \<noteq> Some [])"

definition opt_label :: "string \<Rightarrow> string option" where
  "opt_label l = (if l = [] then None else Some l)"

lemma web_view_id [simp]: "ws_id (web_view s) = ts_id s"
  by (simp add: web_view_def)

lemma web_view_running [simp]: "web_running (web_view s) = running s"
  by (cases "ts_kind s") (auto simp: web_view_def running_def split: option.splits bool.splits)

lemma find_map: "List.find P (map f xs) = map_option f (List.find (\<lambda>x. P (f x)) xs)"
  by (induction xs) simp_all

lemma web_started_view:
  assumes "list_all clean_step ss" and "clean act"
  shows "web_started (map web_view ss) act = map_option web_view (started ss act)"
proof -
  have "ws_tool (web_view (last ss)) = (case ac_tool act of Some t \<Rightarrow> t | None \<Rightarrow> []) \<longleftrightarrow> ts_tool (last ss) = ac_tool act"
    if "ss \<noteq> []" "running (last ss)"
    using assms that last_in_set [OF that(1)]
    by (auto simp: list_all_iff clean_step_def clean_def web_view_def running_def split: option.splits)
  then show ?thesis by (auto simp: web_started_def started_def find_map last_map)
qed

lemma web_start_view:
  assumes "list_all clean_step ss" and "clean act"
  shows "web_start (map web_view ss) act (opt_label l) = web_view (start_step ss act l)"
  unfolding web_start_def start_step_def web_started_view [OF assms] Let_def
  by (auto simp: web_view_def opt_label_def given_def split: option.splits bool.splits step_kind.splits)

lemma web_done_view:
  assumes "clean_step s" and "ts_kind s = ToolKind"
  shows "web_done act (opt_label l) (web_view s) = web_view (done_step act l s)"
  using assms by (auto simp: web_done_def done_step_def web_view_def opt_label_def given_def clean_step_def Let_def split: option.splits)

lemma find_clean: "List.find P ss = Some x \<Longrightarrow> list_all clean_step ss \<Longrightarrow> clean_step x"
  by (auto simp: list_all_iff dest: find_SomeD)

lemma web_applyStep_view:
  assumes "list_all clean_step ss" and "clean act"
  shows "web_applyStep (map web_view ss) act (opt_label l) = map web_view (applyStep ss act l)"
proof -
  have u: "map web_view (upsert ts_id ss x) = upsert ws_id (map web_view ss) (web_view x)" for x
    by (rule map_upsert) simp
  let ?f = "if given (ac_id act) then List.find (\<lambda>s. Some (ts_id s) = ac_id act) ss else List.find running (rev ss)"
  have f: "(if given (ac_id act) then List.find (\<lambda>s. Some (ws_id s) = ac_id act) (map web_view ss)
      else List.find web_running (rev (map web_view ss))) = map_option web_view ?f"
    by (simp add: find_map rev_map)
  have c: "clean_step s" if "?f = Some s" for s
    using that assms(1) find_clean [of _ "ss" s] find_clean [of _ "rev ss" s] by (auto split: if_splits simp: list_all_rev)
  have tool: "(case ?f of Some s \<Rightarrow> if ts_kind s = ToolKind then upsert ws_id (map web_view ss) (web_done act (opt_label l) (web_view s)) else map web_view ss
      | None \<Rightarrow> map web_view ss) =
    map web_view (case ?f of Some s \<Rightarrow> if ts_kind s = ToolKind then upsert ts_id ss (done_step act l s) else ss | None \<Rightarrow> ss)"
    using web_done_view [OF c] by (auto simp: u split: option.splits)
  have w: "(case map_option web_view ?f of Some (ToolStep i t l' st m) \<Rightarrow> upsert ws_id (map web_view ss) (web_done act (opt_label l) (ToolStep i t l' st m))
      | _ \<Rightarrow> map web_view ss) =
    (case ?f of Some s \<Rightarrow> if ts_kind s = ToolKind then upsert ws_id (map web_view ss) (web_done act (opt_label l) (web_view s)) else map web_view ss
      | None \<Rightarrow> map web_view ss)"
    by (cases ?f) (auto simp: web_view_def)
  show ?thesis
    unfolding web_applyStep_def applyStep_def f w tool
    by (simp add: u web_start_view [OF assms]) (simp add: web_view_def opt_label_def given_def)
qed

lemma applyStep_clean: "list_all clean_step ss \<Longrightarrow> clean act \<Longrightarrow> list_all clean_step (applyStep ss act l)"
proof -
  assume a: "list_all clean_step ss" "clean act"
  have s: "clean_step (start_step ss act l)"
    using a find_clean [of _ ss] last_in_set [of ss]
    by (auto simp: start_step_def started_def Let_def clean_def clean_step_def list_all_iff split: option.splits if_splits)
  have d: "clean_step (done_step act l x)" if "clean_step x" for x
    using that by (simp add: done_step_def clean_step_def Let_def)
  let ?f = "if given (ac_id act) then List.find (\<lambda>s. Some (ts_id s) = ac_id act) ss else List.find running (rev ss)"
  have f: "clean_step x" if "?f = Some x" for x
    using that a(1) find_clean [of _ ss x] find_clean [of _ "rev ss" x] by (auto split: if_splits simp: list_all_rev)
  have u: "list_all clean_step (upsert ts_id ss x)" if "clean_step x" for x
    using a(1) that by (auto simp: list_all_iff dest: set_upsert)
  have n: "clean_step \<lparr>ts_kind = NoteKind, ts_id = i, ts_label = l, ts_tool = None, ts_ok = None, ts_ms = None\<rparr>" for i
    by (simp add: clean_step_def)
  have e: "list_all clean_step (case ?f of Some s \<Rightarrow> if ts_kind s = ToolKind then upsert ts_id ss (done_step act l s) else ss | None \<Rightarrow> ss)"
    using u [OF d [OF f]] a(1) by (cases ?f) auto
  show ?thesis
    unfolding applyStep_def using u [OF n] u [OF s] e a(1) by simp
qed

lemma fold_views:
  assumes "list_all clean acts" and "list_all clean_step (lt_steps m)"
    and "lt_steps w = map web_view (lt_steps m)" and "lt_thoughts w = lt_thoughts m"
  shows "lt_steps (foldl web_applyActivity w acts) = map web_view (lt_steps (foldl applyActivity m acts)) \<and>
    lt_thoughts (foldl web_applyActivity w acts) = lt_thoughts (foldl applyActivity m acts)"
  using assms
proof (induction acts arbitrary: w m)
  case (Cons act acts)
  define l where "l = (case ac_label act of Some l \<Rightarrow> trim l | None \<Rightarrow> [])"
  have l: "map_option trim (ac_label act) = opt_label l"
    using Cons.prems(1) by (auto simp: l_def clean_def opt_label_def split: option.splits)
  have c: "clean act" using Cons.prems(1) by simp
  have g: "given (opt_label l) \<longleftrightarrow> l \<noteq> []" "l \<noteq> [] \<Longrightarrow> the (opt_label l) = l" by (simp_all add: given_def opt_label_def)
  have 1: "lt_steps (web_applyActivity w act) = map web_view (lt_steps (applyActivity m act))"
    using web_applyStep_view [OF Cons.prems(2) c, of l]
    by (simp add: web_applyActivity_def applyActivity_def l g Cons.prems(3) flip: l_def)
  have 2: "lt_thoughts (web_applyActivity w act) = lt_thoughts (applyActivity m act)"
    by (simp add: web_applyActivity_def applyActivity_def l g Cons.prems(3,4) flip: l_def)
  have 3: "list_all clean_step (lt_steps (applyActivity m act))"
    using applyStep_clean [OF Cons.prems(2) c] Cons.prems(2) by (simp add: applyActivity_def Let_def)
  show ?case using Cons.IH [OF _ 3 1 2] Cons.prems(1) by simp
qed simp

lemma web_headline_view:
  assumes "lt_steps w = map web_view (lt_steps m)" and "lt_thoughts w = lt_thoughts m"
  shows "web_headlineOf w = map_option (map_headline web_view) (headlineOf m)"
proof -
  have "(case web_view s of NoteStep i t \<Rightarrow> Some (Words False i (bare t)) | ToolStep i a b c d \<Rightarrow> Some (OfTool i (ToolStep i a b c d))) =
      map_option (map_headline web_view) (if ts_kind s = NoteKind then Some (Words False (ts_id s) (bare (ts_label s))) else Some (OfTool (ts_id s) s))" for s
    by (simp add: web_view_def)
  then show ?thesis
    unfolding web_headlineOf_def headlineOf_def assms by (auto simp: last_map Let_def split: option.splits)
qed

text \<open>
  The two clients stay in step, as the source promises. Whatever events of a turn arrive, with labels and tool names
  that are absent or say something, the mobile app and the web client hold the same steps, the same thoughts
  and the same headline, up to how each writes a step down.
\<close>
theorem clients_fold_alike:
  assumes "list_all clean acts"
    and "m = foldl applyActivity (seed_turn c a) acts"
    and "w = foldl web_applyActivity \<lparr>lt_key = k, lt_steps = [], lt_thoughts = []\<rparr> acts"
  shows "lt_steps w = map web_view (lt_steps m) \<and> lt_thoughts w = lt_thoughts m \<and>
    web_headlineOf w = map_option (map_headline web_view) (headlineOf m)"
proof -
  have "lt_steps w = map web_view (lt_steps m) \<and> lt_thoughts w = lt_thoughts m"
    unfolding assms(2,3) by (rule fold_views [OF assms(1)]) (simp_all add: seed_turn_def)
  then show ?thesis using web_headline_view by blast
qed

definition demo_act :: "string \<Rightarrow> string \<Rightarrow> bool option \<Rightarrow> agent_activity" where
  "demo_act k l r = \<lparr>ac_kind = k, ac_id = Some ''s1'', ac_label = Some l, ac_tool = Some ''ls'', ac_ok = r, ac_ms = None\<rparr>"

lemma clients_fold_alike_witness:
  "\<exists>m w. m = foldl applyActivity (seed_turn ''c'' ''a'') [demo_act ''tool'' ''ls -l'' None, demo_act ''tool_done'' ''ls'' (Some False)] \<and>
     w = foldl web_applyActivity \<lparr>lt_key = ''k'', lt_steps = [], lt_thoughts = []\<rparr>
       [demo_act ''tool'' ''ls -l'' None, demo_act ''tool_done'' ''ls'' (Some False)] \<and>
     lt_steps w = map web_view (lt_steps m) \<and> lt_thoughts w = lt_thoughts m \<and>
     web_headlineOf w = map_option (map_headline web_view) (headlineOf m) \<and>
     lt_steps w = [ToolStep ''s1'' ''ls'' (Some ''ls -l'') ''error'' None]"
proof -
  let ?acts = "[demo_act ''tool'' ''ls -l'' None, demo_act ''tool_done'' ''ls'' (Some False)]"
  have c: "list_all clean ?acts" by code_simp
  let ?m = "foldl applyActivity (seed_turn ''c'' ''a'') ?acts"
  let ?w = "foldl web_applyActivity \<lparr>lt_key = ''k'', lt_steps = [], lt_thoughts = []\<rparr> ?acts"
  have w: "lt_steps ?w = [ToolStep ''s1'' ''ls'' (Some ''ls -l'') ''error'' None]" by code_simp
  note h = clients_fold_alike [OF c refl refl, where c = "''c''" and a = "''a''" and k = "''k''"]
  show ?thesis
    by (rule exI [of _ ?m], rule exI [of _ ?w])
      (intro conjI refl w h [THEN conjunct1] h [THEN conjunct2, THEN conjunct1] h [THEN conjunct2, THEN conjunct2])
qed

text \<open>With a label of white space they part: the web client keeps the blank where the mobile app takes the tool's name.\<close>

lemma blank_label_splits_clients:
  "map ts_label (lt_steps (foldl applyActivity (seed_turn ''c'' ''a'') [demo_act ''tool'' '' '' None, demo_act ''tool_done'' ''ls'' None])) = [''ls''] \<and>
   map ws_label (lt_steps (foldl web_applyActivity \<lparr>lt_key = ''k'', lt_steps = [], lt_thoughts = []\<rparr>
      [demo_act ''tool'' '' '' None, demo_act ''tool_done'' ''ls'' None])) = [Some []]"
  by code_simp

section \<open>A turn is followed exactly while its expiry runs\<close>

text \<open>Channels have identifiers without a colon, so a key names its channel and agent.\<close>

definition plain :: "string \<Rightarrow> bool" where
  "plain channel = (CHR '':'' \<notin> set channel)"

lemma liveKey_prefix: "plain c \<Longrightarrow> plain d \<Longrightarrow> starts_with (liveKey c a) (liveKey d []) \<longleftrightarrow> c = d"
proof
  assume p: "plain c" "plain d" and "starts_with (liveKey c a) (liveKey d [])"
  then obtain r where "c @ '':agent:'' @ a = d @ '':agent:'' @ r" by (auto simp: liveKey_def starts_with_iff)
  then have "takeWhile (\<lambda>x. x \<noteq> CHR '':'') (c @ CHR '':'' # ''agent:'' @ a) = takeWhile (\<lambda>x. x \<noteq> CHR '':'') (d @ CHR '':'' # ''agent:'' @ r)"
    by simp
  moreover have "takeWhile (\<lambda>x. x \<noteq> CHR '':'') (u @ CHR '':'' # v) = u" if "plain u" for u v
    using that by (auto simp: plain_def takeWhile_append takeWhile_eq_all_conv)
  ultimately show "c = d" using p by metis
qed (simp add: liveKey_def starts_with_iff)

lemma liveKey_inj: "plain c \<Longrightarrow> plain d \<Longrightarrow> liveKey c a = liveKey d b \<longleftrightarrow> c = d \<and> a = b"
  using liveKey_prefix [of c d a] by (auto simp: liveKey_def starts_with_iff)

definition turn_of :: "live_state \<Rightarrow> string \<Rightarrow> string \<Rightarrow> turn_step live_turn option" where
  "turn_of s c a = mget (liveTurns c s) a"

definition timer_of :: "live_state \<Rightarrow> string \<Rightarrow> string \<Rightarrow> (string \<times> string \<times> int) option" where
  "timer_of s c a = mget (lv_expiries s) (liveKey c a)"

definition session_ok :: "live_state \<Rightarrow> bool" where
  "session_ok s \<longleftrightarrow>
     (\<forall>c a. plain c \<longrightarrow> (turn_of s c a \<noteq> None) = (timer_of s c a \<noteq> None)) \<and>
     (\<forall>c a t. turn_of s c a = Some t \<longrightarrow> lt_key t = liveKey c a \<and> turn_ok t) \<and>
     (\<forall>k c a due. mget (lv_expiries s) k = Some (c, a, due) \<longrightarrow> plain c \<and> k = liveKey c a)"

fun step_plain :: "live_state \<Rightarrow> session_step \<Rightarrow> bool" where
  "step_plain s (Status c m now) = plain c"
| "step_plain s (Snapshot c ms now) = plain c"
| "step_plain s (Reply c a p) = plain c"
| "step_plain s (Leave c) = plain c"
| "step_plain s _ = True"

text \<open>How each operation moves the turns and the timers.\<close>

lemma turn_forget [simp]: "turn_of (forget k r s) c a = turn_of s c a"
  by (simp add: turn_of_def liveTurns_def forget_def Let_def)

lemma timers_forget [simp]: "lv_expiries (forget k r s) = mdel k (lv_expiries s)"
  by (simp add: forget_def Let_def)

lemma turn_write [simp]: "turn_of (write_turns c ts s) d a = (if d = c then mget ts a else turn_of s d a)"
  by (simp add: turn_of_def liveTurns_def write_turns_def)

lemma timers_write [simp]: "lv_expiries (write_turns c ts s) = lv_expiries s"
  by (simp add: write_turns_def)

lemma turn_expire [simp]: "turn_of (expire c a now s) d b = turn_of s d b"
  by (simp add: turn_of_def liveTurns_def expire_def)

lemma timers_expire [simp]: "lv_expiries (expire c a now s) = mset_key (liveKey c a) (c, a, now + GENERATING_TTL_MS) (lv_expiries s)"
  by (simp add: expire_def)

lemma keep_reply_simps [simp]: "turn_of (keep_reply c r t s) d a = turn_of s d a" "lv_expiries (keep_reply c r t s) = lv_expiries s"
  by (simp_all add: keep_reply_def turn_of_def liveTurns_def)

lemma turn_end [simp]: "turn_of (endTurn c a r s) d b = (if d = c \<and> b = a then None else turn_of s d b)"
  by (auto simp: endTurn_def split: option.splits) (auto simp: turn_of_def)

lemma timers_end [simp]: "lv_expiries (endTurn c a r s) = mdel (liveKey c a) (lv_expiries s)"
  by (auto simp: endTurn_def split: option.splits)

text \<open>The invariant asks for nothing but the turns and the timers.\<close>

lemma session_okI:
  assumes "session_ok s"
    and "\<And>c a. plain c \<Longrightarrow> (turn_of s' c a = None) = (mget (lv_expiries s') (liveKey c a) = None)"
    and "\<And>c a t. turn_of s' c a = Some t \<Longrightarrow> turn_of s c a = Some t \<or> lt_key t = liveKey c a \<and> turn_ok t"
    and "\<And>k c a due. mget (lv_expiries s') k = Some (c, a, due) \<Longrightarrow>
      mget (lv_expiries s) k = Some (c, a, due) \<or> plain c \<and> k = liveKey c a"
  shows "session_ok s'"
  using assms unfolding session_ok_def timer_of_def by (metis (no_types, lifting))

lemma session_okD: "session_ok s \<Longrightarrow> plain c \<Longrightarrow> (turn_of s c a = None) = (mget (lv_expiries s) (liveKey c a) = None)"
  by (metis session_ok_def timer_of_def)

lemma end_ok: "session_ok s \<Longrightarrow> plain c \<Longrightarrow> session_ok (endTurn c a r s)"
  by (rule session_okI [of s]) (auto simp: liveKey_inj session_okD split: if_splits)

lemma status_ok: "session_ok s \<Longrightarrow> plain c \<Longrightarrow> session_ok (memberStatus c m now s)"
proof -
  assume a: "session_ok s" "plain c"
  define ts where "ts = liveTurns c s"
  define turn where "turn = (case mget ts (ms_id m) of Some t \<Rightarrow> t | None \<Rightarrow> seed_turn c (ms_id m))"
  define nx where "nx = (case ms_activity m of Some act \<Rightarrow> applyActivity turn act | None \<Rightarrow> turn)"
  have t: "lt_key turn = liveKey c (ms_id m) \<and> turn_ok turn"
    using a(1) by (auto simp: turn_def ts_def session_ok_def turn_of_def split: option.splits) (simp add: seed_turn_def)
  then have n: "lt_key nx = liveKey c (ms_id m) \<and> turn_ok nx" by (auto simp: nx_def applyActivity_ok split: option.splits)
  have w: "turn_of (if Some nx \<noteq> mget ts (ms_id m) then write_turns c (mset_key (ms_id m) nx ts) s else s) d b =
      (if d = c \<and> b = ms_id m then Some nx else turn_of s d b)" for d b
    by (auto simp: ts_def turn_of_def) (simp add: liveTurns_def write_turns_def)+
  have e: "lv_expiries (if Some nx \<noteq> mget ts (ms_id m) then write_turns c (mset_key (ms_id m) nx ts) s else s) = lv_expiries s" by simp
  have "session_ok (expire c (ms_id m) now (if Some nx \<noteq> mget ts (ms_id m) then write_turns c (mset_key (ms_id m) nx ts) s else s))"
    by (rule session_okI [OF a(1)]) (auto simp: w e n a liveKey_inj session_okD simp del: if_split split: if_splits)
  then show ?thesis
    using end_ok [OF a, of "ms_id m" None] a(1)
    unfolding memberStatus_def Let_def ts_def [symmetric] turn_def [symmetric] nx_def [symmetric] by simp
qed

text \<open>A snapshot: who generates has a turn and a new timer, every other turn of the channel loses both.\<close>

definition generating :: "member_status list \<Rightarrow> string set" where
  "generating ms = ms_id ` {m \<in> set ms. ms_kind m = ''agent'' \<and> ms_status m = ''generating''}"

lemma generating_simps [simp]: "generating [] = {}"
  "generating (m # ms) = (if ms_kind m = ''agent'' \<and> ms_status m = ''generating'' then insert (ms_id m) (generating ms) else generating ms)"
  by (auto simp: generating_def)

lemma snapshot_turns: "turn_of (snd (snapshot_members c now ts ms ns)) d a = turn_of (snd ns) d a"
  by (induction ms arbitrary: ns) simp_all

lemma snapshot_next: "(mget (fst (snapshot_members c now ts ms ns)) a = None) = (mget (fst ns) a = None \<and> a \<notin> generating ms)"
  by (induction ms arbitrary: ns) auto

lemma snapshot_timers: "(mget (lv_expiries (snd (snapshot_members c now ts ms ns))) k = None) =
    (mget (lv_expiries (snd ns)) k = None \<and> k \<notin> liveKey c ` generating ms)"
  by (induction ms arbitrary: ns) auto

lemma snapshot_timer_shape:
  "mget (lv_expiries (snd (snapshot_members c now ts ms ns))) k = Some (e, a, due) \<Longrightarrow>
   mget (lv_expiries (snd ns)) k = Some (e, a, due) \<or> e = c \<and> k = liveKey e a"
proof (induction ms arbitrary: ns)
  case (Cons m ms)
  show ?case
  proof (cases "ms_kind m \<noteq> ''agent'' \<or> ms_status m \<noteq> ''generating''")
    case True
    then show ?thesis using Cons by simp
  next
    case False
    then show ?thesis
      using Cons.IH [of "(mset_key (ms_id m) (snapshot_turn c ts m) (fst ns), expire c (ms_id m) now (snd ns))"] Cons.prems
      by (auto split: if_splits)
  qed
qed simp

lemma snapshot_next_ok:
  assumes "\<And>a t. mget ts a = Some t \<Longrightarrow> lt_key t = liveKey c a \<and> turn_ok t"
    and "\<And>a t. mget (fst ns) a = Some t \<Longrightarrow> lt_key t = liveKey c a \<and> turn_ok t"
    and "mget (fst (snapshot_members c now ts ms ns)) a = Some t"
  shows "lt_key t = liveKey c a \<and> turn_ok t"
  using assms(2,3)
proof (induction ms arbitrary: ns)
  case (Cons m ms)
  have u: "lt_key (snapshot_turn c ts m) = liveKey c (ms_id m) \<and> turn_ok (snapshot_turn c ts m)"
    using assms(1) [of "ms_id m"] by (auto simp: snapshot_turn_def applyActivity_ok split: option.splits) (simp_all add: seed_turn_def)
  show ?case
  proof (cases "ms_kind m \<noteq> ''agent'' \<or> ms_status m \<noteq> ''generating''")
    case True
    then show ?thesis using Cons.IH [OF Cons.prems(1)] Cons.prems(2) by simp
  next
    case False
    show ?thesis
    proof (rule Cons.IH)
      show "mget (fst (snapshot_members c now ts ms
          (mset_key (ms_id m) (snapshot_turn c ts m) (fst ns), expire c (ms_id m) now (snd ns)))) a = Some t"
        using Cons.prems(2) False by simp
    qed (use Cons.prems(1) u in \<open>auto split: if_splits\<close>)
  qed
qed simp

lemma forget_all_turns: "turn_of (fold (\<lambda>x s. if P x then forget (f x) None s else s) xs s) c a = turn_of s c a"
  by (induction xs arbitrary: s) simp_all

lemma forget_all_timers: "mget (lv_expiries (fold (\<lambda>x s. if P x then forget (f x) None s else s) xs s)) k =
    (if k \<in> f ` {x \<in> set xs. P x} then None else mget (lv_expiries s) k)"
  by (induction xs arbitrary: s) auto

lemma presence_ok:
  assumes "session_ok s" and "plain c"
  shows "session_ok (presenceSnapshot c ms now s)"
proof -
  obtain nx s1 where r: "snapshot_members c now (liveTurns c s) ms ([], s) = (nx, s1)" by fastforce
  have n: "mget nx a = None \<longleftrightarrow> a \<notin> generating ms" for a using snapshot_next [of c now "liveTurns c s" ms "([], s)" a] r by simp
  have t: "mget (lv_expiries s1) k = None \<longleftrightarrow> mget (lv_expiries s) k = None \<and> k \<notin> liveKey c ` generating ms" for k
    using snapshot_timers [of c now "liveTurns c s" ms "([], s)" k] r by simp
  have sh: "mget (lv_expiries s1) k = Some (e, a, due) \<Longrightarrow> mget (lv_expiries s) k = Some (e, a, due) \<or> e = c \<and> k = liveKey e a" for k e a due
    using snapshot_timer_shape [of c now "liveTurns c s" ms "([], s)" k] r by simp
  have tu: "turn_of s1 d a = turn_of s d a" for d a using snapshot_turns [of c now "liveTurns c s" ms "([], s)" d a] r by simp
  have ok: "lt_key t = liveKey c a \<and> turn_ok t" if "mget nx a = Some t" for a t
  proof (rule snapshot_next_ok)
    show "mget (fst (snapshot_members c now (liveTurns c s) ms ([], s))) a = Some t" using that r by simp
    show "lt_key t = liveKey c a \<and> turn_ok t" if "mget (liveTurns c s) a = Some t" for a t
      using assms(1) that by (auto simp: session_ok_def turn_of_def)
  qed simp
  have keys: "a \<in> set (mkeys (liveTurns c s)) \<longleftrightarrow> turn_of s c a \<noteq> None" for a by (simp add: turn_of_def mget_None_iff)
  define s2 where "s2 = fold (\<lambda>a s. if mget nx a = None then forget (liveKey c a) None s else s) (mkeys (liveTurns c s)) s1"
  have e: "mget (lv_expiries s2) k =
      (if k \<in> liveKey c ` {a. turn_of s c a \<noteq> None \<and> a \<notin> generating ms} then None else mget (lv_expiries s1) k)" for k
    unfolding s2_def forget_all_timers n keys by simp
  have tu2: "turn_of s2 d a = turn_of s d a" for d a unfolding s2_def forget_all_turns by (rule tu)
  have "session_ok (write_turns c nx s2)"
  proof (rule session_okI [OF assms(1)])
    fix d a assume d: "plain d"
    show "(turn_of (write_turns c nx s2) d a = None) = (mget (lv_expiries (write_turns c nx s2)) (liveKey d a) = None)"
    proof (cases "d = c")
      case True
      have "liveKey c a \<in> liveKey c ` X \<longleftrightarrow> a \<in> X" for X using assms(2) by (auto simp: liveKey_inj)
      then show ?thesis using True n session_okD [OF assms]
        by (cases "mget (lv_expiries s) (liveKey c a)") (auto simp: e t)
    next
      case False
      then have "liveKey d a \<notin> liveKey c ` X" for X using assms(2) d by (auto simp: liveKey_inj)
      then show ?thesis using False session_okD [OF assms(1) d] by (auto simp: e t tu2)
    qed
  next
    fix d a u assume "turn_of (write_turns c nx s2) d a = Some u"
    then show "turn_of s d a = Some u \<or> lt_key u = liveKey d a \<and> turn_ok u" using ok by (auto simp: tu2 split: if_splits)
  next
    fix k d a due assume "mget (lv_expiries (write_turns c nx s2)) k = Some (d, a, due)"
    then show "mget (lv_expiries s) k = Some (d, a, due) \<or> plain d \<and> k = liveKey d a"
      using sh assms(2) by (auto simp: e split: if_splits)
  qed
  then show ?thesis by (simp add: presenceSnapshot_def Let_def r s2_def)
qed

lemma leave_ok:
  assumes "session_ok s" and "plain c"
  shows "session_ok (endChannelTurns c s)"
proof -
  define s1 where "s1 = fold (\<lambda>key s. if starts_with key (liveKey c []) then forget key None s else s)
      (remdups (mkeys (lv_expiries s) @ mkeys (lv_headlines s) @ lv_opened s)) s"
  have tu: "turn_of s1 d a = turn_of s d a" for d a
    unfolding s1_def using forget_all_turns [where f = "\<lambda>k. k" and P = "\<lambda>key. starts_with key (liveKey c [])"] by simp
  have e: "mget (lv_expiries s1) k = (if starts_with k (liveKey c []) then None else mget (lv_expiries s) k)" for k
  proof -
    have "mget (lv_expiries s1) k = (if k \<in> set (mkeys (lv_expiries s) @ mkeys (lv_headlines s) @ lv_opened s) \<and> starts_with k (liveKey c [])
        then None else mget (lv_expiries s) k)"
      unfolding s1_def using forget_all_timers [where f = "\<lambda>k. k" and P = "\<lambda>key. starts_with key (liveKey c [])"] by auto
    moreover have "k \<notin> set (mkeys (lv_expiries s)) \<Longrightarrow> mget (lv_expiries s) k = None" by (simp add: mget_None_iff)
    ultimately show ?thesis by auto
  qed
  have l: "endChannelTurns c s = s1\<lparr>lv_channels := mdel c (lv_channels s1), lv_kept := mdel c (lv_kept s1)\<rparr>"
    by (simp add: endChannelTurns_def Let_def s1_def)
  have t: "turn_of (endChannelTurns c s) d a = (if d = c then None else turn_of s d a)" for d a
    using tu [of d a] by (simp add: l turn_of_def liveTurns_def)
  have x: "lv_expiries (endChannelTurns c s) = lv_expiries s1" by (simp add: l)
  show ?thesis
  proof (rule session_okI [OF assms(1)])
    fix d a assume "plain d"
    then show "(turn_of (endChannelTurns c s) d a = None) = (mget (lv_expiries (endChannelTurns c s)) (liveKey d a) = None)"
      using session_okD [OF assms(1)] assms(2) by (auto simp: t x e liveKey_prefix)
  qed (auto simp: t x e split: if_splits)
qed

lemma headlines_only [simp]: "turn_of (s\<lparr>lv_headlines := h\<rparr>) c a = turn_of s c a" "turn_of (s\<lparr>lv_opened := p\<rparr>) c a = turn_of s c a"
  by (simp_all add: turn_of_def liveTurns_def)

lemma session_ok_step: "session_ok s \<Longrightarrow> step_plain s e \<Longrightarrow> session_ok (live_do s e)"
proof (cases e)
  case (ExpiryTimer k now)
  assume s: "session_ok s"
  show ?thesis
  proof (cases "mget (lv_expiries s) k")
    case (Some v)
    obtain c a due where v: "v = (c, a, due)" by (cases v)
    with s Some have "plain c" unfolding session_ok_def by blast
    then show ?thesis using s Some v by (simp add: ExpiryTimer expiry_fires_def end_ok)
  qed (simp add: ExpiryTimer expiry_fires_def s)
next
  case (OfferNext k h now)
  assume s: "session_ok s"
  show ?thesis unfolding OfferNext live_do.simps by (rule session_okI [OF s]) (simp_all add: offerHeadline_def session_okD [OF s])
next
  case (HeadlineTimer k now)
  assume s: "session_ok s"
  have "session_ok (s\<lparr>lv_headlines := h\<rparr>)" for h by (rule session_okI [OF s]) (simp_all add: session_okD [OF s])
  then show ?thesis unfolding HeadlineTimer live_do.simps headline_fires_def using s by (auto split: option.splits)
next
  case (Toggle k)
  assume s: "session_ok s"
  show ?thesis unfolding Toggle live_do.simps by (rule session_okI [OF s]) (simp_all add: toggleTrace_def session_okD [OF s])
qed (auto simp: status_ok presence_ok leave_ok end_ok replyPublished_def)

interpretation live: guarded_system live_init live_do step_plain session_ok
  by unfold_locales (auto simp: session_ok_step, simp add: session_ok_def live_init_def turn_of_def timer_of_def liveTurns_def)

text \<open>
  An agent is followed exactly while its expiry runs. In every run of status events, snapshots, replies, departures
  and timers, a channel shows a turn for an agent if and only if the timer that will end that turn is
  pending, so no row can stay generating for good; and each turn shown is named for its channel and agent and
  has steps of different identifiers.
\<close>
theorem followed_while_timed:
  assumes "obeys step_plain live_do live_init es" and "plain c"
  shows "(mget (liveTurns c (run live_do live_init es)) a = None) =
      (mget (lv_expiries (run live_do live_init es)) (liveKey c a) = None) \<and>
    (case mget (liveTurns c (run live_do live_init es)) a of
       Some t \<Rightarrow> lt_key t = liveKey c a \<and> distinct (map ts_id (lt_steps t))
     | None \<Rightarrow> True)"
proof -
  have ok: "session_ok (run live_do live_init es)" by (rule live.good_disciplined_run [OF assms(1)])
  from session_okD [OF ok assms(2)] have "(mget (liveTurns c (run live_do live_init es)) a = None) =
      (mget (lv_expiries (run live_do live_init es)) (liveKey c a) = None)" by (simp add: turn_of_def)
  moreover have "lt_key t = liveKey c a \<and> turn_ok t" if "mget (liveTurns c (run live_do live_init es)) a = Some t" for t
    using ok that by (auto simp: session_ok_def turn_of_def)
  ultimately show ?thesis by (auto simp: turn_ok_def split: option.splits)
qed

definition demo_status :: member_status where
  "demo_status = \<lparr>ms_kind = ''agent'', ms_id = ''a'', ms_status = ''generating'', ms_activity = Some (demo_act ''tool'' ''ls'' None)\<rparr>"

lemma followed_while_timed_witness:
  "(mget (liveTurns ''c'' (run live_do live_init [Status ''c'' demo_status 0])) ''a'' = None) =
      (mget (lv_expiries (run live_do live_init [Status ''c'' demo_status 0])) (liveKey ''c'' ''a'') = None) \<and>
   mget (lv_expiries (run live_do live_init [Status ''c'' demo_status 0])) (liveKey ''c'' ''a'') = Some (''c'', ''a'', 15000) \<and>
   mget (liveTurns ''c'' (run live_do live_init [Status ''c'' demo_status 0, ExpiryTimer (liveKey ''c'' ''a'') 15000])) ''a'' = None"
proof -
  have p: "plain ''c''" by (simp add: plain_def)
  have o: "obeys step_plain live_do live_init [Status ''c'' demo_status 0]" by (simp add: p)
  have v: "mget (lv_expiries (run live_do live_init [Status ''c'' demo_status 0])) (liveKey ''c'' ''a'') = Some (''c'', ''a'', 15000)"
    by code_simp
  have e: "mget (liveTurns ''c'' (run live_do live_init [Status ''c'' demo_status 0, ExpiryTimer (liveKey ''c'' ''a'') 15000])) ''a'' = None"
    by code_simp
  show ?thesis by (intro conjI followed_while_timed [OF o p, THEN conjunct1] v e)
qed

section \<open>A headline holds\<close>

definition held_ok :: "live_state \<Rightarrow> bool" where
  "held_ok s \<longleftrightarrow> (\<forall>k e h due. mget (lv_headlines s) k = Some e \<and> he_timer e = Some (h, due) \<longrightarrow>
     he_since e + HOLD_MS \<le> due \<and> \<not> finished_tool h)"

text \<open>The operations on turns only drop headlines.\<close>

definition drops_headlines :: "live_state \<Rightarrow> live_state \<Rightarrow> bool" where
  "drops_headlines s s' \<longleftrightarrow> (\<forall>k e. mget (lv_headlines s') k = Some e \<longrightarrow> mget (lv_headlines s) k = Some e)"

lemma drops_refl [simp]: "drops_headlines s s"
  by (simp add: drops_headlines_def)

lemma drops_trans: "drops_headlines s t \<Longrightarrow> drops_headlines t u \<Longrightarrow> drops_headlines s u"
  by (simp add: drops_headlines_def)

lemma drops_same: "lv_headlines t = lv_headlines s \<Longrightarrow> drops_headlines s t"
  by (simp add: drops_headlines_def)

lemma drops_forget: "drops_headlines s (forget k r s)"
  by (simp add: drops_headlines_def forget_def Let_def)

lemma drops_fold: "(\<And>x s. drops_headlines s (f x s)) \<Longrightarrow> drops_headlines s (fold f xs s)"
  by (induction xs arbitrary: s) (auto intro: drops_trans)

lemma same_headlines [simp]: "lv_headlines (write_turns c ts s) = lv_headlines s" "lv_headlines (keep_reply c r t s) = lv_headlines s"
  "lv_headlines (expire c a now s) = lv_headlines s"
  by (simp_all add: write_turns_def keep_reply_def expire_def)

lemma drops_end: "drops_headlines s (endTurn c a r s)"
proof -
  have "drops_headlines s (case mget (liveTurns c s) a of None \<Rightarrow> s
      | Some turn \<Rightarrow> write_turns c (mdel a (liveTurns c s)) (keep_reply c r turn s))"
    by (intro drops_same) (auto split: option.splits)
  then show ?thesis unfolding endTurn_def by (rule drops_trans) (rule drops_forget)
qed

lemma snapshot_headlines: "lv_headlines (snd (snapshot_members c now ts ms ns)) = lv_headlines (snd ns)"
  by (induction ms arbitrary: ns) simp_all

lemma drops_snapshot: "drops_headlines s (presenceSnapshot c ms now s)"
proof -
  obtain nx s1 where r: "snapshot_members c now (liveTurns c s) ms ([], s) = (nx, s1)" by fastforce
  have 1: "drops_headlines s s1"
    using snapshot_headlines [of c now "liveTurns c s" ms "([], s)"] r by (intro drops_same) simp
  have 2: "drops_headlines s1 (fold (\<lambda>a s. if mget nx a = None then forget (liveKey c a) None s else s) (mkeys (liveTurns c s)) s1)"
    by (rule drops_fold) (simp add: drops_forget)
  show ?thesis
    unfolding presenceSnapshot_def Let_def r prod.case by (rule drops_trans [OF drops_trans [OF 1 2] drops_same]) simp
qed

lemma drops_leave: "drops_headlines s (endChannelTurns c s)"
  unfolding endChannelTurns_def Let_def
  by (rule drops_trans [OF drops_fold drops_same]) (simp_all add: drops_forget)

lemma drops_status: "drops_headlines s (memberStatus c m now s)"
  unfolding memberStatus_def Let_def by (auto simp: drops_end intro!: drops_same)

lemma other_steps_drop:
  assumes "\<And>k h now. e \<noteq> OfferNext k h now" and "\<And>k now. e \<noteq> HeadlineTimer k now"
  shows "drops_headlines s (live_do s e)"
  using assms by (cases e)
    (auto simp: drops_status drops_snapshot drops_leave drops_end replyPublished_def expiry_fires_def toggleTrace_def
      split: option.splits prod.splits intro!: drops_same)

lemma drops_held: "held_ok s \<Longrightarrow> drops_headlines s t \<Longrightarrow> held_ok t"
  unfolding held_ok_def drops_headlines_def by blast

lemma offer_entry_timer: "he_timer (offer_entry h now e) = Some (g, due) \<Longrightarrow>
   offer_entry h now e = e \<or> he_since (offer_entry h now e) + HOLD_MS \<le> due \<and> \<not> finished_tool g"
  by (auto simp: offer_entry_def Let_def show_headline_def HOLD_MS_def THINKING_HOLD_MS_def split: if_splits)

lemma held_ok_step: "held_ok s \<Longrightarrow> held_ok (live_do s e)"
proof (cases "(\<exists>k h now. e = OfferNext k h now) \<or> (\<exists>k now. e = HeadlineTimer k now)")
  case False
  assume "held_ok s"
  with False show ?thesis using drops_held other_steps_drop [of e s] by blast
next
  case True
  assume s: "held_ok s"
  have offer: "held_ok (offerHeadline k h now s)" for k h now
    unfolding held_ok_def
  proof (intro allI impI, elim conjE)
    fix k' e' g due
    assume e': "mget (lv_headlines (offerHeadline k h now s)) k' = Some e'" "he_timer e' = Some (g, due)"
    show "he_since e' + HOLD_MS \<le> due \<and> \<not> finished_tool g"
    proof (cases "k' = k")
      case True
      show ?thesis
      proof (cases "mget (lv_headlines s) k")
        case None
        then show ?thesis using e' True by (auto simp: offerHeadline_def)
      next
        case (Some e0)
        then have "e' = offer_entry h now e0" using e' True by (simp add: offerHeadline_def)
        then show ?thesis using offer_entry_timer [of h now e0 g due] e'(2) s Some unfolding held_ok_def by metis
      qed
    next
      case False
      then show ?thesis using e' s by (auto simp: offerHeadline_def held_ok_def)
    qed
  qed
  have fires: "held_ok (headline_fires k now s)" for k now
    using s by (auto simp: headline_fires_def held_ok_def show_headline_def split: option.splits)
  from True show ?thesis using offer fires by auto
qed

interpretation held: transition_system live_init live_do held_ok
  by unfold_locales (simp_all add: held_ok_step, simp add: held_ok_def live_init_def)

text \<open>
  A headline holds. In every run the headline of a key gives way to one with another key only by an offer or by the
  timer of a pending one, and not before half a second has passed since it was shown; the one that replaces it
  is timed from then, and a tool that finished while it waited is never what the timer shows.
\<close>
theorem headline_holds:
  assumes "s = run live_do live_init es" and "mget (lv_headlines s) k = Some old"
    and "mget (lv_headlines (live_do s e)) k = Some new" and "hl_key (he_shown new) \<noteq> hl_key (he_shown old)"
  shows "\<exists>now. he_since old + 500 \<le> now \<and> he_since new = now \<and>
    (e = OfferNext k (he_shown new) now \<or> e = HeadlineTimer k now \<and> \<not> finished_tool (he_shown new))"
proof -
  have ok: "held_ok s" unfolding assms(1) by (rule held.good_run)
  consider k' h now where "e = OfferNext k' h now" | k' now where "e = HeadlineTimer k' now" | "drops_headlines s (live_do s e)"
    using other_steps_drop [of e s] by blast
  then show ?thesis
  proof cases
    case 1
    have k: "k' = k" using assms(2-4) by (auto simp: 1 offerHeadline_def split: if_splits)
    have n: "new = offer_entry h now old" using assms(2,3) by (simp add: 1 k offerHeadline_def)
    have "he_shown new = h \<and> he_since new = now \<and> he_since old + HOLD_MS \<le> now"
      using assms(4) unfolding n
      by (auto simp: offer_entry_def Let_def show_headline_def HOLD_MS_def THINKING_HOLD_MS_def split: if_splits)
    then show ?thesis using 1 k by (simp add: HOLD_MS_def)
  next
    case 2
    have k: "k' = k" using assms(2-4) by (auto simp: 2 headline_fires_def split: option.splits if_splits)
    obtain h due where t: "he_timer old = Some (h, due)" "due \<le> now" and n: "new = show_headline h now old"
      using assms(2-4) by (auto simp: 2 k headline_fires_def split: option.splits if_splits)
    have "he_since old + HOLD_MS \<le> due" "\<not> finished_tool h"
      using ok assms(2) t(1) unfolding held_ok_def by blast+
    then show ?thesis using 2 k t n by (simp add: show_headline_def HOLD_MS_def)
  next
    case 3
    then have "new = old" using assms(2,3) by (simp add: drops_headlines_def)
    then show ?thesis using assms(4) by simp
  qed
qed

lemma headline_holds_witness:
  "\<exists>now. (0::int) + 500 \<le> now \<and> now = 500 \<and>
     heldHeadline ''k'' (run live_do live_init [OfferNext ''k'' (Words False ''n1'' ''a'') 0, OfferNext ''k'' (Words False ''n2'' ''b'') 100,
       HeadlineTimer ''k'' now]) = Some (Words False ''n2'' ''b'')"
proof -
  let ?es = "[OfferNext ''k'' (Words False ''n1'' ''a'') 0, OfferNext ''k'' (Words False ''n2'' ''b'') 100]"
  let ?old = "\<lparr>he_shown = Words False ''n1'' ''a'', he_since = 0, he_offered = Words False ''n2'' ''b'',
      he_timer = Some (Words False ''n2'' ''b'', 500)\<rparr>"
  let ?new = "\<lparr>he_shown = Words False ''n2'' ''b'', he_since = 500, he_offered = Words False ''n2'' ''b'', he_timer = None\<rparr>"
  have 1: "mget (lv_headlines (run live_do live_init ?es)) ''k'' = Some ?old" by code_simp
  have 2: "mget (lv_headlines (live_do (run live_do live_init ?es) (HeadlineTimer ''k'' 500))) ''k'' = Some ?new" by code_simp
  obtain now where "he_since ?old + 500 \<le> now" "he_since ?new = now"
    using headline_holds [OF refl 1 2] by auto
  then have n: "0 + 500 \<le> now \<and> now = 500" by simp
  have "heldHeadline ''k'' (run live_do live_init (?es @ [HeadlineTimer ''k'' 500])) = Some (Words False ''n2'' ''b'')" by code_simp
  with n show ?thesis by (intro exI [of _ now]) simp
qed

end
