(* ===== verification/Murmur_Hash.thy ===== *)
theory Murmur_Hash
  imports Js_Values "HOL-Library.Word"
begin

text \<open>
  The hash of the keyword features (\<open>clawbits/lobstertalk/tslib/src/murmurhash3.ts\<close>). JavaScript computes
  on doubles: the bit operations, \<open>Math.imul\<close> and \<open>>>>\<close> take their operands modulo $2^{32}$ and give a signed
  or an unsigned 32-bit value, which is an \<open>int\<close> here, and \<open>+\<close> adds exactly. The reference is the
  published algorithm on 32-bit words, over the bytes in blocks of four.
\<close>

unbundle bit_operations_syntax

section \<open>32-bit operations of JavaScript\<close>

abbreviation w32 :: "int \<Rightarrow> 32 word" where
  "w32 \<equiv> word_of_int"

definition js_and :: "int \<Rightarrow> int \<Rightarrow> int" where "js_and a b = sint (w32 a AND w32 b)"

definition js_or :: "int \<Rightarrow> int \<Rightarrow> int" where "js_or a b = sint (w32 a OR w32 b)"

definition js_xor :: "int \<Rightarrow> int \<Rightarrow> int" where "js_xor a b = sint (w32 a XOR w32 b)"

definition js_shl :: "int \<Rightarrow> nat \<Rightarrow> int" where "js_shl a n = sint (push_bit n (w32 a))"

definition js_shr :: "int \<Rightarrow> nat \<Rightarrow> int" where "js_shr a n = uint (drop_bit n (w32 a))"

definition imul :: "int \<Rightarrow> int \<Rightarrow> int" where "imul a b = sint (w32 a * w32 b)"

section \<open>The hash\<close>

definition code_byte :: "string \<Rightarrow> nat \<Rightarrow> int" where
  "code_byte key i = js_and (of_char (key ! i)) 0xff"

definition block_at :: "string \<Rightarrow> nat \<Rightarrow> int" where
  "block_at key i =
     js_or (js_or (js_or (code_byte key i) (js_shl (code_byte key (i + 1)) 8)) (js_shl (code_byte key (i + 2)) 16))
       (js_shl (code_byte key (i + 3)) 24)"

definition mix_k :: "int \<Rightarrow> int" where
  "mix_k k0 =
     (let k1 = imul k0 0xcc9e2d51;
          k2 = js_or (js_shl k1 15) (js_shr k1 17)
      in imul k2 0x1b873593)"

definition mix_h :: "int \<Rightarrow> int \<Rightarrow> int" where
  "mix_h h k =
     (let h1 = js_xor h k;
          h2 = js_or (js_shl h1 13) (js_shr h1 19)
      in js_shr (imul h2 5 + 0xe6546b64) 0)"

function hash_loop :: "string \<Rightarrow> nat \<Rightarrow> nat \<Rightarrow> int \<Rightarrow> int" where
  "hash_loop key bytes i h = (if i < bytes then hash_loop key bytes (i + 4) (mix_h h (mix_k (block_at key i))) else h)"
  by pat_completeness auto

termination hash_loop
  by (relation "measure (\<lambda>(key, bytes, i, h). bytes - i)") auto

declare hash_loop.simps [simp del]

text \<open>The cases of the switch fall through, from the last character of the rest to its first.\<close>

definition hash_rest :: "string \<Rightarrow> nat \<Rightarrow> nat \<Rightarrow> int \<Rightarrow> int" where
  "hash_rest key remainder i h =
     (let k3 = (if remainder = 3 then js_xor 0 (js_shl (code_byte key (i + 2)) 16) else 0);
          k2 = (if remainder \<ge> 2 then js_xor k3 (js_shl (code_byte key (i + 1)) 8) else k3)
      in if remainder \<ge> 1 then js_xor h (mix_k (js_xor k2 (code_byte key i))) else h)"

definition fmix :: "int \<Rightarrow> int" where
  "fmix h0 =
     (let h1 = js_xor h0 (js_shr h0 16);
          h2 = imul h1 0x85ebca6b;
          h3 = js_xor h2 (js_shr h2 13);
          h4 = imul h3 0xc2b2ae35
      in js_xor h4 (js_shr h4 16))"

definition murmurhash3_x86_32 :: "string \<Rightarrow> int \<Rightarrow> int" where
  "murmurhash3_x86_32 key seed =
     (let remainder = length key mod 4;
          bytes = length key - remainder;
          h1 = hash_loop key bytes 0 (js_shr seed 0);
          h2 = hash_rest key remainder bytes h1;
          h3 = js_xor h2 (int (length key))
      in js_shr (fmix h3) 0)"

section \<open>The published algorithm\<close>

definition rotl :: "nat \<Rightarrow> 32 word \<Rightarrow> 32 word" where
  "rotl n w = push_bit n w OR drop_bit (32 - n) w"

fun little_endian :: "32 word list \<Rightarrow> 32 word" where
  "little_endian [] = 0"
| "little_endian (b # bs) = b OR push_bit 8 (little_endian bs)"

definition ref_k :: "32 word \<Rightarrow> 32 word" where
  "ref_k k = rotl 15 (k * 0xcc9e2d51) * 0x1b873593"

definition ref_h :: "32 word \<Rightarrow> 32 word \<Rightarrow> 32 word" where
  "ref_h h k = rotl 13 (h XOR ref_k k) * 5 + 0xe6546b64"

fun ref_blocks :: "32 word list \<Rightarrow> 32 word \<Rightarrow> 32 word" where
  "ref_blocks (a # b # c # d # bs) h = ref_blocks bs (ref_h h (little_endian [a, b, c, d]))"
| "ref_blocks [] h = h"
| "ref_blocks bs h = h XOR ref_k (little_endian bs)"

definition ref_fmix :: "32 word \<Rightarrow> 32 word" where
  "ref_fmix h0 =
     (let h1 = h0 XOR drop_bit 16 h0; h2 = h1 * 0x85ebca6b; h3 = h2 XOR drop_bit 13 h2; h4 = h3 * 0xc2b2ae35
      in h4 XOR drop_bit 16 h4)"

definition ref_murmur :: "32 word list \<Rightarrow> 32 word \<Rightarrow> 32 word" where
  "ref_murmur bs seed = ref_fmix (ref_blocks bs seed XOR of_nat (length bs))"

definition bytes_of :: "string \<Rightarrow> 32 word list" where
  "bytes_of s = map (\<lambda>c. of_nat (of_char c)) s"

section \<open>The hash is the published one\<close>

text \<open>Every 32-bit operation agrees with the one on words, whichever of the two ranges its operands are in.\<close>

lemma w32_sint [simp]: "w32 (sint (x :: 32 word)) = x"
  by simp

lemma w32_uint [simp]: "w32 (uint (x :: 32 word)) = x"
  by simp

lemma w32_ops:
  "w32 (js_and a b) = w32 a AND w32 b"
  "w32 (js_or a b) = w32 a OR w32 b"
  "w32 (js_xor a b) = w32 a XOR w32 b"
  "w32 (js_shl a n) = push_bit n (w32 a)"
  "w32 (js_shr a n) = drop_bit n (w32 a)"
  "w32 (imul a b) = w32 a * w32 b"
  "w32 (a + b) = w32 a + w32 b"
  by (simp_all add: js_and_def js_or_def js_xor_def js_shl_def js_shr_def imul_def)

lemma low_byte: "n < 256 \<Longrightarrow> (word_of_int n :: 32 word) AND 0xff = word_of_int n" if "0 \<le> n" for n :: int
proof -
  assume n: "n < 256"
  have m: "(0xff :: 32 word) = mask 8" by (simp add: mask_eq_exp_minus_1)
  have "take_bit 8 n = n" using n that by (simp add: take_bit_int_eq_self)
  then have "take_bit 8 (word_of_int n :: 32 word) = word_of_int n" by (metis of_int_take_bit)
  then show ?thesis by (simp add: m take_bit_eq_mask)
qed

lemma char_int: "(of_char c :: int) = int (of_char c)"
  by (metis of_nat_of_char)

lemma char_word: "w32 (of_char c) = of_nat (of_char c)"
  by (metis char_int of_int_of_nat_eq)

lemma char_range: "0 \<le> (of_char c :: int)" "(of_char c :: int) < 256"
  using nat_of_char_less_256 [of c] by (simp_all only: char_int)

lemma w32_code_byte: "i < length key \<Longrightarrow> w32 (code_byte key i) = bytes_of key ! i"
  using low_byte [OF char_range, of "key ! i"]
  by (simp add: code_byte_def w32_ops bytes_of_def char_word del: of_int_of_char)

text \<open>Four bytes read one by one are a little-endian word.\<close>

lemma w32_block: "i + 3 < length key \<Longrightarrow> w32 (block_at key i) = little_endian (take 4 (drop i (bytes_of key)))"
proof -
  assume i: "i + 3 < length key"
  have l: "length (bytes_of key) = length key" by (simp add: bytes_of_def)
  have "take 4 (drop i (bytes_of key)) = [bytes_of key ! i, bytes_of key ! (i + 1), bytes_of key ! (i + 2), bytes_of key ! (i + 3)]"
    using i l by (simp add: numeral_eq_Suc take_Suc_conv_app_nth)
  then show ?thesis using i
    by (simp add: block_at_def w32_ops w32_code_byte push_bit_or or.assoc)
qed

lemma w32_mix_k: "w32 (mix_k k) = ref_k (w32 k)"
  by (simp add: mix_k_def ref_k_def rotl_def w32_ops Let_def)

lemma w32_mix_h: "w32 (mix_h h (mix_k k)) = ref_h (w32 h) (w32 k)"
  by (simp add: mix_h_def ref_h_def rotl_def w32_ops w32_mix_k Let_def)

lemma w32_fmix: "w32 (fmix h) = ref_fmix (w32 h)"
  by (simp add: fmix_def ref_fmix_def w32_ops Let_def)

text \<open>The rest is put together by exclusive or, which is the same for bytes apart.\<close>

lemma or_xor_byte: "take_bit 8 a = a \<Longrightarrow> a OR push_bit 8 x = a XOR push_bit 8 x" for a x :: "32 word"
proof (rule bit_word_eqI)
  fix n assume a: "take_bit 8 a = a"
  have "bit a n \<Longrightarrow> n < 8" by (metis a bit_take_bit_iff)
  then show "bit (a OR push_bit 8 x) n = bit (a XOR push_bit 8 x) n" by (auto simp: bit_simps)
qed

lemma byte_bits: "b \<in> set (bytes_of s) \<Longrightarrow> take_bit 8 b = b"
proof -
  assume "b \<in> set (bytes_of s)"
  then obtain c where b: "b = of_nat (of_char c)" by (auto simp: bytes_of_def)
  have "take_bit 8 (of_char c :: nat) = of_char c" by (simp add: take_bit_nat_eq_self)
  then show ?thesis unfolding b by (metis of_nat_take_bit)
qed

lemma little_endian_xor: "\<forall>b \<in> set bs. take_bit 8 b = b \<Longrightarrow> little_endian bs = foldr (\<lambda>b w. b XOR push_bit 8 w) bs 0"
  by (induction bs) (simp_all add: or_xor_byte)

lemma w32_rest:
  assumes "i = length key - length key mod 4"
  shows "w32 (hash_rest key (length key mod 4) i h) = ref_blocks (drop i (bytes_of key)) (w32 h)"
proof -
  let ?bs = "drop i (bytes_of key)"
  have n: "length ?bs = length key mod 4" using assms by (simp add: bytes_of_def)
  have x: "little_endian ?bs = foldr (\<lambda>b w. b XOR push_bit 8 w) ?bs 0"
    by (rule little_endian_xor) (metis byte_bits in_set_dropD)
  have at: "?bs ! j = w32 (code_byte key (i + j))" if "j < length key mod 4" for j
    using that assms w32_code_byte [of "i + j" key] by (simp add: bytes_of_def)
  have bs: "?bs = map (\<lambda>j. w32 (code_byte key (i + j))) [0..<length key mod 4]"
  proof (rule nth_equalityI)
    fix j assume "j < length ?bs"
    then have j: "j < length key mod 4" using n by simp
    show "?bs ! j = map (\<lambda>j. w32 (code_byte key (i + j))) [0..<length key mod 4] ! j" unfolding at [OF j] using j by simp
  qed (use n in simp)
  have u: "[0..<2] = [0, 1::nat]" "[0..<3] = [0, 1, 2::nat]" by code_simp+
  have "length key mod 4 < 4" by simp
  then consider "length key mod 4 = 0" | "length key mod 4 = 1" | "length key mod 4 = 2" | "length key mod 4 = 3" by linarith
  then show ?thesis
  proof cases
    case 1
    then show ?thesis using n by (simp add: hash_rest_def)
  next
    case 2
    then show ?thesis using x unfolding bs by (simp add: hash_rest_def w32_ops w32_mix_k)
  next
    case 3
    then show ?thesis using x unfolding bs by (simp add: u hash_rest_def w32_ops w32_mix_k xor.commute)
  next
    case 4
    then show ?thesis using x unfolding bs
      by (simp add: u hash_rest_def w32_ops w32_mix_k push_bit_xor xor.assoc xor.commute xor.left_commute)
  qed
qed

lemma w32_loop:
  "bytes = length key - length key mod 4 \<Longrightarrow> i mod 4 = 0 \<Longrightarrow> i \<le> bytes \<Longrightarrow>
   ref_blocks (drop bytes (bytes_of key)) (w32 (hash_loop key bytes i h)) = ref_blocks (drop i (bytes_of key)) (w32 h)"
proof (induction key bytes i h rule: hash_loop.induct)
  case (1 key bytes i h)
  show ?case
  proof (cases "i < bytes")
    case True
    have b: "bytes mod 4 = 0" unfolding "1.prems"(1) by (simp add: minus_mod_eq_mult_div)
    have i4: "i + 4 \<le> bytes" using True b "1.prems"(2) by presburger
    then have k: "i + 3 < length key" using "1.prems"(1) by linarith
    have d: "drop i (bytes_of key) = bytes_of key ! i # bytes_of key ! (i + 1) # bytes_of key ! (i + 2) # bytes_of key ! (i + 3) # drop (i + 4) (bytes_of key)"
    proof -
      have c: "drop j (bytes_of key) = bytes_of key ! j # drop (j + 1) (bytes_of key)" if "j < length key" for j
        using that Cons_nth_drop_Suc [of j "bytes_of key"] by (simp add: bytes_of_def)
      show ?thesis using c [of i] c [of "i + 1"] c [of "i + 2"] c [of "i + 3"] k by (simp add: numeral_eq_Suc)
    qed
    have t: "take 4 (drop i (bytes_of key)) = [bytes_of key ! i, bytes_of key ! (i + 1), bytes_of key ! (i + 2), bytes_of key ! (i + 3)]"
      unfolding d by simp
    have "ref_blocks (drop i (bytes_of key)) (w32 h) = ref_blocks (drop (i + 4) (bytes_of key)) (w32 (mix_h h (mix_k (block_at key i))))"
      unfolding w32_mix_h w32_block [OF k] t unfolding d by simp
    then show ?thesis
      using "1.IH" [OF True "1.prems"(1)] "1.prems"(2) i4 True by (subst hash_loop.simps) simp
  next
    case False
    then show ?thesis using "1.prems" by (subst hash_loop.simps) simp
  qed
qed

lemma murmur_hash: "murmurhash3_x86_32 key seed = uint (ref_murmur (bytes_of key) (word_of_int seed))"
proof -
  let ?r = "length key mod 4" and ?b = "length key - length key mod 4"
  have "w32 (hash_rest key ?r ?b (hash_loop key ?b 0 (js_shr seed 0))) = ref_blocks (bytes_of key) (w32 seed)"
    using w32_loop [of ?b key 0 "js_shr seed 0"] by (simp add: w32_rest w32_ops)
  then show ?thesis
    by (simp add: murmurhash3_x86_32_def Let_def w32_fmix w32_ops ref_murmur_def js_shr_def [of "fmix _"] bytes_of_def)
qed

text \<open>
  C14: The hash is MurmurHash3. For every string of one-byte characters and every seed, what the source computes on doubles is the
  published 32-bit algorithm on its bytes, and lies in the range of an unsigned word: no operation loses a bit to the sign
  of \<open>Math.imul\<close>, of a shift or of the sums.
\<close>
theorem murmur_is_published:
  "murmurhash3_x86_32 key seed = uint (ref_murmur (bytes_of key) (word_of_int seed))"
  by (rule murmur_hash)

lemma murmur_known: "murmurhash3_x86_32 ''hello'' 0 = 0x248bfa47 \<and> murmurhash3_x86_32 [] 1 = 0x514e28b7"
  by code_simp

end
