(* ===== verification/Chat_Features.thy ===== *)
theory Chat_Features
  imports Murmur_Hash
begin

text \<open>
  The features of a message for the addressee model (\<open>clawbits/lobstertalk/tslib/src/features.ts\<close>): a
  vector of 64 numbers. The bounded logarithm of the time since the last message is a parameter, as
  is the clock; the rounding of its entries to 32-bit floats is left out, which the other entries do not need.
\<close>

record chat_context =
  cx_last :: "rat option"
  cx_sender :: "string option"
  cx_previous :: "string option"
  cx_users :: "string list option"

definition FEATURE_DIM :: nat where "FEATURE_DIM = 64"

definition some_name :: "string option \<Rightarrow> bool" where
  "some_name x = (x \<noteq> None \<and> x \<noteq> Some [])"

fun position_of :: "string \<Rightarrow> string list \<Rightarrow> nat option" where
  "position_of x [] = None"
| "position_of x (y # ys) = (if x = y then Some 0 else map_option Suc (position_of x ys))"

definition userIndex :: "string list \<Rightarrow> string option \<Rightarrow> nat" where
  "userIndex users name =
     (if \<not> some_name name then 7
      else case position_of (the name) users of Some i \<Rightarrow> if i < 7 then i else 7 | None \<Rightarrow> 7)"

definition word_char :: "char \<Rightarrow> bool" where
  "word_char c = (is_alnum c \<or> c = CHR ''_'')"

definition cleanMessage :: "string \<Rightarrow> string" where
  "cleanMessage m = lower (filter (\<lambda>c. word_char c \<or> is_ws c) m)"

fun split_ws :: "string \<Rightarrow> string \<Rightarrow> string list" where
  "split_ws r [] = [rev r]"
| "split_ws r (c # s) = (if is_ws c then rev r # split_ws [] s else split_ws (c # r) s)"

text \<open>The loop skips empty tokens, so white space may be split one by one.\<close>

definition message_tokens :: "string \<Rightarrow> string list" where
  "message_tokens m = filter (\<lambda>t. t \<noteq> []) (split_ws [] (cleanMessage m))"

definition bucket :: "string \<Rightarrow> nat" where
  "bucket token = nat (js_shr (murmurhash3_x86_32 token 0) 0 mod 32)"

fun mentioned :: "string \<Rightarrow> string list" where
  "mentioned [] = []"
| "mentioned (c # s) =
     (if c = CHR ''@'' \<and> takeWhile word_char s \<noteq> [] then takeWhile word_char s # mentioned s else mentioned s)"

definition mention_flag :: "string list \<Rightarrow> string \<Rightarrow> bool" where
  "mention_flag users m = (users \<noteq> [] \<and> list_ex (\<lambda>x. lower x \<in> lower ` set users) (mentioned m))"

definition set_senders :: "string list \<Rightarrow> chat_context option \<Rightarrow> rat list \<Rightarrow> rat list" where
  "set_senders users ctx v =
     (let v1 = v[userIndex users (Option.bind ctx cx_sender) := 1]
      in if some_name (Option.bind ctx cx_previous) then v1[8 + userIndex users (Option.bind ctx cx_previous) := 1] else v1)"

definition time_feature :: "(rat \<Rightarrow> rat) \<Rightarrow> rat \<Rightarrow> chat_context option \<Rightarrow> rat" where
  "time_feature logRatio now ctx = (case Option.bind ctx cx_last of
      None \<Rightarrow> 1
    | Some t \<Rightarrow> logRatio (max 0 ((now - t) / 1000)))"

definition set_tokens :: "string list \<Rightarrow> rat list \<Rightarrow> rat list" where
  "set_tokens tokens v = foldl (\<lambda>v t. v[18 + bucket t := 1]) v tokens"

definition extractFeatures :: "(rat \<Rightarrow> rat) \<Rightarrow> rat \<Rightarrow> string option \<Rightarrow> chat_context option \<Rightarrow> rat list option" where
  "extractFeatures logRatio now message ctx = (case message of
      None \<Rightarrow> None
    | Some m \<Rightarrow>
        (let users = (case Option.bind ctx cx_users of Some us \<Rightarrow> us | None \<Rightarrow> []);
             v1 = set_senders users ctx (replicate FEATURE_DIM 0);
             v2 = v1[16 := time_feature logRatio now ctx];
             v3 = v2[17 := of_nat (min (length m) 256) / 256];
             v4 = set_tokens (message_tokens m) v3
         in Some (if mention_flag users m then v4[50 := 1] else v4)))"

section \<open>The layout\<close>

lemma userIndex_less: "userIndex users name < 8"
  by (auto simp: userIndex_def split: option.splits)

text \<open>A keyword falls into the bucket that the last five bits of the published hash name.\<close>

lemma bucket_is_hash: "bucket t = unat (ref_murmur (bytes_of t) 0) mod 32"
proof -
  have "js_shr (murmurhash3_x86_32 t 0) 0 = uint (ref_murmur (bytes_of t) 0)"
    by (simp add: js_shr_def murmur_hash)
  then show ?thesis by (simp add: bucket_def nat_mod_distrib flip: nat_uint_eq)
qed

lemma length_set_tokens [simp]: "length (set_tokens ts v) = length v"
  unfolding set_tokens_def by (induction ts arbitrary: v) simp_all

lemma nth_set_tokens: "i < length v \<Longrightarrow> 18 + 31 < length v \<Longrightarrow>
  set_tokens ts v ! i = (if i \<in> (\<lambda>t. 18 + bucket t) ` set ts then 1 else v ! i)"
proof (induction ts arbitrary: v)
  case (Cons t ts)
  have "bucket t < 32" by (simp add: bucket_is_hash)
  then show ?case using Cons by (auto simp: set_tokens_def nth_list_update)
qed (simp add: set_tokens_def)

lemma length_set_senders [simp]: "length (set_senders users ctx v) = length v"
  by (simp add: set_senders_def Let_def)

lemma nth_set_senders: "length v = 64 \<Longrightarrow> i < 64 \<Longrightarrow>
  set_senders users ctx v ! i =
    (if i = userIndex users (Option.bind ctx cx_sender) \<or>
        some_name (Option.bind ctx cx_previous) \<and> i = 8 + userIndex users (Option.bind ctx cx_previous) then 1 else v ! i)"
  using userIndex_less [of users "Option.bind ctx cx_sender"] userIndex_less [of users "Option.bind ctx cx_previous"]
  by (auto simp: set_senders_def Let_def nth_list_update)

text \<open>
  The vector has the layout the protocol gives it. It has 64 entries; among the first eight exactly the sender's place
  is set, and among the next eight the previous sender's or none; a keyword bucket is set if and only if some token of the message has
  a MurmurHash3 value equal to it modulo 32; the length is in units of 256 characters, at most one; the
  mention flag tells whether an active user is mentioned; and the thirteen last entries are zero.
\<close>
theorem feature_layout:
  assumes "extractFeatures lg now (Some m) ctx = Some v" and "users = (case Option.bind ctx cx_users of Some us \<Rightarrow> us | None \<Rightarrow> [])"
  shows "length v = 64 \<and>
    map (\<lambda>i. v ! i) [0..<8] = map (\<lambda>i. if i = userIndex users (Option.bind ctx cx_sender) then 1 else 0) [0..<8] \<and>
    map (\<lambda>i. v ! (8 + i)) [0..<8] = map (\<lambda>i. if some_name (Option.bind ctx cx_previous) \<and>
        i = userIndex users (Option.bind ctx cx_previous) then 1 else 0) [0..<8] \<and>
    map (\<lambda>b. v ! (18 + b)) [0..<32] =
      map (\<lambda>b. if b \<in> (\<lambda>t. unat (ref_murmur (bytes_of t) 0) mod 32) ` set (message_tokens m) then 1 else 0) [0..<32] \<and>
    0 \<le> v ! 17 \<and> v ! 17 \<le> 1 \<and> v ! 50 = (if mention_flag users m then 1 else 0) \<and>
    map (\<lambda>i. v ! (51 + i)) [0..<13] = replicate 13 0"
proof -
  let ?u = "userIndex users (Option.bind ctx cx_sender)" and ?p = "userIndex users (Option.bind ctx cx_previous)"
  let ?w = "set_senders users ctx (replicate 64 0)" and ?l = "of_nat (min (length m) 256) / 256 :: rat"
  let ?x = "?w[16 := time_feature lg now ctx, 17 := ?l]"
  have v: "v = (let v4 = set_tokens (message_tokens m) ?x in if mention_flag users m then v4[50 := 1] else v4)"
    using assms by (simp add: extractFeatures_def Let_def FEATURE_DIM_def)
  have l: "length v = 64" unfolding v by (simp add: Let_def)
  have u: "?u < 8" "?p < 8" by (rule userIndex_less)+
  have n: "v ! i = (if i = 50 \<and> mention_flag users m \<or> i \<in> (\<lambda>t. 18 + bucket t) ` set (message_tokens m) then 1
      else if i = 17 then ?l else if i = 16 then time_feature lg now ctx
      else if i = ?u \<or> some_name (Option.bind ctx cx_previous) \<and> i = 8 + ?p then 1 else 0)" if "i < 64" for i
    using that by (simp add: v Let_def nth_list_update nth_set_tokens nth_set_senders)
  have b: "bucket t < 32" for t by (simp add: bucket_is_hash)
  have nb: "j \<notin> (\<lambda>t. 18 + bucket t) ` X" if "j < 18 \<or> 50 \<le> j" for j X
  proof
    assume "j \<in> (\<lambda>t. 18 + bucket t) ` X"
    then obtain t where "j = 18 + bucket t" by blast
    with b [of t] that show False by linarith
  qed
  show ?thesis
  proof (intro conjI)
    show "map (\<lambda>b. v ! (18 + b)) [0..<32] =
        map (\<lambda>b. if b \<in> (\<lambda>t. unat (ref_murmur (bytes_of t) 0) mod 32) ` set (message_tokens m) then 1 else 0) [0..<32]"
      using u by (intro map_cong refl) (auto simp: n bucket_is_hash)
    show "map (\<lambda>i. v ! (51 + i)) [0..<13] = replicate 13 0"
      using u by (intro nth_equalityI) (simp_all add: n nb)
  qed (use u in \<open>auto simp: l n nb\<close>)
qed

definition demo_context :: chat_context where
  "demo_context = \<lparr>cx_last = None, cx_sender = Some ''bob'', cx_previous = None, cx_users = Some [''Ann'', ''bob'']\<rparr>"

lemma feature_layout_witness:
  "\<exists>v. extractFeatures (\<lambda>_. 0) 0 (Some ''hi @ann'') (Some demo_context) = Some v \<and> length v = 64 \<and> v ! 50 = 1 \<and>
     map (\<lambda>i. v ! i) [0..<8] = [0, 1, 0, 0, 0, 0, 0, 0]"
proof -
  obtain v where v: "extractFeatures (\<lambda>_. 0) 0 (Some ''hi @ann'') (Some demo_context) = Some v"
    by (simp add: extractFeatures_def Let_def)
  have u: "(case Option.bind (Some demo_context) cx_users of Some us \<Rightarrow> us | None \<Rightarrow> []) = [''Ann'', ''bob'']" by (simp add: demo_context_def)
  have i: "map (\<lambda>i. if i = userIndex [''Ann'', ''bob''] (Option.bind (Some demo_context) cx_sender) then 1 else 0) [0..<8] =
      ([0, 1, 0, 0, 0, 0, 0, 0] :: rat list)" by code_simp
  have m: "mention_flag [''Ann'', ''bob''] ''hi @ann''" by code_simp
  note l = feature_layout [OF v u [symmetric]]
  have "length v = 64" by (rule l [THEN conjunct1])
  moreover have "v ! 50 = 1"
    using l [THEN conjunct2, THEN conjunct2, THEN conjunct2, THEN conjunct2, THEN conjunct2, THEN conjunct2, THEN conjunct1]
    unfolding if_P [OF m] .
  moreover have "map (\<lambda>i. v ! i) [0..<8] = [0, 1, 0, 0, 0, 0, 0, 0]"
    using l [THEN conjunct2, THEN conjunct1] unfolding i .
  ultimately show ?thesis using v by (intro exI [of _ v] conjI)
qed

end
