(* ===== verification/Dispatch_Guard.thy ===== *)
theory Dispatch_Guard
  imports Js_Values
begin

text \<open>
  One dispatch per session at a time (\<open>plugin/src/inbound-dispatch-guard.ts\<close>). A call chains its tail behind the
  tail it finds in the map, waits for that one, runs, and releases its own whether the run returned or threw.
  A call is its number in the order of entering; its tail is resolved once it has finished. The steps
  are the pieces between the awaits, in any order the scheduler takes them.
\<close>

section \<open>The target\<close>

record guard_target =
  gt_session :: string
  gt_agent :: "string option"

text \<open>The argument is what the host's router answers, \<open>undefined\<close> where there is none.\<close>

definition resolveInboundDispatchGuardTarget :: "jsval \<Rightarrow> guard_target option" where
  "resolveInboundDispatchGuardTarget route = (case as_str (jget route ''sessionKey'') of
      Some (c # k) \<Rightarrow> Some \<lparr>gt_session = c # k, gt_agent = as_str (jget route ''agentId'')\<rparr>
    | _ \<Rightarrow> None)"

section \<open>The locks\<close>

datatype call_phase = Queued | Running | Finished

record guard_call =
  gc_key :: string
  gc_after :: "nat option"
  gc_phase :: call_phase

record guard =
  locks :: "(string, nat) jsmap"
  calls :: "guard_call list"

definition guard_init :: guard where
  "guard_init = \<lparr>locks = [], calls = []\<rparr>"

definition set_phase :: "nat \<Rightarrow> call_phase \<Rightarrow> guard \<Rightarrow> guard" where
  "set_phase n p s = s\<lparr>calls := (calls s)[n := (calls s ! n)\<lparr>gc_phase := p\<rparr>]\<rparr>"

text \<open>Up to \<open>await previous\<close>, after it, and the \<open>finally\<close> block.\<close>

definition enter :: "string \<Rightarrow> guard \<Rightarrow> guard" where
  "enter key s =
     s\<lparr>calls := calls s @ [\<lparr>gc_key = key, gc_after = mget (locks s) key, gc_phase = Queued\<rparr>],
       locks := mset_key key (length (calls s)) (locks s)\<rparr>"

definition begin_run :: "nat \<Rightarrow> guard \<Rightarrow> guard" where
  "begin_run n s = set_phase n Running s"

definition release :: "nat \<Rightarrow> guard \<Rightarrow> guard" where
  "release n s =
     (let s1 = set_phase n Finished s; key = gc_key (calls s ! n) in
      if mget (locks s1) key = Some n then s1\<lparr>locks := mdel key (locks s1)\<rparr> else s1)"

definition resolved :: "guard \<Rightarrow> nat option \<Rightarrow> bool" where
  "resolved s p = (case p of None \<Rightarrow> True | Some n \<Rightarrow> gc_phase (calls s ! n) = Finished)"

definition startable :: "guard \<Rightarrow> nat \<Rightarrow> bool" where
  "startable s n = (gc_phase (calls s ! n) = Queued \<and> resolved s (gc_after (calls s ! n)))"

inductive guard_step :: "guard \<Rightarrow> guard \<Rightarrow> bool" where
  enters: "key \<noteq> [] \<Longrightarrow> guard_step s (enter key s)"
| starts: "n < length (calls s) \<Longrightarrow> startable s n \<Longrightarrow> guard_step s (begin_run n s)"
| finishes: "n < length (calls s) \<Longrightarrow> gc_phase (calls s ! n) = Running \<Longrightarrow> guard_step s (release n s)"

inductive_cases guard_stepE: "guard_step s t"

inductive guarded :: "guard \<Rightarrow> bool" where
  init: "guarded guard_init"
| step: "guarded s \<Longrightarrow> guard_step s t \<Longrightarrow> guarded t"

section \<open>What the chain of tails promises\<close>

text \<open>The calls of one key, by their numbers.\<close>

definition keyed :: "guard \<Rightarrow> string \<Rightarrow> nat set" where
  "keyed s k = {n. n < length (calls s) \<and> gc_key (calls s ! n) = k}"

definition unfinished :: "guard \<Rightarrow> string \<Rightarrow> nat set" where
  "unfinished s k = {n \<in> keyed s k. gc_phase (calls s ! n) \<noteq> Finished}"

text \<open>
  The last unfinished call of a key is the one its entry in the map names, each call waits for the call of its key before
  it, and whoever left the queue found every earlier call of its key finished.
\<close>

definition locks_ok :: "guard \<Rightarrow> string \<Rightarrow> bool" where
  "locks_ok s k = (case mget (locks s) k of
      Some n \<Rightarrow> n \<in> unfinished s k \<and> (\<forall>m \<in> keyed s k. m \<le> n)
    | None \<Rightarrow> unfinished s k = {})"

definition chain_ok :: "guard \<Rightarrow> string \<Rightarrow> nat \<Rightarrow> bool" where
  "chain_ok s k n = (case gc_after (calls s ! n) of
      Some p \<Rightarrow> p \<in> keyed s k \<and> p < n \<and> (\<forall>m \<in> keyed s k. m < n \<longrightarrow> m \<le> p)
    | None \<Rightarrow> (\<forall>m \<in> keyed s k. m < n \<longrightarrow> gc_phase (calls s ! m) = Finished))"

definition fifo_ok :: "guard \<Rightarrow> string \<Rightarrow> nat \<Rightarrow> bool" where
  "fifo_ok s k n = (gc_phase (calls s ! n) \<noteq> Queued \<longrightarrow> (\<forall>m \<in> keyed s k. m < n \<longrightarrow> gc_phase (calls s ! m) = Finished))"

definition guard_ok :: "guard \<Rightarrow> bool" where
  "guard_ok s \<longleftrightarrow> (\<forall>k. locks_ok s k \<and> (\<forall>n \<in> keyed s k. chain_ok s k n \<and> fifo_ok s k n))"

lemma guard_okD:
  assumes "guard_ok s"
  shows "locks_ok s k" and "n \<in> keyed s k \<Longrightarrow> chain_ok s k n" and "n \<in> keyed s k \<Longrightarrow> fifo_ok s k n"
  using assms by (simp_all add: guard_ok_def)

lemma keyed_enter: "keyed (enter key s) k = (if k = key then insert (length (calls s)) (keyed s k) else keyed s k)"
  by (auto simp: keyed_def enter_def nth_append less_Suc_eq)

lemma call_enter: "n < length (calls s) \<Longrightarrow> calls (enter key s) ! n = calls s ! n"
  by (simp add: enter_def nth_append)

lemma call_entered [simp]: "calls (enter key s) ! length (calls s) = \<lparr>gc_key = key, gc_after = mget (locks s) key, gc_phase = Queued\<rparr>"
  by (simp add: enter_def)

lemma keyed_less: "n \<in> keyed s k \<Longrightarrow> n < length (calls s)"
  by (simp add: keyed_def)

lemma unfinished_enter: "unfinished (enter key s) k = (if k = key then insert (length (calls s)) (unfinished s k) else unfinished s k)"
  by (auto simp: unfinished_def keyed_enter call_enter keyed_less)

lemma enter_ok:
  assumes "guard_ok s"
  shows "guard_ok (enter key s)"
  unfolding guard_ok_def
proof (intro allI conjI ballI)
  fix k
  have l: "mget (locks (enter key s)) k = (if k = key then Some (length (calls s)) else mget (locks s) k)" by (simp add: enter_def)
  show "locks_ok (enter key s) k"
    using guard_okD(1) [OF assms, of k] keyed_less [of _ s k]
    by (auto simp: locks_ok_def l unfinished_enter keyed_enter less_imp_le split: option.splits)
  fix n assume n: "n \<in> keyed (enter key s) k"
  have old: "m \<in> keyed s k" if "m \<in> keyed (enter key s) k" "m < length (calls s)" for m
    using that by (auto simp: keyed_enter split: if_splits)
  show "chain_ok (enter key s) k n"
  proof (cases "n = length (calls s)")
    case False
    then have n1: "n \<in> keyed s k" using n by (auto simp: keyed_enter split: if_splits)
    have e: "m \<in> keyed (enter key s) k \<Longrightarrow> m < n \<Longrightarrow> m \<in> keyed s k" for m
      using old [of m] keyed_less [OF n1] by simp
    have k: "m \<in> keyed s k \<Longrightarrow> m \<in> keyed (enter key s) k" for m by (auto simp: keyed_enter)
    have c: "m < n \<Longrightarrow> calls (enter key s) ! m = calls s ! m" for m using keyed_less [OF n1] by (simp add: call_enter)
    show ?thesis using guard_okD(2) [OF assms n1]
      unfolding chain_ok_def call_enter [OF keyed_less [OF n1]] by (auto split: option.splits simp: c dest: e k)
  next
    case True
    then have k: "k = key" using n keyed_less [of n s k] by (auto simp: keyed_enter split: if_splits)
    show ?thesis
    proof (cases "mget (locks s) key")
      case None
      then have "unfinished s key = {}" using guard_okD(1) [OF assms, of key] by (simp add: locks_ok_def)
      then show ?thesis using old by (auto simp: chain_ok_def True k None unfinished_def call_enter)
    next
      case (Some p)
      then have "p \<in> unfinished s key" "\<forall>m \<in> keyed s key. m \<le> p" using guard_okD(1) [OF assms, of key] by (simp_all add: locks_ok_def)
      then show ?thesis using old by (auto simp: chain_ok_def True k Some unfinished_def keyed_enter keyed_less)
    qed
  qed
  show "fifo_ok (enter key s) k n"
  proof (cases "n = length (calls s)")
    case False
    then have n1: "n \<in> keyed s k" using n by (auto simp: keyed_enter split: if_splits)
    then have l: "n < length (calls s)" by (rule keyed_less)
    show ?thesis using guard_okD(3) [OF assms n1] old l unfolding fifo_ok_def call_enter [OF l]
      by (auto simp: call_enter)
  qed (simp add: fifo_ok_def)
qed

text \<open>A change of phase leaves the calls and the chain; what it may break is seen at its own call only.\<close>

lemma keyed_phase [simp]: "keyed (set_phase n p s) k = keyed s k"
  by (cases "n < length (calls s)") (auto simp: keyed_def set_phase_def nth_list_update)

lemma phase_of_call: "n < length (calls s) \<Longrightarrow> calls (set_phase n p s) ! m = (if m = n then (calls s ! n)\<lparr>gc_phase := p\<rparr> else calls s ! m)"
  by (simp add: set_phase_def nth_list_update)

lemma locks_phase [simp]: "locks (set_phase n p s) = locks s"
  by (simp add: set_phase_def)

lemma earlier_finished:
  assumes "guard_ok s" and "n \<in> keyed s k" and "resolved s (gc_after (calls s ! n))" and "m \<in> keyed s k" and "m < n"
  shows "gc_phase (calls s ! m) = Finished"
proof (cases "gc_after (calls s ! n)")
  case None
  then show ?thesis using guard_okD(2) [OF assms(1,2)] assms(4,5) by (simp add: chain_ok_def)
next
  case (Some p)
  then have p: "p \<in> keyed s k" "m \<le> p" "gc_phase (calls s ! p) = Finished"
    using guard_okD(2) [OF assms(1,2)] assms(3-5) by (auto simp: chain_ok_def resolved_def)
  then show ?thesis using guard_okD(3) [OF assms(1) p(1)] assms(4) by (cases "m = p") (auto simp: fifo_ok_def)
qed

lemma begin_ok:
  assumes "guard_ok s" and "n < length (calls s)" and "startable s n"
  shows "guard_ok (begin_run n s)"
  unfolding guard_ok_def begin_run_def
proof (intro allI conjI ballI)
  have q: "gc_phase (calls s ! n) = Queued" "resolved s (gc_after (calls s ! n))" using assms(3) by (simp_all add: startable_def)
  fix k
  have ph: "gc_phase (calls (set_phase n Running s) ! m) = Finished \<longleftrightarrow> gc_phase (calls s ! m) = Finished" for m
    using q by (simp add: phase_of_call [OF assms(2)])
  then have u: "unfinished (set_phase n Running s) k = unfinished s k" by (simp add: unfinished_def)
  show "locks_ok (set_phase n Running s) k" using guard_okD(1) [OF assms(1), of k] by (simp add: locks_ok_def u split: option.splits)
  fix m assume m: "m \<in> keyed (set_phase n Running s) k"
  have a: "gc_after (calls (set_phase n Running s) ! m) = gc_after (calls s ! m)" by (simp add: phase_of_call [OF assms(2)])
  show "chain_ok (set_phase n Running s) k m"
    using guard_okD(2) [OF assms(1), of m k] m unfolding chain_ok_def a ph by (auto split: option.splits)
  show "fifo_ok (set_phase n Running s) k m"
  proof (cases "m = n")
    case True
    then show ?thesis using earlier_finished [OF assms(1) _ q(2)] m unfolding fifo_ok_def ph by simp
  next
    case False
    then show ?thesis using guard_okD(3) [OF assms(1), of m k] m unfolding fifo_ok_def ph by (simp add: phase_of_call [OF assms(2)])
  qed
qed

lemma release_ok:
  assumes "guard_ok s" and "n < length (calls s)" and "gc_phase (calls s ! n) = Running"
  shows "guard_ok (release n s)"
  unfolding guard_ok_def
proof (intro allI conjI ballI)
  let ?t = "set_phase n Finished s" and ?key = "gc_key (calls s ! n)"
  have c: "calls (release n s) = calls ?t" by (simp add: release_def Let_def)
  have l: "mget (locks (release n s)) k = (if k = ?key \<and> mget (locks s) k = Some n then None else mget (locks s) k)" for k
    by (auto simp: release_def Let_def)
  have ky: "keyed (release n s) k = keyed s k" for k using keyed_phase [of n Finished s k] by (simp add: keyed_def c)
  have ph: "gc_phase (calls (release n s) ! m) = (if m = n then Finished else gc_phase (calls s ! m))" for m
    by (simp add: c phase_of_call [OF assms(2)])
  have u: "unfinished (release n s) k = unfinished s k - {n}" for k by (auto simp: unfinished_def ky ph)
  have nk: "n \<in> keyed s k \<longleftrightarrow> k = ?key" for k using assms(2) by (auto simp: keyed_def)
  have before: "m \<in> keyed s ?key \<Longrightarrow> m < n \<Longrightarrow> gc_phase (calls s ! m) = Finished" for m
    using guard_okD(3) [OF assms(1), of n ?key] nk assms(3) by (simp add: fifo_ok_def)
  fix k
  show "locks_ok (release n s) k"
  proof (cases "mget (locks s) k")
    case None
    then show ?thesis using guard_okD(1) [OF assms(1), of k] by (simp add: locks_ok_def l u)
  next
    case (Some p)
    then have p: "p \<in> unfinished s k" "\<forall>m \<in> keyed s k. m \<le> p" using guard_okD(1) [OF assms(1), of k] by (simp_all add: locks_ok_def)
    show ?thesis
    proof (cases "p = n")
      case True
      then have k: "k = ?key" using p(1) nk by (simp add: unfinished_def)
      have "unfinished s k - {n} = {}"
        using p(2) before k True by (auto simp: unfinished_def) (metis le_neq_implies_less)
      then show ?thesis using Some True k by (simp add: locks_ok_def l u)
    next
      case False
      then show ?thesis using Some p by (simp add: locks_ok_def l u ky)
    qed
  qed
  fix m assume m: "m \<in> keyed (release n s) k"
  have a: "gc_after (calls (release n s) ! m) = gc_after (calls s ! m)" by (simp add: c phase_of_call [OF assms(2)])
  show "chain_ok (release n s) k m"
    using guard_okD(2) [OF assms(1), of m k] m unfolding chain_ok_def a ky ph by (auto split: option.splits)
  show "fifo_ok (release n s) k m"
    using guard_okD(3) [OF assms(1), of m k] m before nk unfolding fifo_ok_def ky ph by (auto split: if_splits)
qed

lemma guarded_ok: "guarded s \<Longrightarrow> guard_ok s"
proof (induction rule: guarded.induct)
  case init
  show ?case by (simp add: guard_ok_def locks_ok_def unfinished_def keyed_def guard_init_def)
next
  case (step s t)
  from step.hyps(2) step.IH show ?case by (cases rule: guard_step.cases) (simp_all add: enter_ok begin_ok release_ok)
qed

section \<open>Properties\<close>

text \<open>
  C15: Dispatches of one session run one at a time, in the order they came. In every reachable state a call that has left the queue
  found every earlier call of its session finished; so no two are running, and none overtakes another.
\<close>
theorem dispatches_in_turn:
  assumes "guarded s" and "n < length (calls s)" and "gc_phase (calls s ! n) \<noteq> Queued"
    and "m < n" and "gc_key (calls s ! m) = gc_key (calls s ! n)"
  shows "gc_phase (calls s ! m) = Finished"
proof -
  have "n \<in> keyed s (gc_key (calls s ! n))" "m \<in> keyed s (gc_key (calls s ! n))" using assms by (simp_all add: keyed_def)
  with guard_okD(3) [OF guarded_ok [OF assms(1)]] assms(3,4) show ?thesis unfolding fifo_ok_def by blast
qed

text \<open>
  The queue of a session never sticks. While a session has an unfinished call, one of its calls is running or can start at
  once, whatever other sessions do; and its entry is in the map exactly while it has one, so an idle session leaves nothing
  behind.
\<close>
theorem queue_never_sticks:
  assumes "guarded s"
  shows "(mget (locks s) k = None) = (unfinished s k = {}) \<and>
    (unfinished s k = {} \<or> (\<exists>n \<in> keyed s k. gc_phase (calls s ! n) = Running \<or> startable s n))"
proof -
  have ok: "guard_ok s" by (rule guarded_ok [OF assms])
  have 1: "(mget (locks s) k = None) = (unfinished s k = {})"
    using guard_okD(1) [OF ok, of k] by (cases "mget (locks s) k") (auto simp: locks_ok_def)
  have "\<exists>n \<in> keyed s k. gc_phase (calls s ! n) = Running \<or> startable s n" if "n \<in> unfinished s k" for n
    using that
  proof (induction n rule: less_induct)
    case (less n)
    then have n: "n \<in> keyed s k" "gc_phase (calls s ! n) \<noteq> Finished" by (simp_all add: unfinished_def)
    show ?case
    proof (cases "gc_phase (calls s ! n) = Running \<or> startable s n")
      case True
      then show ?thesis using n by blast
    next
      case False
      then obtain p where p: "gc_after (calls s ! n) = Some p" "gc_phase (calls s ! p) \<noteq> Finished"
        using n by (cases "gc_phase (calls s ! n)") (auto simp: startable_def resolved_def split: option.splits)
      then have "p < n" "p \<in> unfinished s k" using guard_okD(2) [OF ok n(1)] by (auto simp: chain_ok_def unfinished_def)
      then show ?thesis by (rule less.IH)
    qed
  qed
  with 1 show ?thesis by blast
qed

text \<open>Two calls of one session and one of another: the second waits while the third runs.\<close>

definition guard_demo :: guard where
  "guard_demo = begin_run 2 (begin_run 0 (enter ''b'' (enter ''a'' (enter ''a'' guard_init))))"

lemma guard_demo_reachable: "guarded guard_demo"
proof -
  have 1: "guarded (enter ''b'' (enter ''a'' (enter ''a'' guard_init)))"
    by (intro guarded.step [OF _ enters] guarded.init) simp_all
  have 2: "guarded (begin_run 0 (enter ''b'' (enter ''a'' (enter ''a'' guard_init))))"
    by (rule guarded.step [OF 1 starts]) (simp_all add: enter_def guard_init_def startable_def resolved_def)
  show ?thesis unfolding guard_demo_def
    by (rule guarded.step [OF 2 starts]) (simp_all add: enter_def guard_init_def startable_def resolved_def begin_run_def set_phase_def)
qed

lemma dispatches_in_turn_witness:
  "guarded (release 0 guard_demo) \<and> gc_phase (calls (begin_run 1 (release 0 guard_demo)) ! 0) = Finished \<and>
   \<not> startable guard_demo 1 \<and> gc_phase (calls guard_demo ! 2) = Running"
proof -
  have v: "length (calls guard_demo) = 3" "gc_phase (calls guard_demo ! 0) = Running" "length (calls (release 0 guard_demo)) = 3"
    "startable (release 0 guard_demo) 1" "length (calls (begin_run 1 (release 0 guard_demo))) = 3"
    "gc_phase (calls (begin_run 1 (release 0 guard_demo)) ! 1) = Running"
    "gc_key (calls (begin_run 1 (release 0 guard_demo)) ! 0) = gc_key (calls (begin_run 1 (release 0 guard_demo)) ! 1)"
    "\<not> startable guard_demo 1" "gc_phase (calls guard_demo ! 2) = Running"
    by code_simp+
  have r: "guarded (release 0 guard_demo)" by (rule guarded.step [OF guard_demo_reachable finishes]) (simp_all add: v)
  have b: "guarded (begin_run 1 (release 0 guard_demo))" by (rule guarded.step [OF r starts]) (use v in simp_all)
  have "gc_phase (calls (begin_run 1 (release 0 guard_demo)) ! 0) = Finished"
    by (rule dispatches_in_turn [OF b, of 1 0]) (use v in simp_all)
  with r v show ?thesis by simp
qed

lemma queue_never_sticks_witness:
  "(mget (locks guard_demo) ''a'' = None) = (unfinished guard_demo ''a'' = {}) \<and> mget (locks guard_demo) ''a'' = Some 1"
proof -
  have "mget (locks guard_demo) ''a'' = Some 1" by code_simp
  with queue_never_sticks [OF guard_demo_reachable, of "''a''"] show ?thesis by blast
qed

end
