(* ===== verification/Thinking_Tail.thy ===== *)
theory Thinking_Tail
  imports Sanitize
begin

text \<open>
  The tail of the thinking text that the status lane shows (\<open>sanitizeThinkingTail\<close> of
  \<open>plugin/src/activity/sanitize.ts\<close>): code and markdown out, paragraphs into sentences, the last thousand
  characters. Each replacement by a regular expression is a function over the text and, where the
  expression looks behind, the text before it. Letters and numbers are those of the Windows code page,
  whose characters beyond ASCII are a byte of the model.
\<close>

definition THINKING_TAIL_MAX_CHARS :: nat where "THINKING_TAIL_MAX_CHARS = 1000"

section \<open>Code\<close>

definition TICK :: char where "TICK = CHR 0x60"

definition FENCE :: string where "FENCE = [TICK, TICK, TICK]"

text \<open>What follows the first fence.\<close>

fun after_fence :: "string \<Rightarrow> string option" where
  "after_fence [] = None"
| "after_fence (c # s) = (if starts_with (c # s) FENCE then Some (drop 2 s) else after_fence s)"

lemma after_fence_length: "after_fence s = Some r \<Longrightarrow> length r < length s"
  by (induction s) (auto split: if_splits)

text \<open>A fenced block becomes a space; a fence that nothing closes stays.\<close>

function drop_fences :: "string \<Rightarrow> string" where
  "drop_fences [] = []"
| "drop_fences (c # s) =
     (if starts_with (c # s) FENCE
      then (case after_fence (drop 2 s) of Some r \<Rightarrow> CHR '' '' # drop_fences r | None \<Rightarrow> c # drop_fences s)
      else c # drop_fences s)"
  by pat_completeness auto

termination drop_fences
  by (relation "measure length") (auto dest: after_fence_length)

text \<open>Inline code loses its ticks.\<close>

function drop_ticks :: "string \<Rightarrow> string" where
  "drop_ticks [] = []"
| "drop_ticks (c # s) =
     (if c = TICK \<and> TICK \<in> set s
      then takeWhile (\<lambda>x. x \<noteq> TICK) s @ drop_ticks (tl (dropWhile (\<lambda>x. x \<noteq> TICK) s))
      else c # drop_ticks s)"
  by pat_completeness auto

termination drop_ticks
proof (relation "measure length")
  fix c :: char and s :: string
  have "length (tl (dropWhile (\<lambda>x. x \<noteq> TICK) s)) \<le> length s" using length_dropWhile_le [of "\<lambda>x. x \<noteq> TICK" s] by simp
  then show "(tl (dropWhile (\<lambda>x. x \<noteq> TICK) s), c # s) \<in> measure length" by simp
qed auto

section \<open>Markdown\<close>

text \<open>\<open>\p{L}\<close> and \<open>\p{N}\<close>\<close>

definition uni_letter :: "char \<Rightarrow> bool" where
  "uni_letter c = (let n = of_char c :: nat in
     is_upper c \<or> is_lower c \<or> n \<in> {0x83, 0x88, 0x8A, 0x8C, 0x8E, 0x9A, 0x9C, 0x9E, 0x9F, 0xAA, 0xB5, 0xBA} \<or>
     192 \<le> n \<and> n \<noteq> 215 \<and> n \<noteq> 247)"

definition uni_number :: "char \<Rightarrow> bool" where
  "uni_number c = (is_digit c \<or> (of_char c :: nat) \<in> {0xB2, 0xB3, 0xB9, 0xBC, 0xBD, 0xBE})"

definition in_word :: "char option \<Rightarrow> bool" where
  "in_word x = (case x of Some c \<Rightarrow> uni_letter c \<or> uni_number c | None \<Rightarrow> False)"

definition mark :: "char \<Rightarrow> bool" where
  "mark c = (c = CHR ''*'' \<or> c = CHR ''#'' \<or> c = CHR ''>'')"

definition head_char :: "string \<Rightarrow> char option" where
  "head_char s = (case s of [] \<Rightarrow> None | c # _ \<Rightarrow> Some c)"

text \<open>
  \<open>/[*#>]+|(?<!\p{L}|\p{N})_+|_+(?!\p{L}|\p{N})/\<close>, with the character before the text. Underscores between
  two word characters match up to the last, which then follows an underscore; a single one stays.
\<close>

function drop_marks :: "char option \<Rightarrow> string \<Rightarrow> string" where
  "drop_marks p [] = []"
| "drop_marks p (c # s) =
     (if mark c then CHR '' '' # drop_marks (Some (last (c # takeWhile mark s))) (dropWhile mark s)
      else if c = CHR ''_'' then
        (let rest = dropWhile (\<lambda>x. x = CHR ''_'') s in
         if \<not> in_word p \<or> \<not> in_word (head_char rest) then CHR '' '' # drop_marks (Some c) rest
         else if rest = s then c # drop_marks (Some c) s
         else CHR '' '' # drop_marks (Some c) (c # rest))
      else c # drop_marks (Some c) s)"
  by pat_completeness auto

lemma dropWhile_shorter: "dropWhile P s \<noteq> s \<Longrightarrow> length (dropWhile P s) < length s"
  by (cases s) (auto simp: less_Suc_eq_le intro: length_dropWhile_le split: if_splits)

termination drop_marks
  by (relation "measure (length \<circ> snd)") (auto simp: less_Suc_eq_le length_dropWhile_le dest: dropWhile_shorter)

section \<open>Paragraphs\<close>

definition sentence_mark :: "char \<Rightarrow> bool" where
  "sentence_mark c = (c \<in> set ''.;:!?,-'' \<or> c \<in> {ELLIPSIS, CHR 0x96, CHR 0x97})"

definition closing_mark :: "char \<Rightarrow> bool" where
  "closing_mark c = (c \<in> {CHR 0x22, CHR 0x27, CHR 0x94, CHR 0x92, CHR '')'', CHR '']''})"

text \<open>The two lookbehinds, on the reversed text before the position.\<close>

definition after_sentence :: "string \<Rightarrow> bool" where
  "after_sentence p =
     (case p of [] \<Rightarrow> False | c # q \<Rightarrow> sentence_mark c \<or> closing_mark c \<and> q \<noteq> [] \<and> sentence_mark (hd q))"

definition after_word :: "string \<Rightarrow> bool" where
  "after_word p = (p \<noteq> [] \<and> \<not> is_ws (hd p))"

definition NEWLINE :: char where "NEWLINE = CHR 10"

text \<open>\<open>\s*\n\s*\n\<close>, greedily: the white space up to its last newline, where there are two.\<close>

definition blank_line :: "string \<Rightarrow> string option" where
  "blank_line s =
     (let m = rev (dropWhile (\<lambda>c. c \<noteq> NEWLINE) (rev (takeWhile is_ws s))) in
      if 2 \<le> length (filter (\<lambda>c. c = NEWLINE) m) then Some m else None)"

function join_lines :: "(string \<Rightarrow> bool) \<Rightarrow> string \<Rightarrow> string \<Rightarrow> string \<Rightarrow> string" where
  "join_lines behind new p [] = []"
| "join_lines behind new p (c # s) =
     (case if behind p then blank_line (c # s) else None of
        Some m \<Rightarrow> new @ join_lines behind new (rev m @ p) (drop (length m) (c # s))
      | None \<Rightarrow> c # join_lines behind new (c # p) s)"
  by pat_completeness auto

lemma blank_line_nonempty: "blank_line s = Some m \<Longrightarrow> 0 < length m"
proof -
  assume "blank_line s = Some m"
  then have "2 \<le> length (filter (\<lambda>c. c = NEWLINE) m)" by (auto simp: blank_line_def Let_def split: if_splits)
  then show "0 < length m" by (cases m) auto
qed

termination join_lines
  by (relation "measure (\<lambda>(b, n, p, s). length s)") (auto dest: blank_line_nonempty split: if_splits)

section \<open>The tail\<close>

definition flatten_thinking :: "string \<Rightarrow> string" where
  "flatten_thinking t =
     collapseWhitespace (join_lines after_word ''. '' [] (join_lines after_sentence '' '' []
       (drop_marks None (drop_ticks (drop_fences t)))))"

definition sanitizeThinkingTail :: "jsval \<Rightarrow> string" where
  "sanitizeThinkingTail v = (case as_str v of
      None \<Rightarrow> []
    | Some t \<Rightarrow>
        (let flattened = flatten_thinking t in
         if length flattened \<le> THINKING_TAIL_MAX_CHARS then flattened
         else let cut = drop (length flattened - (THINKING_TAIL_MAX_CHARS - 1)) flattened in
           ELLIPSIS # (case index_of cut '' '' of
               Some i \<Rightarrow> if 0 < i \<and> i < 24 then drop (i + 1) cut else cut
             | None \<Rightarrow> cut)))"

section \<open>Code stays in the machine\<close>

lemma index_of_mono: "\<not> str_includes (c # s) p \<Longrightarrow> \<not> starts_with (c # s) p \<and> \<not> str_includes s p"
  by (auto simp: str_includes_def split: if_splits)

lemma fence_after: "\<not> str_includes (a @ [TICK, TICK]) FENCE \<Longrightarrow> a \<noteq> [] \<Longrightarrow> \<not> starts_with (a @ FENCE @ b) FENCE"
proof
  assume no: "\<not> str_includes (a @ [TICK, TICK]) FENCE" and "a \<noteq> []" and st: "starts_with (a @ FENCE @ b) FENCE"
  then obtain c r where a: "a = c # r" by (cases a) auto
  have "starts_with (a @ [TICK, TICK]) FENCE"
    using st unfolding a FENCE_def by (cases r; cases "tl r") auto
  then show False using no unfolding str_includes_iff starts_with_iff by (metis append_Nil)
qed

lemma after_fence_skip:
  "\<not> str_includes (a @ [TICK, TICK]) FENCE \<Longrightarrow> after_fence (a @ FENCE @ b) = Some b"
proof (induction a)
  case Nil
  then show ?case by (simp add: FENCE_def)
next
  case (Cons c a)
  have "\<not> starts_with (c # a @ FENCE @ b) FENCE" using fence_after [OF Cons.prems, of b] by simp
  moreover have "\<not> str_includes (a @ [TICK, TICK]) FENCE" using Cons.prems index_of_mono by fastforce
  ultimately show ?case using Cons.IH by simp
qed

lemma drop_fences_block:
  assumes "\<not> str_includes (code @ [TICK, TICK]) FENCE"
  shows "\<not> str_includes (a @ [TICK, TICK]) FENCE \<Longrightarrow>
    drop_fences (a @ FENCE @ code @ FENCE @ b) = a @ '' '' @ drop_fences b"
proof (induction a)
  case Nil
  have "after_fence (code @ FENCE @ b) = Some b" by (rule after_fence_skip [OF assms])
  then show ?case by (simp add: FENCE_def)
next
  case (Cons c a)
  have "\<not> starts_with (c # a @ FENCE @ code @ FENCE @ b) FENCE" using fence_after [OF Cons.prems, of "code @ FENCE @ b"] by simp
  moreover have "\<not> str_includes (a @ [TICK, TICK]) FENCE" using Cons.prems index_of_mono by fastforce
  ultimately show ?case using Cons.IH by simp
qed

lemma drop_fences_plain: "\<not> str_includes (a @ [TICK, TICK]) FENCE \<Longrightarrow> drop_fences (a @ CHR '' '' # b) = a @ '' '' @ drop_fences b"
proof (induction a)
  case (Cons c a)
  have "\<not> starts_with (c # a @ CHR '' '' # b) FENCE"
  proof
    assume "starts_with (c # a @ CHR '' '' # b) FENCE"
    then have "starts_with (c # a) FENCE" unfolding FENCE_def TICK_def by (cases a; cases "tl a") auto
    then have "str_includes ((c # a) @ [TICK, TICK]) FENCE"
      unfolding str_includes_iff starts_with_iff by (metis append.assoc append_Nil)
    with Cons.prems show False by simp
  qed
  moreover have "\<not> str_includes (a @ [TICK, TICK]) FENCE" using Cons.prems index_of_mono by fastforce
  ultimately show ?case using Cons.IH by simp
qed (simp add: FENCE_def TICK_def)

lemma thinking_bound: "length (sanitizeThinkingTail v) \<le> 1000"
  by (auto simp: sanitizeThinkingTail_def THINKING_TAIL_MAX_CHARS_def Let_def split: option.split)

text \<open>
  The fenced code of a thinking text never leaves the machine, and the tail is bounded. Whatever stands
  between the first two fences, the tail is the one of the text with a space in its place; and no
  tail is longer than a thousand characters.
\<close>

theorem thinking_hides_code:
  assumes "\<not> str_includes (a @ [TICK, TICK]) FENCE" and "\<not> str_includes (code @ [TICK, TICK]) FENCE"
  shows "sanitizeThinkingTail (JStr (a @ FENCE @ code @ FENCE @ b)) = sanitizeThinkingTail (JStr (a @ '' '' @ b)) \<and>
    length (sanitizeThinkingTail (JStr (a @ FENCE @ code @ FENCE @ b))) \<le> 1000"
proof -
  have "flatten_thinking (a @ FENCE @ code @ FENCE @ b) = flatten_thinking (a @ '' '' @ b)"
    using drop_fences_block [OF assms(2,1), of b] drop_fences_plain [OF assms(1), of b] by (simp add: flatten_thinking_def)
  then have "sanitizeThinkingTail (JStr (a @ FENCE @ code @ FENCE @ b)) = sanitizeThinkingTail (JStr (a @ '' '' @ b))"
    by (simp add: sanitizeThinkingTail_def)
  then show ?thesis using thinking_bound by simp
qed

lemma thinking_hides_code_witness:
  "sanitizeThinkingTail (JStr (''Run '' @ FENCE @ ''rm key'' @ FENCE @ '' now'')) = ''Run now''"
proof -
  have "\<not> str_includes (''Run '' @ [TICK, TICK]) FENCE" "\<not> str_includes (''rm key'' @ [TICK, TICK]) FENCE" by code_simp+
  note thinking_hides_code [OF this, of "'' now''", THEN conjunct1]
  moreover have "sanitizeThinkingTail (JStr (''Run '' @ '' '' @ '' now'')) = ''Run now''" by code_simp
  ultimately show ?thesis by (rule trans)
qed

text \<open>Markdown and paragraphs, on examples.\<close>

lemma thinking_examples:
  "sanitizeThinkingTail (JStr (''**Plan**'' @ [NEWLINE, NEWLINE] @ ''Use `snake_case` and __init__.'' @ [NEWLINE, NEWLINE] @ ''Done'')) =
     ''Plan. Use snake_case and init . Done''"
  "sanitizeThinkingTail (JStr (''Plan'' @ [NEWLINE, NEWLINE] @ ''one'')) = ''Plan. one''"
  "sanitizeThinkingTail JNull = ''''"
  by code_simp+

end
