(* ===== verification/Activity_Reporter.thy ===== *)
theory Activity_Reporter
  imports Thinking_Tail Turn_Steps
begin

text \<open>
  The activity lane of a turn (\<open>plugin/src/activity/reporter.ts\<close>, \<open>mcpAppView\<close> of \<open>activity/mcp-apps.ts\<close>):
  thinking, narration, tool and exec events of the runner become status updates, and the turn keeps its
  tool and narration steps for the post of its reply. A \<open>reporter\<close> is the \<open>ReporterState\<close> of one turn;
  \<open>serverLacksActivity\<close>, which all turns share, is an argument. The promise chain of the sends is the list of
  queued updates and the request in flight; \<open>rp_sent\<close> is what the server took, in order. An update is the
  \<open>agent_activity\<close> the clients fold, and a step the \<open>post_step\<close> they show, since that is what travels.
\<close>

section \<open>State\<close>

definition PROSE_MIN_INTERVAL_MS :: int where "PROSE_MIN_INTERVAL_MS = 1000"

definition TURN_STEPS_MAX :: nat where "TURN_STEPS_MAX = 200"

definition SEARCH_CALL :: string where "SEARCH_CALL = ''tool_call''"

text \<open>\<open>target.replace(CATALOG_PREFIX, "")\<close>\<close>

definition strip_source :: "string \<Rightarrow> string \<Rightarrow> string option" where
  "strip_source s p =
     (if starts_with s p
      then (let rest = drop (length p) s; word = takeWhile (\<lambda>c. c \<noteq> CHR '':'') rest in
            if word \<noteq> [] \<and> length word < length rest then Some (drop (Suc (length word)) rest) else None)
      else None)"

definition strip_catalog :: "string \<Rightarrow> string" where
  "strip_catalog s =
     (case strip_source s ''openclaw:'' of Some r \<Rightarrow> r
      | None \<Rightarrow> case strip_source s ''mcp:'' of Some r \<Rightarrow> r
      | None \<Rightarrow> case strip_source s ''client:'' of Some r \<Rightarrow> r
      | None \<Rightarrow> s)"

record app_view =
  av_id :: string
  av_session :: string
  av_server :: string
  av_resource :: "string option"

definition mcpAppView :: "jsval \<Rightarrow> app_view option" where
  "mcpAppView result =
     (let app = jget (jget (jget result ''details'') ''mcpAppPreview'') ''mcpApp'' in
      case (as_str (jget app ''viewId''), as_str (jget app ''originSessionKey''), as_str (jget app ''serverName'')) of
        (Some i, Some k, Some n) \<Rightarrow>
          Some \<lparr>av_id = i, av_session = k, av_server = n, av_resource = as_str (jget app ''uiResourceUri'')\<rparr>
      | _ \<Rightarrow> None)"

text \<open>Clawbits' own views; whether the URL of a server is on the origin of an account is the argument.\<close>

definition isOwnMcpApp :: "(string \<Rightarrow> bool) \<Rightarrow> app_view \<Rightarrow> bool" where
  "isOwnMcpApp on_origin v =
     (lower (av_server v) = ''clawbits'' \<or>
      (case av_resource v of Some r \<Rightarrow> starts_with (lower r) ''ui://clawbits/'' | None \<Rightarrow> False) \<or>
      on_origin (av_server v))"

record reporter =
  rp_disabled :: bool
  rp_last_prose :: int
  rp_timer :: bool
  rp_pending :: "agent_activity option"
  rp_steps :: "(string, post_step) jsmap"
  rp_started :: "(string, rat) jsmap"
  rp_parents :: "(string, string) jsmap"
  rp_apps :: "(string, app_view) jsmap"
  rp_last :: "agent_activity option"
  rp_queue :: "agent_activity list"
  rp_request :: "agent_activity option"
  rp_sent :: "agent_activity list"

definition reporter_init :: reporter where
  "reporter_init = \<lparr>rp_disabled = False, rp_last_prose = 0, rp_timer = False, rp_pending = None, rp_steps = [], rp_started = [],
     rp_parents = [], rp_apps = [], rp_last = None, rp_queue = [], rp_request = None, rp_sent = []\<rparr>"

section \<open>Sending\<close>

definition silenced :: "bool \<Rightarrow> reporter \<Rightarrow> bool" where
  "silenced lacks st = (rp_disabled st \<or> lacks)"

definition keepStep :: "post_step \<Rightarrow> reporter \<Rightarrow> reporter" where
  "keepStep step st =
     (if mget (rp_steps st) (ps_id step) \<noteq> None \<or> length (rp_steps st) < TURN_STEPS_MAX
      then st\<lparr>rp_steps := mset_key (ps_id step) step (rp_steps st)\<rparr> else st)"

definition queueSend :: "bool \<Rightarrow> agent_activity \<Rightarrow> reporter \<Rightarrow> reporter" where
  "queueSend lacks act st =
     (if silenced lacks st then st else st\<lparr>rp_last := Some act, rp_queue := rp_queue st @ [act]\<rparr>)"

text \<open>The next link of the chain up to its request, and its end when the request succeeds or throws.\<close>

definition send_begin :: "bool \<Rightarrow> reporter \<Rightarrow> reporter" where
  "send_begin lacks st =
     (case rp_queue st of
        [] \<Rightarrow> st
      | act # q \<Rightarrow>
          if rp_request st \<noteq> None then st
          else if silenced lacks st then st\<lparr>rp_queue := q\<rparr>
          else st\<lparr>rp_queue := q, rp_request := Some act\<rparr>)"

definition send_ok :: "reporter \<Rightarrow> reporter" where
  "send_ok st = (case rp_request st of None \<Rightarrow> st | Some act \<Rightarrow> st\<lparr>rp_request := None, rp_sent := rp_sent st @ [act]\<rparr>)"

definition send_fails :: "int option \<Rightarrow> bool \<Rightarrow> reporter \<Rightarrow> bool \<times> reporter" where
  "send_fails code lacks st =
     (if rp_request st = None then (lacks, st)
      else if code = Some 422 then (True, st\<lparr>rp_request := None\<rparr>)
      else (lacks, st\<lparr>rp_request := None, rp_disabled := True\<rparr>))"

definition flushProse :: "bool \<Rightarrow> int \<Rightarrow> reporter \<Rightarrow> reporter" where
  "flushProse lacks now st = (case rp_pending st of
      None \<Rightarrow> st
    | Some act \<Rightarrow> queueSend lacks act (st\<lparr>rp_pending := None, rp_last_prose := now\<rparr>))"

definition tickProse :: "bool \<Rightarrow> int \<Rightarrow> agent_activity \<Rightarrow> reporter \<Rightarrow> reporter" where
  "tickProse lacks now act st =
     (if silenced lacks st then st
      else let s1 = st\<lparr>rp_pending := Some act\<rparr> in
        if PROSE_MIN_INTERVAL_MS - (now - rp_last_prose st) \<le> 0 then flushProse lacks now s1 else s1\<lparr>rp_timer := True\<rparr>)"

definition prose_timer_fires :: "bool \<Rightarrow> int \<Rightarrow> reporter \<Rightarrow> reporter" where
  "prose_timer_fires lacks now st = (if rp_timer st then flushProse lacks now (st\<lparr>rp_timer := False\<rparr>) else st)"

section \<open>Events\<close>

definition thinking_activity :: "string \<Rightarrow> agent_activity" where
  "thinking_activity label =
     \<lparr>ac_kind = ''thinking'', ac_id = None, ac_label = Some label, ac_tool = None, ac_ok = None, ac_ms = None\<rparr>"

definition note_activity :: "string \<Rightarrow> string \<Rightarrow> agent_activity" where
  "note_activity i label =
     \<lparr>ac_kind = ''note'', ac_id = Some i, ac_label = Some label, ac_tool = None, ac_ok = None, ac_ms = None\<rparr>"

definition tool_activity :: "string \<Rightarrow> string \<Rightarrow> string \<Rightarrow> agent_activity" where
  "tool_activity i tool label =
     \<lparr>ac_kind = ''tool'', ac_id = (if i = [] then None else Some i), ac_label = Some label, ac_tool = Some tool, ac_ok = None, ac_ms = None\<rparr>"

definition done_activity :: "string \<Rightarrow> string \<Rightarrow> string \<Rightarrow> bool \<Rightarrow> rat option \<Rightarrow> agent_activity" where
  "done_activity i tool label okay ms =
     \<lparr>ac_kind = ''tool_done'', ac_id = (if i = [] then None else Some i), ac_label = Some label, ac_tool = Some tool,
      ac_ok = Some okay, ac_ms = ms\<rparr>"

definition note_step :: "string \<Rightarrow> string \<Rightarrow> post_step" where
  "note_step i label = \<lparr>ps_note = True, ps_id = i, ps_label = label, ps_tool = None, ps_ok = None, ps_ms = None\<rparr>"

definition tool_step :: "string \<Rightarrow> string \<Rightarrow> string \<Rightarrow> post_step" where
  "tool_step i tool label = \<lparr>ps_note = False, ps_id = i, ps_label = label, ps_tool = Some tool, ps_ok = None, ps_ms = None\<rparr>"

definition onThinkingEvent :: "bool \<Rightarrow> int \<Rightarrow> jsval \<Rightarrow> reporter \<Rightarrow> reporter" where
  "onThinkingEvent lacks now d st =
     (let label = sanitizeThinkingTail (coalesce (jget d ''text'') (jget d ''delta'')) in
      if label = [] then st else tickProse lacks now (thinking_activity label) st)"

definition item_id :: "jsval \<Rightarrow> string" where
  "item_id d = (case as_str (jget d ''itemId'') of Some (c # i) \<Rightarrow> c # i | _ \<Rightarrow> ''preamble'')"

definition onItemEvent :: "bool \<Rightarrow> int \<Rightarrow> jsval \<Rightarrow> reporter \<Rightarrow> reporter" where
  "onItemEvent lacks now d st =
     (let label = (if jget d ''kind'' = JStr ''preamble'' then sanitizeThinkingTail (jget d ''progressText'') else []) in
      if label = [] then st
      else tickProse lacks now (note_activity (item_id d) label) (keepStep (note_step (item_id d) label) st))"

definition field_text :: "jsval \<Rightarrow> string \<Rightarrow> string" where
  "field_text d k = (case as_str (jget d k) of Some s \<Rightarrow> s | None \<Rightarrow> [])"

definition called_tool :: "jsval \<Rightarrow> string" where
  "called_tool d = (if field_text d ''name'' = [] then ''tool'' else field_text d ''name'')"

text \<open>A call of the dispatcher is named for its target and labelled by its arguments.\<close>

definition start_tool :: "jsval \<Rightarrow> string" where
  "start_tool d =
     (let call = (if called_tool d = SEARCH_CALL then jget d ''args'' else JUndef);
          target = coalesce (coalesce (jget call ''id'') (jget call ''name'')) (jget call ''toolId'')
      in case as_str target of Some (c # t) \<Rightarrow> strip_catalog (c # t) | _ \<Rightarrow> called_tool d)"

definition start_label :: "jsval \<Rightarrow> string" where
  "start_label d =
     (let call = (if called_tool d = SEARCH_CALL then jget d ''args'' else JUndef) in
      sanitizeToolSummary (start_tool d)
        (if truthy call then coalesce (jget call ''args'') (jget call ''input'') else jget d ''args''))"

definition tool_starts :: "bool \<Rightarrow> int \<Rightarrow> rat \<Rightarrow> jsval \<Rightarrow> reporter \<Rightarrow> reporter" where
  "tool_starts lacks now perf d st =
     (let callId = field_text d ''toolCallId''; tool = start_tool d; label = start_label d;
          s1 = (if callId = [] then st
                else keepStep (tool_step callId tool label) (st\<lparr>rp_started := mset_key callId perf (rp_started st)\<rparr>))
      in queueSend lacks (tool_activity callId tool label) (flushProse lacks now s1))"

definition result_label :: "string \<Rightarrow> jsval \<Rightarrow> string" where
  "result_label tool d = (case sanitizeToolDetail tool (jget d ''meta'') of
      Some l \<Rightarrow> l
    | None \<Rightarrow> (case sanitizeToolResultDescriptor tool (jget d ''result'') of Some l \<Rightarrow> l | None \<Rightarrow> tool))"

text \<open>\<open>Math.round\<close>\<close>

definition js_round :: "rat \<Rightarrow> rat" where "js_round q = of_int (floor (q + 1 / 2))"

definition with_outcome :: "bool \<Rightarrow> rat option \<Rightarrow> string \<Rightarrow> string \<Rightarrow> post_step \<Rightarrow> post_step" where
  "with_outcome okay ms tool label step =
     step\<lparr>ps_ok := Some okay, ps_ms := (case ms of Some m \<Rightarrow> Some m | None \<Rightarrow> ps_ms step),
       ps_label := (if ps_label step = tool then label else ps_label step)\<rparr>"

definition tool_ends :: "bool \<Rightarrow> rat \<Rightarrow> jsval \<Rightarrow> reporter \<Rightarrow> reporter" where
  "tool_ends lacks perf d st =
     (let callId = field_text d ''toolCallId''; step = mget (rp_steps st) callId;
          tool = (case Option.bind step ps_tool of Some t \<Rightarrow> t | None \<Rightarrow> called_tool d);
          label = result_label tool d;
          okay = (Option.bind step ps_ok \<noteq> Some False \<and> jget d ''isError'' \<noteq> JBool True);
          ms = map_option (\<lambda>t. js_round (perf - t)) (mget (rp_started st) callId);
          s1 = st\<lparr>rp_started := mdel callId (rp_started st)\<rparr>;
          s2 = (case step of
              Some p \<Rightarrow> s1\<lparr>rp_steps := mset_key callId (with_outcome okay ms tool label p) (rp_steps s1)\<rparr>
            | None \<Rightarrow> s1)
      in queueSend lacks (done_activity callId tool label okay ms) s2)"

definition note_view :: "(string \<Rightarrow> bool) \<Rightarrow> jsval \<Rightarrow> reporter \<Rightarrow> reporter" where
  "note_view on_origin d st =
     (let key = (case as_str (jget d ''parentToolCallId'') of Some p \<Rightarrow> p | None \<Rightarrow> field_text d ''toolCallId'') in
      case if jget d ''phase'' = JStr ''result'' then mcpAppView (jget d ''result'') else None of
        Some v \<Rightarrow> if isOwnMcpApp on_origin v then st else st\<lparr>rp_apps := mset_key key v (rp_apps st)\<rparr>
      | None \<Rightarrow> st)"

definition onToolEvent :: "(string \<Rightarrow> bool) \<Rightarrow> bool \<Rightarrow> int \<Rightarrow> rat \<Rightarrow> jsval \<Rightarrow> reporter \<Rightarrow> reporter" where
  "onToolEvent on_origin lacks now perf d st0 =
     (let st = note_view on_origin d st0; callId = field_text d ''toolCallId''; parent = field_text d ''parentToolCallId'';
          phase = field_text d ''phase''
      in if parent \<noteq> [] then (if callId = [] then st else st\<lparr>rp_parents := mset_key callId parent (rp_parents st)\<rparr>)
         else if jget d ''hideFromChannelProgress'' = JBool True then st
         else if phase = ''start'' then tool_starts lacks now perf d st
         else if phase = ''result'' then tool_ends lacks perf d st
         else st)"

definition failed_activity :: "post_step \<Rightarrow> agent_activity" where
  "failed_activity p =
     \<lparr>ac_kind = ''tool_done'', ac_id = Some (ps_id p), ac_label = Some (ps_label p), ac_tool = ps_tool p,
      ac_ok = Some False, ac_ms = ps_ms p\<rparr>"

definition onCommandOutputEvent :: "bool \<Rightarrow> jsval \<Rightarrow> reporter \<Rightarrow> reporter" where
  "onCommandOutputEvent lacks d st =
     (case as_str (jget d ''toolCallId'') of
        None \<Rightarrow> st
      | Some callId \<Rightarrow>
         if jget d ''phase'' \<noteq> JStr ''end'' \<or> jget d ''status'' \<noteq> JStr ''failed'' then st
         else (case mget (rp_steps st) (case mget (rp_parents st) callId of Some p \<Rightarrow> p | None \<Rightarrow> callId) of
             None \<Rightarrow> st
           | Some p \<Rightarrow>
               if ps_note p \<or> ps_ok p = Some False then st
               else queueSend lacks (failed_activity p) (st\<lparr>rp_steps := mset_key (ps_id p) (p\<lparr>ps_ok := Some False\<rparr>) (rp_steps st)\<rparr>)))"

section \<open>The reply\<close>

text \<open>\<open>fetched\<close> is what the gateway answers for a view, \<open>None\<close> when it no longer holds it.\<close>

definition withApps :: "(app_view \<Rightarrow> 'app option) \<Rightarrow> reporter \<Rightarrow> post_step list \<Rightarrow> (post_step \<times> 'app option) list" where
  "withApps fetched st steps = map (\<lambda>p. (p, Option.bind (mget (rp_apps st) (ps_id p)) fetched)) steps"

definition turnSteps :: "(app_view \<Rightarrow> 'app option) \<Rightarrow> bool \<Rightarrow> reporter \<Rightarrow> (post_step \<times> 'app option) list option" where
  "turnSteps fetched lacks st =
     (if rp_steps st = [] \<or> lacks then None else Some (withApps fetched st (map snd (rp_steps st))))"

definition takeTurnSteps :: "(app_view \<Rightarrow> 'app option) \<Rightarrow> bool \<Rightarrow> reporter \<Rightarrow> (post_step \<times> 'app option) list option \<times> reporter" where
  "takeTurnSteps fetched lacks st =
     (if rp_steps st = [] \<or> lacks then (None, st)
      else (Some (withApps fetched st (map snd (rp_steps st))), st\<lparr>rp_steps := []\<rparr>))"

definition lastActivity :: "bool \<Rightarrow> reporter \<Rightarrow> agent_activity option" where
  "lastActivity lacks st = (if silenced lacks st then None else rp_last st)"

definition close_lane :: "reporter \<Rightarrow> reporter" where
  "close_lane st = st\<lparr>rp_disabled := True, rp_timer := False, rp_pending := None\<rparr>"

text \<open>The weak map \<open>states\<close> holds a reporter for a turn once an event of its run arrived; a turn without one has nothing to close.\<close>

definition finishReporting :: "reporter option \<Rightarrow> reporter option" where
  "finishReporting known = (case known of None \<Rightarrow> None | Some st \<Rightarrow> Some (close_lane st))"

definition stateFor :: "reporter option \<Rightarrow> reporter" where
  "stateFor known = (case known of Some st \<Rightarrow> st | None \<Rightarrow> reporter_init)"

section \<open>The lane\<close>

text \<open>
  What can happen to a turn whose lane is on, with the clocks: the events of its run, a timer, a request, the end and a post.
  The first event whose data is an object makes the turn's state.
\<close>

datatype reporter_event =
    Thinking int jsval | Item int jsval | Tool int rat jsval | CommandOutput jsval
  | ProseTimer int | SendBegins | SendOk | SendFails "int option" | EndOfRun | PostTakes

definition reporting :: "jsval \<Rightarrow> (reporter \<Rightarrow> reporter) \<Rightarrow> reporter option \<Rightarrow> reporter option" where
  "reporting d handle known = (if is_object d then Some (handle (stateFor known)) else known)"

fun reporter_do :: "(string \<Rightarrow> bool) \<Rightarrow> bool \<times> reporter option \<Rightarrow> reporter_event \<Rightarrow> bool \<times> reporter option" where
  "reporter_do on_origin (lacks, known) e = (case e of
      Thinking now d \<Rightarrow> (lacks, reporting d (onThinkingEvent lacks now d) known)
    | Item now d \<Rightarrow> (lacks, reporting d (onItemEvent lacks now d) known)
    | Tool now perf d \<Rightarrow> (lacks, reporting d (onToolEvent on_origin lacks now perf d) known)
    | CommandOutput d \<Rightarrow> (lacks, reporting d (onCommandOutputEvent lacks d) known)
    | ProseTimer now \<Rightarrow> (lacks, map_option (prose_timer_fires lacks now) known)
    | SendBegins \<Rightarrow> (lacks, map_option (send_begin lacks) known)
    | SendOk \<Rightarrow> (lacks, map_option send_ok known)
    | SendFails code \<Rightarrow> (case known of
          None \<Rightarrow> (lacks, None)
        | Some st \<Rightarrow> (case send_fails code lacks st of (lacks', st') \<Rightarrow> (lacks', Some st')))
    | EndOfRun \<Rightarrow> (lacks, finishReporting known)
    | PostTakes \<Rightarrow> (lacks, map_option (\<lambda>st. snd (takeTurnSteps (\<lambda>_. None :: nat option) lacks st)) known))"

lemma reporting_known [simp]: "reporting d f (Some st) = Some (if is_object d then f st else st)"
  by (simp add: reporting_def stateFor_def)

section \<open>After the end of a run\<close>

lemma keepStep_frame [simp]:
  "rp_disabled (keepStep p st) = rp_disabled st" "rp_sent (keepStep p st) = rp_sent st" "rp_request (keepStep p st) = rp_request st"
  "rp_queue (keepStep p st) = rp_queue st" "rp_pending (keepStep p st) = rp_pending st"
  by (simp_all add: keepStep_def)

lemma queueSend_frame [simp]:
  "rp_disabled (queueSend lacks a st) = rp_disabled st" "rp_sent (queueSend lacks a st) = rp_sent st"
  "rp_request (queueSend lacks a st) = rp_request st" "rp_steps (queueSend lacks a st) = rp_steps st"
  "rp_pending (queueSend lacks a st) = rp_pending st"
  by (simp_all add: queueSend_def)

lemma flushProse_frame [simp]:
  "rp_disabled (flushProse lacks now st) = rp_disabled st" "rp_sent (flushProse lacks now st) = rp_sent st"
  "rp_request (flushProse lacks now st) = rp_request st" "rp_steps (flushProse lacks now st) = rp_steps st"
  by (simp_all add: flushProse_def split: option.split)

lemma tickProse_frame [simp]:
  "rp_disabled (tickProse lacks now a st) = rp_disabled st" "rp_sent (tickProse lacks now a st) = rp_sent st"
  "rp_request (tickProse lacks now a st) = rp_request st" "rp_steps (tickProse lacks now a st) = rp_steps st"
  by (simp_all add: tickProse_def Let_def)

lemma note_view_frame [simp]:
  "rp_disabled (note_view on_origin d st) = rp_disabled st" "rp_sent (note_view on_origin d st) = rp_sent st"
  "rp_request (note_view on_origin d st) = rp_request st" "rp_steps (note_view on_origin d st) = rp_steps st"
  "rp_queue (note_view on_origin d st) = rp_queue st" "rp_pending (note_view on_origin d st) = rp_pending st"
  by (simp_all add: note_view_def Let_def split: option.split)

lemma tool_starts_frame [simp]:
  "rp_disabled (tool_starts lacks now perf d st) = rp_disabled st" "rp_sent (tool_starts lacks now perf d st) = rp_sent st"
  "rp_request (tool_starts lacks now perf d st) = rp_request st"
  by (simp_all add: tool_starts_def Let_def)

lemma tool_ends_frame [simp]:
  "rp_disabled (tool_ends lacks perf d st) = rp_disabled st" "rp_sent (tool_ends lacks perf d st) = rp_sent st"
  "rp_request (tool_ends lacks perf d st) = rp_request st"
  by (simp_all add: tool_ends_def Let_def split: option.split)

lemma onToolEvent_frame [simp]:
  "rp_disabled (onToolEvent on_origin lacks now perf d st) = rp_disabled st"
  "rp_sent (onToolEvent on_origin lacks now perf d st) = rp_sent st"
  "rp_request (onToolEvent on_origin lacks now perf d st) = rp_request st"
  by (simp_all add: onToolEvent_def Let_def)

lemma prose_frame [simp]:
  "rp_disabled (onThinkingEvent lacks now d st) = rp_disabled st" "rp_sent (onThinkingEvent lacks now d st) = rp_sent st"
  "rp_request (onThinkingEvent lacks now d st) = rp_request st"
  "rp_disabled (onItemEvent lacks now d st) = rp_disabled st" "rp_sent (onItemEvent lacks now d st) = rp_sent st"
  "rp_request (onItemEvent lacks now d st) = rp_request st"
  "rp_disabled (prose_timer_fires lacks now st) = rp_disabled st" "rp_sent (prose_timer_fires lacks now st) = rp_sent st"
  "rp_request (prose_timer_fires lacks now st) = rp_request st"
  by (simp_all add: onThinkingEvent_def onItemEvent_def prose_timer_fires_def Let_def)

lemma command_frame [simp]:
  "rp_disabled (onCommandOutputEvent lacks d st) = rp_disabled st" "rp_sent (onCommandOutputEvent lacks d st) = rp_sent st"
  "rp_request (onCommandOutputEvent lacks d st) = rp_request st"
  by (simp_all add: onCommandOutputEvent_def split: option.split)

lemma takeTurnSteps_frame [simp]:
  "rp_disabled (snd (takeTurnSteps f lacks st)) = rp_disabled st" "rp_sent (snd (takeTurnSteps f lacks st)) = rp_sent st"
  "rp_request (snd (takeTurnSteps f lacks st)) = rp_request st"
  by (simp_all add: takeTurnSteps_def)

text \<open>What the server may have taken once a lane is off: what it had, and the request that was in flight.\<close>

definition settled_to :: "reporter \<Rightarrow> reporter \<Rightarrow> bool" where
  "settled_to st st' \<longleftrightarrow> rp_disabled st' \<and>
     (rp_sent st' = rp_sent st \<and> rp_request st' = rp_request st \<or>
      rp_request st' = None \<and> (rp_sent st' = rp_sent st \<or> (\<exists>a. rp_request st = Some a \<and> rp_sent st' = rp_sent st @ [a])))"

text \<open>A lane that has a state keeps one.\<close>

lemma settled_step:
  "settled_to st x \<Longrightarrow> \<exists>lacks' x'. reporter_do on_origin (lacks, Some x) e = (lacks', Some x') \<and> settled_to st x'"
  by (cases e) (auto simp: settled_to_def send_begin_def send_ok_def send_fails_def silenced_def finishReporting_def close_lane_def
      split: list.split option.split)

lemma settled_run: "settled_to st x \<Longrightarrow> \<exists>x'. snd (run (reporter_do on_origin) (lacks, Some x) es) = Some x' \<and> settled_to st x'"
proof (induction es arbitrary: lacks x)
  case (Cons e es)
  obtain lacks' x' where "reporter_do on_origin (lacks, Some x) e = (lacks', Some x')" "settled_to st x'"
    using settled_step [OF Cons.prems] by blast
  with Cons.IH show ?case by (simp del: reporter_do.simps)
qed simp

text \<open>
  C16: Nothing is reported after the end of a run. Once the lane of a turn that had reported or kept anything is closed, no event, timer,
  queued update or answer puts another update on the wire: the server takes at most the one request that was in flight, so the
  status that the adapter clears then stays cleared.
\<close>

theorem finished_turn_is_silent:
  "\<exists>st'. snd (run (reporter_do on_origin) (lacks, finishReporting (Some st)) es) = Some st' \<and>
     (rp_sent st' = rp_sent st \<or> rp_request st' = None \<and> (\<exists>a. rp_request st = Some a \<and> rp_sent st' = rp_sent st @ [a]))"
proof -
  have "settled_to (close_lane st) (close_lane st)" by (simp add: settled_to_def close_lane_def)
  from settled_run [OF this, of on_origin lacks es]
  obtain st' where "snd (run (reporter_do on_origin) (lacks, Some (close_lane st)) es) = Some st'" "settled_to (close_lane st) st'" by blast
  then show ?thesis by (auto simp: settled_to_def close_lane_def finishReporting_def)
qed

text \<open>
  A turn without a state has nothing to close: when the end of its run comes before its first event, the lane of a late event
  is open and its update is sent.
\<close>

definition late_thought :: jsval where "late_thought = JObj [(''text'', JStr ''late'')]"

theorem late_event_opens_lane:
  "map_option rp_sent (snd (run (reporter_do on_origin) (False, None) [EndOfRun, Thinking 5000 late_thought, SendBegins, SendOk])) =
     Some [thinking_activity ''late'']"
proof -
  have s: "sanitizeThinkingTail (coalesce (JStr ''late'') JUndef) = ''late''" by code_simp
  show ?thesis
    by (simp add: finishReporting_def reporting_def stateFor_def late_thought_def is_object_def onThinkingEvent_def s
        tickProse_def silenced_def reporter_init_def PROSE_MIN_INTERVAL_MS_def flushProse_def queueSend_def send_begin_def send_ok_def Let_def)
qed

section \<open>Labels\<close>

text \<open>A text the clients' \<open>trim\<close> leaves as it is.\<close>

definition solid :: "string \<Rightarrow> bool" where
  "solid s = (s \<noteq> [] \<and> \<not> is_ws (hd s) \<and> \<not> is_ws (last s))"

lemma solid_trim: "solid s \<Longrightarrow> trim s = s"
proof -
  assume s: "solid s"
  then have "trim_start s = s" by (cases s) (auto simp: solid_def trim_start_def)
  moreover have "trim_end s = s" using s by (cases s rule: rev_cases) (auto simp: solid_def trim_end_def)
  ultimately show ?thesis by (simp add: trim_def)
qed

lemma last_trim_end: "trim_end s \<noteq> [] \<Longrightarrow> \<not> is_ws (last (trim_end s))"
  using hd_dropWhile [of is_ws "rev s"] by (auto simp: trim_end_def last_rev)

lemma trim_end_prefix: "\<exists>t. s = trim_end s @ t"
proof -
  have "s = rev (dropWhile is_ws (rev s)) @ rev (takeWhile is_ws (rev s))"
    by (metis rev_append rev_rev_ident takeWhile_dropWhile_id)
  then show ?thesis by (auto simp: trim_end_def)
qed

lemma trim_solid: "trim s \<noteq> [] \<Longrightarrow> solid (trim s)"
proof -
  assume ne: "trim s \<noteq> []"
  obtain t where t: "trim_start s = trim s @ t" using trim_end_prefix [of "trim_start s"] by (auto simp: trim_def)
  with ne have "hd (trim_start s) = hd (trim s)" "trim_start s \<noteq> []" by auto
  then have "\<not> is_ws (hd (trim s))" using hd_dropWhile [of is_ws s] by (auto simp: trim_start_def)
  moreover have "\<not> is_ws (last (trim s))" using ne last_trim_end unfolding trim_def by blast
  ultimately show ?thesis using ne by (simp add: solid_def)
qed

lemma solid_name: "solid (clean_name t)"
proof -
  have "solid ''tool''" by code_simp
  then show ?thesis using trim_solid by (auto simp: clean_name_def collapseWhitespace_def Let_def)
qed

lemma solid_append: "solid n \<Longrightarrow> x \<noteq> [] \<Longrightarrow> \<not> is_ws (last x) \<Longrightarrow> solid (n @ x)"
  by (auto simp: solid_def)

lemma solid_quoted: "solid n \<Longrightarrow> solid (n @ y @ quoted_text x)"
  by (rule solid_append) (auto simp: quoted_text_def is_ws_def)

lemma solid_summary: "solid (sanitizeToolSummary t args)"
  using solid_name [of t] solid_quoted [of "clean_name t" "'': ''"] solid_quoted [of "clean_name t" "'': '' @ a @ '' ''" for a]
  by (auto simp: sanitizeToolSummary_def Let_def split: option.split)

lemma last_truncate: "solid v \<Longrightarrow> \<not> is_ws (last (truncate_text v m))"
  by (auto simp: truncate_text_def solid_def ELLIPSIS_def is_ws_def)

lemma solid_detail: "sanitizeToolDetail t m = Some l \<Longrightarrow> solid l"
proof -
  assume a: "sanitizeToolDetail t m = Some l"
  then obtain s where s: "m = JStr s" by (cases m) (auto simp: sanitizeToolDetail_def)
  let ?c = "collapseWhitespace s" and ?n = "clean_name t"
  have c: "?c \<noteq> [] \<Longrightarrow> solid ?c" using trim_solid by (simp add: collapseWhitespace_def)
  show ?thesis
  proof (cases "unquote ?c")
    case None
    with a s have l: "l = ?n @ '': '' @ truncate_text ?c TOOL_SUMMARY_MAX_CHARS" "?c \<noteq> []" "truncate_text ?c TOOL_SUMMARY_MAX_CHARS \<noteq> []"
      by (auto simp: sanitizeToolDetail_def Let_def split: if_splits)
    show ?thesis unfolding l(1) by (rule solid_append [OF solid_name]) (use l last_truncate [OF c] in auto)
  next
    case (Some i)
    with a s have "l = ?n @ '': '' @ quoted_text (truncate_text i TOOL_SUMMARY_MAX_CHARS)"
      by (auto simp: sanitizeToolDetail_def Let_def split: if_splits)
    then show ?thesis using solid_quoted [OF solid_name] by metis
  qed
qed

lemma result_label_solid: "result_label tool d = tool \<or> solid (result_label tool d)"
  using solid_detail solid_summary
  by (auto simp: result_label_def sanitizeToolResultDescriptor_def Let_def split: option.splits jsval.splits if_splits)

end
