(* ===== verification/Reported_Steps.thy ===== *)
theory Reported_Steps
  imports Activity_Reporter
begin

text \<open>
  The two ends of the status lane together: what the reporter keeps of a turn for its reply
  (\<open>plugin/src/activity/reporter.ts\<close>) against what a client folds from the updates it sent
  (\<open>frontend/src/lib/turnSteps.ts\<close>). The reporter and the fold are two separate accounts of the same calls, and
  the reply replaces the live one on the screen.
\<close>

section \<open>What a client holds\<close>

definition web_take :: "web_step list \<Rightarrow> agent_activity \<Rightarrow> web_step list" where
  "web_take ss a = (if ac_kind a = ''thinking'' then ss else web_applyStep ss a (map_option trim (ac_label a)))"

lemma lt_steps_fold: "lt_steps (foldl web_applyActivity w acts) = foldl web_take (lt_steps w) acts"
proof (induction acts arbitrary: w)
  case (Cons a acts)
  have "lt_steps (web_applyActivity w a) = web_take (lt_steps w) a"
    by (simp add: web_applyActivity_def web_take_def Let_def)
  with Cons show ?case by simp
qed simp

text \<open>A call that has not ended is shown by a reply as one that has.\<close>

fun settle :: "web_step \<Rightarrow> web_step" where
  "settle (ToolStep i t l s m) = ToolStep i t l (if s = ''running'' then ''done'' else s) m"
| "settle (NoteStep i t) = NoteStep i t"

definition shown_step :: "post_step \<Rightarrow> web_step" where
  "shown_step p = hd (postSteps [p])"

lemma postSteps_map: "postSteps ps = map shown_step ps"
  by (induction ps) (simp_all add: postSteps_def shown_step_def)

lemma ws_id_settle [simp]: "ws_id (settle s) = ws_id s"
  by (cases s) simp_all

lemma ws_id_shown [simp]: "ws_id (shown_step p) = ps_id p"
  by (simp add: shown_step_def postSteps_def)

lemma filter_upsert:
  "filter (\<lambda>s. f s \<in> A) (upsert f ss x) = (if f x \<in> A then upsert f (filter (\<lambda>s. f s \<in> A) ss) x else filter (\<lambda>s. f s \<in> A) ss)"
  by (induction ss) auto

lemma find_filter: "i \<in> A \<Longrightarrow> List.find (\<lambda>s. f s = i) (filter (\<lambda>s. f s \<in> A) ss) = List.find (\<lambda>s. f s = i) ss"
  by (induction ss) auto

lemma find_settle: "List.find (\<lambda>s. ws_id s = i) (map settle ss) = map_option settle (List.find (\<lambda>s. ws_id s = i) ss)"
  by (induction ss) auto

section \<open>The link\<close>

text \<open>The steps of calls, in the order they began, and their identifiers.\<close>

definition calls_kept :: "reporter \<Rightarrow> post_step list" where
  "calls_kept st = filter (\<lambda>p. \<not> ps_note p) (map snd (rp_steps st))"

definition kept_ids :: "reporter \<Rightarrow> string set" where
  "kept_ids st = ps_id ` set (calls_kept st)"

definition call_step :: "post_step \<Rightarrow> bool" where
  "call_step p = (ps_note p \<or> ps_tool p \<noteq> None \<and> solid (ps_label p))"

text \<open>An entry is under its own identifier, which is one of a call if and only if the entry is no narration.\<close>

definition entries_ok :: "(string \<Rightarrow> bool) \<Rightarrow> (string, post_step) jsmap \<Rightarrow> bool" where
  "entries_ok is_call m = (\<not> is_call [] \<and> distinct (mkeys m) \<and> (\<forall>(k, p) \<in> set m. ps_id p = k \<and> call_step p \<and> (ps_note p \<longleftrightarrow> \<not> is_call k)))"

definition linked :: "(string \<Rightarrow> bool) \<Rightarrow> reporter \<Rightarrow> web_step list \<Rightarrow> bool" where
  "linked is_call st ss \<longleftrightarrow> entries_ok is_call (rp_steps st) \<and>
     map settle (filter (\<lambda>s. ws_id s \<in> kept_ids st) ss) = map shown_step (calls_kept st) \<and>
     (length (rp_steps st) < TURN_STEPS_MAX \<longrightarrow> (\<forall>s \<in> set ss. is_call (ws_id s) \<longrightarrow> ws_id s \<in> kept_ids st))"

lemma linked_cong: "linked is_call st ss \<Longrightarrow> rp_steps st' = rp_steps st \<Longrightarrow> linked is_call st' ss"
  by (simp add: linked_def kept_ids_def calls_kept_def)

lemma entry_ok: "entries_ok is_call m \<Longrightarrow> mget m k = Some p \<Longrightarrow> ps_id p = k \<and> call_step p \<and> (ps_note p \<longleftrightarrow> \<not> is_call k)"
  by (auto simp: entries_ok_def dest!: mget_SomeD)

lemma entries_put:
  "entries_ok is_call m \<Longrightarrow> ps_id p = k \<Longrightarrow> call_step p \<Longrightarrow> (ps_note p \<longleftrightarrow> \<not> is_call k) \<Longrightarrow> entries_ok is_call (mset_key k p m)"
  unfolding entries_ok_def by (auto simp: distinct_mkeys_mset dest!: set_mset_key)

lemma entries_not_empty: "entries_ok is_call m \<Longrightarrow> p \<in> set (map snd m) \<Longrightarrow> mget m (ps_id p) = Some p"
  by (auto simp: entries_ok_def mget_Some_iff)

lemma calls_put:
  "entries_ok is_call m \<Longrightarrow> ps_id p = k \<Longrightarrow> \<not> ps_note p \<Longrightarrow> is_call k \<Longrightarrow>
   filter (\<lambda>p. \<not> ps_note p) (map snd (mset_key k p m)) = upsert ps_id (filter (\<lambda>p. \<not> ps_note p) (map snd m)) p"
proof (induction m)
  case (Cons e m)
  obtain k' q where e: "e = (k', q)" by (cases e)
  with Cons.prems have q: "ps_id q = k'" "ps_note q \<longleftrightarrow> \<not> is_call k'" and m: "entries_ok is_call m"
    by (auto simp: entries_ok_def mkeys_def)
  show ?case using Cons.IH [OF m Cons.prems(2-4)] Cons.prems(2-4) q by (auto simp: e)
qed simp

lemma notes_put:
  "entries_ok is_call m \<Longrightarrow> ps_note p \<Longrightarrow> \<not> is_call k \<Longrightarrow>
   filter (\<lambda>p. \<not> ps_note p) (map snd (mset_key k p m)) = filter (\<lambda>p. \<not> ps_note p) (map snd m)"
proof (induction m)
  case (Cons e m)
  obtain k' q where e: "e = (k', q)" by (cases e)
  with Cons.prems have q: "ps_note q \<longleftrightarrow> \<not> is_call k'" and m: "entries_ok is_call m"
    by (auto simp: entries_ok_def mkeys_def)
  show ?case using Cons.IH [OF m Cons.prems(2,3)] Cons.prems(2,3) q by (auto simp: e)
qed simp

lemma kept_idsD: "entries_ok is_call (rp_steps st) \<Longrightarrow> i \<in> kept_ids st \<longleftrightarrow> is_call i \<and> mget (rp_steps st) i \<noteq> None"
proof
  assume ok: "entries_ok is_call (rp_steps st)" and "i \<in> kept_ids st"
  then obtain p where p: "p \<in> set (map snd (rp_steps st))" "\<not> ps_note p" "ps_id p = i" by (auto simp: kept_ids_def calls_kept_def)
  have "mget (rp_steps st) i = Some p" using entries_not_empty [OF ok p(1)] p(3) by simp
  then show "is_call i \<and> mget (rp_steps st) i \<noteq> None" using entry_ok [OF ok] p(2) by blast
next
  assume ok: "entries_ok is_call (rp_steps st)" and "is_call i \<and> mget (rp_steps st) i \<noteq> None"
  then obtain p where p: "mget (rp_steps st) i = Some p" "is_call i" by auto
  then have "ps_id p = i" "\<not> ps_note p" using entry_ok [OF ok p(1)] by auto
  moreover have "p \<in> set (map snd (rp_steps st))" using mget_SomeD [OF p(1)] by force
  ultimately show "i \<in> kept_ids st" by (auto simp: kept_ids_def calls_kept_def)
qed

text \<open>A client's step for a call that is kept shows what is kept.\<close>

lemma linked_find:
  assumes "linked is_call st ss" and "mget (rp_steps st) i = Some p" and "is_call i"
  shows "\<exists>s. List.find (\<lambda>s. ws_id s = i) ss = Some s \<and> settle s = shown_step p"
proof -
  let ?K = "kept_ids st"
  have ok: "entries_ok is_call (rp_steps st)" and e: "map settle (filter (\<lambda>s. ws_id s \<in> ?K) ss) = map shown_step (calls_kept st)"
    using assms(1) by (auto simp: linked_def)
  have i: "i \<in> ?K" using assms(2,3) kept_idsD [OF ok] by simp
  have p: "ps_id p = i" "\<not> ps_note p" using entry_ok [OF ok assms(2)] assms(3) by auto
  have uniq: "q = p" if "q \<in> set (calls_kept st)" "ps_id q = i" for q
    using that assms(2) entries_not_empty [OF ok, of q] by (auto simp: calls_kept_def)
  have "p \<in> set (calls_kept st)" using mget_SomeD [OF assms(2)] p by (force simp: calls_kept_def)
  then have "List.find (\<lambda>s. ws_id s = i) (map shown_step (calls_kept st)) \<noteq> None" using p by (auto simp: find_None_iff)
  then obtain s' where s': "List.find (\<lambda>s. ws_id s = i) (map shown_step (calls_kept st)) = Some s'" by blast
  from find_SomeD [OF s'] obtain q where "q \<in> set (calls_kept st)" "s' = shown_step q" "ps_id q = i" by auto
  with uniq have "s' = shown_step p" by blast
  moreover have "map_option settle (List.find (\<lambda>s. ws_id s = i) ss) = Some s'"
    using s' unfolding e [symmetric] find_settle find_filter [OF i] .
  ultimately show ?thesis by auto
qed

text \<open>The two accounts stay linked when both put the same call.\<close>

lemma linked_put:
  assumes "linked is_call st ss" and "ws_id s = i" and "ps_id p = i" and "is_call i" and "\<not> ps_note p" and "call_step p"
    and "settle s = shown_step p" and "rp_steps st' = mset_key i p (rp_steps st)"
    and "mget (rp_steps st) i = None \<Longrightarrow> length (rp_steps st) < TURN_STEPS_MAX"
  shows "linked is_call st' (upsert ws_id ss s)"
proof -
  let ?K = "kept_ids st" and ?K' = "kept_ids st'"
  have ok: "entries_ok is_call (rp_steps st)" and e: "map settle (filter (\<lambda>s. ws_id s \<in> ?K) ss) = map shown_step (calls_kept st)"
    and full: "length (rp_steps st) < TURN_STEPS_MAX \<Longrightarrow> \<forall>s \<in> set ss. is_call (ws_id s) \<longrightarrow> ws_id s \<in> ?K"
    using assms(1) by (auto simp: linked_def)
  have ok': "entries_ok is_call (rp_steps st')" unfolding assms(8) by (rule entries_put [OF ok assms(3,6)]) (use assms(4,5) in simp)
  have c: "calls_kept st' = upsert ps_id (calls_kept st) p"
    unfolding calls_kept_def assms(8) by (rule calls_put [OF ok assms(3,5,4)])
  have K': "?K' = insert i ?K" using kept_idsD [OF ok] kept_idsD [OF ok'] assms(4,8) by (auto split: if_splits)
  have same: "filter (\<lambda>s. ws_id s \<in> ?K') ss = filter (\<lambda>s. ws_id s \<in> ?K) ss"
  proof (cases "i \<in> ?K")
    case False
    then have "mget (rp_steps st) i = None" using kept_idsD [OF ok] assms(4) by auto
    then have "\<forall>s \<in> set ss. is_call (ws_id s) \<longrightarrow> ws_id s \<in> ?K" using assms(9) full by blast
    with False assms(4) show ?thesis unfolding K' by (intro filter_cong) auto
  qed (simp add: K' insert_absorb)
  have "filter (\<lambda>s. ws_id s \<in> ?K') (upsert ws_id ss s) = upsert ws_id (filter (\<lambda>s. ws_id s \<in> ?K) ss) s"
    unfolding filter_upsert same by (simp add: assms(2) K')
  then have "map settle (filter (\<lambda>s. ws_id s \<in> ?K') (upsert ws_id ss s)) = upsert ws_id (map shown_step (calls_kept st)) (shown_step p)"
    unfolding assms(7) [symmetric] e [symmetric] by (simp add: map_upsert)
  also have "\<dots> = map shown_step (calls_kept st')" unfolding c by (rule map_upsert [symmetric]) simp
  finally have "map settle (filter (\<lambda>s. ws_id s \<in> ?K') (upsert ws_id ss s)) = map shown_step (calls_kept st')" .
  moreover have "ws_id x \<in> ?K'" if "length (rp_steps st') < TURN_STEPS_MAX" "x \<in> set (upsert ws_id ss s)" "is_call (ws_id x)" for x
  proof -
    have "length (rp_steps st) < TURN_STEPS_MAX" using that(1) unfolding assms(8) by (simp add: length_mset_key split: if_splits)
    with full set_upsert [OF that(2)] that(3) show ?thesis using assms(2) by (auto simp: K')
  qed
  ultimately show ?thesis using ok' unfolding linked_def by blast
qed

text \<open>What a client puts beside the kept calls changes nothing of the link, unless there is room to keep it.\<close>

lemma linked_other:
  assumes "linked is_call st ss" and "ws_id s \<notin> kept_ids st" and "is_call (ws_id s) \<Longrightarrow> TURN_STEPS_MAX \<le> length (rp_steps st)"
  shows "linked is_call st (upsert ws_id ss s)"
  using assms unfolding linked_def filter_upsert by (auto dest!: set_upsert)

section \<open>Every event keeps the link\<close>

text \<open>Every update so far: what the server took, the one in flight and the queued ones.\<close>

definition reports :: "reporter \<Rightarrow> agent_activity list" where
  "reports st = rp_sent st @ (case rp_request st of None \<Rightarrow> [] | Some a \<Rightarrow> [a]) @ rp_queue st"

definition prose_ok :: "(string \<Rightarrow> bool) \<Rightarrow> agent_activity \<Rightarrow> bool" where
  "prose_ok is_call a = (ac_kind a = ''thinking'' \<or> ac_kind a = ''note'' \<and> (\<exists>i. ac_id a = Some i \<and> \<not> is_call i))"

definition in_sync :: "(string \<Rightarrow> bool) \<Rightarrow> reporter \<Rightarrow> bool" where
  "in_sync is_call st \<longleftrightarrow> linked is_call st (foldl web_take [] (reports st)) \<and>
     (\<forall>a. rp_pending st = Some a \<longrightarrow> prose_ok is_call a) \<and> \<not> rp_disabled st"

lemma in_sync_cong:
  "in_sync is_call st \<Longrightarrow> rp_steps st' = rp_steps st \<Longrightarrow> reports st' = reports st \<Longrightarrow> rp_pending st' = rp_pending st \<Longrightarrow>
   rp_disabled st' = rp_disabled st \<Longrightarrow> in_sync is_call st'"
  using linked_cong by (auto simp: in_sync_def)

lemma reports_queueSend: "\<not> rp_disabled st \<Longrightarrow> reports (queueSend False a st) = reports st @ [a]"
  by (simp add: reports_def queueSend_def silenced_def)

text \<open>An update that the link survives may be queued.\<close>

lemma sync_send:
  assumes "in_sync is_call st" and "linked is_call st' (web_take (foldl web_take [] (reports st)) a)"
    and "reports st' = reports st" and "rp_pending st' = rp_pending st" and "rp_disabled st' = rp_disabled st"
  shows "in_sync is_call (queueSend False a st')"
  using assms linked_cong [OF assms(2), of "queueSend False a st'"] by (simp add: in_sync_def reports_queueSend)

lemma linked_prose:
  assumes "linked is_call st ss" and "prose_ok is_call a"
  shows "linked is_call st (web_take ss a)"
proof (cases "ac_kind a = ''thinking''")
  case False
  then obtain i where a: "ac_kind a = ''note''" "ac_id a = Some i" "\<not> is_call i" using assms(2) by (auto simp: prose_ok_def)
  have "i \<notin> kept_ids st" using kept_idsD a(3) assms(1) by (auto simp: linked_def)
  then have "linked is_call st (upsert ws_id ss (NoteStep i l))" for l by (intro linked_other [OF assms(1)]) (use a in simp_all)
  then show ?thesis using assms(1) a by (simp add: web_take_def web_applyStep_def fresh_id_def)
qed (simp add: web_take_def assms(1))

lemma sync_pending: "in_sync is_call st \<Longrightarrow> (\<And>a. x = Some a \<Longrightarrow> prose_ok is_call a) \<Longrightarrow> in_sync is_call (st\<lparr>rp_pending := x\<rparr>)"
  using linked_cong [of is_call st _ "st\<lparr>rp_pending := x\<rparr>"] by (simp add: in_sync_def reports_def)

lemma sync_flush: "in_sync is_call st \<Longrightarrow> in_sync is_call (flushProse False now st)"
proof (cases "rp_pending st")
  case (Some a)
  assume s: "in_sync is_call st"
  let ?s = "st\<lparr>rp_pending := None, rp_last_prose := now\<rparr>"
  have r: "reports ?s = reports st" by (simp add: reports_def)
  have "in_sync is_call ?s" using in_sync_cong [OF sync_pending [OF s, of None], of ?s] by (simp add: reports_def)
  moreover have "linked is_call ?s (web_take (foldl web_take [] (reports ?s)) a)"
    using linked_cong [OF linked_prose] s Some unfolding r by (auto simp: in_sync_def)
  ultimately have "in_sync is_call (queueSend False a ?s)" by (rule sync_send) simp_all
  then show ?thesis using Some by (simp add: flushProse_def)
qed (simp add: flushProse_def)

lemma sync_tick: "in_sync is_call st \<Longrightarrow> prose_ok is_call a \<Longrightarrow> in_sync is_call (tickProse False now a st)"
proof -
  assume "in_sync is_call st" and "prose_ok is_call a"
  then have s: "in_sync is_call (st\<lparr>rp_pending := Some a\<rparr>)" by (intro sync_pending) auto
  have "in_sync is_call (st\<lparr>rp_pending := Some a, rp_timer := True\<rparr>)"
    using in_sync_cong [OF s, of "st\<lparr>rp_pending := Some a, rp_timer := True\<rparr>"] by (simp add: reports_def)
  with s show ?thesis by (simp add: tickProse_def Let_def sync_flush \<open>in_sync is_call st\<close>)
qed

lemma sync_note: "in_sync is_call st \<Longrightarrow> \<not> is_call i \<Longrightarrow> in_sync is_call (keepStep (note_step i l) st)"
proof -
  assume s: "in_sync is_call st" and i: "\<not> is_call i"
  let ?p = "note_step i l"
  let ?s = "st\<lparr>rp_steps := mset_key i ?p (rp_steps st)\<rparr>"
  have ok: "entries_ok is_call (rp_steps st)" using s by (simp add: in_sync_def linked_def)
  have "entries_ok is_call (rp_steps ?s)"
    using entries_put [OF ok, of ?p i] i by (simp add: note_step_def call_step_def)
  moreover have "calls_kept ?s = calls_kept st"
    using notes_put [OF ok, of ?p i] i by (simp add: calls_kept_def note_step_def)
  moreover have "length (rp_steps st) \<le> length (rp_steps ?s)" by (simp add: length_mset_key)
  ultimately have "linked is_call ?s ss" if "linked is_call st ss" for ss using that by (auto simp: linked_def kept_ids_def)
  then have "in_sync is_call ?s" using s by (simp add: in_sync_def reports_def)
  then show ?thesis using s by (simp add: keepStep_def note_step_def)
qed

lemma flush_keep: "flushProse lacks now (keepStep p st) = keepStep p (flushProse lacks now st)"
  by (cases "rp_pending st") (auto simp: flushProse_def keepStep_def queueSend_def silenced_def)

lemma web_start_id: "ac_id a = Some i \<Longrightarrow> i \<noteq> [] \<Longrightarrow> ws_id (web_start ss a l) = i"
  by (auto simp: web_start_def web_started_def given_def fresh_id_def Let_def dest!: find_SomeD split: option.split web_step.split)

lemma linked_start:
  assumes "linked is_call st ss" and "is_call i" and "mget (rp_steps st) i = None" and "solid l"
  shows "linked is_call (keepStep (tool_step i t l) st) (web_take ss (tool_activity i t l))"
proof -
  let ?a = "tool_activity i t l" and ?w = "web_start ss (tool_activity i t l) (Some l)"
  have ok: "entries_ok is_call (rp_steps st)" using assms(1) by (simp add: linked_def)
  then have i: "i \<noteq> []" using assms(2) by (auto simp: entries_ok_def)
  have w: "web_take ss ?a = upsert ws_id ss ?w"
    using assms(4) by (simp add: web_take_def web_applyStep_def tool_activity_def solid_trim)
  have ident: "ws_id ?w = i" by (rule web_start_id) (use i in \<open>simp_all add: tool_activity_def\<close>)
  have new: "i \<notin> kept_ids st" using kept_idsD [OF ok] assms(3) by simp
  show ?thesis
  proof (cases "length (rp_steps st) < TURN_STEPS_MAX")
    case True
    with assms(1,2) new have "\<forall>s \<in> set ss. ws_id s \<noteq> i" by (auto simp: linked_def)
    then have "List.find (\<lambda>s. ws_id s = i) ss = None" by (simp add: find_None_iff)
    then have e: "?w = ToolStep i t (Some l) ''running'' None"
      using i by (simp add: web_start_def web_started_def given_def fresh_id_def tool_activity_def)
    have k: "keepStep (tool_step i t l) st = st\<lparr>rp_steps := mset_key i (tool_step i t l) (rp_steps st)\<rparr>"
      using True by (simp add: keepStep_def tool_step_def)
    show ?thesis unfolding w k
      by (rule linked_put [OF assms(1) ident])
        (use assms(2,4) True in \<open>simp_all add: e tool_step_def call_step_def shown_step_def postSteps_def solid_def\<close>)
  next
    case False
    then have k: "keepStep (tool_step i t l) st = st" using assms(3) by (simp add: keepStep_def tool_step_def)
    show ?thesis unfolding w k by (rule linked_other [OF assms(1)]) (use ident new False in simp_all)
  qed
qed

text \<open>The end of a call that is kept, and of one that is not.\<close>

lemma linked_done:
  assumes "linked is_call st ss" and "is_call i" and "ac_kind a = ''tool_done''" and "ac_id a = Some i" and "mget (rp_steps st) i = Some p"
    and "\<And>s. settle s = shown_step p \<Longrightarrow> settle (web_done a (map_option trim (ac_label a)) s) = shown_step p'"
    and "ps_id p' = i" and "\<not> ps_note p'" and "call_step p'" and "rp_steps st' = mset_key i p' (rp_steps st)"
  shows "linked is_call st' (web_take ss a)"
proof -
  have ok: "entries_ok is_call (rp_steps st)" using assms(1) by (simp add: linked_def)
  then have i: "i \<noteq> []" using assms(2) by (auto simp: entries_ok_def)
  obtain s where s: "List.find (\<lambda>s. ws_id s = i) ss = Some s" "settle s = shown_step p"
    using linked_find [OF assms(1,5,2)] by blast
  have call: "\<not> ps_note p" using entry_ok [OF ok assms(5)] assms(2) by simp
  then obtain j t l x m where st: "s = ToolStep j t l x m"
    using s(2) by (cases s) (auto simp: shown_step_def postSteps_def)
  have "web_take ss a = upsert ws_id ss (web_done a (map_option trim (ac_label a)) s)"
    using s(1) i assms(3,4) by (simp add: web_take_def web_applyStep_def given_def st)
  moreover have "ws_id (web_done a (map_option trim (ac_label a)) s) = i"
    using find_SomeD [OF s(1)] by (simp add: st web_done_def Let_def)
  ultimately show ?thesis using linked_put [OF assms(1) _ assms(7,2,8,9) assms(6) [OF s(2)] assms(10)] assms(5) by simp
qed

lemma linked_done_unkept:
  assumes "linked is_call st ss" and "is_call i" and "ac_kind a = ''tool_done''" and "ac_id a = Some i" and "mget (rp_steps st) i = None"
  shows "linked is_call st (web_take ss a)"
proof -
  have ok: "entries_ok is_call (rp_steps st)" using assms(1) by (simp add: linked_def)
  then have i: "i \<noteq> []" using assms(2) by (auto simp: entries_ok_def)
  have new: "i \<notin> kept_ids st" using kept_idsD [OF ok] assms(5) by simp
  show ?thesis
  proof (cases "List.find (\<lambda>s. ws_id s = i) ss")
    case None
    then show ?thesis using assms(1,3,4) i by (simp add: web_take_def web_applyStep_def given_def)
  next
    case (Some s)
    from find_SomeD [OF Some] assms(1,2) new have "TURN_STEPS_MAX \<le> length (rp_steps st)" by (auto simp: linked_def not_less)
    then have "linked is_call st (upsert ws_id ss x)" if "ws_id x = i" for x
      using that new by (intro linked_other [OF assms(1)]) simp_all
    moreover have "ws_id (web_done a l s) = i" for l
      using find_SomeD [OF Some] by (cases s) (simp_all add: web_done_def Let_def)
    ultimately show ?thesis using Some assms(1,3,4) i
      by (cases s) (simp_all add: web_take_def web_applyStep_def given_def)
  qed
qed

lemma done_shows:
  assumes "settle s = shown_step p" and "\<not> ps_note p" and "ps_tool p = Some t" and "solid (ps_label p)"
    and "l = t \<or> solid l"
  shows "settle (web_done (done_activity i t l okay ms) (Some (trim l)) s) = shown_step (with_outcome okay ms t l p)"
proof -
  have ne: "ps_label p \<noteq> []" and tr: "trim (ps_label p) = ps_label p" using assms(4) solid_trim by (auto simp: solid_def)
  obtain x where s: "s = ToolStep (ps_id p) t (Some (ps_label p)) x (ps_ms p)"
    using assms(1-3) ne by (cases s) (auto simp: shown_step_def postSteps_def)
  have l: "ps_label p = t \<Longrightarrow> trim l = l \<and> l \<noteq> []" using assms(5) ne tr solid_trim by (auto simp: solid_def)
  show ?thesis
    using assms(2,3) ne l
    by (auto simp: s web_done_def done_activity_def with_outcome_def shown_step_def postSteps_def given_def Let_def split: option.split)
qed

lemma failed_shows:
  assumes "settle s = shown_step p" and "\<not> ps_note p" and "ps_tool p = Some t" and "solid (ps_label p)"
  shows "settle (web_done (failed_activity p) (Some (trim (ps_label p))) s) = shown_step (p\<lparr>ps_ok := Some False\<rparr>)"
proof -
  have ne: "ps_label p \<noteq> []" and tr: "trim (ps_label p) = ps_label p" using assms(4) solid_trim by (auto simp: solid_def)
  obtain x where s: "s = ToolStep (ps_id p) t (Some (ps_label p)) x (ps_ms p)"
    using assms(1-3) ne by (cases s) (auto simp: shown_step_def postSteps_def)
  show ?thesis
    using assms(2,3) ne
    by (auto simp: s tr web_done_def failed_activity_def shown_step_def postSteps_def given_def Let_def split: option.split)
qed

lemma sync_started: "in_sync is_call st \<Longrightarrow> in_sync is_call (st\<lparr>rp_started := x\<rparr>)"
  by (rule in_sync_cong) (simp_all add: reports_def)

lemma sync_tool_starts:
  assumes "in_sync is_call st" and "is_call (field_text d ''toolCallId'')" and "mget (rp_steps st) (field_text d ''toolCallId'') = None"
  shows "in_sync is_call (tool_starts False now perf d st)"
proof -
  let ?i = "field_text d ''toolCallId''"
  let ?p = "tool_step ?i (start_tool d) (start_label d)" and ?a = "tool_activity ?i (start_tool d) (start_label d)"
  let ?s = "flushProse False now (st\<lparr>rp_started := mset_key ?i perf (rp_started st)\<rparr>)"
  have i: "?i \<noteq> []" using assms(1,2) by (auto simp: in_sync_def linked_def entries_ok_def)
  have s: "in_sync is_call ?s" by (rule sync_flush) (rule sync_started [OF assms(1)])
  have "solid (start_label d)" by (simp add: start_label_def solid_summary Let_def)
  then have "linked is_call (keepStep ?p ?s) (web_take (foldl web_take [] (reports ?s)) ?a)"
    using s assms(2,3) by (intro linked_start) (simp_all add: in_sync_def)
  then have "in_sync is_call (queueSend False ?a (keepStep ?p ?s))"
    by (rule sync_send [OF s]) (simp_all add: reports_def)
  then show ?thesis using i by (simp add: tool_starts_def Let_def flush_keep)
qed

lemma sync_tool_ends:
  assumes "in_sync is_call st" and "is_call (field_text d ''toolCallId'')"
  shows "in_sync is_call (tool_ends False perf d st)"
proof -
  let ?i = "field_text d ''toolCallId''" and ?ss = "foldl web_take [] (reports st)"
  let ?ms = "map_option (\<lambda>t. js_round (perf - t)) (mget (rp_started st) ?i)"
  let ?s1 = "st\<lparr>rp_started := mdel ?i (rp_started st)\<rparr>"
  have l: "linked is_call st ?ss" and ok: "entries_ok is_call (rp_steps st)" using assms(1) by (auto simp: in_sync_def linked_def)
  have i: "?i \<noteq> []" using ok assms(2) by (auto simp: entries_ok_def)
  show ?thesis
  proof (cases "mget (rp_steps st) ?i")
    case None
    let ?a = "done_activity ?i (called_tool d) (result_label (called_tool d) d) (jget d ''isError'' \<noteq> JBool True) ?ms"
    have "linked is_call st (web_take ?ss ?a)"
      by (rule linked_done_unkept [OF l assms(2) _ _ None]) (use i in \<open>simp_all add: done_activity_def\<close>)
    then have "linked is_call ?s1 (web_take ?ss ?a)" by (rule linked_cong) simp
    then have "in_sync is_call (queueSend False ?a ?s1)"
      by (rule sync_send [OF assms(1)]) (simp_all add: reports_def)
    then show ?thesis using None by (simp add: tool_ends_def Let_def)
  next
    case (Some p)
    have p: "ps_id p = ?i" "\<not> ps_note p" "call_step p" using entry_ok [OF ok Some] assms(2) by auto
    then obtain t where t: "ps_tool p = Some t" "solid (ps_label p)" by (auto simp: call_step_def)
    let ?l = "result_label t d" and ?okay = "ps_ok p \<noteq> Some False \<and> jget d ''isError'' \<noteq> JBool True"
    let ?a = "done_activity ?i t ?l ?okay ?ms" and ?p' = "with_outcome ?okay ?ms t ?l p"
    let ?s2 = "?s1\<lparr>rp_steps := mset_key ?i ?p' (rp_steps ?s1)\<rparr>"
    have step: "call_step ?p'" using t result_label_solid [of t d] by (auto simp: call_step_def with_outcome_def)
    have "linked is_call ?s2 (web_take ?ss ?a)"
    proof (rule linked_done [OF l assms(2) _ _ Some])
      show "settle (web_done ?a (map_option trim (ac_label ?a)) s) = shown_step ?p'" if "settle s = shown_step p" for s
        using done_shows [OF that p(2) t result_label_solid [of t d]] by (simp add: done_activity_def)
    qed (use p i step in \<open>simp_all add: done_activity_def with_outcome_def\<close>)
    then have "in_sync is_call (queueSend False ?a ?s2)"
      by (rule sync_send [OF assms(1)]) (simp_all add: reports_def)
    then show ?thesis using Some t by (simp add: tool_ends_def Let_def)
  qed
qed

lemma sync_command: "in_sync is_call st \<Longrightarrow> in_sync is_call (onCommandOutputEvent False d st)"
proof -
  assume s: "in_sync is_call st"
  let ?ss = "foldl web_take [] (reports st)"
  have l: "linked is_call st ?ss" and ok: "entries_ok is_call (rp_steps st)" using s by (auto simp: in_sync_def linked_def)
  have "in_sync is_call (queueSend False (failed_activity p) (st\<lparr>rp_steps := mset_key (ps_id p) (p\<lparr>ps_ok := Some False\<rparr>) (rp_steps st)\<rparr>))"
    if k: "mget (rp_steps st) k = Some p" and n: "\<not> ps_note p" for k p
  proof -
    have p: "ps_id p = k" "is_call k" "call_step p" using entry_ok [OF ok k] n by auto
    then obtain t where t: "ps_tool p = Some t" "solid (ps_label p)" using n by (auto simp: call_step_def)
    let ?p' = "p\<lparr>ps_ok := Some False\<rparr>" and ?a = "failed_activity p"
    have "linked is_call (st\<lparr>rp_steps := mset_key (ps_id p) ?p' (rp_steps st)\<rparr>) (web_take ?ss ?a)"
    proof (rule linked_done [OF l p(2) _ _ k])
      show "settle (web_done ?a (map_option trim (ac_label ?a)) s) = shown_step ?p'" if "settle s = shown_step p" for s
        using failed_shows [OF that n t] by (simp add: failed_activity_def)
    qed (use p n t in \<open>simp_all add: failed_activity_def call_step_def\<close>)
    then show ?thesis by (rule sync_send [OF s]) (simp_all add: reports_def)
  qed
  then show ?thesis using s by (auto simp: onCommandOutputEvent_def split: option.split)
qed

section \<open>The discipline of a run, and the theorem\<close>

text \<open>
  What the events of a run are: a call has an identifier, starts once, and no narration bears it. The requests of
  the lane succeed, and neither the run nor a post in its middle ends the account.
\<close>

fun tidy :: "(string \<Rightarrow> bool) \<Rightarrow> bool \<times> reporter option \<Rightarrow> reporter_event \<Rightarrow> bool" where
  "tidy is_call s (Item now d) = (\<not> is_call (item_id d))"
| "tidy is_call s (Tool now perf d) =
     (is_call (field_text d ''toolCallId'') \<and>
      (field_text d ''phase'' = ''start'' \<longrightarrow> mget (rp_steps (stateFor (snd s))) (field_text d ''toolCallId'') = None))"
| "tidy is_call s (SendFails code) = False"
| "tidy is_call s EndOfRun = False"
| "tidy is_call s PostTakes = False"
| "tidy is_call s e = True"

lemma sync_request: "in_sync is_call st \<Longrightarrow> in_sync is_call (send_begin False st)" "in_sync is_call st \<Longrightarrow> in_sync is_call (send_ok st)"
proof -
  assume s: "in_sync is_call st"
  have "reports (send_begin False st) = reports st"
    using s by (auto simp: reports_def send_begin_def silenced_def in_sync_def split: list.split)
  then show "in_sync is_call (send_begin False st)"
    by (rule in_sync_cong [OF s, rotated]) (auto simp: send_begin_def split: list.split)
  have "reports (send_ok st) = reports st" by (auto simp: reports_def send_ok_def split: option.split)
  then show "in_sync is_call (send_ok st)"
    by (rule in_sync_cong [OF s, rotated]) (auto simp: send_ok_def split: option.split)
qed

lemma sync_timer: "in_sync is_call st \<Longrightarrow> in_sync is_call (prose_timer_fires False now st)"
proof -
  assume s: "in_sync is_call st"
  have "in_sync is_call (st\<lparr>rp_timer := False\<rparr>)" by (rule in_sync_cong [OF s]) (simp_all add: reports_def)
  then show ?thesis using s by (simp add: prose_timer_fires_def sync_flush)
qed

lemma sync_thinking: "in_sync is_call st \<Longrightarrow> in_sync is_call (onThinkingEvent False now d st)"
  by (simp add: onThinkingEvent_def Let_def sync_tick prose_ok_def thinking_activity_def)

lemma sync_item: "in_sync is_call st \<Longrightarrow> \<not> is_call (item_id d) \<Longrightarrow> in_sync is_call (onItemEvent False now d st)"
  by (simp add: onItemEvent_def Let_def sync_tick sync_note prose_ok_def note_activity_def)

lemma sync_tool:
  assumes "in_sync is_call st" and "is_call (field_text d ''toolCallId'')"
    and "field_text d ''phase'' = ''start'' \<Longrightarrow> mget (rp_steps st) (field_text d ''toolCallId'') = None"
  shows "in_sync is_call (onToolEvent on_origin False now perf d st)"
proof -
  let ?s = "note_view on_origin d st"
  have s: "in_sync is_call ?s" by (rule in_sync_cong [OF assms(1)]) (simp_all add: reports_def)
  have p: "in_sync is_call (?s\<lparr>rp_parents := x\<rparr>)" for x by (rule in_sync_cong [OF s]) (simp_all add: reports_def)
  show ?thesis using s p sync_tool_starts [OF s assms(2)] sync_tool_ends [OF s assms(2)] assms(3)
    by (simp add: onToolEvent_def Let_def)
qed

definition lane_in_sync :: "(string \<Rightarrow> bool) \<Rightarrow> bool \<times> reporter option \<Rightarrow> bool" where
  "lane_in_sync is_call s = (\<not> fst s \<and> (is_call [] \<or> in_sync is_call (stateFor (snd s))))"

interpretation reported: guarded_system "(False, None)" "reporter_do on_origin" "tidy is_call" "lane_in_sync is_call"
proof
  have "in_sync is_call reporter_init" if "\<not> is_call []"
    using that by (simp add: in_sync_def linked_def entries_ok_def mkeys_def reports_def reporter_init_def calls_kept_def kept_ids_def)
  then show "lane_in_sync is_call (False, None)" by (auto simp: lane_in_sync_def stateFor_def)
  fix s e
  assume "lane_in_sync is_call s" and "tidy is_call s e"
  moreover obtain lacks known where "s = (lacks, known)" by (cases s)
  ultimately show "lane_in_sync is_call (reporter_do on_origin s e)"
    by (cases e; cases known) (auto simp: lane_in_sync_def stateFor_def reporting_def sync_request sync_timer sync_thinking sync_item sync_tool sync_command)
qed

text \<open>
  C17: The reply tells the calls as the live turn did. While every status request succeeds, every call has an identifier of its own, the run
  has not ended and no post has taken the steps so far, in whatever order the events come with the lane's own timers and
  requests: once the updates are delivered, a client that folded them holds, for every call the reporter kept (the first two
  hundred steps), the same identifier, tool, label, outcome and duration in the same order as the reply will show, only that a call
  that has not ended is still running there; and it holds no other call unless two hundred steps are kept.
\<close>

theorem reply_tells_calls_as_shown:
  assumes "\<not> is_call []" and "obeys (tidy is_call) (reporter_do on_origin) (False, None) es"
    and "st = stateFor (snd (run (reporter_do on_origin) (False, None) es))" and "rp_queue st = []" and "rp_request st = None"
    and "w = foldl web_applyActivity \<lparr>lt_key = k, lt_steps = [], lt_thoughts = []\<rparr> (rp_sent st)"
  shows "map settle (filter (\<lambda>s. ws_id s \<in> ps_id ` set (calls_kept st)) (lt_steps w)) = postSteps (calls_kept st) \<and>
    (length (rp_steps st) < TURN_STEPS_MAX \<longrightarrow>
      map settle (filter (\<lambda>s. is_call (ws_id s)) (lt_steps w)) = postSteps (calls_kept st))"
proof -
  have "in_sync is_call st" using reported.good_disciplined_run [OF assms(2)] assms(1,3) by (simp add: lane_in_sync_def)
  moreover have "reports st = rp_sent st" using assms(4,5) by (simp add: reports_def)
  ultimately have l: "linked is_call st (lt_steps w)" unfolding assms(6) lt_steps_fold by (simp add: in_sync_def)
  then have ids: "is_call i" if "i \<in> kept_ids st" for i using kept_idsD that by (auto simp: linked_def)
  have "filter (\<lambda>s. is_call (ws_id s)) (lt_steps w) = filter (\<lambda>s. ws_id s \<in> kept_ids st) (lt_steps w)" if "length (rp_steps st) < TURN_STEPS_MAX"
    using l that ids by (intro filter_cong) (auto simp: linked_def)
  then show ?thesis using l by (simp add: linked_def kept_ids_def postSteps_map)
qed

text \<open>A search in which a narration comes between the start of a call and its failure.\<close>

definition demo_run :: "reporter_event list" where
  "demo_run =
     [Tool 5000 10 (JObj [(''phase'', JStr ''start''), (''name'', JStr ''exec''), (''toolCallId'', JStr ''c1''),
        (''args'', JObj [(''command'', JStr ''ls'')])]), SendBegins, SendOk,
      Item 6000 (JObj [(''kind'', JStr ''preamble''), (''itemId'', JStr ''m1''), (''progressText'', JStr ''Looking'')]), SendBegins, SendOk,
      Tool 7000 260 (JObj [(''phase'', JStr ''result''), (''name'', JStr ''exec''), (''toolCallId'', JStr ''c1''), (''isError'', JBool True)]),
      SendBegins, SendOk]"

lemma reply_tells_calls_as_shown_witness:
  "\<exists>st w. st = stateFor (snd (run (reporter_do (\<lambda>_. False)) (False, None) demo_run)) \<and>
     w = foldl web_applyActivity \<lparr>lt_key = ''k'', lt_steps = [], lt_thoughts = []\<rparr> (rp_sent st) \<and>
     map settle (filter (\<lambda>s. ws_id s = ''c1'') (lt_steps w)) = postSteps (calls_kept st) \<and>
     postSteps (calls_kept st) = [ToolStep ''c1'' ''exec'' (Some (''exec: '' @ quoted_text ''ls'')) ''error'' (Some 250)]"
proof -
  let ?c = "\<lambda>i. i = ''c1''" and ?f = "reporter_do (\<lambda>_. False)"
  let ?st = "stateFor (snd (run ?f (False, None) demo_run))"
  have o: "obeys (tidy ?c) ?f (False, None) demo_run" by code_simp
  have q: "rp_queue ?st = []" "rp_request ?st = None" "length (rp_steps ?st) < TURN_STEPS_MAX" by code_simp+
  have e: "postSteps (calls_kept ?st) = [ToolStep ''c1'' ''exec'' (Some (''exec: '' @ quoted_text ''ls'')) ''error'' (Some 250)]" by code_simp
  have n: "\<not> ?c []" by simp
  show ?thesis
    using reply_tells_calls_as_shown [OF n o refl q(1,2) refl, of "''k''"] q(3) e by blast
qed

end
