(* ===== verification/Reports_Shown.thy ===== *)
theory Reports_Shown
  imports Activity_Reporter Live_Turn
begin

text \<open>
  From the plugin's activity lane (\<open>plugin/src/activity/reporter.ts\<close>) to the two clients that fold what it sends
  (\<open>apps/mobile/src/lib/liveTurn.ts\<close>, \<open>frontend/src/lib/turnSteps.ts\<close>): the folds agree on \<open>clean\<close> updates only, and
  every update the lane sends is clean.
\<close>

section \<open>Labels that say something\<close>

lemma squeeze_solid: "collapseWhitespace v \<noteq> [] \<Longrightarrow> solid (collapseWhitespace v)"
  unfolding collapseWhitespace_def by (rule trim_solid)

lemma solid_says: "solid s \<Longrightarrow> trim s \<noteq> []"
  using solid_trim [of s] by (auto simp: solid_def)

lemma trim_set_keeps: "\<not> is_ws c \<Longrightarrow> trim (c # s) \<noteq> []"
  by (simp add: trim_def trim_start_def trim_end_def dropWhile_append)

lemma tail_says: "sanitizeThinkingTail v \<noteq> [] \<Longrightarrow> trim (sanitizeThinkingTail v) \<noteq> []"
  using squeeze_solid trim_set_keeps [of ELLIPSIS]
  by (auto simp: sanitizeThinkingTail_def flatten_thinking_def Let_def ELLIPSIS_def is_ws_def solid_says split: option.splits)

lemma result_says: "trim tool \<noteq> [] \<Longrightarrow> trim (result_label tool d) \<noteq> []"
  using result_label_solid [of tool d] solid_says by auto

section \<open>Every update is clean\<close>

definition says :: "post_step \<Rightarrow> bool" where
  "says p = (trim (ps_label p) \<noteq> [] \<and> (case ps_tool p of Some t \<Rightarrow> trim t \<noteq> [] | None \<Rightarrow> True))"

definition fair_steps :: "(string, post_step) jsmap \<Rightarrow> bool" where
  "fair_steps m = list_all (\<lambda>e. says (snd e)) m"

definition fair :: "reporter \<Rightarrow> bool" where
  "fair st = (fair_steps (rp_steps st) \<and> list_all clean (rp_sent st @ rp_queue st) \<and>
     pred_option clean (rp_request st) \<and> pred_option clean (rp_pending st))"

lemma fair_put: "fair_steps m \<Longrightarrow> says p \<Longrightarrow> fair_steps (mset_key k p m)"
  by (auto simp: fair_steps_def list_all_iff dest!: set_mset_key)

lemma fair_get: "fair_steps m \<Longrightarrow> mget m k = Some p \<Longrightarrow> says p"
  by (auto simp: fair_steps_def list_all_iff dest!: mget_SomeD)

lemma fair_cong:
  "fair st \<Longrightarrow> rp_steps st' = rp_steps st \<Longrightarrow> rp_sent st' = rp_sent st \<Longrightarrow> rp_queue st' = rp_queue st \<Longrightarrow>
   rp_request st' = rp_request st \<Longrightarrow> rp_pending st' = rp_pending st \<Longrightarrow> fair st'"
  by (simp add: fair_def)

lemma fair_queue: "fair st \<Longrightarrow> clean a \<Longrightarrow> fair (queueSend lacks a st)"
  by (simp add: fair_def queueSend_def)

lemma fair_keep: "fair st \<Longrightarrow> says p \<Longrightarrow> fair (keepStep p st)"
  by (simp add: fair_def keepStep_def fair_put)

lemma fair_flush: "fair st \<Longrightarrow> fair (flushProse lacks now st)"
proof (cases "rp_pending st")
  case (Some a)
  assume f: "fair st"
  then have "fair (st\<lparr>rp_pending := None, rp_last_prose := now\<rparr>)" "clean a" using Some by (simp_all add: fair_def)
  then show ?thesis using Some by (simp add: flushProse_def fair_queue)
qed (simp add: flushProse_def)

lemma fair_tick: "fair st \<Longrightarrow> clean a \<Longrightarrow> fair (tickProse lacks now a st)"
proof -
  assume f: "fair st" and a: "clean a"
  then have p: "fair (st\<lparr>rp_pending := Some a\<rparr>)" by (simp add: fair_def)
  then have "fair (st\<lparr>rp_pending := Some a, rp_timer := True\<rparr>)" by (simp add: fair_def)
  with f fair_flush [OF p] show ?thesis by (simp add: tickProse_def Let_def)
qed

lemma fair_thinking: "fair st \<Longrightarrow> fair (onThinkingEvent lacks now d st)"
  using tail_says by (simp add: onThinkingEvent_def Let_def fair_tick clean_def thinking_activity_def)

lemma fair_item: "fair st \<Longrightarrow> fair (onItemEvent lacks now d st)"
  using tail_says [of "jget d ''progressText''"]
  by (simp add: onItemEvent_def Let_def fair_tick fair_keep clean_def note_activity_def says_def note_step_def)

text \<open>A call whose tool has a name that is not blank, at its start and at its end.\<close>

fun names_tool :: "reporter_event \<Rightarrow> bool" where
  "names_tool (Tool now perf d) = (trim (start_tool d) \<noteq> [] \<and> trim (called_tool d) \<noteq> [])"
| "names_tool e = True"

lemma fair_starts:
  assumes "fair st" and "trim (start_tool d) \<noteq> []"
  shows "fair (tool_starts lacks now perf d st)"
proof -
  have l: "trim (start_label d) \<noteq> []" by (simp add: start_label_def Let_def solid_says solid_summary)
  have s: "fair (st\<lparr>rp_started := x\<rparr>)" for x by (rule fair_cong [OF assms(1)]) simp_all
  have "start_tool d \<noteq> []" using assms(2) by (auto simp: trim_def trim_start_def trim_end_def)
  then have "clean (tool_activity i (start_tool d) (start_label d))" for i using l by (simp add: clean_def tool_activity_def)
  moreover have "says (tool_step i (start_tool d) (start_label d))" for i using l assms(2) by (simp add: says_def tool_step_def)
  ultimately show ?thesis using assms(1) s by (simp add: tool_starts_def Let_def fair_queue fair_flush fair_keep)
qed

lemma fair_ends:
  assumes "fair st" and "trim (called_tool d) \<noteq> []"
  shows "fair (tool_ends lacks perf d st)"
proof -
  let ?i = "field_text d ''toolCallId''"
  have c: "clean (done_activity i t (result_label t d) okay ms)" if "trim t \<noteq> []" for i t okay ms
    using that result_says [OF that] by (auto simp: clean_def done_activity_def trim_def trim_start_def trim_end_def)
  have s: "fair (st\<lparr>rp_started := x\<rparr>)" for x by (rule fair_cong [OF assms(1)]) simp_all
  show ?thesis
  proof (cases "mget (rp_steps st) ?i")
    case None
    then show ?thesis using c [OF assms(2)] s by (simp add: tool_ends_def Let_def fair_queue)
  next
    case (Some p)
    have p: "says p" using fair_get [of "rp_steps st"] Some assms(1) by (simp add: fair_def)
    define t where "t = (case ps_tool p of Some t \<Rightarrow> t | None \<Rightarrow> called_tool d)"
    have t: "trim t \<noteq> []" using p assms(2) by (auto simp: t_def says_def split: option.split)
    have "says (with_outcome okay ms t (result_label t d) p)" for okay ms
      using p result_says [OF t] by (simp add: says_def with_outcome_def)
    then have "fair (st\<lparr>rp_started := x, rp_steps := mset_key ?i (with_outcome okay ms t (result_label t d) p) (rp_steps st)\<rparr>)" for okay ms x
      using assms(1) by (simp add: fair_def fair_put)
    then show ?thesis using Some c [OF t] by (simp add: tool_ends_def Let_def fair_queue t_def)
  qed
qed

lemma fair_tool: "fair st \<Longrightarrow> names_tool (Tool now perf d) \<Longrightarrow> fair (onToolEvent on_origin lacks now' perf' d st)"
proof -
  assume f: "fair st" and n: "names_tool (Tool now perf d)"
  have v: "fair (note_view on_origin d st)"
    by (rule fair_cong [OF f]) simp_all
  then have "fair ((note_view on_origin d st)\<lparr>rp_parents := x\<rparr>)" for x by (rule fair_cong) simp_all
  with v n show ?thesis by (simp add: onToolEvent_def Let_def fair_starts fair_ends)
qed

lemma fair_command: "fair st \<Longrightarrow> fair (onCommandOutputEvent lacks d st)"
proof -
  assume f: "fair st"
  have "fair (queueSend lacks (failed_activity p) (st\<lparr>rp_steps := mset_key (ps_id p) (p\<lparr>ps_ok := Some False\<rparr>) (rp_steps st)\<rparr>))"
    if "mget (rp_steps st) k = Some p" for k p
  proof -
    have p: "says p" using fair_get [of "rp_steps st"] that f by (simp add: fair_def)
    then have "clean (failed_activity p)"
      by (auto simp: says_def clean_def failed_activity_def trim_def trim_start_def trim_end_def split: option.splits)
    moreover have "fair (st\<lparr>rp_steps := mset_key (ps_id p) (p\<lparr>ps_ok := Some False\<rparr>) (rp_steps st)\<rparr>)"
      using f p by (simp add: fair_def fair_put says_def)
    ultimately show ?thesis by (simp add: fair_queue)
  qed
  then show ?thesis using f by (auto simp: onCommandOutputEvent_def split: option.split)
qed

lemma fair_requests:
  "fair st \<Longrightarrow> fair (send_begin lacks st)" "fair st \<Longrightarrow> fair (send_ok st)" "fair st \<Longrightarrow> fair (snd (send_fails code lacks st))"
  "fair st \<Longrightarrow> fair (prose_timer_fires lacks now st)" "fair st \<Longrightarrow> fair (close_lane st)"
  "fair st \<Longrightarrow> fair (snd (takeTurnSteps f lacks st))"
proof -
  assume f: "fair st"
  then show "fair (send_begin lacks st)" "fair (send_ok st)" "fair (snd (send_fails code lacks st))" "fair (close_lane st)"
      "fair (snd (takeTurnSteps f lacks st))"
    by (auto simp: fair_def send_begin_def send_ok_def send_fails_def close_lane_def takeTurnSteps_def fair_steps_def split: list.split option.split)
  have "fair (st\<lparr>rp_timer := False\<rparr>)" by (rule fair_cong [OF f]) simp_all
  with f show "fair (prose_timer_fires lacks now st)" by (simp add: prose_timer_fires_def fair_flush)
qed

lemma fair_fails: "send_fails code lacks st = (lacks', st') \<Longrightarrow> fair st \<Longrightarrow> fair st'"
  using fair_requests(3) [of st code lacks] by simp

interpretation told: guarded_system "(False, None)" "reporter_do on_origin" "\<lambda>s. names_tool" "\<lambda>s :: bool \<times> reporter option. fair (stateFor (snd s))"
proof
  show "fair (stateFor (snd (False, None :: reporter option)))" by (simp add: fair_def fair_steps_def stateFor_def reporter_init_def)
  fix s :: "bool \<times> reporter option" and e
  assume f: "fair (stateFor (snd s))" and n: "names_tool e"
  obtain lacks known where s: "s = (lacks, known)" by (cases s)
  show "fair (stateFor (snd (reporter_do on_origin s e)))"
    using f n unfolding s
    by (cases e; cases known)
      (auto simp: stateFor_def reporting_def finishReporting_def fair_thinking fair_item fair_command fair_tool fair_requests dest: fair_fails simp del: names_tool.simps split: prod.split)
qed

section \<open>The clients agree\<close>

text \<open>
  C13: The two clients stay in step on what the plugin reports. Whatever events of a run arrive, in whatever order with the lane's timers,
  requests, failures and the end of the run, the mobile app and the web client that fold the updates the server took hold the same steps,
  the same thoughts and the same headline, up to how each writes a step down, as long as no call has a blank tool name.
\<close>

theorem clients_agree_on_reports:
  assumes "list_all names_tool es"
    and "acts = rp_sent (stateFor (snd (run (reporter_do on_origin) (False, None) es)))"
    and "m = foldl applyActivity (seed_turn c a) acts"
    and "w = foldl web_applyActivity \<lparr>lt_key = k, lt_steps = [], lt_thoughts = []\<rparr> acts"
  shows "lt_steps w = map web_view (lt_steps m) \<and> lt_thoughts w = lt_thoughts m \<and>
    web_headlineOf w = map_option (map_headline web_view) (headlineOf m)"
proof -
  have "obeys (\<lambda>s. names_tool) (reporter_do on_origin) s es" for s
    using assms(1) by (induction es arbitrary: s) simp_all
  then have "fair (stateFor (snd (run (reporter_do on_origin) (False, None) es)))" by (rule told.good_disciplined_run)
  then have "list_all clean acts" unfolding assms(2) by (simp add: fair_def)
  then show ?thesis using assms(3,4) by (rule clients_fold_alike)
qed

definition shown_run :: "reporter_event list" where
  "shown_run =
     [Tool 5000 10 (JObj [(''phase'', JStr ''start''), (''name'', JStr ''exec''), (''toolCallId'', JStr ''c1''),
        (''args'', JObj [(''command'', JStr ''ls'')])]), SendBegins, SendOk,
      Tool 7000 260 (JObj [(''phase'', JStr ''result''), (''name'', JStr ''exec''), (''toolCallId'', JStr ''c1''), (''isError'', JBool True)]),
      SendBegins, SendOk, EndOfRun]"

lemma clients_agree_on_reports_witness:
  "\<exists>acts m w. acts = rp_sent (stateFor (snd (run (reporter_do (\<lambda>_. False)) (False, None) shown_run))) \<and> length acts = 2 \<and>
     m = foldl applyActivity (seed_turn ''c'' ''a'') acts \<and>
     w = foldl web_applyActivity \<lparr>lt_key = ''k'', lt_steps = [], lt_thoughts = []\<rparr> acts \<and>
     lt_steps w = map web_view (lt_steps m)"
proof -
  let ?acts = "rp_sent (stateFor (snd (run (reporter_do (\<lambda>_. False)) (False, None) shown_run)))"
  have n: "list_all names_tool shown_run" and l: "length ?acts = 2" by code_simp+
  show ?thesis
    using clients_agree_on_reports [OF n refl refl refl, where on_origin = "\<lambda>_. False" and c = "''c''" and a = "''a''" and k = "''k''"] l by blast
qed

end
