(* ===== verification/Stream_Patcher.thy ===== *)
theory Stream_Patcher
  imports Js_Values
begin

text \<open>
  The text lane of live activity (\<open>plugin/src/activity/stream-patcher.ts\<close>): the assistant's cumulative
  text is streamed into the turn's open draft by serialized append and replace requests. A lane is
  the \<open>StreamState\<close> of one turn; the promise chain of its flushes is the number of queued ones and the
  request in flight, so that events can arrive at every await. \<open>accepted\<close> is what the server answered
  with success, in order, and \<open>draft_of\<close> the text those requests leave in the draft.
\<close>

section \<open>State\<close>

definition FLUSH_MIN_CHARS :: nat where "FLUSH_MIN_CHARS = 120"

definition APPEND_CHUNK_MAX_CHARS :: nat where "APPEND_CHUNK_MAX_CHARS = 3900"

datatype patch = Append string | Replace string

record lane =
  cumulative :: string
  sentChars :: nat
  pendingReplace :: bool
  timer :: bool
  queued :: nat
  inflight :: "patch option"
  stopped :: bool
  draftOpen :: bool
  accepted :: "patch list"

definition lane_init :: lane where
  "lane_init = \<lparr>cumulative = [], sentChars = 0, pendingReplace = False, timer = False, queued = 0,
     inflight = None, stopped = False, draftOpen = True, accepted = []\<rparr>"

fun apply_patch :: "string \<Rightarrow> patch \<Rightarrow> string" where
  "apply_patch d (Append c) = d @ c"
| "apply_patch d (Replace b) = b"

definition draft_of :: "lane \<Rightarrow> string" where
  "draft_of l = foldl apply_patch [] (accepted l)"

section \<open>Operations\<close>

definition stop_lane :: "lane \<Rightarrow> lane" where
  "stop_lane l = l\<lparr>stopped := True, timer := False\<rparr>"

definition queueFlush :: "lane \<Rightarrow> lane" where
  "queueFlush l = l\<lparr>queued := queued l + 1\<rparr>"

definition scheduleFlush :: "lane \<Rightarrow> lane" where
  "scheduleFlush l =
     (let unsent = int (length (cumulative l)) - int (sentChars l)
      in if pendingReplace l \<or> int FLUSH_MIN_CHARS \<le> unsent then queueFlush (l\<lparr>timer := False\<rparr>)
         else if unsent \<le> 0 \<or> timer l then l
         else l\<lparr>timer := True\<rparr>)"

definition timer_fires :: "lane \<Rightarrow> lane" where
  "timer_fires l = (if timer l then queueFlush (l\<lparr>timer := False\<rparr>) else l)"

text \<open>The head of the append loop: the next chunk goes out, or the flush is over.\<close>

definition flush_next :: "lane \<Rightarrow> lane" where
  "flush_next l =
     (if \<not> stopped l \<and> sentChars l < length (cumulative l)
      then l\<lparr>inflight := Some (Append (take APPEND_CHUNK_MAX_CHARS (drop (sentChars l) (cumulative l))))\<rparr>
      else l\<lparr>inflight := None\<rparr>)"

text \<open>\<open>flushOnce\<close> up to its first await.\<close>

definition flush_begin :: "lane \<Rightarrow> lane" where
  "flush_begin l =
     (if queued l = 0 \<or> inflight l \<noteq> None then l
      else let m = l\<lparr>queued := queued l - 1\<rparr>
      in if stopped m then m
      else if \<not> draftOpen m then stop_lane m
      else if pendingReplace m then m\<lparr>pendingReplace := False, inflight := Some (Replace (cumulative m))\<rparr>
      else flush_next m)"

text \<open>Its continuation when the request in flight succeeds, and when it throws.\<close>

definition patch_ok :: "lane \<Rightarrow> lane" where
  "patch_ok l = (case inflight l of
      None \<Rightarrow> l
    | Some (Replace b) \<Rightarrow> l\<lparr>accepted := accepted l @ [Replace b], sentChars := length b, inflight := None\<rparr>
    | Some (Append c) \<Rightarrow>
        flush_next (l\<lparr>accepted := accepted l @ [Append c], sentChars := sentChars l + length c\<rparr>))"

definition patch_fails :: "lane \<Rightarrow> lane" where
  "patch_fails l = (if inflight l = None then l else (stop_lane l)\<lparr>inflight := None\<rparr>)"

text \<open>One \<open>assistant\<close> event: the text or delta it carries, and what it schedules.\<close>

definition onAssistantEvent :: "bool \<Rightarrow> jsval \<Rightarrow> lane \<Rightarrow> lane" where
  "onAssistantEvent streaming data l =
     (if \<not> streaming \<or> stopped l \<or> \<not> is_object data then l
      else let txt = as_str (jget data ''text'');
               delta = (case as_str (jget data ''delta'') of None \<Rightarrow> [] | Some d \<Rightarrow> d);
               replace = (jget data ''replace'' = JBool True)
      in case txt of
          Some t \<Rightarrow>
            if replace then
              scheduleFlush (l\<lparr>cumulative := t,
                pendingReplace := (0 < sentChars l \<and> \<not> starts_with t (take (sentChars l) (cumulative l)) \<or> pendingReplace l)\<rparr>)
            else if length (cumulative l) \<le> length t then scheduleFlush (l\<lparr>cumulative := t\<rparr>)
            else if delta \<noteq> [] then scheduleFlush (l\<lparr>cumulative := cumulative l @ delta\<rparr>)
            else l
        | None \<Rightarrow> if delta \<noteq> [] then scheduleFlush (l\<lparr>cumulative := cumulative l @ delta\<rparr>) else l)"

definition finishStreaming :: "lane \<Rightarrow> lane" where
  "finishStreaming l = stop_lane l"

definition streamedText :: "lane option \<Rightarrow> string" where
  "streamedText st = (case st of None \<Rightarrow> [] | Some l \<Rightarrow> cumulative l)"

text \<open>
  The turn's lane is dropped and stopped and its sends settle; the text it held is returned, and the
  turn's next text starts a new lane on its new draft.
\<close>

definition restartStreaming :: "lane option \<Rightarrow> string \<times> lane option" where
  "restartStreaming st = (case st of None \<Rightarrow> ([], None) | Some l \<Rightarrow> (cumulative (stop_lane l), None))"

datatype lane_step = Assistant bool jsval | TimerFires | FlushBegins | PatchOk | PatchFails | DraftGone | Finish

fun lane_do :: "lane \<Rightarrow> lane_step \<Rightarrow> lane" where
  "lane_do l (Assistant on data) = onAssistantEvent on data l"
| "lane_do l TimerFires = timer_fires l"
| "lane_do l FlushBegins = flush_begin l"
| "lane_do l PatchOk = patch_ok l"
| "lane_do l PatchFails = patch_fails l"
| "lane_do l DraftGone = l\<lparr>draftOpen := False\<rparr>"
| "lane_do l Finish = finishStreaming l"

section \<open>The draft is a prefix of the text\<close>

text \<open>
  What the runner's events are: without the replace flag a text extends the one before it; and a
  text with the flag does not arrive while a request is in flight, where the lane would compare it
  with the characters acknowledged so far and not with those on their way.
\<close>

definition extends :: "jsval \<Rightarrow> lane \<Rightarrow> bool" where
  "extends data l \<longleftrightarrow> (case as_str (jget data ''text'') of
      Some t \<Rightarrow> length (cumulative l) \<le> length t \<longrightarrow> starts_with t (cumulative l)
    | None \<Rightarrow> True)"

definition flagged :: "jsval \<Rightarrow> bool" where
  "flagged data \<longleftrightarrow> jget data ''replace'' = JBool True \<and> as_str (jget data ''text'') \<noteq> None"

fun disciplined :: "lane \<Rightarrow> lane_step \<Rightarrow> bool" where
  "disciplined l (Assistant on data) = (if flagged data then inflight l = None else extends data l)"
| "disciplined l _ = True"

definition lane_ok :: "lane \<Rightarrow> bool" where
  "lane_ok l \<longleftrightarrow> stopped l \<or>
     (\<forall>c. inflight l = Some (Append c) \<longrightarrow> c \<noteq> [] \<and> length c \<le> APPEND_CHUNK_MAX_CHARS) \<and>
     (pendingReplace l \<longrightarrow> (\<forall>b. inflight l \<noteq> Some (Replace b))) \<and>
     (\<not> pendingReplace l \<longrightarrow>
        (inflight l = None \<longrightarrow> starts_with (cumulative l) (draft_of l) \<and> sentChars l = length (draft_of l)) \<and>
        (\<forall>c. inflight l = Some (Append c) \<longrightarrow>
           starts_with (cumulative l) (draft_of l @ c) \<and> sentChars l = length (draft_of l)) \<and>
        (\<forall>b. inflight l = Some (Replace b) \<longrightarrow> starts_with (cumulative l) b))"

lemma scheduleFlush_frame [simp]:
  "cumulative (scheduleFlush l) = cumulative l" "sentChars (scheduleFlush l) = sentChars l"
  "pendingReplace (scheduleFlush l) = pendingReplace l" "inflight (scheduleFlush l) = inflight l"
  "stopped (scheduleFlush l) = stopped l" "draftOpen (scheduleFlush l) = draftOpen l"
  "accepted (scheduleFlush l) = accepted l" "draft_of (scheduleFlush l) = draft_of l"
  by (simp_all add: scheduleFlush_def queueFlush_def Let_def draft_of_def)

lemma lane_ok_scheduleFlush [simp]: "lane_ok (scheduleFlush l) = lane_ok l"
  by (simp add: lane_ok_def)

lemma lane_ok_cong:
  "lane_ok l \<Longrightarrow> inflight m = inflight l \<Longrightarrow> stopped m = stopped l \<Longrightarrow> pendingReplace m = pendingReplace l \<Longrightarrow>
   cumulative m = cumulative l \<Longrightarrow> sentChars m = sentChars l \<Longrightarrow> accepted m = accepted l \<Longrightarrow> lane_ok m"
  by (simp add: lane_ok_def draft_of_def)

lemma lane_ok_extend: "lane_ok l \<Longrightarrow> starts_with t (cumulative l) \<Longrightarrow> lane_ok (l\<lparr>cumulative := t\<rparr>)"
  by (auto simp: lane_ok_def draft_of_def intro: starts_with_trans split: option.splits patch.splits)

lemma lane_ok_replace:
  assumes "lane_ok l" and "inflight l = None"
  shows "lane_ok (l\<lparr>cumulative := t, pendingReplace := (0 < sentChars l \<and>
    \<not> starts_with t (take (sentChars l) (cumulative l)) \<or> pendingReplace l)\<rparr>)"
proof -
  have "starts_with t (draft_of l)"
    if "\<not> pendingReplace l" "\<not> stopped l" "sentChars l = 0 \<or> starts_with t (take (sentChars l) (cumulative l))"
    using assms that by (auto simp: lane_ok_def starts_with_take_iff [of "cumulative l"])
  with assms show ?thesis by (auto simp: lane_ok_def draft_of_def)
qed

lemma lane_ok_flush_next:
  assumes "stopped l \<or> pendingReplace l \<or> starts_with (cumulative l) (draft_of l) \<and> sentChars l = length (draft_of l)"
  shows "lane_ok (flush_next l)"
  using assms starts_with_slice [of "cumulative l" "draft_of l" APPEND_CHUNK_MAX_CHARS]
  by (auto simp: flush_next_def lane_ok_def draft_of_def APPEND_CHUNK_MAX_CHARS_def)

lemma lane_ok_assistant:
  assumes "lane_ok l" and "disciplined l (Assistant on data)"
  shows "lane_ok (onAssistantEvent on data l)"
proof (cases "\<not> on \<or> stopped l \<or> \<not> is_object data")
  case False
  have ext: "lane_ok (l\<lparr>cumulative := cumulative l @ d\<rparr>)" for d
    using assms(1) by (simp add: lane_ok_extend)
  show ?thesis
  proof (cases "as_str (jget data ''text'')")
    case None
    with False assms(1) ext show ?thesis by (auto simp: onAssistantEvent_def Let_def)
  next
    case (Some t)
    show ?thesis
    proof (cases "jget data ''replace'' = JBool True")
      case True
      then have "inflight l = None" using Some assms(2) by (simp add: flagged_def)
      from lane_ok_replace [OF assms(1) this, of t] show ?thesis
        using False Some True by (simp add: onAssistantEvent_def Let_def)
    next
      case plain: False
      then have "length (cumulative l) \<le> length t \<longrightarrow> starts_with t (cumulative l)"
        using Some assms(2) by (simp add: flagged_def extends_def)
      with lane_ok_extend [OF assms(1), of t] False Some plain assms(1) ext show ?thesis
        by (auto simp: onAssistantEvent_def Let_def)
    qed
  qed
qed (use assms in \<open>simp add: onAssistantEvent_def\<close>)

lemma lane_ok_patch_ok:
  assumes "lane_ok l"
  shows "lane_ok (patch_ok l)"
proof (cases "inflight l")
  case (Some p)
  show ?thesis
  proof (cases p)
    case (Append c)
    then show ?thesis unfolding patch_ok_def Some
      using assms Some
      by (simp only: option.case patch.case, intro lane_ok_flush_next) (auto simp: lane_ok_def draft_of_def split: if_splits)
  next
    case (Replace b)
    with Some assms show ?thesis by (auto simp: patch_ok_def lane_ok_def draft_of_def split: if_splits)
  qed
qed (use assms in \<open>simp add: patch_ok_def\<close>)

lemma lane_ok_flush_begin: "lane_ok l \<Longrightarrow> lane_ok (flush_begin l)"
  unfolding flush_begin_def Let_def
  by (auto intro!: lane_ok_flush_next simp: stop_lane_def) (auto simp: lane_ok_def draft_of_def split: if_splits)

lemma lane_ok_step:
  assumes "lane_ok l" and "disciplined l e"
  shows "lane_ok (lane_do l e)"
proof (cases e)
  case (Assistant on data)
  with assms show ?thesis using lane_ok_assistant by simp
next
  case TimerFires
  with assms show ?thesis by (auto simp: timer_fires_def queueFlush_def intro: lane_ok_cong)
next
  case PatchFails
  with assms show ?thesis by (auto simp: patch_fails_def stop_lane_def lane_ok_def)
next
  case Finish
  then show ?thesis by (simp add: finishStreaming_def stop_lane_def lane_ok_def)
next
  case DraftGone
  with assms show ?thesis by (auto intro: lane_ok_cong)
qed (use assms in \<open>simp_all add: lane_ok_patch_ok lane_ok_flush_begin\<close>)

interpretation lane: guarded_system lane_init lane_do disciplined lane_ok
proof unfold_locales
  show "lane_ok lane_init" by (simp add: lane_init_def lane_ok_def draft_of_def)
qed (rule lane_ok_step)

text \<open>The texts a lane held, from its state on.\<close>

fun texts_held :: "lane \<Rightarrow> lane_step list \<Rightarrow> string list" where
  "texts_held l [] = [cumulative l]"
| "texts_held l (e # es) = cumulative l # texts_held (lane_do l e) es"

text \<open>What the draft shows, and will show when the request in flight is accepted, is the beginning of such a text.\<close>

definition beginning :: "string set \<Rightarrow> string \<Rightarrow> bool" where
  "beginning T t \<longleftrightarrow> (\<exists>u \<in> T. starts_with u t)"

definition traced :: "string set \<Rightarrow> lane \<Rightarrow> bool" where
  "traced T l \<longleftrightarrow> cumulative l \<in> T \<and> beginning T (draft_of l) \<and>
     (case inflight l of
        None \<Rightarrow> True
      | Some (Append c) \<Rightarrow> beginning T (draft_of l @ c) \<and> \<not> pendingReplace l \<and> c \<noteq> [] \<and> length c \<le> APPEND_CHUNK_MAX_CHARS
      | Some (Replace b) \<Rightarrow> beginning T b)"

lemma beginning_mono: "beginning T t \<Longrightarrow> T \<subseteq> U \<Longrightarrow> beginning U t"
  by (auto simp: beginning_def)

lemma traced_cong:
  "traced T l \<Longrightarrow> T \<subseteq> U \<Longrightarrow> cumulative m \<in> U \<Longrightarrow> inflight m = inflight l \<Longrightarrow> accepted m = accepted l \<Longrightarrow>
   (\<forall>c. inflight l = Some (Append c) \<longrightarrow> pendingReplace m = pendingReplace l) \<Longrightarrow> traced U m"
  by (auto simp: traced_def draft_of_def intro: beginning_mono split: option.splits patch.splits)

lemma traced_mono: "traced T l \<Longrightarrow> T \<subseteq> U \<Longrightarrow> traced U l"
  by (rule traced_cong) (auto simp: traced_def)

lemma beginning_own: "t \<in> T \<Longrightarrow> beginning T t"
  unfolding beginning_def by (rule bexI [of _ t]) simp_all

lemma traced_flush_next:
  assumes "cumulative l \<in> T" and "beginning T (draft_of l)" and "\<not> pendingReplace l"
    and "stopped l \<or> starts_with (cumulative l) (draft_of l) \<and> sentChars l = length (draft_of l)"
  shows "traced T (flush_next l)"
  using assms starts_with_slice [of "cumulative l" "draft_of l" APPEND_CHUNK_MAX_CHARS]
  by (auto simp: flush_next_def traced_def draft_of_def beginning_def APPEND_CHUNK_MAX_CHARS_def)

lemma traced_assistant:
  assumes "traced T l" and "disciplined l (Assistant on data)"
  shows "traced (insert (cumulative (onAssistantEvent on data l)) T) (onAssistantEvent on data l)"
  by (rule traced_cong [OF assms(1)])
    (use assms(2) in \<open>auto simp: onAssistantEvent_def flagged_def Let_def scheduleFlush_def queueFlush_def split: option.splits if_splits\<close>)

lemma traced_patch_ok:
  assumes "lane_ok l" and "traced T l"
  shows "traced T (patch_ok l)"
proof (cases "inflight l")
  case (Some p)
  show ?thesis
  proof (cases p)
    case (Append c)
    have "traced T (flush_next (l\<lparr>accepted := accepted l @ [Append c], sentChars := sentChars l + length c\<rparr>))"
      by (rule traced_flush_next) (use assms Some Append in \<open>auto simp: lane_ok_def traced_def draft_of_def\<close>)
    then show ?thesis using Some Append by (simp add: patch_ok_def)
  next
    case (Replace b)
    with Some assms(2) show ?thesis by (simp add: patch_ok_def traced_def draft_of_def)
  qed
qed (use assms in \<open>simp add: patch_ok_def\<close>)

lemma traced_flush_begin:
  assumes "lane_ok l" and "traced T l"
  shows "traced T (flush_begin l)"
proof (cases "queued l = 0 \<or> inflight l \<noteq> None \<or> stopped l \<or> \<not> draftOpen l \<or> pendingReplace l")
  case True
  with assms(2) show ?thesis by (auto simp: flush_begin_def stop_lane_def traced_def draft_of_def beginning_own Let_def)
next
  case False
  let ?m = "l\<lparr>queued := queued l - 1\<rparr>"
  have "traced T (flush_next ?m)"
    by (rule traced_flush_next) (use False assms in \<open>auto simp: lane_ok_def traced_def draft_of_def\<close>)
  with False show ?thesis by (simp add: flush_begin_def Let_def)
qed

lemma traced_step:
  assumes "lane_ok l" and "traced T l" and "disciplined l e"
  shows "traced (insert (cumulative (lane_do l e)) T) (lane_do l e)"
proof -
  have same: "traced (insert (cumulative m) T) m" if "traced T m" for m
    by (rule traced_mono [OF that]) auto
  show ?thesis
  proof (cases e)
    case (Assistant on data)
    with assms traced_assistant show ?thesis by simp
  next
    case PatchFails
    have "traced T (patch_fails l)" using assms(2) by (auto simp: patch_fails_def stop_lane_def traced_def draft_of_def)
    then show ?thesis using PatchFails same by simp
  next
    case TimerFires
    show ?thesis unfolding TimerFires lane_do.simps
      by (rule traced_cong [OF assms(2)]) (auto simp: timer_fires_def queueFlush_def)
  next
    case DraftGone
    show ?thesis unfolding DraftGone lane_do.simps by (rule traced_cong [OF assms(2)]) auto
  next
    case Finish
    show ?thesis unfolding Finish lane_do.simps by (rule traced_cong [OF assms(2)]) (auto simp: finishStreaming_def stop_lane_def)
  qed (use assms in \<open>simp_all add: same traced_patch_ok traced_flush_begin\<close>)
qed

lemma traced_run:
  "lane_ok l \<Longrightarrow> traced T l \<Longrightarrow> obeys disciplined lane_do l es \<Longrightarrow>
   traced (T \<union> set (texts_held l es)) (run lane_do l es)"
proof (induction es arbitrary: l T)
  case Nil
  then show ?case by (auto intro: traced_mono)
next
  case (Cons e es)
  let ?m = "lane_do l e"
  have m: "lane_ok ?m" "traced (insert (cumulative ?m) T) ?m" using Cons.prems lane_ok_step traced_step by auto
  have "cumulative ?m \<in> set (texts_held ?m es)" by (cases es) simp_all
  then have "insert (cumulative ?m) T \<union> set (texts_held ?m es) \<subseteq> T \<union> set (texts_held l (e # es))" by auto
  moreover have "traced (insert (cumulative ?m) T \<union> set (texts_held ?m es)) (run lane_do ?m es)"
    using Cons.IH [OF m] Cons.prems(3) by simp
  ultimately show ?case by (simp add: traced_mono)
qed

text \<open>
  C3: What the channel shows is never made up. As long as a text of the runner without the replace flag extends the one before and
  a rewrite does not arrive while a request is in flight, whatever timers, network answers and events interleave and
  also once the lane has stopped: the draft holds the beginning of a text the lane has held, and every append request is non-empty and
  within the server's limit. While the lane runs, and unless a rewrite waits or is on its way, it is the beginning of the text
  the lane holds now, and the counter of sent characters is its length.
\<close>

theorem draft_is_prefix:
  assumes "obeys disciplined lane_do lane_init es" and "l = run lane_do lane_init es"
  shows "(\<exists>t \<in> set (texts_held lane_init es). starts_with t (draft_of l)) \<and>
    (\<forall>c. inflight l = Some (Append c) \<longrightarrow> c \<noteq> [] \<and> length c \<le> 3900) \<and>
    (stopped l \<or> pendingReplace l \<or> (\<exists>b. inflight l = Some (Replace b)) \<or>
     starts_with (cumulative l) (draft_of l) \<and> sentChars l = length (draft_of l))"
proof -
  have "traced {[]} lane_init" by (simp add: traced_def lane_init_def draft_of_def beginning_def)
  from traced_run [OF lane.good_start this assms(1)]
  have t: "traced (set (texts_held lane_init es)) l"
    unfolding assms(2) by (cases es) (simp_all add: lane_init_def insert_absorb)
  have "lane_ok l" using assms lane.good_disciplined_run by simp
  moreover have "starts_with (cumulative l) (draft_of l)" if "starts_with (cumulative l) (draft_of l @ c)" for c
    using that by (auto simp: starts_with_iff)
  ultimately show ?thesis
    using t by (cases "inflight l"; cases "the (inflight l)") (auto simp: lane_ok_def traced_def beginning_def APPEND_CHUNK_MAX_CHARS_def)
qed

definition text_event :: "string \<Rightarrow> bool \<Rightarrow> jsval" where
  "text_event t replace = JObj [(''text'', JStr t), (''replace'', JBool replace)]"

definition lane_demo :: "lane_step list" where
  "lane_demo = [Assistant True (text_event ''Hel'' False), TimerFires, FlushBegins,
     Assistant True (JObj [(''delta'', JStr ''lo'')]), PatchOk, PatchOk, TimerFires, FlushBegins,
     Assistant True (text_event ''Hullo'' True), FlushBegins]"

theorem draft_is_prefix_witness:
  "draft_of (run lane_do lane_init lane_demo) = ''Hello'' \<and> cumulative (run lane_do lane_init lane_demo) = ''Hullo'' \<and>
   (\<exists>t \<in> set (texts_held lane_init lane_demo). starts_with t ''Hello'')"
proof -
  have "obeys disciplined lane_do lane_init lane_demo" "draft_of (run lane_do lane_init lane_demo) = ''Hello''"
    "cumulative (run lane_do lane_init lane_demo) = ''Hullo''"
    by code_simp+
  with draft_is_prefix [OF this(1) refl] show ?thesis by simp
qed

section \<open>Nothing stays unsent\<close>

text \<open>The discipline of a lane that also gets no text while a replacement is in flight.\<close>

fun is_replace :: "patch option \<Rightarrow> bool" where
  "is_replace (Some (Replace b)) = True"
| "is_replace _ = False"

lemma is_replace_iff: "is_replace p \<longleftrightarrow> (\<exists>b. p = Some (Replace b))"
  by (cases p rule: is_replace.cases) auto

fun calm :: "lane \<Rightarrow> lane_step \<Rightarrow> bool" where
  "calm l (Assistant on data) = (disciplined l (Assistant on data) \<and> \<not> is_replace (inflight l))"
| "calm l e = True"

definition live_ok :: "lane \<Rightarrow> bool" where
  "live_ok l \<longleftrightarrow> lane_ok l \<and> (stopped l \<or>
     (pendingReplace l \<longrightarrow> 0 < queued l) \<and> (\<forall>b. inflight l = Some (Replace b) \<longrightarrow> b = cumulative l) \<and>
     (inflight l = None \<and> sentChars l < length (cumulative l) \<longrightarrow> timer l \<or> 0 < queued l))"

lemma live_scheduleFlush: "lane_ok l \<Longrightarrow> \<forall>b. inflight l \<noteq> Some (Replace b) \<Longrightarrow> live_ok (scheduleFlush l)"
  by (auto simp: live_ok_def scheduleFlush_def queueFlush_def Let_def lane_ok_def draft_of_def)

lemma assistant_schedules:
  "onAssistantEvent on data l = l \<or> (\<exists>m. onAssistantEvent on data l = scheduleFlush m \<and> inflight m = inflight l)"
  by (auto simp: onAssistantEvent_def Let_def split: option.split)

lemma live_ok_step:
  assumes "live_ok l" and "calm l e"
  shows "live_ok (lane_do l e)"
proof -
  have "disciplined l e" using assms(2) by (cases e) auto
  with assms(1) have ok: "lane_ok (lane_do l e)" using lane_ok_step by (simp add: live_ok_def)
  show ?thesis
  proof (cases e)
    case (Assistant on data)
    with assms ok assistant_schedules [of on data l] show ?thesis
      by (auto simp: live_scheduleFlush is_replace_iff)
  next
    case PatchOk
    with assms(1) ok show ?thesis
      by (auto simp: live_ok_def patch_ok_def flush_next_def split: option.splits patch.splits)
  next
    case FlushBegins
    with assms(1) ok show ?thesis
      by (auto simp: live_ok_def flush_begin_def flush_next_def stop_lane_def Let_def)
  qed (use assms(1) ok in \<open>auto simp: live_ok_def timer_fires_def queueFlush_def patch_fails_def
      finishStreaming_def stop_lane_def\<close>)
qed

interpretation live_lane: guarded_system lane_init lane_do calm live_ok
proof unfold_locales
  show "live_ok lane_init" by (simp add: live_ok_def lane.good_start) (simp add: lane_init_def)
qed (rule live_ok_step)

text \<open>
  C4: A lane does not strand text the runner adds. As long as the runner's texts extend one another, no rewrite arrives while a request is
  in flight and no text while a replacement is: whenever no timer is set, no flush is queued and no request is in
  flight, the draft of a lane that has not stopped holds the whole reply streamed so far.
\<close>

theorem quiescent_draft_is_complete:
  assumes "obeys calm lane_do lane_init es" and "l = run lane_do lane_init es"
    and "\<not> timer l" and "queued l = 0" and "inflight l = None"
  shows "stopped l \<or> draft_of l = cumulative l"
proof -
  have "live_ok l" using assms(1,2) live_lane.good_disciplined_run by simp
  with assms(3-5) have "stopped l \<or> starts_with (cumulative l) (draft_of l) \<and> sentChars l = length (draft_of l) \<and>
      length (cumulative l) \<le> sentChars l"
    by (auto simp: live_ok_def lane_ok_def)
  then show ?thesis using starts_with_length starts_with_same_length by fastforce
qed

theorem quiescent_draft_is_complete_witness:
  "draft_of (run lane_do lane_init (take 8 lane_demo)) = cumulative (run lane_do lane_init (take 8 lane_demo))"
proof -
  let ?l = "run lane_do lane_init (take 8 lane_demo)"
  have h: "obeys calm lane_do lane_init (take 8 lane_demo)" "\<not> timer ?l" "queued ?l = 0" "inflight ?l = None"
    "\<not> stopped ?l"
    by code_simp+
  from quiescent_draft_is_complete [OF h(1) refl h(2-4)] h(5) show ?thesis by blast
qed

text \<open>
  The discipline is needed. When the runner rewrites its text while the first append is in
  flight, the lane compares the rewrite with the characters acknowledged so far, none, and sends no
  replacement: it comes to rest with the draft showing the text that was taken back. The delivery
  path's final request repairs it.
\<close>

theorem rewrite_during_append_is_lost:
  "\<exists>es. (let l = run lane_do lane_init es in \<not> stopped l \<and> \<not> timer l \<and> queued l = 0 \<and> inflight l = None \<and>
     \<not> pendingReplace l \<and> cumulative l = ''new'' \<and> draft_of l = ''old'')"
proof (rule exI)
  show "(let l = run lane_do lane_init [Assistant True (text_event ''old'' False), TimerFires, FlushBegins,
      Assistant True (text_event ''new'' True), PatchOk, TimerFires, FlushBegins]
    in \<not> stopped l \<and> \<not> timer l \<and> queued l = 0 \<and> inflight l = None \<and>
     \<not> pendingReplace l \<and> cumulative l = ''new'' \<and> draft_of l = ''old'')"
    by code_simp
qed

end
