(* ===== verification/Turn_Registry.thy ===== *)
theory Turn_Registry
  imports Js_Values
begin

text \<open>
  The in-flight turn registry (\<open>plugin/src/activity/turn-registry.ts\<close>): which conversation a gateway
  run belongs to. Turn objects are shared by reference with the gateway adapter and mutated when a
  run is bound, so they live in a heap (\<open>objs\<close>) and the module's \<open>turns\<close> set and \<open>byRunId\<close> map
  hold their addresses. The clock is an argument; a turn's HTTP client plays no part here.
\<close>

section \<open>State\<close>

record turn =
  accountId :: string
  channelId :: string
  draftRef :: nat
  channelKeyedSession :: bool
  peerId :: "string option"
  streaming :: bool
  liveActivity :: bool
  registeredAt :: int
  runId :: "string option"

definition TURN_TTL_MS :: int where "TURN_TTL_MS = 10 * 60000"

record registry =
  objs :: "turn list"
  turns :: "nat list"
  byRunId :: "(string, nat) jsmap"

definition registry_init :: registry where
  "registry_init = \<lparr>objs = [], turns = [], byRunId = []\<rparr>"

section \<open>Operations\<close>

fun prune_each :: "int \<Rightarrow> nat list \<Rightarrow> registry \<Rightarrow> registry" where
  "prune_each now [] s = s"
| "prune_each now (t # ts) s =
     (if TURN_TTL_MS < now - registeredAt (objs s ! t)
      then prune_each now ts
        (s\<lparr>turns := filter (\<lambda>x. x \<noteq> t) (turns s),
           byRunId := (case runId (objs s ! t) of None \<Rightarrow> byRunId s | Some r \<Rightarrow> mdel r (byRunId s))\<rparr>)
      else prune_each now ts s)"

definition pruneExpired :: "int \<Rightarrow> registry \<Rightarrow> registry" where
  "pruneExpired now s = prune_each now (turns s) s"

definition registerInFlightTurn :: "int \<Rightarrow> turn \<Rightarrow> registry \<Rightarrow> nat \<times> registry" where
  "registerInFlightTurn now tn s =
     (let t = length (objs s)
      in (t, s\<lparr>objs := objs s @ [tn\<lparr>registeredAt := now, runId := None\<rparr>], turns := sadd t (turns s)\<rparr>))"

definition unregisterInFlightTurn :: "nat \<Rightarrow> registry \<Rightarrow> registry" where
  "unregisterInFlightTurn t s =
     (let s' = s\<lparr>turns := filter (\<lambda>x. x \<noteq> t) (turns s)\<rparr>
      in case runId (objs s ! t) of
           None \<Rightarrow> s'
         | Some r \<Rightarrow> if mget (byRunId s) r = Some t then s'\<lparr>byRunId := mdel r (byRunId s)\<rparr> else s')"

definition sessionKeyMatchesChannel :: "string \<Rightarrow> string \<Rightarrow> bool" where
  "sessionKeyMatchesChannel sessionKey ch = ends_with sessionKey ('':clawbits:channel:'' @ ch)"

definition peer_of :: "turn \<Rightarrow> string" where
  "peer_of tn = (case peerId tn of None \<Rightarrow> channelId tn | Some p \<Rightarrow> p)"

text \<open>Rules 2 to 4: the keyed turn the session names, else the lone direct turn, else none.\<close>

definition match_unbound :: "registry \<Rightarrow> string option \<Rightarrow> nat option" where
  "match_unbound s sessionKey =
     (let unbound = filter (\<lambda>t. runId (objs s ! t) = None) (turns s);
          keyed = (case sessionKey of
              None \<Rightarrow> None
            | Some k \<Rightarrow> if k = [] then None
                else List.find (\<lambda>t. channelKeyedSession (objs s ! t) \<and>
                       sessionKeyMatchesChannel k (peer_of (objs s ! t))) unbound)
      in case keyed of
           Some t \<Rightarrow> Some t
         | None \<Rightarrow> (case filter (\<lambda>t. \<not> channelKeyedSession (objs s ! t)) unbound of
               [t] \<Rightarrow> if length unbound = 1 then Some t else None
             | _ \<Rightarrow> None))"

definition claimTurnForRun :: "string option \<Rightarrow> string option \<Rightarrow> int \<Rightarrow> registry \<Rightarrow> nat option \<times> registry" where
  "claimTurnForRun rid sessionKey now s = (case rid of
      None \<Rightarrow> (None, s)
    | Some r \<Rightarrow>
        if r = [] then (None, s)
        else case mget (byRunId s) r of
          Some t \<Rightarrow> (Some t, s)
        | None \<Rightarrow>
            let s' = pruneExpired now s
            in case match_unbound s' sessionKey of
                 None \<Rightarrow> (None, s')
               | Some t \<Rightarrow> (Some t, s'\<lparr>objs := (objs s')[t := (objs s' ! t)\<lparr>runId := Some r\<rparr>],
                                     byRunId := mset_key r t (byRunId s')\<rparr>))"

definition turnForRun :: "string option \<Rightarrow> registry \<Rightarrow> nat option" where
  "turnForRun rid s = (case rid of None \<Rightarrow> None | Some r \<Rightarrow> if r = [] then None else mget (byRunId s) r)"

datatype registry_step = Register int turn | Unregister nat | Claim "string option" "string option" int

fun registry_do :: "registry \<Rightarrow> registry_step \<Rightarrow> registry" where
  "registry_do s (Register now tn) = snd (registerInFlightTurn now tn s)"
| "registry_do s (Unregister t) = (if t < length (objs s) then unregisterInFlightTurn t s else s)"
| "registry_do s (Claim rid key now) = snd (claimTurnForRun rid key now s)"

section \<open>Invariant\<close>

text \<open>
  The map and the turns' own run ids agree: a run is bound to a live turn that carries its id, and
  a live turn with a run id is what its run is bound to.
\<close>

definition registry_ok :: "registry \<Rightarrow> bool" where
  "registry_ok s \<longleftrightarrow> distinct (turns s) \<and> (\<forall>t \<in> set (turns s). t < length (objs s)) \<and>
     (\<forall>r t. mget (byRunId s) r = Some t \<longleftrightarrow> t \<in> set (turns s) \<and> runId (objs s ! t) = Some r)"

lemma registry_okD:
  assumes "registry_ok s"
  shows "distinct (turns s)" and "t \<in> set (turns s) \<Longrightarrow> t < length (objs s)"
    and "mget (byRunId s) r = Some t \<longleftrightarrow> t \<in> set (turns s) \<and> runId (objs s ! t) = Some r"
  using assms by (auto simp: registry_ok_def)

lemma drop_turn_ok:
  assumes "registry_ok s"
  shows "registry_ok (s\<lparr>turns := filter (\<lambda>x. x \<noteq> t) (turns s),
    byRunId := (case runId (objs s ! t) of None \<Rightarrow> byRunId s
                | Some r \<Rightarrow> if mget (byRunId s) r = Some t then mdel r (byRunId s) else byRunId s)\<rparr>)"
  using assms unfolding registry_ok_def by (auto split: option.splits) (metis option.inject)

lemma prune_each_ok: "registry_ok s \<Longrightarrow> distinct ts \<Longrightarrow> set ts \<subseteq> set (turns s) \<Longrightarrow> registry_ok (prune_each now ts s)"
proof (induction ts arbitrary: s)
  case (Cons t ts)
  let ?s' = "s\<lparr>turns := filter (\<lambda>x. x \<noteq> t) (turns s),
      byRunId := (case runId (objs s ! t) of None \<Rightarrow> byRunId s | Some r \<Rightarrow> mdel r (byRunId s))\<rparr>"
  have "mget (byRunId s) r = Some t" if "runId (objs s ! t) = Some r" for r
    using Cons.prems that registry_okD(3) by auto
  then have "?s' = s\<lparr>turns := filter (\<lambda>x. x \<noteq> t) (turns s),
      byRunId := (case runId (objs s ! t) of None \<Rightarrow> byRunId s
                  | Some r \<Rightarrow> if mget (byRunId s) r = Some t then mdel r (byRunId s) else byRunId s)\<rparr>"
    by (auto split: option.split)
  with drop_turn_ok [OF Cons.prems(1)] have "registry_ok ?s'" by simp
  moreover have "set ts \<subseteq> set (turns ?s')" using Cons.prems by auto
  ultimately show ?case using Cons by auto
qed simp

lemma pruneExpired_ok: "registry_ok s \<Longrightarrow> registry_ok (pruneExpired now s)"
  by (simp add: pruneExpired_def prune_each_ok registry_okD(1))

lemma prune_each_frame: "objs (prune_each now ts s) = objs s \<and> set (turns (prune_each now ts s)) =
    set (turns s) - {t \<in> set ts. TURN_TTL_MS < now - registeredAt (objs s ! t)}"
  by (induction ts arbitrary: s) auto

lemma pruneExpired_frame: "objs (pruneExpired now s) = objs s"
  "set (turns (pruneExpired now s)) = {t \<in> set (turns s). now - registeredAt (objs s ! t) \<le> TURN_TTL_MS}"
  by (auto simp: pruneExpired_def prune_each_frame)

lemma match_unbound_live:
  assumes "match_unbound s key = Some t"
  shows "t \<in> set (turns s) \<and> runId (objs s ! t) = None"
proof -
  let ?unbound = "filter (\<lambda>t. runId (objs s ! t) = None) (turns s)"
  have "t \<in> set ?unbound"
    using assms
    by (auto simp: match_unbound_def Let_def filter_eq_Cons_iff dest!: find_SomeD
        split: option.splits list.splits if_splits)
  then show ?thesis by simp
qed

lemma bind_ok:
  assumes "registry_ok s" and "t \<in> set (turns s)" and "runId (objs s ! t) = None" and "mget (byRunId s) r = None"
  shows "registry_ok (s\<lparr>objs := (objs s)[t := (objs s ! t)\<lparr>runId := Some r\<rparr>], byRunId := mset_key r t (byRunId s)\<rparr>)"
proof -
  have "x \<in> set (turns s) \<Longrightarrow> runId (objs s ! x) \<noteq> Some r" for x
    using assms(1,4) registry_okD(3) by (metis option.distinct(1))
  with assms show ?thesis
    unfolding registry_ok_def by (auto simp: nth_list_update)
qed

lemma claim_ok: "registry_ok s \<Longrightarrow> registry_ok (snd (claimTurnForRun rid key now s))"
proof -
  assume ok: "registry_ok s"
  let ?s = "pruneExpired now s"
  have "mget (byRunId ?s) r = None" if "mget (byRunId s) r = None" for r
  proof (rule ccontr)
    assume "mget (byRunId ?s) r \<noteq> None"
    then obtain t where "t \<in> set (turns ?s)" "runId (objs ?s ! t) = Some r"
      using registry_okD(3) [OF pruneExpired_ok [OF ok]] by auto
    then have "mget (byRunId s) r = Some t"
      using registry_okD(3) [OF ok] by (simp add: pruneExpired_frame)
    with that show False by simp
  qed
  then show ?thesis
    using ok pruneExpired_ok [OF ok, of now] bind_ok [of ?s]
    by (auto simp: claimTurnForRun_def Let_def dest: match_unbound_live split: option.split)
qed

lemma unregister_ok: "registry_ok s \<Longrightarrow> registry_ok (unregisterInFlightTurn t s)"
  using drop_turn_ok [of s t] by (cases "runId (objs s ! t)") (auto simp: unregisterInFlightTurn_def Let_def)

lemma register_ok: "registry_ok s \<Longrightarrow> registry_ok (snd (registerInFlightTurn now tn s))"
  unfolding registry_ok_def registerInFlightTurn_def Let_def
  by (auto simp: nth_append sadd_def less_Suc_eq)

interpretation turn_registry: transition_system registry_init registry_do registry_ok
proof unfold_locales
  show "registry_ok registry_init" by (simp add: registry_ok_def registry_init_def)
  show "registry_ok s \<Longrightarrow> registry_ok (registry_do s e)" for s e
    by (cases e) (auto simp: register_ok unregister_ok claim_ok)
qed

section \<open>Properties\<close>

lemma match_unbound_rules:
  assumes "match_unbound s key = Some t"
  shows "(\<exists>k. key = Some k \<and> channelKeyedSession (objs s ! t) \<and> sessionKeyMatchesChannel k (peer_of (objs s ! t))) \<or>
    \<not> channelKeyedSession (objs s ! t) \<and> filter (\<lambda>t. runId (objs s ! t) = None) (turns s) = [t]"
proof -
  let ?U = "filter (\<lambda>t. runId (objs s ! t) = None) (turns s)"
  from assms consider (keyed) k where "key = Some k"
      "List.find (\<lambda>t. channelKeyedSession (objs s ! t) \<and> sessionKeyMatchesChannel k (peer_of (objs s ! t))) ?U = Some t"
    | (direct) "filter (\<lambda>t. \<not> channelKeyedSession (objs s ! t)) ?U = [t]" "length ?U = 1"
    unfolding match_unbound_def Let_def
    by (auto simp del: filter_filter split: option.splits list.splits if_splits)
  then show ?thesis
  proof cases
    case keyed
    then show ?thesis by (auto dest: find_SomeD)
  next
    case direct
    then show ?thesis by (auto dest: filter_single simp del: filter_filter)
  qed
qed

text \<open>
  C2: A run is never streamed into the wrong conversation. When a run that had no turn is bound, its
  turn was registered, unbound and younger than the ten-minute bound, and either the session key
  names that turn's own channel or game session, or the turn is a direct chat and every other
  registered turn is bound already or expired.
\<close>

theorem claim_binds_soundly:
  assumes "mget (byRunId s) r = None" and "claimTurnForRun (Some r) key now s = (Some t, s')"
  shows "t \<in> set (turns s) \<and> runId (objs s ! t) = None \<and> now - registeredAt (objs s ! t) \<le> TURN_TTL_MS \<and>
    ((\<exists>k. key = Some k \<and> channelKeyedSession (objs s ! t) \<and> ends_with k ('':clawbits:channel:'' @ peer_of (objs s ! t))) \<or>
     \<not> channelKeyedSession (objs s ! t) \<and>
     (\<forall>u \<in> set (turns s). u = t \<or> runId (objs s ! u) \<noteq> None \<or> TURN_TTL_MS < now - registeredAt (objs s ! u)))"
proof -
  let ?s = "pruneExpired now s"
  have m: "match_unbound ?s key = Some t"
    using assms by (auto simp: claimTurnForRun_def Let_def split: option.splits if_splits)
  have "u = t" if "filter (\<lambda>t. runId (objs s ! t) = None) (turns ?s) = [t]" "u \<in> set (turns s)"
    "runId (objs s ! u) = None" "\<not> TURN_TTL_MS < now - registeredAt (objs s ! u)" for u
  proof -
    have "u \<in> set (filter (\<lambda>t. runId (objs s ! t) = None) (turns ?s))"
      using that(2-4) by (simp add: pruneExpired_frame)
    with that(1) show ?thesis by simp
  qed
  with match_unbound_rules [OF m] match_unbound_live [OF m] show ?thesis
    by (auto simp: pruneExpired_frame sessionKeyMatchesChannel_def)
qed

definition dm_turn :: turn where
  "dm_turn = \<lparr>accountId = ''a'', channelId = ''dm'', draftRef = 0, channelKeyedSession = False, peerId = None,
     streaming = True, liveActivity = True, registeredAt = 0, runId = None\<rparr>"

definition room_turn :: turn where
  "room_turn = dm_turn\<lparr>channelId := ''ops'', channelKeyedSession := True\<rparr>"

definition registry_demo :: registry where
  "registry_demo = run registry_do registry_init
     [Register 0 dm_turn, Register 5 room_turn, Claim (Some ''run1'') (Some ''agent:m:clawbits:channel:ops'') 9]"

theorem claim_binds_soundly_witness:
  "fst (claimTurnForRun (Some ''run2'') (Some ''agent:m:main'') 20 registry_demo) = Some 0 \<and>
   0 \<in> set (turns registry_demo) \<and> 20 - registeredAt (objs registry_demo ! 0) \<le> TURN_TTL_MS"
proof -
  have e: "mget (byRunId registry_demo) ''run2'' = None"
    "fst (claimTurnForRun (Some ''run2'') (Some ''agent:m:main'') 20 registry_demo) = Some 0"
    by code_simp+
  then show ?thesis
    using claim_binds_soundly [OF e(1), of "Some ''agent:m:main''" 20 0
        "snd (claimTurnForRun (Some ''run2'') (Some ''agent:m:main'') 20 registry_demo)"]
    by (auto simp: prod_eq_iff)
qed

text \<open>Steps that leave a bound turn alone: no unregistration of it, no claim past its bound.\<close>

fun spares :: "nat \<Rightarrow> int \<Rightarrow> registry_step \<Rightarrow> bool" where
  "spares t since (Unregister u) = (u \<noteq> t)"
| "spares t since (Claim rid key now) = (now - since \<le> TURN_TTL_MS)"
| "spares t since (Register now tn) = True"

lemma bound_step:
  assumes ok: "registry_ok s" and b: "mget (byRunId s) r = Some t" and sp: "spares t (registeredAt (objs s ! t)) e"
  shows "mget (byRunId (registry_do s e)) r = Some t \<and> registeredAt (objs (registry_do s e) ! t) = registeredAt (objs s ! t)"
proof -
  have live: "t \<in> set (turns s)" "runId (objs s ! t) = Some r" "t < length (objs s)"
    using ok b registry_okD by blast+
  have "t \<in> set (turns (registry_do s e)) \<and> runId (objs (registry_do s e) ! t) = Some r \<and>
      registeredAt (objs (registry_do s e) ! t) = registeredAt (objs s ! t)"
  proof (cases e)
    case (Register now tn)
    with live show ?thesis by (auto simp: registerInFlightTurn_def Let_def nth_append)
  next
    case (Unregister u)
    with live sp show ?thesis by (auto simp: unregisterInFlightTurn_def Let_def split: option.split)
  next
    case (Claim rid key now)
    then have "t \<in> set (turns (pruneExpired now s))" using live sp by (simp add: pruneExpired_frame)
    moreover have "(objs s)[u := f] ! t = objs s ! t" if "runId (objs s ! u) = None" for u f
      using live(2) that by (metis nth_list_update_neq option.distinct(1))
    ultimately show ?thesis using live Claim
      by (auto simp: claimTurnForRun_def Let_def pruneExpired_frame
          dest!: match_unbound_live split: option.split)
  qed
  then show ?thesis using registry_okD(3) [OF turn_registry.good_step [OF ok]] by blast
qed

text \<open>
  A binding is stable and exclusive: through any later registrations, claims and unregistrations
  that neither unregister its turn nor come after the turn's ten-minute bound, the run keeps its
  turn, and no other run is ever bound to that turn.
\<close>

theorem binding_persists:
  assumes "registry_ok s" and "turnForRun (Some r) s = Some t"
    and "\<forall>e \<in> set es. spares t (registeredAt (objs s ! t)) e"
  shows "turnForRun (Some r) (run registry_do s es) = Some t \<and>
    (\<forall>r'. turnForRun (Some r') (run registry_do s es) = Some t \<longrightarrow> r' = r)"
proof -
  have r: "r \<noteq> []" "mget (byRunId s) r = Some t" using assms(2) by (auto simp: turnForRun_def split: if_splits)
  from assms(1,3) r(2) have "mget (byRunId (run registry_do s es)) r = Some t \<and> registry_ok (run registry_do s es)"
  proof (induction es arbitrary: s)
    case (Cons e es)
    then show ?case using bound_step [OF Cons.prems(1,3), of e] turn_registry.good_step by simp
  qed simp
  then show ?thesis
    using r(1) registry_okD(3) by (auto simp: turnForRun_def split: if_splits)
qed

theorem binding_persists_witness:
  "turnForRun (Some ''run1'') (run registry_do registry_demo
     [Claim (Some ''run2'') None 30, Unregister 0, Register 40 room_turn]) = Some 1"
proof -
  have "turnForRun (Some ''run1'') registry_demo = Some 1" by code_simp
  moreover have "\<forall>e \<in> set [Claim (Some ''run2'') None 30, Unregister 0, Register 40 room_turn].
      spares 1 (registeredAt (objs registry_demo ! 1)) e"
    by code_simp
  moreover have "registry_ok registry_demo" unfolding registry_demo_def by (rule turn_registry.good_run)
  ultimately show ?thesis using binding_persists by blast
qed

end
