(* ===== verification/Agent_Events.thy ===== *)
theory Agent_Events
  imports Activity_Reporter Stream_Patcher Turn_Registry Game_Guards
begin

text \<open>
  The observer of the gateway's agent events (\<open>plugin/src/activity/subscription.ts\<close>): it hands each event of a run to
  the turn the registry binds the run to, and there to the text lane or the activity lane, and tells the game
  sessions of a run's start and end. The weak maps from a turn to its lanes are maps from its address in the
  registry's heap. An event that throws would be swallowed; on the values of the model none does.
\<close>

section \<open>Routing\<close>

record event_host =
  eh_registry :: registry
  eh_runs :: game_runs
  eh_streams :: "(nat, lane) jsmap"
  eh_reports :: "(nat, reporter) jsmap"
  eh_lacks :: bool

definition host_init :: event_host where
  "host_init = \<lparr>eh_registry = registry_init, eh_runs = \<lparr>gameRuns = [], gameHolds = 0\<rparr>, eh_streams = [], eh_reports = [], eh_lacks = False\<rparr>"

text \<open>The two \<open>stateFor\<close>: a lane begins with its first event.\<close>

definition stream_of :: "event_host \<Rightarrow> nat \<Rightarrow> lane" where
  "stream_of s t = (case mget (eh_streams s) t of Some l \<Rightarrow> l | None \<Rightarrow> lane_init)"

definition reporter_of :: "event_host \<Rightarrow> nat \<Rightarrow> reporter" where
  "reporter_of s t = stateFor (mget (eh_reports s) t)"

definition text_to :: "nat \<Rightarrow> jsval \<Rightarrow> event_host \<Rightarrow> event_host" where
  "text_to t d s =
     (if streaming (objs (eh_registry s) ! t)
      then s\<lparr>eh_streams := mset_key t (onAssistantEvent True d (stream_of s t)) (eh_streams s)\<rparr> else s)"

text \<open>\<open>reporting\<close>: the lane must be on for the turn, and the data an object.\<close>

definition report_to :: "nat \<Rightarrow> jsval \<Rightarrow> (reporter \<Rightarrow> reporter) \<Rightarrow> event_host \<Rightarrow> event_host" where
  "report_to t d f s =
     (if liveActivity (objs (eh_registry s) ! t) \<and> is_object d
      then s\<lparr>eh_reports := mset_key t (f (reporter_of s t)) (eh_reports s)\<rparr> else s)"

text \<open>\<open>turnForRun(runId) ?? claimTurnForRun(runId, sessionKey)\<close>\<close>

definition find_turn :: "int \<Rightarrow> string \<Rightarrow> string option \<Rightarrow> event_host \<Rightarrow> nat option \<times> event_host" where
  "find_turn now r key s = (case turnForRun (Some r) (eh_registry s) of
      Some t \<Rightarrow> (Some t, s)
    | None \<Rightarrow> (case claimTurnForRun (Some r) key now (eh_registry s) of (x, g) \<Rightarrow> (x, s\<lparr>eh_registry := g\<rparr>)))"

definition stop_turn_lanes :: "nat \<Rightarrow> event_host \<Rightarrow> event_host" where
  "stop_turn_lanes t s =
     (let s1 = (case mget (eh_streams s) t of
            Some l \<Rightarrow> s\<lparr>eh_streams := mset_key t (finishStreaming l) (eh_streams s)\<rparr> | None \<Rightarrow> s)
      in case finishReporting (mget (eh_reports s1) t) of
           Some st \<Rightarrow> s1\<lparr>eh_reports := mset_key t st (eh_reports s1)\<rparr> | None \<Rightarrow> s1)"

definition on_lifecycle :: "int \<Rightarrow> string \<Rightarrow> string option \<Rightarrow> jsval \<Rightarrow> event_host \<Rightarrow> event_host" where
  "on_lifecycle now r key d s0 =
     (let phase = field_text d ''phase''; s = s0\<lparr>eh_runs := trackGameRun now r key phase (eh_runs s0)\<rparr> in
      if phase = ''start'' then s\<lparr>eh_registry := snd (claimTurnForRun (Some r) key now (eh_registry s))\<rparr>
      else if phase = ''end'' \<or> phase = ''error'' then
        (case turnForRun (Some r) (eh_registry s) of Some t \<Rightarrow> stop_turn_lanes t s | None \<Rightarrow> s)
      else s)"

text \<open>What an event of a stream does to the turn found for it.\<close>

definition to_turn :: "(string \<Rightarrow> bool) \<Rightarrow> int \<Rightarrow> rat \<Rightarrow> string \<Rightarrow> jsval \<Rightarrow> nat \<Rightarrow> event_host \<Rightarrow> event_host" where
  "to_turn on_origin now perf stream d t s =
     (if stream = ''assistant'' then text_to t d s
      else if stream = ''thinking'' then report_to t d (onThinkingEvent (eh_lacks s) now d) s
      else if stream = ''tool'' then report_to t d (onToolEvent on_origin (eh_lacks s) now perf d) s
      else if stream = ''item'' then report_to t d (onItemEvent (eh_lacks s) now d) s
      else s)"

definition routeAgentEvent :: "(string \<Rightarrow> bool) \<Rightarrow> int \<Rightarrow> rat \<Rightarrow> jsval \<Rightarrow> event_host \<Rightarrow> event_host" where
  "routeAgentEvent on_origin now perf e s =
     (if \<not> is_object e \<or> field_text e ''runId'' = [] then s
      else let r = field_text e ''runId''; stream = field_text e ''stream''; key = as_str (jget e ''sessionKey''); d = jget e ''data'' in
        if stream = ''lifecycle'' then on_lifecycle now r key (coalesce d (JObj [])) s
        else if stream \<in> {''assistant'', ''thinking'', ''tool'', ''item''} then
          (case find_turn now r key s of
             (Some t, s1) \<Rightarrow> to_turn on_origin now perf stream d t s1
           | (None, s1) \<Rightarrow> s1)
        else if stream = ''command_output'' then
          (case turnForRun (Some r) (eh_registry s) of
             Some t \<Rightarrow> report_to t d (onCommandOutputEvent (eh_lacks s) d) s
           | None \<Rightarrow> s)
        else s)"

text \<open>
  What happens in the process: the gateway's events, and what the adapter and the lanes' own requests and timers do.
\<close>

datatype host_event =
    AgentEvent int rat jsval | TurnBegins int turn | TurnEnds nat
  | LaneStep nat lane_step | ReporterStep nat reporter_event

fun host_do :: "(string \<Rightarrow> bool) \<Rightarrow> event_host \<Rightarrow> host_event \<Rightarrow> event_host" where
  "host_do on_origin s (AgentEvent now perf e) = routeAgentEvent on_origin now perf e s"
| "host_do on_origin s (TurnBegins now tn) = s\<lparr>eh_registry := snd (registerInFlightTurn now tn (eh_registry s))\<rparr>"
| "host_do on_origin s (TurnEnds t) =
     (if t < length (objs (eh_registry s)) then s\<lparr>eh_registry := unregisterInFlightTurn t (eh_registry s)\<rparr> else s)"
| "host_do on_origin s (LaneStep t e) =
     (case mget (eh_streams s) t of Some l \<Rightarrow> s\<lparr>eh_streams := mset_key t (lane_do l e) (eh_streams s)\<rparr> | None \<Rightarrow> s)"
| "host_do on_origin s (ReporterStep t e) =
     (case mget (eh_reports s) t of
        Some st \<Rightarrow> (case reporter_do on_origin (eh_lacks s, Some st) e of
            (lacks, st') \<Rightarrow> s\<lparr>eh_lacks := lacks, eh_reports := mset_key t (stateFor st') (eh_reports s)\<rparr>)
      | None \<Rightarrow> s)"

section \<open>An event stays in its turn\<close>

text \<open>The lanes of one turn.\<close>

definition lanes_at :: "event_host \<Rightarrow> nat \<Rightarrow> lane option \<times> reporter option" where
  "lanes_at s t = (mget (eh_streams s) t, mget (eh_reports s) t)"

lemma lanes_frame [simp]:
  "lanes_at (s\<lparr>eh_registry := g\<rparr>) t = lanes_at s t" "lanes_at (s\<lparr>eh_runs := x\<rparr>) t = lanes_at s t"
  by (simp_all add: lanes_at_def)

lemma lanes_to [simp]:
  "u \<noteq> t \<Longrightarrow> lanes_at (text_to u d s) t = lanes_at s t" "u \<noteq> t \<Longrightarrow> lanes_at (report_to u d f s) t = lanes_at s t"
  "u \<noteq> t \<Longrightarrow> lanes_at (to_turn on_origin now perf stream d u s) t = lanes_at s t"
  "u \<noteq> t \<Longrightarrow> lanes_at (stop_turn_lanes u s) t = lanes_at s t"
  by (simp_all add: lanes_at_def text_to_def report_to_def to_turn_def stop_turn_lanes_def Let_def split: option.split)

lemma registry_to [simp]:
  "eh_registry (text_to u d s) = eh_registry s" "eh_registry (report_to u d f s) = eh_registry s"
  "eh_registry (to_turn on_origin now perf stream d u s) = eh_registry s" "eh_registry (stop_turn_lanes u s) = eh_registry s"
  by (simp_all add: text_to_def report_to_def to_turn_def stop_turn_lanes_def Let_def split: option.split)

text \<open>A turn of another run, and what the registry keeps of it.\<close>

definition of_run :: "string \<Rightarrow> nat \<Rightarrow> registry \<Rightarrow> bool" where
  "of_run r t g = (registry_ok g \<and> t < length (objs g) \<and> runId (objs g ! t) = Some r)"

lemma of_run_claim:
  assumes "of_run r t g" and "claimTurnForRun rid key now g = (x, g')" and "rid \<noteq> Some r"
  shows "of_run r t g' \<and> x \<noteq> Some t"
proof -
  have ok: "registry_ok g" using assms(1) by (simp add: of_run_def)
  have ok': "registry_ok g'" using claim_ok [OF ok, of rid key now] assms(2) by simp
  have o: "objs (pruneExpired now g) = objs g" by (rule pruneExpired_frame(1))
  show ?thesis
  proof (cases rid)
    case None
    then show ?thesis using assms by (auto simp: claimTurnForRun_def)
  next
    case (Some q)
    show ?thesis
    proof (cases "q = [] \<or> mget (byRunId g) q \<noteq> None")
      case True
      moreover have "x \<noteq> Some t" if "mget (byRunId g) q = Some u" "x = Some u" for u
        using that registry_okD(3) [OF ok] assms(1,3) Some by (auto simp: of_run_def)
      ultimately show ?thesis using assms Some by (auto simp: claimTurnForRun_def split: if_splits option.splits)
    next
      case False
      show ?thesis
      proof (cases "match_unbound (pruneExpired now g) key")
        case None
        then show ?thesis using assms Some False o ok' by (auto simp: claimTurnForRun_def Let_def of_run_def)
      next
        case (Some u)
        from match_unbound_live [OF this] have "runId (objs g ! u) = None" unfolding o by simp
        then have u: "u \<noteq> t" using assms(1) by (auto simp: of_run_def)
        have "x = Some u" "objs g' = (objs g)[u := (objs g ! u)\<lparr>runId := Some q\<rparr>]"
          using assms(2) False Some \<open>rid = Some q\<close> o by (auto simp: claimTurnForRun_def Let_def)
        then show ?thesis using assms(1) ok' u by (auto simp: of_run_def)
      qed
    qed
  qed
qed

lemma of_run_found: "of_run r t g \<Longrightarrow> turnForRun (Some q) g = Some u \<Longrightarrow> q \<noteq> r \<Longrightarrow> u \<noteq> t"
  by (auto simp: of_run_def turnForRun_def registry_okD(3) split: if_splits)

lemma of_run_register: "of_run r t g \<Longrightarrow> of_run r t (snd (registerInFlightTurn now tn g))"
  using register_ok [of g now tn] by (simp add: of_run_def registerInFlightTurn_def Let_def nth_append)

lemma of_run_unregister: "of_run r t g \<Longrightarrow> of_run r t (unregisterInFlightTurn u g)"
  using unregister_ok [of g u] by (simp add: of_run_def unregisterInFlightTurn_def Let_def split: option.split)

lemma find_turn_keeps:
  assumes "of_run r t (eh_registry s)" and "find_turn now q key s = (x, s')" and "q \<noteq> r"
  shows "of_run r t (eh_registry s') \<and> x \<noteq> Some t \<and> lanes_at s' t = lanes_at s t"
proof (cases "turnForRun (Some q) (eh_registry s)")
  case (Some u)
  then show ?thesis using assms of_run_found [OF assms(1) Some assms(3)] by (auto simp: find_turn_def)
next
  case None
  then obtain g where g: "claimTurnForRun (Some q) key now (eh_registry s) = (x, g)" "s' = s\<lparr>eh_registry := g\<rparr>"
    using assms(2) by (auto simp: find_turn_def split: prod.splits)
  then show ?thesis using of_run_claim [OF assms(1) g(1)] assms(3) by simp
qed

lemma lifecycle_keeps:
  assumes "of_run r t (eh_registry s)" and "q \<noteq> r"
  shows "of_run r t (eh_registry (on_lifecycle now q key d s)) \<and> lanes_at (on_lifecycle now q key d s) t = lanes_at s t"
proof -
  obtain x g where g: "claimTurnForRun (Some q) key now (eh_registry s) = (x, g)" by (cases "claimTurnForRun (Some q) key now (eh_registry s)")
  have "of_run r t g" using of_run_claim [OF assms(1) g] assms(2) by simp
  moreover have "u \<noteq> t" if "turnForRun (Some q) (eh_registry s) = Some u" for u by (rule of_run_found [OF assms(1) that assms(2)])
  ultimately show ?thesis using assms(1) g by (auto simp: on_lifecycle_def Let_def split: option.split)
qed

lemma route_keeps:
  assumes "of_run r t (eh_registry s)" and "field_text e ''runId'' \<noteq> r"
  shows "of_run r t (eh_registry (routeAgentEvent on_origin now perf e s)) \<and>
    lanes_at (routeAgentEvent on_origin now perf e s) t = lanes_at s t"
proof -
  let ?q = "field_text e ''runId''" and ?key = "as_str (jget e ''sessionKey'')"
  obtain x s1 where f: "find_turn now ?q ?key s = (x, s1)" by (cases "find_turn now ?q ?key s")
  have "u \<noteq> t" if "turnForRun (Some ?q) (eh_registry s) = Some u" for u by (rule of_run_found [OF assms(1) that assms(2)])
  then show ?thesis
    using find_turn_keeps [OF assms(1) f assms(2)] lifecycle_keeps [OF assms] assms(1)
    by (auto simp: routeAgentEvent_def f Let_def split: option.split)
qed

text \<open>What does not come from the turn's own run: other runs' events, other turns and the lanes of other turns.\<close>

fun foreign :: "string \<Rightarrow> nat \<Rightarrow> host_event \<Rightarrow> bool" where
  "foreign r t (AgentEvent now perf e) = (field_text e ''runId'' \<noteq> r)"
| "foreign r t (TurnBegins now tn) = True"
| "foreign r t (TurnEnds u) = True"
| "foreign r t (LaneStep u e) = (u \<noteq> t)"
| "foreign r t (ReporterStep u e) = (u \<noteq> t)"

lemma foreign_keeps:
  "of_run r t (eh_registry s) \<Longrightarrow> foreign r t e \<Longrightarrow>
   of_run r t (eh_registry (host_do on_origin s e)) \<and> lanes_at (host_do on_origin s e) t = lanes_at s t"
proof (cases e)
  case (AgentEvent now perf ev)
  then show "of_run r t (eh_registry s) \<Longrightarrow> foreign r t e \<Longrightarrow> ?thesis" using route_keeps by simp
next
  case (TurnBegins now tn)
  then show "of_run r t (eh_registry s) \<Longrightarrow> foreign r t e \<Longrightarrow> ?thesis" using of_run_register by simp
next
  case (TurnEnds u)
  then show "of_run r t (eh_registry s) \<Longrightarrow> foreign r t e \<Longrightarrow> ?thesis" using of_run_unregister by simp
qed (auto simp: lanes_at_def split: option.split prod.split)

lemma foreign_run:
  "of_run r t (eh_registry s) \<Longrightarrow> list_all (foreign r t) es \<Longrightarrow> lanes_at (run (host_do on_origin) s es) t = lanes_at s t"
  by (induction es arbitrary: s) (simp_all add: foreign_keeps)

lemma registry_ok_route: "registry_ok (eh_registry s) \<Longrightarrow> registry_ok (eh_registry (routeAgentEvent on_origin now perf e s))"
proof -
  assume ok: "registry_ok (eh_registry s)"
  have claim: "registry_ok (snd (claimTurnForRun (Some q) key now (eh_registry s)))" for q key by (rule claim_ok [OF ok])
  then have find: "registry_ok (eh_registry s1)" if "find_turn now q key s = (x, s1)" for q key x s1
    using that ok claim [of q key]
    by (cases "claimTurnForRun (Some q) key now (eh_registry s)") (auto simp: find_turn_def split: option.splits)
  have "registry_ok (eh_registry (on_lifecycle now q key d s))" for q key d
    using ok claim [of q key] by (auto simp: on_lifecycle_def Let_def split: option.split)
  then show ?thesis using ok find by (auto simp: routeAgentEvent_def Let_def split: option.split prod.split)
qed

interpretation host: transition_system host_init "host_do on_origin" "\<lambda>s :: event_host. registry_ok (eh_registry s)"
proof
  show "registry_ok (eh_registry host_init)" by (simp add: host_init_def registry_init_def registry_ok_def)
  fix s :: event_host and e
  assume "registry_ok (eh_registry s)"
  then show "registry_ok (eh_registry (host_do on_origin s e))"
    by (cases e) (auto simp: registry_ok_route register_ok unregister_ok split: option.split prod.split)
qed

text \<open>
  C18: An event stays in its turn. In every reachable state of the process, once a turn is bound to a run, no event of another run
  touches its draft's text or its steps, stops them, or is reported in its name, whatever turns begin, end or expire meanwhile.
\<close>

theorem events_stay_in_turn:
  assumes "s = run (host_do on_origin) host_init es0" and "t < length (objs (eh_registry s))"
    and "runId (objs (eh_registry s) ! t) = Some r" and "list_all (foreign r t) es"
  shows "lanes_at (run (host_do on_origin) s es) t = lanes_at s t"
proof -
  have "registry_ok (eh_registry s)" unfolding assms(1) by (rule host.good_run)
  with assms(2,3) have "of_run r t (eh_registry s)" by (simp add: of_run_def)
  then show ?thesis using assms(4) by (rule foreign_run)
qed

text \<open>Two turns of two channels, each with its run; the second run's events leave the first's text alone.\<close>

definition demo_event :: "string \<Rightarrow> string \<Rightarrow> string \<Rightarrow> jsval \<Rightarrow> host_event" where
  "demo_event r stream channel d =
     AgentEvent 5 0 (JObj [(''runId'', JStr r), (''stream'', JStr stream), (''sessionKey'', JStr (''agent:m:clawbits:channel:'' @ channel)), (''data'', d)])"

definition demo_turn_in :: "string \<Rightarrow> turn" where
  "demo_turn_in c = \<lparr>accountId = ''a'', channelId = c, draftRef = 0, channelKeyedSession = True, peerId = None, streaming = True,
     liveActivity = True, registeredAt = 0, runId = None\<rparr>"

lemma events_stay_in_turn_witness:
  "\<exists>s. s = run (host_do (\<lambda>_. False)) host_init [TurnBegins 1 (demo_turn_in ''c1''), TurnBegins 2 (demo_turn_in ''c2''),
       demo_event ''r1'' ''lifecycle'' ''c1'' (JObj [(''phase'', JStr ''start'')]),
       demo_event ''r1'' ''assistant'' ''c1'' (JObj [(''text'', JStr ''Hello'')])] \<and>
     map_option cumulative (fst (lanes_at s 0)) = Some ''Hello'' \<and>
     lanes_at (run (host_do (\<lambda>_. False)) s [demo_event ''r2'' ''assistant'' ''c2'' (JObj [(''text'', JStr ''Other'')]),
       demo_event ''r2'' ''lifecycle'' ''c2'' (JObj [(''phase'', JStr ''end'')])]) 0 = lanes_at s 0"
proof -
  let ?es = "[TurnBegins 1 (demo_turn_in ''c1''), TurnBegins 2 (demo_turn_in ''c2''),
       demo_event ''r1'' ''lifecycle'' ''c1'' (JObj [(''phase'', JStr ''start'')]),
       demo_event ''r1'' ''assistant'' ''c1'' (JObj [(''text'', JStr ''Hello'')])]"
  let ?s = "run (host_do (\<lambda>_. False)) host_init ?es"
  let ?fs = "[demo_event ''r2'' ''assistant'' ''c2'' (JObj [(''text'', JStr ''Other'')]),
       demo_event ''r2'' ''lifecycle'' ''c2'' (JObj [(''phase'', JStr ''end'')])]"
  have b: "0 < length (objs (eh_registry ?s))" "runId (objs (eh_registry ?s) ! 0) = Some ''r1''" by code_simp+
  have f: "list_all (foreign ''r1'' 0) ?fs" by code_simp
  have "map_option cumulative (fst (lanes_at ?s 0)) = Some ''Hello''" by code_simp
  then show ?thesis using events_stay_in_turn [OF refl b f] by blast
qed

end
