(* ===== verification/Email_Text.thy ===== *)
theory Email_Text
  imports Js_Values
begin

text \<open>
  The texts of the e-mail channel: HTML to text (\<open>plugin/src/email-html.ts\<close>), the frame of the mirror
  (\<open>email-dm-frame.ts\<close>), and the parts of \<open>email-adapter.ts\<close> that read a mail and assemble the reply. A regular
  expression that is replaced everywhere is a matcher on the text from a position on, which gives the replacement and
  how many characters it covers. Code points beyond a byte are rendered by the argument \<open>wide\<close>.
\<close>

section \<open>Replacing\<close>

text \<open>A matcher answers the replacement and the length of the match less one, as no match is empty.\<close>

function replace_all :: "(string \<Rightarrow> (string \<times> nat) option) \<Rightarrow> string \<Rightarrow> string" where
  "replace_all m [] = []"
| "replace_all m (c # s) = (case m (c # s) of Some (r, n) \<Rightarrow> r @ replace_all m (drop n s) | None \<Rightarrow> c # replace_all m s)"
  by pat_completeness auto

termination replace_all
  by (relation "measure (length \<circ> snd)") auto

definition blank :: "char \<Rightarrow> bool" where
  "blank c = (c = CHR '' '' \<or> c = CHR 9)"

abbreviation LF :: char where "LF \<equiv> CHR 10"

definition skip_ws :: "string \<Rightarrow> string" where
  "skip_ws s = dropWhile is_ws s"

text \<open>A match that ends where \<open>rest\<close> begins, as a length less one.\<close>

definition match_to :: "string \<Rightarrow> string \<Rightarrow> string \<Rightarrow> (string \<times> nat) option" where
  "match_to r s rest = Some (r, length s - length rest - 1)"

section \<open>HTML\<close>

definition DROPPED :: "string list" where
  "DROPPED = [''script'', ''style'', ''head'', ''title'']"

definition block_match :: "string \<Rightarrow> (string \<times> nat) option" where
  "block_match s =
     (case List.find (\<lambda>n. starts_with (lower s) (''<'' @ n) \<and> index_of (drop (Suc (length n)) (lower s)) (''</'' @ n @ ''>'') \<noteq> None) DROPPED of
        Some n \<Rightarrow> (case index_of (drop (Suc (length n)) (lower s)) (''</'' @ n @ ''>'') of
            Some i \<Rightarrow> Some ('' '', length n + i + length n + 3)
          | None \<Rightarrow> None)
      | None \<Rightarrow> None)"

definition comment_match :: "string \<Rightarrow> (string \<times> nat) option" where
  "comment_match s =
     (if starts_with s ''<!--'' then map_option (\<lambda>i. ('' '', i + 6)) (index_of (drop 4 s) ''-->'') else None)"

definition br_match :: "string \<Rightarrow> (string \<times> nat) option" where
  "br_match s =
     (case s of
        [] \<Rightarrow> None
      | c # s1 \<Rightarrow>
          if c \<noteq> CHR ''<'' \<or> \<not> starts_with (lower (skip_ws s1)) ''br'' then None
          else let s2 = skip_ws (drop 2 (skip_ws s1)); s3 = (if starts_with s2 ''/'' then tl s2 else s2); s4 = skip_ws s3 in
            if starts_with s4 ''>'' then match_to [LF] s (tl s4) else None)"

definition BLOCK_ENDS :: "string list" where
  "BLOCK_ENDS = [''p'', ''div'', ''tr'', ''li'', ''h1'', ''h2'', ''h3'', ''h4'', ''h5'', ''h6'', ''table'', ''ul'', ''ol'', ''blockquote'',
     ''section'', ''article'']"

definition end_match :: "string \<Rightarrow> (string \<times> nat) option" where
  "end_match s =
     (case s of
        [] \<Rightarrow> None
      | c # s1 \<Rightarrow>
          if c \<noteq> CHR ''<'' \<or> \<not> starts_with (skip_ws s1) ''/'' then None
          else let s2 = skip_ws (tl (skip_ws s1)) in
            case List.find (\<lambda>n. starts_with (lower s2) n \<and> starts_with (skip_ws (drop (length n) s2)) ''>'') BLOCK_ENDS of
              Some n \<Rightarrow> match_to [LF] s (tl (skip_ws (drop (length n) s2)))
            | None \<Rightarrow> None)"

definition tag_match :: "string \<Rightarrow> (string \<times> nat) option" where
  "tag_match s =
     (case s of
        [] \<Rightarrow> None
      | c # s1 \<Rightarrow>
          let body = takeWhile (\<lambda>x. x \<noteq> CHR ''>'') s1 in
          if c = CHR ''<'' \<and> body \<noteq> [] \<and> length body < length s1 then Some ([], Suc (length body)) else None)"

section \<open>Entities\<close>

text \<open>\<open>String.fromCodePoint\<close>, which throws beyond the last code point.\<close>

definition code_point :: "(nat \<Rightarrow> string) \<Rightarrow> nat \<Rightarrow> string" where
  "code_point wide n = (if n < 256 then [char_of n] else if n \<le> 0x10FFFF then wide n else [])"

definition hex_char :: "char \<Rightarrow> bool" where
  "hex_char c = (hex_val c \<noteq> None)"

definition hex_of_digits :: "string \<Rightarrow> nat" where
  "hex_of_digits s = foldl (\<lambda>n c. 16 * n + the (hex_val c)) 0 s"

definition letter :: "char \<Rightarrow> bool" where
  "letter c = (is_lower c \<or> is_upper c)"

definition ref_match :: "string \<Rightarrow> (char \<Rightarrow> bool) \<Rightarrow> (string \<Rightarrow> string \<Rightarrow> string) \<Rightarrow> string \<Rightarrow> (string \<times> nat) option" where
  "ref_match start ok text s =
     (if starts_with (lower s) start
      then (let body = takeWhile ok (drop (length start) s); rest = drop (length start + length body) s in
            if body \<noteq> [] \<and> starts_with rest '';'' then match_to (text body s) s (tl rest) else None)
      else None)"

text \<open>
  The table of names is an object: of the names it inherits, one is all lower case, and the value it has there is
  a function, whose text the replacement becomes.
\<close>

definition NAMED_ENTITIES :: "string \<Rightarrow> string option" where
  "NAMED_ENTITIES n =
     (if n = ''amp'' then Some ''&'' else if n = ''lt'' then Some ''<'' else if n = ''gt'' then Some ''>''
      else if n = ''quot'' then Some [CHR 0x22] else if n = ''apos'' then Some [CHR 0x27] else if n = ''nbsp'' then Some '' ''
      else if n = ''constructor'' then Some ''function Object() { [native code] }'' else None)"

definition decodeEntities :: "(nat \<Rightarrow> string) \<Rightarrow> string \<Rightarrow> string" where
  "decodeEntities wide s =
     (let s1 = replace_all (ref_match ''&#x'' hex_char (\<lambda>b _. code_point wide (hex_of_digits b))) s;
          s2 = replace_all (ref_match ''&#'' is_digit (\<lambda>b _. code_point wide (nat_of_digits b))) s1
      in replace_all (ref_match ''&'' letter
           (\<lambda>b w. case NAMED_ENTITIES (lower b) of Some r \<Rightarrow> r | None \<Rightarrow> take (length b + 2) w)) s2)"

section \<open>White space\<close>

definition cr_match :: "string \<Rightarrow> (string \<times> nat) option" where
  "cr_match s = (if starts_with s [CHR 13, LF] then Some ([LF], 1) else if starts_with s [CHR 13] then Some ([LF], 0) else None)"

definition trailing_match :: "string \<Rightarrow> (string \<times> nat) option" where
  "trailing_match s =
     (let b = takeWhile blank s in
      if b \<noteq> [] \<and> starts_with (drop (length b) s) [LF] then Some ([LF], length b) else None)"

definition leading_match :: "string \<Rightarrow> (string \<times> nat) option" where
  "leading_match s =
     (if starts_with s [LF] \<and> takeWhile blank (tl s) \<noteq> [] then Some ([LF], length (takeWhile blank (tl s))) else None)"

definition run_match :: "(char \<Rightarrow> bool) \<Rightarrow> nat \<Rightarrow> string \<Rightarrow> string \<Rightarrow> (string \<times> nat) option" where
  "run_match ok n new s = (let b = takeWhile ok s in if n \<le> length b then Some (new, length b - 1) else None)"

definition htmlToText :: "(nat \<Rightarrow> string) \<Rightarrow> string \<Rightarrow> string" where
  "htmlToText wide html =
     (let s1 = replace_all comment_match (replace_all block_match html);
          s2 = replace_all tag_match (replace_all end_match (replace_all br_match s1));
          s3 = decodeEntities wide s2;
          s4 = replace_all leading_match (replace_all trailing_match (replace_all cr_match s3));
          s5 = replace_all (run_match (\<lambda>c. c = LF) 3 [LF, LF]) (replace_all (run_match blank 2 '' '') s4)
      in trim s5)"

section \<open>Mail\<close>

text \<open>One mail as the poller hands it over; attachments are the rows of the server.\<close>

record email =
  em_uid :: rat
  em_from :: string
  em_to :: string
  em_subject :: string
  em_date :: string
  em_body :: string
  em_attachments :: "jsval list"
  em_headers :: "(string \<times> jsval) list"

definition or_text :: "string \<Rightarrow> string \<Rightarrow> string" where
  "or_text s d = (if s = [] then d else s)"

definition replySubject :: "string \<Rightarrow> string" where
  "replySubject subject =
     (let s = trim subject in
      if s = [] then ''Re: (no subject)'' else if starts_with (lower s) ''re:'' then s else ''Re: '' @ s)"

text \<open>\<open>/<([^>]+)>/.exec(s)\<close>: what the first angle brackets hold.\<close>

fun angle_part :: "string \<Rightarrow> string option" where
  "angle_part [] = None"
| "angle_part (c # s) =
     (let body = takeWhile (\<lambda>x. x \<noteq> CHR ''>'') s in
      if c = CHR ''<'' \<and> body \<noteq> [] \<and> length body < length s then Some body else angle_part s)"

definition extractAddress :: "string \<Rightarrow> string" where
  "extractAddress raw = lower (trim (case angle_part (trim raw) of Some a \<Rightarrow> a | None \<Rightarrow> trim raw))"

fun findHeader :: "(string \<times> jsval) list \<Rightarrow> string \<Rightarrow> string option" where
  "findHeader [] n = None"
| "findHeader ((k, v) # hs) n =
     (case as_str v of
        Some s \<Rightarrow> if lower k = lower n \<and> trim s \<noteq> [] then Some (trim s) else findHeader hs n
      | None \<Rightarrow> findHeader hs n)"

definition buildReplyThreadingHeaders :: "email \<Rightarrow> (string \<times> string) list option" where
  "buildReplyThreadingHeaders m =
     map_option (\<lambda>i. [(''In-Reply-To'', i), (''References'', i)]) (findHeader (em_headers m) ''message-id'')"

definition isSelfAddressed :: "email \<Rightarrow> string \<Rightarrow> bool" where
  "isSelfAddressed m agentId =
     (let sender = extractAddress (em_from m); to = extractAddress (em_to m);
          local_part = takeWhile (\<lambda>c. c \<noteq> CHR ''@'') sender
      in sender \<noteq> [] \<and> (to \<noteq> [] \<and> sender = to \<or> local_part \<noteq> [] \<and> local_part = lower agentId))"

section \<open>The reply\<close>

definition strip_spaces :: "string \<Rightarrow> string" where
  "strip_spaces s = filter (\<lambda>c. \<not> is_ws c) s"

definition blocks_text :: "string list \<Rightarrow> string" where
  "blocks_text segments = join [LF, LF] segments"

definition add_reply_block :: "string list \<Rightarrow> string \<Rightarrow> string list" where
  "add_reply_block segments text =
     (let t = trim text; nt = strip_spaces t; nc = strip_spaces (blocks_text segments) in
      if t = [] \<or> nt = [] then segments
      else if nc \<noteq> [] \<and> str_includes nc nt then segments
      else if nc \<noteq> [] \<and> str_includes nt nc then [t]
      else segments @ [t])"

definition reply_body :: "string list \<Rightarrow> string" where
  "reply_body segments = trim (blocks_text segments)"

section \<open>Frames\<close>

datatype dm_kind = Received | ReplySent | Sent

definition DM_LABEL :: "(nat \<Rightarrow> string) \<Rightarrow> dm_kind \<Rightarrow> string" where
  "DM_LABEL wide k = wide 0x1F4E7 @ '' **Email '' @ [CHR 0xB7] @ '' '' @
     (case k of Received \<Rightarrow> ''received'' | ReplySent \<Rightarrow> ''reply sent'' | Sent \<Rightarrow> ''sent'') @ ''**''"

fun body_lines :: "string \<Rightarrow> string \<Rightarrow> string list" where
  "body_lines r [] = [rev r]"
| "body_lines r (c # s) = (if c = LF then rev r # body_lines [] s else body_lines (c # r) s)"

definition quote_line :: "string \<Rightarrow> string" where
  "quote_line l = (if l = [] then ''>'' else ''> '' @ l)"

definition frame_lines :: "(nat \<Rightarrow> string) \<Rightarrow> dm_kind \<Rightarrow> string \<Rightarrow> string \<Rightarrow> string \<Rightarrow> string list \<Rightarrow> string list" where
  "frame_lines wide k subject body sender footer =
     [DM_LABEL wide k] @ (if k = Received \<and> sender \<noteq> [] then [''**From:** '' @ sender] else []) @
     [''**Subject:** '' @ or_text subject ''(no subject)'', []] @
     body_lines [] (if trim body = [] then ''(no text body)'' else body) @
     (if footer = [] then [] else [] # footer)"

definition frameEmailForDm :: "(nat \<Rightarrow> string) \<Rightarrow> dm_kind \<Rightarrow> string \<Rightarrow> string \<Rightarrow> string \<Rightarrow> string list \<Rightarrow> string" where
  "frameEmailForDm wide k subject body sender footer = join [LF] (map quote_line (frame_lines wide k subject body sender footer))"

definition buildEmailTurnText :: "email \<Rightarrow> string list \<Rightarrow> string" where
  "buildEmailTurnText m attachmentLines =
     join [LF] [''[Email received]'', ''You just received a new email in your Clawbits mailbox. Replying to this'',
       ''message emails your owner. For a separate outbound email, use the optional'', ''`clawbits_email_send` tool.'',
       ''From: '' @ or_text (em_from m) ''(unknown)'', ''To: '' @ or_text (em_to m) ''(you)'',
       ''Subject: '' @ or_text (em_subject m) ''(no subject)'', ''Date: '' @ or_text (em_date m) ''(unknown)'',
       ''[end Email received]''] @ [LF, LF] @
     (if trim (em_body m) = [] then ''(no text body)'' else em_body m) @
     (if attachmentLines = [] then [] else join [LF] ([[], ''[Attachments]''] @ attachmentLines @ [''[end Attachments]'']))"

section \<open>The reply holds every block\<close>

lemma str_includes_refl [simp]: "str_includes s s"
  unfolding str_includes_iff by (metis append_Nil append_Nil2)

lemma str_includes_trans: "str_includes s t \<Longrightarrow> str_includes t u \<Longrightarrow> str_includes s u"
  unfolding str_includes_iff by (metis append.assoc)

lemma str_includes_left: "str_includes s t \<Longrightarrow> str_includes (s @ u) t"
  unfolding str_includes_iff by (metis append.assoc)

lemma str_includes_right: "str_includes s t \<Longrightarrow> str_includes (u @ s) t"
  unfolding str_includes_iff by (metis append.assoc)

lemma str_includes_Nil [simp]: "str_includes s []"
  unfolding str_includes_iff by auto

lemma strip_append [simp]: "strip_spaces (s @ t) = strip_spaces s @ strip_spaces t"
  by (simp add: strip_spaces_def)

lemma strip_dropWhile [simp]: "strip_spaces (dropWhile is_ws s) = strip_spaces s"
  by (induction s) (simp_all add: strip_spaces_def)

lemma strip_rev [simp]: "strip_spaces (rev s) = rev (strip_spaces s)"
  by (simp add: strip_spaces_def rev_filter)

lemma strip_trim [simp]: "strip_spaces (trim s) = strip_spaces s"
proof -
  have "strip_spaces (trim_end s) = strip_spaces s" for s
    using strip_dropWhile [of "rev s"] unfolding trim_end_def by simp
  then show ?thesis by (simp add: trim_def trim_start_def)
qed

lemma strip_blocks_snoc: "strip_spaces (blocks_text (segs @ [t])) = strip_spaces (blocks_text segs) @ strip_spaces t"
proof -
  have "is_ws LF" by code_simp
  then have "strip_spaces (join [LF, LF] (segs @ [t])) = strip_spaces (join [LF, LF] segs) @ strip_spaces t"
    by (induction "[LF, LF]" segs rule: join.induct) (simp_all add: strip_spaces_def)
  then show ?thesis by (simp add: blocks_text_def)
qed

lemma trim_nonempty: "trim s = [] \<Longrightarrow> strip_spaces s = []"
  by (metis strip_trim strip_spaces_def filter.simps(1))

lemma reply_block_holds:
  "str_includes (strip_spaces (blocks_text (add_reply_block segs t))) (strip_spaces t) \<and>
   str_includes (strip_spaces (blocks_text (add_reply_block segs t))) (strip_spaces (blocks_text segs))"
proof -
  let ?nt = "strip_spaces t" and ?nc = "strip_spaces (blocks_text segs)"
  consider (same) "add_reply_block segs t = segs" "str_includes ?nc ?nt"
    | (whole) "add_reply_block segs t = [trim t]" "str_includes ?nt ?nc"
    | (push) "add_reply_block segs t = segs @ [trim t]"
  proof (cases "?nt = []")
    case True
    then have "add_reply_block segs t = segs" by (simp add: add_reply_block_def)
    with True same show thesis by simp
  next
    case False
    then have t: "trim t \<noteq> []" using trim_nonempty by blast
    show thesis
    proof (cases "?nc \<noteq> [] \<and> str_includes ?nc ?nt")
      case True
      with t False have "add_reply_block segs t = segs" by (simp add: add_reply_block_def Let_def)
      with True same show thesis by simp
    next
      case no: False
      with t False have "add_reply_block segs t = (if ?nc \<noteq> [] \<and> str_includes ?nt ?nc then [trim t] else segs @ [trim t])"
        unfolding add_reply_block_def Let_def strip_trim if_not_P [OF no] by simp
      with whole push show thesis by (cases "?nc \<noteq> [] \<and> str_includes ?nt ?nc") auto
    qed
  qed
  then show ?thesis
  proof cases
    case same
    then show ?thesis by simp
  next
    case whole
    then show ?thesis by (simp add: blocks_text_def)
  next
    case push
    then show ?thesis by (simp add: strip_blocks_snoc str_includes_left str_includes_right)
  qed
qed

lemma add_blocks_keep: "str_includes (strip_spaces (blocks_text (foldl add_reply_block segs blocks))) (strip_spaces (blocks_text segs))"
proof (induction blocks arbitrary: segs)
  case (Cons b blocks)
  show ?case
    using str_includes_trans [OF Cons.IH [of "add_reply_block segs b"]] reply_block_holds [of segs b] by simp
qed simp

lemma add_blocks_hold: "t \<in> set blocks \<Longrightarrow> str_includes (strip_spaces (blocks_text (foldl add_reply_block segs blocks))) (strip_spaces t)"
proof (induction blocks arbitrary: segs)
  case (Cons b blocks)
  show ?case
  proof (cases "t \<in> set blocks")
    case True
    then show ?thesis using Cons.IH [of "add_reply_block segs b"] by simp
  next
    case False
    then have t: "t = b" using Cons.prems by simp
    show ?thesis unfolding t foldl_Cons
      using str_includes_trans [OF add_blocks_keep [of "add_reply_block segs b" blocks]] reply_block_holds [of segs b] by simp
  qed
qed simp

lemma reply_body_holds: "t \<in> set blocks \<Longrightarrow> str_includes (strip_spaces (reply_body (foldl add_reply_block [] blocks))) (strip_spaces t)"
  using add_blocks_hold [of t blocks "[]"] by (simp add: reply_body_def)

text \<open>A block the dispatcher repeats is taken once.\<close>

lemma add_block_again: "add_reply_block (add_reply_block segs t) t = add_reply_block segs t"
proof (cases "strip_spaces t = []")
  case False
  let ?segs = "add_reply_block segs t"
  have i: "str_includes (strip_spaces (blocks_text ?segs)) (strip_spaces t)" using reply_block_holds by blast
  then have "strip_spaces (blocks_text ?segs) \<noteq> []" using False by (auto simp: str_includes_iff)
  with i show ?thesis unfolding add_reply_block_def [of ?segs t] by (simp add: Let_def)
qed (simp add: add_reply_block_def)

text \<open>
  The comparison without white space also drops a block that merely occurs in the letters of another: the second
  block of this reply is no repetition.
\<close>

lemma short_block_is_dropped: "reply_body (foldl add_reply_block [] [''at noon'', ''no'']) = ''at noon''"
  by code_simp

text \<open>A runtime for the examples.\<close>

definition demo_numbers :: runtime where
  "demo_numbers = \<lparr>fmt_num = (\<lambda>_. []), date_parse = (\<lambda>_. None)\<rparr>"

text \<open>The table of entities answers a name it inherits.\<close>

lemma html_examples:
  "htmlToText wide ''<b>a&lt;</p>c'' = ''a<'' @ [LF] @ ''c''"
  "decodeEntities wide ''&constructor;'' = ''function Object() { [native code] }''"
  by code_simp+

end
