(* ===== verification/Email_Poller.thy ===== *)
theory Email_Poller
  imports Email_Text "HOL-Library.Sublist"
begin

text \<open>
  The e-mail poller (\<open>plugin/src/email-poller.ts\<close>): a loop that counts the mails of the agent's mailbox, lists those beyond
  its watermark, the last UID it handed over, and hands each to the dispatcher in order. What the server, the handler,
  the keyed store and the abort signal answer in one cycle is a \<open>mail_env\<close>; a thrown error is its status code, if
  it is one of the server's. The state is that of the closure, with the mails handed over so far.
\<close>

section \<open>State\<close>

definition INBOX_PAGE_LIMIT :: nat where "INBOX_PAGE_LIMIT = 50"

definition MAX_INBOX_PAGES :: nat where "MAX_INBOX_PAGES = 20"

type_synonym thrown = "int option"

record mail_env =
  inbox_page :: "nat \<Rightarrow> thrown + jsval"
  mail_detail :: "rat \<Rightarrow> thrown + jsval"
  handler :: "email \<Rightarrow> thrown option"
  register_mark :: "rat \<Rightarrow> thrown option"
  abort_at_page :: "nat \<Rightarrow> bool"
  abort_at_mail :: "rat \<Rightarrow> bool"

record poll_state =
  ml_mark :: "rat option"
  ml_store :: "rat option"
  ml_seeded :: bool
  ml_total :: "jsnum option"
  ml_unread :: "jsnum option"
  ml_pending :: bool
  ml_stopped :: bool
  ml_handed :: "email list"

text \<open>The loop starts from the mark the store holds.\<close>

definition poll_start :: "rat option \<Rightarrow> poll_state" where
  "poll_start stored = \<lparr>ml_mark = stored, ml_store = stored, ml_seeded = (stored \<noteq> None), ml_total = None, ml_unread = None,
     ml_pending = False, ml_stopped = False, ml_handed = []\<rparr>"

section \<open>Operations\<close>

definition text_or :: "string \<Rightarrow> jsval \<Rightarrow> string" where
  "text_or d v = (case as_str v of Some s \<Rightarrow> s | None \<Rightarrow> d)"

definition pickBodyText :: "(nat \<Rightarrow> string) \<Rightarrow> jsval \<Rightarrow> string" where
  "pickBodyText wide d =
     (let t = text_or [] (jget d ''body_text''); h = text_or [] (jget d ''body_html'') in
      if trim t \<noteq> [] then t else if trim h \<noteq> [] then htmlToText wide h else [])"

fun uid_number :: "runtime \<Rightarrow> jsval \<Rightarrow> jsnum" where
  "uid_number R (JNum n) = n"
| "uid_number R (JBool b) = Fin (if b then 1 else 0)"
| "uid_number R JNull = Fin 0"
| "uid_number R JUndef = NaN"
| "uid_number R v = js_number (to_string R v)"

definition finite_uid :: "runtime \<Rightarrow> jsval \<Rightarrow> rat option" where
  "finite_uid R row = (case uid_number R (jget row ''uid'') of Fin q \<Rightarrow> Some q | _ \<Rightarrow> None)"

definition sortedUids :: "runtime \<Rightarrow> jsval \<Rightarrow> rat list" where
  "sortedUids R listing = (case as_arr (jget listing ''emails'') of
      Some rows \<Rightarrow> sort (List.map_filter (finite_uid R) rows)
    | None \<Rightarrow> [])"

definition advance :: "mail_env \<Rightarrow> rat \<Rightarrow> poll_state \<Rightarrow> thrown option \<times> poll_state" where
  "advance E uid s =
     (if (case ml_mark s of Some m \<Rightarrow> uid \<le> m | None \<Rightarrow> False) then (None, s)
      else (case register_mark E uid of
          None \<Rightarrow> (None, s\<lparr>ml_mark := Some uid, ml_store := Some uid\<rparr>)
        | Some code \<Rightarrow> (Some code, s\<lparr>ml_mark := Some uid\<rparr>)))"

definition mail_of :: "(nat \<Rightarrow> string) \<Rightarrow> rat \<Rightarrow> jsval \<Rightarrow> email" where
  "mail_of wide uid d =
     \<lparr>em_uid = uid, em_from = text_or [] (jget d ''from_addr''), em_to = text_or [] (jget d ''to_addr''),
      em_subject = text_or [] (jget d ''subject''), em_date = text_or [] (jget d ''date''), em_body = pickBodyText wide d,
      em_attachments = (case as_arr (jget d ''attachments'') of Some xs \<Rightarrow> xs | None \<Rightarrow> []),
      em_headers = (case jget d ''headers'' of JObj hs \<Rightarrow> hs | _ \<Rightarrow> [])\<rparr>"

lemma uid_mail [simp]: "em_uid (mail_of wide u d) = u"
  by (simp add: mail_of_def)

text \<open>One mail up to the end of its \<open>try\<close> block, with what it throws.\<close>

definition take_mail :: "(nat \<Rightarrow> string) \<Rightarrow> mail_env \<Rightarrow> rat \<Rightarrow> poll_state \<Rightarrow> thrown option \<times> poll_state" where
  "take_mail wide E uid s =
     (case mail_detail E uid of
        Inl code \<Rightarrow> (Some code, s)
      | Inr d \<Rightarrow>
          (case handler E (mail_of wide uid d) of
             Some code \<Rightarrow> (Some code, s)
           | None \<Rightarrow> advance E uid (s\<lparr>ml_handed := ml_handed s @ [mail_of wide uid d]\<rparr>)))"

text \<open>The mails of one cycle: \<open>Inl\<close> is an error that leaves \<open>processInbox\<close>, \<open>Inr\<close> its answer.\<close>

fun process_mails :: "(nat \<Rightarrow> string) \<Rightarrow> mail_env \<Rightarrow> rat list \<Rightarrow> poll_state \<Rightarrow> (thrown + bool) \<times> poll_state" where
  "process_mails wide E [] s = (Inr True, s)"
| "process_mails wide E (uid # uids) s =
     (if abort_at_mail E uid then (Inr False, s)
      else case take_mail wide E uid s of
        (None, s1) \<Rightarrow> process_mails wide E uids s1
      | (Some code, s1) \<Rightarrow>
          if code = Some 404 then
            (case advance E uid s1 of
               (None, s2) \<Rightarrow> process_mails wide E uids s2
             | (Some code', s2) \<Rightarrow> (Inl code', s2))
          else (Inr False, s1))"

text \<open>The paging loop, from the page \<open>pages - 1\<close> that was read last.\<close>

definition gather :: "rat \<Rightarrow> rat list \<Rightarrow> rat list \<Rightarrow> rat list" where
  "gather seen found uids = foldl (\<lambda>acc u. if seen < u then sadd u acc else acc) found uids"

function collect_uids :: "runtime \<Rightarrow> mail_env \<Rightarrow> rat \<Rightarrow> nat \<Rightarrow> rat list \<Rightarrow> rat list \<Rightarrow> thrown + rat list" where
  "collect_uids R E seen pages uids found =
     (let found' = gather seen found uids;
          reachedSeen = (uids = [] \<or> hd uids \<le> seen); lastPage = (length uids < INBOX_PAGE_LIMIT)
      in if reachedSeen \<or> lastPage \<or> MAX_INBOX_PAGES \<le> pages \<or> abort_at_page E pages then Inr found'
         else (case inbox_page E pages of
             Inl code \<Rightarrow> Inl code
           | Inr listing \<Rightarrow> collect_uids R E seen (Suc pages) (sortedUids R listing) found'))"
  by pat_completeness auto

termination collect_uids
  by (relation "measure (\<lambda>(R, E, seen, pages, uids, found). MAX_INBOX_PAGES - pages)") auto

declare collect_uids.simps [simp del]

definition processInbox :: "runtime \<Rightarrow> (nat \<Rightarrow> string) \<Rightarrow> mail_env \<Rightarrow> poll_state \<Rightarrow> (thrown + bool) \<times> poll_state" where
  "processInbox R wide E s =
     (case inbox_page E 0 of
        Inl code \<Rightarrow> (Inl code, s)
      | Inr listing \<Rightarrow>
         (let uids = sortedUids R listing in
          if \<not> ml_seeded s then
            (case advance E (if uids = [] then 0 else last uids) (s\<lparr>ml_seeded := True\<rparr>) of
               (None, s1) \<Rightarrow> (Inr True, s1)
             | (Some code, s1) \<Rightarrow> (Inl code, s1))
          else
            (case collect_uids R E (case ml_mark s of Some m \<Rightarrow> m | None \<Rightarrow> 0) 1 uids [] of
               Inl code \<Rightarrow> (Inl code, s)
             | Inr found \<Rightarrow> process_mails wide E (sort found) s)))"

definition count_of :: "jsval \<Rightarrow> string \<Rightarrow> jsnum" where
  "count_of counts k = (case as_num (jget counts k) of Some n \<Rightarrow> n | None \<Rightarrow> Fin 0)"

definition same_count :: "jsnum option \<Rightarrow> jsnum \<Rightarrow> bool" where
  "same_count x n = (case x of Some m \<Rightarrow> num_eq n m | None \<Rightarrow> False)"

text \<open>An error of a cycle: the mailbox that is not configured stops the poller, any other is logged.\<close>

definition cycle_throws :: "thrown \<Rightarrow> poll_state \<Rightarrow> poll_state" where
  "cycle_throws code s = (if code = Some 503 then s\<lparr>ml_stopped := True\<rparr> else s)"

text \<open>Whether the inbox is looked at: the counts changed, work was left behind, or it never was.\<close>

definition look_again :: "jsval \<Rightarrow> poll_state \<Rightarrow> bool" where
  "look_again counts s =
     (\<not> same_count (ml_total s) (count_of counts ''total'') \<or> \<not> same_count (ml_unread s) (count_of counts ''unread'') \<or>
      ml_pending s \<or> \<not> ml_seeded s)"

definition poll_cycle :: "runtime \<Rightarrow> (nat \<Rightarrow> string) \<Rightarrow> poll_state \<Rightarrow> (thrown + jsval) \<times> mail_env \<Rightarrow> poll_state" where
  "poll_cycle R wide s x =
     (if ml_stopped s then s
      else case fst x of
        Inl code \<Rightarrow> cycle_throws code s
      | Inr counts \<Rightarrow>
         (if look_again counts s then
            (case processInbox R wide (snd x) s of
               (Inl code, s1) \<Rightarrow> cycle_throws code s1
             | (Inr drained, s1) \<Rightarrow> s1\<lparr>ml_pending := \<not> drained, ml_total := Some (count_of counts ''total''),
                 ml_unread := Some (count_of counts ''unread'')\<rparr>)
          else s))"

section \<open>Each mail once, in order\<close>

text \<open>
  The mails handed over are in ascending order of their UIDs, none beyond the watermark; and what was handed over since
  a moment at which the watermark was \<open>w0\<close> and the mails \<open>h0\<close> is beyond \<open>w0\<close>.
\<close>

definition since :: "rat option \<Rightarrow> email list \<Rightarrow> poll_state \<Rightarrow> bool" where
  "since w0 h0 s = (case w0 of
      None \<Rightarrow> True
    | Some b \<Rightarrow> (\<exists>w. ml_mark s = Some w \<and> b \<le> w) \<and> (\<forall>m \<in> set (ml_handed s). m \<in> set h0 \<or> b < em_uid m))"

definition handed_ok :: "rat option \<Rightarrow> email list \<Rightarrow> poll_state \<Rightarrow> bool" where
  "handed_ok w0 h0 s \<longleftrightarrow> sorted_wrt (<) (map em_uid (ml_handed s)) \<and>
     (\<forall>m \<in> set (ml_handed s). \<exists>w. ml_mark s = Some w \<and> em_uid m \<le> w) \<and> (ml_seeded s \<longrightarrow> ml_mark s \<noteq> None) \<and> since w0 h0 s"

text \<open>No mark yet, or one below.\<close>

definition below :: "rat \<Rightarrow> poll_state \<Rightarrow> bool" where
  "below u s = (case ml_mark s of Some w \<Rightarrow> w < u | None \<Rightarrow> True)"

lemma advance_frame [simp]: "ml_handed (snd (advance E u s)) = ml_handed s" "ml_seeded (snd (advance E u s)) = ml_seeded s"
  by (simp_all add: advance_def split: option.split)

lemma advance_mark:
  "ml_mark (snd (advance E u s)) = (case ml_mark s of Some w \<Rightarrow> Some (max w u) | None \<Rightarrow> Some u)"
  by (auto simp: advance_def max_def split: option.split)

lemma handed_advance: "handed_ok w0 h0 s \<Longrightarrow> handed_ok w0 h0 (snd (advance E u s))"
  unfolding handed_ok_def since_def advance_frame advance_mark by (fastforce split: option.splits)

lemma handed_mail:
  assumes "handed_ok w0 h0 s" and "below (em_uid m) s"
  shows "handed_ok w0 h0 (snd (advance E (em_uid m) (s\<lparr>ml_handed := ml_handed s @ [m]\<rparr>)))"
proof -
  have "\<forall>x \<in> set (ml_handed s). em_uid x < em_uid m" using assms by (fastforce simp: handed_ok_def below_def)
  then show ?thesis using assms unfolding handed_ok_def since_def advance_frame advance_mark below_def
    by (fastforce simp: sorted_wrt_append split: option.splits)
qed

lemma below_mono: "u < v \<Longrightarrow> below u s \<Longrightarrow> below v s"
  by (auto simp: below_def split: option.splits)

lemma below_advance: "below v s \<Longrightarrow> u < v \<Longrightarrow> below v (snd (advance E u s))"
  unfolding below_def advance_mark by (auto split: option.splits)

lemma handed_take:
  assumes "handed_ok w0 h0 s" and "below u s"
  shows "handed_ok w0 h0 (snd (take_mail wide E u s)) \<and> (u < v \<longrightarrow> below v (snd (take_mail wide E u s)))"
proof (cases "mail_detail E u")
  case (Inl code)
  then show ?thesis using assms below_mono by (auto simp: take_mail_def)
next
  case (Inr d)
  let ?m = "mail_of wide u d"
  have "below v s" if "u < v" using below_mono [OF that assms(2)] .
  then have "below v (s\<lparr>ml_handed := ml_handed s @ [?m]\<rparr>)" if "u < v" using that by (simp add: below_def)
  then show ?thesis
    using handed_mail [of w0 h0 s ?m E] below_advance [of v _ u E] below_mono [of u v s] assms Inr
    by (cases "handler E ?m") (auto simp: take_mail_def)
qed

lemma handed_process:
  "handed_ok w0 h0 s \<Longrightarrow> sorted_wrt (<) us \<Longrightarrow> list_all (\<lambda>u. below u s) us \<Longrightarrow> handed_ok w0 h0 (snd (process_mails wide E us s))"
proof (induction us arbitrary: s)
  case (Cons u us)
  obtain err s1 where e: "take_mail wide E u s = (err, s1)" by (cases "take_mail wide E u s")
  obtain err2 t where t: "advance E u s1 = (err2, t)" by (cases "advance E u s1")
  have lt: "u < v" if "v \<in> set us" for v using Cons.prems(2) that by simp
  have s1: "handed_ok w0 h0 s1" "v \<in> set us \<Longrightarrow> below v s1" for v
    using handed_take [OF Cons.prems(1), of u wide E v] Cons.prems(3) e lt by auto
  have t1: "handed_ok w0 h0 t" "v \<in> set us \<Longrightarrow> below v t" for v
    using handed_advance [OF s1(1), of E u] below_advance [OF s1(2) lt, of v E] t by auto
  have rest: "handed_ok w0 h0 (snd (process_mails wide E us s'))" if "handed_ok w0 h0 s'" "\<And>v. v \<in> set us \<Longrightarrow> below v s'" for s'
    using Cons.IH [OF that(1)] Cons.prems(2) that(2) by (simp add: list_all_iff)
  have r: "handed_ok w0 h0 (snd (process_mails wide E us s1))" "handed_ok w0 h0 (snd (process_mails wide E us t))"
    using rest [OF s1] rest [OF t1] by blast+
  show ?case
  proof (cases err)
    case None
    then show ?thesis using Cons.prems(1) r(1) by (simp add: e)
  next
    case (Some code)
    then show ?thesis using Cons.prems(1) r(2) s1(1) t1(1) by (cases err2) (simp_all add: e t)
  qed
qed simp

lemma set_gather: "set (gather seen found uids) = set found \<union> {u \<in> set uids. seen < u}"
  unfolding gather_def by (induction uids arbitrary: found) auto

lemma distinct_gather: "distinct found \<Longrightarrow> distinct (gather seen found uids)"
  unfolding gather_def by (induction uids arbitrary: found) simp_all

text \<open>What every page adds to the found UIDs keeps holds of all of them.\<close>

lemma collect_keeps:
  assumes "\<And>acc us. P acc \<Longrightarrow> P (gather seen acc us)"
  shows "P found \<Longrightarrow> collect_uids R E seen pages uids found = Inr us \<Longrightarrow> P us"
proof (induction "MAX_INBOX_PAGES - pages" arbitrary: pages uids found rule: less_induct)
  case less
  show ?case
  proof (cases "(uids = [] \<or> hd uids \<le> seen) \<or> length uids < INBOX_PAGE_LIMIT \<or> MAX_INBOX_PAGES \<le> pages \<or> abort_at_page E pages")
    case True
    then have "us = gather seen found uids" using less.prems(2) unfolding collect_uids.simps [of R E seen pages] Let_def by simp
    then show ?thesis using assms [OF less.prems(1)] by simp
  next
    case False
    then have e: "(case inbox_page E pages of Inl code \<Rightarrow> Inl code
        | Inr l \<Rightarrow> collect_uids R E seen (Suc pages) (sortedUids R l) (gather seen found uids)) = Inr us"
      using less.prems(2) unfolding collect_uids.simps [of R E seen pages] Let_def if_not_P [OF False] by blast
    then obtain l where l: "collect_uids R E seen (Suc pages) (sortedUids R l) (gather seen found uids) = Inr us"
      by (cases "inbox_page E pages") auto
    have "MAX_INBOX_PAGES - Suc pages < MAX_INBOX_PAGES - pages" using False by linarith
    then show ?thesis using less.hyps assms [OF less.prems(1)] l by blast
  qed
qed

lemma found_mails: "collect_uids R E seen pages uids [] = Inr us \<Longrightarrow> distinct us \<and> (\<forall>u \<in> set us. seen < u)"
  by (rule collect_keeps [where P = "\<lambda>us. distinct us \<and> (\<forall>u \<in> set us. seen < u)"]) (auto simp: set_gather distinct_gather)

lemma sorted_found: "distinct us \<Longrightarrow> sorted_wrt (<) (sort us)"
  using strict_sorted_iff [of "sort us"] by simp

lemma handed_seed: "handed_ok w0 h0 s \<Longrightarrow> handed_ok w0 h0 (snd (advance E u (s\<lparr>ml_seeded := True\<rparr>)))"
  unfolding handed_ok_def since_def advance_frame advance_mark by (fastforce split: option.splits)

lemma handed_inbox: "handed_ok w0 h0 s \<Longrightarrow> handed_ok w0 h0 (snd (processInbox R wide E s))"
proof (cases "inbox_page E 0")
  case (Inr l)
  assume ok: "handed_ok w0 h0 s"
  show ?thesis
  proof (cases "ml_seeded s")
    case False
    let ?u = "if sortedUids R l = [] then 0 else last (sortedUids R l)"
    obtain x t where a: "advance E ?u (s\<lparr>ml_seeded := True\<rparr>) = (x, t)" by (cases "advance E ?u (s\<lparr>ml_seeded := True\<rparr>)")
    have "handed_ok w0 h0 t" using handed_seed [OF ok, of E ?u] a by simp
    with False Inr a show ?thesis by (cases x) (simp_all add: processInbox_def Let_def)
  next
    case True
    then obtain w where w: "ml_mark s = Some w" using ok by (auto simp: handed_ok_def)
    show ?thesis
    proof (cases "collect_uids R E w 1 (sortedUids R l) []")
      case (Inr us)
      from found_mails [OF this] have "list_all (\<lambda>u. below u s) (sort us)" "sorted_wrt (<) (sort us)"
        using w sorted_found by (auto simp: below_def list_all_iff)
      then have "handed_ok w0 h0 (snd (process_mails wide E (sort us) s))" using handed_process [OF ok] by blast
      then show ?thesis using True w Inr \<open>inbox_page E 0 = Inr l\<close> by (simp add: processInbox_def Let_def)
    qed (use True w ok Inr in \<open>simp add: processInbox_def Let_def\<close>)
  qed
qed (simp add: processInbox_def)

lemma handed_cong: "handed_ok w0 h0 s \<Longrightarrow> ml_handed t = ml_handed s \<Longrightarrow> ml_mark t = ml_mark s \<Longrightarrow> ml_seeded t = ml_seeded s \<Longrightarrow> handed_ok w0 h0 t"
  by (cases w0) (simp_all add: handed_ok_def since_def)

lemma handed_cycle: "handed_ok w0 h0 s \<Longrightarrow> handed_ok w0 h0 (poll_cycle R wide s x)"
proof -
  assume ok: "handed_ok w0 h0 s"
  have c: "handed_ok w0 h0 (cycle_throws code t)" if "handed_ok w0 h0 t" for code t
    by (rule handed_cong [OF that]) (simp_all add: cycle_throws_def)
  obtain y t where t: "processInbox R wide (snd x) s = (y, t)" by (cases "processInbox R wide (snd x) s")
  have "handed_ok w0 h0 t" using handed_inbox [OF ok, of R wide "snd x"] t by simp
  then have "handed_ok w0 h0 (t\<lparr>ml_pending := p, ml_total := a, ml_unread := b\<rparr>)" for p a b by (rule handed_cong) simp_all
  then show ?thesis using ok c \<open>handed_ok w0 h0 t\<close> t
    by (cases "fst x"; cases y) (simp_all add: poll_cycle_def Let_def)
qed

interpretation mailbox: transition_system "poll_start stored" "poll_cycle R wide" "handed_ok None []"
  by unfold_locales (simp add: handed_ok_def since_def poll_start_def, rule handed_cycle)

text \<open>
  C19: Each mail is handed over at most once, in order. Whatever the server, the handler, the store and the abort
  signal answer in any number of cycles, the mails the handler took have strictly ascending UIDs, and none is beyond the
  watermark from which the next cycle goes on.
\<close>

theorem mails_handed_over_once:
  "let s = run (poll_cycle R wide) (poll_start stored) xs in
     sorted_wrt (<) (map em_uid (ml_handed s)) \<and>
     map (\<lambda>m. map_option (\<lambda>w. em_uid m \<le> w) (ml_mark s)) (ml_handed s) = map (\<lambda>_. Some True) (ml_handed s)"
proof -
  have "handed_ok None [] (run (poll_cycle R wide) (poll_start stored) xs)" by (rule mailbox.good_run)
  then show ?thesis by (auto simp: handed_ok_def Let_def)
qed

section \<open>What one cycle hands over\<close>

text \<open>
  A server that holds the mails \<open>box\<close>, newest first, and answers each page and each mail, with a handler and a store that succeed
  and no abort.
\<close>

definition calm_server :: "runtime \<Rightarrow> (nat \<Rightarrow> string) \<Rightarrow> mail_env \<Rightarrow> rat list \<Rightarrow> (rat \<Rightarrow> jsval) \<Rightarrow> bool" where
  "calm_server R wide E box detail \<longleftrightarrow>
     (\<forall>k. \<exists>l. inbox_page E k = Inr l \<and> sortedUids R l = rev (take INBOX_PAGE_LIMIT (drop (INBOX_PAGE_LIMIT * k) box))) \<and>
     (\<forall>k. \<not> abort_at_page E k) \<and>
     (\<forall>u. \<not> abort_at_mail E u \<and> mail_detail E u = Inr (detail u) \<and> handler E (mail_of wide u (detail u)) = None \<and> register_mark E u = None)"

text \<open>The new mails are the beginning of the box.\<close>

definition new_mails :: "rat \<Rightarrow> rat list \<Rightarrow> rat list" where
  "new_mails seen box = takeWhile (\<lambda>u. seen < u) box"

lemma new_mails_split:
  assumes "sorted_wrt (>) box"
  obtains old where "box = new_mails seen box @ old" and "\<forall>u \<in> set (new_mails seen box). seen < u" and "\<forall>u \<in> set old. u \<le> seen"
proof
  let ?old = "dropWhile (\<lambda>u. seen < u) box"
  show b: "box = new_mails seen box @ ?old" by (simp add: new_mails_def)
  show "\<forall>u \<in> set (new_mails seen box). seen < u" by (auto simp: new_mails_def dest: set_takeWhileD)
  have d: "sorted_wrt (>) ?old" using assms by (subst (asm) b) (simp add: sorted_wrt_append)
  show "\<forall>u \<in> set ?old. u \<le> seen"
  proof (cases ?old)
    case (Cons u us)
    then have "\<not> seen < u" using hd_dropWhile [of "\<lambda>u. seen < u" box] by auto
    then show ?thesis using d unfolding Cons by auto
  next
    case Nil
    then show ?thesis unfolding Nil by simp
  qed
qed

lemma new_slice:
  assumes "sorted_wrt (>) box"
  shows "{u \<in> set (take n (drop m box)). seen < u} = set (take n (drop m (new_mails seen box)))"
proof -
  obtain old where b: "box = new_mails seen box @ old" "\<forall>u \<in> set (new_mails seen box). seen < u" "\<forall>u \<in> set old. u \<le> seen"
    using new_mails_split [OF assms] .
  have "take n (drop m box) = take n (drop m (new_mails seen box)) @ take (n - length (drop m (new_mails seen box))) (drop (m - length (new_mails seen box)) old)"
    by (subst b(1)) simp
  moreover have "\<not> seen < u" if "u \<in> set (take i (drop j old))" for i j u
    using b(3) that by (meson in_set_dropD in_set_takeD not_less)
  moreover have "seen < u" if "u \<in> set (take i (drop j (new_mails seen box)))" for i j u
    using b(2) that by (meson in_set_dropD in_set_takeD)
  ultimately show ?thesis by auto
qed

lemma collect_calm:
  assumes "calm_server R wide E box detail" and "sorted_wrt (>) box"
  shows "set found = set (take (INBOX_PAGE_LIMIT * k) (new_mails seen box)) \<Longrightarrow> k < MAX_INBOX_PAGES \<Longrightarrow>
    \<exists>us. collect_uids R E seen (Suc k) (rev (take INBOX_PAGE_LIMIT (drop (INBOX_PAGE_LIMIT * k) box))) found = Inr us \<and>
      set us = set (take (INBOX_PAGE_LIMIT * MAX_INBOX_PAGES) (new_mails seen box))"
proof (induction "MAX_INBOX_PAGES - k" arbitrary: k found rule: less_induct)
  case less
  let ?L = INBOX_PAGE_LIMIT and ?new = "new_mails seen box"
  let ?page = "take ?L (drop (?L * k) box)"
  let ?found = "gather seen found (rev ?page)"
  have f: "set ?found = set (take (?L * Suc k) ?new)"
  proof -
    have "take (?L * Suc k) ?new = take (?L * k) ?new @ take ?L (drop (?L * k) ?new)"
      using take_add [of "?L * k" ?L ?new] by (simp add: add.commute)
    then show ?thesis using new_slice [OF assms(2), of ?L "?L * k" seen] less.prems(1) by (simp add: set_gather)
  qed
  have new_le: "length ?new \<le> length box" by (simp add: new_mails_def length_takeWhile_le)
  show ?case
  proof (cases "Suc k = MAX_INBOX_PAGES")
    case True
    then show ?thesis using f unfolding collect_uids.simps [of R E seen "Suc k"] Let_def by simp
  next
    case more: False
    show ?thesis
    proof (cases "(rev ?page = [] \<or> hd (rev ?page) \<le> seen) \<or> length (rev ?page) < ?L")
      case True
      have "length ?new \<le> ?L * Suc k"
      proof (cases "length ?page < ?L")
        case True
        then have "length box \<le> ?L * Suc k" by simp
        with new_le show ?thesis by simp
      next
        case False
        then have len: "?L * Suc k \<le> length box" "?page \<noteq> []" by (auto simp: INBOX_PAGE_LIMIT_def)
        with True False have old: "\<not> seen < last ?page" by (auto simp: hd_rev)
        have "last ?page = box ! (?L * Suc k - 1)" using len by (simp add: last_conv_nth INBOX_PAGE_LIMIT_def add.commute)
        with old have "\<not> ?L * Suc k - 1 < length ?new"
          using nth_mem [of "?L * Suc k - 1" ?new] unfolding new_mails_def by (metis set_takeWhileD takeWhile_nth)
        then show ?thesis by linarith
      qed
      moreover have "?L * Suc k \<le> ?L * MAX_INBOX_PAGES" using less.prems(2) by (intro mult_le_mono2) simp
      ultimately have "length ?new \<le> ?L * MAX_INBOX_PAGES" by (rule le_trans)
      with \<open>length ?new \<le> ?L * Suc k\<close> have "take (?L * Suc k) ?new = ?new" "take (?L * MAX_INBOX_PAGES) ?new = ?new" by (simp_all only: take_all)
      then have f': "set ?found = set (take (?L * MAX_INBOX_PAGES) ?new)" using f by simp
      have stop: "(rev ?page = [] \<or> hd (rev ?page) \<le> seen) \<or> length (rev ?page) < ?L \<or> MAX_INBOX_PAGES \<le> Suc k \<or> abort_at_page E (Suc k)"
        using True by blast
      show ?thesis unfolding collect_uids.simps [of R E seen "Suc k"] Let_def if_P [OF stop] using f' by blast
    next
      case False
      obtain l where l: "inbox_page E (Suc k) = Inr l" "sortedUids R l = rev (take ?L (drop (?L * Suc k) box))"
        using assms(1) unfolding calm_server_def by blast
      have "Suc k < MAX_INBOX_PAGES" "MAX_INBOX_PAGES - Suc k < MAX_INBOX_PAGES - k" using less.prems(2) more by linarith+
      then obtain us where "collect_uids R E seen (Suc (Suc k)) (sortedUids R l) ?found = Inr us"
        "set us = set (take (?L * MAX_INBOX_PAGES) ?new)"
        using less.hyps [OF _ f] unfolding l(2) by blast
      moreover have "\<not> (MAX_INBOX_PAGES \<le> Suc k \<or> abort_at_page E (Suc k))"
        using \<open>Suc k < MAX_INBOX_PAGES\<close> assms(1) by (auto simp: calm_server_def)
      ultimately show ?thesis using False l(1) unfolding collect_uids.simps [of R E seen "Suc k"] Let_def by simp
    qed
  qed
qed

lemma process_calm:
  assumes "calm_server R wide E box detail"
  shows "sorted_wrt (<) us \<Longrightarrow> list_all (\<lambda>u. below u s) us \<Longrightarrow>
    process_mails wide E us s =
      (Inr True, s\<lparr>ml_handed := ml_handed s @ map (\<lambda>u. mail_of wide u (detail u)) us,
        ml_mark := (if us = [] then ml_mark s else Some (last us)), ml_store := (if us = [] then ml_store s else Some (last us))\<rparr>)"
proof (induction us arbitrary: s)
  case (Cons u us)
  let ?m = "mail_of wide u (detail u)"
  let ?s = "s\<lparr>ml_handed := ml_handed s @ [?m], ml_mark := Some u, ml_store := Some u\<rparr>"
  have e: "mail_detail E u = Inr (detail u)" "handler E ?m = None" "register_mark E u = None" "\<not> abort_at_mail E u"
    using assms by (auto simp: calm_server_def)
  have "advance E u (s\<lparr>ml_handed := ml_handed s @ [?m]\<rparr>) = (None, ?s)"
    using e(3) Cons.prems(2) by (auto simp: advance_def below_def split: option.splits)
  then have t: "take_mail wide E u s = (None, ?s)" using e(1,2) by (simp add: take_mail_def)
  have "list_all (\<lambda>v. below v ?s) us" using Cons.prems(1) by (simp add: below_def list_all_iff)
  then show ?case using Cons.IH [of ?s] Cons.prems(1) e(4) t by simp
qed simp

lemma sort_slice: "sorted_wrt (>) xs \<Longrightarrow> distinct us \<Longrightarrow> set us = set xs \<Longrightarrow> sort us = rev xs" for xs :: "rat list"
proof -
  assume x: "sorted_wrt (>) xs" and "distinct us" "set us = set xs"
  have "sorted_wrt (<) (rev xs)" using x by (simp add: sorted_wrt_rev)
  then have "sorted (rev xs)" "distinct (rev xs)" by (simp_all add: strict_sorted_iff)
  then show "sort us = rev xs" using \<open>distinct us\<close> \<open>set us = set xs\<close> by (intro sorted_distinct_set_unique) simp_all
qed

lemma inbox_calm:
  assumes "calm_server R wide E box detail" and "sorted_wrt (>) box" and "ml_seeded s" and "ml_mark s = Some seen"
    and "us = rev (take (INBOX_PAGE_LIMIT * MAX_INBOX_PAGES) (new_mails seen box))"
  shows "processInbox R wide E s =
    (Inr True, s\<lparr>ml_handed := ml_handed s @ map (\<lambda>u. mail_of wide u (detail u)) us,
      ml_mark := (if us = [] then ml_mark s else Some (last us)), ml_store := (if us = [] then ml_store s else Some (last us))\<rparr>)"
proof -
  obtain l where l: "inbox_page E 0 = Inr l" "sortedUids R l = rev (take INBOX_PAGE_LIMIT (drop (INBOX_PAGE_LIMIT * 0) box))"
    using assms(1) unfolding calm_server_def by blast
  have "set [] = set (take (INBOX_PAGE_LIMIT * 0) (new_mails seen box))" "0 < MAX_INBOX_PAGES" by (simp_all add: MAX_INBOX_PAGES_def)
  from collect_calm [OF assms(1,2) this] obtain found where f: "collect_uids R E seen 1 (sortedUids R l) [] = Inr found"
    "set found = set (take (INBOX_PAGE_LIMIT * MAX_INBOX_PAGES) (new_mails seen box))" unfolding l(2) by auto
  have "sorted_wrt (>) (take (INBOX_PAGE_LIMIT * MAX_INBOX_PAGES) (new_mails seen box))"
    using assms(2) by (simp add: new_mails_def sorted_wrt_take sorted_wrt_takeWhile)
  then have us: "sort found = us" unfolding assms(5) using found_mails [OF f(1)] f(2) by (intro sort_slice) auto
  have "sorted_wrt (<) us" "list_all (\<lambda>u. below u s) us"
    using found_mails [OF f(1)] sorted_found [of found] assms(4) unfolding us by (auto simp: below_def list_all_iff simp flip: us)
  from process_calm [OF assms(1) this] show ?thesis
    using l(1) assms(3,4) f(1) us by (simp add: processInbox_def Let_def)
qed

text \<open>
  A cycle hands over every new mail, oldest first. When the inbox is looked at, the server answers and holds no more than a
  thousand mails beyond the watermark, the cycle hands over exactly those, in ascending order, and moves the watermark to the newest.
\<close>

theorem cycle_hands_over_all_new:
  assumes "calm_server R wide E box detail" and "sorted_wrt (>) box" and "ml_seeded s" and "ml_mark s = Some seen" and "\<not> ml_stopped s"
    and "length (new_mails seen box) \<le> 1000" and "look_again counts s"
  shows "map em_uid (ml_handed (poll_cycle R wide s (Inr counts, E))) = map em_uid (ml_handed s) @ rev (new_mails seen box) \<and>
    ml_mark (poll_cycle R wide s (Inr counts, E)) = Some (case new_mails seen box of [] \<Rightarrow> seen | u # _ \<Rightarrow> u)"
proof -
  let ?new = "new_mails seen box"
  have "take (INBOX_PAGE_LIMIT * MAX_INBOX_PAGES) ?new = ?new" using assms(6) by (simp add: INBOX_PAGE_LIMIT_def MAX_INBOX_PAGES_def)
  then have "processInbox R wide E s =
    (Inr True, s\<lparr>ml_handed := ml_handed s @ map (\<lambda>u. mail_of wide u (detail u)) (rev ?new),
      ml_mark := (if rev ?new = [] then ml_mark s else Some (last (rev ?new))), ml_store := (if rev ?new = [] then ml_store s else Some (last (rev ?new)))\<rparr>)"
    by (intro inbox_calm [OF assms(1-4)]) simp
  moreover have "map (em_uid \<circ> (\<lambda>u. mail_of wide u (detail u))) us = us" for us by (induction us) simp_all
  ultimately show ?thesis using assms(4,5,7) by (cases ?new) (simp_all add: poll_cycle_def Let_def)
qed

text \<open>
  The cap on the pages of a cycle loses mail: the newest thousand are handed over and the watermark moves to the newest of them, so
  of a larger burst the older mails are behind it and no later cycle, whatever happens, hands them over.
\<close>

theorem burst_beyond_cap_is_lost:
  assumes "calm_server R wide E box detail" and "sorted_wrt (>) box" and "ml_seeded s" and "ml_mark s = Some seen" and "\<not> ml_stopped s"
    and "look_again counts s" and "handed_ok None [] s" and "u \<in> set (drop 1000 (new_mails seen box))"
  shows "u \<notin> em_uid ` set (ml_handed (run (poll_cycle R wide) s ((Inr counts, E) # xs)))"
proof -
  let ?new = "new_mails seen box" and ?t = "poll_cycle R wide s (Inr counts, E)"
  let ?us = "rev (take 1000 ?new)"
  have k: "INBOX_PAGE_LIMIT * MAX_INBOX_PAGES = 1000" by (simp add: INBOX_PAGE_LIMIT_def MAX_INBOX_PAGES_def)
  have new: "sorted_wrt (>) ?new" using assms(2) by (simp add: new_mails_def sorted_wrt_takeWhile)
  have ne: "take 1000 ?new \<noteq> []" using assms(8) by (cases ?new) auto
  have "sorted_wrt (>) (take 1000 ?new @ drop 1000 ?new)" using new by simp
  then have lt: "u < v" if "v \<in> set (take 1000 ?new)" for v using that assms(8) unfolding sorted_wrt_append by blast
  have "seen < u" using assms(8) by (auto simp: new_mails_def dest: in_set_dropD set_takeWhileD)
  have p: "processInbox R wide E s = (Inr True, s\<lparr>ml_handed := ml_handed s @ map (\<lambda>u. mail_of wide u (detail u)) ?us,
      ml_mark := Some (last ?us), ml_store := Some (last ?us)\<rparr>)"
    using inbox_calm [OF assms(1-4), of ?us] ne unfolding k by simp
  have h: "ml_handed ?t = ml_handed s @ map (\<lambda>u. mail_of wide u (detail u)) ?us" and m: "ml_mark ?t = Some (last ?us)"
    using p assms(5,6) by (simp_all add: poll_cycle_def Let_def)
  have "em_uid x \<noteq> u" if taken: "x \<in> set (ml_handed ?t)" for x
  proof (cases "x \<in> set (ml_handed s)")
    case True
    then have "em_uid x \<le> seen" using assms(4,7) by (auto simp: handed_ok_def)
    with \<open>seen < u\<close> show ?thesis by auto
  next
    case False
    then obtain v where "v \<in> set (take 1000 ?new)" "x = mail_of wide v (detail v)"
      using taken unfolding h set_append set_map set_rev by blast
    with lt [of v] show ?thesis by auto
  qed
  moreover have "last ?us \<in> set ?us" using ne by (intro last_in_set) simp
  then have "u < last ?us" unfolding set_rev by (rule lt)
  moreover have "handed_ok (Some (last ?us)) (ml_handed ?t) ?t"
    using handed_cycle [OF assms(7), of R wide "(Inr counts, E)"] m unfolding handed_ok_def since_def by simp
  then have "handed_ok (Some (last ?us)) (ml_handed ?t) (run (poll_cycle R wide) ?t xs)"
    by (induction xs arbitrary: rule: rev_induct) (simp_all add: handed_cycle)
  ultimately show ?thesis by (fastforce simp: handed_ok_def since_def)
qed

text \<open>A box of three mails, one of them seen.\<close>

definition demo_row :: "int \<Rightarrow> jsval" where
  "demo_row u = JObj [(''uid'', jint u)]"

definition demo_box :: mail_env where
  "demo_box = \<lparr>inbox_page = (\<lambda>k. Inr (JObj [(''emails'', JArr (if k = 0 then [demo_row 9, demo_row 7, demo_row 4] else []))])),
     mail_detail = (\<lambda>u. Inr (JObj [(''subject'', JStr ''Hi'')])), handler = (\<lambda>_. None), register_mark = (\<lambda>_. None),
     abort_at_page = (\<lambda>_. False), abort_at_mail = (\<lambda>_. False)\<rparr>"

lemma demo_calm: "calm_server R wide demo_box [9, 7, 4] (\<lambda>_. JObj [(''subject'', JStr ''Hi'')])"
proof -
  have "\<exists>l. inbox_page demo_box k = Inr l \<and> sortedUids R l = rev (take INBOX_PAGE_LIMIT (drop (INBOX_PAGE_LIMIT * k) [9, 7, 4]))" for k
    by (cases k) (simp_all add: demo_box_def sortedUids_def demo_row_def List.map_filter_simps finite_uid_def INBOX_PAGE_LIMIT_def)
  then show ?thesis unfolding calm_server_def by (simp add: demo_box_def)
qed

lemma cycle_hands_over_all_new_witness:
  "map em_uid (ml_handed (poll_cycle demo_numbers (\<lambda>_. []) (poll_start (Some 4)) (Inr (JObj []), demo_box))) = [7, 9] \<and>
   ml_mark (poll_cycle demo_numbers (\<lambda>_. []) (poll_start (Some 4)) (Inr (JObj []), demo_box)) = Some 9"
proof -
  have n: "new_mails 4 [9, 7, 4] = [9, 7]" by (simp add: new_mails_def)
  have s: "ml_seeded (poll_start (Some 4))" "ml_mark (poll_start (Some 4)) = Some 4" "\<not> ml_stopped (poll_start (Some 4))"
    "look_again (JObj []) (poll_start (Some 4))" "ml_handed (poll_start (Some 4)) = []"
    by (simp_all add: poll_start_def look_again_def same_count_def)
  have b: "sorted_wrt (>) [9, 7, 4 :: rat]" by simp
  have l: "length (new_mails 4 [9, 7, 4]) \<le> 1000" unfolding n by simp
  show ?thesis using cycle_hands_over_all_new [OF demo_calm b s(1,2,3) l s(4)] unfolding n s(5) by simp
qed

end
