(* ===== verification/Email_Dispatch.thy ===== *)
theory Email_Dispatch
  imports Email_Text Dispatch_Guard "HOL-Library.Sublist"
begin

text \<open>
  One mail as a turn, and its reply as one mail (\<open>dispatchInboundEmail\<close> of \<open>plugin/src/email-adapter.ts\<close>, \<open>formatBytes\<close> of
  \<open>agent-body.ts\<close>). What the host and the server answer is a \<open>mail_host\<close>; the result is the list of effects in their
  order. The preamble that \<open>buildAgentBody\<close> puts before the turn's text is not modelled, nor are status and logs.
\<close>

section \<open>Attachments\<close>

text \<open>\<open>toFixed\<close> with no digit or one: the nearest such decimal, the larger of two.\<close>

definition fixed0 :: "rat \<Rightarrow> string" where
  "fixed0 v = show_nat (nat \<lfloor>v + 1 / 2\<rfloor>)"

definition fixed1 :: "rat \<Rightarrow> string" where
  "fixed1 v = (let n = nat \<lfloor>10 * v + 1 / 2\<rfloor> in show_nat (n div 10) @ (if n mod 10 = 0 then [] else ''.'' @ show_nat (n mod 10)))"

fun scale_units :: "rat \<Rightarrow> string list \<Rightarrow> rat \<times> string list" where
  "scale_units v (u # w # us) = (if 1024 \<le> v then scale_units (v / 1024) (w # us) else (v, u # w # us))"
| "scale_units v us = (v, us)"

definition formatBytes :: "jsnum \<Rightarrow> string" where
  "formatBytes n = (case n of
      Fin q \<Rightarrow>
        if q \<le> 0 then ''?''
        else (case scale_units q [''B'', ''KB'', ''MB'', ''GB''] of
            (v, us) \<Rightarrow> (if 10 \<le> v \<or> length us = 4 then fixed0 v else fixed1 v) @ hd us)
    | _ \<Rightarrow> ''?'')"

record saved_media =
  sm_file :: string
  sm_path :: string
  sm_type :: string

text \<open>
  The length of the decoded bytes of an attachment, \<open>None\<close> where decoding throws; the media store, \<open>None\<close> where the host has
  none, and its answer, \<open>None\<close> where it throws.
\<close>

record mail_host =
  mh_agent :: string
  mh_channel :: string
  mh_client :: bool
  mh_ready :: bool
  mh_route :: jsval
  mh_bytes :: "jsval \<Rightarrow> nat option"
  mh_store :: "(string \<Rightarrow> string \<Rightarrow> jsval option) option"
  mh_delivered :: "jsval list"
  mh_reply_ok :: bool

definition EMAIL_ATTACHMENT_MAX_BYTES :: nat where "EMAIL_ATTACHMENT_MAX_BYTES = 15 * 1024 * 1024"

definition string_or :: "string \<Rightarrow> jsval \<Rightarrow> string" where
  "string_or d v = (case as_str v of Some (c # s) \<Rightarrow> c # s | _ \<Rightarrow> d)"

definition size_of :: "jsval \<Rightarrow> nat option \<Rightarrow> jsnum" where
  "size_of att len = (case coalesce (jget att ''size'') (jint (case len of Some n \<Rightarrow> int n | None \<Rightarrow> 0)) of JNum n \<Rightarrow> n | _ \<Rightarrow> NaN)"

definition save_one :: "runtime \<Rightarrow> mail_host \<Rightarrow> rat \<Rightarrow> nat \<Rightarrow> jsval \<Rightarrow> string \<times> saved_media option" where
  "save_one R H uid idx att =
     (let filename = string_or (''attachment-'' @ show_nat idx) (jget att ''filename'');
          contentType = string_or ''application/octet-stream'' (jget att ''content_type'');
          len = mh_bytes H (jget att ''content_b64'');
          label = ''- '' @ filename @ '' ('' @ contentType;
          sized = label @ '', '' @ formatBytes (size_of att len) @ ''): ''
      in case len of
           None \<Rightarrow> (label @ ''): (could not decode attachment)'', None)
         | Some n \<Rightarrow>
             if n = 0 then (label @ ''): (could not decode attachment)'', None)
             else if EMAIL_ATTACHMENT_MAX_BYTES < n then (sized @ ''too large to attach'', None)
             else (case mh_store H of
                 None \<Rightarrow> (sized @ ''received (media store unavailable)'', None)
               | Some put \<Rightarrow>
                  (case put contentType filename of
                     None \<Rightarrow> (sized @ ''received (not saved)'', None)
                   | Some result \<Rightarrow>
                       if string_or [] (jget result ''path'') = [] then (sized @ ''received'', None)
                       else (sized @ ''saved as inbound media'',
                         Some \<lparr>sm_file = ''email-'' @ num_to_string R (Fin uid) @ ''-'' @ show_nat idx,
                           sm_path = string_or [] (jget result ''path''),
                           sm_type = (case as_str (jget result ''contentType'') of Some t \<Rightarrow> t | None \<Rightarrow> contentType)\<rparr>))))"

fun save_all :: "runtime \<Rightarrow> mail_host \<Rightarrow> rat \<Rightarrow> nat \<Rightarrow> jsval list \<Rightarrow> (string \<times> saved_media option) list" where
  "save_all R H uid idx [] = []"
| "save_all R H uid idx (att # atts) = save_one R H uid (Suc idx) att # save_all R H uid (Suc idx) atts"

section \<open>The dispatch\<close>

datatype mail_effect =
    Mirror string string
  | MailTurn "guard_target option" string "string list" "string list"
  | MailReply string string string "(string \<times> string) list option" bool

definition mirrorToDm :: "mail_host \<Rightarrow> string \<Rightarrow> mail_effect list" where
  "mirrorToDm H text = (if mh_channel H \<noteq> [] \<and> mh_client H then [Mirror (mh_channel H) text] else [])"

text \<open>The text of a payload the dispatcher delivers.\<close>

definition payload_text :: "jsval \<Rightarrow> string" where
  "payload_text p = string_or (string_or [] (jget p ''body'')) (jget p ''text'')"

definition delivered_blocks :: "mail_host \<Rightarrow> string list" where
  "delivered_blocks H = filter (\<lambda>t. t \<noteq> []) (map payload_text (mh_delivered H))"

definition send_reply :: "(nat \<Rightarrow> string) \<Rightarrow> mail_host \<Rightarrow> email \<Rightarrow> mail_effect list" where
  "send_reply wide H m =
     (let message = reply_body (foldl add_reply_block [] (delivered_blocks H)); subject = replySubject (em_subject m) in
      if message = [] \<or> \<not> mh_client H \<or> mh_agent H = [] then []
      else MailReply (mh_agent H) subject message (buildReplyThreadingHeaders m) (mh_reply_ok H) #
        (if mh_reply_ok H then mirrorToDm H (frameEmailForDm wide ReplySent subject message [] []) else []))"

definition dispatchInboundEmail :: "runtime \<Rightarrow> (nat \<Rightarrow> string) \<Rightarrow> mail_host \<Rightarrow> email \<Rightarrow> mail_effect list" where
  "dispatchInboundEmail R wide H m =
     (if mh_agent H \<noteq> [] \<and> isSelfAddressed m (mh_agent H) \<or> \<not> mh_ready H then []
      else
        (let rows = save_all R H (em_uid m) 0 (em_attachments m); lines = map fst rows; saved = List.map_filter snd rows in
         mirrorToDm H (frameEmailForDm wide Received (em_subject m) (em_body m) (or_text (em_from m) ''(unknown)'')
             (if lines = [] then [] else ''**Attachments:**'' # lines)) @
         [MailTurn (resolveInboundDispatchGuardTarget (mh_route H)) (buildEmailTurnText m lines) (map sm_path saved)
            (filter (\<lambda>t. t \<noteq> []) (map sm_type saved))] @
         send_reply wide H m))"

section \<open>One whole reply\<close>

definition is_mail_reply :: "mail_effect \<Rightarrow> bool" where
  "is_mail_reply e = (case e of MailReply _ _ _ _ _ \<Rightarrow> True | _ \<Rightarrow> False)"

text \<open>
  A reply to the mail made of blocks the agent delivered, each as it is and in their order, in which the characters of every block
  stand one after the other once white space is left out.
\<close>

definition whole_reply :: "mail_host \<Rightarrow> email \<Rightarrow> mail_effect \<Rightarrow> bool" where
  "whole_reply H m e = (case e of
      MailReply a subject message headers ok \<Rightarrow>
        a = mh_agent H \<and> starts_with (lower subject) ''re:'' \<and>
        (\<exists>segments. subseq segments (map trim (delivered_blocks H)) \<and> message = reply_body segments) \<and>
        list_all (\<lambda>b. str_includes (strip_spaces message) (strip_spaces b)) (delivered_blocks H) \<and>
        (case headers of Some hs \<Rightarrow> map snd hs = replicate 2 (the (findHeader (em_headers m) ''message-id'')) | None \<Rightarrow> True)
    | _ \<Rightarrow> False)"

lemma subseq_next:
  assumes "subseq xs ys"
  shows "subseq xs (ys @ [x])" and "subseq [x] (ys @ [x])" and "subseq (xs @ [x]) (ys @ [x])"
proof -
  show "subseq xs (ys @ [x])" using assms by (rule subseq_rev_drop_many)
  show "subseq [x] (ys @ [x])" by (rule subseq_drop_many) simp
  show "subseq (xs @ [x]) (ys @ [x])" using assms by simp
qed

lemma kept_blocks: "subseq (foldl add_reply_block [] bs) (map trim bs)"
proof (induction bs rule: rev_induct)
  case (snoc b bs)
  let ?segs = "foldl add_reply_block [] bs"
  consider "add_reply_block ?segs b = ?segs" | "add_reply_block ?segs b = [trim b]" | "add_reply_block ?segs b = ?segs @ [trim b]"
    unfolding add_reply_block_def Let_def by presburger
  then show ?case using subseq_next [OF snoc, of "trim b"] by cases simp_all
qed simp

lemma lower_re: "starts_with (lower (replySubject s)) ''re:''"
proof -
  have "lower ''Re: '' = ''re: ''" by code_simp
  moreover have "lower ''Re: (no subject)'' = ''re: (no subject)''" by code_simp
  ultimately show ?thesis by (simp add: replySubject_def lower_def Let_def)
qed

lemma replies_of_mirror [simp]: "filter is_mail_reply (mirrorToDm H t) = []"
  by (simp add: mirrorToDm_def is_mail_reply_def)

lemma replies_of_send:
  "filter is_mail_reply (send_reply wide H m) = [] \<or> (\<exists>e. filter is_mail_reply (send_reply wide H m) = [e] \<and> whole_reply H m e)"
proof -
  let ?msg = "reply_body (foldl add_reply_block [] (delivered_blocks H))"
  let ?e = "MailReply (mh_agent H) (replySubject (em_subject m)) ?msg (buildReplyThreadingHeaders m) (mh_reply_ok H)"
  have "list_all (\<lambda>b. str_includes (strip_spaces ?msg) (strip_spaces b)) (delivered_blocks H)"
    using reply_body_holds by (simp add: list_all_iff)
  moreover have "\<exists>segments. subseq segments (map trim (delivered_blocks H)) \<and> ?msg = reply_body segments" using kept_blocks by blast
  ultimately have "whole_reply H m ?e"
    unfolding whole_reply_def mail_effect.case
    by (simp add: lower_re buildReplyThreadingHeaders_def numeral_2_eq_2 split: option.split)
  then show ?thesis by (simp add: send_reply_def is_mail_reply_def Let_def)
qed

text \<open>
  C20: A mail is answered at most once. Of everything a dispatch does, at most one effect is a mail, and that one is a reply in the
  thread of the mail. Its text is made of blocks the agent delivered, unchanged and in their order, and the characters of every
  block it delivered stand in it one after the other once white space is left out: a block is left out only when its
  characters do already. Mail of the agent itself causes nothing.
\<close>

theorem mail_is_answered_once:
  "length (filter is_mail_reply (dispatchInboundEmail R wide H m)) \<le> 1 \<and>
   list_all (whole_reply H m) (filter is_mail_reply (dispatchInboundEmail R wide H m)) \<and>
   (mh_agent H \<noteq> [] \<and> isSelfAddressed m (mh_agent H) \<longrightarrow> dispatchInboundEmail R wide H m = [])"
proof -
  have "filter is_mail_reply (dispatchInboundEmail R wide H m) = [] \<or>
      filter is_mail_reply (dispatchInboundEmail R wide H m) = filter is_mail_reply (send_reply wide H m)"
    by (simp add: dispatchInboundEmail_def Let_def is_mail_reply_def [of "MailTurn _ _ _ _"])
  then show ?thesis using replies_of_send [of wide H m] by (auto simp: dispatchInboundEmail_def)
qed

text \<open>A reply in two blocks that the dispatcher then repeats as one, and a mail from the agent's own address.\<close>

definition demo_mail :: "string \<Rightarrow> email" where
  "demo_mail sender = \<lparr>em_uid = 7, em_from = sender, em_to = ''bot@claw.bits'', em_subject = ''Plan'', em_date = [], em_body = ''Hello'',
     em_attachments = [], em_headers = [(''Message-ID'', JStr ''<1@x>'')]\<rparr>"

definition demo_mail_host :: mail_host where
  "demo_mail_host = \<lparr>mh_agent = ''bot'', mh_channel = [], mh_client = True, mh_ready = True, mh_route = JUndef, mh_bytes = (\<lambda>_. None),
     mh_store = None, mh_delivered = [JObj [(''text'', JStr ''One'')], JObj [(''text'', JStr ''Two'')],
       JObj [(''text'', JStr (''One'' @ [LF, LF] @ ''Two''))]], mh_reply_ok = True\<rparr>"

lemma mail_is_answered_once_witness:
  "dispatchInboundEmail demo_numbers (\<lambda>_. []) demo_mail_host (demo_mail ''Bot <BOT@claw.bits>'') = [] \<and>
   filter is_mail_reply (dispatchInboundEmail demo_numbers (\<lambda>_. []) demo_mail_host (demo_mail ''ann@x.org'')) =
     [MailReply ''bot'' ''Re: Plan'' (''One'' @ [LF, LF] @ ''Two'') (Some [(''In-Reply-To'', ''<1@x>''), (''References'', ''<1@x>'')]) True]"
proof
  have "isSelfAddressed (demo_mail ''Bot <BOT@claw.bits>'') (mh_agent demo_mail_host)" "mh_agent demo_mail_host \<noteq> []" by code_simp+
  then show "dispatchInboundEmail demo_numbers (\<lambda>_. []) demo_mail_host (demo_mail ''Bot <BOT@claw.bits>'') = []"
    using mail_is_answered_once [of demo_numbers "\<lambda>_. []" demo_mail_host "demo_mail ''Bot <BOT@claw.bits>''"] by blast
  let ?m = "demo_mail ''ann@x.org''" and ?H = demo_mail_host
  have "\<not> isSelfAddressed ?m (mh_agent ?H)" by code_simp
  moreover have "reply_body (foldl add_reply_block [] (delivered_blocks ?H)) = ''One'' @ [LF, LF] @ ''Two''" by code_simp
  moreover have "replySubject (em_subject ?m) = ''Re: Plan''" by code_simp
  moreover have "buildReplyThreadingHeaders ?m = Some [(''In-Reply-To'', ''<1@x>''), (''References'', ''<1@x>'')]" by code_simp
  moreover have "mh_ready ?H" "mh_client ?H" "mh_agent ?H = ''bot''" "mh_reply_ok ?H" by code_simp+
  ultimately show "filter is_mail_reply (dispatchInboundEmail demo_numbers (\<lambda>_. []) ?H ?m) =
     [MailReply ''bot'' ''Re: Plan'' (''One'' @ [LF, LF] @ ''Two'') (Some [(''In-Reply-To'', ''<1@x>''), (''References'', ''<1@x>'')]) True]"
    by (simp add: dispatchInboundEmail_def send_reply_def Let_def is_mail_reply_def [of "MailTurn _ _ _ _"] is_mail_reply_def [of "MailReply _ _ _ _ _"])
qed

end
