(* ===== verification/Usage_Collector.thy ===== *)
theory Usage_Collector
  imports Js_Values
begin

text \<open>
  The AI-usage collector and its reporter (\<open>plugin/src/usage/collector.ts\<close>, \<open>usage/reporter.ts\<close>).
  Two gateway hooks append events to one bounded queue per process: \<open>llm_output\<close> gives an event per
  model call, \<open>reply_payload_sending\<close> one aggregate per run, whose tokens are dropped when the run
  was already counted per call. A reporter posts the head of the queue and removes it only after the
  server accepted it. The module's variables are the record \<open>collector\<close>, the hooks and the queue's
  surface are functions on it; the clock is an argument.
\<close>

section \<open>State\<close>

record usage_event =
  event_id :: string
  occurred_at_ms :: int
  ev_model :: string
  ev_provider :: "string option"
  input_tokens :: int
  output_tokens :: int
  cache_read_tokens :: int
  cache_write_tokens :: int
  cost_usd :: "rat option"
  currency :: "string option"

definition MAX_PENDING_EVENTS :: nat where "MAX_PENDING_EVENTS = 5000"

definition MAX_TRACKED_RUNS :: nat where "MAX_TRACKED_RUNS = 512"

record collector =
  queue :: "usage_event list"
  droppedOverflow :: nat
  callSeq :: nat
  runsWithCalls :: "string list"
  seenTurnRuns :: "string list"
  reporterOwner :: "string option"

definition resetUsageCollectorForTests :: collector where
  "resetUsageCollectorForTests = \<lparr>queue = [], droppedOverflow = 0, callSeq = 0, runsWithCalls = [],
     seenTurnRuns = [], reporterOwner = None\<rparr>"

text \<open>Sets iterate in insertion order: past the limit the oldest entries go until the limit is met.\<close>

fun evict_oldest :: "nat \<Rightarrow> 'a list \<Rightarrow> 'a list" where
  "evict_oldest cap [] = []"
| "evict_oldest cap (x # xs) = (if length (x # xs) \<le> cap then x # xs else evict_oldest cap xs)"

definition rememberRun :: "string list \<Rightarrow> string \<Rightarrow> string list" where
  "rememberRun xs runId = evict_oldest MAX_TRACKED_RUNS (sadd runId xs)"

definition enqueue :: "usage_event \<Rightarrow> collector \<Rightarrow> collector" where
  "enqueue e c =
     (let q = queue c @ [e]
      in if MAX_PENDING_EVENTS < length q
         then c\<lparr>queue := drop (length q - MAX_PENDING_EVENTS) q, droppedOverflow := droppedOverflow c + 1\<rparr>
         else c\<lparr>queue := q\<rparr>)"

section \<open>Usage normalisation\<close>

definition INPUT_KEYS :: "string list" where
  "INPUT_KEYS = [''input'', ''input_tokens'', ''prompt_tokens'', ''promptTokens'']"

definition OUTPUT_KEYS :: "string list" where
  "OUTPUT_KEYS = [''output'', ''output_tokens'', ''completion_tokens'', ''completionTokens'']"

definition CACHE_READ_KEYS :: "string list" where
  "CACHE_READ_KEYS = [''cacheRead'', ''cache_read_tokens'', ''cache_read_input_tokens'', ''cacheReadInputTokens'']"

definition CACHE_WRITE_KEYS :: "string list" where
  "CACHE_WRITE_KEYS = [''cacheWrite'', ''cache_write_tokens'', ''cache_creation_input_tokens'', ''cacheCreationInputTokens'']"

definition toCount :: "jsval \<Rightarrow> int" where
  "toCount v = (case as_finite v of None \<Rightarrow> 0 | Some q \<Rightarrow> if q \<le> 0 then 0 else \<lfloor>q\<rfloor>)"

fun readAliased :: "jsval \<Rightarrow> string list \<Rightarrow> int" where
  "readAliased u [] = 0"
| "readAliased u (k # ks) = (if jget u k \<noteq> JUndef then toCount (jget u k) else readAliased u ks)"

definition normalizeUsageTokens :: "jsval \<Rightarrow> (int \<times> int \<times> int \<times> int) option" where
  "normalizeUsageTokens u =
     (if \<not> is_object u then None
      else let i = readAliased u INPUT_KEYS; out = readAliased u OUTPUT_KEYS;
               r = readAliased u CACHE_READ_KEYS; w = readAliased u CACHE_WRITE_KEYS
           in if 0 < i + out + r + w then Some (i, out, r, w) else None)"

definition asString :: "jsval \<Rightarrow> string option" where
  "asString v = (case as_str v of None \<Rightarrow> None | Some s \<Rightarrow> if trim s = [] then None else Some (trim s))"

section \<open>Hooks\<close>

definition llm_run :: "jsval \<Rightarrow> string" where
  "llm_run e = (case asString (jget e ''runId'') of None \<Rightarrow> ''unknown-run'' | Some r \<Rightarrow> r)"

text \<open>The event a model call adds, if its payload names a model and counts any token.\<close>

definition llm_event :: "int \<Rightarrow> jsval \<Rightarrow> collector \<Rightarrow> usage_event option" where
  "llm_event now e c =
     (if \<not> is_object e then None
      else case (asString (jget e ''model''), normalizeUsageTokens (jget e ''usage'')) of
          (Some m, Some (i, out, r, w)) \<Rightarrow>
            Some \<lparr>event_id = ''call:'' @ llm_run e @ '':'' @ show_nat (callSeq c + 1), occurred_at_ms = now,
              ev_model = m, ev_provider = asString (jget e ''provider''),
              input_tokens = i, output_tokens = out, cache_read_tokens = r,
              cache_write_tokens = w, cost_usd = None, currency = None\<rparr>
        | _ \<Rightarrow> None)"

definition recordLlmOutput :: "int \<Rightarrow> jsval \<Rightarrow> collector \<Rightarrow> collector" where
  "recordLlmOutput now e c = (case llm_event now e c of
      None \<Rightarrow> c
    | Some ev \<Rightarrow>
        let c' = enqueue ev (c\<lparr>callSeq := callSeq c + 1\<rparr>)
        in c'\<lparr>runsWithCalls := rememberRun (runsWithCalls c') (llm_run e)\<rparr>)"

definition turn_cost :: "jsval \<Rightarrow> rat option" where
  "turn_cost s = (case as_finite (jget s ''turnUsd'') of None \<Rightarrow> None | Some q \<Rightarrow> if 0 \<le> q then Some q else None)"

text \<open>
  The event a reply adds with the run it settles: the run's tokens, unless they were counted per
  call already, and its cost; nothing for a run seen before.
\<close>

definition reply_event :: "int \<Rightarrow> jsval \<Rightarrow> collector \<Rightarrow> (string \<times> usage_event) option" where
  "reply_event now e c =
     (if \<not> is_object e then None
      else case asString (jget e ''runId'') of
        None \<Rightarrow> None
      | Some runId \<Rightarrow>
          if runId \<in> set (seenTurnRuns c) then None
          else let s = jget e ''usageState''
          in if \<not> is_object s then None
          else case asString (jget s ''model'') of
            None \<Rightarrow> None
          | Some m \<Rightarrow>
              let cost = turn_cost s;
                  event = (\<lambda>(i, out, r, w). \<lparr>event_id = ''turn:'' @ runId, occurred_at_ms = now, ev_model = m,
                    ev_provider = asString (jget s ''provider''),
                    input_tokens = i, output_tokens = out, cache_read_tokens = r, cache_write_tokens = w,
                    cost_usd = cost, currency = (if cost = None then None else Some ''USD'')\<rparr>)
              in if runId \<in> set (runsWithCalls c)
                 then (if cost = None then None else Some (runId, event (0, 0, 0, 0)))
                 else map_option (\<lambda>tokens. (runId, event tokens)) (normalizeUsageTokens (jget s ''usage'')))"

definition recordReplyPayloadSending :: "int \<Rightarrow> jsval \<Rightarrow> collector \<Rightarrow> collector" where
  "recordReplyPayloadSending now e c = (case reply_event now e c of
      None \<Rightarrow> c
    | Some (runId, ev) \<Rightarrow>
        let c' = enqueue ev c
        in c'\<lparr>seenTurnRuns := rememberRun (seenTurnRuns c') runId\<rparr>)"

section \<open>Queue surface, reporter ownership\<close>

definition peekUsageEvents :: "int \<Rightarrow> collector \<Rightarrow> usage_event list" where
  "peekUsageEvents m c = take (nat (max 0 m)) (queue c)"

definition ackUsageEvents :: "usage_event list \<Rightarrow> collector \<Rightarrow> collector" where
  "ackUsageEvents events c =
     (if events = [] then c
      else c\<lparr>queue := filter (\<lambda>e. event_id e \<notin> event_id ` set events) (queue c)\<rparr>)"

definition pendingUsageCount :: "collector \<Rightarrow> nat" where
  "pendingUsageCount c = length (queue c)"

definition droppedUsageCount :: "collector \<Rightarrow> nat" where
  "droppedUsageCount c = droppedOverflow c"

definition claimUsageReporter :: "string \<Rightarrow> collector \<Rightarrow> bool \<times> collector" where
  "claimUsageReporter acc c =
     (if reporterOwner c \<noteq> None \<and> reporterOwner c \<noteq> Some acc then (False, c)
      else (True, c\<lparr>reporterOwner := Some acc\<rparr>))"

definition releaseUsageReporter :: "string \<Rightarrow> collector \<Rightarrow> collector" where
  "releaseUsageReporter acc c = (if reporterOwner c = Some acc then c\<lparr>reporterOwner := None\<rparr> else c)"

section \<open>The reporter\<close>

text \<open>
  One pass of the reporter is a peek, a request, and an acknowledgement of the very batch it peeked.
  While the request is in flight the hooks keep running, so a pass is split at the await: \<open>posting\<close>
  is the batch in flight, \<open>delivered\<close> the batches the server answered with a 2xx.
\<close>

definition USAGE_REPORT_MAX_EVENTS :: int where "USAGE_REPORT_MAX_EVENTS = 500"

record usage_sys =
  col :: collector
  posting :: "usage_event list option"
  delivered :: "usage_event list list"

definition usage_init :: usage_sys where
  "usage_init = \<lparr>col = resetUsageCollectorForTests, posting = None, delivered = []\<rparr>"

text \<open>Up to the await: an empty queue ends the pass at once.\<close>

definition report_begin :: "usage_sys \<Rightarrow> usage_sys" where
  "report_begin s =
     (let events = peekUsageEvents USAGE_REPORT_MAX_EVENTS (col s)
      in if posting s \<noteq> None \<or> events = [] then s else s\<lparr>posting := Some events\<rparr>)"

text \<open>After it: a 2xx acknowledges the batch, a thrown request keeps it queued for the next pass.\<close>

definition report_settle :: "bool \<Rightarrow> usage_sys \<Rightarrow> usage_sys" where
  "report_settle ok s = (case posting s of
      None \<Rightarrow> s
    | Some events \<Rightarrow>
        if ok then s\<lparr>col := ackUsageEvents events (col s), posting := None, delivered := delivered s @ [events]\<rparr>
        else s\<lparr>posting := None\<rparr>)"

definition reportUsageOnce :: "(usage_event list \<Rightarrow> bool) \<Rightarrow> usage_sys \<Rightarrow> nat option \<times> usage_sys" where
  "reportUsageOnce post s =
     (let s1 = report_begin s
      in case posting s1 of
           None \<Rightarrow> (Some 0, s1)
         | Some events \<Rightarrow> (if post events then Some (length events) else None, report_settle (post events) s1))"

text \<open>How the loop starts: without a key it stays idle, and only one account drains the shared queue.\<close>

datatype reporter_start = NoApiKey | OtherAccountReports | ReporterStarted

text \<open>
  The loop of one account until its abort, as the answers the server gave pass by pass; every way
  out of it releases the ownership the account took.
\<close>

fun report_passes :: "(usage_event list \<Rightarrow> bool) list \<Rightarrow> usage_sys \<Rightarrow> usage_sys" where
  "report_passes [] s = s"
| "report_passes (post # posts) s = report_passes posts (snd (reportUsageOnce post s))"

definition runUsageReporter ::
  "bool \<Rightarrow> string \<Rightarrow> (usage_event list \<Rightarrow> bool) list \<Rightarrow> usage_sys \<Rightarrow> reporter_start \<times> usage_sys" where
  "runUsageReporter hasApiKey acc posts s =
     (if \<not> hasApiKey then (NoApiKey, s)
      else case claimUsageReporter acc (col s) of
          (False, c) \<Rightarrow> (OtherAccountReports, s\<lparr>col := c\<rparr>)
        | (True, c) \<Rightarrow>
            let t = report_passes posts (s\<lparr>col := c\<rparr>)
            in (ReporterStarted, t\<lparr>col := releaseUsageReporter acc (col t)\<rparr>))"

datatype usage_step = LlmOutput int jsval | ReplySending int jsval | ReportBegin | ReportSettle bool

fun usage_do :: "usage_sys \<Rightarrow> usage_step \<Rightarrow> usage_sys" where
  "usage_do s (LlmOutput now e) = s\<lparr>col := recordLlmOutput now e (col s)\<rparr>"
| "usage_do s (ReplySending now e) = s\<lparr>col := recordReplyPayloadSending now e (col s)\<rparr>"
| "usage_do s ReportBegin = report_begin s"
| "usage_do s (ReportSettle ok) = report_settle ok s"

section \<open>Bounds and well-formed events\<close>

lemma evict_oldest_drop: "evict_oldest cap xs = drop (length xs - cap) xs"
  by (induction xs) (auto simp: Suc_diff_le)

interpretation usage_runs: bounded_memory rememberRun MAX_TRACKED_RUNS
proof unfold_locales
  fix xs :: "string list" and x y
  have r: "rememberRun xs x = (if x \<in> set xs then drop (length xs - MAX_TRACKED_RUNS) xs
    else drop (Suc (length xs) - MAX_TRACKED_RUNS) (xs @ [x]))"
    by (simp add: rememberRun_def evict_oldest_drop sadd_def)
  have pos: "0 < MAX_TRACKED_RUNS" by (simp add: MAX_TRACKED_RUNS_def)
  show "distinct xs \<Longrightarrow> distinct (rememberRun xs x)" by (simp add: r del: drop_append)
  show "distinct xs \<Longrightarrow> length xs \<le> MAX_TRACKED_RUNS \<Longrightarrow> length (rememberRun xs x) \<le> MAX_TRACKED_RUNS"
    by (auto simp: r)
  show "distinct xs \<Longrightarrow> length xs \<le> MAX_TRACKED_RUNS \<Longrightarrow> x \<in> set (rememberRun xs x)"
    using pos by (auto simp: r)
  show "distinct xs \<Longrightarrow> length xs \<le> MAX_TRACKED_RUNS \<Longrightarrow> x \<notin> set xs \<Longrightarrow> age x (rememberRun xs x) = 0"
    using pos by (auto simp: r age_append)
  show "set (rememberRun xs x) \<subseteq> insert x (set xs)" by (auto simp: r dest: in_set_dropD)
  assume a: "distinct xs" "length xs \<le> MAX_TRACKED_RUNS" "y \<in> set xs" "Suc (age y xs) < MAX_TRACKED_RUNS"
  show "y \<in> set (rememberRun xs x) \<and> age y (rememberRun xs x) \<le> Suc (age y xs)"
  proof (cases "x \<in> set xs \<or> length xs < MAX_TRACKED_RUNS")
    case True
    with a show ?thesis by (cases "x \<in> set xs") (auto simp: r age_append)
  next
    case False
    with a have full: "length xs = MAX_TRACKED_RUNS" and new: "x \<notin> set xs" by auto
    with pos obtain z zs where xs: "xs = z # zs" by (cases xs) auto
    with a full have "y \<in> set zs" by auto
    moreover have "rememberRun xs x = zs @ [x]"
      using new full xs by (auto simp: rememberRun_def evict_oldest_drop sadd_def)
    ultimately show ?thesis using new xs by (auto simp: age_append)
  qed
qed

text \<open>What every queued event satisfies, and the bounds of the module's variables.\<close>

definition event_ok :: "usage_event \<Rightarrow> bool" where
  "event_ok e \<longleftrightarrow> 0 \<le> input_tokens e \<and> 0 \<le> output_tokens e \<and> 0 \<le> cache_read_tokens e \<and> 0 \<le> cache_write_tokens e \<and>
     (0 < input_tokens e + output_tokens e + cache_read_tokens e + cache_write_tokens e \<or> cost_usd e \<noteq> None) \<and>
     ev_model e \<noteq> [] \<and> (\<forall>q. cost_usd e = Some q \<longrightarrow> 0 \<le> q) \<and> (currency e = Some ''USD'' \<longleftrightarrow> cost_usd e \<noteq> None)"

definition collector_ok :: "collector \<Rightarrow> bool" where
  "collector_ok c \<longleftrightarrow> length (queue c) \<le> MAX_PENDING_EVENTS \<and> (\<forall>e \<in> set (queue c). event_ok e) \<and>
     distinct (runsWithCalls c) \<and> length (runsWithCalls c) \<le> MAX_TRACKED_RUNS \<and>
     distinct (seenTurnRuns c) \<and> length (seenTurnRuns c) \<le> MAX_TRACKED_RUNS"

definition usage_ok :: "usage_sys \<Rightarrow> bool" where
  "usage_ok s \<longleftrightarrow> collector_ok (col s) \<and>
     (\<forall>b. posting s = Some b \<longrightarrow> b \<noteq> [] \<and> int (length b) \<le> USAGE_REPORT_MAX_EVENTS \<and> (\<forall>e \<in> set b. event_ok e)) \<and>
     (\<forall>b \<in> set (delivered s). int (length b) \<le> USAGE_REPORT_MAX_EVENTS \<and> (\<forall>e \<in> set b. event_ok e))"

lemma toCount_nonneg: "0 \<le> toCount v"
  by (auto simp: toCount_def split: option.splits)

lemma readAliased_nonneg: "0 \<le> readAliased u ks"
  by (induction ks) (auto simp: toCount_nonneg)

lemma normalizeUsageTokens_pos:
  "normalizeUsageTokens u = Some (i, out, r, w) \<Longrightarrow> 0 \<le> i \<and> 0 \<le> out \<and> 0 \<le> r \<and> 0 \<le> w \<and> 0 < i + out + r + w"
  by (auto simp: normalizeUsageTokens_def Let_def readAliased_nonneg split: if_splits)

lemma asString_nonempty: "asString v = Some s \<Longrightarrow> s \<noteq> []"
  by (auto simp: asString_def split: option.splits if_splits)

lemma turn_cost_nonneg: "turn_cost s = Some q \<Longrightarrow> 0 \<le> q"
  by (auto simp: turn_cost_def split: option.splits if_splits)

lemma llm_event_ok: "llm_event now e c = Some ev \<Longrightarrow> event_ok ev"
  by (auto simp: llm_event_def event_ok_def dest: normalizeUsageTokens_pos asString_nonempty
      split: if_splits option.splits)

lemma reply_event_ok: "reply_event now e c = Some (r, ev) \<Longrightarrow> event_ok ev"
  by (auto simp: reply_event_def event_ok_def Let_def turn_cost_nonneg asString_nonempty
      dest!: normalizeUsageTokens_pos split: if_splits option.splits)

lemma enqueue_ok: "collector_ok c \<Longrightarrow> event_ok e \<Longrightarrow> collector_ok (enqueue e c)"
  by (auto simp: enqueue_def collector_ok_def Let_def dest: in_set_dropD)

lemma record_ok:
  "collector_ok c \<Longrightarrow> collector_ok (recordLlmOutput now e c)"
  "collector_ok c \<Longrightarrow> collector_ok (recordReplyPayloadSending now e c)"
proof -
  assume c: "collector_ok c"
  have upd: "collector_ok c' \<Longrightarrow> collector_ok (c'\<lparr>runsWithCalls := rememberRun (runsWithCalls c') r\<rparr>)"
    "collector_ok c' \<Longrightarrow> collector_ok (c'\<lparr>seenTurnRuns := rememberRun (seenTurnRuns c') r\<rparr>)"
    "collector_ok (c'\<lparr>callSeq := n\<rparr>) = collector_ok c'" for c' r n
    by (auto simp: collector_ok_def usage_runs.remember_distinct usage_runs.remember_bound)
  show "collector_ok (recordLlmOutput now e c)"
    using c by (auto simp: recordLlmOutput_def Let_def upd enqueue_ok dest: llm_event_ok split: option.split)
  show "collector_ok (recordReplyPayloadSending now e c)"
    using c by (auto simp: recordReplyPayloadSending_def Let_def upd enqueue_ok dest: reply_event_ok
        split: option.split)
qed

lemma usage_ok_step: "usage_ok s \<Longrightarrow> usage_ok (usage_do s st)"
proof (cases st)
  case ReportBegin
  then show "usage_ok s \<Longrightarrow> ?thesis"
    by (auto simp: report_begin_def usage_ok_def collector_ok_def peekUsageEvents_def
        USAGE_REPORT_MAX_EVENTS_def Let_def dest!: in_set_takeD)
next
  case (ReportSettle ok)
  then show "usage_ok s \<Longrightarrow> ?thesis"
    by (cases "posting s") (auto simp: report_settle_def usage_ok_def collector_ok_def ackUsageEvents_def
        intro: order_trans [OF length_filter_le])
qed (auto simp: usage_ok_def record_ok)

interpretation usage: transition_system usage_init usage_do usage_ok
proof unfold_locales
  show "usage_ok usage_init"
    by (simp add: usage_init_def usage_ok_def collector_ok_def resetUsageCollectorForTests_def)
qed (rule usage_ok_step)

text \<open>
  After any sequence of hook calls and report passes, in whatever order they interleave, the
  queue holds at most 5000 events and each run memory at most 512 distinct runs; every event queued,
  in flight or delivered has non-negative token counts, a model, and either a token or a cost (USD
  exactly when it has a cost), and no batch exceeds the transport's 500 events.
\<close>

theorem usage_state_invariant: "usage_ok (run usage_do usage_init es)"
  by (rule usage.good_run)

section \<open>At-least-once delivery\<close>

text \<open>The event a hook call adds to the queue.\<close>

fun offered :: "usage_sys \<Rightarrow> usage_step \<Rightarrow> usage_event option" where
  "offered s (LlmOutput now e) = llm_event now e (col s)"
| "offered s (ReplySending now e) = map_option snd (reply_event now e (col s))"
| "offered s _ = None"

fun offered_ids :: "usage_sys \<Rightarrow> usage_step list \<Rightarrow> string set" where
  "offered_ids s [] = {}"
| "offered_ids s (st # sts) =
     (case offered s st of None \<Rightarrow> {} | Some ev \<Rightarrow> {event_id ev}) \<union> offered_ids (usage_do s st) sts"

definition held_ids :: "usage_sys \<Rightarrow> string set" where
  "held_ids s = event_id ` set (queue (col s)) \<union> event_id ` set (concat (delivered s))"

lemma queue_enqueue: "droppedOverflow (enqueue e c) = droppedOverflow c \<Longrightarrow> queue (enqueue e c) = queue c @ [e]"
  by (auto simp: enqueue_def Let_def split: if_splits)

lemma dropped_enqueue: "droppedOverflow c \<le> droppedOverflow (enqueue e c)"
  by (simp add: enqueue_def Let_def)

lemma dropped_mono: "droppedOverflow (col s) \<le> droppedOverflow (col (usage_do s st))"
  using dropped_enqueue
  by (cases st) (auto simp: recordLlmOutput_def recordReplyPayloadSending_def Let_def report_begin_def
      report_settle_def ackUsageEvents_def split: option.splits intro: order_trans [OF _ dropped_enqueue])

lemma dropped_mono_run: "droppedOverflow (col s) \<le> droppedOverflow (col (run usage_do s sts))"
  by (induction sts arbitrary: s) (auto intro: order_trans [OF dropped_mono])

lemma held_step:
  assumes "droppedOverflow (col (usage_do s st)) = droppedOverflow (col s)"
  shows "held_ids s \<union> (case offered s st of None \<Rightarrow> {} | Some ev \<Rightarrow> {event_id ev}) \<subseteq> held_ids (usage_do s st)"
proof (cases st)
  case (LlmOutput now e)
  with assms show ?thesis
    by (auto simp: held_ids_def recordLlmOutput_def Let_def queue_enqueue split: option.splits)
next
  case (ReplySending now e)
  with assms show ?thesis
    by (auto simp: held_ids_def recordReplyPayloadSending_def Let_def queue_enqueue split: option.splits)
next
  case ReportBegin
  then show ?thesis by (auto simp: held_ids_def report_begin_def Let_def)
next
  case (ReportSettle ok)
  then show ?thesis
    by (cases "posting s") (auto simp: held_ids_def report_settle_def ackUsageEvents_def)
qed

text \<open>
  C1: As long as the queue never overflowed, no usage event is lost: after any interleaving of hooks
  and passes, failed and successful, the id of every event a hook ever added is still queued or was
  delivered in a batch the server acknowledged.
\<close>

theorem usage_at_least_once:
  assumes "droppedUsageCount (col (run usage_do s sts)) = droppedUsageCount (col s)"
  shows "held_ids s \<union> offered_ids s sts \<subseteq> held_ids (run usage_do s sts)"
  using assms
proof (induction sts arbitrary: s)
  case (Cons st sts)
  let ?t = "usage_do s st"
  have d: "droppedOverflow (col ?t) = droppedOverflow (col s)"
    using Cons.prems dropped_mono [of s st] dropped_mono_run [of ?t sts] by (simp add: droppedUsageCount_def)
  with Cons have "held_ids ?t \<union> offered_ids ?t sts \<subseteq> held_ids (run usage_do ?t sts)"
    by (simp add: droppedUsageCount_def)
  with held_step [OF d] show ?case by auto
qed simp

section \<open>No double count\<close>

fun is_llm :: "usage_step \<Rightarrow> bool" where
  "is_llm (LlmOutput now e) = True"
| "is_llm _ = False"

lemma runsWithCalls_enqueue [simp]: "runsWithCalls (enqueue ev c) = runsWithCalls c"
  by (simp add: enqueue_def Let_def)

lemma runsWithCalls_step:
  "runsWithCalls (col (usage_do s st)) = (case st of
     LlmOutput now e \<Rightarrow> if llm_event now e (col s) = None then runsWithCalls (col s)
                        else rememberRun (runsWithCalls (col s)) (llm_run e)
   | _ \<Rightarrow> runsWithCalls (col s))"
  by (cases st) (auto simp: recordLlmOutput_def recordReplyPayloadSending_def report_begin_def
      report_settle_def ackUsageEvents_def Let_def split: option.splits)

lemma runsWithCalls_run:
  "\<exists>rs. runsWithCalls (col (run usage_do s sts)) = foldl rememberRun (runsWithCalls (col s)) rs \<and>
        length rs \<le> length (filter is_llm sts)"
proof (induction sts arbitrary: s)
  case Nil
  show ?case by (intro exI [of _ "[]"]) simp
next
  case (Cons st sts)
  obtain rs where rs: "runsWithCalls (col (run usage_do (usage_do s st) sts)) =
      foldl rememberRun (runsWithCalls (col (usage_do s st))) rs" "length rs \<le> length (filter is_llm sts)"
    using Cons by blast
  show ?case
  proof (cases "runsWithCalls (col (usage_do s st)) = runsWithCalls (col s)")
    case True
    with rs show ?thesis by (intro exI [of _ rs]) auto
  next
    case False
    then have "\<exists>now e. st = LlmOutput now e \<and>
      runsWithCalls (col (usage_do s st)) = rememberRun (runsWithCalls (col s)) (llm_run e)"
      unfolding runsWithCalls_step by (cases st) (auto split: if_splits)
    then obtain now e where "st = LlmOutput now e"
      "runsWithCalls (col (usage_do s st)) = rememberRun (runsWithCalls (col s)) (llm_run e)" by blast
    with rs show ?thesis by (intro exI [of _ "llm_run e # rs"]) auto
  qed
qed

lemma reply_event_counted:
  assumes "reply_event now e c = Some (r, ev)" and "r \<in> set (runsWithCalls c)"
  shows "input_tokens ev = 0 \<and> output_tokens ev = 0 \<and> cache_read_tokens ev = 0 \<and> cache_write_tokens ev = 0 \<and>
    cost_usd ev \<noteq> None"
  using assms by (auto simp: reply_event_def Let_def split: if_splits option.splits)

lemma reply_event_id: "reply_event now e c = Some (r, ev) \<Longrightarrow> event_id ev = ''turn:'' @ r"
  by (auto simp: reply_event_def Let_def split: if_splits option.splits prod.splits)

text \<open>
  Tokens are never counted twice. Once a run's first model call was recorded, and while fewer
  than 512 further model calls are, the aggregate event its reply adds carries no tokens, only the
  turn's cost, whatever else the hooks and the reporter do in between.
\<close>

theorem aggregate_after_calls_is_cost_only:
  assumes "usage_ok s" and "offered s (LlmOutput now e) = Some call" and "llm_run e \<notin> set (runsWithCalls (col s))"
    and "length (filter is_llm sts) < MAX_TRACKED_RUNS"
    and "offered (run usage_do (usage_do s (LlmOutput now e)) sts) (ReplySending now' e') = Some turn"
    and "event_id turn = ''turn:'' @ llm_run e"
  shows "input_tokens turn = 0 \<and> output_tokens turn = 0 \<and> cache_read_tokens turn = 0 \<and>
    cache_write_tokens turn = 0 \<and> cost_usd turn \<noteq> None"
proof -
  let ?r = "llm_run e" and ?t = "usage_do s (LlmOutput now e)"
  have ok: "distinct (runsWithCalls (col s))" "length (runsWithCalls (col s)) \<le> MAX_TRACKED_RUNS"
    using assms(1) by (simp_all add: usage_ok_def collector_ok_def)
  have first: "runsWithCalls (col ?t) = rememberRun (runsWithCalls (col s)) ?r"
    using assms(2) by (simp only: runsWithCalls_step) simp
  obtain rs where rs: "runsWithCalls (col (run usage_do ?t sts)) = foldl rememberRun (runsWithCalls (col ?t)) rs"
    "length rs \<le> length (filter is_llm sts)" using runsWithCalls_run by blast
  have "?r \<in> set (foldl rememberRun (runsWithCalls (col ?t)) rs)"
    unfolding first using ok assms(3,4) rs(2)
    by (intro usage_runs.retained) (simp_all add: usage_runs.remember_distinct usage_runs.remember_bound
        usage_runs.remember_new usage_runs.remember_fresh)
  then have remembered: "?r \<in> set (runsWithCalls (col (run usage_do ?t sts)))" by (simp only: rs(1))
  obtain r where r: "reply_event now' e' (col (run usage_do ?t sts)) = Some (r, turn)"
    using assms(5) by auto
  with assms(6) have "r = ?r" by (auto dest: reply_event_id)
  with reply_event_counted [OF r] remembered show ?thesis by simp
qed

definition usage_demo_call :: jsval where
  "usage_demo_call = JObj [(''runId'', JStr ''r1''), (''model'', JStr ''gpt''),
     (''usage'', JObj [(''input'', jint 12), (''output'', jint 3)])]"

definition usage_demo_reply :: jsval where
  "usage_demo_reply = JObj [(''runId'', JStr ''r1''), (''usageState'', JObj [(''model'', JStr ''gpt''),
     (''usage'', JObj [(''input'', jint 12), (''output'', jint 3)]), (''turnUsd'', JNum (Fin (1/4)))])]"

definition usage_demo_sts :: "usage_step list" where
  "usage_demo_sts = [ReportBegin, LlmOutput 8 usage_demo_call, ReportSettle False]"

lemma usage_demo_eval:
  "map_option event_id (offered usage_init (LlmOutput 7 usage_demo_call)) = Some ''call:r1:1''"
  "llm_run usage_demo_call = ''r1''"
  "map_option event_id (offered (run usage_do (usage_do usage_init (LlmOutput 7 usage_demo_call)) usage_demo_sts)
     (ReplySending 9 usage_demo_reply)) = Some ''turn:r1''"
  by code_simp+

theorem usage_at_least_once_witness:
  "''call:r1:1'' \<in> held_ids (run usage_do usage_init (LlmOutput 7 usage_demo_call # usage_demo_sts))"
proof -
  have "droppedUsageCount (col (run usage_do usage_init (LlmOutput 7 usage_demo_call # usage_demo_sts))) =
      droppedUsageCount (col usage_init)"
    by code_simp
  then have "offered_ids usage_init (LlmOutput 7 usage_demo_call # usage_demo_sts)
      \<subseteq> held_ids (run usage_do usage_init (LlmOutput 7 usage_demo_call # usage_demo_sts))"
    using usage_at_least_once by blast
  moreover have "''call:r1:1'' \<in> offered_ids usage_init (LlmOutput 7 usage_demo_call # usage_demo_sts)"
    using usage_demo_eval(1) by auto
  ultimately show ?thesis by blast
qed

theorem aggregate_after_calls_is_cost_only_witness:
  "\<exists>turn. offered (run usage_do (usage_do usage_init (LlmOutput 7 usage_demo_call)) usage_demo_sts)
       (ReplySending 9 usage_demo_reply) = Some turn \<and> input_tokens turn = 0 \<and> cost_usd turn \<noteq> None"
proof -
  obtain call turn where "offered usage_init (LlmOutput 7 usage_demo_call) = Some call"
    and turn: "offered (run usage_do (usage_do usage_init (LlmOutput 7 usage_demo_call)) usage_demo_sts)
       (ReplySending 9 usage_demo_reply) = Some turn" "event_id turn = ''turn:r1''"
    using usage_demo_eval(1,3) by blast
  moreover have "llm_run usage_demo_call \<notin> set (runsWithCalls (col usage_init))"
    by (simp add: usage_init_def resetUsageCollectorForTests_def)
  moreover have "length (filter is_llm usage_demo_sts) < MAX_TRACKED_RUNS"
    by (simp add: usage_demo_sts_def MAX_TRACKED_RUNS_def)
  ultimately show ?thesis
    using aggregate_after_calls_is_cost_only [OF usage.good_init, of 7 usage_demo_call call usage_demo_sts
        9 usage_demo_reply turn] usage_demo_eval(2) by auto
qed

end
