(* ===== verification/Model_Choice.thy ===== *)
theory Model_Choice
  imports Js_Values
begin

text \<open>
  The model and thinking level a user picks in the chat app, converged onto a session entry or the
  host's agent roster (\<open>plugin/src/model-choice.ts\<close>). A patch field is \<open>None\<close> for \<open>undefined\<close> (leave),
  \<open>Some None\<close> for \<open>null\<close> (clear) and \<open>Some (Some v)\<close> for a value. The host's own writers
  (\<open>applyModelOverrideWithAuthProfileCompatibility\<close>, \<open>setAgentEffectiveModelPrimary\<close>,
  \<open>normalizeThinkingLevel\<close>) are parameters.
\<close>

section \<open>Plans\<close>

record model_choice =
  c_model :: "string option"
  c_thinking :: "string option"

definition INHERIT :: model_choice where "INHERIT = \<lparr>c_model = None, c_thinking = None\<rparr>"

definition choiceOf :: "jsval \<Rightarrow> jsval \<Rightarrow> model_choice" where
  "choiceOf model thinking = \<lparr>c_model = as_str model, c_thinking = as_str thinking\<rparr>"

record choice_patch =
  p_model :: "string option option"
  p_thinking :: "string option option"
  p_applied :: model_choice

definition nextValue :: "string option \<Rightarrow> string option \<Rightarrow> string option \<Rightarrow> string option option" where
  "nextValue current desired applied =
     (if desired \<noteq> None then (if current = desired then None else Some desired)
      else if current \<noteq> None \<and> current = applied then Some None else None)"

definition planChoice :: "model_choice \<Rightarrow> model_choice \<Rightarrow> model_choice \<Rightarrow> choice_patch option" where
  "planChoice current desired applied =
     (let m = nextValue (c_model current) (c_model desired) (c_model applied);
          t = nextValue (c_thinking current) (c_thinking desired) (c_thinking applied)
      in if m = None \<and> t = None then None
         else Some \<lparr>p_model = m, p_thinking = t,
           p_applied = \<lparr>c_model = (case m of None \<Rightarrow> c_model applied | Some v \<Rightarrow> v),
                        c_thinking = (case t of None \<Rightarrow> c_thinking applied | Some v \<Rightarrow> v)\<rparr>\<rparr>)"

text \<open>What a patched field holds.\<close>

definition patched :: "string option \<Rightarrow> string option option \<Rightarrow> string option" where
  "patched current p = (case p of None \<Rightarrow> current | Some v \<Rightarrow> v)"

lemma nextValue_settles: "nextValue c d a = Some v \<Longrightarrow> nextValue (patched c (Some v)) d v = None"
  "nextValue c d a = None \<Longrightarrow> nextValue (patched c None) d a = None"
  by (auto simp: nextValue_def patched_def split: if_splits)

lemma patched_desired: "d \<noteq> None \<Longrightarrow> patched c (nextValue c d a) = d"
  by (auto simp: nextValue_def patched_def)

lemma planChoice_settles:
  assumes "planChoice current desired applied = Some p"
  shows "planChoice \<lparr>c_model = patched (c_model current) (p_model p), c_thinking = patched (c_thinking current) (p_thinking p)\<rparr>
     desired (p_applied p) = None"
  using assms
  by (cases "nextValue (c_model current) (c_model desired) (c_model applied)";
      cases "nextValue (c_thinking current) (c_thinking desired) (c_thinking applied)")
    (auto simp: planChoice_def Let_def nextValue_settles)

section \<open>Sessions\<close>

record session_entry =
  fallbackProvider :: "string option"
  fallbackModel :: "string option"
  providerOverride :: "string option"
  modelOverride :: "string option"
  modelProvider :: "string option"
  selectionLocked :: bool
  thinkingLevel :: "string option"
  stamp :: jsval

definition set_str :: "string option \<Rightarrow> bool" where
  "set_str s = (s \<noteq> None \<and> s \<noteq> Some [])"

definition sessionModel :: "session_entry option \<Rightarrow> string option" where
  "sessionModel entry = (case entry of
      None \<Rightarrow> None
    | Some e \<Rightarrow>
        if set_str (fallbackProvider e) \<and> set_str (fallbackModel e)
        then Some (the (fallbackProvider e) @ ''/'' @ the (fallbackModel e))
        else if set_str (providerOverride e) \<and> set_str (modelOverride e)
        then Some (the (providerOverride e) @ ''/'' @ the (modelOverride e)) else None)"

text \<open>Without a slash \<open>indexOf\<close> is -1: the provider loses the last character and the model is the whole reference.\<close>

definition splitRef :: "string \<Rightarrow> string \<times> string" where
  "splitRef ref = (case index_of ref ''/'' of
      None \<Rightarrow> (butlast ref, ref)
    | Some i \<Rightarrow> (take i ref, drop (i + 1) ref))"

definition appliedChoice :: "session_entry option \<Rightarrow> model_choice" where
  "appliedChoice entry = (case entry of
      None \<Rightarrow> INHERIT
    | Some e \<Rightarrow> if is_object (stamp e) \<and> \<not> is_array (stamp e)
        then choiceOf (jget (stamp e) ''model'') (jget (stamp e) ''thinking'') else INHERIT)"

definition planSessionPatch :: "session_entry option \<Rightarrow> model_choice \<Rightarrow> choice_patch option" where
  "planSessionPatch entry desired =
     (let model = (case entry of
          Some e \<Rightarrow> if selectionLocked e then c_model desired else sessionModel entry
        | None \<Rightarrow> sessionModel entry)
      in planChoice \<lparr>c_model = model, c_thinking = (case entry of None \<Rightarrow> None | Some e \<Rightarrow> thinkingLevel e)\<rparr>
           desired (appliedChoice entry))"

definition js_opt :: "string option \<Rightarrow> jsval" where
  "js_opt s = (case s of None \<Rightarrow> JNull | Some v \<Rightarrow> JStr v)"

text \<open>
  The host's writer gets the entry, its current provider, and the selection with whether it is the
  agent's default.
\<close>

type_synonym override_writer = "session_entry \<Rightarrow> string \<Rightarrow> string \<times> string \<Rightarrow> bool \<Rightarrow> session_entry"

definition update_entry ::
  "override_writer \<Rightarrow> string \<times> string \<Rightarrow> model_choice \<Rightarrow> session_entry \<Rightarrow> session_entry option" where
  "update_entry override fallback desired entry = (case planSessionPatch (Some entry) desired of
      None \<Rightarrow> None
    | Some p \<Rightarrow>
        let prov = (case providerOverride entry of Some x \<Rightarrow> x
                    | None \<Rightarrow> (case modelProvider entry of Some x \<Rightarrow> x | None \<Rightarrow> fst fallback));
            e1 = (case p_model p of
                None \<Rightarrow> entry
              | Some None \<Rightarrow> override entry prov fallback True
              | Some (Some m) \<Rightarrow> override entry prov (splitRef m) False);
            e2 = (case p_thinking p of None \<Rightarrow> e1 | Some t \<Rightarrow> e1\<lparr>thinkingLevel := t\<rparr>)
        in Some (e2\<lparr>stamp := JObj [(''model'', js_opt (c_model (p_applied p))), (''thinking'', js_opt (c_thinking (p_applied p)))]\<rparr>))"

text \<open>
  What the host's writer documents: an explicit selection becomes the session's model, the default
  clears the override, and neither touches the lock, the thinking level or the plugins' data.
\<close>

definition writes_selection :: "override_writer \<Rightarrow> bool" where
  "writes_selection override \<longleftrightarrow> (\<forall>e cur sel isdef.
     (isdef \<longrightarrow> sessionModel (Some (override e cur sel isdef)) = None) \<and>
     (\<not> isdef \<and> fst sel \<noteq> [] \<and> snd sel \<noteq> [] \<longrightarrow>
        sessionModel (Some (override e cur sel isdef)) = Some (fst sel @ ''/'' @ snd sel)) \<and>
     selectionLocked (override e cur sel isdef) = selectionLocked e \<and>
     thinkingLevel (override e cur sel isdef) = thinkingLevel e \<and> stamp (override e cur sel isdef) = stamp e)"

lemma writes_selectionD:
  assumes "writes_selection override"
  shows "(isdef \<longrightarrow> sessionModel (Some (override e cur sel isdef)) = None) \<and>
     (\<not> isdef \<and> fst sel \<noteq> [] \<and> snd sel \<noteq> [] \<longrightarrow>
        sessionModel (Some (override e cur sel isdef)) = Some (fst sel @ ''/'' @ snd sel)) \<and>
     selectionLocked (override e cur sel isdef) = selectionLocked e \<and>
     thinkingLevel (override e cur sel isdef) = thinkingLevel e \<and> stamp (override e cur sel isdef) = stamp e"
  using assms unfolding writes_selection_def by (elim allE)

text \<open>A reference with a provider and a model.\<close>

definition is_model_ref :: "string \<Rightarrow> bool" where
  "is_model_ref m = (str_includes m ''/'' \<and> fst (splitRef m) \<noteq> [] \<and> snd (splitRef m) \<noteq> [])"

lemma index_of_slash: "str_includes ref [c] \<Longrightarrow> \<exists>i. index_of ref [c] = Some i \<and> take i ref @ c # drop (i + 1) ref = ref"
  by (induction ref) (auto simp: str_includes_def split: if_splits)

lemma splitRef_join: "str_includes ref ''/'' \<Longrightarrow> fst (splitRef ref) @ ''/'' @ snd (splitRef ref) = ref"
  using index_of_slash [of ref "CHR ''/''"] by (auto simp: splitRef_def)

lemma applied_stamp [simp]:
  "appliedChoice (Some (e\<lparr>stamp := JObj [(''model'', js_opt m), (''thinking'', js_opt t)]\<rparr>)) = \<lparr>c_model = m, c_thinking = t\<rparr>"
  by (cases m; cases t) (simp_all add: appliedChoice_def choiceOf_def js_opt_def)

lemma sessionModel_frame [simp]:
  "sessionModel (Some (e\<lparr>stamp := v\<rparr>)) = sessionModel (Some e)" "sessionModel (Some (e\<lparr>thinkingLevel := t\<rparr>)) = sessionModel (Some e)"
  by (simp_all add: sessionModel_def)

text \<open>
  A user's choice converges in one write. After a session entry is updated for a choice whose
  model, if any, is a provider/model reference, the entry has exactly what was chosen (where the
  session does not lock its model), and planning again changes nothing.
\<close>

theorem session_choice_converges:
  assumes "writes_selection override" and "update_entry override fallback desired e = Some e'"
    and "\<And>m. c_model desired = Some m \<Longrightarrow> is_model_ref m"
  shows "planSessionPatch (Some e') desired = None \<and>
    (c_thinking desired \<noteq> None \<longrightarrow> thinkingLevel e' = c_thinking desired) \<and>
    (c_model desired \<noteq> None \<and> \<not> selectionLocked e \<longrightarrow> sessionModel (Some e') = c_model desired)"
proof -
  from assms(2) obtain p where p: "planSessionPatch (Some e) desired = Some p" by (auto simp: update_entry_def split: option.splits)
  let ?cur = "\<lparr>c_model = (if selectionLocked e then c_model desired else sessionModel (Some e)), c_thinking = thinkingLevel e\<rparr>"
  have pc: "planChoice ?cur desired (appliedChoice (Some e)) = Some p" using p by (simp add: planSessionPatch_def Let_def)
  have pm: "p_model p = nextValue (c_model ?cur) (c_model desired) (c_model (appliedChoice (Some e)))"
    and pt: "p_thinking p = nextValue (c_thinking ?cur) (c_thinking desired) (c_thinking (appliedChoice (Some e)))"
    using pc by (auto simp: planChoice_def Let_def split: if_splits)
  have slash: "is_model_ref m" if "p_model p = Some (Some m)" for m
    using that assms(3) pm by (auto simp: nextValue_def split: if_splits)
  have locked: "p_model p = None \<or> p_model p = Some None" if "selectionLocked e"
    using that pm by (auto simp: nextValue_def)
  have ov: "sessionModel (Some (override e c sel True)) = None"
    "is_model_ref m \<Longrightarrow> sessionModel (Some (override e c (splitRef m) False)) = Some m"
    "selectionLocked (override e c sel b) = selectionLocked e" "thinkingLevel (override e c sel b) = thinkingLevel e" for c sel b m
  proof -
    note w = writes_selectionD [OF assms(1)]
    show "sessionModel (Some (override e c sel True)) = None" "selectionLocked (override e c sel b) = selectionLocked e"
      "thinkingLevel (override e c sel b) = thinkingLevel e"
      using w [where e = e and cur = c and sel = sel and isdef = True] w [where e = e and cur = c and sel = sel and isdef = b] by simp_all
    assume m: "is_model_ref m"
    then have "sessionModel (Some (override e c (splitRef m) False)) = Some (fst (splitRef m) @ ''/'' @ snd (splitRef m))"
      using w [where e = e and cur = c and sel = "splitRef m" and isdef = False] unfolding is_model_ref_def by simp
    with m show "sessionModel (Some (override e c (splitRef m) False)) = Some m"
      using splitRef_join by (simp add: is_model_ref_def)
  qed
  obtain e1 where e1: "sessionModel (Some e1) = patched (sessionModel (Some e)) (p_model p)"
      "selectionLocked e1 = selectionLocked e" "thinkingLevel e1 = thinkingLevel e"
    and e'_def: "e' = (case p_thinking p of None \<Rightarrow> e1 | Some t \<Rightarrow> e1\<lparr>thinkingLevel := t\<rparr>)
        \<lparr>stamp := JObj [(''model'', js_opt (c_model (p_applied p))), (''thinking'', js_opt (c_thinking (p_applied p)))]\<rparr>"
  proof -
    let ?prov = "case providerOverride e of Some x \<Rightarrow> x | None \<Rightarrow> (case modelProvider e of Some x \<Rightarrow> x | None \<Rightarrow> fst fallback)"
    let ?e1 = "case p_model p of None \<Rightarrow> e | Some None \<Rightarrow> override e ?prov fallback True
      | Some (Some m) \<Rightarrow> override e ?prov (splitRef m) False"
    have "sessionModel (Some ?e1) = patched (sessionModel (Some e)) (p_model p)"
      using slash ov(1,2) by (simp add: patched_def split: option.split)
    moreover have "selectionLocked ?e1 = selectionLocked e" "thinkingLevel ?e1 = thinkingLevel e"
      by (simp_all add: ov split: option.split)
    moreover from assms(2) p have "(case p_thinking p of None \<Rightarrow> ?e1 | Some t \<Rightarrow> ?e1\<lparr>thinkingLevel := t\<rparr>)
        \<lparr>stamp := JObj [(''model'', js_opt (c_model (p_applied p))), (''thinking'', js_opt (c_thinking (p_applied p)))]\<rparr> = e'"
      unfolding update_entry_def Let_def by simp
    ultimately show thesis using that by blast
  qed
  have e': "sessionModel (Some e') = patched (sessionModel (Some e)) (p_model p)" "selectionLocked e' = selectionLocked e"
    "thinkingLevel e' = patched (thinkingLevel e) (p_thinking p)" "appliedChoice (Some e') = p_applied p"
    unfolding e'_def using e1 by (cases "p_thinking p"; simp add: patched_def)+
  have "patched (c_model desired) (p_model p) = c_model desired" if "selectionLocked e"
    using that pm by (auto simp: patched_def nextValue_def)
  then have "planSessionPatch (Some e') desired = None"
    using planChoice_settles [OF pc] e' by (cases "selectionLocked e") (auto simp: planSessionPatch_def Let_def)
  moreover have "c_thinking desired \<noteq> None \<longrightarrow> thinkingLevel e' = c_thinking desired"
    using e' pt patched_desired by simp
  moreover have "c_model desired \<noteq> None \<and> \<not> selectionLocked e \<longrightarrow> sessionModel (Some e') = c_model desired"
    using e' pm patched_desired by simp
  ultimately show ?thesis by blast
qed

definition demo_override :: override_writer where
  "demo_override e cur sel isdef = e\<lparr>fallbackProvider := None, fallbackModel := None,
     providerOverride := (if isdef then None else Some (fst sel)), modelOverride := (if isdef then None else Some (snd sel))\<rparr>"

definition demo_entry :: session_entry where
  "demo_entry = \<lparr>fallbackProvider = None, fallbackModel = None, providerOverride = Some ''x'', modelOverride = Some ''small'',
     modelProvider = None, selectionLocked = False, thinkingLevel = Some ''low'', stamp = JUndef\<rparr>"

theorem session_choice_converges_witness:
  "planSessionPatch (update_entry demo_override (''d'', ''m'') \<lparr>c_model = Some ''acme/large'', c_thinking = None\<rparr> demo_entry)
     \<lparr>c_model = Some ''acme/large'', c_thinking = None\<rparr> = None"
proof -
  let ?d = "\<lparr>c_model = Some ''acme/large'', c_thinking = None\<rparr>"
  have w: "writes_selection demo_override"
    by (simp add: writes_selection_def demo_override_def sessionModel_def set_str_def)
  obtain e' where u: "update_entry demo_override (''d'', ''m'') ?d demo_entry = Some e'"
  proof -
    have "update_entry demo_override (''d'', ''m'') ?d demo_entry \<noteq> None" by code_simp
    then show thesis using that by blast
  qed
  have m: "is_model_ref ''acme/large''" by code_simp
  show ?thesis using session_choice_converges [OF w u] m u by simp
qed

text \<open>
  Clearing a choice never undoes the user's own settings. When nothing is chosen any more, a
  planned change only clears fields that still hold exactly what this module put there, and a field
  the user set otherwise stays.
\<close>

theorem inherit_clears_only_own:
  assumes "planChoice current INHERIT applied = Some p"
  shows "(p_model p \<noteq> None \<longrightarrow> p_model p = Some None \<and> c_model current = c_model applied \<and> c_model current \<noteq> None) \<and>
    (p_thinking p \<noteq> None \<longrightarrow> p_thinking p = Some None \<and> c_thinking current = c_thinking applied \<and> c_thinking current \<noteq> None)"
  using assms by (auto simp: planChoice_def INHERIT_def nextValue_def Let_def split: if_splits) (metis+)?

theorem inherit_clears_only_own_witness:
  "p_model (the (planChoice \<lparr>c_model = Some ''a/b'', c_thinking = Some ''high''\<rparr> INHERIT \<lparr>c_model = Some ''a/b'', c_thinking = Some ''low''\<rparr>))
   = Some None"
proof -
  let ?r = "planChoice \<lparr>c_model = Some ''a/b'', c_thinking = Some ''high''\<rparr> INHERIT \<lparr>c_model = Some ''a/b'', c_thinking = Some ''low''\<rparr>"
  have "?r = Some (the ?r)" "p_model (the ?r) \<noteq> None" by code_simp+
  then show ?thesis using inherit_clears_only_own by blast
qed

section \<open>The agent's default in the host's roster\<close>

text \<open>A roster entry's \<open>model\<close>: absent, a string, or an object with a \<open>primary\<close> and other keys.\<close>

datatype model_field = NoModel | ModelStr string | ModelObj "string option" "string list"

record roster_entry =
  r_model :: model_field
  r_thinking :: "string option"

text \<open>\<open>agents.entries\<close> and \<open>agents.list\<close> of the config, each with its ids.\<close>

record roster =
  r_entries :: "(string \<times> roster_entry) list option"
  r_list :: "(string \<times> roster_entry) list option"

definition id_matches :: "string \<Rightarrow> string \<Rightarrow> bool" where
  "id_matches agentId i = (lower (trim i) = agentId)"

fun find_entry :: "string \<Rightarrow> (string \<times> roster_entry) list \<Rightarrow> roster_entry option" where
  "find_entry a [] = None"
| "find_entry a ((i, e) # es) = (if id_matches a i then Some e else find_entry a es)"

definition rosterEntry :: "roster \<Rightarrow> string \<Rightarrow> roster_entry option" where
  "rosterEntry r a = (case r_entries r of
      Some es \<Rightarrow> find_entry a es
    | None \<Rightarrow> (case r_list r of Some es \<Rightarrow> find_entry a es | None \<Rightarrow> None))"

definition rosterChoice :: "roster \<Rightarrow> string \<Rightarrow> model_choice" where
  "rosterChoice r a = (case rosterEntry r a of
      None \<Rightarrow> INHERIT
    | Some e \<Rightarrow> \<lparr>c_model = (case r_model e of NoModel \<Rightarrow> None | ModelStr m \<Rightarrow> Some m | ModelObj p ks \<Rightarrow> p),
                 c_thinking = r_thinking e\<rparr>)"

text \<open>The entry the config draft shares with \<open>rosterEntry\<close> is changed in place.\<close>

fun change_entry :: "string \<Rightarrow> (roster_entry \<Rightarrow> roster_entry) \<Rightarrow> (string \<times> roster_entry) list \<Rightarrow> (string \<times> roster_entry) list" where
  "change_entry a f [] = []"
| "change_entry a f ((i, e) # es) = (if id_matches a i then (i, f e) # es else (i, e) # change_entry a f es)"

definition change_roster :: "string \<Rightarrow> (roster_entry \<Rightarrow> roster_entry) \<Rightarrow> roster \<Rightarrow> roster" where
  "change_roster a f r = (case r_entries r of
      Some es \<Rightarrow> r\<lparr>r_entries := Some (change_entry a f es)\<rparr>
    | None \<Rightarrow> r\<lparr>r_list := map_option (change_entry a f) (r_list r)\<rparr>)"

definition clear_model :: "roster_entry \<Rightarrow> roster_entry" where
  "clear_model e = e\<lparr>r_model := (case r_model e of
      ModelObj p ks \<Rightarrow> if ks = [] then NoModel else ModelObj None ks | _ \<Rightarrow> NoModel)\<rparr>"

definition mutate_roster ::
  "(roster \<Rightarrow> string \<Rightarrow> string \<Rightarrow> roster) \<Rightarrow> string \<Rightarrow> choice_patch \<Rightarrow> string option \<Rightarrow> roster \<Rightarrow> roster" where
  "mutate_roster setPrimary a plan thinking r =
     (let r1 = (case p_model plan of
            Some (Some m) \<Rightarrow> if m \<noteq> [] then setPrimary r a m else r
          | _ \<Rightarrow> r);
          r2 = (if (p_model plan = None \<or> p_model plan = Some None \<or> p_model plan = Some (Some [])) \<and>
                   set_str thinking \<and> r_entries r = None \<and> r_list r = None
                then r1\<lparr>r_entries := Some [(a, \<lparr>r_model = NoModel, r_thinking = None\<rparr>)]\<rparr> else r1)
      in change_roster a (\<lambda>e.
           let e1 = (if p_model plan = Some None then clear_model e else e)
           in if p_thinking plan = Some None then e1\<lparr>r_thinking := None\<rparr>
              else if set_str thinking then e1\<lparr>r_thinking := thinking\<rparr> else e1) r2)"

text \<open>\<open>writeAgentDefault\<close>: the new config and the choice registered as applied, or nothing to do.\<close>

definition writeAgentDefault ::
  "(roster \<Rightarrow> string \<Rightarrow> string \<Rightarrow> roster) \<Rightarrow> (string \<Rightarrow> string option) \<Rightarrow> string \<Rightarrow> model_choice \<Rightarrow> model_choice option \<Rightarrow>
   roster \<Rightarrow> (roster \<times> model_choice) option" where
  "writeAgentDefault setPrimary norm_level a desired stored r =
     (case planChoice (rosterChoice r a) desired (case stored of None \<Rightarrow> INHERIT | Some c \<Rightarrow> c) of
        None \<Rightarrow> None
      | Some plan \<Rightarrow>
          let wants = (case p_thinking plan of Some (Some t) \<Rightarrow> if t = [] then None else Some t | _ \<Rightarrow> None);
              thinking = (case wants of None \<Rightarrow> None | Some t \<Rightarrow> norm_level t)
          in if wants \<noteq> None \<and> \<not> set_str thinking then None
             else Some (mutate_roster setPrimary a plan thinking r, p_applied plan))"

text \<open>What the host documents of its writer: the agent's primary model is the one given, its thinking level untouched.\<close>

definition writes_primary :: "(roster \<Rightarrow> string \<Rightarrow> string \<Rightarrow> roster) \<Rightarrow> bool" where
  "writes_primary f \<longleftrightarrow> (\<forall>r a m. id_matches a a \<longrightarrow> rosterEntry (f r a m) a \<noteq> None \<and>
     c_model (rosterChoice (f r a m) a) = Some m \<and> c_thinking (rosterChoice (f r a m) a) = c_thinking (rosterChoice r a))"

lemma find_change: "find_entry a (change_entry a f es) = map_option f (find_entry a es)"
  by (induction a f es rule: change_entry.induct) auto

lemma rosterEntry_change: "rosterEntry (change_roster a f r) a = map_option f (rosterEntry r a)"
  by (auto simp: rosterEntry_def change_roster_def find_change split: option.split)

text \<open>
  The agent's default converges in one write. For an agent the roster knows, a chosen model and a
  thinking level the host takes as it is are what the roster says after the write, and planning again
  with the choice recorded as applied changes nothing.
\<close>

theorem agent_default_converges:
  assumes "writes_primary setPrimary" and "id_matches a a" and "rosterEntry r a \<noteq> None"
    and "writeAgentDefault setPrimary norm_level a desired stored r = Some (r', applied)"
    and "\<And>t. c_thinking desired = Some t \<Longrightarrow> t \<noteq> [] \<and> norm_level t = Some t"
    and "c_model desired \<noteq> Some []"
  shows "planChoice (rosterChoice r' a) desired applied = None \<and>
    (c_model desired \<noteq> None \<longrightarrow> c_model (rosterChoice r' a) = c_model desired) \<and>
    (c_thinking desired \<noteq> None \<longrightarrow> c_thinking (rosterChoice r' a) = c_thinking desired)"
proof -
  let ?cur = "rosterChoice r a"
  let ?st = "case stored of None \<Rightarrow> INHERIT | Some c \<Rightarrow> c"
  obtain plan where pl: "planChoice ?cur desired ?st = Some plan" using assms(4) by (auto simp: writeAgentDefault_def split: option.splits)
  have pm: "p_model plan = nextValue (c_model ?cur) (c_model desired) (c_model ?st)"
    and pt: "p_thinking plan = nextValue (c_thinking ?cur) (c_thinking desired) (c_thinking ?st)"
    using pl by (auto simp: planChoice_def Let_def split: if_splits)
  have mne: "p_model plan \<noteq> Some (Some [])" using pm assms(6) by (auto simp: nextValue_def split: if_splits)
  have tn: "t \<noteq> [] \<and> norm_level t = Some t" if "p_thinking plan = Some (Some t)" for t
    using that pt assms(5) by (auto simp: nextValue_def split: if_splits)
  define th where "th = (case p_thinking plan of Some (Some t) \<Rightarrow> Some t | _ \<Rightarrow> None)"
  have r': "r' = mutate_roster setPrimary a plan th r" "applied = p_applied plan"
    using assms(4) pl tn unfolding writeAgentDefault_def th_def
    by (auto simp: Let_def set_str_def split: option.splits if_splits)
  let ?r1 = "case p_model plan of Some (Some m) \<Rightarrow> setPrimary r a m | _ \<Rightarrow> r"
  have r1: "rosterEntry ?r1 a \<noteq> None" "c_thinking (rosterChoice ?r1 a) = c_thinking ?cur"
    "p_model plan \<noteq> Some None \<Longrightarrow> c_model (rosterChoice ?r1 a) = patched (c_model ?cur) (p_model plan)"
    using assms(1,2,3) by (auto simp: writes_primary_def patched_def split: option.split)
  have "r_entries r \<noteq> None \<or> r_list r \<noteq> None" using assms(3) by (auto simp: rosterEntry_def split: option.splits)
  then have r'2: "r' = change_roster a (\<lambda>e.
           let e1 = (if p_model plan = Some None then clear_model e else e)
           in if p_thinking plan = Some None then e1\<lparr>r_thinking := None\<rparr>
              else if set_str th then e1\<lparr>r_thinking := th\<rparr> else e1) ?r1"
    using mne unfolding r'(1) mutate_roster_def Let_def by (auto split: option.split)
  obtain e where e: "rosterEntry ?r1 a = Some e" using r1(1) by blast
  have clr: "(case r_model (clear_model e) of NoModel \<Rightarrow> None | ModelStr m \<Rightarrow> Some m | ModelObj p ks \<Rightarrow> p) = None"
    "r_thinking (clear_model e) = r_thinking e"
    by (auto simp: clear_model_def split: model_field.split)
  have "rosterChoice r' a = \<lparr>c_model = patched (c_model ?cur) (p_model plan), c_thinking = patched (c_thinking ?cur) (p_thinking plan)\<rparr>"
  proof -
    have th: "set_str th \<longleftrightarrow> (\<exists>t. p_thinking plan = Some (Some t))" "\<And>t. p_thinking plan = Some (Some t) \<Longrightarrow> th = Some t"
      using tn by (auto simp: th_def set_str_def split: option.split)
    show ?thesis
      using r1(2,3) clr th e
      unfolding r'2 rosterChoice_def rosterEntry_change
      by (cases "p_model plan"; cases "p_thinking plan") (auto simp: Let_def patched_def)
  qed
  then show ?thesis using planChoice_settles [OF pl] r'(2) pm pt patched_desired by simp
qed

definition demo_primary :: "roster \<Rightarrow> string \<Rightarrow> string \<Rightarrow> roster" where
  "demo_primary r a m = (if rosterEntry r a = None
     then r\<lparr>r_entries := Some ((a, \<lparr>r_model = ModelStr m, r_thinking = None\<rparr>) # (case r_entries r of Some es \<Rightarrow> es | None \<Rightarrow> []))\<rparr>
     else change_roster a (\<lambda>e. e\<lparr>r_model := ModelStr m\<rparr>) r)"

definition demo_roster :: roster where
  "demo_roster = \<lparr>r_entries = Some [('' Main '', \<lparr>r_model = ModelObj (Some ''x/y'') [''fallbacks''], r_thinking = None\<rparr>)], r_list = None\<rparr>"

lemma demo_primary_writes: "writes_primary demo_primary"
proof -
  have "rosterEntry (demo_primary r a m) a = Some \<lparr>r_model = ModelStr m, r_thinking = None\<rparr>"
    if "id_matches a a" "rosterEntry r a = None" for r a m
    using that by (simp add: demo_primary_def rosterEntry_def)
  moreover have "rosterEntry (demo_primary r a m) a = Some (e\<lparr>r_model := ModelStr m\<rparr>)" if "rosterEntry r a = Some e" for r a m e
    using that by (simp add: demo_primary_def rosterEntry_change)
  ultimately have "rosterEntry (demo_primary r a m) a \<noteq> None \<and> c_model (rosterChoice (demo_primary r a m) a) = Some m \<and>
      c_thinking (rosterChoice (demo_primary r a m) a) = c_thinking (rosterChoice r a)" if "id_matches a a" for r a m
    using that by (cases "rosterEntry r a") (simp_all add: rosterChoice_def INHERIT_def)
  then show ?thesis unfolding writes_primary_def by blast
qed

theorem agent_default_converges_witness:
  "map_option (\<lambda>w. c_model (rosterChoice (fst w) ''main''))
     (writeAgentDefault demo_primary Some ''main'' \<lparr>c_model = Some ''acme/large'', c_thinking = Some ''high''\<rparr> None demo_roster)
   = Some (Some ''acme/large'')"
proof -
  let ?d = "\<lparr>c_model = Some ''acme/large'', c_thinking = Some ''high''\<rparr>"
  obtain r' ap where w: "writeAgentDefault demo_primary Some ''main'' ?d None demo_roster = Some (r', ap)"
  proof -
    have "writeAgentDefault demo_primary Some ''main'' ?d None demo_roster \<noteq> None" by code_simp
    then show thesis using that by auto
  qed
  have m: "id_matches ''main'' ''main''" "rosterEntry demo_roster ''main'' \<noteq> None" by code_simp+
  have "c_model (rosterChoice r' ''main'') = Some ''acme/large''"
    using agent_default_converges [OF demo_primary_writes m w] by simp
  with w show ?thesis by simp
qed

end
