(* ===== verification/Inbound_Posts.thy ===== *)
theory Inbound_Posts
  imports Model_Choice
begin

text \<open>
  What the inbound poller (\<open>plugin/src/inbound-poller.ts\<close>) reads out of the server's payloads: posts
  and files, who sent them, mentions, control payloads, the catch-up context and the frames of the
  event stream. The state machine that acts on them is in \<open>Inbound_Poller\<close>.
\<close>

section \<open>Posts\<close>

record inbound_file =
  fileId :: string
  filename :: string
  contentType :: string
  sizeBytes :: rat
  downloadUrl :: "string option"
  thumbnailUrl :: "string option"
  width :: "rat option"
  height :: "rat option"
  durationMs :: "rat option"

record post =
  post_id :: string
  create_at :: rat
  update_at :: "rat option"
  delete_at :: "rat option"
  user_id :: "string option"
  post_channel :: "string option"
  post_message :: "string option"
  post_type :: "string option"
  post_status :: "string option"
  post_props :: "jsval option"
  agent_id :: "string option"
  human_id :: "jsnum option"
  display_name :: "string option"
  created_raw :: "string option"
  trace_id :: "string option"
  widget_id :: "string option"
  ui_action :: "jsval option"
  parent_preview :: "jsval option"
  post_files :: "inbound_file list option"

text \<open>\<open>/^\d{4}-\d{2}-\d{2} \d{2}:\d{2}:\d{2}(?:\.\d+)?$/\<close>\<close>

fun shape :: "string \<Rightarrow> string \<Rightarrow> string option" where
  "shape [] s = Some s"
| "shape (p # ps) [] = None"
| "shape (p # ps) (c # s) = (if (p = CHR ''9'' \<and> is_digit c) \<or> (p \<noteq> CHR ''9'' \<and> p = c) then shape ps s else None)"

definition naive_datetime :: "string \<Rightarrow> bool" where
  "naive_datetime s = (case shape ''9999-99-99 99:99:99'' s of
      None \<Rightarrow> False
    | Some r \<Rightarrow> (case r of [] \<Rightarrow> True | c # ds \<Rightarrow> c = CHR ''.'' \<and> ds \<noteq> [] \<and> list_all is_digit ds))"

fun replace_first :: "char \<Rightarrow> char \<Rightarrow> string \<Rightarrow> string" where
  "replace_first a b [] = []"
| "replace_first a b (c # s) = (if c = a then b # s else c # replace_first a b s)"

definition parseTimestamp :: "runtime \<Rightarrow> jsval \<Rightarrow> rat" where
  "parseTimestamp R v = (case v of
      JNum n \<Rightarrow> (case n of Fin q \<Rightarrow> q | _ \<Rightarrow> 0)
    | JStr s \<Rightarrow>
        (let raw = trim s;
             utc = (if naive_datetime raw then date_parse R (replace_first CHR '' '' CHR ''T'' raw @ ''Z'') else None)
         in if raw = [] then 0
            else case utc of Some t \<Rightarrow> of_int t
            | None \<Rightarrow> (case date_parse R raw of Some t \<Rightarrow> of_int t
              | None \<Rightarrow> (case js_number raw of Fin q \<Rightarrow> q | _ \<Rightarrow> 0)))
    | _ \<Rightarrow> 0)"

definition nonempty_str :: "jsval \<Rightarrow> string option" where
  "nonempty_str v = (case as_str v of Some s \<Rightarrow> if s = [] then None else Some s | None \<Rightarrow> None)"

definition normalizeFile :: "jsval \<Rightarrow> inbound_file option" where
  "normalizeFile raw =
     (if \<not> truthy raw \<or> \<not> typeof_object raw then None
      else case nonempty_str (jget raw ''file_id'') of
        None \<Rightarrow> None
      | Some fid \<Rightarrow> Some \<lparr>fileId = fid,
          filename = (case as_str (jget raw ''filename'') of Some s \<Rightarrow> s | None \<Rightarrow> fid),
          contentType = (case as_str (jget raw ''content_type'') of Some s \<Rightarrow> s | None \<Rightarrow> ''application/octet-stream''),
          sizeBytes = (case as_finite (jget raw ''size_bytes'') of Some q \<Rightarrow> q | None \<Rightarrow> 0),
          downloadUrl = nonempty_str (jget raw ''download_url''),
          thumbnailUrl = nonempty_str (jget raw ''thumbnail_url''),
          width = as_finite (jget raw ''width''),
          height = as_finite (jget raw ''height''),
          durationMs = as_finite (jget raw ''duration_ms'')\<rparr>)"

definition object_field :: "jsval \<Rightarrow> jsval option" where
  "object_field v = (if truthy v \<and> typeof_object v then Some v else None)"

definition nonzero :: "rat \<Rightarrow> rat option" where
  "nonzero q = (if q = 0 then None else Some q)"

definition normalizePost :: "runtime \<Rightarrow> jsval \<Rightarrow> post option" where
  "normalizePost R raw =
     (let idv = coalesce (jget raw ''id'') (jget raw ''post_id'');
          pid = (case as_str idv of Some s \<Rightarrow> s | None \<Rightarrow> if idv = JUndef \<or> idv = JNull then [] else to_string R idv);
          uidv = coalesce (coalesce (jget raw ''user_id'') (jget raw ''agent_id'')) (jget raw ''human_id'');
          uid = (case uidv of JStr s \<Rightarrow> Some s | JNum n \<Rightarrow> Some (num_to_string R n) | _ \<Rightarrow> None);
          fs = (case as_arr (jget raw ''files'') of Some vs \<Rightarrow> List.map_filter normalizeFile vs | None \<Rightarrow> [])
      in if pid = [] then None
         else Some \<lparr>post_id = pid,
           create_at = parseTimestamp R (coalesce (jget raw ''create_at'') (jget raw ''created_at'')),
           update_at = nonzero (parseTimestamp R (coalesce (jget raw ''update_at'') (jget raw ''updated_at''))),
           delete_at = nonzero (parseTimestamp R (coalesce (jget raw ''delete_at'') (jget raw ''deleted_at''))),
           user_id = (if uid = Some [] then None else uid),
           post_channel = as_str (jget raw ''channel_id''),
           post_message = as_str (jget raw ''message''),
           post_type = as_str (jget raw ''type''),
           post_status = as_str (jget raw ''status''),
           post_props = object_field (jget raw ''props''),
           agent_id = as_str (jget raw ''agent_id''),
           human_id = as_num (jget raw ''human_id''),
           display_name = as_str (jget raw ''poster_display_name''),
           created_raw = as_str (jget raw ''created_at''),
           trace_id = as_str (jget raw ''trace_id''),
           widget_id = nonempty_str (jget raw ''widget_id''),
           ui_action = object_field (jget raw ''ui_action''),
           parent_preview = object_field (jget raw ''parent_preview''),
           post_files = (if fs = [] then None else Some fs)\<rparr>)"

text \<open>\<open>byId[id]\<close>: an own property of an object, an item of an array; a string's characters are no objects.\<close>

fun index_prop :: "jsval \<Rightarrow> string \<Rightarrow> jsval" where
  "index_prop (JArr vs) k =
     (if k \<noteq> [] \<and> list_all is_digit k \<and> show_nat (nat_of_digits k) = k \<and> nat_of_digits k < length vs
      then vs ! nat_of_digits k else JUndef)"
| "index_prop v k = jget v k"

definition parse_item :: "runtime \<Rightarrow> jsval \<Rightarrow> post option" where
  "parse_item R v = (if \<not> truthy v \<or> \<not> typeof_object v then None else normalizePost R v)"

definition parsePostsResponse :: "runtime \<Rightarrow> jsval \<Rightarrow> post list" where
  "parsePostsResponse R raw =
     (if \<not> truthy raw \<or> \<not> typeof_object raw then []
      else let src = jget raw ''posts'';
               out = (case as_arr src of
                   Some vs \<Rightarrow> List.map_filter (parse_item R) vs
                 | None \<Rightarrow>
                     let byId = coalesce src (JObj []);
                         ids = (case as_arr (jget raw ''order'') of
                             Some (v # vs) \<Rightarrow> map (to_string R) (v # vs)
                           | _ \<Rightarrow> object_keys byId)
                     in List.map_filter (\<lambda>i. parse_item R (index_prop byId i)) ids)
      in sort_key create_at out)"

definition isUnsettled :: "post \<Rightarrow> bool" where
  "isUnsettled p = (post_status p = Some ''streaming'' \<or> post_status p = Some ''draft'')"

definition postSerialOf :: "post \<Rightarrow> nat" where
  "postSerialOf p = (case js_number (post_id p) of Fin q \<Rightarrow> if 0 < q then nat \<lfloor>q\<rfloor> else 0 | _ \<Rightarrow> 0)"

definition set_string :: "string option \<Rightarrow> bool" where
  "set_string s = (s \<noteq> None \<and> s \<noteq> Some [])"

definition text_of :: "post \<Rightarrow> string" where
  "text_of p = (case post_message p of Some m \<Rightarrow> m | None \<Rightarrow> [])"

definition isUserAuthoredPost :: "post \<Rightarrow> bool" where
  "isUserAuthoredPost p =
     (\<not> set_string (post_type p) \<and>
      (trim (text_of p) \<noteq> [] \<or> (case post_files p of Some fs \<Rightarrow> fs \<noteq> [] | None \<Rightarrow> False)))"

definition senderIdForPost :: "runtime \<Rightarrow> post \<Rightarrow> string" where
  "senderIdForPost R p = (case human_id p of
      Some n \<Rightarrow> ''human:'' @ num_to_string R n
    | None \<Rightarrow> if set_string (agent_id p) then ''agent:'' @ the (agent_id p)
              else (case user_id p of Some u \<Rightarrow> u | None \<Rightarrow> []))"

definition is_handle_char :: "char \<Rightarrow> bool" where
  "is_handle_char c = (is_alnum c \<or> c = CHR ''_'' \<or> c = CHR ''.'' \<or> c = CHR ''-'')"

fun collapse_ws :: "bool \<Rightarrow> string \<Rightarrow> string" where
  "collapse_ws inside [] = []"
| "collapse_ws inside (c # s) =
     (if is_ws c then (if inside then collapse_ws True s else CHR ''-'' # collapse_ws True s)
      else c # collapse_ws False s)"

definition sanitizeMentionHandle :: "string \<Rightarrow> string" where
  "sanitizeMentionHandle raw = filter is_handle_char (collapse_ws False (trim raw))"

definition senderTagForPost :: "runtime \<Rightarrow> post \<Rightarrow> string option" where
  "senderTagForPost R p =
     (if set_string (agent_id p) then Some (''@'' @ the (agent_id p))
      else case human_id p of
        Some n \<Rightarrow>
          let named = (case display_name p of Some d \<Rightarrow> trim d | None \<Rightarrow> []);
              base = (if named = [] then ''user-'' @ num_to_string R n else named);
              handle = sanitizeMentionHandle base
          in Some (''@'' @ (if handle = [] then ''user-'' @ num_to_string R n else handle))
      | None \<Rightarrow> None)"

section \<open>Mentions\<close>

text \<open>
  \<open>(^|[^H])(@agent)(?=$|[^H])\<close> with the handle characters \<open>H\<close>, global: the tags it finds, as their
  start and end positions. A match consumes the character before the tag, so two tags need a
  character between them; \<open>^\<close> only matches at the start of the message.
\<close>

definition tag_at :: "string \<Rightarrow> string \<Rightarrow> bool" where
  "tag_at agent s = (starts_with s (CHR ''@'' # agent) \<and>
     (let r = drop (Suc (length agent)) s in r = [] \<or> \<not> is_handle_char (hd r)))"

function (sequential) tags_from :: "string \<Rightarrow> bool \<Rightarrow> string \<Rightarrow> nat \<Rightarrow> (nat \<times> nat) list" where
  "tags_from agent at_start [] pos = []"
| "tags_from agent at_start (c # s) pos =
     (if at_start \<and> tag_at agent (c # s) then
        (pos, pos + Suc (length agent)) # tags_from agent False (drop (length agent) s) (pos + Suc (length agent))
      else if \<not> is_handle_char c \<and> tag_at agent s then
        (Suc pos, Suc pos + Suc (length agent)) # tags_from agent False (drop (Suc (length agent)) s) (Suc pos + Suc (length agent))
      else tags_from agent False s (Suc pos))"
  by pat_completeness auto
termination
  by (relation "measure (\<lambda>(_, _, s, _). length s)") auto

definition mention_tags :: "string \<Rightarrow> string \<Rightarrow> (nat \<times> nat) list" where
  "mention_tags message agent = tags_from agent True message 0"

definition hasAgentMention :: "string \<Rightarrow> string \<Rightarrow> bool" where
  "hasAgentMention message agent = (mention_tags message agent \<noteq> [])"

definition slice :: "nat \<Rightarrow> nat \<Rightarrow> string \<Rightarrow> string" where
  "slice i j s = take (j - i) (drop i s)"

definition ends_ws :: "string \<Rightarrow> bool" where
  "ends_ws s = (s \<noteq> [] \<and> is_ws (last s))"

definition drop_tag :: "string \<Rightarrow> string \<times> nat \<Rightarrow> nat \<times> nat \<Rightarrow> string \<times> nat" where
  "drop_tag message st tag = (case st of (out, lst) \<Rightarrow> case tag of (tagStart, tagEnd) \<Rightarrow>
     let out1 = out @ slice lst tagStart message;
         next_char = slice tagEnd (tagEnd + 1) message
     in if ends_ws out1 \<and> next_char \<noteq> [] \<and> is_ws (hd next_char) then (out1, tagEnd + 1)
        else if ends_ws out1 \<and> next_char \<noteq> [] \<and> hd next_char \<in> set '',.;:!?'' then (trim_end out1, tagEnd)
        else (out1, tagEnd))"

definition collapseSelfMentions :: "string \<Rightarrow> string option \<Rightarrow> string" where
  "collapseSelfMentions message agent =
     (if \<not> set_string agent \<or> \<not> str_includes message (''@'' @ the agent) then message
      else case mention_tags message (the agent) of
          [] \<Rightarrow> message
        | t # ts \<Rightarrow>
            let (out, lst) = foldl (drop_tag message) ([], 0) ts
            in if lst = 0 then message else out @ drop lst message)"

text \<open>\<open>(^|[^H])@agent(?![H])[,:]?[ \t]*\<close> replaced by its first group, global.\<close>

definition is_blank :: "char \<Rightarrow> bool" where
  "is_blank c = (c = CHR '' '' \<or> c = CHR 0x09)"

definition after_tag :: "string \<Rightarrow> string" where
  "after_tag s = dropWhile is_blank (case s of c # r \<Rightarrow> if c = CHR '','' \<or> c = CHR '':'' then r else s | [] \<Rightarrow> [])"

lemma after_tag_length: "length (after_tag s) \<le> length s"
  unfolding after_tag_def using length_dropWhile_le le_SucI by (cases s) fastforce+

function (sequential) strip_own :: "string \<Rightarrow> bool \<Rightarrow> string \<Rightarrow> string" where
  "strip_own agent at_start [] = []"
| "strip_own agent at_start (c # s) =
     (if at_start \<and> tag_at agent (c # s) then strip_own agent False (after_tag (drop (length agent) s))
      else if \<not> is_handle_char c \<and> tag_at agent s then c # strip_own agent False (after_tag (drop (Suc (length agent)) s))
      else c # strip_own agent False s)"
  by pat_completeness auto
termination
  by (relation "measure (\<lambda>(_, _, s). length s)")
    (auto simp: less_Suc_eq_le intro: order_trans [OF after_tag_length])

definition isPairChat :: "string option \<Rightarrow> bool" where
  "isPairChat t = (t = Some ''direct'' \<or> t = Some ''agent_chat'')"

record surface_action =
  a_name :: jsval
  a_surface :: jsval
  a_component :: jsval
  a_context :: jsval

definition ownSurfaceAction :: "post \<Rightarrow> string option \<Rightarrow> surface_action option" where
  "ownSurfaceAction p agent = (case (ui_action p, parent_preview p) of
      (Some act, Some par) \<Rightarrow>
        if set_string agent \<and> jget par ''agent_id'' = JStr (the agent)
        then Some \<lparr>a_name = jget act ''name'', a_surface = jget par ''post_id'',
                   a_component = jget act ''sourceComponentId'', a_context = jget act ''context''\<rparr>
        else None
    | _ \<Rightarrow> None)"

definition typedAnswer :: "post \<Rightarrow> string option \<Rightarrow> string option" where
  "typedAnswer p agent =
     (if \<not> set_string agent \<or> human_id p = None \<or> ui_action p \<noteq> None \<or> set_string (widget_id p) \<or>
         (case post_files p of Some fs \<Rightarrow> fs \<noteq> [] | None \<Rightarrow> False) then None
      else let text = trim (strip_own (the agent) True (text_of p))
      in if text \<noteq> [] \<and> \<not> starts_with text ''/'' then Some text else None)"

definition isServerHandledCommand :: "string option \<Rightarrow> bool" where
  "isServerHandledCommand msg = (lower (trim (case msg of Some m \<Rightarrow> m | None \<Rightarrow> [])) = ''/cb-usage'')"

section \<open>The catch-up context\<close>

record context_post =
  x_post :: string
  x_sender :: string
  x_text :: string
  x_at :: rat
  x_self :: bool

definition context_eligible :: "string \<Rightarrow> rat \<Rightarrow> rat \<Rightarrow> bool \<Rightarrow> post \<Rightarrow> bool" where
  "context_eligible trigger triggerAt since includeAgents p =
     (post_id p \<noteq> trigger \<and> create_at p < triggerAt \<and> since < create_at p \<and>
      \<not> (case delete_at p of Some d \<Rightarrow> 0 < d | None \<Rightarrow> False) \<and>
      (includeAgents \<or> \<not> set_string (agent_id p)) \<and> isUserAuthoredPost p)"

definition context_line :: "runtime \<Rightarrow> string option \<Rightarrow> post \<Rightarrow> context_post" where
  "context_line R agent p = \<lparr>x_post = post_id p, x_sender = senderIdForPost R p, x_text = text_of p, x_at = create_at p,
     x_self = (set_string agent \<and> (agent_id p = agent \<or> user_id p = agent))\<rparr>"

definition buildPriorContext ::
  "runtime \<Rightarrow> post list \<Rightarrow> string \<Rightarrow> rat \<Rightarrow> nat \<Rightarrow> string option \<Rightarrow> rat \<Rightarrow> bool \<Rightarrow> context_post list" where
  "buildPriorContext R history trigger triggerAt limit agent since includeAgents =
     (if limit = 0 then []
      else let eligible = map (context_line R agent) (filter (context_eligible trigger triggerAt since includeAgents) history)
      in if limit < length eligible then drop (length eligible - limit) eligible else eligible)"

section \<open>The event stream\<close>

text \<open>A chunk is appended with its line ends made \<open>\n\<close>, then every complete frame is taken off.\<close>

fun normalize_crlf :: "string \<Rightarrow> string" where
  "normalize_crlf [] = []"
| "normalize_crlf [c] = [c]"
| "normalize_crlf (c # d # s) =
     (if c = CHR 0x0D \<and> d = CHR 0x0A then CHR 0x0A # normalize_crlf s else c # normalize_crlf (d # s))"

definition frame_end :: string where "frame_end = [CHR 0x0A, CHR 0x0A]"

fun take_frames :: "nat \<Rightarrow> string \<Rightarrow> string list \<times> string" where
  "take_frames 0 buf = ([], buf)"
| "take_frames (Suc n) buf = (case index_of buf frame_end of
      None \<Rightarrow> ([], buf)
    | Some i \<Rightarrow> (case take_frames n (drop (i + 2) buf) of (fs, r) \<Rightarrow> (take i buf # fs, r)))"

definition sse_feed :: "string \<Rightarrow> string \<Rightarrow> string list \<times> string" where
  "sse_feed buf chunk = (let b = buf @ normalize_crlf chunk in take_frames (length b) b)"

fun sse_stream :: "string \<Rightarrow> string list \<Rightarrow> string list \<times> string" where
  "sse_stream buf [] = ([], buf)"
| "sse_stream buf (c # cs) = (case sse_feed buf c of (fs, b) \<Rightarrow> case sse_stream b cs of (gs, r) \<Rightarrow> (fs @ gs, r))"

text \<open>The data of a frame, which \<open>JSON.parse\<close> then reads: lines are split at \<open>\r?\n\<close>.\<close>

fun split_lines :: "string \<Rightarrow> string list" where
  "split_lines [] = [[]]"
| "split_lines (c # s) =
     (if c = CHR 0x0A then [] # split_lines s
      else if c = CHR 0x0D \<and> s \<noteq> [] \<and> hd s = CHR 0x0A then split_lines s
      else (case split_lines s of l # ls \<Rightarrow> (c # l) # ls | [] \<Rightarrow> [[c]]))"

definition sse_data :: "string \<Rightarrow> string" where
  "sse_data frame = join [CHR 0x0A]
     (map (\<lambda>l. trim_start (drop 5 l)) (filter (\<lambda>l. starts_with l ''data:'') (split_lines frame)))"

section \<open>Control payloads\<close>

record discovered =
  ch_id :: string
  ch_type :: "string option"
  latestPostId :: "nat option"
  lastReadPostId :: "nat option"

definition extractSerial :: "jsval \<Rightarrow> nat option" where
  "extractSerial v = (case as_finite v of Some q \<Rightarrow> if 0 \<le> q then Some (nat \<lfloor>q\<rfloor>) else None | None \<Rightarrow> None)"

definition extract_channel :: "jsval \<Rightarrow> discovered option" where
  "extract_channel c =
     (if \<not> truthy c \<or> \<not> typeof_object c then None
      else case nonempty_str (jget c ''channel_id'') of
        None \<Rightarrow> None
      | Some i \<Rightarrow> Some \<lparr>ch_id = i, ch_type = as_str (jget c ''channel_type''),
          latestPostId = extractSerial (jget c ''latest_post_id''),
          lastReadPostId = extractSerial (jget c ''last_read_post_id'')\<rparr>)"

definition extractChannels :: "jsval \<Rightarrow> discovered list" where
  "extractChannels raw = (case raw of
      JArr vs \<Rightarrow> List.map_filter extract_channel vs
    | JObj ps \<Rightarrow> (case jget raw ''channels'' of JArr vs \<Rightarrow> List.map_filter extract_channel vs | _ \<Rightarrow> [])
    | _ \<Rightarrow> [])"

record model_selection =
  agentDefault :: model_choice
  channel_choices :: "(string, model_choice) jsmap"

definition select_channel :: "(string, model_choice) jsmap \<Rightarrow> jsval \<Rightarrow> (string, model_choice) jsmap" where
  "select_channel m c = (case as_str (jget c ''channel_id'') of
      Some i \<Rightarrow> mset_key i (choiceOf (jget c ''model'') (jget c ''thinking'')) m
    | None \<Rightarrow> m)"

definition extractModelSelection :: "jsval \<Rightarrow> model_selection option" where
  "extractModelSelection raw =
     (if \<not> is_object raw \<or> is_array raw then None
      else case as_arr (jget raw ''channels'') of
        None \<Rightarrow> None
      | Some vs \<Rightarrow> Some \<lparr>agentDefault = choiceOf (jget raw ''default_model'') (jget raw ''default_thinking''),
          channel_choices = foldl select_channel [] vs\<rparr>)"

definition clampInterAgentMessageLimit :: "jsval \<Rightarrow> nat" where
  "clampInterAgentMessageLimit v = (case as_finite v of
      Some q \<Rightarrow> if q < 1 then 10 else min 50 (nat \<lfloor>q\<rfloor>)
    | None \<Rightarrow> 10)"

definition extractInterAgentMessageLimit :: "jsval \<Rightarrow> nat option" where
  "extractInterAgentMessageLimit raw =
     (if \<not> is_object raw \<or> is_array raw then None
      else let v = coalesce (jget raw ''inter_agent_message_limit'') (jget raw ''interAgentMessageLimit'')
      in if as_finite v = None then None else Some (clampInterAgentMessageLimit v))"

definition first_bool :: "jsval \<Rightarrow> string \<Rightarrow> string \<Rightarrow> bool option" where
  "first_bool raw k k' =
     (if \<not> is_object raw \<or> is_array raw then None
      else case as_bool (jget raw k) of Some b \<Rightarrow> Some b | None \<Rightarrow> as_bool (jget raw k'))"

definition extractAgentSnoozed :: "jsval \<Rightarrow> bool option" where
  "extractAgentSnoozed raw = first_bool raw ''snoozed'' ''agent_snoozed''"

definition extractInterAgentMode :: "jsval \<Rightarrow> bool option" where
  "extractInterAgentMode raw = first_bool raw ''inter_agent_mode_enabled'' ''interAgentMode''"

definition resolvePositiveMs :: "jsval \<Rightarrow> nat \<Rightarrow> nat" where
  "resolvePositiveMs v fallback =
     (let n = (case v of JStr s \<Rightarrow> if trim s \<noteq> [] then Some (js_number (trim s)) else None | JNum n \<Rightarrow> Some n | _ \<Rightarrow> None)
      in case n of Some (Fin q) \<Rightarrow> nat (max 0 \<lfloor>q\<rfloor>) | _ \<Rightarrow> fallback)"

definition resolvePollIntervalMs :: "jsval \<Rightarrow> nat" where
  "resolvePollIntervalMs v = max 1 (resolvePositiveMs v 30000)"

definition resolveBoolean :: "jsval \<Rightarrow> bool \<Rightarrow> bool" where
  "resolveBoolean v fallback = (case v of
      JBool b \<Rightarrow> b
    | JStr s \<Rightarrow> (let n = lower (trim s) in
        if n \<in> {''1'', ''true'', ''yes'', ''on''} then True
        else if n \<in> {''0'', ''false'', ''no'', ''off''} then False else fallback)
    | _ \<Rightarrow> fallback)"

section \<open>Properties\<close>

lemma clamp_bounds: "1 \<le> clampInterAgentMessageLimit v \<and> clampInterAgentMessageLimit v \<le> 50"
proof -
  have "1 \<le> nat \<lfloor>q\<rfloor>" if "\<not> q < 1" for q :: rat
  proof -
    have "1 \<le> \<lfloor>q\<rfloor>" using that by (simp add: le_floor_iff)
    then show ?thesis by linarith
  qed
  then show ?thesis by (auto simp: clampInterAgentMessageLimit_def split: option.split)
qed

lemma hasMention_sound:
  "tags_from agent at_start s pos \<noteq> [] \<Longrightarrow>
   \<exists>u v. s = u @ CHR ''@'' # agent @ v \<and> (u = [] \<and> at_start \<or> u \<noteq> [] \<and> \<not> is_handle_char (last u)) \<and> (v = [] \<or> \<not> is_handle_char (hd v))"
proof (induction agent at_start s pos rule: tags_from.induct)
  case (2 agent at_start c s pos)
  have t: "\<exists>v. r = CHR ''@'' # agent @ v \<and> (v = [] \<or> \<not> is_handle_char (hd v))" if "tag_at agent r" for r
    using that by (auto simp: tag_at_def starts_with_iff Let_def)
  show ?case
  proof (cases "at_start \<and> tag_at agent (c # s)")
    case True
    with t [of "c # s"] show ?thesis by (metis append_Nil)
  next
    case one: False
    show ?thesis
    proof (cases "\<not> is_handle_char c \<and> tag_at agent s")
      case True
      then obtain v where "s = CHR ''@'' # agent @ v" "v = [] \<or> \<not> is_handle_char (hd v)" using t by blast
      then have "c # s = [c] @ CHR ''@'' # agent @ v" by simp
      with True \<open>v = [] \<or> _\<close> show ?thesis by (metis last.simps not_Cons_self2)
    next
      case False
      with one 2(4) have "tags_from agent False s (Suc pos) \<noteq> []" by (auto split: if_splits)
      from 2(3) [OF one False this] obtain u v where "s = u @ CHR ''@'' # agent @ v" "u \<noteq> [] \<and> \<not> is_handle_char (last u)"
        "v = [] \<or> \<not> is_handle_char (hd v)" by blast
      then have "c # s = (c # u) @ CHR ''@'' # agent @ v" "last (c # u) = last u" by simp_all
      with \<open>u \<noteq> [] \<and> _\<close> \<open>v = [] \<or> _\<close> show ?thesis by (metis list.distinct(1))
    qed
  qed
qed simp

lemma hasMention_complete:
  "s = u @ CHR ''@'' # agent @ v \<Longrightarrow> u = [] \<and> at_start \<or> u \<noteq> [] \<and> \<not> is_handle_char (last u) \<Longrightarrow>
   v = [] \<or> \<not> is_handle_char (hd v) \<Longrightarrow> tags_from agent at_start s pos \<noteq> []"
proof (induction agent at_start s pos arbitrary: u rule: tags_from.induct)
  case (2 agent at_start c s pos)
  have t: "tag_at agent (CHR ''@'' # agent @ v)" using "2.prems"(3) by (simp add: tag_at_def)
  show ?case
  proof (cases u)
    case Nil
    with 2 t show ?thesis by auto
  next
    case (Cons d u')
    show ?thesis
    proof (cases u')
      case Nil
      with Cons 2 t show ?thesis by auto
    next
      case (Cons e u'')
      then have u': "u' \<noteq> [] \<and> \<not> is_handle_char (last u')" using \<open>u = d # u'\<close> "2.prems"(2) by auto
      have s: "s = u' @ CHR ''@'' # agent @ v" using \<open>u = d # u'\<close> "2.prems"(1) by simp
      show ?thesis
      proof (cases "(at_start \<and> tag_at agent (c # s)) \<or> (\<not> is_handle_char c \<and> tag_at agent s)")
        case False
        then have "tags_from agent False s (Suc pos) \<noteq> []" using "2.IH"(3) [OF _ _ s] u' "2.prems"(3) by blast
        with False show ?thesis by (simp del: tags_from.simps add: tags_from.simps(2) [of agent at_start c s pos])
      qed auto
    qed
  qed
qed auto

text \<open>The text ends, or starts, with no character a handle may have.\<close>

definition open_end :: "string \<Rightarrow> bool" where
  "open_end u = (case rev u of [] \<Rightarrow> True | c # _ \<Rightarrow> \<not> is_handle_char c)"

definition open_start :: "string \<Rightarrow> bool" where
  "open_start v = (case v of [] \<Rightarrow> True | c # _ \<Rightarrow> \<not> is_handle_char c)"

lemma open_end_iff: "open_end u \<longleftrightarrow> (u = [] \<or> \<not> is_handle_char (last u))"
  by (cases u rule: rev_cases) (simp_all add: open_end_def)

lemma open_start_iff: "open_start v \<longleftrightarrow> (v = [] \<or> \<not> is_handle_char (hd v))"
  by (cases v) (simp_all add: open_start_def)

text \<open>
  A message mentions the agent exactly when its tag stands alone: \<open>@\<close> and the agent's id occur
  with no handle character directly before and none directly after.
\<close>

theorem mention_stands_alone:
  "hasAgentMention msg agent \<longleftrightarrow> (\<exists>u v. msg = u @ CHR ''@'' # agent @ v \<and> open_end u \<and> open_start v)"
  using hasMention_sound [of agent True msg 0] hasMention_complete [of msg _ agent _ True 0]
  unfolding hasAgentMention_def mention_tags_def open_end_iff open_start_iff by blast

lemma parsePosts_sorted: "sorted (map create_at (parsePostsResponse R raw))"
  by (simp add: parsePostsResponse_def Let_def)

text \<open>
  The catch-up context is the most recent part of what was missed. Built from a response of the
  server, it is a suffix of the eligible posts, cut only when it holds the limit; its lines are oldest
  first, each after what the agent was shown before and before the post that triggers the turn, and
  the trigger itself is not among them.
\<close>

theorem context_is_recent:
  "let cs = buildPriorContext R (parsePostsResponse R raw) trigger triggerAt limit agent since agents in
    sorted (map x_at cs) \<and> length cs \<le> limit \<and>
    list_all (\<lambda>x. since < x_at x \<and> x_at x < triggerAt \<and> x_post x \<noteq> trigger) cs \<and>
    (\<exists>older. map (context_line R agent) (filter (context_eligible trigger triggerAt since agents) (parsePostsResponse R raw)) = older @ cs \<and>
      (older = [] \<or> length cs = limit))"
proof -
  define cs where "cs = buildPriorContext R (parsePostsResponse R raw) trigger triggerAt limit agent since agents"
  let ?ps = "filter (context_eligible trigger triggerAt since agents) (parsePostsResponse R raw)"
  let ?e = "map (context_line R agent) ?ps"
  have at: "map x_at ?e = map create_at ?ps" by (simp add: context_line_def)
  have srt: "sorted (map x_at ?e)" unfolding at using parsePosts_sorted sorted_filter by blast
  have el: "list_all (\<lambda>x. since < x_at x \<and> x_at x < triggerAt \<and> x_post x \<noteq> trigger) ?e"
    by (auto simp: list_all_iff context_line_def context_eligible_def)
  have suf: "\<exists>older. ?e = older @ cs \<and> (older = [] \<or> length cs = limit)"
  proof (cases "limit < length ?e")
    case True
    then have "cs = drop (length ?e - limit) ?e" by (auto simp: cs_def buildPriorContext_def)
    with True have "?e = take (length ?e - limit) ?e @ cs" "length cs = limit" by (simp_all only: append_take_drop_id) simp_all
    then show ?thesis by blast
  next
    case False
    show ?thesis
    proof (cases "limit = 0")
      case True
      then show ?thesis by (simp add: cs_def buildPriorContext_def)
    next
      case pos: False
      with False have "cs = ?e" by (simp add: cs_def buildPriorContext_def Let_def)
      then show ?thesis by (metis append_Nil)
    qed
  qed
  have len: "length cs \<le> limit" by (auto simp: cs_def buildPriorContext_def Let_def)
  from suf obtain older where o: "?e = older @ cs" by blast
  from srt o have "sorted (map x_at cs)" by (metis map_append sorted_append)
  moreover from el o have "list_all (\<lambda>x. since < x_at x \<and> x_at x < triggerAt \<and> x_post x \<noteq> trigger) cs" by simp
  ultimately show ?thesis using suf len unfolding Let_def cs_def by blast
qed

subsection \<open>Frames do not depend on how the stream is cut\<close>

lemma starts_with_mono: "starts_with a p \<Longrightarrow> starts_with (a @ b) p"
  by (auto simp: starts_with_iff)

lemma starts_with_shorten: "starts_with (a @ b) p \<Longrightarrow> length p \<le> length a \<Longrightarrow> starts_with a p"
  by (metis append_Nil2 diff_is_0_eq starts_with_take_iff take0 take_append)

lemma index_of_bound: "index_of a p = Some i \<Longrightarrow> i + length p \<le> length a"
  by (induction a arbitrary: i) (auto split: if_splits dest: starts_with_length)

lemma index_of_append: "index_of a p = Some i \<Longrightarrow> index_of (a @ b) p = Some i"
proof (induction a arbitrary: i)
  case Nil
  then show ?case by (cases b) (auto split: if_splits)
next
  case (Cons c a)
  show ?case
  proof (cases "starts_with (c # a) p")
    case True
    with Cons.prems starts_with_mono [OF True, of b] show ?thesis by simp
  next
    case False
    with Cons.prems obtain j where j: "index_of a p = Some j" "i = Suc j" by auto
    then have "\<not> starts_with (c # a @ b) p"
      using False starts_with_shorten [of "c # a" b p] index_of_bound [OF j(1)] by auto
    with Cons.IH [OF j(1)] j show ?thesis by simp
  qed
qed

lemma frame_bound: "index_of a frame_end = Some i \<Longrightarrow> i + 2 \<le> length a"
  using index_of_bound [of a frame_end i] by (simp add: frame_end_def)

lemma take_frames_fuel: "length a \<le> n \<Longrightarrow> length a \<le> m \<Longrightarrow> take_frames n a = take_frames m a"
proof (induction n arbitrary: a m)
  case 0
  then show ?case by (cases m) (simp_all add: frame_end_def)
next
  case (Suc n)
  show ?case
  proof (cases m)
    case 0
    with Suc.prems show ?thesis by (simp add: frame_end_def)
  next
    case (Suc k)
    have "take_frames n (drop (i + 2) a) = take_frames k (drop (i + 2) a)" if "index_of a frame_end = Some i" for i
      using Suc.IH [of "drop (i + 2) a" k] Suc.prems Suc frame_bound [OF that] by simp
    then show ?thesis unfolding Suc by (auto split: option.split)
  qed
qed

lemma take_frames_append:
  "length a \<le> n \<Longrightarrow> length (a @ b) \<le> m \<Longrightarrow> take_frames n a = (fs, r) \<Longrightarrow>
   take_frames m (a @ b) = (case take_frames (length (r @ b)) (r @ b) of (gs, q) \<Rightarrow> (fs @ gs, q))"
proof (induction n arbitrary: a m fs)
  case 0
  then show ?case using take_frames_fuel [of b m "length b"] by (simp split: prod.split)
next
  case (Suc n)
  show ?case
  proof (cases "index_of a frame_end")
    case None
    with Suc.prems have "fs = []" "r = a" by simp_all
    then show ?thesis using take_frames_fuel [of "a @ b" m "length (a @ b)"] Suc.prems(2) by (simp split: prod.split)
  next
    case (Some i)
    have i: "i + 2 \<le> length a" "index_of (a @ b) frame_end = Some i"
      using frame_bound [OF Some] index_of_append [OF Some] by simp_all
    obtain k where m: "m = Suc k" using Suc.prems(2) i(1) by (cases m) auto
    obtain fs' where f: "take_frames n (drop (i + 2) a) = (fs', r)" "fs = take i a # fs'"
      using Suc.prems(3) Some by (auto split: prod.splits)
    have "take_frames k (drop (i + 2) a @ b) = (case take_frames (length (r @ b)) (r @ b) of (gs, q) \<Rightarrow> (fs' @ gs, q))"
      using Suc.prems i m f(1) by (intro Suc.IH) auto
    with i m f(2) show ?thesis by (auto split: prod.split)
  qed
qed

lemma take_frames_none: "fst (take_frames n a) = [] \<Longrightarrow> take_frames n a = ([], a)"
  by (cases n) (auto split: option.splits prod.splits)

lemma normalize_id: "CHR 0x0D \<notin> set s \<Longrightarrow> normalize_crlf s = s"
  by (induction s rule: normalize_crlf.induct) auto

text \<open>
  Where the network cuts a stream of line-feed frames does not matter: any chunking yields the
  frames, and the remainder, of the whole text, so no event is lost, doubled or torn.
\<close>

theorem frames_independent_of_chunks:
  assumes "CHR 0x0D \<notin> set (concat chunks)"
  shows "sse_stream [] chunks = take_frames (length (concat chunks)) (concat chunks)"
proof -
  have "sse_stream r chunks = (case take_frames (length (r @ concat chunks)) (r @ concat chunks) of (gs, q) \<Rightarrow> (gs, q))"
    if "fst (take_frames (length r) r) = []" for r
    using assms that
  proof (induction chunks arbitrary: r)
    case Nil
    then show ?case using take_frames_none [of "length r" r] by (simp split: prod.split)
  next
    case (Cons c cs)
    obtain fs q where f: "take_frames (length (r @ c)) (r @ c) = (fs, q)" by fastforce
    have feed: "sse_feed r c = (fs, q)" using Cons.prems(1) f by (simp add: sse_feed_def normalize_id Let_def)
    have q: "take_frames (length q) q = ([], q)"
      using take_frames_append [of "r @ c" "length (r @ c)" "[]" "length (r @ c)" fs q] f
      by (cases "take_frames (length q) q") auto
    have "take_frames (length (r @ c @ concat cs)) ((r @ c) @ concat cs) =
        (case take_frames (length (q @ concat cs)) (q @ concat cs) of (gs, p) \<Rightarrow> (fs @ gs, p))"
      using f by (intro take_frames_append [of "r @ c" "length (r @ c)"]) simp_all
    with Cons.IH [of q] Cons.prems(1) q feed show ?case by (auto split: prod.splits)
  qed
  then show ?thesis by (simp split: prod.split)
qed

definition demo_chunks :: "string list" where
  "demo_chunks = [''data: 1'', frame_end @ ''data: '', ''2'' @ frame_end @ ''da'']"

theorem frames_independent_of_chunks_witness:
  "map sse_data (fst (sse_stream [] demo_chunks)) = [''1'', ''2'']"
proof -
  have c: "CHR 0x0D \<notin> set (concat demo_chunks)" by code_simp
  have "map sse_data (fst (take_frames (length (concat demo_chunks)) (concat demo_chunks))) = [''1'', ''2'']" by code_simp
  then show ?thesis by (simp only: frames_independent_of_chunks [OF c])
qed

text \<open>
  The same does not hold for carriage returns. Line ends are normalized chunk by chunk, so a
  \<open>\r\n\<close> cut between two chunks keeps its \<open>\r\<close>, the frame before it is not found, and its data and the
  next frame's come out as one frame, which is no JSON any more.
\<close>

theorem crlf_cut_merges_frames:
  "\<exists>a b. map sse_data (fst (sse_stream [] [a @ b])) = [''1'', ''2''] \<and>
     map sse_data (fst (sse_stream [] [a, b])) = [[CHR ''1'', CHR 0x0A, CHR ''2'']]"
proof (intro exI conjI)
  let ?crlf = "[CHR 0x0D, CHR 0x0A]"
  let ?a = "''data: 1'' @ ?crlf @ [CHR 0x0D]" and ?b = "[CHR 0x0A] @ ''data: 2'' @ ?crlf @ ?crlf"
  show "map sse_data (fst (sse_stream [] [?a @ ?b])) = [''1'', ''2'']" by code_simp
  show "map sse_data (fst (sse_stream [] [?a, ?b])) = [[CHR ''1'', CHR 0x0A, CHR ''2'']]" by code_simp
qed

end
