(* ===== verification/Game_Wakes.thy ===== *)
theory Game_Wakes
  imports Js_Values
begin

text \<open>
  The wake loop of chat games (\<open>plugin/src/widgets/wake.ts\<close>): signals that a game waits on the agent
  become one silent turn per move. Game states are shared by reference with the runs that await a
  read or a turn, so they live in a heap and \<open>games\<close> maps a widget to its address. The inbound lane
  is the FIFO \<open>queue\<close> with the one task that is \<open>running\<close>; every await of the source is a step
  boundary. The clock, the snooze flag and every answer of the server are arguments of the steps;
  \<open>wakes\<close> records each dispatched turn, with the time its turn ended.
\<close>

section \<open>Signals\<close>

record widget_signal =
  widgetId :: string
  channelId :: string
  rev :: rat
  kind :: string
  seat :: "string option"
  waiting :: bool
  status :: string

definition widgetTurnSignal :: "jsval \<Rightarrow> jsval \<Rightarrow> widget_signal option" where
  "widgetTurnSignal channel data =
     (if \<not> truthy data \<or> \<not> typeof_object data then None
      else case (as_str (jget data ''widget_id''), as_str channel, as_finite (jget data ''rev''), as_str (jget data ''status'')) of
        (Some w, Some c, Some r, Some st) \<Rightarrow>
          if w = [] then None
          else Some \<lparr>widgetId = w, channelId = c, rev = r,
            kind = (case as_str (jget data ''kind'') of Some k \<Rightarrow> k | None \<Rightarrow> []),
            seat = as_str (jget data ''seat''),
            waiting = (jget data ''waiting'' = JBool True),
            status = st\<rparr>
      | _ \<Rightarrow> None)"

text \<open>The own properties a spread copies; a string's characters and an array's items have none of the names read.\<close>

fun own_entries :: "jsval \<Rightarrow> (string \<times> jsval) list" where
  "own_entries (JObj ps) = ps"
| "own_entries _ = []"

definition waiting_signal :: "jsval \<Rightarrow> widget_signal option" where
  "waiting_signal channel =
     (if \<not> truthy channel \<or> \<not> typeof_object channel then None
      else let w = jget channel ''widget_waiting''
      in if \<not> truthy w then None
         else widgetTurnSignal (jget channel ''channel_id'')
           (JObj ((''waiting'', JBool True) # (''status'', JStr ''active'') # own_entries w)))"

definition waitingSignals :: "jsval \<Rightarrow> widget_signal list" where
  "waitingSignals raw =
     (let channels = (if is_array raw then raw
                      else if truthy raw \<and> typeof_object raw then jget raw ''channels'' else JUndef)
      in case as_arr channels of None \<Rightarrow> [] | Some cs \<Rightarrow> List.map_filter waiting_signal cs)"

text \<open>The private view of a game, with what the loop reads of it.\<close>

record widget_player =
  player_id :: "string option"
  player_name :: string

record widget_view =
  v_widget :: string
  v_channel :: string
  v_kind :: string
  v_status :: string
  v_rev :: rat
  v_seat :: "string option"
  v_your_move :: bool
  v_players :: "widget_player list"
  v_started_by :: "string option"

text \<open>A summary is a view without the board.\<close>

definition summarySignal :: "widget_view \<Rightarrow> widget_signal" where
  "summarySignal v = \<lparr>widgetId = v_widget v, channelId = v_channel v, rev = v_rev v, kind = v_kind v,
     seat = v_seat v, waiting = v_your_move v, status = v_status v\<rparr>"

text \<open>
  The synthetic inbound message of a wake; \<open>num\<close> is the decimal form of a number, and the body is
  built from the view by the caller's \<open>body\<close>.
\<close>

record wake_message =
  m_channelId :: string
  m_postId :: string
  m_senderId :: string
  m_body :: string
  m_createAt :: int
  m_channelType :: "string option"
  m_widget :: "string \<times> rat \<times> string \<times> string"

definition truthy_opt :: "string option \<Rightarrow> bool" where
  "truthy_opt s = (s \<noteq> None \<and> s \<noteq> Some [])"

definition wakeMessage ::
  "(rat \<Rightarrow> string) \<Rightarrow> (widget_view \<Rightarrow> string) \<Rightarrow> widget_view \<Rightarrow> string option \<Rightarrow> int \<Rightarrow> nat \<Rightarrow> wake_message" where
  "wakeMessage num body v ctype createAt attempt =
     (let opponent = List.find (\<lambda>p. truthy_opt (player_id p)) (v_players v)
      in \<lparr>m_channelId = v_channel v,
          m_postId = ''widget-'' @ v_widget v @ ''-r'' @ num (v_rev v) @ ''-a'' @ show_nat attempt,
          m_senderId = (case opponent of
             Some p \<Rightarrow> the (player_id p)
           | None \<Rightarrow> (case v_started_by v of Some s \<Rightarrow> s | None \<Rightarrow> ''widget:'' @ v_widget v)),
          m_body = body v, m_createAt = createAt, m_channelType = ctype,
          m_widget = (v_widget v, v_rev v, v_kind v, (case v_seat v of Some s \<Rightarrow> s | None \<Rightarrow> []))\<rparr>)"

section \<open>State\<close>

definition WAKE_RETRY_BACKOFF_MS :: "int list" where
  "WAKE_RETRY_BACKOFF_MS = [60000, 5 * 60000, 15 * 60000]"

definition CLEANUP_RETRY_MS :: "int list" where
  "CLEANUP_RETRY_MS = [60000, 5 * 60000, 15 * 60000]"

definition ENDED_MEMORY :: nat where "ENDED_MEMORY = 500"

text \<open>\<open>at\<close> is \<open>None\<close> for \<open>Number.POSITIVE_INFINITY\<close>, while the turn runs.\<close>

record woken_rec =
  w_rev :: rat
  w_at :: "int option"
  w_attempts :: nat

record game =
  g_channel :: string
  latestRev :: rat
  pending :: "widget_signal option"
  g_queued :: bool
  woken :: "woken_rec option"
  retry :: "widget_signal option"

datatype task = RunGame string | Cleanup string string nat

text \<open>The task that holds the lane: at its read, in its turn, or in the deletion of a session.\<close>

datatype phase = Reading string nat | Dispatching string nat widget_view | Cleaning string string nat

record wake_entry =
  e_game :: nat
  e_widget :: string
  e_rev :: rat
  e_attempt :: nat
  e_start :: int
  e_end :: "int option"

record wake_state =
  heap :: "game list"
  games :: "(string, nat) jsmap"
  ended :: "string list"
  disposed :: bool
  queue :: "task list"
  running :: "phase option"
  cleanupTimers :: "(string \<times> string \<times> nat) list"
  wakes :: "wake_entry list"

definition wakes_init :: wake_state where
  "wakes_init = \<lparr>heap = [], games = [], ended = [], disposed = False, queue = [], running = None,
     cleanupTimers = [], wakes = []\<rparr>"

text \<open>What the account configures: who \<open>allowFrom\<close> admits, and whether sessions of ended games are dropped.\<close>

record wake_deps =
  allowed :: "string \<Rightarrow> bool"
  hasEnded :: bool

section \<open>Operations\<close>

definition seated :: "wake_state \<Rightarrow> string \<Rightarrow> bool" where
  "seated s w = (mget (games s) w \<noteq> None \<or> w \<in> set (ended s))"

definition upd :: "nat \<Rightarrow> (game \<Rightarrow> game) \<Rightarrow> wake_state \<Rightarrow> wake_state" where
  "upd a f s = s\<lparr>heap := (heap s)[a := f (heap s ! a)]\<rparr>"

definition cancelRetry :: "nat \<Rightarrow> wake_state \<Rightarrow> wake_state" where
  "cancelRetry a s = upd a (\<lambda>g. g\<lparr>retry := None\<rparr>) s"

definition game_of :: "string \<Rightarrow> string \<Rightarrow> wake_state \<Rightarrow> nat \<times> wake_state" where
  "game_of w c s = (case mget (games s) w of
      Some a \<Rightarrow> (a, s)
    | None \<Rightarrow> (length (heap s),
        s\<lparr>heap := heap s @ [\<lparr>g_channel = c, latestRev = -1, pending = None, g_queued = False, woken = None, retry = None\<rparr>],
          games := mset_key w (length (heap s)) (games s)\<rparr>))"

definition due :: "game \<Rightarrow> rat \<Rightarrow> int \<Rightarrow> bool" where
  "due g r now = (case woken g of
      None \<Rightarrow> True
    | Some k \<Rightarrow> w_rev k \<noteq> r \<or>
        (w_attempts k - 1 < length WAKE_RETRY_BACKOFF_MS \<and>
         (case w_at k of None \<Rightarrow> False | Some t \<Rightarrow> t + WAKE_RETRY_BACKOFF_MS ! (w_attempts k - 1) \<le> now)))"

definition cleanup :: "wake_deps \<Rightarrow> string \<Rightarrow> string \<Rightarrow> nat \<Rightarrow> wake_state \<Rightarrow> wake_state" where
  "cleanup d w c attempt s =
     (if \<not> hasEnded d \<or> (0 < attempt \<and> disposed s) then s
      else s\<lparr>queue := queue s @ [Cleanup w c attempt]\<rparr>)"

definition remember_ended :: "string list \<Rightarrow> string \<Rightarrow> string list" where
  "remember_ended xs w = sadd w (if ENDED_MEMORY \<le> length xs then tl xs else xs)"

definition end_game :: "wake_deps \<Rightarrow> string \<Rightarrow> string \<Rightarrow> wake_state \<Rightarrow> wake_state" where
  "end_game d w c s =
     (let g = mget (games s) w;
          s1 = (case g of None \<Rightarrow> s | Some a \<Rightarrow> cancelRetry a s);
          s2 = s1\<lparr>games := mdel w (games s1), ended := remember_ended (ended s1) w\<rparr>
      in cleanup d w (case g of None \<Rightarrow> c | Some a \<Rightarrow> g_channel (heap s ! a)) 0 s2)"

definition offer :: "wake_deps \<Rightarrow> widget_signal \<Rightarrow> int \<Rightarrow> bool \<Rightarrow> wake_state \<Rightarrow> wake_state" where
  "offer d sg now snoozed s =
     (if disposed s \<or> widgetId sg \<in> set (ended s) then s
      else if status sg \<noteq> ''active'' then end_game d (widgetId sg) (channelId sg) s
      else let (a, s1) = game_of (widgetId sg) (channelId sg) s
      in if rev sg < latestRev (heap s1 ! a) then s1
         else let s2 = upd a (\<lambda>g. g\<lparr>latestRev := rev sg\<rparr>) s1
         in if \<not> waiting sg then cancelRetry a (upd a (\<lambda>g. g\<lparr>pending := None\<rparr>) s2)
            else if snoozed then s2
            else if \<not> due (heap s2 ! a) (rev sg) now then s2
            else let s3 = upd a (\<lambda>g. g\<lparr>pending := Some sg\<rparr>) s2
            in if g_queued (heap s3 ! a) then s3
               else (upd a (\<lambda>g. g\<lparr>g_queued := True\<rparr>) s3)\<lparr>queue := queue s3 @ [RunGame (widgetId sg)]\<rparr>)"

definition dispose :: "wake_state \<Rightarrow> wake_state" where
  "dispose s = fold (\<lambda>e. cancelRetry (snd e)) (games s) (s\<lparr>disposed := True\<rparr>)"

text \<open>\<open>#run\<close> up to its read.\<close>

definition run_begin :: "string \<Rightarrow> bool \<Rightarrow> wake_state \<Rightarrow> wake_state" where
  "run_begin w snoozed s = (case mget (games s) w of
      None \<Rightarrow> s
    | Some a \<Rightarrow>
        let sg = pending (heap s ! a);
            s1 = upd a (\<lambda>g. g\<lparr>g_queued := False, pending := None\<rparr>) s
        in if sg = None \<or> disposed s \<or> snoozed then s1
           else s1\<lparr>running := Some (Reading w a)\<rparr>)"

text \<open>The lane takes its next task once the one before it has ended.\<close>

definition lane_next :: "bool \<Rightarrow> wake_state \<Rightarrow> wake_state" where
  "lane_next snoozed s = (if running s \<noteq> None then s else case queue s of
      [] \<Rightarrow> s
    | RunGame w # q \<Rightarrow> run_begin w snoozed (s\<lparr>queue := q\<rparr>)
    | Cleanup w c n # q \<Rightarrow> s\<lparr>queue := q, running := Some (Cleaning w c n)\<rparr>)"

text \<open>The server's answer to the read: the view, a 404, or any other failure.\<close>

datatype read_result = View widget_view | NotFound | ReadFailed

definition blocked :: "wake_deps \<Rightarrow> widget_view \<Rightarrow> bool" where
  "blocked d v = (\<exists>p \<in> set (v_players v). truthy_opt (player_id p) \<and> \<not> allowed d (the (player_id p)))"

definition read_done :: "wake_deps \<Rightarrow> read_result \<Rightarrow> int \<Rightarrow> wake_state \<Rightarrow> wake_state" where
  "read_done d res now s0 = (case running s0 of
      Some (Reading w a) \<Rightarrow>
        (let s = s0\<lparr>running := None\<rparr> in
         case res of
           NotFound \<Rightarrow> end_game d w (g_channel (heap s ! a)) s
         | ReadFailed \<Rightarrow> s
         | View v \<Rightarrow>
             if v_status v \<noteq> ''active'' then end_game d w (v_channel v) s
             else let s1 = upd a (\<lambda>g. g\<lparr>latestRev := max (latestRev g) (v_rev v)\<rparr>) s
             in if \<not> v_your_move v \<or> \<not> truthy_opt (v_seat v) then s1
                else if \<not> due (heap s1 ! a) (v_rev v) now then s1
                else if blocked d v then
                  upd a (\<lambda>g. g\<lparr>woken := Some \<lparr>w_rev = v_rev v, w_at = Some now,
                      w_attempts = length WAKE_RETRY_BACKOFF_MS + 1\<rparr>\<rparr>) s1
                else let n = (case woken (heap s1 ! a) of
                         Some k \<Rightarrow> if w_rev k = v_rev v then w_attempts k + 1 else 1 | None \<Rightarrow> 1);
                       s2 = cancelRetry a (upd a (\<lambda>g. g\<lparr>woken := Some \<lparr>w_rev = v_rev v, w_at = None, w_attempts = n\<rparr>\<rparr>) s1)
                  in s2\<lparr>running := Some (Dispatching w a v),
                       wakes := wakes s2 @ [\<lparr>e_game = a, e_widget = w, e_rev = v_rev v, e_attempt = n,
                                             e_start = now, e_end = None\<rparr>]\<rparr>)
    | _ \<Rightarrow> s0)"

definition scheduleRetry :: "string \<Rightarrow> nat \<Rightarrow> widget_view \<Rightarrow> wake_state \<Rightarrow> wake_state" where
  "scheduleRetry w a v s = (case woken (heap s ! a) of
      None \<Rightarrow> s
    | Some k \<Rightarrow>
        if length WAKE_RETRY_BACKOFF_MS \<le> w_attempts k - 1 \<or> disposed s \<or> mget (games s) w \<noteq> Some a then s
        else upd a (\<lambda>g. g\<lparr>retry := Some \<lparr>widgetId = w, channelId = v_channel v, rev = w_rev k, kind = v_kind v,
                         seat = v_seat v, waiting = True, status = ''active''\<rparr>\<rparr>) s)"

definition close_last :: "int \<Rightarrow> wake_entry list \<Rightarrow> wake_entry list" where
  "close_last now es = (if es = [] then [] else butlast es @ [(last es)\<lparr>e_end := Some now\<rparr>])"

text \<open>
  The turn settled, or threw: the \<open>finally\<close> block. The claimed record is still the game's, since no
  other run holds the lane.
\<close>

definition dispatch_done :: "int \<Rightarrow> wake_state \<Rightarrow> wake_state" where
  "dispatch_done now s = (case running s of
      Some (Dispatching w a v) \<Rightarrow>
        scheduleRetry w a v
          ((upd a (\<lambda>g. g\<lparr>woken := map_option (\<lambda>k. k\<lparr>w_at := Some now\<rparr>) (woken g)\<rparr>) s)
             \<lparr>running := None, wakes := close_last now (wakes s)\<rparr>)
    | _ \<Rightarrow> s)"

datatype cleanup_outcome = Busy | Deleted | CleanupFailed

definition cleanup_done :: "cleanup_outcome \<Rightarrow> wake_state \<Rightarrow> wake_state" where
  "cleanup_done res s = (case running s of
      Some (Cleaning w c n) \<Rightarrow>
        (let s1 = s\<lparr>running := None\<rparr>
         in if res \<noteq> Busy \<or> length CLEANUP_RETRY_MS \<le> n \<or> disposed s then s1
            else s1\<lparr>cleanupTimers := cleanupTimers s1 @ [(w, c, n + 1)]\<rparr>)
    | _ \<Rightarrow> s)"

definition retry_fires :: "wake_deps \<Rightarrow> nat \<Rightarrow> int \<Rightarrow> bool \<Rightarrow> wake_state \<Rightarrow> wake_state" where
  "retry_fires d a now snoozed s =
     (if length (heap s) \<le> a then s
      else case retry (heap s ! a) of None \<Rightarrow> s | Some sg \<Rightarrow> offer d sg now snoozed (cancelRetry a s))"

definition cleanup_fires :: "wake_deps \<Rightarrow> nat \<Rightarrow> wake_state \<Rightarrow> wake_state" where
  "cleanup_fires d i s =
     (if i < length (cleanupTimers s)
      then (case cleanupTimers s ! i of (w, c, n) \<Rightarrow>
        cleanup d w c n (s\<lparr>cleanupTimers := take i (cleanupTimers s) @ drop (Suc i) (cleanupTimers s)\<rparr>))
      else s)"

datatype wake_step = Offer widget_signal int bool | LaneNext bool | ReadDone read_result int | TurnDone int
  | CleanupDone cleanup_outcome | RetryFires nat int bool | CleanupFires nat | Dispose

fun wakes_do :: "wake_deps \<Rightarrow> wake_state \<Rightarrow> wake_step \<Rightarrow> wake_state" where
  "wakes_do d s (Offer sg now z) = offer d sg now z s"
| "wakes_do d s (LaneNext z) = lane_next z s"
| "wakes_do d s (ReadDone res now) = read_done d res now s"
| "wakes_do d s (TurnDone now) = dispatch_done now s"
| "wakes_do d s (CleanupDone res) = cleanup_done res s"
| "wakes_do d s (RetryFires a now z) = retry_fires d a now z s"
| "wakes_do d s (CleanupFires i) = cleanup_fires d i s"
| "wakes_do d s Dispose = dispose s"

section \<open>Well-formed states\<close>

lemma remember_ended_evicting: "remember_ended = remember_evicting ENDED_MEMORY"
  by (intro ext) (simp add: remember_ended_def remember_evicting_def)

interpretation ended_games: bounded_memory remember_ended ENDED_MEMORY
  unfolding remember_ended_evicting by (rule bounded_memory_evicting) (simp add: ENDED_MEMORY_def)

definition wakes_wf :: "wake_state \<Rightarrow> bool" where
  "wakes_wf s \<longleftrightarrow>
     (\<forall>w a. mget (games s) w = Some a \<longrightarrow> a < length (heap s) \<and> w \<notin> set (ended s) \<and>
        (g_queued (heap s ! a) \<longrightarrow> RunGame w \<in> set (queue s))) \<and>
     (\<forall>w w' a. mget (games s) w = Some a \<longrightarrow> mget (games s) w' = Some a \<longrightarrow> w = w') \<and>
     distinct (ended s) \<and> length (ended s) \<le> ENDED_MEMORY \<and>
     (\<forall>w a. running s = Some (Reading w a) \<longrightarrow> a < length (heap s)) \<and>
     (\<forall>g \<in> set (heap s). \<forall>k. woken g = Some k \<longrightarrow> 1 \<le> w_attempts k \<and> w_attempts k \<le> 4)"

lemma upd_sel [simp]:
  "games (upd a f s) = games s" "ended (upd a f s) = ended s" "disposed (upd a f s) = disposed s"
  "queue (upd a f s) = queue s" "running (upd a f s) = running s" "wakes (upd a f s) = wakes s"
  "cleanupTimers (upd a f s) = cleanupTimers s" "length (heap (upd a f s)) = length (heap s)"
  by (simp_all add: upd_def)

lemma heap_upd: "b < length (heap s) \<Longrightarrow> heap (upd a f s) ! b = (if a = b then f (heap s ! b) else heap s ! b)"
  by (simp add: upd_def nth_list_update)

lemma set_heap_upd: "g \<in> set (heap (upd a f s)) \<Longrightarrow> g \<in> set (heap s) \<or> (a < length (heap s) \<and> g = f (heap s ! a))"
proof -
  assume "g \<in> set (heap (upd a f s))"
  then have "g \<in> set ((heap s)[a := f (heap s ! a)])" by (simp add: upd_def)
  then show ?thesis
    by (metis in_set_conv_nth length_list_update list_update_beyond not_less nth_list_update_eq nth_list_update_neq)
qed

text \<open>Changes of one game that neither queue it nor break its wake counter.\<close>

definition harmless :: "(game \<Rightarrow> game) \<Rightarrow> bool" where
  "harmless f \<longleftrightarrow> (\<forall>g. (g_queued (f g) \<longrightarrow> g_queued g) \<and>
     (\<forall>k. woken (f g) = Some k \<longrightarrow> woken g = Some k \<or> (1 \<le> w_attempts k \<and> w_attempts k \<le> 4) \<or>
        (\<exists>k'. woken g = Some k' \<and> w_attempts k = w_attempts k')))"

lemma wf_upd: "wakes_wf s \<Longrightarrow> harmless f \<Longrightarrow> wakes_wf (upd a f s)"
  unfolding wakes_wf_def harmless_def
  by (auto simp: heap_upd dest!: set_heap_upd) (metis One_nat_def nth_mem)+

lemma wf_cancelRetry: "wakes_wf s \<Longrightarrow> wakes_wf (cancelRetry a s)"
  unfolding cancelRetry_def by (rule wf_upd) (auto simp: harmless_def)

lemma wf_running: "wakes_wf s \<Longrightarrow> (\<And>w a. r = Some (Reading w a) \<Longrightarrow> a < length (heap s)) \<Longrightarrow> wakes_wf (s\<lparr>running := r\<rparr>)"
  by (simp add: wakes_wf_def)

lemma wf_idle: "wakes_wf s \<Longrightarrow> wakes_wf (s\<lparr>running := None\<rparr>)"
  by (rule wf_running) simp_all

lemma wf_wakes: "wakes_wf (s\<lparr>wakes := e\<rparr>) = wakes_wf s"
  by (simp add: wakes_wf_def)

lemma wf_queue: "wakes_wf s \<Longrightarrow> set (queue s) \<subseteq> set q \<Longrightarrow> wakes_wf (s\<lparr>queue := q\<rparr>)"
  by (auto simp: wakes_wf_def)

lemma wf_cleanup: "wakes_wf s \<Longrightarrow> wakes_wf (cleanup d w c n s)"
  by (auto simp: cleanup_def intro: wf_queue)

lemma wf_forget:
  assumes wf: "wakes_wf m"
  shows "wakes_wf (m\<lparr>games := mdel w (games m), ended := remember_ended (ended m) w\<rparr>)"
proof -
  have e: "distinct (ended m)" "length (ended m) \<le> ENDED_MEMORY" using wf by (simp_all add: wakes_wf_def)
  have sub: "v = w \<or> v \<in> set (ended m)" if "v \<in> set (remember_ended (ended m) w)" for v
    using that ended_games.remember_subset [of "ended m" w] by blast
  have live: "v \<noteq> w \<and> mget (games m) v = Some a" if "mget (mdel w (games m)) v = Some a" for v a
    using that by (simp split: if_splits)
  show ?thesis
    using wf ended_games.remember_distinct [OF e(1)] ended_games.remember_bound [OF e]
    unfolding wakes_wf_def by (auto dest: sub live)
qed

lemma wf_end_game: "wakes_wf s \<Longrightarrow> wakes_wf (end_game d w c s)"
  by (auto simp: end_game_def Let_def wf_cancelRetry wf_forget intro!: wf_cleanup split: option.split)

lemma game_of_frame:
  assumes "game_of w c s = (a, s')"
  shows "ended s' = ended s" "queue s' = queue s" "running s' = running s" "wakes s' = wakes s"
    "disposed s' = disposed s" "mget (games s') w = Some a"
    "w' \<noteq> w \<Longrightarrow> mget (games s') w' = mget (games s) w'"
    "b < length (heap s) \<Longrightarrow> heap s' ! b = heap s ! b" "length (heap s) \<le> length (heap s')"
  using assms by (auto simp: game_of_def nth_append split: option.splits)

lemma wf_game_of:
  assumes "wakes_wf s" and "w \<notin> set (ended s)" and "game_of w c s = (a, s')"
  shows "wakes_wf s'"
proof (cases "mget (games s) w")
  case None
  with assms have "s' = s\<lparr>heap := heap s @ [\<lparr>g_channel = c, latestRev = -1, pending = None, g_queued = False,
      woken = None, retry = None\<rparr>], games := mset_key w (length (heap s)) (games s)\<rparr>"
    by (auto simp: game_of_def)
  with assms(1,2) show ?thesis
    unfolding wakes_wf_def by (auto simp: nth_append less_Suc_eq)
qed (use assms in \<open>simp add: game_of_def\<close>)

lemma wf_enqueue_game:
  assumes "wakes_wf s" and "mget (games s) w = Some a" and "q = queue s @ [RunGame w]"
  shows "wakes_wf ((upd a (\<lambda>g. g\<lparr>g_queued := True\<rparr>) s)\<lparr>queue := q\<rparr>)"
proof -
  have "v = w" if "mget (games s) v = Some a" for v
    using assms that unfolding wakes_wf_def by blast
  moreover have "\<forall>g \<in> set (heap (upd a (\<lambda>g. g\<lparr>g_queued := True\<rparr>) s)). \<forall>k. woken g = Some k \<longrightarrow> 1 \<le> w_attempts k \<and> w_attempts k \<le> 4"
    using assms(1) unfolding wakes_wf_def by (fastforce dest!: set_heap_upd dest: nth_mem)
  ultimately show ?thesis
    using assms unfolding wakes_wf_def by (auto simp: heap_upd)
qed

lemma wf_offer:
  assumes wf: "wakes_wf s"
  shows "wakes_wf (offer d sg now z s)"
proof (cases "disposed s \<or> widgetId sg \<in> set (ended s) \<or> status sg \<noteq> ''active''")
  case False
  obtain a s1 where g: "game_of (widgetId sg) (channelId sg) s = (a, s1)" by fastforce
  have s1: "wakes_wf s1" using False wf g wf_game_of by blast
  have m: "mget (games s1) (widgetId sg) = Some a" using g by (rule game_of_frame)
  have h: "harmless (\<lambda>g. g\<lparr>latestRev := r\<rparr>)" "harmless (\<lambda>g. g\<lparr>pending := p\<rparr>)" for r p
    by (auto simp: harmless_def)
  show ?thesis
    using False s1 m h g by (auto simp: offer_def Let_def intro!: wf_upd wf_cancelRetry wf_enqueue_game)
qed (use wf in \<open>auto simp: offer_def wf_end_game\<close>)

lemma wf_lane_next:
  assumes wf: "wakes_wf s"
  shows "wakes_wf (lane_next z s)"
proof (cases "running s = None \<and> queue s \<noteq> []")
  case True
  then obtain t q where q: "queue s = t # q" by (cases "queue s") auto
  show ?thesis
  proof (cases t)
    case (Cleanup w c n)
    with wf True q show ?thesis by (auto simp: lane_next_def wakes_wf_def)
  next
    case (RunGame w)
    show ?thesis
    proof (cases "mget (games s) w")
      case None
      then have "RunGame v \<in> set q" if "mget (games s) v = Some a" "g_queued (heap s ! a)" for v a
        using wf that q RunGame unfolding wakes_wf_def by (metis option.distinct(1) set_ConsD task.inject(1))
      then have "wakes_wf (s\<lparr>queue := q\<rparr>)" using wf unfolding wakes_wf_def by simp
      with True q RunGame None show ?thesis by (simp add: lane_next_def run_begin_def)
    next
      case (Some a)
      let ?s = "upd a (\<lambda>g. g\<lparr>g_queued := False, pending := None\<rparr>) s"
      have "wakes_wf ?s" using wf by (auto intro!: wf_upd simp: harmless_def)
      moreover have "\<not> g_queued (heap ?s ! a)" using wf Some unfolding wakes_wf_def by (auto simp: heap_upd)
      ultimately have "RunGame v \<in> set q" if "mget (games ?s) v = Some b" "g_queued (heap ?s ! b)" for v b
        using q RunGame Some that unfolding wakes_wf_def
        by (metis option.inject set_ConsD task.inject(1) upd_sel(1) upd_sel(4))
      with \<open>wakes_wf ?s\<close> have "wakes_wf (?s\<lparr>queue := q\<rparr>)" unfolding wakes_wf_def by simp
      moreover have "upd a f (s\<lparr>queue := q\<rparr>) = (upd a f s)\<lparr>queue := q\<rparr>" for f by (simp add: upd_def)
      moreover have "a < length (heap s)" using wf Some unfolding wakes_wf_def by blast
      ultimately show ?thesis using True q RunGame Some
        by (auto simp: lane_next_def run_begin_def Let_def intro!: wf_running)
    qed
  qed
qed (use wf in \<open>auto simp: lane_next_def split: list.split\<close>)

text \<open>What the read settles: the next wake of the game read, when there is one.\<close>

definition next_attempt :: "game \<Rightarrow> rat \<Rightarrow> nat" where
  "next_attempt g r = (case woken g of Some k \<Rightarrow> if w_rev k = r then w_attempts k + 1 else 1 | None \<Rightarrow> 1)"

lemma read_done_cases:
  assumes "running s0 = Some (Reading w a)" and "a < length (heap s0)"
  shows "(\<exists>c. read_done d res now s0 = end_game d w c (s0\<lparr>running := None\<rparr>)) \<or>
    (\<exists>f. read_done d res now s0 = upd a f (s0\<lparr>running := None\<rparr>) \<and>
       (\<forall>g. g_queued (f g) = g_queued g) \<and> (\<forall>g. woken (f g) = woken g)) \<or>
    (\<exists>f v. res = View v \<and> read_done d res now s0 = upd a f (s0\<lparr>running := None\<rparr>) \<and>
       (\<forall>g. g_queued (f g) = g_queued g) \<and>
       (\<forall>g. woken (f g) = Some \<lparr>w_rev = v_rev v, w_at = Some now, w_attempts = 4\<rparr>) \<and> due (heap s0 ! a) (v_rev v) now) \<or>
    (\<exists>f v. res = View v \<and> read_done d res now s0 = (upd a f s0)\<lparr>running := Some (Dispatching w a v),
         wakes := wakes s0 @ [\<lparr>e_game = a, e_widget = w, e_rev = v_rev v, e_attempt = next_attempt (heap s0 ! a) (v_rev v),
            e_start = now, e_end = None\<rparr>]\<rparr> \<and>
       (\<forall>g. g_queued (f g) = g_queued g) \<and> due (heap s0 ! a) (v_rev v) now \<and> \<not> blocked d v \<and>
       v_status v = ''active'' \<and> v_your_move v \<and> truthy_opt (v_seat v) \<and>
       (\<forall>g. woken (f g) = Some \<lparr>w_rev = v_rev v, w_at = None, w_attempts = next_attempt (heap s0 ! a) (v_rev v)\<rparr>))"
  (is "?End \<or> ?Skip \<or> ?Refuse \<or> ?Wake")
proof -
  note True = assms(2)
  let ?s = "s0\<lparr>running := None\<rparr>"
  have comp: "upd a f (upd a f' t) = upd a (f \<circ> f') t" if "a < length (heap t)" for f f' t
    using that by (simp add: upd_def)
  have idu: "t = upd a (\<lambda>g. g) t" for t by (simp add: upd_def)
  show ?thesis
  proof (cases res)
    case NotFound
    then have ?End using assms by (auto simp: read_done_def)
    then show ?thesis by blast
  next
    case ReadFailed
    then have "read_done d res now s0 = upd a (\<lambda>g. g) ?s" using assms idu [of ?s] by (simp add: read_done_def)
    then have ?Skip by blast
    then show ?thesis by blast
  next
    case (View v)
    let ?f = "\<lambda>g. g\<lparr>latestRev := max (latestRev g) (v_rev v)\<rparr>"
    have du: "due (heap (upd a ?f ?s) ! a) (v_rev v) now = due (heap s0 ! a) (v_rev v) now"
      using True by (simp add: heap_upd due_def)
    have wk: "woken (heap (upd a ?f ?s) ! a) = woken (heap s0 ! a)" using True by (simp add: heap_upd)
    consider (ended) "v_status v \<noteq> ''active''"
      | (skip) "v_status v = ''active''" "\<not> v_your_move v \<or> \<not> truthy_opt (v_seat v) \<or> \<not> due (heap s0 ! a) (v_rev v) now"
      | (refuse) "v_status v = ''active''" "v_your_move v" "truthy_opt (v_seat v)" "due (heap s0 ! a) (v_rev v) now" "blocked d v"
      | (wake) "v_status v = ''active''" "v_your_move v" "truthy_opt (v_seat v)" "due (heap s0 ! a) (v_rev v) now" "\<not> blocked d v"
      by blast
    then show ?thesis
    proof cases
      case ended
      then have ?End using assms View by (auto simp: read_done_def)
      then show ?thesis by blast
    next
      case skip
      then have "read_done d res now s0 = upd a ?f ?s"
        using assms View du by (auto simp: read_done_def Let_def)
      moreover have "\<forall>g. g_queued (?f g) = g_queued g" "\<forall>g. woken (?f g) = woken g" by simp_all
      ultimately have ?Skip by blast
      then show ?thesis by blast
    next
      case refuse
      let ?g = "\<lambda>g. g\<lparr>woken := Some \<lparr>w_rev = v_rev v, w_at = Some now, w_attempts = 4\<rparr>\<rparr>"
      from refuse have "read_done d res now s0 = upd a (?g \<circ> ?f) ?s"
        using assms View du True by (simp add: read_done_def Let_def comp WAKE_RETRY_BACKOFF_MS_def eval_nat_numeral)
      moreover have "\<forall>g. g_queued ((?g \<circ> ?f) g) = g_queued g"
        "\<forall>g. woken ((?g \<circ> ?f) g) = Some \<lparr>w_rev = v_rev v, w_at = Some now, w_attempts = 4\<rparr>" by simp_all
      ultimately have ?Refuse using refuse View by blast
      then show ?thesis by blast
    next
      case wake
      let ?k = "\<lparr>w_rev = v_rev v, w_at = None, w_attempts = next_attempt (heap s0 ! a) (v_rev v)\<rparr>"
      let ?h = "(\<lambda>g. g\<lparr>retry := None\<rparr>) \<circ> ((\<lambda>g. g\<lparr>woken := Some ?k\<rparr>) \<circ> ?f)"
      from wake have "read_done d res now s0 = (upd a ?h s0)\<lparr>running := Some (Dispatching w a v),
         wakes := wakes s0 @ [\<lparr>e_game = a, e_widget = w, e_rev = v_rev v, e_attempt = next_attempt (heap s0 ! a) (v_rev v),
            e_start = now, e_end = None\<rparr>]\<rparr>"
        using assms View du wk True by (simp add: read_done_def Let_def comp cancelRetry_def next_attempt_def) (simp add: upd_def)
      moreover have "\<forall>g. g_queued (?h g) = g_queued g" "\<forall>g. woken (?h g) = Some ?k" by simp_all
      ultimately have ?Wake using wake View by blast
      then show ?thesis by blast
    qed
  qed
qed

lemma due_same_rev:
  assumes "due g r now" and "woken g = Some k" and "w_rev k = r" and "1 \<le> w_attempts k"
  shows "w_attempts k \<le> 3 \<and> (\<exists>t. w_at k = Some t \<and> t + WAKE_RETRY_BACKOFF_MS ! (w_attempts k - 1) \<le> now)"
  using assms by (auto simp: due_def WAKE_RETRY_BACKOFF_MS_def split: option.splits)

lemma wf_woken: "wakes_wf s \<Longrightarrow> a < length (heap s) \<Longrightarrow> woken (heap s ! a) = Some k \<Longrightarrow> 1 \<le> w_attempts k \<and> w_attempts k \<le> 4"
  unfolding wakes_wf_def by (meson nth_mem)

lemma next_attempt_bounds:
  assumes "wakes_wf s" and "a < length (heap s)" and "due (heap s ! a) r now"
  shows "1 \<le> next_attempt (heap s ! a) r \<and> next_attempt (heap s ! a) r \<le> 4"
  using assms due_same_rev [OF assms(3)] wf_woken [OF assms(1,2)]
  by (fastforce simp: next_attempt_def split: option.split)

lemma wf_reading: "wakes_wf s \<Longrightarrow> running s = Some (Reading w a) \<Longrightarrow> a < length (heap s)"
  by (simp add: wakes_wf_def)

lemma wf_read_done:
  assumes wf: "wakes_wf s"
  shows "wakes_wf (read_done d res now s)"
proof (cases "\<exists>w a. running s = Some (Reading w a)")
  case True
  then obtain w a where r: "running s = Some (Reading w a)" by blast
  have a: "a < length (heap s)" using wf r by (rule wf_reading)
  have idle: "wakes_wf (s\<lparr>running := None\<rparr>)" using wf by (rule wf_running) simp
  from read_done_cases [OF r a, of d res now] consider
      (ended) c where "read_done d res now s = end_game d w c (s\<lparr>running := None\<rparr>)"
    | (quiet) f where "read_done d res now s = upd a f (s\<lparr>running := None\<rparr>)"
        "\<forall>g. g_queued (f g) = g_queued g" "(\<forall>g. woken (f g) = woken g) \<or>
         (\<exists>r. \<forall>g. woken (f g) = Some \<lparr>w_rev = r, w_at = Some now, w_attempts = 4\<rparr>)"
    | (wake) f v e where "read_done d res now s = (upd a f s)\<lparr>running := Some (Dispatching w a v), wakes := e\<rparr>"
        "\<forall>g. g_queued (f g) = g_queued g" "due (heap s ! a) (v_rev v) now"
        "\<forall>g. woken (f g) = Some \<lparr>w_rev = v_rev v, w_at = None, w_attempts = next_attempt (heap s ! a) (v_rev v)\<rparr>"
    by blast
  then show ?thesis
  proof cases
    case ended
    with idle show ?thesis by (simp add: wf_end_game)
  next
    case quiet
    have "harmless f" using quiet(2,3) by (auto simp: harmless_def)
    with quiet(1) idle show ?thesis by (simp add: wf_upd)
  next
    case wake
    have "harmless f" using wake(2,4) next_attempt_bounds [OF wf a wake(3)] by (auto simp: harmless_def)
    with wf have "wakes_wf (upd a f s)" by (rule wf_upd)
    then have "wakes_wf ((upd a f s)\<lparr>running := Some (Dispatching w a v)\<rparr>)" by (rule wf_running) simp
    with wake(1) show ?thesis by (simp add: wf_wakes)
  qed
qed (use wf in \<open>auto simp: read_done_def split: option.split phase.split\<close>)

lemma wf_dispatch_done:
  assumes wf: "wakes_wf s"
  shows "wakes_wf (dispatch_done now s)"
proof (cases "\<exists>w a v. running s = Some (Dispatching w a v)")
  case True
  then obtain w a v where r: "running s = Some (Dispatching w a v)" by blast
  let ?f = "\<lambda>g. g\<lparr>woken := map_option (\<lambda>k. k\<lparr>w_at := Some now\<rparr>) (woken g)\<rparr>"
  have "wakes_wf (upd a ?f s)" using wf by (rule wf_upd) (auto simp: harmless_def)
  then have m: "wakes_wf ((upd a ?f s)\<lparr>running := None, wakes := close_last now (wakes s)\<rparr>)"
    using wf_running [of "upd a ?f s" None] wf_wakes by simp
  have "wakes_wf (scheduleRetry w a v m)" if "wakes_wf m" for m
    using that by (auto simp: scheduleRetry_def harmless_def intro!: wf_upd split: option.split)
  with r m show ?thesis by (simp add: dispatch_done_def)
qed (use wf in \<open>auto simp: dispatch_done_def split: option.split phase.split\<close>)

lemma wf_dispose: "wakes_wf s \<Longrightarrow> wakes_wf (dispose s)"
proof -
  have "wakes_wf m \<Longrightarrow> wakes_wf (fold (\<lambda>e. cancelRetry (snd e)) (gs :: (string, nat) jsmap) m)" for gs m
    by (induction gs arbitrary: m) (simp_all add: wf_cancelRetry)
  moreover have "wakes_wf s \<Longrightarrow> wakes_wf (s\<lparr>disposed := True\<rparr>)" by (simp add: wakes_wf_def)
  ultimately show "wakes_wf s \<Longrightarrow> wakes_wf (dispose s)" by (simp add: dispose_def)
qed

lemma wf_timers: "wakes_wf (s\<lparr>cleanupTimers := t\<rparr>) = wakes_wf s"
  by (simp add: wakes_wf_def)

lemma wf_step: "wakes_wf s \<Longrightarrow> wakes_wf (wakes_do d s e)"
proof (cases e)
  case (CleanupDone res)
  have "wakes_wf s \<Longrightarrow> wakes_wf (s\<lparr>running := None, cleanupTimers := t\<rparr>)" for t
    using wf_running [of s None] wf_timers by simp
  with CleanupDone show "wakes_wf s \<Longrightarrow> ?thesis"
    by (auto simp: cleanup_done_def Let_def wf_idle split: option.split phase.split)
qed (auto simp: wf_offer wf_lane_next wf_read_done wf_dispatch_done wf_dispose retry_fires_def cleanup_fires_def
    wf_cancelRetry wf_timers intro!: wf_cleanup split: option.split prod.split)

interpretation game_wakes: transition_system wakes_init "wakes_do d" wakes_wf for d
  by unfold_locales (simp add: wakes_init_def wakes_wf_def, rule wf_step)

section \<open>Wakes are paced\<close>

text \<open>
  How two successive wakes of one game relate: either the game moved on, or the second is the next
  attempt at the same revision, at most the fourth, and its start is at least the backoff after the
  end of the first one's turn.
\<close>

definition follows :: "wake_entry \<Rightarrow> wake_entry \<Rightarrow> bool" where
  "follows x y \<longleftrightarrow> (e_rev x < e_rev y \<and> e_attempt y = 1) \<or>
     (e_rev y = e_rev x \<and> e_attempt y = e_attempt x + 1 \<and> e_attempt y \<le> 4 \<and>
      (case e_end x of None \<Rightarrow> False | Some t \<Rightarrow> t + WAKE_RETRY_BACKOFF_MS ! (e_attempt x - 1) \<le> e_start y))"

definition paced :: "wake_entry list \<Rightarrow> bool" where
  "paced es \<longleftrightarrow> successively follows es \<and> (es \<noteq> [] \<longrightarrow> e_attempt (hd es) = 1)"

definition wakes_of :: "nat \<Rightarrow> wake_entry list \<Rightarrow> wake_entry list" where
  "wakes_of a es = filter (\<lambda>e. e_game e = a) es"

definition tracks :: "woken_rec option \<Rightarrow> wake_entry list \<Rightarrow> bool" where
  "tracks wk es \<longleftrightarrow> paced es \<and> (wk = None \<and> es = [] \<or> (\<exists>k. wk = Some k \<and>
     (4 \<le> w_attempts k \<and> (es = [] \<or> e_rev (last es) \<le> w_rev k) \<or>
      es \<noteq> [] \<and> w_rev k = e_rev (last es) \<and> e_attempt (last es) = w_attempts k \<and> e_end (last es) = w_at k)))"

definition dispatching :: "phase option \<Rightarrow> bool" where
  "dispatching r = (case r of Some (Dispatching _ _ _) \<Rightarrow> True | _ \<Rightarrow> False)"

definition wakes_paced :: "wake_state \<Rightarrow> bool" where
  "wakes_paced s \<longleftrightarrow> wakes_wf s \<and>
     (\<forall>w a v. running s = Some (Dispatching w a v) \<longrightarrow> a < length (heap s) \<and> wakes s \<noteq> [] \<and> e_game (last (wakes s)) = a) \<and>
     (\<forall>e \<in> set (wakes s). e_game e < length (heap s)) \<and>
     (\<forall>a < length (heap s). tracks (woken (heap s ! a)) (wakes_of a (wakes s)))"

text \<open>The server's revisions do not go back: a read returns no revision older than the last one settled.\<close>

fun fresh_read :: "wake_state \<Rightarrow> wake_step \<Rightarrow> bool" where
  "fresh_read s (ReadDone (View v) now) = (case running s of
      Some (Reading w a) \<Rightarrow> (case woken (heap s ! a) of None \<Rightarrow> True | Some k \<Rightarrow> w_rev k \<le> v_rev v)
    | _ \<Rightarrow> True)"
| "fresh_read s e = True"

text \<open>Steps that dispatch nothing and end no turn.\<close>

definition quiet :: "wake_state \<Rightarrow> wake_state \<Rightarrow> bool" where
  "quiet s t \<longleftrightarrow> wakes t = wakes s \<and> length (heap s) \<le> length (heap t) \<and>
     (\<forall>a < length (heap t). woken (heap t ! a) = (if a < length (heap s) then woken (heap s ! a) else None)) \<and>
     (running t = running s \<or> \<not> dispatching (running t))"

lemma quiet_trans: "quiet s t \<Longrightarrow> quiet t u \<Longrightarrow> quiet s u"
  by (auto simp: quiet_def)

lemma quiet_upd: "(\<And>g. woken (f g) = woken g) \<Longrightarrow> quiet s (upd a f s)"
  by (auto simp: quiet_def heap_upd)

lemma quiet_upd_trans: "quiet s t \<Longrightarrow> (\<And>g. woken (f g) = woken g) \<Longrightarrow> quiet s (upd a f t)"
  using quiet_trans quiet_upd by blast

lemma quiet_refl [simp]: "quiet s s"
  by (simp add: quiet_def)

lemma quiet_fields [simp]:
  "quiet s (t\<lparr>queue := q\<rparr>) = quiet s t" "quiet s (t\<lparr>games := gs\<rparr>) = quiet s t" "quiet s (t\<lparr>ended := en\<rparr>) = quiet s t"
  "quiet s (t\<lparr>disposed := b\<rparr>) = quiet s t" "quiet s (t\<lparr>cleanupTimers := ct\<rparr>) = quiet s t"
  by (simp_all add: quiet_def)

lemma quiet_running: "quiet s t \<Longrightarrow> \<not> dispatching r \<Longrightarrow> quiet s (t\<lparr>running := r\<rparr>)"
  by (simp add: quiet_def)

lemma dispatching_simps [simp]: "\<not> dispatching None" "\<not> dispatching (Some (Reading w a))"
  "\<not> dispatching (Some (Cleaning w c n))" "dispatching (Some (Dispatching w a v))"
  by (simp_all add: dispatching_def)

lemma quiet_cancelRetry: "quiet s t \<Longrightarrow> quiet s (cancelRetry a t)"
  unfolding cancelRetry_def by (rule quiet_upd_trans) simp_all

lemma quiet_cleanup [simp]: "quiet s (cleanup d w c n t) = quiet s t"
  by (simp add: cleanup_def)

lemma quiet_end_game: "quiet s t \<Longrightarrow> quiet s (end_game d w c t)"
  by (auto simp: end_game_def Let_def quiet_cancelRetry split: option.split)

lemma quiet_game_of: "game_of w c s = (a, t) \<Longrightarrow> quiet s t"
  by (auto simp: game_of_def quiet_def nth_append split: option.splits)

lemma quiet_offer: "quiet s t \<Longrightarrow> quiet s (offer d sg now z t)"
proof -
  assume q: "quiet s t"
  obtain a u where g: "game_of (widgetId sg) (channelId sg) t = (a, u)" by fastforce
  have "quiet s u" using q quiet_game_of [OF g] by (rule quiet_trans)
  with q g show ?thesis
    by (auto simp: offer_def Let_def intro!: quiet_upd_trans quiet_cancelRetry quiet_end_game)
qed

lemma quiet_steps:
  "quiet s (dispose s)" "quiet s (lane_next z s)" "quiet s (retry_fires d a now z s)"
  "quiet s (cleanup_fires d i s)" "quiet s (cleanup_done res s)"
proof -
  have "quiet s m \<Longrightarrow> quiet s (fold (\<lambda>e. cancelRetry (snd e)) (gs :: (string, nat) jsmap) m)" for gs m
    by (induction gs arbitrary: m) (simp_all add: quiet_cancelRetry)
  then show "quiet s (dispose s)" by (simp add: dispose_def)
  show "quiet s (lane_next z s)"
    by (auto simp: lane_next_def run_begin_def Let_def intro!: quiet_running quiet_upd_trans split: list.split task.split option.split)
  show "quiet s (retry_fires d a now z s)"
    by (auto simp: retry_fires_def intro!: quiet_offer quiet_cancelRetry split: option.split)
  show "quiet s (cleanup_fires d i s)" by (auto simp: cleanup_fires_def split: prod.split)
  show "quiet s (cleanup_done res s)"
    by (auto simp: cleanup_done_def Let_def intro!: quiet_running split: option.split phase.split)
qed

lemma wakes_of_new: "\<forall>e \<in> set es. e_game e < n \<Longrightarrow> n \<le> a \<Longrightarrow> wakes_of a es = []"
  by (auto simp: wakes_of_def filter_empty_conv)

lemma tracks_Nil [simp]: "tracks None []"
  by (simp add: tracks_def paced_def)

lemma paced_quiet:
  assumes p: "wakes_paced s" and q: "quiet s t" and wf: "wakes_wf t"
  shows "wakes_paced t"
proof -
  have "tracks (woken (heap t ! a)) (wakes_of a (wakes t))" if "a < length (heap t)" for a
  proof (cases "a < length (heap s)")
    case True
    with p q show ?thesis by (simp add: wakes_paced_def quiet_def)
  next
    case False
    have "wakes_of a (wakes s) = []"
      using p False by (intro wakes_of_new [of _ "length (heap s)"]) (simp_all add: wakes_paced_def)
    moreover have "wakes t = wakes s" "woken (heap t ! a) = None" using q that False by (simp_all add: quiet_def)
    ultimately show ?thesis by simp
  qed
  moreover have "\<forall>e \<in> set (wakes t). e_game e < length (heap t)"
    using p q by (auto simp: wakes_paced_def quiet_def)
  moreover have "a < length (heap t) \<and> wakes t \<noteq> [] \<and> e_game (last (wakes t)) = a"
    if "running t = Some (Dispatching w a v)" for w a v
  proof -
    have "running s = Some (Dispatching w a v)" using q that by (auto simp: quiet_def)
    with p have "a < length (heap s) \<and> wakes s \<noteq> [] \<and> e_game (last (wakes s)) = a" by (simp add: wakes_paced_def)
    with q show ?thesis by (simp add: quiet_def)
  qed
  ultimately show ?thesis using wf by (simp add: wakes_paced_def)
qed

lemma paced_snoc: "paced (es @ [e]) \<longleftrightarrow> (if es = [] then e_attempt e = 1 else paced es \<and> follows (last es) e)"
  by (auto simp: paced_def successively_append_iff)

lemma tracks_wake:
  assumes t: "tracks wk es" and wk: "wk = woken g" and d: "due g r now"
    and b: "\<And>k. woken g = Some k \<Longrightarrow> 1 \<le> w_attempts k" and m: "\<And>k. woken g = Some k \<Longrightarrow> w_rev k \<le> r"
  shows "tracks (Some \<lparr>w_rev = r, w_at = None, w_attempts = next_attempt g r\<rparr>)
    (es @ [\<lparr>e_game = a, e_widget = w, e_rev = r, e_attempt = next_attempt g r, e_start = now, e_end = None\<rparr>])"
proof -
  let ?e = "\<lparr>e_game = a, e_widget = w, e_rev = r, e_attempt = next_attempt g r, e_start = now, e_end = None\<rparr>"
  have "paced (es @ [?e])"
  proof (cases "\<exists>k. woken g = Some k \<and> w_rev k = r")
    case True
    then obtain k where k: "woken g = Some k" "w_rev k = r" by blast
    with due_same_rev [OF d k b [OF k(1)]] t wk
    have "es \<noteq> []" "e_rev (last es) = r" "e_attempt (last es) = w_attempts k" "e_end (last es) = w_at k" "paced es"
      by (auto simp: tracks_def)
    with due_same_rev [OF d k b [OF k(1)]] k show ?thesis
      by (auto simp: paced_snoc follows_def next_attempt_def)
  next
    case False
    then have n: "next_attempt g r = 1" by (auto simp: next_attempt_def split: option.split)
    have "e_rev (last es) < r" if ne: "es \<noteq> []"
    proof -
      from t wk ne obtain k where k: "woken g = Some k" "e_rev (last es) \<le> w_rev k" by (auto simp: tracks_def)
      with False m [OF k(1)] show ?thesis by auto
    qed
    with n t show ?thesis by (auto simp: paced_snoc follows_def tracks_def)
  qed
  then show ?thesis by (simp add: tracks_def)
qed

lemma paced_end: "es \<noteq> [] \<Longrightarrow> paced (close_last now es) = paced es"
  using append_butlast_last_id [of es] paced_snoc [of "butlast es" "last es"]
  by (simp add: close_last_def paced_snoc follows_def split: option.split)

lemma tracks_end:
  assumes "tracks wk es" and "es \<noteq> []"
  shows "tracks (map_option (\<lambda>k. k\<lparr>w_at := Some now\<rparr>) wk) (close_last now es)"
proof -
  have c: "e_rev (last (close_last now es)) = e_rev (last es)" "e_attempt (last (close_last now es)) = e_attempt (last es)"
    "e_end (last (close_last now es)) = Some now" "close_last now es \<noteq> []"
    using assms(2) by (simp_all add: close_last_def)
  from assms obtain k where k: "wk = Some k" "paced es" and
    or: "4 \<le> w_attempts k \<and> e_rev (last es) \<le> w_rev k \<or> w_rev k = e_rev (last es) \<and> e_attempt (last es) = w_attempts k"
    unfolding tracks_def by blast
  have "paced (close_last now es)" using k(2) assms(2) paced_end by simp
  moreover have "4 \<le> w_attempts (k\<lparr>w_at := Some now\<rparr>) \<and> (close_last now es = [] \<or> e_rev (last (close_last now es)) \<le> w_rev (k\<lparr>w_at := Some now\<rparr>)) \<or>
      close_last now es \<noteq> [] \<and> w_rev (k\<lparr>w_at := Some now\<rparr>) = e_rev (last (close_last now es)) \<and>
      e_attempt (last (close_last now es)) = w_attempts (k\<lparr>w_at := Some now\<rparr>) \<and>
      e_end (last (close_last now es)) = w_at (k\<lparr>w_at := Some now\<rparr>)"
    using or c by auto
  ultimately show ?thesis unfolding tracks_def k(1) option.map by blast
qed

lemma wakes_of_close:
  assumes "es \<noteq> []"
  shows "wakes_of a (close_last now es) = (if e_game (last es) = a then close_last now (wakes_of a es) else wakes_of a es)"
proof -
  obtain u e where es: "es = u @ [e]" using assms by (cases es rule: rev_cases) auto
  show ?thesis by (simp add: es close_last_def wakes_of_def)
qed

lemma paced_dispatch_done:
  assumes p: "wakes_paced s"
  shows "wakes_paced (dispatch_done now s)"
proof (cases "dispatching (running s)")
  case True
  then obtain w a v where r: "running s = Some (Dispatching w a v)"
    by (auto simp: dispatching_def split: option.splits phase.splits)
  have a: "a < length (heap s)" "wakes s \<noteq> []" "e_game (last (wakes s)) = a" using p r by (auto simp: wakes_paced_def)
  let ?f = "\<lambda>g. g\<lparr>woken := map_option (\<lambda>k. k\<lparr>w_at := Some now\<rparr>) (woken g)\<rparr>"
  let ?m = "(upd a ?f s)\<lparr>running := None, wakes := close_last now (wakes s)\<rparr>"
  have "wakes_wf (upd a ?f s)" using p by (intro wf_upd) (auto simp: wakes_paced_def harmless_def)
  then have wf: "wakes_wf ?m" using wf_idle wf_wakes by simp
  have "wakes_of a (wakes s) \<noteq> []" using a by (auto simp: wakes_of_def filter_empty_conv)
  then have "tracks (woken (heap ?m ! b)) (wakes_of b (wakes ?m))" if "b < length (heap s)" for b
    using that p a by (auto simp: heap_upd wakes_of_close tracks_end wakes_paced_def)
  moreover have "\<forall>e \<in> set (wakes ?m). e_game e < length (heap ?m)"
    using p a by (auto simp: close_last_def wakes_paced_def dest: in_set_butlastD)
  ultimately have m: "wakes_paced ?m" using wf by (simp add: wakes_paced_def)
  have q: "quiet ?m (scheduleRetry w a v ?m)"
    by (auto simp: scheduleRetry_def intro!: quiet_upd split: option.split)
  have "wakes_wf (dispatch_done now s)" using p by (simp add: wf_dispatch_done wakes_paced_def)
  then have "wakes_wf (scheduleRetry w a v ?m)" using r by (simp add: dispatch_done_def)
  from paced_quiet [OF m q this] r show ?thesis by (simp add: dispatch_done_def)
next
  case False
  then have "dispatch_done now s = s" by (auto simp: dispatch_done_def split: option.split phase.split)
  with p show ?thesis by simp
qed

lemma paced_read_done:
  assumes p: "wakes_paced s" and f: "fresh_read s (ReadDone res now)"
  shows "wakes_paced (read_done d res now s)"
proof (cases "\<exists>w a. running s = Some (Reading w a)")
  case True
  then obtain w a where r: "running s = Some (Reading w a)" by blast
  have wf: "wakes_wf s" and a: "a < length (heap s)" using p r wf_reading by (auto simp: wakes_paced_def)
  have wf': "wakes_wf (read_done d res now s)" using wf by (rule wf_read_done)
  have tr: "tracks (woken (heap s ! b)) (wakes_of b (wakes s))" if "b < length (heap s)" for b
    using p that by (simp add: wakes_paced_def)
  have idle: "quiet s (s\<lparr>running := None\<rparr>)" by (rule quiet_running) simp_all
  have fresh: "w_rev k \<le> v_rev v" if "res = View v" "woken (heap s ! a) = Some k" for v k
    using f r that by simp
  from read_done_cases [OF r a, of d res now] consider
      (ended) c where "read_done d res now s = end_game d w c (s\<lparr>running := None\<rparr>)"
    | (skip) f where "read_done d res now s = upd a f (s\<lparr>running := None\<rparr>)" "\<forall>g. woken (f g) = woken g"
    | (refuse) f v where "res = View v" "read_done d res now s = upd a f (s\<lparr>running := None\<rparr>)"
        "\<forall>g. woken (f g) = Some \<lparr>w_rev = v_rev v, w_at = Some now, w_attempts = 4\<rparr>"
    | (wake) f v where "res = View v" "read_done d res now s = (upd a f s)\<lparr>running := Some (Dispatching w a v),
         wakes := wakes s @ [\<lparr>e_game = a, e_widget = w, e_rev = v_rev v, e_attempt = next_attempt (heap s ! a) (v_rev v),
            e_start = now, e_end = None\<rparr>]\<rparr>" "due (heap s ! a) (v_rev v) now"
        "\<forall>g. woken (f g) = Some \<lparr>w_rev = v_rev v, w_at = None, w_attempts = next_attempt (heap s ! a) (v_rev v)\<rparr>"
    by blast
  then show ?thesis
  proof cases
    case ended
    with idle have "quiet s (read_done d res now s)" by (simp add: quiet_end_game)
    with p wf' show ?thesis using paced_quiet by blast
  next
    case skip
    with idle have "quiet s (read_done d res now s)" by (simp add: quiet_upd_trans)
    with p wf' show ?thesis using paced_quiet by blast
  next
    case refuse
    have "tracks (Some \<lparr>w_rev = v_rev v, w_at = Some now, w_attempts = 4\<rparr>) (wakes_of a (wakes s))"
      using tr [OF a] fresh [OF refuse(1)] by (fastforce simp: tracks_def)
    with refuse tr p wf' show ?thesis by (auto simp: wakes_paced_def heap_upd)
  next
    case wake
    have "tracks (Some \<lparr>w_rev = v_rev v, w_at = None, w_attempts = next_attempt (heap s ! a) (v_rev v)\<rparr>)
        (wakes_of a (wakes s) @ [\<lparr>e_game = a, e_widget = w, e_rev = v_rev v,
          e_attempt = next_attempt (heap s ! a) (v_rev v), e_start = now, e_end = None\<rparr>])"
      using tr [OF a] refl wake(3)
      by (rule tracks_wake) (use wf_woken [OF wf a] fresh [OF wake(1)] in auto)
    with wake tr p wf' a show ?thesis by (auto simp: wakes_paced_def heap_upd wakes_of_def)
  qed
next
  case False
  then have "read_done d res now s = s" by (auto simp: read_done_def split: option.split phase.split)
  with p show ?thesis by simp
qed

lemma paced_step:
  assumes "wakes_paced s" and "fresh_read s e"
  shows "wakes_paced (wakes_do d s e)"
proof -
  have wf: "wakes_wf (wakes_do d s e)" using assms(1) wf_step by (simp add: wakes_paced_def)
  show ?thesis
  proof (cases e)
    case (Offer sg now z)
    with paced_quiet [OF assms(1) _ wf] show ?thesis by (simp add: quiet_offer)
  qed (use assms wf paced_quiet [OF assms(1) _ wf] in \<open>simp_all add: paced_read_done paced_dispatch_done quiet_steps\<close>)
qed

interpretation paced_wakes: guarded_system wakes_init "wakes_do d" fresh_read wakes_paced for d
proof unfold_locales
  show "wakes_paced wakes_init" using game_wakes.good_init by (simp add: wakes_paced_def wakes_init_def)
qed (rule paced_step)

section \<open>Properties\<close>

text \<open>In a paced list the wakes of the last revision are numbered, so there are at most four of any revision.\<close>

lemma paced_count:
  assumes "paced es"
  shows "(\<forall>e \<in> set es. e_rev e \<le> e_rev (last es)) \<and> (\<forall>e \<in> set es. 1 \<le> e_attempt e \<and> e_attempt e \<le> 4) \<and>
    (es \<noteq> [] \<longrightarrow> length (filter (\<lambda>e. e_rev e = e_rev (last es)) es) = e_attempt (last es)) \<and>
    length (filter (\<lambda>e. e_rev e = r) es) \<le> 4"
  using assms
proof (induction es rule: rev_induct)
  case (snoc x xs)
  show ?case
  proof (cases "xs = []")
    case False
    with snoc.prems have p: "paced xs" "follows (last xs) x" by (auto simp: paced_snoc)
    have l: "1 \<le> e_attempt (last xs)" "e_attempt (last xs) \<le> 4" using snoc.IH [OF p(1)] False by auto
    consider (later) "e_rev (last xs) < e_rev x" "e_attempt x = 1"
      | (again) "e_rev x = e_rev (last xs)" "e_attempt x = e_attempt (last xs) + 1" "e_attempt x \<le> 4"
      using p(2) by (auto simp: follows_def)
    then show ?thesis
    proof cases
      case later
      then have "\<forall>e \<in> set xs. e_rev e < e_rev x" using snoc.IH [OF p(1)] by fastforce
      moreover from this have "filter (\<lambda>e. e_rev e = e_rev x) xs = []" by (auto simp: filter_empty_conv)
      ultimately show ?thesis using snoc.IH [OF p(1)] later by (auto simp: less_imp_le)
    next
      case again
      with snoc.IH [OF p(1)] False show ?thesis by auto
    qed
  qed (use snoc.prems in \<open>simp add: paced_def\<close>)
qed simp

text \<open>
  C5: A model that stops early can neither stall a game nor loop on it. Whatever signals, reads, turns
  and timers interleave, as long as the server's revisions do not go back, the wakes of a game come
  in the order of its revisions; a revision is woken again only as its next attempt, after the turn
  before it ended and its backoff of 1, 5 or 15 minutes passed; and no revision is woken more than
  four times.
\<close>

theorem wakes_are_paced:
  assumes "obeys fresh_read (wakes_do d) wakes_init es"
  shows "paced (wakes_of a (wakes (run (wakes_do d) wakes_init es))) \<and>
    length (filter (\<lambda>e. e_rev e = r) (wakes_of a (wakes (run (wakes_do d) wakes_init es)))) \<le> 4"
proof -
  let ?s = "run (wakes_do d) wakes_init es"
  have p: "wakes_paced ?s" using assms by (rule paced_wakes.good_disciplined_run)
  have "paced (wakes_of a (wakes ?s))"
  proof (cases "a < length (heap ?s)")
    case True
    with p show ?thesis by (simp add: wakes_paced_def tracks_def)
  next
    case False
    then have "wakes_of a (wakes ?s) = []" using p by (intro wakes_of_new [of _ "length (heap ?s)"]) (auto simp: wakes_paced_def)
    then show ?thesis by (simp add: paced_def)
  qed
  then show ?thesis using paced_count by blast
qed

definition demo_signal :: widget_signal where
  "demo_signal = \<lparr>widgetId = ''g1'', channelId = ''c'', rev = 3, kind = ''chess'', seat = Some ''white'', waiting = True, status = ''active''\<rparr>"

definition demo_view :: widget_view where
  "demo_view = \<lparr>v_widget = ''g1'', v_channel = ''c'', v_kind = ''chess'', v_status = ''active'', v_rev = 3,
     v_seat = Some ''white'', v_your_move = True, v_players = [\<lparr>player_id = Some ''human:u1'', player_name = ''Ann''\<rparr>],
     v_started_by = None\<rparr>"

definition demo_deps :: wake_deps where
  "demo_deps = \<lparr>allowed = (\<lambda>p. p = ''human:u1''), hasEnded = True\<rparr>"

definition demo_wakes :: "wake_step list" where
  "demo_wakes = [Offer demo_signal 0 False, Offer demo_signal 5 False, LaneNext False, ReadDone (View demo_view) 10,
     Offer demo_signal 20 False, TurnDone 1000, Offer demo_signal 2000 False, RetryFires 0 61000 False, LaneNext False,
     ReadDone (View demo_view) 61000, TurnDone 62000]"

theorem wakes_are_paced_witness:
  "map e_start (wakes (run (wakes_do demo_deps) wakes_init demo_wakes)) = [10, 61000] \<and>
   paced (wakes_of 0 (wakes (run (wakes_do demo_deps) wakes_init demo_wakes)))"
proof -
  have "obeys fresh_read (wakes_do demo_deps) wakes_init demo_wakes" by code_simp
  moreover have "map e_start (wakes (run (wakes_do demo_deps) wakes_init demo_wakes)) = [10, 61000]" by code_simp
  ultimately show ?thesis using wakes_are_paced [of demo_deps demo_wakes 0] by blast
qed

text \<open>
  A turn is dispatched for a game only at the end of a private read of it, and only when that view
  is active, waits on a seat the agent holds, and every other player is one \<open>allowFrom\<close> admits.
\<close>

theorem wake_is_admitted:
  assumes "wakes_wf s" and "length (wakes (wakes_do d s e)) \<noteq> length (wakes s)"
  shows "\<exists>v now w a. e = ReadDone (View v) now \<and> running s = Some (Reading w a) \<and> v_status v = ''active'' \<and>
    v_your_move v \<and> truthy_opt (v_seat v) \<and>
    (\<forall>p \<in> set (v_players v). truthy_opt (player_id p) \<longrightarrow> allowed d (the (player_id p)))"
proof -
  have q: "\<not> quiet s (wakes_do d s e)" using assms(2) unfolding quiet_def by metis
  show ?thesis
  proof (cases e)
    case (ReadDone res now)
    show ?thesis
    proof (cases "\<exists>w a. running s = Some (Reading w a)")
      case True
      then obtain w a where r: "running s = Some (Reading w a)" by blast
      have a: "a < length (heap s)" using assms(1) r by (rule wf_reading)
      have idle: "quiet s (s\<lparr>running := None\<rparr>)" by (rule quiet_running) simp_all
      have "wakes (end_game d w c (s\<lparr>running := None\<rparr>)) = wakes s" for c
        using quiet_end_game [OF idle] by (simp add: quiet_def)
      with read_done_cases [OF r a, of d res now] obtain v where "res = View v" "\<not> blocked d v" "v_status v = ''active''"
        "v_your_move v" "truthy_opt (v_seat v)"
        using assms(2) ReadDone by auto
      with r ReadDone show ?thesis by (auto simp: blocked_def)
    next
      case False
      then have "read_done d res now s = s" by (auto simp: read_done_def split: option.split phase.split)
      with assms(2) ReadDone show ?thesis by simp
    qed
  next
    case (TurnDone now)
    have "length (close_last now es) = length es" for es by (simp add: close_last_def)
    then have "length (wakes (dispatch_done now s)) = length (wakes s)"
      by (simp add: dispatch_done_def scheduleRetry_def split: option.split phase.split)
    with assms(2) TurnDone show ?thesis by simp
  qed (use q quiet_steps quiet_offer in simp_all)
qed

theorem wake_is_admitted_witness:
  "allowed demo_deps ''human:u1'' \<and>
   wakes (run (wakes_do demo_deps) wakes_init (take 4 demo_wakes)) \<noteq> []"
proof -
  let ?s = "run (wakes_do demo_deps) wakes_init (take 3 demo_wakes)"
  let ?e = "ReadDone (View demo_view) 10"
  have n: "length (wakes (wakes_do demo_deps ?s ?e)) \<noteq> length (wakes ?s)" by code_simp
  obtain v now where "?e = ReadDone (View v) now"
    "\<forall>p \<in> set (v_players v). truthy_opt (player_id p) \<longrightarrow> allowed demo_deps (the (player_id p))"
    using wake_is_admitted [OF game_wakes.good_run n] by blast
  then have "allowed demo_deps ''human:u1''" by (auto simp: demo_view_def truthy_opt_def)
  moreover have "wakes (run (wakes_do demo_deps) wakes_init (take 4 demo_wakes)) \<noteq> []" by code_simp
  ultimately show ?thesis by blast
qed

definition wakes_for :: "string \<Rightarrow> wake_state \<Rightarrow> wake_entry list" where
  "wakes_for w s = filter (\<lambda>e. e_widget e = w) (wakes s)"

lemma ended_end_game [simp]: "ended (end_game d w c s) = remember_ended (ended s) w"
  by (auto simp: end_game_def Let_def cleanup_def cancelRetry_def split: option.split)

lemma ended_cancelRetry [simp]: "ended (cancelRetry a s) = ended s"
  by (simp add: cancelRetry_def)

lemma ended_offer: "ended (offer d sg now z s) = ended s \<or> ended (offer d sg now z s) = remember_ended (ended s) (widgetId sg)"
proof -
  obtain a t where g: "game_of (widgetId sg) (channelId sg) s = (a, t)" by fastforce
  with game_of_frame(1) [OF g] show ?thesis by (auto simp: offer_def Let_def)
qed

lemma ended_step: "ended (wakes_do d s e) = ended s \<or> (\<exists>w. ended (wakes_do d s e) = remember_ended (ended s) w)"
proof (cases e)
  case (Offer sg now z)
  with ended_offer [of d sg now z s] show ?thesis by auto
next
  case (RetryFires a now z)
  with ended_offer [of d _ now z "cancelRetry a s"] show ?thesis by (auto simp: retry_fires_def split: option.split)
next
  case (ReadDone res now)
  then show ?thesis
    by (auto simp: read_done_def Let_def split: option.split phase.split read_result.split)
next
  case Dispose
  have "ended (fold (\<lambda>e. cancelRetry (snd e)) (gs :: (string, nat) jsmap) m) = ended m" for gs m
    by (induction gs arbitrary: m) simp_all
  with Dispose show ?thesis by (simp add: dispose_def)
qed (auto simp: lane_next_def run_begin_def dispatch_done_def scheduleRetry_def cleanup_done_def cleanup_fires_def cleanup_def Let_def
    split: list.split task.split option.split phase.split prod.split)

lemma running_offer [simp]: "running (offer d sg now z s) = running s"
proof -
  obtain a t where g: "game_of (widgetId sg) (channelId sg) s = (a, t)" by fastforce
  have "running (end_game d w c s) = running s" for w c
    by (auto simp: end_game_def Let_def cleanup_def cancelRetry_def split: option.split)
  with g game_of_frame(3) [OF g] show ?thesis by (auto simp: offer_def Let_def cancelRetry_def)
qed

text \<open>A read begins only for a game that has not ended.\<close>

lemma reading_step:
  assumes wf: "wakes_wf s" and r: "running (wakes_do d s e) = Some (Reading w a)"
  shows "running s = Some (Reading w a) \<or> w \<notin> set (ended s)"
proof -
  have e: "running (end_game d w c m) = running m" for w c m
    by (auto simp: end_game_def Let_def cleanup_def cancelRetry_def split: option.split)
  have "w \<notin> set (ended s)" if "mget (games s) w = Some b" for b
    using wf that unfolding wakes_wf_def by blast
  moreover have "running s = Some (Reading w a) \<or> (\<exists>b. mget (games s) w = Some b)"
  proof (cases e)
    case (ReadDone res now)
    with r e show ?thesis
      by (auto simp: read_done_def Let_def cancelRetry_def split: option.splits phase.splits read_result.splits if_splits)
  next
    case Dispose
    have "running (fold (\<lambda>e. cancelRetry (snd e)) (gs :: (string, nat) jsmap) m) = running m" for gs m
      by (induction gs arbitrary: m) (simp_all add: cancelRetry_def)
    with Dispose r show ?thesis by (simp add: dispose_def)
  qed (use r in \<open>auto simp: lane_next_def run_begin_def dispatch_done_def scheduleRetry_def cleanup_done_def cleanup_fires_def
      cleanup_def retry_fires_def Let_def cancelRetry_def
      split: list.splits task.splits option.splits phase.splits prod.splits if_splits\<close>)
  ultimately show ?thesis by blast
qed

lemma wakes_for_step:
  assumes wf: "wakes_wf s" and r: "\<forall>a. running s \<noteq> Some (Reading w a)"
  shows "length (wakes_for w (wakes_do d s e)) = length (wakes_for w s)"
proof (cases "quiet s (wakes_do d s e)")
  case True
  then have "wakes (wakes_do d s e) = wakes s" unfolding quiet_def by blast
  then show ?thesis by (simp add: wakes_for_def)
next
  case q: False
  show ?thesis
  proof (cases e)
    case (TurnDone now)
    have "length (filter P (close_last now es)) = length (filter P es)" if "\<And>x y. P (x\<lparr>e_end := y\<rparr>) = P x" for P es
      using that by (cases es rule: rev_cases) (simp_all add: close_last_def)
    then show ?thesis using TurnDone
      by (simp add: wakes_for_def dispatch_done_def scheduleRetry_def split: option.split phase.split)
  next
    case (ReadDone res now)
    show ?thesis
    proof (cases "\<exists>v a. running s = Some (Reading v a)")
      case True
      then obtain v a where ra: "running s = Some (Reading v a)" by blast
      have idle: "quiet s (s\<lparr>running := None\<rparr>)" by (rule quiet_running) simp_all
      have "wakes (end_game d x c (s\<lparr>running := None\<rparr>)) = wakes s" for x c
        using quiet_end_game [OF idle] unfolding quiet_def by blast
      with read_done_cases [OF ra wf_reading [OF wf ra], of d res now] r ra ReadDone
      show ?thesis by (auto simp: wakes_for_def)
    next
      case False
      then have "read_done d res now s = s" by (auto simp: read_done_def split: option.split phase.split)
      with ReadDone show ?thesis by simp
    qed
  qed (use q quiet_steps quiet_offer in simp_all)
qed

definition reads :: "string \<Rightarrow> phase option \<Rightarrow> bool" where
  "reads w r = (case r of Some (Reading v a) \<Rightarrow> v = w | _ \<Rightarrow> False)"

text \<open>
  An ended game is left alone. Once a game is remembered as ended and no read of it is still under
  way, no signal, retry or queued task wakes it again while fewer than 500 further games can have
  ended since.
\<close>

theorem ended_never_woken:
  assumes "wakes_wf s" and "w \<in> set (ended s)" and "\<not> reads w (running s)"
    and "age w (ended s) + length es < ENDED_MEMORY"
  shows "length (wakes_for w (run (wakes_do d) s es)) = length (wakes_for w s)"
proof -
  from assms(3) have "\<forall>a. running s \<noteq> Some (Reading w a)" by (auto simp: reads_def)
  with assms(1,2,4) show ?thesis
  proof (induction es arbitrary: s)
    case (Cons e es)
    let ?t = "wakes_do d s e"
    have b: "distinct (ended s)" "length (ended s) \<le> ENDED_MEMORY" using Cons.prems(1) by (simp_all add: wakes_wf_def)
    have "w \<in> set (ended ?t) \<and> age w (ended ?t) \<le> Suc (age w (ended s))"
      using ended_step [of d s e] ended_games.remember_age [OF b Cons.prems(2)] Cons.prems(2,3) by auto
    moreover have "\<forall>a. running ?t \<noteq> Some (Reading w a)"
      using reading_step [OF Cons.prems(1)] Cons.prems(2,4) by blast
    moreover have "wakes_wf ?t" using Cons.prems(1) by (rule wf_step)
    ultimately have "length (wakes_for w (run (wakes_do d) ?t es)) = length (wakes_for w ?t)"
      using Cons.prems(3) by (intro Cons.IH) auto
    also have "\<dots> = length (wakes_for w s)" using Cons.prems(1,4) by (rule wakes_for_step)
    finally show ?case by simp
  qed simp
qed

definition demo_over :: "wake_step list" where
  "demo_over = demo_wakes @ [Offer (demo_signal\<lparr>status := ''finished''\<rparr>) 70000 False]"

theorem ended_never_woken_witness:
  "length (wakes_for ''g1'' (run (wakes_do demo_deps) (run (wakes_do demo_deps) wakes_init demo_over) demo_wakes)) = 2"
proof -
  let ?s = "run (wakes_do demo_deps) wakes_init demo_over"
  have h: "''g1'' \<in> set (ended ?s)" by code_simp
  have r: "\<not> reads ''g1'' (running ?s)" by code_simp
  have "age ''g1'' (ended ?s) = 0" "length demo_wakes = 11" by code_simp+
  then have c: "age ''g1'' (ended ?s) + length demo_wakes < ENDED_MEMORY" by (simp add: ENDED_MEMORY_def)
  have n: "length (wakes_for ''g1'' ?s) = 2" by code_simp
  from ended_never_woken [OF game_wakes.good_run h r c] n show ?thesis by simp
qed

text \<open>
  A move that is due is not lost. When an undisposed loop is told that an active game, not ended
  before, waits on the agent, at a revision no older than any reported and due, and the agent is not
  snoozed, the move is the game's pending wake and a task of the inbound lane will take it.
\<close>

theorem due_move_is_queued:
  assumes "wakes_wf s" and "\<not> disposed s" and "widgetId sg \<notin> set (ended s)" and "status sg = ''active''"
    and "waiting sg" and "-1 \<le> rev sg"
    and "\<And>a. mget (games s) (widgetId sg) = Some a \<Longrightarrow> latestRev (heap s ! a) \<le> rev sg \<and> due (heap s ! a) (rev sg) now"
  shows "\<exists>a. mget (games (offer d sg now False s)) (widgetId sg) = Some a \<and>
    pending (heap (offer d sg now False s) ! a) = Some sg \<and> RunGame (widgetId sg) \<in> set (queue (offer d sg now False s))"
proof -
  obtain a t where g: "game_of (widgetId sg) (channelId sg) s = (a, t)" by fastforce
  have t: "wakes_wf t" "mget (games t) (widgetId sg) = Some a"
    using wf_game_of [OF assms(1,3) g] game_of_frame(6) [OF g] by auto
  then have a: "a < length (heap t)" unfolding wakes_wf_def by blast
  have "latestRev (heap t ! a) \<le> rev sg \<and> due (heap t ! a) (rev sg) now"
    using assms(6,7) g by (auto simp: game_of_def due_def nth_append split: option.splits)
  moreover have "due (g\<lparr>latestRev := r\<rparr>) r' now = due g r' now" for g r r' by (simp add: due_def)
  moreover have "g_queued (heap t ! a) \<longrightarrow> RunGame (widgetId sg) \<in> set (queue t)"
    using t unfolding wakes_wf_def by blast
  ultimately show ?thesis
    using assms(2-5) g t a by (auto simp: offer_def Let_def heap_upd)
qed

theorem due_move_is_queued_witness:
  "RunGame ''g1'' \<in> set (queue (offer demo_deps demo_signal 5 False wakes_init))"
proof -
  have "\<exists>a. mget (games (offer demo_deps demo_signal 5 False wakes_init)) (widgetId demo_signal) = Some a \<and>
      pending (heap (offer demo_deps demo_signal 5 False wakes_init) ! a) = Some demo_signal \<and>
      RunGame (widgetId demo_signal) \<in> set (queue (offer demo_deps demo_signal 5 False wakes_init))"
    by (rule due_move_is_queued [OF game_wakes.good_init]) (simp_all add: wakes_init_def demo_signal_def)
  then have "RunGame (widgetId demo_signal) \<in> set (queue (offer demo_deps demo_signal 5 False wakes_init))" by blast
  moreover have "widgetId demo_signal = ''g1''" by (simp add: demo_signal_def)
  ultimately show ?thesis by simp
qed

end
