(* ===== verification/Questions.thy ===== *)
theory Questions
  imports Js_Values "HOL-Library.Multiset"
begin

text \<open>
  The questions of an \<open>ask_user\<close> tool call (\<open>plugin/src/questions.ts\<close>): the card built from core's
  presentation, and the module's memory of which chats wait on a question, which cards are bound to
  one, and which cards core is about to close. The host's key-value store behind the bindings is a
  lookup table whose entries may expire at any time; the gateway's and the server's answers are
  arguments.
\<close>

section \<open>The card\<close>

datatype action = OptionAction jsval | IntentAction | OtherAction

datatype block = TextBlock string | ContextBlock string | ButtonsBlock "(string \<times> action) list" | OtherBlock

record presentation =
  p_title :: "string option"
  p_blocks :: "block list"

datatype ui_component = TextC string bool | ButtonC string jsval | RowC "string list" | ColumnC "string list"

text \<open>The builder's state: the components added so far and the root column's children, then the text lines.\<close>

record card_state =
  components :: "(string \<times> ui_component) list"
  children :: "string list"
  text_lines :: "string list"

definition clickable :: "string \<Rightarrow> bool" where
  "clickable label = (\<not> (starts_with (trim_start label) ''/'' \<or> str_includes label ''@'' \<or> str_includes label ''://''))"

definition add_component :: "ui_component \<Rightarrow> card_state \<Rightarrow> string \<times> card_state" where
  "add_component c s =
     (let i = ''c'' @ show_nat (length (components s)) in (i, s\<lparr>components := components s @ [(i, c)]\<rparr>))"

definition add_text :: "string \<Rightarrow> bool \<Rightarrow> card_state \<Rightarrow> string \<times> card_state" where
  "add_text v caption s = add_component (TextC v caption) s"

definition add_child :: "string \<times> card_state \<Rightarrow> card_state" where
  "add_child r = (snd r)\<lparr>children := children (snd r) @ [fst r]\<rparr>"

text \<open>The buttons of a block: their ids and whether a custom answer is offered.\<close>

fun add_buttons :: "(string \<times> action) list \<Rightarrow> string list \<Rightarrow> bool \<Rightarrow> card_state \<Rightarrow> (string list \<times> bool \<times> card_state) option" where
  "add_buttons [] opts custom s = Some (opts, custom, s)"
| "add_buttons ((label, act) # bs) opts custom s = (case act of
      OtherAction \<Rightarrow> None
    | IntentAction \<Rightarrow> add_buttons bs opts True s
    | OptionAction v \<Rightarrow>
        if \<not> clickable label then None
        else (case add_text label False s of (t, s1) \<Rightarrow>
          case add_component (ButtonC t v) s1 of (b, s2) \<Rightarrow> add_buttons bs (opts @ [b]) custom s2))"

definition add_block :: "block \<Rightarrow> card_state \<Rightarrow> card_state option" where
  "add_block b s = (case b of
      TextBlock t \<Rightarrow> Some (add_child (add_text t False (s\<lparr>text_lines := text_lines s @ [t]\<rparr>)))
    | ContextBlock t \<Rightarrow> Some (add_child (add_text t True (s\<lparr>text_lines := text_lines s @ [t]\<rparr>)))
    | OtherBlock \<Rightarrow> None
    | ButtonsBlock bs \<Rightarrow> (case add_buttons bs [] False s of
          None \<Rightarrow> None
        | Some (opts, custom, s1) \<Rightarrow>
            let s2 = (if opts \<noteq> [] then add_child (add_component (RowC opts) s1) else s1)
            in Some (if custom then add_child (add_text ''Or type your own answer.'' True s2) else s2)))"

fun add_blocks :: "block list \<Rightarrow> card_state \<Rightarrow> card_state option" where
  "add_blocks [] s = Some s"
| "add_blocks (b # bs) s = (case add_block b s of None \<Rightarrow> None | Some s' \<Rightarrow> add_blocks bs s')"

definition card_start :: "presentation \<Rightarrow> card_state" where
  "card_start p = (let s = \<lparr>components = [], children = [], text_lines = []\<rparr>
     in case p_title p of
          None \<Rightarrow> s
        | Some t \<Rightarrow> if t = [] then s
            else add_child (add_text (''**'' @ t @ ''**'') False (s\<lparr>text_lines := [t]\<rparr>)))"

text \<open>The surface's components and the fallback text.\<close>

definition questionSurface :: "presentation \<Rightarrow> ((string \<times> ui_component) list \<times> string) option" where
  "questionSurface p = (case add_blocks (p_blocks p) (card_start p) of
      None \<Rightarrow> None
    | Some s \<Rightarrow> Some ((''root'', ColumnC (children s)) # components s, join [CHR 0x0A, CHR 0x0A] (text_lines s)))"

subsection \<open>Every card is well formed\<close>

fun refs :: "ui_component \<Rightarrow> string list" where
  "refs (TextC t c) = []"
| "refs (ButtonC t v) = [t]"
| "refs (RowC cs) = cs"
| "refs (ColumnC cs) = cs"

definition comp_ids :: "card_state \<Rightarrow> string list" where
  "comp_ids s = map fst (components s)"

text \<open>
  Ids are positions, and the ids referred to so far together with the children and the pending
  options are each id once: the card is a tree.
\<close>

definition numbered :: "card_state \<Rightarrow> bool" where
  "numbered s \<longleftrightarrow> comp_ids s = map (\<lambda>i. ''c'' @ show_nat i) [0..<length (components s)]"

definition referred :: "card_state \<Rightarrow> string list" where
  "referred s = concat (map (refs \<circ> snd) (components s)) @ children s"

definition tree :: "string list \<Rightarrow> card_state \<Rightarrow> bool" where
  "tree opts s \<longleftrightarrow> numbered s \<and> mset (referred s @ opts) = mset (comp_ids s)"

lemma add_component_fst: "add_component c s = (i, s') \<Longrightarrow> comp_ids s' = comp_ids s @ [i] \<and> children s' = children s \<and>
   text_lines s' = text_lines s \<and> components s' = components s @ [(i, c)] \<and> (numbered s \<longrightarrow> numbered s')"
  by (auto simp: add_component_def Let_def comp_ids_def numbered_def)

lemma tree_leaf:
  assumes "tree opts s" and "add_text t c s = (i, s')"
  shows "tree (opts @ [i]) s'"
  using assms add_component_fst [of "TextC t c" s i s']
  by (auto simp: add_text_def tree_def referred_def)

lemma tree_child: "tree (opts @ [i]) s \<Longrightarrow> tree opts (add_child (i, s))"
proof -
  have "numbered (add_child (i, s)) = numbered s" "comp_ids (add_child (i, s)) = comp_ids s"
    by (simp_all add: add_child_def numbered_def comp_ids_def)
  then show "tree (opts @ [i]) s \<Longrightarrow> tree opts (add_child (i, s))"
    by (simp add: tree_def add_child_def referred_def ac_simps)
qed

lemma tree_text: "tree opts s \<Longrightarrow> tree opts (add_child (add_text t c s))"
  using tree_leaf [of opts s t c] by (cases "add_text t c s") (auto intro: tree_child)

lemma tree_lines [simp]: "tree opts (s\<lparr>text_lines := l\<rparr>) = tree opts s"
  by (simp add: tree_def numbered_def referred_def comp_ids_def)

lemma tree_button:
  assumes "tree (opts @ [t]) s" and "add_component (ButtonC t v) s = (b, s')"
  shows "tree (opts @ [b]) s'"
  using assms add_component_fst [OF assms(2)]
  by (auto simp: tree_def referred_def)

lemma tree_row:
  assumes "tree opts s"
  shows "tree [] (add_child (add_component (RowC opts) s))"
proof -
  obtain i s' where a: "add_component (RowC opts) s = (i, s')" by fastforce
  have "tree [i] s'" using assms add_component_fst [OF a] by (auto simp: tree_def referred_def ac_simps)
  with a show ?thesis using tree_child [of "[]" i s'] by simp
qed

lemma tree_buttons:
  assumes "tree opts s" and "add_buttons bs opts custom s = Some (opts', custom', s')"
  shows "tree opts' s'"
  using assms
proof (induction bs opts custom s rule: add_buttons.induct)
  case (2 label act bs opts custom s)
  show ?case
  proof (cases act)
    case (OptionAction v)
    obtain t s1 where t: "add_text label False s = (t, s1)" by fastforce
    obtain b s2 where b: "add_component (ButtonC t v) s1 = (b, s2)" by fastforce
    have "tree (opts @ [b]) s2" using tree_button [OF tree_leaf [OF 2(3) t] b] .
    with 2 OptionAction t b show ?thesis by (auto split: if_splits)
  qed (use 2 in auto)
qed simp

lemma tree_block:
  assumes "tree [] s" and "add_block b s = Some s'"
  shows "tree [] s'"
proof (cases b)
  case (ButtonsBlock bs)
  with assms(2) obtain opts custom s1 where a: "add_buttons bs [] False s = Some (opts, custom, s1)"
    by (auto simp: add_block_def split: option.splits)
  have s1: "tree opts s1" using tree_buttons [OF assms(1) a] .
  then have "opts = [] \<longrightarrow> tree [] s1" by blast
  with s1 have "tree [] (if opts \<noteq> [] then add_child (add_component (RowC opts) s1) else s1)" by (simp add: tree_row)
  with assms(2) ButtonsBlock a show ?thesis by (auto simp: add_block_def Let_def tree_text split: if_splits)
qed (use assms in \<open>auto simp: add_block_def tree_text\<close>)

lemma tree_blocks: "tree [] s \<Longrightarrow> add_blocks bs s = Some s' \<Longrightarrow> tree [] s'"
  by (induction bs arbitrary: s) (auto dest: tree_block split: option.splits)

lemma tree_start: "tree [] (card_start p)"
proof -
  have "tree [] \<lparr>components = [], children = [], text_lines = l\<rparr>" for l
    by (simp add: tree_def numbered_def referred_def comp_ids_def)
  then show ?thesis by (auto simp: card_start_def Let_def tree_text split: option.split)
qed

text \<open>
  The surface of a question card is a tree: its component ids are distinct, and every component
  but the root is the child of exactly one other, so no button or text is lost, shared or dangling.
\<close>

theorem card_is_tree:
  assumes "questionSurface p = Some (cs, fallback)"
  shows "distinct (map fst cs) \<and> mset (concat (map (refs \<circ> snd) cs)) = mset (tl (map fst cs)) \<and> fst (hd cs) = ''root''"
proof -
  from assms obtain s where s: "add_blocks (p_blocks p) (card_start p) = Some s"
    and cs: "cs = (''root'', ColumnC (children s)) # components s"
    by (auto simp: questionSurface_def split: option.splits)
  have t: "tree [] s" using tree_blocks [OF tree_start s] .
  have "inj_on (\<lambda>i. ''c'' @ show_nat i) A" for A by (rule inj_onI) simp
  then have "distinct (map fst (components s))" "''root'' \<notin> set (map fst (components s))"
    using t by (auto simp: tree_def numbered_def comp_ids_def distinct_map)
  with t cs show ?thesis by (auto simp: tree_def referred_def comp_ids_def ac_simps)
qed

definition demo_question :: presentation where
  "demo_question = \<lparr>p_title = Some ''Deploy?'', p_blocks = [TextBlock ''Pick one'',
     ButtonsBlock [(''Yes'', OptionAction (JStr ''y'')), (''No'', OptionAction (JStr ''n'')), (''Other'', IntentAction)]]\<rparr>"

theorem card_is_tree_witness:
  "length (fst (the (questionSurface demo_question))) = 9 \<and> distinct (map fst (fst (the (questionSurface demo_question))))"
proof -
  have "questionSurface demo_question \<noteq> None" "length (fst (the (questionSurface demo_question))) = 9" by code_simp+
  then show ?thesis using card_is_tree [of demo_question] by (cases "the (questionSurface demo_question)") auto
qed

section \<open>Waiting chats and bound cards\<close>

definition QUESTION_EVENT :: string where "QUESTION_EVENT = ''oc.question''"

definition QUESTION_WAIT_MS :: int where "QUESTION_WAIT_MS = 60 * 60000"

record questions =
  waiting_chats :: "(string, string \<times> int) jsmap"
  bindings :: "(string, string \<times> string) jsmap"
  finalizing :: "string list"

definition questions_init :: questions where
  "questions_init = \<lparr>waiting_chats = [], bindings = [], finalizing = []\<rparr>"

definition chatKey :: "string \<Rightarrow> string \<Rightarrow> string" where
  "chatKey acct ch = acct @ '':'' @ ch"

definition markQuestionWaiting :: "string \<Rightarrow> string \<Rightarrow> string \<Rightarrow> int \<Rightarrow> questions \<Rightarrow> questions" where
  "markQuestionWaiting acct ch q now s =
     s\<lparr>waiting_chats := mset_key (chatKey acct ch) (q, now + QUESTION_WAIT_MS) (waiting_chats s)\<rparr>"

definition questionWaiting :: "string \<Rightarrow> string \<Rightarrow> int \<Rightarrow> questions \<Rightarrow> bool" where
  "questionWaiting acct ch now s = (now < (case mget (waiting_chats s) (chatKey acct ch) of Some (q, u) \<Rightarrow> u | None \<Rightarrow> 0))"

definition questionEnded :: "string \<Rightarrow> string \<Rightarrow> string \<Rightarrow> questions \<Rightarrow> questions" where
  "questionEnded acct ch q s =
     (if map_option fst (mget (waiting_chats s) (chatKey acct ch)) = Some q
      then s\<lparr>waiting_chats := mdel (chatKey acct ch) (waiting_chats s)\<rparr> else s)"

definition bindingKey :: "string \<Rightarrow> string \<Rightarrow> string" where
  "bindingKey acct post = acct @ '':'' @ post"

definition bindQuestion :: "string \<Rightarrow> string \<Rightarrow> string \<times> string \<Rightarrow> questions \<Rightarrow> questions" where
  "bindQuestion acct post b s = s\<lparr>bindings := mset_key (bindingKey acct post) b (bindings s)\<rparr>"

definition unbindQuestion :: "string \<Rightarrow> string \<Rightarrow> questions \<Rightarrow> questions" where
  "unbindQuestion acct post s = s\<lparr>bindings := mdel (bindingKey acct post) (bindings s)\<rparr>"

definition questionFinalizing :: "string \<Rightarrow> string \<Rightarrow> bool \<Rightarrow> questions \<Rightarrow> questions" where
  "questionFinalizing acct post pending s =
     s\<lparr>finalizing := (if pending then sadd (bindingKey acct post) (finalizing s)
                      else filter (\<lambda>k. k \<noteq> bindingKey acct post) (finalizing s))\<rparr>"

text \<open>
  A click on a card: \<open>live\<close> says whether the store still holds the binding, \<open>cfg\<close> whether the host has a
  config, \<open>answer\<close> is the status the gateway resolves the option with, \<open>None\<close> when it throws.
\<close>

datatype click_effect = ResolveOption string string string | CloseSurface string

datatype click_error = NoConfig | ResolveFailed

definition close_unless_final :: "string \<Rightarrow> string \<Rightarrow> questions \<Rightarrow> click_effect list" where
  "close_unless_final acct post s = (if bindingKey acct post \<in> set (finalizing s) then [] else [CloseSurface post])"

definition answerQuestionClick ::
  "string \<Rightarrow> string \<Rightarrow> jsval \<Rightarrow> string \<Rightarrow> bool \<Rightarrow> bool \<Rightarrow> string option \<Rightarrow> questions \<Rightarrow>
   (click_error + click_effect list) \<times> questions" where
  "answerQuestionClick acct post context sender live cfg answer s =
     (case (if live then mget (bindings s) (bindingKey acct post) else None, as_str (jget context ''optionValue'')) of
        (Some (ch, q), Some v) \<Rightarrow>
          if \<not> cfg then (Inl NoConfig, s)
          else (case answer of
              None \<Rightarrow> (Inl ResolveFailed, s)
            | Some status \<Rightarrow>
                let s' = questionEnded acct ch q s
                in (Inr (ResolveOption q v sender # (if status = ''answered'' then [] else close_unless_final acct post s')), s'))
      | _ \<Rightarrow> (Inr (close_unless_final acct post s), s))"

text \<open>
  A chat stops waiting for exactly the question that ended: it waits on after the end of a
  question if it waited before and that was not the question it waits on. A newer question keeps its
  chat waiting, and no other chat of the account is touched.
\<close>

theorem questionEnded_exact:
  assumes "0 \<le> now"
  shows "questionWaiting acct ch now (questionEnded acct ch' q s) \<longleftrightarrow>
     questionWaiting acct ch now s \<and> \<not> (ch' = ch \<and> map_option fst (mget (waiting_chats s) (chatKey acct ch)) = Some q)"
  using assms by (auto simp: questionWaiting_def questionEnded_def chatKey_def)

theorem questionEnded_exact_witness:
  "questionWaiting ''a'' ''c'' 5 (questionEnded ''a'' ''c'' ''q1''
     (markQuestionWaiting ''a'' ''c'' ''q2'' 3 (markQuestionWaiting ''a'' ''c'' ''q1'' 2 questions_init)))"
  by (subst questionEnded_exact) code_simp+

text \<open>
  A click answers only the question its own card is bound to. When an option is resolved, the
  card has a live binding, the question resolved is the bound one with the clicked option and sender,
  and that question's chat no longer waits on it; a card without a live binding resolves nothing and
  closes unless core is about to close it.
\<close>

theorem click_answers_bound_question:
  assumes "answerQuestionClick acct post ctx sender live cfg answer s = (Inr effs, s')"
  shows "(ResolveOption q v u \<in> set effs \<longrightarrow> live \<and> u = sender \<and> jget ctx ''optionValue'' = JStr v \<and>
      (\<exists>ch. mget (bindings s) (bindingKey acct post) = Some (ch, q) \<and>
        map_option fst (mget (waiting_chats s') (chatKey acct ch)) \<noteq> Some q)) \<and>
    (\<not> live \<longrightarrow> s' = s \<and> effs = close_unless_final acct post s)"
  using assms
  by (auto simp: answerQuestionClick_def close_unless_final_def Let_def questionEnded_def
      split: option.splits if_splits prod.splits)

theorem click_answers_bound_question_witness:
  "map_option fst (mget (waiting_chats (snd (answerQuestionClick ''a'' ''7'' (JObj [(''optionValue'', JStr ''y'')]) ''human:1''
      True True (Some ''answered'') (bindQuestion ''a'' ''7'' (''c'', ''q1'') (markQuestionWaiting ''a'' ''c'' ''q1'' 2 questions_init)))))
      (chatKey ''a'' ''c'')) \<noteq> Some ''q1''"
proof -
  let ?s = "bindQuestion ''a'' ''7'' (''c'', ''q1'') (markQuestionWaiting ''a'' ''c'' ''q1'' 2 questions_init)"
  let ?r = "answerQuestionClick ''a'' ''7'' (JObj [(''optionValue'', JStr ''y'')]) ''human:1'' True True (Some ''answered'') ?s"
  have e: "?r = (Inr [ResolveOption ''q1'' ''y'' ''human:1''], snd ?r)" by code_simp
  have b: "mget (bindings ?s) (bindingKey ''a'' ''7'') = Some (''c'', ''q1'')" by code_simp
  show ?thesis using click_answers_bound_question [OF e, of "''q1''" "''y''" "''human:1''"] b by auto
qed

end
