(* ===== verification/Inbound_Poller.thy ===== *)
theory Inbound_Poller
  imports Inbound_Posts Game_Wakes Questions
begin

text \<open>
  The inbound poller (\<open>runInboundPoller\<close> in \<open>plugin/src/inbound-poller.ts\<close>): which posts of which
  channels are admitted to the durable queue, which of them become a turn of the agent, how agents
  talking to agents are stopped, and how far each channel is acknowledged as read. The function's
  local variables are the state \<open>poller\<close>; its awaits split the operations, and what is awaited (the
  queue's verdict, the server's answers, the stored watermark) is an argument of the continuation.
\<close>

section \<open>Configuration and state\<close>

record account =
  acct_id :: string
  acct_agent :: string
  fallback_channel :: "string option"
  allow_from :: "string list"
  acct_interAgent :: bool
  acct_limit :: jsval
  backlog :: nat
  widgets_on :: bool

text \<open>\<open>String(v).trim()\<close> of the configured senders, empty ones dropped.\<close>

definition allowedKey :: "account \<Rightarrow> string \<Rightarrow> bool" where
  "allowedKey A k =
     (let allow = filter (\<lambda>v. v \<noteq> []) (map trim (allow_from A)) in allow = [] \<or> ''*'' \<in> set allow \<or> k \<in> set allow)"

definition allowedSender :: "account \<Rightarrow> string \<Rightarrow> bool" where
  "allowedSender A sender =
     (if sender \<noteq> [] \<and> \<not> str_includes sender '':''
      then allowedKey A sender \<or> allowedKey A (''human:'' @ sender) \<or> allowedKey A (''agent:'' @ sender)
      else allowedKey A sender)"

datatype source = Poll | Reconcile | Sse | Ws

record post_event =
  ev_channel :: string
  ev_post :: post
  ev_source :: source
  ev_attention :: bool
  ev_catchUp :: "context_post list option"
  ev_question :: bool
  ev_requeued :: bool

datatype inbound_event = PostEvent post_event | MessageEvent string | StopEvent string int

definition inboundEventId :: "inbound_event \<Rightarrow> string" where
  "inboundEventId e = (case e of
      PostEvent v \<Rightarrow>
        if ev_attention v then ''attention:'' @ post_id (ev_post v)
        else if ev_requeued v then ''turn:'' @ post_id (ev_post v) else post_id (ev_post v)
    | MessageEvent p \<Rightarrow> p
    | StopEvent c t \<Rightarrow> ''stop:'' @ c @ '':'' @ show_int t)"

record ack_state =
  sent :: nat
  want :: nat
  target :: "nat option"

record poller =
  interAgentMode :: bool
  messageLimit :: nat
  agentSnoozed :: bool
  consecutiveTurns :: nat
  awaitingGuidance :: bool
  noticeSent :: bool
  channelTypes :: "(string, string option) jsmap"
  baselines :: "(string, nat) jsmap"
  admitted :: "string list"
  acks :: "(string, ack_state) jsmap"
  ackLog :: "(string \<times> nat) list"
  selection :: model_selection
  heldSignals :: "widget_signal list"
  catchUpPending :: bool

definition poller_init :: "account \<Rightarrow> bool \<Rightarrow> poller" where
  "poller_init A catchUp = \<lparr>interAgentMode = acct_interAgent A, messageLimit = clampInterAgentMessageLimit (acct_limit A),
     agentSnoozed = False, consecutiveTurns = 0, awaitingGuidance = False, noticeSent = False, channelTypes = [],
     baselines = [], admitted = [], acks = [], ackLog = [], selection = \<lparr>agentDefault = INHERIT, channel_choices = []\<rparr>,
     heldSignals = [], catchUpPending = catchUp\<rparr>"

section \<open>Handling a post\<close>

record inbound_msg =
  m_channel :: string
  m_post :: string
  m_sender :: string
  m_tag :: "string option"
  m_text :: string
  m_files :: "inbound_file list"
  m_type :: "string option"
  m_context :: "context_post list option"
  m_trace :: "string option"
  m_attention :: bool
  m_catchUp :: bool
  m_action :: "surface_action option"
  m_at :: rat
  m_answer :: bool

datatype effect = Dispatch inbound_msg | AnswerClick surface_action string | Notice string string | Watermark string rat

definition is_self :: "account \<Rightarrow> post \<Rightarrow> bool" where
  "is_self A p = (agent_id p = Some (acct_agent A) \<or> user_id p = Some (acct_agent A))"

definition is_deleted :: "post \<Rightarrow> bool" where
  "is_deleted p = (case delete_at p of Some d \<Rightarrow> 0 < d | None \<Rightarrow> False)"

definition has_mention :: "account \<Rightarrow> post \<Rightarrow> bool" where
  "has_mention A p = hasAgentMention (text_of p) (acct_agent A)"

definition human_mention :: "account \<Rightarrow> post \<Rightarrow> bool" where
  "human_mention A p = (isUserAuthoredPost p \<and> \<not> is_self A p \<and> \<not> set_string (agent_id p) \<and> has_mention A p)"

definition channel_type :: "poller \<Rightarrow> string \<Rightarrow> string option" where
  "channel_type s c = (case mget (channelTypes s) c of Some t \<Rightarrow> t | None \<Rightarrow> None)"

definition post_channel_of :: "post_event \<Rightarrow> string" where
  "post_channel_of ev = (case post_channel (ev_post ev) of Some c \<Rightarrow> c | None \<Rightarrow> ev_channel ev)"

definition operator_channel :: "account \<Rightarrow> string \<Rightarrow> string option \<Rightarrow> bool" where
  "operator_channel A c t = (set_string (fallback_channel A) \<and> Some c = fallback_channel A \<and> t = None)"

definition addressed_to :: "account \<Rightarrow> poller \<Rightarrow> post_event \<Rightarrow> bool" where
  "addressed_to A s ev = (let p = ev_post ev; t = channel_type s (ev_channel ev) in
     has_mention A p \<or> ownSurfaceAction p (Some (acct_agent A)) \<noteq> None \<or> isPairChat t \<or>
     operator_channel A (post_channel_of ev) t \<or> ev_attention ev)"

definition game_start :: "account \<Rightarrow> (string \<Rightarrow> bool) \<Rightarrow> poller \<Rightarrow> post_event \<Rightarrow> bool" where
  "game_start A sits s ev = (let p = ev_post ev in
     set_string (widget_id p) \<and> isUserAuthoredPost p \<and> \<not> is_self A p \<and> \<not> set_string (agent_id p) \<and>
     (isPairChat (channel_type s (ev_channel ev)) \<or> sits (the (widget_id p))))"

definition would_dispatch :: "account \<Rightarrow> poller \<Rightarrow> post_event \<Rightarrow> bool" where
  "would_dispatch A s ev = (let p = ev_post ev in
     isUserAuthoredPost p \<and> \<not> is_self A p \<and> (interAgentMode s \<or> \<not> set_string (agent_id p)) \<and> addressed_to A s ev \<and>
     \<not> (channel_type s (ev_channel ev) = Some ''direct'' \<and> isServerHandledCommand (post_message p)))"

definition guidance_notice :: "runtime \<Rightarrow> post \<Rightarrow> string" where
  "guidance_notice R p = (let m = ''Nice, but need human guidance to proceed.'' in
     case senderTagForPost R p of Some t \<Rightarrow> t @ '' '' @ m | None \<Rightarrow> m)"

definition answer_message :: "runtime \<Rightarrow> account \<Rightarrow> poller \<Rightarrow> post_event \<Rightarrow> string \<Rightarrow> inbound_msg" where
  "answer_message R A s ev answer = (let p = ev_post ev in
     \<lparr>m_channel = post_channel_of ev, m_post = post_id p, m_sender = senderIdForPost R p, m_tag = None, m_text = answer,
      m_files = [], m_type = channel_type s (ev_channel ev), m_context = None,
      m_trace = (if set_string (trace_id p) then trace_id p else None), m_attention = False, m_catchUp = False,
      m_action = None, m_at = create_at p, m_answer = True\<rparr>)"

definition turn_message :: "runtime \<Rightarrow> account \<Rightarrow> poller \<Rightarrow> post_event \<Rightarrow> context_post list option \<Rightarrow> inbound_msg" where
  "turn_message R A s ev context = (let p = ev_post ev; t = channel_type s (ev_channel ev) in
     \<lparr>m_channel = post_channel_of ev, m_post = post_id p, m_sender = senderIdForPost R p,
      m_tag = (if interAgentMode s \<and> \<not> isPairChat t then senderTagForPost R p else None),
      m_text = collapseSelfMentions (text_of p) (Some (acct_agent A)),
      m_files = (case post_files p of Some fs \<Rightarrow> fs | None \<Rightarrow> []), m_type = t, m_context = context,
      m_trace = (if set_string (trace_id p) then trace_id p else None), m_attention = ev_attention ev,
      m_catchUp = (ev_catchUp ev \<noteq> None), m_action = ownSurfaceAction p (Some (acct_agent A)), m_at = create_at p,
      m_answer = False\<rparr>)"

text \<open>
  The context of a turn and the watermark it sets. \<open>shown\<close> is the stored watermark, 0 without one, and
  \<open>history\<close> the channel's recent posts as the server returns them, \<open>None\<close> when the read fails.
\<close>

definition turn_context ::
  "runtime \<Rightarrow> account \<Rightarrow> poller \<Rightarrow> post_event \<Rightarrow> rat \<Rightarrow> jsval option \<Rightarrow> context_post list option \<times> effect list" where
  "turn_context R A s ev shown history =
     (let p = ev_post ev; t = channel_type s (ev_channel ev);
          shared = (\<not> isPairChat t \<and> \<not> operator_channel A (post_channel_of ev) t);
          mark = [Watermark (acct_id A @ '':'' @ ev_channel ev) (create_at p)]
      in case ev_catchUp ev of
          Some cu \<Rightarrow> (if cu = [] then None else Some cu, if shared then mark else [])
        | None \<Rightarrow>
            if 0 < backlog A \<and> shared then
              (case history of
                 None \<Rightarrow> None
               | Some raw \<Rightarrow>
                   let ctx = buildPriorContext R (parsePostsResponse R raw) (post_id p) (create_at p) (backlog A)
                               (Some (acct_agent A)) shown (interAgentMode s)
                   in if ctx = [] then None else Some ctx, mark)
            else (None, []))"

text \<open>
  \<open>handlePost\<close>: a human's mention first ends any pause between agents, then the post is filtered, an
  agent's post is counted or held back, and what is left answers a question or becomes a turn.
\<close>

definition after_mention :: "account \<Rightarrow> post_event \<Rightarrow> poller \<Rightarrow> poller" where
  "after_mention A ev s = (if human_mention A (ev_post ev)
     then s\<lparr>consecutiveTurns := 0, awaitingGuidance := False, noticeSent := False\<rparr> else s)"

definition deliver_post ::
  "runtime \<Rightarrow> account \<Rightarrow> bool \<Rightarrow> post_event \<Rightarrow> rat \<Rightarrow> jsval option \<Rightarrow> poller \<Rightarrow> effect list" where
  "deliver_post R A question ev shown history s =
     (if question then
        (case ownSurfaceAction (ev_post ev) (Some (acct_agent A)) of
           Some act \<Rightarrow> [AnswerClick act (senderIdForPost R (ev_post ev))]
         | None \<Rightarrow> (case typedAnswer (ev_post ev) (Some (acct_agent A)) of
               Some a \<Rightarrow> [Dispatch (answer_message R A s ev a)] | None \<Rightarrow> []))
      else (case turn_context R A s ev shown history of
          (ctx, marks) \<Rightarrow> marks @ [Dispatch (turn_message R A s ev ctx)]))"

definition handlePost ::
  "runtime \<Rightarrow> account \<Rightarrow> (string \<Rightarrow> bool) \<Rightarrow> bool \<Rightarrow> post_event \<Rightarrow> rat \<Rightarrow> jsval option \<Rightarrow> poller \<Rightarrow> poller \<times> effect list" where
  "handlePost R A sits question ev shown history s0 =
     (let p = ev_post ev in
      if is_deleted p then (s0, [])
      else if agentSnoozed s0 then (s0, [])
      else let s = after_mention A ev s0 in
      if game_start A sits s ev then (s, [])
      else if \<not> would_dispatch A s ev then (s, [])
      else if \<not> allowedSender A (senderIdForPost R p) then (s, [])
      else if set_string (agent_id p) then
        (if awaitingGuidance s \<or> messageLimit s \<le> consecutiveTurns s then
           (let s1 = s\<lparr>awaitingGuidance := True\<rparr>
            in if noticeSent s1 then (s1, [])
               else (s1\<lparr>noticeSent := True\<rparr>, [Notice (post_channel_of ev) (guidance_notice R p)]))
         else let s1 = s\<lparr>consecutiveTurns := consecutiveTurns s + 1\<rparr>
              in (s1, deliver_post R A question ev shown history s1))
      else (s, deliver_post R A question ev shown history s))"

section \<open>Admission\<close>

definition KNOWN_LIMIT :: nat where "KNOWN_LIMIT = 1000"

definition remember :: "string list \<Rightarrow> string \<Rightarrow> string list" where
  "remember known i = sadd i (if KNOWN_LIMIT \<le> length known then tl known else known)"

text \<open>\<open>waiting c\<close> says whether the chat waits on a question.\<close>

definition answersQuestion :: "account \<Rightarrow> (string \<Rightarrow> bool) \<Rightarrow> post_event \<Rightarrow> bool" where
  "answersQuestion A waits ev =
     (\<not> ev_attention ev \<and>
      ((case ownSurfaceAction (ev_post ev) (Some (acct_agent A)) of Some a \<Rightarrow> a_name a = JStr QUESTION_EVENT | None \<Rightarrow> False) \<or>
       (waits (ev_channel ev) \<and> typedAnswer (ev_post ev) (Some (acct_agent A)) \<noteq> None)))"

definition admit_key :: "bool \<Rightarrow> post \<Rightarrow> string" where
  "admit_key attention p = (if attention then ''attention:'' @ post_id p else post_id p)"

text \<open>\<open>observe\<close> up to the queue: the event to admit, if the post is one to look at.\<close>

definition observe :: "account \<Rightarrow> (string \<Rightarrow> bool) \<Rightarrow> string \<Rightarrow> post \<Rightarrow> source \<Rightarrow> bool \<Rightarrow> poller \<Rightarrow> post_event option" where
  "observe A waits ch p src attention s =
     (let i = postSerialOf p; flr = mget (baselines s) ch in
      if i = 0 \<or> admit_key attention p \<in> set (admitted s) \<or> isUnsettled p \<or> is_self A p then None
      else if \<not> attention \<and> (case flr of None \<Rightarrow> src = Poll \<or> src = Reconcile | Some f \<Rightarrow> i \<le> f) then None
      else let ev = \<lparr>ev_channel = ch, ev_post = p, ev_source = src, ev_attention = attention, ev_catchUp = None,
                     ev_question = False, ev_requeued = False\<rparr>
           in Some (ev\<lparr>ev_question := answersQuestion A waits ev\<rparr>))"

subsection \<open>Read pointers\<close>

text \<open>
  One loop per channel sends the pointer: \<open>target\<close> is the request under way, and \<open>ackLog\<close> every request
  made. The loop's body runs up to its await at once, so a busy channel always has a target.
\<close>

definition ack_of :: "poller \<Rightarrow> string \<Rightarrow> ack_state" where
  "ack_of s ch = (case mget (acks s) ch of Some a \<Rightarrow> a | None \<Rightarrow> \<lparr>sent = 0, want = 0, target = None\<rparr>)"

definition ack_loop :: "string \<Rightarrow> poller \<Rightarrow> poller" where
  "ack_loop ch s = (let a = ack_of s ch in
     if sent a < want a
     then s\<lparr>acks := mset_key ch (a\<lparr>target := Some (want a)\<rparr>) (acks s), ackLog := ackLog s @ [(ch, want a)]\<rparr>
     else s\<lparr>acks := mset_key ch (a\<lparr>target := None\<rparr>) (acks s)\<rparr>)"

definition ackRead :: "string \<Rightarrow> nat \<Rightarrow> poller \<Rightarrow> poller" where
  "ackRead ch n s =
     (if n = 0 then s
      else let a = ack_of s ch in
      if n \<le> want a then s\<lparr>acks := mset_key ch a (acks s)\<rparr>
      else let s1 = s\<lparr>acks := mset_key ch (a\<lparr>want := n\<rparr>) (acks s)\<rparr>
           in if target a \<noteq> None then s1 else ack_loop ch s1)"

definition ack_result :: "string \<Rightarrow> bool \<Rightarrow> poller \<Rightarrow> poller" where
  "ack_result ch success s = (let a = ack_of s ch in case target a of
      None \<Rightarrow> s
    | Some n \<Rightarrow>
        if success then ack_loop ch (s\<lparr>acks := mset_key ch (a\<lparr>sent := n\<rparr>) (acks s)\<rparr>)
        else s\<lparr>acks := mset_key ch (a\<lparr>target := None\<rparr>) (acks s)\<rparr>)"

text \<open>The rest of \<open>observe\<close>, once the queue has answered.\<close>

definition observe_admitted :: "post_event \<Rightarrow> bool \<Rightarrow> poller \<Rightarrow> poller" where
  "observe_admitted ev durable s =
     (if \<not> durable then s
      else let s1 = s\<lparr>admitted := remember (admitted s) (admit_key (ev_attention ev) (ev_post ev))\<rparr>
           in if ev_attention ev then s1 else ackRead (ev_channel ev) (postSerialOf (ev_post ev)) s1)"

section \<open>Channels and control payloads\<close>

definition seedBaseline :: "discovered \<Rightarrow> poller \<Rightarrow> poller" where
  "seedBaseline c s = (case (mget (baselines s) (ch_id c), latestPostId c) of
      (None, Some n) \<Rightarrow> s\<lparr>baselines := mset_key (ch_id c) n (baselines s)\<rparr>
    | _ \<Rightarrow> s)"

definition discover :: "bool \<Rightarrow> poller \<Rightarrow> discovered \<Rightarrow> poller" where
  "discover seed s c = (let s1 = s\<lparr>channelTypes := mset_key (ch_id c) (ch_type c) (channelTypes s)\<rparr>
     in if seed then seedBaseline c s1 else s1)"

definition rebuildDiscoveredChannels :: "discovered list \<Rightarrow> poller \<Rightarrow> poller" where
  "rebuildDiscoveredChannels cs s = foldl (discover (\<not> catchUpPending s)) (s\<lparr>channelTypes := []\<rparr>) cs"

definition mergeDiscoveredChannels :: "discovered list \<Rightarrow> poller \<Rightarrow> poller" where
  "mergeDiscoveredChannels cs s = foldl (discover True) s cs"

definition removeDiscoveredChannel :: "string \<Rightarrow> poller \<Rightarrow> poller" where
  "removeDiscoveredChannel c s = s\<lparr>channelTypes := mdel c (channelTypes s), baselines := mdel c (baselines s)\<rparr>"

definition discoveredFromChannelTypes :: "poller \<Rightarrow> discovered list" where
  "discoveredFromChannelTypes s =
     map (\<lambda>(i, t). \<lparr>ch_id = i, ch_type = t, latestPostId = None, lastReadPostId = None\<rparr>) (channelTypes s)"

text \<open>The new state, the channels the payload lists, and the game signals to offer at once.\<close>

definition applyControlPayload :: "account \<Rightarrow> jsval \<Rightarrow> poller \<Rightarrow> poller \<times> discovered list \<times> widget_signal list" where
  "applyControlPayload A raw s =
     (let cs = extractChannels raw;
          s1 = rebuildDiscoveredChannels cs s;
          s2 = s1\<lparr>interAgentMode := (case extractInterAgentMode raw of Some b \<Rightarrow> b | None \<Rightarrow> acct_interAgent A),
                  messageLimit := (case extractInterAgentMessageLimit raw of Some n \<Rightarrow> n
                                   | None \<Rightarrow> clampInterAgentMessageLimit (acct_limit A)),
                  agentSnoozed := (case extractAgentSnoozed raw of Some b \<Rightarrow> b | None \<Rightarrow> False)\<rparr>;
          s3 = (case extractModelSelection raw of Some m \<Rightarrow> s2\<lparr>selection := m\<rparr> | None \<Rightarrow> s2);
          waits = waitingSignals raw
      in if catchUpPending s3 then (s3\<lparr>heldSignals := waits\<rparr>, cs, [])
         else (s3, cs, if widgets_on A then waits else []))"

text \<open>An event of the agent's WebSocket.\<close>

record ws_event =
  ws_type :: string
  ws_channel :: "string option"
  ws_data :: jsval

datatype ws_effect = ForceReconcile | WakeCompanion string | AdmitStop string int | OfferGame widget_signal
  | ObservePost string post bool

definition postOf :: "runtime \<Rightarrow> account \<Rightarrow> ws_event \<Rightarrow> (string \<times> post) option" where
  "postOf R A e =
     (if \<not> is_object (ws_data e) then None
      else case normalizePost R (ws_data e) of
        None \<Rightarrow> None
      | Some p \<Rightarrow>
          (case (case ws_channel e of Some c \<Rightarrow> Some c | None \<Rightarrow>
                  (case post_channel p of Some c \<Rightarrow> Some c | None \<Rightarrow> fallback_channel A)) of
             Some c \<Rightarrow> if c = [] then None else Some (c, p)
           | None \<Rightarrow> None))"

definition onWsEvent :: "runtime \<Rightarrow> account \<Rightarrow> int \<Rightarrow> ws_event \<Rightarrow> poller \<Rightarrow> poller \<times> ws_effect list" where
  "onWsEvent R A now e s =
     (let t = ws_type e; d = ws_data e in
      if t = ''snapshot'' then
        (case applyControlPayload A d s of (s1, _, offers) \<Rightarrow> (s1, map OfferGame offers @ [ForceReconcile]))
      else if t = ''channel.added'' then
        (let item = (if d \<noteq> JUndef \<and> d \<noteq> JNull then d
                     else if set_string (ws_channel e) then JObj [(''channel_id'', JStr (the (ws_channel e)))] else JNull)
         in (mergeDiscoveredChannels (extractChannels (JArr [item])) s, [ForceReconcile]))
      else if t = ''channel.removed'' then
        (if set_string (ws_channel e) then removeDiscoveredChannel (the (ws_channel e)) s else s, [ForceReconcile])
      else if t = ''resync_required'' then (s, [ForceReconcile])
      else if t = ''model.selection'' then
        (if \<not> is_object d then (s, [])
         else let choice = choiceOf (jget d ''model'') (jget d ''thinking'') in
              case as_str (jget d ''channel_id'') of
                Some c \<Rightarrow> (s\<lparr>selection := (selection s)\<lparr>channel_choices := mset_key c choice (channel_choices (selection s))\<rparr>\<rparr>, [])
              | None \<Rightarrow> (s\<lparr>selection := (selection s)\<lparr>agentDefault := choice\<rparr>\<rparr>, []))
      else if t = ''skills.sync'' \<or> t = ''automation.sync'' then (s, [WakeCompanion t])
      else if t = ''turn.stop'' then (s, if set_string (ws_channel e) then [AdmitStop (the (ws_channel e)) now] else [])
      else if t = ''widget.turn'' then
        (s, case widgetTurnSignal (case ws_channel e of Some c \<Rightarrow> JStr c | None \<Rightarrow> JUndef) d of
              Some sg \<Rightarrow> if widgets_on A then [OfferGame sg] else [] | None \<Rightarrow> [])
      else if t = ''lobstertalk.consider'' \<or> t = ''post.created'' then
        (s, case postOf R A e of Some (c, p) \<Rightarrow> [ObservePost c p (t = ''lobstertalk.consider'')] | None \<Rightarrow> [])
      else (s, []))"

section \<open>Catching up\<close>

text \<open>
  Pages of the posts after a serial, 50 at a time, at most four; the flag says that more are left.
  \<open>fetch\<close> is the server's answer to a page request, \<open>None\<close> when it fails.
\<close>

definition max_serial :: "nat \<Rightarrow> post list \<Rightarrow> nat" where
  "max_serial n ps = foldl (\<lambda>m p. max m (postSerialOf p)) n ps"

fun drain_pages :: "runtime \<Rightarrow> (nat \<Rightarrow> jsval option) \<Rightarrow> nat \<Rightarrow> nat \<Rightarrow> post list \<Rightarrow> (post list \<times> bool) option" where
  "drain_pages R fetch 0 after acc = Some (acc, True)"
| "drain_pages R fetch (Suc n) after acc = (case fetch after of
      None \<Rightarrow> None
    | Some raw \<Rightarrow>
        let posts = parsePostsResponse R raw
        in if length posts < 50 then Some (acc @ posts, False)
           else drain_pages R fetch n (max_serial after posts) (acc @ posts))"

definition drainGap :: "runtime \<Rightarrow> (nat \<Rightarrow> jsval option) \<Rightarrow> nat \<Rightarrow> (post list \<times> bool) option" where
  "drainGap R fetch after = drain_pages R fetch 4 after []"

definition set_baseline :: "string \<Rightarrow> nat \<Rightarrow> poller \<Rightarrow> poller" where
  "set_baseline c n s = s\<lparr>baselines := mset_key c n (baselines s)\<rparr>"

definition catch_up_pending :: "account \<Rightarrow> post list \<Rightarrow> post list" where
  "catch_up_pending A ps = filter (\<lambda>p. \<not> is_deleted p \<and> isUserAuthoredPost p \<and> \<not> set_string (agent_id p) \<and>
     user_id p \<noteq> Some (acct_agent A) \<and> \<not> set_string (widget_id p)) ps"

definition catch_up_addressed :: "account \<Rightarrow> discovered \<Rightarrow> post \<Rightarrow> bool" where
  "catch_up_addressed A c p =
     (isPairChat (ch_type c) \<or> operator_channel A (ch_id c) (ch_type c) \<or>
      (case ownSurfaceAction p (Some (acct_agent A)) of
         Some a \<Rightarrow> coalesce (a_name a) (JStr QUESTION_EVENT) \<noteq> JStr QUESTION_EVENT | None \<Rightarrow> False) \<or>
      has_mention A p)"

text \<open>
  One channel's catch-up: the state, the event handed to the queue if there is a trigger, and the
  number of missed posts surfaced, \<open>None\<close> when a request throws. \<open>durable\<close> is the queue's verdict.
\<close>

definition catchUpChannel ::
  "runtime \<Rightarrow> account \<Rightarrow> (nat \<Rightarrow> jsval option) \<Rightarrow> jsval option \<Rightarrow> bool \<Rightarrow> discovered \<Rightarrow> poller \<Rightarrow>
   poller \<times> post_event option \<times> nat option" where
  "catchUpChannel R A fetch recent durable c s =
     (let ch = ch_id c in case lastReadPostId c of
        None \<Rightarrow> (case latestPostId c of
            None \<Rightarrow> (s, None, Some 0)
          | Some n \<Rightarrow> (ackRead ch n (set_baseline ch n s), None, Some 0))
      | Some lst \<Rightarrow>
          let latest = (case latestPostId c of Some n \<Rightarrow> n | None \<Rightarrow> 0);
              s1 = set_baseline ch (max lst latest) s
          in if latestPostId c \<noteq> None \<and> latest \<le> lst then (s1, None, Some 0)
             else case drainGap R fetch lst of
               None \<Rightarrow> (s1, None, None)
             | Some (gap, overflowed) \<Rightarrow>
               (case (if overflowed then map_option (parsePostsResponse R) recent else Some gap) of
                  None \<Rightarrow> (s1, None, None)
                | Some posts \<Rightarrow>
                    let s2 = set_baseline ch (max (max_serial lst posts) latest) s1;
                        missed = catch_up_pending A posts;
                        hits = filter (catch_up_addressed A c) missed;
                        upTo = max_serial lst (filter (\<lambda>p. \<not> isUnsettled p) posts)
                    in if hits = [] then (ackRead ch upTo s2, None, Some 0)
                       else let p = last hits;
                                ctx = buildPriorContext R posts (post_id p) (create_at p) 50 (Some (acct_agent A)) 0 (interAgentMode s2);
                                ev = \<lparr>ev_channel = ch, ev_post = p, ev_source = Poll, ev_attention = False,
                                      ev_catchUp = Some ctx, ev_question = False, ev_requeued = False\<rparr>
                            in if \<not> durable then (s2, Some ev, Some 0)
                               else (ackRead ch upTo (s2\<lparr>admitted := remember (admitted s2) (post_id p)\<rparr>), Some ev,
                                     Some (length missed))))"

text \<open>A poll of one channel: the first sets its baseline, later ones look at every post.\<close>

fun poll_posts :: "account \<Rightarrow> (string \<Rightarrow> bool) \<Rightarrow> (post_event \<Rightarrow> bool) \<Rightarrow> string \<Rightarrow> source \<Rightarrow> post list \<Rightarrow> poller \<Rightarrow> poller \<times> post_event list" where
  "poll_posts A waits durable ch src [] s = (s, [])"
| "poll_posts A waits durable ch src (p # ps) s = (case observe A waits ch p src False s of
      None \<Rightarrow> poll_posts A waits durable ch src ps s
    | Some ev \<Rightarrow> (case poll_posts A waits durable ch src ps (observe_admitted ev (durable ev) s) of
        (s', evs) \<Rightarrow> (s', ev # evs)))"

definition poll_channel ::
  "runtime \<Rightarrow> account \<Rightarrow> (string \<Rightarrow> bool) \<Rightarrow> (post_event \<Rightarrow> bool) \<Rightarrow> source \<Rightarrow> jsval option \<Rightarrow> string \<Rightarrow> poller \<Rightarrow>
   poller \<times> post_event list" where
  "poll_channel R A waits durable src raw ch s = (case raw of
      None \<Rightarrow> (s, [])
    | Some r \<Rightarrow>
        let posts = parsePostsResponse R r
        in if mget (baselines s) ch = None then (set_baseline ch (max_serial 0 posts) s, [])
           else poll_posts A waits durable ch src posts s)"

text \<open>Coming back from a snooze: what came meanwhile is acknowledged and never dispatched.\<close>

definition skip_snoozed :: "poller \<Rightarrow> discovered \<Rightarrow> poller" where
  "skip_snoozed s c = (case latestPostId c of
      None \<Rightarrow> s
    | Some n \<Rightarrow> ackRead (ch_id c) n
        (set_baseline (ch_id c) (max (case mget (baselines s) (ch_id c) of Some b \<Rightarrow> b | None \<Rightarrow> 0) n) s))"

section \<open>Invariant\<close>

lemma remember_evicting_posts: "remember = remember_evicting KNOWN_LIMIT"
  by (intro ext) (simp add: remember_def remember_evicting_def)

interpretation known_posts: bounded_memory remember KNOWN_LIMIT
  unfolding remember_evicting_posts by (rule bounded_memory_evicting) (simp add: KNOWN_LIMIT_def)

definition log_of :: "string \<Rightarrow> (string \<times> nat) list \<Rightarrow> nat list" where
  "log_of ch l = map snd (filter (\<lambda>e. fst e = ch) l)"

definition ack_ok :: "ack_state \<Rightarrow> nat list \<Rightarrow> bool" where
  "ack_ok a l \<longleftrightarrow> sorted_wrt (<) l \<and> (\<forall>n \<in> set l. n \<le> want a) \<and> sent a \<le> want a \<and>
     (\<forall>n. target a = Some n \<longrightarrow> sent a < n \<and> l \<noteq> [] \<and> last l = n)"

definition acks_ok :: "poller \<Rightarrow> bool" where
  "acks_ok s \<longleftrightarrow> (\<forall>ch. ack_ok (ack_of s ch) (log_of ch (ackLog s)))"

definition poller_ok :: "poller \<Rightarrow> bool" where
  "poller_ok s \<longleftrightarrow> distinct (admitted s) \<and> length (admitted s) \<le> KNOWN_LIMIT \<and>
     1 \<le> messageLimit s \<and> messageLimit s \<le> 50 \<and> consecutiveTurns s \<le> 50 \<and> acks_ok s"

lemma log_of_append [simp]: "log_of ch (l @ [(c, n)]) = log_of ch l @ (if c = ch then [n] else [])"
  by (simp add: log_of_def)

lemma ack_of_put [simp]: "ack_of (s\<lparr>acks := mset_key ch a (acks s), ackLog := l\<rparr>) ch' = (if ch' = ch then a else ack_of s ch')"
  "ack_of (s\<lparr>acks := mset_key ch a (acks s)\<rparr>) ch' = (if ch' = ch then a else ack_of s ch')"
  "ack_of (s\<lparr>acks := mset_key ch a (mset_key ch b (acks s))\<rparr>) ch' = (if ch' = ch then a else ack_of s ch')"
  by (simp_all add: ack_of_def)

text \<open>One step of the loop from a state whose requests all are below what is wanted, or nothing is.\<close>

lemma acks_ok_loop:
  assumes "acks_ok (s\<lparr>acks := mset_key ch b (acks s)\<rparr>)" and "a = ack_of s ch" and "b = a\<lparr>target := None\<rparr>"
    and "sent a < want a \<Longrightarrow> \<forall>n \<in> set (log_of ch (ackLog s)). n < want a"
  shows "acks_ok (ack_loop ch s)"
proof (cases "sent a < want a")
  case True
  have ok: "ack_ok b (log_of ch (ackLog s))" using assms(1) by (auto simp: acks_ok_def dest: spec [of _ ch])
  have "ack_ok (a\<lparr>target := Some (want a)\<rparr>) (log_of ch (ackLog s) @ [want a])"
    using ok True assms(3,4) by (auto simp: ack_ok_def sorted_wrt_append)
  moreover have "ack_ok (ack_of s c) (log_of c (ackLog s))" if "c \<noteq> ch" for c
    using assms(1) that by (auto simp: acks_ok_def dest: spec [of _ c])
  ultimately show ?thesis using True assms(2) by (auto simp: ack_loop_def acks_ok_def Let_def)
next
  case False
  with assms show ?thesis by (simp add: ack_loop_def Let_def)
qed

lemma acks_ok_ackRead:
  assumes ok: "acks_ok s"
  shows "acks_ok (ackRead ch n s)"
proof -
  let ?a = "ack_of s ch"
  have a: "ack_ok ?a (log_of ch (ackLog s))" using ok by (simp add: acks_ok_def)
  have others: "ack_ok (ack_of s c) (log_of c (ackLog s))" for c using ok by (simp add: acks_ok_def)
  consider (none) "n = 0 \<or> n \<le> want ?a" | (busy) "n \<noteq> 0" "want ?a < n" "target ?a \<noteq> None" | (go) "n \<noteq> 0" "want ?a < n" "target ?a = None"
    by force
  then show ?thesis
  proof cases
    case none
    then show ?thesis using others by (auto simp: ackRead_def Let_def acks_ok_def)
  next
    case busy
    have "ack_ok (?a\<lparr>want := n\<rparr>) (log_of ch (ackLog s))" using a busy by (auto simp: ack_ok_def)
    with busy others show ?thesis by (auto simp: ackRead_def Let_def acks_ok_def)
  next
    case go
    let ?s = "s\<lparr>acks := mset_key ch (?a\<lparr>want := n\<rparr>) (acks s)\<rparr>"
    have wk: "ack_ok (?a\<lparr>want := n\<rparr>) (log_of ch (ackLog s))" using a go by (auto simp: ack_ok_def)
    have st: "?a\<lparr>want := n, target := None\<rparr> = ?a\<lparr>want := n\<rparr>" using go(3) by simp
    have "acks_ok (ack_loop ch ?s)"
    proof (rule acks_ok_loop [OF _ refl refl])
      show "acks_ok (?s\<lparr>acks := mset_key ch (ack_of ?s ch\<lparr>target := None\<rparr>) (acks ?s)\<rparr>)"
        using wk others st by (auto simp: acks_ok_def)
      show "\<forall>m \<in> set (log_of ch (ackLog ?s)). m < want (ack_of ?s ch)"
        using a go by (auto simp: ack_ok_def)
    qed
    with go show ?thesis by (simp add: ackRead_def Let_def)
  qed
qed

lemma acks_ok_result:
  assumes ok: "acks_ok s"
  shows "acks_ok (ack_result ch b s)"
proof -
  let ?a = "ack_of s ch"
  have a: "ack_ok ?a (log_of ch (ackLog s))" using ok by (simp add: acks_ok_def)
  have others: "ack_ok (ack_of s c) (log_of c (ackLog s))" for c using ok by (simp add: acks_ok_def)
  show ?thesis
  proof (cases "target ?a")
    case None
    with ok show ?thesis by (simp add: ack_result_def Let_def)
  next
    case (Some n)
    have drop: "ack_ok (?a\<lparr>target := None\<rparr>) (log_of ch (ackLog s))" using a by (auto simp: ack_ok_def)
    show ?thesis
    proof (cases b)
      case False
      with drop others Some show ?thesis by (auto simp: ack_result_def Let_def acks_ok_def)
    next
      case True
      let ?s = "s\<lparr>acks := mset_key ch (?a\<lparr>sent := n\<rparr>) (acks s)\<rparr>"
      have n: "n \<le> want ?a" "\<forall>m \<in> set (log_of ch (ackLog s)). m \<le> n"
      proof -
        from a Some have l: "log_of ch (ackLog s) \<noteq> []" "last (log_of ch (ackLog s)) = n" "sorted_wrt (<) (log_of ch (ackLog s))"
          "\<forall>n \<in> set (log_of ch (ackLog s)). n \<le> want ?a" by (auto simp: ack_ok_def)
        then show "n \<le> want ?a" using last_in_set by blast
        have "log_of ch (ackLog s) = butlast (log_of ch (ackLog s)) @ [n]" using l(1,2) by (metis append_butlast_last_id)
        with l(3) show "\<forall>m \<in> set (log_of ch (ackLog s)). m \<le> n"
          by (metis Un_iff empty_iff empty_set less_or_eq_imp_le list.set_intros(1) set_ConsD set_append sorted_wrt_append)
      qed
      have dn: "ack_ok (?a\<lparr>sent := n, target := None\<rparr>) (log_of ch (ackLog s))" using a n by (auto simp: ack_ok_def)
      have "acks_ok (ack_loop ch ?s)"
      proof (rule acks_ok_loop [OF _ refl refl])
        show "acks_ok (?s\<lparr>acks := mset_key ch (ack_of ?s ch\<lparr>target := None\<rparr>) (acks ?s)\<rparr>)"
          using dn others by (auto simp: acks_ok_def)
        show "sent (ack_of ?s ch) < want (ack_of ?s ch) \<Longrightarrow> \<forall>m \<in> set (log_of ch (ackLog ?s)). m < want (ack_of ?s ch)"
          using n by auto
      qed
      with Some True show ?thesis by (simp add: ack_result_def Let_def)
    qed
  qed
qed

datatype poller_step = Handle "string \<Rightarrow> bool" bool post_event rat "jsval option"
  | Admitted post_event bool
  | AckAnswer string bool
  | Control jsval
  | WsEvent int ws_event
  | CatchUpBegins
  | CatchUp "nat \<Rightarrow> jsval option" "jsval option" bool discovered
  | PollChannel "string \<Rightarrow> bool" "post_event \<Rightarrow> bool" source "jsval option" string
  | Unsnoozed "discovered list"

fun poller_do :: "runtime \<Rightarrow> account \<Rightarrow> poller \<Rightarrow> poller_step \<Rightarrow> poller" where
  "poller_do R A s (Handle sits q ev shown hist) = fst (handlePost R A sits q ev shown hist s)"
| "poller_do R A s (Admitted ev durable) = observe_admitted ev durable s"
| "poller_do R A s (AckAnswer ch success) = ack_result ch success s"
| "poller_do R A s (Control raw) = fst (applyControlPayload A raw s)"
| "poller_do R A s (WsEvent now e) = fst (onWsEvent R A now e s)"
| "poller_do R A s CatchUpBegins = s\<lparr>catchUpPending := False\<rparr>"
| "poller_do R A s (CatchUp fetch recent durable c) = fst (catchUpChannel R A fetch recent durable c s)"
| "poller_do R A s (PollChannel waits durable src raw ch) = fst (poll_channel R A waits durable src raw ch s)"
| "poller_do R A s (Unsnoozed cs) = foldl skip_snoozed s cs"

lemma poller_ok_ackRead: "poller_ok s \<Longrightarrow> poller_ok (ackRead ch n s)"
  using acks_ok_ackRead [of s ch n] by (auto simp: poller_ok_def ackRead_def ack_loop_def Let_def)

lemma poller_ok_baseline: "poller_ok (set_baseline ch n s) = poller_ok s"
  by (simp add: poller_ok_def set_baseline_def acks_ok_def ack_of_def)

lemma poller_ok_remember: "poller_ok s \<Longrightarrow> poller_ok (s\<lparr>admitted := remember (admitted s) k\<rparr>)"
  by (simp add: poller_ok_def acks_ok_def ack_of_def known_posts.remember_distinct known_posts.remember_bound)

lemma poller_ok_admitted: "poller_ok s \<Longrightarrow> poller_ok (observe_admitted ev durable s)"
  by (auto simp: observe_admitted_def Let_def poller_ok_remember intro!: poller_ok_ackRead)

lemma poller_ok_handle:
  assumes ok: "poller_ok s"
  shows "poller_ok (fst (handlePost R A sits q ev shown hist s))"
proof -
  have am: "poller_ok (after_mention A ev s)" using ok by (auto simp: after_mention_def poller_ok_def acks_ok_def ack_of_def)
  have fr: "poller_ok (m\<lparr>awaitingGuidance := b\<rparr>) = poller_ok m" "poller_ok (m\<lparr>awaitingGuidance := b, noticeSent := c\<rparr>) = poller_ok m" for m b c
    by (simp_all add: poller_ok_def acks_ok_def ack_of_def)
  have "poller_ok (m\<lparr>consecutiveTurns := consecutiveTurns m + 1\<rparr>)" if "poller_ok m" "\<not> messageLimit m \<le> consecutiveTurns m" for m
    using that by (auto simp: poller_ok_def acks_ok_def ack_of_def)
  with ok am show ?thesis by (auto simp: handlePost_def Let_def fr)
qed

lemma poller_ok_frame:
  "poller_ok (s\<lparr>channelTypes := x\<rparr>) = poller_ok s" "poller_ok (s\<lparr>baselines := y\<rparr>) = poller_ok s"
  "poller_ok (s\<lparr>selection := m\<rparr>) = poller_ok s" "poller_ok (s\<lparr>heldSignals := h\<rparr>) = poller_ok s"
  "poller_ok (s\<lparr>catchUpPending := b\<rparr>) = poller_ok s" "poller_ok (s\<lparr>agentSnoozed := b\<rparr>) = poller_ok s"
  "poller_ok (s\<lparr>interAgentMode := b\<rparr>) = poller_ok s"
  by (simp_all add: poller_ok_def acks_ok_def ack_of_def)

lemma poller_ok_discover: "poller_ok s \<Longrightarrow> poller_ok (foldl (discover b) s cs)"
  by (induction cs arbitrary: s) (auto simp: discover_def seedBaseline_def Let_def poller_ok_frame split: option.split)

lemma poller_ok_limit: "poller_ok s \<Longrightarrow> 1 \<le> n \<Longrightarrow> n \<le> 50 \<Longrightarrow> poller_ok (s\<lparr>messageLimit := n\<rparr>)"
  by (simp add: poller_ok_def acks_ok_def ack_of_def)

lemma poller_ok_control:
  assumes ok: "poller_ok s"
  shows "poller_ok (fst (applyControlPayload A raw s))"
proof -
  let ?n = "case extractInterAgentMessageLimit raw of Some n \<Rightarrow> n | None \<Rightarrow> clampInterAgentMessageLimit (acct_limit A)"
  have n: "1 \<le> ?n" "?n \<le> 50"
    using clamp_bounds by (auto simp: extractInterAgentMessageLimit_def Let_def split: option.split if_splits)
  let ?s1 = "rebuildDiscoveredChannels (extractChannels raw) s"
  have "poller_ok ?s1" using ok unfolding rebuildDiscoveredChannels_def by (intro poller_ok_discover) (simp add: poller_ok_frame)
  then have "poller_ok (?s1\<lparr>interAgentMode := b, messageLimit := ?n, agentSnoozed := z\<rparr>)" for b z
    using n poller_ok_limit by (simp add: poller_ok_frame)
  then show ?thesis
    by (simp add: applyControlPayload_def Let_def poller_ok_frame split: option.split)
qed

lemma poller_ok_ws: "poller_ok s \<Longrightarrow> poller_ok (fst (onWsEvent R A now e s))"
  using poller_ok_control [of s A "ws_data e"]
  by (auto simp: onWsEvent_def Let_def mergeDiscoveredChannels_def removeDiscoveredChannel_def poller_ok_discover poller_ok_frame
      split: prod.split option.split)

lemma poller_ok_catchUp: "poller_ok s \<Longrightarrow> poller_ok (fst (catchUpChannel R A fetch recent durable c s))"
  by (auto simp: catchUpChannel_def Let_def poller_ok_baseline poller_ok_remember intro!: poller_ok_ackRead
      split: option.split prod.split)

lemma poller_ok_posts: "poller_ok s \<Longrightarrow> poller_ok (fst (poll_posts A waits durable ch src ps s))"
proof (induction ps arbitrary: s)
  case (Cons p ps)
  show ?case
  proof (cases "observe A waits ch p src False s")
    case (Some ev)
    from Cons.IH [of "observe_admitted ev (durable ev) s"] Cons.prems Some show ?thesis
      by (simp add: poller_ok_admitted case_prod_beta)
  qed (use Cons in simp)
qed simp

lemma poller_ok_result: "poller_ok s \<Longrightarrow> poller_ok (ack_result ch b s)"
  using acks_ok_result [of s ch b]
  by (auto simp: poller_ok_def ack_result_def ack_loop_def Let_def split: option.splits)

lemma poller_ok_poll: "poller_ok s \<Longrightarrow> poller_ok (fst (poll_channel R A waits durable src raw ch s))"
  by (auto simp: poll_channel_def Let_def poller_ok_baseline poller_ok_posts split: option.split)

lemma poller_ok_skip: "poller_ok s \<Longrightarrow> poller_ok (foldl skip_snoozed s cs)"
  by (induction cs arbitrary: s)
    (auto simp: skip_snoozed_def poller_ok_baseline poller_ok_ackRead split: option.split)

interpretation inbound: transition_system "poller_init A b" "poller_do R A" poller_ok for R A b
proof unfold_locales
  show "poller_ok (poller_init A b)"
    using clamp_bounds [of "acct_limit A"]
    by (auto simp: poller_ok_def poller_init_def KNOWN_LIMIT_def acks_ok_def ack_of_def ack_ok_def log_of_def)
  show "poller_ok s \<Longrightarrow> poller_ok (poller_do R A s e)" for s e
    by (cases e) (simp_all add: poller_ok_handle poller_ok_admitted poller_ok_control poller_ok_ws poller_ok_frame
        poller_ok_catchUp poller_ok_poll poller_ok_skip poller_ok_result)
qed

section \<open>Properties\<close>

definition is_turn :: "effect \<Rightarrow> bool" where
  "is_turn e = (case e of Dispatch _ \<Rightarrow> True | AnswerClick _ _ \<Rightarrow> True | _ \<Rightarrow> False)"

definition is_notice :: "effect \<Rightarrow> bool" where
  "is_notice e = (case e of Notice _ _ \<Rightarrow> True | _ \<Rightarrow> False)"

lemma after_mention_frame [simp]:
  "interAgentMode (after_mention A ev s) = interAgentMode s" "channelTypes (after_mention A ev s) = channelTypes s"
  "messageLimit (after_mention A ev s) = messageLimit s" "\<not> human_mention A (ev_post ev) \<Longrightarrow> after_mention A ev s = s"
  by (simp_all add: after_mention_def)

lemma would_dispatch_cong:
  "interAgentMode s = interAgentMode t \<Longrightarrow> channelTypes s = channelTypes t \<Longrightarrow> would_dispatch A s ev = would_dispatch A t ev"
  by (simp add: would_dispatch_def addressed_to_def channel_type_def Let_def)

text \<open>
  C6: Only what is meant for the agent, from someone allowed, reaches it. A post that becomes a turn or
  answers a question is a user's, live, not the agent's own, met no snooze, is addressed to the agent
  by a mention, a pair chat, one of its cards, the operator's channel or the attention gate, comes
  from a sender \<open>allowFrom\<close> admits, and if an agent wrote it then talk between agents is on.
\<close>

theorem turns_are_admitted:
  assumes "\<exists>e \<in> set (snd (handlePost R A sits q ev shown hist s)). is_turn e"
  shows "isUserAuthoredPost (ev_post ev) \<and> \<not> is_deleted (ev_post ev) \<and> \<not> is_self A (ev_post ev) \<and> \<not> agentSnoozed s \<and>
    addressed_to A s ev \<and> allowedSender A (senderIdForPost R (ev_post ev)) \<and>
    (interAgentMode s \<or> \<not> set_string (agent_id (ev_post ev)))"
proof -
  let ?s = "after_mention A ev s"
  have h: "\<not> is_deleted (ev_post ev)" "\<not> agentSnoozed s" "would_dispatch A ?s ev" "allowedSender A (senderIdForPost R (ev_post ev))"
    using assms by (auto simp: handlePost_def Let_def is_turn_def split: if_splits)
  have "would_dispatch A ?s ev = would_dispatch A s ev" by (rule would_dispatch_cong) simp_all
  with h show ?thesis by (auto simp: would_dispatch_def Let_def)
qed

text \<open>A batch of posts handled one after the other, each effect with whether an agent's post caused it.\<close>

type_synonym handled = "bool \<times> post_event \<times> rat \<times> jsval option"

fun handle_all :: "runtime \<Rightarrow> account \<Rightarrow> (string \<Rightarrow> bool) \<Rightarrow> handled list \<Rightarrow> poller \<Rightarrow> poller \<times> (bool \<times> effect) list" where
  "handle_all R A sits [] s = (s, [])"
| "handle_all R A sits ((q, ev, shown, hist) # hs) s =
     (let (s1, effs) = handlePost R A sits q ev shown hist s;
          (s2, rest) = handle_all R A sits hs s1
      in (s2, map (Pair (set_string (agent_id (ev_post ev)))) effs @ rest))"

definition agent_turns :: "(bool \<times> effect) list \<Rightarrow> nat" where
  "agent_turns es = length (filter (\<lambda>e. fst e \<and> is_turn (snd e)) es)"

definition notices :: "(bool \<times> effect) list \<Rightarrow> nat" where
  "notices es = length (filter (\<lambda>e. is_notice (snd e)) es)"

lemma agent_turns_append [simp]: "agent_turns (a @ b) = agent_turns a + agent_turns b"
  by (simp add: agent_turns_def)

lemma notices_append [simp]: "notices (a @ b) = notices a + notices b"
  by (simp add: notices_def)

lemma deliver_counts:
  "length (filter is_turn (deliver_post R A q ev shown hist s)) \<le> 1"
  "filter is_notice (deliver_post R A q ev shown hist s) = []"
  by (auto simp: deliver_post_def turn_context_def is_turn_def is_notice_def Let_def split: option.split prod.split)

lemma tagged_counts:
  "agent_turns (map (Pair b) es) = (if b then length (filter is_turn es) else 0)"
  "notices (map (Pair b) es) = length (filter is_notice es)"
  by (simp_all add: agent_turns_def notices_def filter_map comp_def)

text \<open>One post without a human's mention: it costs one of the turns left, or none.\<close>

lemma handle_counts:
  assumes "\<not> human_mention A (ev_post ev)" and "handlePost R A sits q ev shown hist s = (s', effs)"
  shows "agent_turns (map (Pair (set_string (agent_id (ev_post ev)))) effs) + consecutiveTurns s \<le> consecutiveTurns s' \<and>
    (consecutiveTurns s' = consecutiveTurns s \<or> consecutiveTurns s' \<le> messageLimit s) \<and> messageLimit s' = messageLimit s \<and>
    length (filter is_notice effs) + (if noticeSent s then 1 else 0) \<le> (if noticeSent s' then 1 else 0)"
  using assms deliver_counts [of R A q ev shown hist]
  by (auto simp: handlePost_def Let_def tagged_counts is_notice_def is_turn_def split: if_splits)

text \<open>
  C7: Agents cannot talk each other into a loop. Over any posts without a mention by a human, at most
  as many posts of other agents become turns as the limit leaves room for, and at most one notice
  asking for human guidance is posted.
\<close>

theorem agent_turns_limited:
  assumes "\<forall>h \<in> set hs. \<not> human_mention A (ev_post (fst (snd h)))" and "handle_all R A sits hs s = (s', effs)"
  shows "agent_turns effs \<le> messageLimit s - consecutiveTurns s \<and> notices effs \<le> 1"
proof -
  have "agent_turns effs + consecutiveTurns s \<le> consecutiveTurns s' \<and>
      (consecutiveTurns s' = consecutiveTurns s \<or> consecutiveTurns s' \<le> messageLimit s) \<and>
      notices effs + (if noticeSent s then 1 else 0) \<le> (if noticeSent s' then 1 else 0)"
    using assms
  proof (induction hs arbitrary: s effs)
    case Nil
    then show ?case by (simp add: agent_turns_def notices_def)
  next
    case (Cons h hs)
    obtain q ev shown hist where h: "h = (q, ev, shown, hist)" by (cases h) auto
    obtain s1 e1 where e1: "handlePost R A sits q ev shown hist s = (s1, e1)" by fastforce
    obtain e2 where e2: "handle_all R A sits hs s1 = (s', e2)"
      and effs: "effs = map (Pair (set_string (agent_id (ev_post ev)))) e1 @ e2"
      using Cons.prems(2) h e1 by (auto split: prod.splits)
    have nm: "\<not> human_mention A (ev_post ev)" using Cons.prems(1) h by simp
    from handle_counts [OF nm e1] Cons.IH [OF _ e2] Cons.prems(1) effs show ?case
      by (auto simp: tagged_counts split: if_splits)
  qed
  then show ?thesis by (auto split: if_splits)
qed

text \<open>
  The read pointer of a channel only moves forward. Whatever order posts, polls, catch-ups and the
  server's answers come in, the read requests sent for a channel are strictly increasing.
\<close>

theorem read_pointer_advances:
  "sorted_wrt (<) (log_of ch (ackLog (run (poller_do R A) (poller_init A b) es)))"
proof -
  have "poller_ok (run (poller_do R A) (poller_init A b) es)" by (rule inbound.good_run)
  then show ?thesis by (simp add: poller_ok_def acks_ok_def ack_ok_def)
qed

lemma admitted_ackRead [simp]: "admitted (ackRead ch n s) = admitted s" "baselines (ackRead ch n s) = baselines s"
  by (simp_all add: ackRead_def ack_loop_def Let_def)

lemma admitted_observe [simp]:
  "admitted (observe_admitted ev durable s) =
     (if durable then remember (admitted s) (admit_key (ev_attention ev) (ev_post ev)) else admitted s)"
  by (simp add: observe_admitted_def Let_def)

text \<open>
  A post is admitted once. After the queue took a post, the poller does not offer it again from
  any source, as long as fewer than a thousand further posts have been taken since.
\<close>

theorem post_admitted_once:
  assumes "poller_ok s" and "length later < KNOWN_LIMIT"
    and "admit_key (ev_attention ev) (ev_post ev) \<notin> set (admitted s)"
  shows "observe A waits (ev_channel ev) (ev_post ev) src (ev_attention ev)
     (foldl (\<lambda>s (e, durable). observe_admitted e durable s) (observe_admitted ev True s) later) = None"
proof -
  let ?k = "admit_key (ev_attention ev) (ev_post ev)"
  have b: "distinct (admitted s)" "length (admitted s) \<le> KNOWN_LIMIT" using assms(1) by (simp_all add: poller_ok_def)
  let ?m = "remember (admitted s) ?k"
  let ?keys = "map (\<lambda>(e, d). admit_key (ev_attention e) (ev_post e)) (filter snd later)"
  have adm: "admitted (foldl (\<lambda>s (e, durable). observe_admitted e durable s) t later) = foldl remember (admitted t) ?keys" for t
    by (induction later arbitrary: t) auto
  have "length (filter snd later) < KNOWN_LIMIT" using length_filter_le [of snd later] assms(2) by linarith
  then have "?k \<in> set (foldl remember ?m ?keys)"
    using b assms(2,3) known_posts.remember_fresh [OF b assms(3)]
    by (intro known_posts.retained) (auto intro: known_posts.remember_distinct known_posts.remember_bound known_posts.remember_new)
  then show ?thesis by (simp add: observe_def adm Let_def)
qed

text \<open>
  A server's channel: its posts in the order of their serials, of which a page request returns the
  fifty after a serial.
\<close>

definition serves :: "runtime \<Rightarrow> (nat \<Rightarrow> jsval option) \<Rightarrow> post list \<Rightarrow> bool" where
  "serves R fetch chan \<longleftrightarrow> sorted_wrt (<) (map postSerialOf chan) \<and>
     (\<forall>after. \<exists>raw. fetch after = Some raw \<and> parsePostsResponse R raw = take 50 (filter (\<lambda>p. after < postSerialOf p) chan))"

lemma sorted_last:
  fixes f :: "'a \<Rightarrow> nat"
  assumes "sorted_wrt (<) (map f ps)" and "p \<in> set ps"
  shows "f p \<le> f (last ps)"
  using assms
proof (induction ps)
  case (Cons q qs)
  show ?case
  proof (cases "qs = []")
    case False
    then have "f q < f (last qs)" using Cons.prems(1) by simp
    with Cons False show ?thesis by (auto simp: less_imp_le)
  qed (use Cons.prems in simp)
qed simp

lemma max_serial_bound: "\<forall>p \<in> set ps. postSerialOf p \<le> k \<Longrightarrow> n \<le> k \<Longrightarrow> max_serial n ps \<le> k"
  unfolding max_serial_def by (induction ps arbitrary: n) auto

lemma max_serial_ge: "n \<le> max_serial n ps \<and> (\<forall>p \<in> set ps. postSerialOf p \<le> max_serial n ps)"
proof (induction ps arbitrary: n)
  case (Cons p ps)
  from Cons [of "max n (postSerialOf p)"] show ?case by (auto simp: max_serial_def)
qed (simp add: max_serial_def)

lemma max_serial_last:
  assumes "sorted_wrt (<) (map postSerialOf ps)" and "ps \<noteq> []" and "n \<le> postSerialOf (last ps)"
  shows "max_serial n ps = postSerialOf (last ps)"
proof (rule antisym)
  show "max_serial n ps \<le> postSerialOf (last ps)" using sorted_last [OF assms(1)] assms(3) by (intro max_serial_bound) simp_all
  show "postSerialOf (last ps) \<le> max_serial n ps" using assms(2) max_serial_ge last_in_set by blast
qed

lemma page_step:
  assumes "sorted_wrt (<) (map postSerialOf chan)" and "F = filter (\<lambda>p. after < postSerialOf p) chan" and "50 \<le> length F"
  shows "filter (\<lambda>p. max_serial after (take 50 F) < postSerialOf p) chan = drop 50 F"
proof -
  have sF: "sorted_wrt (<) (map postSerialOf F)" unfolding assms(2) using assms(1)
    by (metis sorted_wrt_map sorted_wrt_filter)
  let ?T = "take 50 F" and ?D = "drop 50 F"
  have ne: "?T \<noteq> []" using assms(3) by auto
  have "\<forall>p \<in> set F. after < postSerialOf p" unfolding assms(2) by simp
  then have al: "after \<le> postSerialOf (last ?T)" using ne by (metis in_set_takeD last_in_set less_imp_le)
  have sT: "sorted_wrt (<) (map postSerialOf ?T)" using sF by (simp add: sorted_wrt_take take_map [symmetric])
  have m: "max_serial after ?T = postSerialOf (last ?T)" using sT ne al by (rule max_serial_last)
  have "sorted_wrt (<) (map postSerialOf ?T @ map postSerialOf ?D)"
    using sF by (simp only: map_append [symmetric] append_take_drop_id)
  then have cut: "\<forall>p \<in> set ?T. \<forall>q \<in> set ?D. postSerialOf p < postSerialOf q"
    unfolding sorted_wrt_append by simp
  have le: "postSerialOf p \<le> postSerialOf (last ?T)" if "p \<in> set ?T" for p
    using sT that by (rule sorted_last)
  from al have "filter (\<lambda>p. postSerialOf (last ?T) < postSerialOf p) chan = filter (\<lambda>p. postSerialOf (last ?T) < postSerialOf p) F"
    unfolding assms(2) filter_filter by (intro filter_cong) auto
  also have "\<dots> = filter (\<lambda>p. postSerialOf (last ?T) < postSerialOf p) (?T @ ?D)"
    unfolding append_take_drop_id by (rule refl)
  also have "\<dots> = filter (\<lambda>p. postSerialOf (last ?T) < postSerialOf p) ?T @ filter (\<lambda>p. postSerialOf (last ?T) < postSerialOf p) ?D"
    by (rule filter_append)
  also have "filter (\<lambda>p. postSerialOf (last ?T) < postSerialOf p) ?T = []"
    unfolding filter_empty_conv using le by (simp add: not_less)
  also have "filter (\<lambda>p. postSerialOf (last ?T) < postSerialOf p) ?D = ?D"
    using cut last_in_set [OF ne] by (intro filter_True) blast
  finally show ?thesis unfolding m by simp
qed

lemma drain_pages_complete:
  assumes "serves R fetch chan"
  shows "drain_pages R fetch n after acc =
    Some (acc @ take (50 * n) (filter (\<lambda>p. after < postSerialOf p) chan), 50 * n \<le> length (filter (\<lambda>p. after < postSerialOf p) chan))"
proof (induction n arbitrary: after acc)
  case (Suc n)
  let ?F = "filter (\<lambda>p. after < postSerialOf p) chan"
  obtain raw where raw: "fetch after = Some raw" "parsePostsResponse R raw = take 50 ?F"
    using assms unfolding serves_def by blast
  show ?case
  proof (cases "length ?F < 50")
    case True
    with raw show ?thesis by (simp add: Let_def)
  next
    case False
    have step: "filter (\<lambda>p. max_serial after (take 50 ?F) < postSerialOf p) chan = drop 50 ?F"
      using assms False by (intro page_step [OF _ refl]) (simp_all add: serves_def)
    have "take (50 + 50 * n) ?F = take 50 ?F @ take (50 * n) (drop 50 ?F)" by (simp add: take_add)
    with raw False Suc.IH step show ?thesis by (auto simp: Let_def)
  qed
qed simp

text \<open>
  Draining a gap misses nothing. Against a server whose pages hold the fifty posts after a serial,
  the drain returns the first two hundred posts after the read pointer, in order and without
  repetition, and says that more are left unless there were fewer than two hundred.
\<close>

theorem drain_gap_complete:
  assumes "serves R fetch chan"
  shows "drainGap R fetch after =
    Some (take 200 (filter (\<lambda>p. after < postSerialOf p) chan), 200 \<le> length (filter (\<lambda>p. after < postSerialOf p) chan))"
  using drain_pages_complete [OF assms, of 4 after "[]"] by (simp add: drainGap_def)

lemma baseline_of_set [simp]: "mget (baselines (set_baseline ch n s)) ch = Some n"
  by (simp add: set_baseline_def)

text \<open>
  A catch-up replays one post, once. What it hands to the queue is a live post of a user, not an
  agent's and no game start, that addresses the agent, the last such post it fetched; and whatever it
  fetched lies at or below the channel's new baseline, so that no poll or event dispatches it again.
\<close>

theorem catch_up_replays_once:
  assumes "catchUpChannel R A fetch recent durable c s = (s', Some ev, r)"
  shows "isUserAuthoredPost (ev_post ev) \<and> \<not> is_deleted (ev_post ev) \<and> \<not> set_string (agent_id (ev_post ev)) \<and>
    \<not> set_string (widget_id (ev_post ev)) \<and> catch_up_addressed A c (ev_post ev) \<and>
    observe A waits (ch_id c) (ev_post ev) src False s' = None \<and>
    (\<exists>posts. ev_post ev \<in> set posts \<and> ev_post ev = last (filter (catch_up_addressed A c) (catch_up_pending A posts)) \<and>
      list_all (\<lambda>p. observe A waits (ch_id c) p src False s' = None) posts)"
proof -
  let ?ch = "ch_id c"
  obtain lst where lst: "lastReadPostId c = Some lst"
    using assms by (auto simp: catchUpChannel_def Let_def split: option.splits)
  let ?latest = "case latestPostId c of Some n \<Rightarrow> n | None \<Rightarrow> 0"
  obtain posts where hits: "filter (catch_up_addressed A c) (catch_up_pending A posts) \<noteq> []"
      "ev_post ev = last (filter (catch_up_addressed A c) (catch_up_pending A posts))"
    and base: "mget (baselines s') ?ch = Some (max (max_serial lst posts) ?latest)"
    using assms lst by (auto simp: catchUpChannel_def Let_def split: option.splits if_splits prod.splits)
  have mem: "ev_post ev \<in> set (filter (catch_up_addressed A c) (catch_up_pending A posts))"
    using hits by (metis last_in_set)
  have "observe A waits ?ch p src False s' = None" if "p \<in> set posts" for p
  proof -
    have "postSerialOf p \<le> max (max_serial lst posts) ?latest" using max_serial_ge [of lst posts] that by (auto simp: le_max_iff_disj)
    then show ?thesis using base by (simp add: observe_def Let_def)
  qed
  with mem hits show ?thesis by (auto simp: catch_up_pending_def list_all_iff)
qed

subsection \<open>Concrete runs\<close>

definition demo_runtime :: runtime where
  "demo_runtime = \<lparr>fmt_num = (\<lambda>_. []), date_parse = (\<lambda>_. None)\<rparr>"

definition demo_account :: account where
  "demo_account = \<lparr>acct_id = ''main'', acct_agent = ''bot'', fallback_channel = None, allow_from = [], acct_interAgent = True,
     acct_limit = jint 2, backlog = 5, widgets_on = True\<rparr>"

definition raw_post :: "string \<Rightarrow> (string \<times> jsval) list \<Rightarrow> jsval" where
  "raw_post i extra = JObj ([(''id'', JStr i), (''create_at'', jint 9), (''message'', JStr ''hi @bot'')] @ extra)"

definition post_from :: "jsval \<Rightarrow> post" where
  "post_from raw = the (normalizePost demo_runtime raw)"

definition event_of :: "post \<Rightarrow> post_event" where
  "event_of p = \<lparr>ev_channel = ''c1'', ev_post = p, ev_source = Ws, ev_attention = False, ev_catchUp = None,
     ev_question = False, ev_requeued = False\<rparr>"

definition human_post :: post where "human_post = post_from (raw_post ''7'' [(''human_id'', jint 4)])"

definition agent_post :: "string \<Rightarrow> post" where "agent_post i = post_from (raw_post i [(''agent_id'', JStr ''peer'')])"

definition demo_poller :: poller where "demo_poller = poller_init demo_account False"

definition nobody :: "string \<Rightarrow> bool" where "nobody w = False"

theorem turns_are_admitted_witness: "allowedSender demo_account (senderIdForPost demo_runtime human_post)"
proof -
  have "list_ex is_turn (snd (handlePost demo_runtime demo_account nobody False (event_of human_post) 0 None demo_poller))"
    by code_simp
  then have "\<exists>e \<in> set (snd (handlePost demo_runtime demo_account nobody False (event_of human_post) 0 None demo_poller)). is_turn e"
    by (simp add: list_ex_iff)
  from turns_are_admitted [OF this] show ?thesis by (simp add: event_of_def)
qed

definition demo_chatter :: "handled list" where
  "demo_chatter = map (\<lambda>i. (False, event_of (agent_post i), 0, None)) [''11'', ''12'', ''13'', ''14'']"

theorem agent_turns_limited_witness:
  "agent_turns (snd (handle_all demo_runtime demo_account nobody demo_chatter demo_poller)) = 2 \<and>
   notices (snd (handle_all demo_runtime demo_account nobody demo_chatter demo_poller)) \<le> 1"
proof -
  have "list_all (\<lambda>h. \<not> human_mention demo_account (ev_post (fst (snd h)))) demo_chatter" by code_simp
  then have h: "\<forall>h \<in> set demo_chatter. \<not> human_mention demo_account (ev_post (fst (snd h)))" by (simp add: list_all_iff)
  have "agent_turns (snd (handle_all demo_runtime demo_account nobody demo_chatter demo_poller)) = 2" by code_simp
  moreover have "handle_all demo_runtime demo_account nobody demo_chatter demo_poller =
      (fst (handle_all demo_runtime demo_account nobody demo_chatter demo_poller),
       snd (handle_all demo_runtime demo_account nobody demo_chatter demo_poller))" by simp
  ultimately show ?thesis using agent_turns_limited [OF h] by blast
qed

theorem post_admitted_once_witness:
  "observe demo_account nobody ''c1'' human_post Ws False
     (observe_admitted (event_of (agent_post ''8'')) True (observe_admitted (event_of human_post) True demo_poller)) = None"
proof -
  have ok: "poller_ok demo_poller" unfolding demo_poller_def by (rule inbound.good_init)
  have n: "length [(event_of (agent_post ''8''), True)] < KNOWN_LIMIT" by (simp add: KNOWN_LIMIT_def)
  have f: "admit_key (ev_attention (event_of human_post)) (ev_post (event_of human_post)) \<notin> set (admitted demo_poller)"
    by (simp add: demo_poller_def poller_init_def)
  from post_admitted_once [OF ok n f, of demo_account nobody Ws] show ?thesis by (simp add: event_of_def)
qed

definition demo_fetch :: "nat \<Rightarrow> jsval option" where
  "demo_fetch after = Some (JObj [(''posts'', JArr (if after < 7 then [raw_post ''7'' [(''human_id'', jint 4)]] else []))])"

theorem drain_gap_complete_witness: "drainGap demo_runtime demo_fetch 3 = Some ([human_post], False)"
proof -
  have p: "parsePostsResponse demo_runtime (JObj [(''posts'', JArr [raw_post ''7'' [(''human_id'', jint 4)]])]) = [human_post]"
    "parsePostsResponse demo_runtime (JObj [(''posts'', JArr [])]) = []" "postSerialOf human_post = 7"
    by code_simp+
  have "serves demo_runtime demo_fetch [human_post]"
    unfolding serves_def demo_fetch_def using p by auto
  from drain_gap_complete [OF this, of 3] show ?thesis by (simp add: p)
qed

definition demo_channel :: discovered where
  "demo_channel = \<lparr>ch_id = ''c1'', ch_type = Some ''public'', latestPostId = Some 7, lastReadPostId = Some 3\<rparr>"

theorem catch_up_replays_once_witness:
  "observe demo_account nobody ''c1'' human_post Ws False
     (fst (catchUpChannel demo_runtime demo_account demo_fetch None True demo_channel demo_poller)) = None"
proof -
  let ?r = "catchUpChannel demo_runtime demo_account demo_fetch None True demo_channel demo_poller"
  have e: "map_option ev_post (fst (snd ?r)) = Some human_post" by code_simp
  then obtain ev where ev: "fst (snd ?r) = Some ev" "ev_post ev = human_post" by auto
  then have "?r = (fst ?r, Some ev, snd (snd ?r))" by (metis prod.collapse)
  from catch_up_replays_once [OF this, of nobody Ws] ev(2) show ?thesis by (simp add: demo_channel_def)
qed

end
