(* ===== verification/Cron_Handle.thy ===== *)
theory Cron_Handle
  imports Js_Values
begin

text \<open>
  The mapping between an automation's stored spec and the gateway's cron jobs
  (\<open>plugin/src/automations/cron-handle.ts\<close>): the parameters of an add or update, the sentinel that
  ties a job to its automation, and the comparison that decides whether a job has drifted. Specs,
  schedules and payloads are untyped values, as they come from the server and the gateway. A
  \<open>None\<close> result of a comparison is a \<open>TypeError\<close> the source would throw.
\<close>

section \<open>Objects\<close>

fun put_prop :: "string \<Rightarrow> jsval \<Rightarrow> (string \<times> jsval) list \<Rightarrow> (string \<times> jsval) list" where
  "put_prop k v [] = [(k, v)]"
| "put_prop k v ((k', v') # ps) = (if k' = k then (k, v) # ps else (k', v') # put_prop k v ps)"

text \<open>\<open>{ ...a, ...b }\<close> of the entries of two objects.\<close>

definition merge_props :: "(string \<times> jsval) list \<Rightarrow> (string \<times> jsval) list \<Rightarrow> (string \<times> jsval) list" where
  "merge_props a b = foldl (\<lambda>ps (k, v). put_prop k v ps) a b"

text \<open>\<open>Object.entries\<close>, which throws on \<open>null\<close> and \<open>undefined\<close>.\<close>

fun entries_of :: "jsval \<Rightarrow> (string \<times> jsval) list option" where
  "entries_of JUndef = None"
| "entries_of JNull = None"
| "entries_of (JObj ps) = Some ps"
| "entries_of (JArr vs) = Some (zip (map show_nat [0..<length vs]) vs)"
| "entries_of (JStr s) = Some (zip (map show_nat [0..<length s]) (map (\<lambda>c. JStr [c]) s))"
| "entries_of _ = Some []"

definition spread :: "jsval \<Rightarrow> (string \<times> jsval) list" where
  "spread v = (case entries_of v of Some ps \<Rightarrow> ps | None \<Rightarrow> [])"

text \<open>A property of an object, an item of an array.\<close>

fun item_of :: "jsval \<Rightarrow> string \<Rightarrow> jsval" where
  "item_of (JArr vs) k = (case map_of (spread (JArr vs)) k of Some v \<Rightarrow> v | None \<Rightarrow> JUndef)"
| "item_of v k = jget v k"

lemma jget_put [simp]: "jget (JObj (put_prop k v ps)) k' = (if k' = k then v else jget (JObj ps) k')"
  by (induction ps) auto

lemma jget_is_object: "jget v k = JStr s \<Longrightarrow> is_object v"
  by (cases v) simp_all

lemma jget_merge: "distinct (map fst b) \<Longrightarrow>
  jget (JObj (merge_props a b)) k = (case map_of b k of Some v \<Rightarrow> v | None \<Rightarrow> jget (JObj a) k)"
proof (induction b arbitrary: a)
  case (Cons p b)
  obtain k' v' where p: "p = (k', v')" by (cases p)
  have "merge_props a (p # b) = merge_props (put_prop k' v' a) b" by (simp add: merge_props_def p)
  then have e: "jget (JObj (merge_props a (p # b))) k = (case map_of b k of Some v \<Rightarrow> v | None \<Rightarrow> jget (JObj (put_prop k' v' a)) k)"
    using Cons by (simp del: jget.simps)
  have n: "map_of b k' = None" using Cons.prems p by (simp add: map_of_eq_None_iff)
  show ?case
  proof (cases "k = k'")
    case True
    with n show ?thesis unfolding e by (simp add: p del: jget.simps)
  next
    case False
    then show ?thesis unfolding e by (simp add: p del: jget.simps split: option.split)
  qed
qed (simp add: merge_props_def)

section \<open>Results of a run\<close>

datatype run_kind = Started | Skipped | RunError

record run_outcome =
  ro_started :: bool
  ro_kind :: run_kind
  ro_reason :: "string option"

definition interpretRunResult :: "jsval \<Rightarrow> run_outcome" where
  "interpretRunResult result =
     (let r = coalesce result (JObj []) in
      if jget r ''ran'' = JBool True \<or> jget r ''enqueued'' = JBool True
      then \<lparr>ro_started = True, ro_kind = Started, ro_reason = None\<rparr>
      else if jget r ''ok'' = JBool False then \<lparr>ro_started = False, ro_kind = RunError, ro_reason = Some ''rejected''\<rparr>
      else if jget r ''ran'' = JBool False then
        (let reason = (case as_str (jget r ''reason'') of Some s \<Rightarrow> s | None \<Rightarrow> ''declined'') in
         \<lparr>ro_started = False,
          ro_kind = (if reason \<in> {''already-running'', ''restart-recovery-pending'', ''not-due''} then Skipped else RunError),
          ro_reason = Some reason\<rparr>)
      else \<lparr>ro_started = True, ro_kind = Started, ro_reason = None\<rparr>)"

section \<open>Jobs and parameters\<close>

record cron_params =
  q_name :: string
  q_description :: string
  q_schedule :: jsval
  q_sessionTarget :: string
  q_wakeMode :: string
  q_payload :: jsval
  q_delivery :: "jsval option"
  q_enabled :: bool
  q_failureAlert :: jsval
  q_deleteAfterRun :: bool

record cron_job =
  j_id :: string
  j_name :: jsval
  j_description :: jsval
  j_enabled :: jsval
  j_schedule :: jsval
  j_sessionTarget :: jsval
  j_wakeMode :: jsval
  j_payload :: jsval
  j_state :: jsval
  j_delivery :: jsval
  j_failureAlert :: jsval
  j_deleteAfterRun :: jsval

definition SENTINEL_PREFIX :: string where "SENTINEL_PREFIX = ''clawbits-id=''"

definition clawbitsSentinel :: "string \<Rightarrow> string" where
  "clawbitsSentinel i = SENTINEL_PREFIX @ i"

text \<open>\<open>/clawbits-id=([A-Za-z0-9]+)/\<close>: the first place where the prefix is followed by a letter or digit.\<close>

fun find_sentinel :: "string \<Rightarrow> string option" where
  "find_sentinel [] = None"
| "find_sentinel (c # s) =
     (let r = takeWhile is_alnum (drop (length SENTINEL_PREFIX) (c # s)) in
      if starts_with (c # s) SENTINEL_PREFIX \<and> r \<noteq> [] then Some r else find_sentinel s)"

text \<open>\<open>job.description ?? ""\<close> in a template: the fields are strings or absent.\<close>

definition text_field :: "jsval \<Rightarrow> string" where
  "text_field v = (case v of JStr s \<Rightarrow> s | _ \<Rightarrow> [])"

definition parseSentinel :: "cron_job \<Rightarrow> string option" where
  "parseSentinel j = find_sentinel (text_field (j_description j) @ '' '' @ text_field (j_name j))"

section \<open>One-shot times\<close>

text \<open>
  \<open>new Date(ms).toISOString()\<close>: the proleptic Gregorian date of a day count from 1970-01-01, computed
  over 400-year eras that start in March.
\<close>

definition civil_of_days :: "int \<Rightarrow> int \<times> int \<times> int" where
  "civil_of_days z0 =
     (let z = z0 + 719468; era = z div 146097; doe = z mod 146097;
          yoe = (doe - doe div 1460 + doe div 36524 - doe div 146096) div 365;
          doy = doe - (365 * yoe + yoe div 4 - yoe div 100);
          mp = (5 * doy + 2) div 153;
          d = doy - (153 * mp + 2) div 5 + 1;
          m = (if mp < 10 then mp + 3 else mp - 9);
          y = yoe + era * 400 + (if m \<le> 2 then 1 else 0)
      in (y, m, d))"

definition pad :: "nat \<Rightarrow> int \<Rightarrow> string" where
  "pad n i = (let s = show_nat (nat i) in replicate (n - length s) CHR ''0'' @ s)"

definition iso_year :: "int \<Rightarrow> string" where
  "iso_year y = (if 0 \<le> y \<and> y \<le> 9999 then pad 4 y else (if y < 0 then ''-'' else ''+'') @ pad 6 \<bar>y\<bar>)"

definition to_iso :: "int \<Rightarrow> string" where
  "to_iso ms =
     (let days = ms div 86400000; t = ms mod 86400000; (y, m, d) = civil_of_days days
      in iso_year y @ ''-'' @ pad 2 m @ ''-'' @ pad 2 d @ ''T'' @ pad 2 (t div 3600000) @ '':'' @ pad 2 (t div 60000 mod 60) @
         '':'' @ pad 2 (t div 1000 mod 60) @ ''.'' @ pad 3 (t mod 1000) @ ''Z'')"

definition trunc :: "rat \<Rightarrow> int" where
  "trunc q = (if q < 0 then \<lceil>q\<rceil> else \<lfloor>q\<rfloor>)"

definition normalizeCronAtValue :: "jsval \<Rightarrow> jsval" where
  "normalizeCronAtValue raw =
     (let ms = (case raw of
          JNum (Fin q) \<Rightarrow> Some (trunc q)
        | JStr s \<Rightarrow> if trim s \<noteq> [] \<and> list_all is_digit (trim s) then Some (int (nat_of_digits (trim s))) else None
        | _ \<Rightarrow> None)
      in case ms of
          None \<Rightarrow> raw
        | Some t \<Rightarrow> if \<bar>t\<bar> \<le> 8640000000000000 then JStr (to_iso t) else raw)"

definition normalizeCronSchedule :: "jsval \<Rightarrow> jsval" where
  "normalizeCronSchedule raw =
     (if \<not> is_object raw \<or> jget raw ''kind'' \<noteq> JStr ''at'' then raw
      else let n = normalizeCronAtValue (jget raw ''at'')
      in if strict_prim n (jget raw ''at'') then raw else JObj (put_prop ''at'' n (spread raw)))"

definition specToCronAdd :: "jsval \<Rightarrow> string \<Rightarrow> jsval option \<Rightarrow> cron_params" where
  "specToCronAdd spec i defaultDelivery =
     (let userDesc = (case as_str (jget spec ''description'') of
            Some d \<Rightarrow> if trim d \<noteq> [] then '' '' @ [CHR 0xB7] @ '' '' @ trim d else [] | None \<Rightarrow> []);
          specDelivery = (if is_object (jget spec ''delivery'') then Some (jget spec ''delivery'') else None);
          delivery = (case (specDelivery, defaultDelivery) of
              (Some s, Some d) \<Rightarrow> Some (JObj (merge_props (spread d) (spread s)))
            | (Some s, None) \<Rightarrow> Some s
            | (None, d) \<Rightarrow> d)
      in \<lparr>q_name = (case as_str (jget spec ''name'') of Some n \<Rightarrow> if trim n \<noteq> [] then n else ''Automation'' | None \<Rightarrow> ''Automation''),
          q_description = clawbitsSentinel i @ userDesc,
          q_schedule = normalizeCronSchedule (jget spec ''schedule''),
          q_sessionTarget = (case as_str (jget spec ''sessionTarget'') of Some t \<Rightarrow> t | None \<Rightarrow> ''isolated''),
          q_wakeMode = (case as_str (jget spec ''wakeMode'') of Some w \<Rightarrow> w | None \<Rightarrow> ''next-heartbeat''),
          q_payload = jget spec ''payload'',
          q_delivery = delivery,
          q_enabled = (case as_bool (jget spec ''enabled'') of Some b \<Rightarrow> b | None \<Rightarrow> True),
          q_failureAlert = (if jget spec ''failureAlert'' \<noteq> JUndef then jget spec ''failureAlert'' else JBool False),
          q_deleteAfterRun = (jget spec ''deleteAfterRun'' = JBool True)\<rparr>)"

section \<open>Drift\<close>

definition normStr :: "jsval \<Rightarrow> string option" where
  "normStr v = (case as_str v of None \<Rightarrow> None | Some s \<Rightarrow> if trim s = [] then None else Some (trim s))"

lemma size_prop_value: "(k, v) \<in> set ps \<Longrightarrow> size v \<le> size_list (size_prod (\<lambda>x. 0) size) (ps :: (string \<times> jsval) list)"
  by (rule size_list_estimation' [where f = "size_prod (\<lambda>x. 0) size" and y = "size v"]) auto

function deepEqual :: "jsval \<Rightarrow> jsval \<Rightarrow> bool" where
  "deepEqual a b =
     (strict_prim a b \<or>
      (case a of
         JArr xs \<Rightarrow> (case b of JArr ys \<Rightarrow> length xs = length ys \<and> list_all (\<lambda>(x, y). deepEqual x y) (zip xs ys) | _ \<Rightarrow> False)
       | JObj ps \<Rightarrow> (case b of JObj qs \<Rightarrow> length ps = length qs \<and> list_all (\<lambda>(k, v). deepEqual v (jget b k)) ps | _ \<Rightarrow> False)
       | _ \<Rightarrow> False))"
  by auto
termination
  by (relation "measure (size \<circ> fst)")
    (auto dest!: set_zip_leftD simp: less_Suc_eq_le intro: size_list_estimation' size_prop_value)

declare deepEqual.simps [simp del]

definition subsetMatches :: "jsval \<Rightarrow> jsval \<Rightarrow> bool option" where
  "subsetMatches desired actual =
     (if \<not> is_object actual then Some False
      else case entries_of desired of
        None \<Rightarrow> None
      | Some ps \<Rightarrow> Some (list_all (\<lambda>(k, v). v = JUndef \<or> deepEqual (item_of actual k) v) ps))"

definition scheduleMatches :: "jsval \<Rightarrow> jsval \<Rightarrow> bool option" where
  "scheduleMatches desired actual =
     (if \<not> is_object actual then Some False
      else if desired = JUndef \<or> desired = JNull then None
      else if \<not> strict_prim (jget actual ''kind'') (jget desired ''kind'') then Some False
      else let k = jget desired ''kind'' in
        if k = JStr ''every'' then
          Some (strict_prim (jget actual ''everyMs'') (jget desired ''everyMs'') \<and>
            (jget desired ''anchorMs'' = JUndef \<or> strict_prim (jget actual ''anchorMs'') (jget desired ''anchorMs'')))
        else if k = JStr ''cron'' then
          Some (normStr (jget actual ''expr'') = normStr (jget desired ''expr'') \<and>
            normStr (jget actual ''tz'') = normStr (jget desired ''tz'') \<and>
            (jget desired ''staggerMs'' = JUndef \<or> strict_prim (jget actual ''staggerMs'') (jget desired ''staggerMs'')))
        else if k = JStr ''at'' then
          Some (deepEqual (normalizeCronAtValue (jget actual ''at'')) (normalizeCronAtValue (jget desired ''at'')))
        else Some False)"

definition failureAlertOff :: "jsval \<Rightarrow> bool" where
  "failureAlertOff v = (v = JUndef \<or> v = JBool False)"

definition and_then :: "bool option \<Rightarrow> bool option \<Rightarrow> bool option" where
  "and_then a b = (case a of Some True \<Rightarrow> b | _ \<Rightarrow> a)"

definition cronJobMatchesParams :: "cron_job \<Rightarrow> cron_params \<Rightarrow> bool option" where
  "cronJobMatchesParams j q =
     and_then (Some (normStr (j_name j) = normStr (JStr (q_name q)) \<and> normStr (j_description j) = normStr (JStr (q_description q))))
    (and_then (scheduleMatches (q_schedule q) (j_schedule j))
    (and_then (Some (j_sessionTarget j = JStr (q_sessionTarget q) \<and> j_wakeMode j = JStr (q_wakeMode q) \<and>
        strict_prim (coalesce (j_enabled j) (JBool True)) (JBool (q_enabled q))))
    (and_then (subsetMatches (q_payload q) (j_payload j))
    (and_then (case q_delivery q of Some d \<Rightarrow> subsetMatches d (j_delivery j) | None \<Rightarrow> Some True)
    (and_then
       (if failureAlertOff (q_failureAlert q) then Some (failureAlertOff (j_failureAlert j))
        else if is_object (q_failureAlert q) then subsetMatches (q_failureAlert q) (j_failureAlert j)
        else Some (deepEqual (j_failureAlert j) (q_failureAlert q)))
       (Some (q_deleteAfterRun q = (j_deleteAfterRun j = JBool True))))))))"

definition preserveEveryAnchor :: "cron_params \<Rightarrow> cron_job \<Rightarrow> cron_params option" where
  "preserveEveryAnchor q j =
     (let s = q_schedule q; c = j_schedule j in
      if s = JUndef \<or> s = JNull then None
      else if jget s ''kind'' \<noteq> JStr ''every'' \<or> jget s ''anchorMs'' \<noteq> JUndef then Some q
      else if \<not> is_object c then Some q
      else if jget c ''kind'' \<noteq> JStr ''every'' \<or> \<not> strict_prim (jget c ''everyMs'') (jget s ''everyMs'') then Some q
      else if as_finite (jget c ''anchorMs'') = None then Some q
      else Some (q\<lparr>q_schedule := JObj (put_prop ''anchorMs'' (jget c ''anchorMs'') (spread s))\<rparr>))"

definition extractJobId :: "jsval \<Rightarrow> string option" where
  "extractJobId result =
     (if \<not> is_object result then None
      else case as_str (jget result ''id'') of Some i \<Rightarrow> Some i
      | None \<Rightarrow> (case as_str (jget result ''jobId'') of Some i \<Rightarrow> Some i
        | None \<Rightarrow> (case as_str (jget result ''job_id'') of Some i \<Rightarrow> Some i
          | None \<Rightarrow> if is_object (jget result ''job'') then as_str (jget (jget result ''job'') ''id'') else None)))"

section \<open>Comparisons\<close>

text \<open>JSON values: no \<open>undefined\<close>, no special number, no key twice in an object.\<close>

fun json_value :: "jsval \<Rightarrow> bool" where
  "json_value JUndef = False"
| "json_value (JNum n) = is_finite n"
| "json_value (JArr vs) = list_all json_value vs"
| "json_value (JObj ps) = (distinct (map fst ps) \<and> list_all (\<lambda>(k, v). json_value v) ps)"
| "json_value _ = True"

lemma jget_entry: "distinct (map fst ps) \<Longrightarrow> (k, v) \<in> set ps \<Longrightarrow> jget (JObj ps) k = v"
  by simp

lemma json_jget: "json_value v \<Longrightarrow> jget v k \<noteq> JUndef \<Longrightarrow> json_value (jget v k)"
  by (cases v) (auto simp: list_all_iff dest!: map_of_SomeD split: option.splits)

lemma deepEqual_refl: "json_value v \<Longrightarrow> deepEqual v v"
proof (induction v)
  case (JNum n)
  then show ?case by (subst deepEqual.simps) (cases n, simp_all add: num_eq_def)
next
  case (JArr vs)
  have "list_all (\<lambda>(x, y). deepEqual x y) (zip vs vs)"
    using JArr by (auto simp: list_all_iff zip_same)
  then show ?case by (subst deepEqual.simps) simp
next
  case (JObj ps)
  have "deepEqual v (jget (JObj ps) k)" if "(k, v) \<in> set ps" for k v
    using JObj.IH [OF that] JObj.prems that by (auto simp: list_all_iff jget_entry simp del: jget.simps)
  then have "list_all (\<lambda>(k, v). deepEqual v (jget (JObj ps) k)) ps" by (auto simp: list_all_iff)
  then show ?case by (subst deepEqual.simps) simp
qed (simp_all add: deepEqual.simps)

text \<open>The value holds every entry of an object, and maybe more.\<close>

definition carries :: "jsval \<Rightarrow> jsval \<Rightarrow> bool" where
  "carries actual desired = (is_object actual \<and>
     (\<exists>ps. entries_of desired = Some ps \<and> list_all (\<lambda>(k, v). item_of actual k = v) ps))"

lemma subsetMatches_carries:
  assumes "carries a d" and "json_value d"
  shows "subsetMatches d a = Some True"
proof -
  from assms(1) obtain ps where e: "entries_of d = Some ps"
    and c: "list_all (\<lambda>(k, v). item_of a k = v) ps" and o: "is_object a" by (auto simp: carries_def)
  have "json_value v" if "(k, v) \<in> set ps" for k v
    using that e assms(2) by (cases d) (auto simp: list_all_iff dest!: set_zip_rightD)
  with c have "list_all (\<lambda>(k, v). v = JUndef \<or> deepEqual (item_of a k) v) ps"
    by (auto simp: list_all_iff deepEqual_refl)
  then show ?thesis by (simp add: subsetMatches_def e o)
qed

lemma find_sentinel_here:
  assumes "i \<noteq> []" and "list_all is_alnum i" and "r = [] \<or> \<not> is_alnum (hd r)"
  shows "find_sentinel (clawbitsSentinel i @ r) = Some i"
proof -
  have t: "takeWhile is_alnum (i @ r) = i"
    using assms(2,3) by (cases r) (simp_all add: takeWhile_append list_all_iff)
  have d: "drop (length SENTINEL_PREFIX) (clawbitsSentinel i @ r) = i @ r"
    by (simp add: clawbitsSentinel_def)
  have s: "starts_with (clawbitsSentinel i @ r) SENTINEL_PREFIX"
    by (simp add: clawbitsSentinel_def)
  obtain c u where cu: "clawbitsSentinel i @ r = c # u"
    by (simp add: clawbitsSentinel_def SENTINEL_PREFIX_def)
  show ?thesis using t d s assms(1) unfolding cu by (simp add: Let_def)
qed

lemma parse_own_sentinel:
  assumes "i \<noteq> []" and "list_all is_alnum i"
    and "j_description j = JStr (q_description (specToCronAdd spec i d))"
  shows "parseSentinel j = Some i"
proof -
  have "\<exists>r. q_description (specToCronAdd spec i d) = clawbitsSentinel i @ r \<and> (r = [] \<or> hd r = CHR '' '')"
    by (auto simp: specToCronAdd_def Let_def split: option.split)
  then obtain r where r: "q_description (specToCronAdd spec i d) = clawbitsSentinel i @ r"
    and h: "r = [] \<or> hd r = CHR '' ''" by blast
  have "hd (r @ '' '' @ text_field (j_name j)) = CHR '' ''" using h by (cases r) simp_all
  then have "\<not> is_alnum (hd (r @ '' '' @ text_field (j_name j)))"
    by (simp add: is_alnum_def is_digit_def is_upper_def is_lower_def)
  with assms r find_sentinel_here [of i "r @ '' '' @ text_field (j_name j)"]
  show ?thesis by (simp add: parseSentinel_def text_field_def)
qed

text \<open>
  A job that carries the description an automation was given is recognised as that automation's:
  whatever the operator wrote in the description or the name, the first sentinel in it is the one
  of the automation, for every identifier made of letters and digits.
\<close>

theorem sentinel_roundtrip:
  assumes "i \<noteq> []" and "list_all is_alnum i"
    and "j_description j = JStr (q_description (specToCronAdd spec i d))"
  shows "parseSentinel j = Some i"
  using assms by (rule parse_own_sentinel)

section \<open>One-shot times in every form\<close>

lemma trim_keeps: "c \<in> set s \<Longrightarrow> \<not> is_ws c \<Longrightarrow> c \<in> set (trim s)"
proof -
  have k: "c \<in> set xs \<Longrightarrow> \<not> is_ws c \<Longrightarrow> c \<in> set (dropWhile is_ws xs)" for xs
    by (induction xs) auto
  show "c \<in> set s \<Longrightarrow> \<not> is_ws c \<Longrightarrow> c \<in> set (trim s)"
    using k [of "rev (trim_start s)"] k [of s] by (simp add: trim_def trim_end_def trim_start_def)
qed

lemma to_iso_no_digits: "\<not> list_all is_digit (trim (to_iso ms))"
proof -
  have "CHR ''Z'' \<in> set (to_iso ms)"
    by (cases "civil_of_days (ms div 86400000)") (simp add: to_iso_def Let_def)
  then have "CHR ''Z'' \<in> set (trim (to_iso ms))" by (rule trim_keeps) (simp add: is_ws_def)
  moreover have "\<not> is_digit CHR ''Z''" by (simp add: is_digit_def)
  ultimately show ?thesis by (auto simp: list_all_iff)
qed

lemma normalize_iso: "normalizeCronAtValue (JStr (to_iso ms)) = JStr (to_iso ms)"
  using to_iso_no_digits [of ms] by (simp add: normalizeCronAtValue_def)

text \<open>The ways a one-shot time is written: a number, a string of digits, an ISO timestamp.\<close>

definition at_forms :: "nat \<Rightarrow> jsval list" where
  "at_forms n = [jint (int n), JStr (show_nat n), JStr (to_iso (int n))]"

lemma trim_digits: "list_all is_digit s \<Longrightarrow> trim s = s"
proof -
  assume d: "list_all is_digit s"
  have dw: "dropWhile is_ws xs = xs" if "list_all is_digit xs" for xs
    using that by (cases xs) (auto simp: is_digit_def is_ws_def)
  have "list_all is_digit (rev s)" using d by (simp add: list_all_iff)
  with d dw [of s] dw [of "rev s"] show ?thesis by (simp add: trim_def trim_start_def trim_end_def)
qed

lemma normalize_form:
  assumes "v \<in> set (at_forms n)" and "n \<le> 8640000000000000"
  shows "normalizeCronAtValue v = JStr (to_iso (int n))"
proof -
  have d: "list_all is_digit (show_nat n)" using show_nat_digits by (auto simp: list_all_iff)
  have "of_nat n = (of_int (int n) :: rat)" by simp
  then have "trunc (of_nat n :: rat) = int n" by (simp add: trunc_def)
  with assms d trim_digits [OF d] normalize_iso show ?thesis
    by (auto simp: at_forms_def normalizeCronAtValue_def)
qed

lemma normalize_schedule_at: "jget (normalizeCronSchedule s) ''at'' =
    (if is_object s \<and> jget s ''kind'' = JStr ''at'' then normalizeCronAtValue (jget s ''at'') else jget s ''at'')"
proof -
  have e: "strict_prim a b \<Longrightarrow> a = b" for a b by (cases "(a, b)" rule: strict_prim.cases) (auto simp: num_eq_def)
  show ?thesis
    by (auto simp: normalizeCronSchedule_def Let_def simp del: jget.simps dest: e)
qed

lemma normalize_schedule_kind: "jget (normalizeCronSchedule s) ''kind'' = jget s ''kind''"
proof (cases s)
  case (JObj ps)
  then show ?thesis by (simp add: normalizeCronSchedule_def Let_def spread_def del: jget.simps)
qed (simp_all add: normalizeCronSchedule_def Let_def)

text \<open>
  A one-shot automation never drifts by the way its time is written: whether the stored spec and
  the job hold the instant as a number, as digits or as an ISO timestamp, the schedules match.
\<close>

theorem at_form_never_drifts:
  assumes "n \<le> 8640000000000000" and "v \<in> set (at_forms n)" and "w \<in> set (at_forms n)"
  shows "scheduleMatches (normalizeCronSchedule (JObj [(''kind'', JStr ''at''), (''at'', v)]))
           (JObj [(''kind'', JStr ''at''), (''at'', w)]) = Some True"
proof -
  let ?s = "normalizeCronSchedule (JObj [(''kind'', JStr ''at''), (''at'', v)])"
  have k: "jget ?s ''kind'' = JStr ''at''" by (simp add: normalize_schedule_kind)
  then have o: "?s \<noteq> JUndef" "?s \<noteq> JNull" by auto
  have "jget ?s ''at'' = JStr (to_iso (int n))"
    using normalize_form [OF assms(2,1)] by (simp add: normalize_schedule_at)
  with k o normalize_form [OF assms(3,1)] normalize_iso show ?thesis
    by (simp add: scheduleMatches_def deepEqual.simps)
qed

lemma at_form_never_drifts_witness: "scheduleMatches
    (normalizeCronSchedule (JObj [(''kind'', JStr ''at''), (''at'', jint (int 1789000000000))]))
    (JObj [(''kind'', JStr ''at''), (''at'', JStr (show_nat 1789000000000))]) = Some True"
  by (rule at_form_never_drifts [of 1789000000000]) (simp_all add: at_forms_def)

lemma sentinel_roundtrip_witness: "parseSentinel
    \<lparr>j_id = ''job-1'', j_name = JStr ''clawbits-id=other'', j_description = JStr (q_description (specToCronAdd (JObj [(''description'', JStr ''a clawbits-id=x'')]) ''a1b2'' None)),
     j_enabled = JUndef, j_schedule = JUndef, j_sessionTarget = JUndef, j_wakeMode = JUndef, j_payload = JUndef, j_state = JUndef,
     j_delivery = JUndef, j_failureAlert = JUndef, j_deleteAfterRun = JUndef\<rparr> = Some ''a1b2''"
  by (rule sentinel_roundtrip) (simp_all add: is_alnum_def is_digit_def is_upper_def is_lower_def)

section \<open>A job the gateway has taken the parameters into\<close>

text \<open>
  What the gateway documents of a job after an add or update with the parameters: the schedule is
  stored as given, with the anchor or the stagger of its kind filled in if it is not authored, and
  payload, delivery and failure alert are merged into what the job had.
\<close>

definition schedule_authored :: "jsval \<Rightarrow> bool" where
  "schedule_authored s = (is_object s \<and> json_value s \<and> \<not> is_array s \<and>
     (jget s ''kind'' = JStr ''every'' \<and> as_finite (jget s ''everyMs'') \<noteq> None \<and> (jget s ''anchorMs'' = JUndef \<or> as_finite (jget s ''anchorMs'') \<noteq> None) \<or>
      jget s ''kind'' = JStr ''cron'' \<and> (jget s ''staggerMs'' = JUndef \<or> as_finite (jget s ''staggerMs'') \<noteq> None) \<or>
      jget s ''kind'' = JStr ''at''))"

definition schedule_stored :: "jsval \<Rightarrow> jsval \<Rightarrow> bool" where
  "schedule_stored s a = (a = s \<or>
     (jget s ''kind'' = JStr ''every'' \<and> jget s ''anchorMs'' = JUndef \<and> (\<exists>x. a = JObj (put_prop ''anchorMs'' x (spread s)))) \<or>
     (jget s ''kind'' = JStr ''cron'' \<and> jget s ''staggerMs'' = JUndef \<and> (\<exists>x. a = JObj (put_prop ''staggerMs'' x (spread s)))))"

definition applied :: "cron_params \<Rightarrow> cron_job \<Rightarrow> bool" where
  "applied q j \<longleftrightarrow>
     j_name j = JStr (q_name q) \<and> j_description j = JStr (q_description q) \<and>
     schedule_stored (q_schedule q) (j_schedule j) \<and>
     j_sessionTarget j = JStr (q_sessionTarget q) \<and> j_wakeMode j = JStr (q_wakeMode q) \<and>
     j_enabled j = JBool (q_enabled q) \<and> carries (j_payload j) (q_payload q) \<and>
     (case q_delivery q of None \<Rightarrow> True | Some d \<Rightarrow> carries (j_delivery j) d) \<and>
     (if is_object (q_failureAlert q) then carries (j_failureAlert j) (q_failureAlert q) else j_failureAlert j = q_failureAlert q) \<and>
     (j_deleteAfterRun j = JBool True \<longleftrightarrow> q_deleteAfterRun q)"

lemma strict_finite: "as_finite v \<noteq> None \<Longrightarrow> strict_prim v v"
  by (cases v rule: as_finite.cases) (simp_all add: num_eq_def)

lemma scheduleMatches_stored:
  assumes "schedule_authored s" and "schedule_stored s a"
  shows "scheduleMatches s a = Some True"
proof -
  from assms(1) obtain ps where s: "s = JObj ps" by (cases s) (auto simp: schedule_authored_def)
  have sp: "spread s = ps" by (simp add: s spread_def)
  have at: "deepEqual (normalizeCronAtValue (jget s ''at'')) (normalizeCronAtValue (jget s ''at''))"
  proof (cases "jget s ''at'' = JUndef")
    case False
    then have "json_value (jget s ''at'')" using assms(1) by (simp add: json_jget schedule_authored_def)
    then have "json_value (normalizeCronAtValue (jget s ''at''))"
      by (auto simp: normalizeCronAtValue_def Let_def split: option.split)
    then show ?thesis by (rule deepEqual_refl)
  qed (simp add: normalizeCronAtValue_def deepEqual.simps)
  have o: "is_object a" "jget a ''kind'' = jget s ''kind''"
    using assms(2) s by (auto simp: schedule_stored_def simp del: jget.simps)
      (simp_all add: sp [unfolded s] del: jget.simps)
  show ?thesis
    using assms at strict_finite
    unfolding schedule_authored_def schedule_stored_def scheduleMatches_def
    by (elim conjE disjE exE) (simp_all add: s spread_def del: jget.simps)
qed

text \<open>Carrying the anchor of the job over leaves the verdict on its schedule.\<close>

lemma preserve_cases:
  assumes "preserveEveryAnchor q j = Some q'"
  obtains "q' = q" |
    "jget (q_schedule q) ''kind'' = JStr ''every''" "jget (q_schedule q) ''anchorMs'' = JUndef" "is_object (j_schedule j)"
    "jget (j_schedule j) ''kind'' = JStr ''every''" "strict_prim (jget (j_schedule j) ''everyMs'') (jget (q_schedule q) ''everyMs'')"
    "as_finite (jget (j_schedule j) ''anchorMs'') \<noteq> None"
    "q' = q\<lparr>q_schedule := JObj (put_prop ''anchorMs'' (jget (j_schedule j) ''anchorMs'') (spread (q_schedule q)))\<rparr>"
  using assms by (auto simp: preserveEveryAnchor_def Let_def simp del: jget.simps split: if_splits)

lemma preserve_same_verdict:
  assumes "preserveEveryAnchor q j = Some q'"
  shows "cronJobMatchesParams j q' = cronJobMatchesParams j q"
  using assms
proof (cases rule: preserve_cases)
    case 2
    then obtain ps where s: "q_schedule q = JObj ps" by (cases "q_schedule q") auto
    have "scheduleMatches (q_schedule q') (j_schedule j) = scheduleMatches (q_schedule q) (j_schedule j)"
      using 2 strict_finite [of "jget (j_schedule j) ''anchorMs''"]
      by (simp add: scheduleMatches_def s spread_def Let_def del: jget.simps)
    then show ?thesis by (simp add: cronJobMatchesParams_def 2(7))
qed simp

text \<open>An interval job and parameters with its interval, which leave the anchor to the gateway.\<close>

definition same_interval :: "cron_params \<Rightarrow> cron_job \<Rightarrow> bool" where
  "same_interval q j = (jget (q_schedule q) ''kind'' = JStr ''every'' \<and> jget (q_schedule q) ''anchorMs'' = JUndef \<and>
     jget (j_schedule j) ''kind'' = JStr ''every'' \<and>
     strict_prim (jget (j_schedule j) ''everyMs'') (jget (q_schedule q) ''everyMs'') \<and>
     as_finite (jget (j_schedule j) ''anchorMs'') \<noteq> None)"

text \<open>
  Carrying a job's anchor into the parameters never changes whether the job has drifted, and when
  it happens the parameters hold the anchor of the job, so that an update keeps the interval's grid.
\<close>

theorem anchor_is_preserved:
  assumes "preserveEveryAnchor q j = Some q'"
  shows "cronJobMatchesParams j q' = cronJobMatchesParams j q \<and>
    (same_interval q j \<longrightarrow> jget (q_schedule q') ''anchorMs'' = jget (j_schedule j) ''anchorMs'')"
proof (rule conjI [rotated])
  show "same_interval q j \<longrightarrow> jget (q_schedule q') ''anchorMs'' = jget (j_schedule j) ''anchorMs''"
    using assms by (auto simp: preserveEveryAnchor_def same_interval_def Let_def jget_is_object simp del: jget.simps split: if_splits)
qed (rule preserve_same_verdict [OF assms])

text \<open>A job into which the gateway has taken the parameters shows no drift on the next pass.\<close>

lemma applied_job_has_no_drift:
  assumes "applied q j" and "schedule_authored (q_schedule q)"
    and "json_value (q_payload q)" and "json_value (q_failureAlert q)"
    and "case q_delivery q of None \<Rightarrow> True | Some d \<Rightarrow> json_value d"
  shows "\<exists>q'. preserveEveryAnchor q j = Some q' \<and> cronJobMatchesParams j q' = Some True"
proof -
  have "q_schedule q \<noteq> JUndef" "q_schedule q \<noteq> JNull" using assms(2) by (auto simp: schedule_authored_def)
  then obtain q' where p: "preserveEveryAnchor q j = Some q'"
    by (cases "preserveEveryAnchor q j") (auto simp: preserveEveryAnchor_def Let_def simp del: jget.simps split: if_splits)
  have "scheduleMatches (q_schedule q) (j_schedule j) = Some True"
    using assms(1,2) by (simp add: applied_def scheduleMatches_stored)
  moreover have "failureAlertOff (q_failureAlert q) \<Longrightarrow> \<not> is_object (q_failureAlert q)"
    by (auto simp: failureAlertOff_def)
  ultimately have "cronJobMatchesParams j q = Some True"
    using assms by (auto simp: cronJobMatchesParams_def and_then_def applied_def coalesce_def subsetMatches_carries
        deepEqual_refl failureAlertOff_def split: option.splits)
  with p preserve_same_verdict show ?thesis by auto
qed

definition demo_spec :: jsval where
  "demo_spec = JObj [(''name'', JStr ''Digest''), (''schedule'', JObj [(''kind'', JStr ''every''), (''everyMs'', jint 3600000)]),
     (''payload'', JObj [(''kind'', JStr ''agentTurn''), (''message'', JStr ''hi'')]), (''delivery'', JObj [(''to'', JStr ''ops'')])]"

definition demo_params :: cron_params where
  "demo_params = specToCronAdd demo_spec ''a1'' (Some (JObj [(''mode'', JStr ''announce''), (''channel'', JStr ''clawbits'')]))"

definition demo_job :: cron_job where
  "demo_job = \<lparr>j_id = ''job-1'', j_name = JStr ''Digest'', j_description = JStr ''clawbits-id=a1'', j_enabled = JBool True,
     j_schedule = JObj [(''kind'', JStr ''every''), (''everyMs'', jint 3600000), (''anchorMs'', jint 77)],
     j_sessionTarget = JStr ''isolated'', j_wakeMode = JStr ''next-heartbeat'',
     j_payload = JObj [(''kind'', JStr ''agentTurn''), (''message'', JStr ''hi''), (''model'', JStr ''m'')], j_state = JUndef,
     j_delivery = JObj [(''mode'', JStr ''announce''), (''channel'', JStr ''clawbits''), (''to'', JStr ''ops'')],
     j_failureAlert = JBool False, j_deleteAfterRun = JUndef\<rparr>"

lemmas demo_cron = demo_spec_def demo_params_def demo_job_def specToCronAdd_def clawbitsSentinel_def SENTINEL_PREFIX_def
  normalizeCronSchedule_def merge_props_def spread_def trim_def trim_start_def trim_end_def is_ws_def

lemma anchor_is_preserved_witness:
  "jget (q_schedule (the (preserveEveryAnchor demo_params demo_job))) ''anchorMs'' = jint 77"
proof -
  have "preserveEveryAnchor demo_params demo_job = Some (the (preserveEveryAnchor demo_params demo_job))"
    by (simp add: preserveEveryAnchor_def demo_cron num_eq_def)
  from anchor_is_preserved [OF this] show ?thesis
    by (simp add: same_interval_def demo_cron num_eq_def)
qed

end
