(* ===== verification/Reconcile.thy ===== *)
theory Reconcile
  imports Cron_Handle
begin

text \<open>
  The reconciler of an agent's automations (\<open>plugin/src/automations/reconcile.ts\<close>): one pass over the
  desired items against the gateway's cron service, the reports it sends, the registry of wakers and
  the loop around the passes. The gateway is a record of functions over its own state, each of which
  may throw; a world carries that state and the calls made so far. The answer of the server with the
  desired items is an argument of the pass.
\<close>

section \<open>The gateway's cron service\<close>

datatype call = CallList | CallAdd cron_params | CallUpdate string cron_params | CallRemove string | CallRun string

record 'g cron =
  c_list :: "'g \<Rightarrow> (string + cron_job list) \<times> 'g"
  c_add :: "cron_params \<Rightarrow> 'g \<Rightarrow> (string + jsval) \<times> 'g"
  c_update :: "string \<Rightarrow> cron_params \<Rightarrow> 'g \<Rightarrow> (string + jsval) \<times> 'g"
  c_remove :: "string \<Rightarrow> 'g \<Rightarrow> (string + jsval) \<times> 'g"
  c_run :: "string \<Rightarrow> 'g \<Rightarrow> (string + jsval) \<times> 'g"
  c_now :: "'g \<Rightarrow> jsnum"

record 'g world =
  w_gw :: 'g
  w_calls :: "call list"

definition calling :: "call \<Rightarrow> ('g \<Rightarrow> 'r \<times> 'g) \<Rightarrow> 'g world \<Rightarrow> 'r \<times> 'g world" where
  "calling c f w = (let (r, g) = f (w_gw w) in (r, \<lparr>w_gw = g, w_calls = w_calls w @ [c]\<rparr>))"

lemma calling_calls: "calling c f w = (r, w') \<Longrightarrow> w_calls w' = w_calls w @ [c]"
  by (auto simp: calling_def split: prod.splits)

section \<open>Desired items and reports\<close>

record desired_item =
  di_id :: string
  di_job :: "string option"
  di_gen :: int
  di_absent :: bool
  di_spec :: jsval
  di_run_requested :: "int option"
  di_run_observed :: "int option"

datatype report_status = Applied | Failed | Removed

text \<open>What a \<open>catch\<close> block gets: an error the gateway threw, or a type error of the comparison.\<close>

datatype failure = Thrown string | TypeError

record managed_report =
  mr_id :: string
  mr_job :: "string option"
  mr_gen :: int
  mr_run_observed :: "int option"
  mr_status :: report_status
  mr_error :: "failure option"
  mr_spec :: "jsval option"
  mr_state :: jsval

record run_report =
  rr_id :: string
  rr_job :: string
  rr_run :: string
  rr_status :: "string option"
  rr_started :: jsnum
  rr_finished :: "jsnum option"
  rr_summary :: jsval
  rr_diagnostics :: jsval

record external_report =
  er_job :: string
  er_name :: jsval
  er_spec :: jsval
  er_state :: jsval

record pass_report =
  rp_managed :: "managed_report list"
  rp_external :: "external_report list"
  rp_runs :: "run_report list"

fun num_plus :: "jsnum \<Rightarrow> jsnum \<Rightarrow> jsnum" where
  "num_plus (Fin a) (Fin b) = Fin (a + b)"
| "num_plus NaN _ = NaN"
| "num_plus _ NaN = NaN"
| "num_plus PInf NInf = NaN"
| "num_plus NInf PInf = NaN"
| "num_plus PInf _ = PInf"
| "num_plus _ PInf = PInf"
| "num_plus NInf _ = NInf"
| "num_plus _ NInf = NInf"

definition lastRunReport :: "runtime \<Rightarrow> string \<Rightarrow> cron_job \<Rightarrow> run_report option" where
  "lastRunReport R i j =
     (let st = j_state j in
      case as_num (jget st ''lastRunAtMs'') of
        None \<Rightarrow> None
      | Some begun \<Rightarrow>
         Some \<lparr>rr_id = i, rr_job = j_id j, rr_run = ''run:'' @ num_to_string R begun,
           rr_status = (case as_str (jget st ''lastRunStatus'') of Some s \<Rightarrow> if s = [] then None else Some s | None \<Rightarrow> None),
           rr_started = begun,
           rr_finished = map_option (num_plus begun) (as_num (jget st ''lastDurationMs'')),
           rr_summary = JObj (
             opt_field ''error'' (as_str (jget st ''lastError'')) JStr @
             opt_field ''diagnostic_summary'' (as_str (jget st ''lastDiagnosticSummary'')) JStr @
             opt_field ''delivered'' (as_bool (jget st ''lastDelivered'')) JBool @
             opt_field ''delivery_status'' (as_str (jget st ''lastDeliveryStatus'')) JStr @
             opt_field ''delivery_error'' (as_str (jget st ''lastDeliveryError'')) JStr),
           rr_diagnostics = jget st ''lastDiagnostics''\<rparr>)"

text \<open>The messages for a declined run; the dash of two of them is written as a hyphen.\<close>

definition RUN_NOW_MISS_MESSAGES :: "(string \<times> string) list" where
  "RUN_NOW_MISS_MESSAGES =
    [(''already-running'', ''A run was already in progress, so the manual run was skipped.''),
     (''restart-recovery-pending'', ''The agent is still recovering after a restart - try the manual run again shortly.''),
     (''not-due'', ''The job was not due to run.''),
     (''stopped'', ''This automation is paused - enable it, then run it.''),
     (''invalid-spec'', ''The automation's schedule or target is invalid - check its settings.''),
     (''rejected'', ''The gateway declined to run this automation.'')]"

definition missMessage :: "string option \<Rightarrow> string" where
  "missMessage reason =
     (case reason of
        Some r \<Rightarrow>
          if r = [] then ''The manual run did not start.''
          else (case map_of RUN_NOW_MISS_MESSAGES r of
              Some m \<Rightarrow> m
            | None \<Rightarrow> ''The manual run did not start ('' @ r @ '').'')
      | None \<Rightarrow> ''The manual run did not start.'')"

definition runNowMissRow :: "string \<Rightarrow> string \<Rightarrow> int \<Rightarrow> run_outcome \<Rightarrow> jsnum \<Rightarrow> run_report" where
  "runNowMissRow i job generation out now =
     \<lparr>rr_id = i, rr_job = job, rr_run = ''run-now:'' @ show_int generation,
      rr_status = Some (if ro_kind out = RunError then ''error'' else ''skipped''),
      rr_started = now, rr_finished = Some now,
      rr_summary = JObj ([(''run_now'', JBool True), (''did_not_run'', JBool True), (''error'', JStr (missMessage (ro_reason out)))] @
        opt_field ''reason'' (case ro_reason out of Some r \<Rightarrow> if r = [] then None else Some r | None \<Rightarrow> None) JStr),
      rr_diagnostics = JUndef\<rparr>"

definition reportedSpecOf :: "cron_job \<Rightarrow> jsval" where
  "reportedSpecOf j = JObj
     [(''name'', j_name j), (''description'', j_description j), (''schedule'', j_schedule j),
      (''sessionTarget'', j_sessionTarget j), (''wakeMode'', j_wakeMode j), (''payload'', j_payload j),
      (''enabled'', j_enabled j), (''delivery'', j_delivery j), (''failureAlert'', j_failureAlert j),
      (''deleteAfterRun'', j_deleteAfterRun j)]"

text \<open>A channel id of the form of a UUID.\<close>

definition is_hex :: "char \<Rightarrow> bool" where
  "is_hex c = (hex_val c \<noteq> None)"

definition is_channel_id :: "string \<Rightarrow> bool" where
  "is_channel_id s = (length s = 36 \<and>
     list_all (\<lambda>i. if i \<in> set [8, 13, 18, 23] then s ! i = CHR ''-'' else is_hex (s ! i)) [0..<36])"

definition ownerChannelDelivery :: "string \<Rightarrow> string option \<Rightarrow> jsval option" where
  "ownerChannelDelivery account_id channel =
     (case map_option trim channel of
        None \<Rightarrow> None
      | Some c \<Rightarrow> if c = [] \<or> \<not> is_channel_id c then None
          else Some (JObj [(''mode'', JStr ''announce''), (''channel'', JStr ''clawbits''), (''to'', JStr c),
                 (''accountId'', JStr account_id)]))"

section \<open>One item\<close>

definition resolveNewJobId :: "'g cron \<Rightarrow> jsval \<Rightarrow> string \<Rightarrow> 'g world \<Rightarrow> string option \<times> 'g world" where
  "resolveNewJobId C result i w =
     (case extractJobId result of
        Some (c # s) \<Rightarrow> (Some (c # s), w)
      | _ \<Rightarrow> (case calling CallList (c_list C) w of
            (Inl _, w') \<Rightarrow> (None, w')
          | (Inr jobs, w') \<Rightarrow> (map_option j_id (List.find (\<lambda>j. parseSentinel j = Some i) jobs), w')))"

text \<open>The job of an item after an update on drift or an add, with the state to report.\<close>

definition place_item :: "'g cron \<Rightarrow> cron_params \<Rightarrow> string \<Rightarrow> cron_job option \<Rightarrow> 'g world
    \<Rightarrow> (failure + string option \<times> jsval) \<times> 'g world" where
  "place_item C q i existing w =
     (case existing of
        Some j \<Rightarrow>
          (case preserveEveryAnchor q j of
             None \<Rightarrow> (Inl TypeError, w)
           | Some q' \<Rightarrow>
              (case cronJobMatchesParams j q' of
                 None \<Rightarrow> (Inl TypeError, w)
               | Some True \<Rightarrow> (Inr (Some (j_id j), j_state j), w)
               | Some False \<Rightarrow>
                  (case calling (CallUpdate (j_id j) q') (c_update C (j_id j) q') w of
                     (Inl e, w') \<Rightarrow> (Inl (Thrown e), w')
                   | (Inr _, w') \<Rightarrow> (Inr (Some (j_id j), j_state j), w'))))
      | None \<Rightarrow>
          (case calling (CallAdd q) (c_add C q) w of
             (Inl e, w') \<Rightarrow> (Inl (Thrown e), w')
           | (Inr r, w') \<Rightarrow> (let (job, w'') = resolveNewJobId C r i w' in (Inr (job, JUndef), w''))))"

text \<open>The requested run: the observed generation to report, and a row if it did not start.\<close>

definition run_now :: "'g cron \<Rightarrow> desired_item \<Rightarrow> string option \<Rightarrow> 'g world \<Rightarrow> int \<times> run_report list \<times> 'g world" where
  "run_now C it job w =
     (let requested = (case di_run_requested it of Some n \<Rightarrow> n | None \<Rightarrow> 0);
          observed = (case di_run_observed it of Some n \<Rightarrow> n | None \<Rightarrow> 0)
      in case job of
           Some (c # s) \<Rightarrow>
             if requested > observed then
               (case calling (CallRun (c # s)) (c_run C (c # s)) w of
                  (r, w') \<Rightarrow>
                    (let out = (case r of Inl e \<Rightarrow> \<lparr>ro_started = False, ro_kind = RunError, ro_reason = Some e\<rparr>
                                        | Inr v \<Rightarrow> interpretRunResult v)
                     in (requested, if ro_started out then [] else [runNowMissRow (di_id it) (c # s) requested out (c_now C (w_gw w'))], w')))
             else (observed, [], w)
         | _ \<Rightarrow> (observed, [], w))"

type_synonym 'g pass = "managed_report list \<times> run_report list \<times> 'g world"

definition existing_job :: "(string, cron_job) jsmap \<Rightarrow> (string, cron_job) jsmap \<Rightarrow> desired_item \<Rightarrow> cron_job option" where
  "existing_job bySentinel byId it =
     (case mget bySentinel (di_id it) of
        Some j \<Rightarrow> Some j
      | None \<Rightarrow> (case di_job it of Some (c # s) \<Rightarrow> mget byId (c # s) | _ \<Rightarrow> None))"

definition absent_item :: "'g cron \<Rightarrow> cron_job option \<Rightarrow> desired_item \<Rightarrow> 'g pass \<Rightarrow> 'g pass" where
  "absent_item C existing it p =
     (case p of (managed, runs, w) \<Rightarrow>
       (let w' = (case existing of
              Some j \<Rightarrow> snd (calling (CallRemove (j_id j)) (c_remove C (j_id j)) w)
            | None \<Rightarrow> w)
        in (managed @ [\<lparr>mr_id = di_id it, mr_job = (case existing of Some j \<Rightarrow> Some (j_id j) | None \<Rightarrow> di_job it),
              mr_gen = di_gen it, mr_run_observed = None, mr_status = Removed, mr_error = None, mr_spec = None, mr_state = JUndef\<rparr>],
            runs, w')))"

definition present_item :: "runtime \<Rightarrow> 'g cron \<Rightarrow> jsval option \<Rightarrow> cron_job option \<Rightarrow> desired_item \<Rightarrow> 'g pass \<Rightarrow> 'g pass" where
  "present_item R C defaultDelivery existing it p =
     (case p of (managed, runs, w) \<Rightarrow>
       (case place_item C (specToCronAdd (di_spec it) (di_id it) defaultDelivery) (di_id it) existing w of
          (Inl e, w') \<Rightarrow>
            (managed @ [\<lparr>mr_id = di_id it, mr_job = map_option j_id existing, mr_gen = di_gen it,
               mr_run_observed = None, mr_status = Failed, mr_error = Some e, mr_spec = None, mr_state = JUndef\<rparr>], runs, w')
        | (Inr (job, state), w') \<Rightarrow>
            (case run_now C it job w' of (observed, missed, w'') \<Rightarrow>
              (managed @ [\<lparr>mr_id = di_id it, mr_job = job, mr_gen = di_gen it, mr_run_observed = Some observed,
                 mr_status = Applied, mr_error = None, mr_spec = Some (di_spec it), mr_state = state\<rparr>],
               runs @ missed @ (case existing of
                   Some j \<Rightarrow> (case lastRunReport R (di_id it) j of Some r \<Rightarrow> [r] | None \<Rightarrow> [])
                 | None \<Rightarrow> []),
               w''))))"

definition reconcile_item :: "runtime \<Rightarrow> 'g cron \<Rightarrow> jsval option \<Rightarrow> (string, cron_job) jsmap \<Rightarrow> (string, cron_job) jsmap
    \<Rightarrow> desired_item \<Rightarrow> 'g pass \<Rightarrow> 'g pass" where
  "reconcile_item R C defaultDelivery bySentinel byId it p =
     (let existing = existing_job bySentinel byId it in
      if di_absent it then absent_item C existing it p
      else if \<not> truthy (di_spec it) then p
      else present_item R C defaultDelivery existing it p)"

section \<open>A pass\<close>

definition index_jobs :: "cron_job list \<Rightarrow> (string, cron_job) jsmap \<times> (string, cron_job) jsmap" where
  "index_jobs jobs = foldl (\<lambda>(bySentinel, byId) j.
     (case parseSentinel j of Some s \<Rightarrow> mset_key s j bySentinel | None \<Rightarrow> bySentinel, mset_key (j_id j) j byId)) ([], []) jobs"

definition external_jobs :: "string list \<Rightarrow> cron_job list \<Rightarrow> external_report list" where
  "external_jobs desiredIds jobs =
     map (\<lambda>j. \<lparr>er_job = j_id j, er_name = j_name j, er_spec = reportedSpecOf j, er_state = j_state j\<rparr>)
       (filter (\<lambda>j. case parseSentinel j of Some s \<Rightarrow> s \<notin> set desiredIds | None \<Rightarrow> True) jobs)"

definition reconcileOnce :: "runtime \<Rightarrow> 'g cron \<Rightarrow> string \<Rightarrow> string option \<Rightarrow> (string + desired_item list) \<Rightarrow> 'g world
    \<Rightarrow> (string + pass_report) \<times> 'g world" where
  "reconcileOnce R C account_id owner desired w =
     (case calling CallList (c_list C) w of
        (Inl e, w') \<Rightarrow> (Inl e, w')
      | (Inr jobs, w') \<Rightarrow>
         (case desired of
            Inl e \<Rightarrow> (Inl e, w')
          | Inr items \<Rightarrow>
             (let (bySentinel, byId) = index_jobs jobs;
                  (managed, runs, w'') = foldl (\<lambda>p it. reconcile_item R C (ownerChannelDelivery account_id owner) bySentinel byId it p)
                    ([], [], w') items
              in (Inr \<lparr>rp_managed = managed, rp_external = external_jobs (map di_id items) jobs, rp_runs = runs\<rparr>, w''))))"

section \<open>What a pass reports\<close>

definition is_run :: "call \<Rightarrow> bool" where
  "is_run c = (case c of CallRun _ \<Rightarrow> True | _ \<Rightarrow> False)"

definition runs_made :: "'g world \<Rightarrow> nat" where
  "runs_made w = length (filter is_run (w_calls w))"

definition generation :: "int option \<Rightarrow> int" where
  "generation n = (case n of Some k \<Rightarrow> k | None \<Rightarrow> 0)"

definition run_asked :: "desired_item \<Rightarrow> bool" where
  "run_asked it = (generation (di_run_observed it) < generation (di_run_requested it))"

definition reportable :: "desired_item \<Rightarrow> bool" where
  "reportable it = (di_absent it \<or> truthy (di_spec it))"

text \<open>The report an item gets: its identity and generation, the outcome of its branch, its runs.\<close>

definition answers :: "desired_item \<Rightarrow> managed_report \<Rightarrow> bool" where
  "answers it m \<longleftrightarrow>
     mr_id m = di_id it \<and> mr_gen m = di_gen it \<and>
     (mr_status m = Removed \<longleftrightarrow> di_absent it) \<and> (mr_status m = Failed \<longleftrightarrow> mr_error m \<noteq> None) \<and>
     (mr_status m = Applied \<longrightarrow> mr_spec m = Some (di_spec it) \<and>
        mr_run_observed m = Some (if mr_job m \<in> {None, Some []} then generation (di_run_observed it)
                                  else max (generation (di_run_observed it)) (generation (di_run_requested it))))"

lemma runs_made_calling: "calling c f w = (r, w') \<Longrightarrow> runs_made w' = runs_made w + (if is_run c then 1 else 0)"
  by (auto simp: runs_made_def dest!: calling_calls)

lemma is_run_simps [simp]: "is_run (CallRun i)" "\<not> is_run CallList" "\<not> is_run (CallAdd q)"
  "\<not> is_run (CallUpdate i q)" "\<not> is_run (CallRemove i)"
  by (simp_all add: is_run_def)

lemma resolveNewJobId_runs: "resolveNewJobId C r i w = (job, w') \<Longrightarrow> runs_made w' = runs_made w"
  by (auto simp: resolveNewJobId_def split: option.splits list.splits prod.splits sum.splits dest!: runs_made_calling)

lemma place_item_runs: "place_item C q i existing w = (r, w') \<Longrightarrow> runs_made w' = runs_made w"
  by (auto simp: place_item_def split: option.splits bool.splits prod.splits sum.splits
      dest!: runs_made_calling resolveNewJobId_runs)

lemma run_now_cases:
  assumes "run_now C it job w = (observed, missed, w')"
  obtains (none) "job \<in> {None, Some []} \<or> \<not> run_asked it" "observed = generation (di_run_observed it)" "missed = []" "w' = w"
    | (asked) i where "job = Some i" "i \<noteq> []" "run_asked it" "observed = generation (di_run_requested it)"
        "runs_made w' = Suc (runs_made w)" "w_calls w' = w_calls w @ [CallRun i]"
proof (cases "(job = None \<or> job = Some []) \<or> \<not> run_asked it")
  case True
  with assms that(1) show ?thesis
    by (auto simp: run_now_def run_asked_def generation_def Let_def split: option.splits list.splits)
next
  case False
  then obtain c s where job: "job = Some (c # s)" and asked: "run_asked it" by (cases job rule: option.exhaust) (auto, meson list.exhaust)
  obtain r u where cl: "calling (CallRun (c # s)) (c_run C (c # s)) w = (r, u)" by fastforce
  from assms job asked cl have "observed = generation (di_run_requested it)" and u: "u = w'"
    by (simp_all add: run_now_def run_asked_def generation_def Let_def)
  with that(2) [of "c # s"] job asked cl show ?thesis by (simp add: runs_made_calling calling_calls)
qed

lemma absent_item_report:
  assumes "absent_item C existing it (managed, runs, w) = (managed', runs', w')" and "di_absent it"
  shows "\<exists>m. managed' = managed @ [m] \<and> answers it m \<and> mr_status m = Removed \<and> runs_made w' = runs_made w"
proof -
  from assms(1) have "managed' = managed @ [\<lparr>mr_id = di_id it, mr_job = (case existing of Some j \<Rightarrow> Some (j_id j) | None \<Rightarrow> di_job it),
      mr_gen = di_gen it, mr_run_observed = None, mr_status = Removed, mr_error = None, mr_spec = None, mr_state = JUndef\<rparr>]"
    by (simp add: absent_item_def Let_def)
  moreover have "runs_made w' = runs_made w"
  proof (cases existing)
    case (Some j)
    obtain r u where "calling (CallRemove (j_id j)) (c_remove C (j_id j)) w = (r, u)" by fastforce
    with assms(1) Some show ?thesis by (simp add: absent_item_def Let_def runs_made_calling)
  qed (use assms(1) in \<open>simp add: absent_item_def Let_def\<close>)
  ultimately show ?thesis using assms(2) by (simp add: answers_def)
qed

lemma present_item_report:
  assumes "present_item R C dd existing it (managed, runs, w) = (managed', runs', w')" and "\<not> di_absent it"
  shows "\<exists>m. managed' = managed @ [m] \<and> answers it m \<and>
    runs_made w' \<le> runs_made w + (if run_asked it then 1 else 0)"
proof -
  let ?q = "specToCronAdd (di_spec it) (di_id it) dd"
  obtain r u where pl: "place_item C ?q (di_id it) existing w = (r, u)" by fastforce
  have ru: "runs_made u = runs_made w" using pl by (rule place_item_runs)
  show ?thesis
  proof (cases r)
    case (Inl e)
    with assms pl ru show ?thesis by (auto simp: present_item_def answers_def)
  next
    case (Inr a)
    obtain job st where a: "a = (job, st)" by fastforce
    obtain obs missed v where rn: "run_now C it job u = (obs, missed, v)" by (metis prod_cases3)
    from rn show ?thesis
    proof (cases rule: run_now_cases)
      case none
      with assms pl ru rn Inr a show ?thesis
        by (auto simp: present_item_def answers_def run_asked_def max_def)
    next
      case (asked i)
      with assms pl ru rn Inr a show ?thesis
        by (auto simp: present_item_def answers_def run_asked_def max_def)
    qed
  qed
qed

lemma reconcile_item_report:
  assumes "reconcile_item R C dd bs bi it (managed, runs, w) = (managed', runs', w')"
  shows "\<exists>ms. managed' = managed @ ms \<and> (if reportable it then \<exists>m. ms = [m] \<and> answers it m else ms = []) \<and>
    runs_made w' \<le> runs_made w + (if reportable it \<and> \<not> di_absent it \<and> run_asked it then 1 else 0)"
proof (cases "di_absent it")
  case True
  with assms absent_item_report [of C "existing_job bs bi it" it managed runs w managed' runs' w'] show ?thesis
    by (auto simp: reconcile_item_def Let_def reportable_def)
next
  case False
  show ?thesis
  proof (cases "truthy (di_spec it)")
    case True
    with False assms present_item_report [of R C dd "existing_job bs bi it" it managed runs w managed' runs' w'] show ?thesis
      by (auto simp: reconcile_item_def Let_def reportable_def)
  qed (use False assms in \<open>auto simp: reconcile_item_def reportable_def\<close>)
qed

lemma reconcile_items_report:
  assumes "foldl (\<lambda>p it. reconcile_item R C dd bs bi it p) (managed, runs, w) items = (managed', runs', w')"
  shows "\<exists>ms. managed' = managed @ ms \<and> list_all2 answers (filter reportable items) ms \<and>
    runs_made w' \<le> runs_made w + length (filter (\<lambda>it. reportable it \<and> \<not> di_absent it \<and> run_asked it) items)"
  using assms
proof (induction items arbitrary: managed runs w)
  case (Cons it items)
  obtain m1 r1 w1 where st: "reconcile_item R C dd bs bi it (managed, runs, w) = (m1, r1, w1)" by (metis prod_cases3)
  from reconcile_item_report [OF st] obtain ms where a: "m1 = managed @ ms"
    "if reportable it then \<exists>m. ms = [m] \<and> answers it m else ms = []"
    "runs_made w1 \<le> runs_made w + (if reportable it \<and> \<not> di_absent it \<and> run_asked it then 1 else 0)" by blast
  from Cons.IH [of m1 r1 w1] Cons.prems st obtain ms' where b: "managed' = m1 @ ms'"
    "list_all2 answers (filter reportable items) ms'"
    "runs_made w' \<le> runs_made w1 + length (filter (\<lambda>it. reportable it \<and> \<not> di_absent it \<and> run_asked it) items)" by auto
  have "list_all2 answers (filter reportable (it # items)) (ms @ ms')"
    using a(2) b(2) by (auto split: if_splits)
  moreover have "managed' = managed @ (ms @ ms')" using a(1) b(1) by simp
  moreover have "runs_made w' \<le> runs_made w + length (filter (\<lambda>it. reportable it \<and> \<not> di_absent it \<and> run_asked it) (it # items))"
    using a(3) b(3) by (auto split: if_splits)
  ultimately show ?case by blast
qed simp

lemma reconcileOnce_items:
  assumes "reconcileOnce R C acc owner desired w = (Inr rep, w')"
  obtains jobs items u bs bi where "calling CallList (c_list C) w = (Inr jobs, u)" "desired = Inr items"
    "index_jobs jobs = (bs, bi)" "rp_external rep = external_jobs (map di_id items) jobs"
    "foldl (\<lambda>p it. reconcile_item R C (ownerChannelDelivery acc owner) bs bi it p) ([], [], u) items = (rp_managed rep, rp_runs rep, w')"
  using assms by (auto simp: reconcileOnce_def Let_def split: prod.splits sum.splits)

text \<open>
  C8: A pass that got the desired items and the list of jobs answers for every item that names a spec
  or asks for removal, in order and whatever failed for the others: each report carries the item's
  generation, a failure carries its error, and an item whose job is known reports its requested run as
  observed. The runs it asks of the gateway are no more than the items to be present whose requested
  run is ahead of the observed one. (Items with neither a spec nor a removal are not reported; a run
  may be asked again by a later pass.)
\<close>

theorem pass_answers_every_item:
  assumes "reconcileOnce R C acc owner (Inr items) w = (Inr rep, w')"
  shows "list_all2 answers (filter reportable items) (rp_managed rep) \<and>
    runs_made w' \<le> runs_made w + length (filter (\<lambda>it. reportable it \<and> \<not> di_absent it \<and> run_asked it) items)"
  using assms
proof (cases rule: reconcileOnce_items)
  case (1 jobs items' u bs bi)
  then have "runs_made u = runs_made w" by (simp add: runs_made_calling)
  with reconcile_items_report [OF 1(5)] 1(2) show ?thesis by auto
qed

section \<open>A settled agent\<close>

lemma mget_index_other:
  assumes "\<forall>j \<in> set jobs. parseSentinel j \<noteq> Some s"
  shows "mget (fst (foldl (\<lambda>(bySentinel, byId) j.
     (case parseSentinel j of Some s \<Rightarrow> mset_key s j bySentinel | None \<Rightarrow> bySentinel, mset_key (j_id j) j byId)) m jobs)) s = mget (fst m) s"
  using assms
proof (induction jobs arbitrary: m)
  case (Cons j jobs)
  obtain a b where m: "m = (a, b)" by fastforce
  from Cons show ?case by (auto simp: m split: option.split)
qed simp

lemma index_only_job:
  assumes "j \<in> set jobs" and "parseSentinel j = Some s" and "\<forall>j' \<in> set jobs. parseSentinel j' = Some s \<longrightarrow> j' = j"
  shows "mget (fst (index_jobs jobs)) s = Some j"
proof -
  from assms(1) obtain us vs where jobs: "jobs = us @ j # vs" and vs: "j \<notin> set vs"
    by (metis split_list_last)
  have "\<forall>j' \<in> set vs. parseSentinel j' \<noteq> Some s" using assms(3) vs jobs by auto
  then show ?thesis
    using assms(2) by (auto simp: index_jobs_def jobs mget_index_other split: prod.split)
qed

text \<open>
  An automation the gateway has taken over: its spec has an authored schedule, exactly one job
  carries its sentinel, that job holds the parameters of the spec, and no run is requested.
\<close>

definition settled :: "jsval option \<Rightarrow> cron_job list \<Rightarrow> desired_item \<Rightarrow> bool" where
  "settled dd jobs it \<longleftrightarrow>
     (let q = specToCronAdd (di_spec it) (di_id it) dd in
      \<not> di_absent it \<and> truthy (di_spec it) \<and> \<not> run_asked it \<and> di_id it \<noteq> [] \<and> list_all is_alnum (di_id it) \<and>
      schedule_authored (q_schedule q) \<and> json_value (q_payload q) \<and> json_value (q_failureAlert q) \<and>
      (case q_delivery q of None \<Rightarrow> True | Some d \<Rightarrow> json_value d) \<and>
      list_ex (applied q) jobs \<and>
      length (filter (\<lambda>j. parseSentinel j = Some (di_id it)) jobs) = 1)"

lemma settled_job:
  assumes "settled dd jobs it"
  obtains j where "existing_job (fst (index_jobs jobs)) bi it = Some j" "applied (specToCronAdd (di_spec it) (di_id it) dd) j"
proof -
  let ?q = "specToCronAdd (di_spec it) (di_id it) dd"
  from assms obtain j where j: "j \<in> set jobs" "applied ?q j" and i: "di_id it \<noteq> []" "list_all is_alnum (di_id it)"
    and one: "length (filter (\<lambda>j. parseSentinel j = Some (di_id it)) jobs) = 1"
    by (auto simp: settled_def Let_def list_ex_iff)
  have p: "parseSentinel j = Some (di_id it)"
    using i j(2) by (intro parse_own_sentinel) (simp_all add: applied_def)
  then have "j \<in> set (filter (\<lambda>j. parseSentinel j = Some (di_id it)) jobs)" using j by simp
  with one have f: "filter (\<lambda>j. parseSentinel j = Some (di_id it)) jobs = [j]"
    by (cases "filter (\<lambda>j. parseSentinel j = Some (di_id it)) jobs") auto
  have o: "\<forall>j' \<in> set jobs. parseSentinel j' = Some (di_id it) \<longrightarrow> j' = j"
  proof (intro ballI impI)
    fix j' assume "j' \<in> set jobs" and "parseSentinel j' = Some (di_id it)"
    then have "j' \<in> set (filter (\<lambda>j. parseSentinel j = Some (di_id it)) jobs)" by simp
    then show "j' = j" unfolding f by simp
  qed
  have "existing_job (fst (index_jobs jobs)) bi it = Some j"
    by (simp add: existing_job_def index_only_job [OF j(1) p o])
  from that [OF this j(2)] show ?thesis .
qed

lemma settled_item_quiet:
  assumes "settled dd jobs it"
  shows "\<exists>m rs. reconcile_item R C dd (fst (index_jobs jobs)) bi it (managed, runs, w) = (managed @ [m], runs @ rs, w) \<and> mr_status m = Applied"
proof -
  from settled_job [OF assms] obtain j where e: "existing_job (fst (index_jobs jobs)) bi it = Some j"
    and ap: "applied (specToCronAdd (di_spec it) (di_id it) dd) j" .
  have "\<exists>q'. preserveEveryAnchor (specToCronAdd (di_spec it) (di_id it) dd) j = Some q' \<and> cronJobMatchesParams j q' = Some True"
    using assms ap by (intro applied_job_has_no_drift) (simp_all add: settled_def Let_def)
  then have "place_item C (specToCronAdd (di_spec it) (di_id it) dd) (di_id it) (Some j) w = (Inr (Some (j_id j), j_state j), w)"
    by (auto simp: place_item_def)
  moreover have "run_now C it job w = (obs, missed, w') \<Longrightarrow> missed = [] \<and> w' = w" for job obs missed w'
    using assms by (erule_tac run_now_cases) (auto simp: settled_def Let_def)
  moreover obtain obs missed w' where "run_now C it (Some (j_id j)) w = (obs, missed, w')" by (metis prod_cases3)
  ultimately show ?thesis using e assms
    by (auto simp: reconcile_item_def Let_def present_item_def settled_def split: option.splits)
qed

lemma settled_items_quiet:
  assumes "list_all (settled dd jobs) items"
  shows "\<exists>ms rs. foldl (\<lambda>p it. reconcile_item R C dd (fst (index_jobs jobs)) bi it p) (managed, runs, w) items = (managed @ ms, runs @ rs, w) \<and>
    list_all (\<lambda>m. mr_status m = Applied) ms"
  using assms
proof (induction items arbitrary: managed runs)
  case (Cons it items)
  from settled_item_quiet [of dd jobs it R C bi managed runs w] Cons.prems obtain m rs where
    a: "reconcile_item R C dd (fst (index_jobs jobs)) bi it (managed, runs, w) = (managed @ [m], runs @ rs, w)" "mr_status m = Applied" by auto
  from Cons.IH [of "managed @ [m]" "runs @ rs"] Cons.prems obtain ms rs' where
    b: "foldl (\<lambda>p it. reconcile_item R C dd (fst (index_jobs jobs)) bi it p) (managed @ [m], runs @ rs, w) items
        = ((managed @ [m]) @ ms, (runs @ rs) @ rs', w)" "list_all (\<lambda>m. mr_status m = Applied) ms" by auto
  show ?case using a b by (intro exI [of _ "m # ms"] exI [of _ "rs @ rs'"]) simp
qed simp

text \<open>
  A pass over a settled agent writes nothing: when each automation has one job and the gateway has
  taken its parameters into it, whatever anchor, stagger or further fields it filled in, the only call
  of the pass is the list, and every automation is reported as applied. The next runs of interval jobs
  are therefore never pushed on by the reconciler.
\<close>

theorem settled_pass_is_quiet:
  assumes "c_list C (w_gw w) = (Inr jobs, g)" and "list_all (settled (ownerChannelDelivery acc owner) jobs) items"
  shows "\<exists>rep. reconcileOnce R C acc owner (Inr items) w = (Inr rep, \<lparr>w_gw = g, w_calls = w_calls w @ [CallList]\<rparr>) \<and>
    list_all (\<lambda>m. mr_status m = Applied) (rp_managed rep)"
proof -
  let ?u = "\<lparr>w_gw = g, w_calls = w_calls w @ [CallList]\<rparr>"
  from settled_items_quiet [OF assms(2), of R C "snd (index_jobs jobs)" "[]" "[]" ?u] assms(1) show ?thesis
    by (auto simp: reconcileOnce_def calling_def Let_def split: prod.splits)
qed

text \<open>
  The report of a removal does not depend on it: an item whose removal is asked for is reported as
  removed with the current generation even when the gateway refused to remove its job.
\<close>

theorem removal_reported_though_refused:
  assumes "c_remove C (j_id j) (w_gw w) = (Inl e, g)" and "di_absent it" and "existing_job bs bi it = Some j"
  shows "\<exists>m. reconcile_item R C dd bs bi it (managed, runs, w)
      = (managed @ [m], runs, \<lparr>w_gw = g, w_calls = w_calls w @ [CallRemove (j_id j)]\<rparr>) \<and>
    mr_status m = Removed \<and> mr_gen m = di_gen it \<and> mr_error m = None"
  using assms by (simp add: reconcile_item_def absent_item_def calling_def Let_def)

section \<open>The registry of wakers\<close>

text \<open>Wakers by account, each a number that stands for the closure of one loop.\<close>

type_synonym wakers = "(string, nat list) jsmap"

definition registerWaker :: "string \<Rightarrow> nat \<Rightarrow> wakers \<Rightarrow> wakers" where
  "registerWaker a k m = mset_key a (sadd k (case mget m a of Some s \<Rightarrow> s | None \<Rightarrow> [])) m"

definition unregister :: "string \<Rightarrow> nat \<Rightarrow> wakers \<Rightarrow> wakers" where
  "unregister a k m =
     (case mget m a of
        None \<Rightarrow> m
      | Some s \<Rightarrow> (let s' = filter (\<lambda>x. x \<noteq> k) s in if s' = [] then mdel a m else mset_key a s' m))"

text \<open>The loops a wake reaches: those of one account, or all.\<close>

definition wakeAutomationsReconciler :: "string option \<Rightarrow> wakers \<Rightarrow> nat list" where
  "wakeAutomationsReconciler acc m =
     (case acc of
        Some (c # a) \<Rightarrow> (case mget m (c # a) of Some s \<Rightarrow> s | None \<Rightarrow> [])
      | _ \<Rightarrow> concat (map snd m))"

definition woken :: "wakers \<Rightarrow> string \<Rightarrow> nat list" where
  "woken m a = (case mget m a of Some s \<Rightarrow> s | None \<Rightarrow> [])"

lemma woken_register: "set (woken (registerWaker a k m) b) = (if b = a then insert k (set (woken m a)) else set (woken m b))"
  by (auto simp: woken_def registerWaker_def split: option.splits)

lemma woken_unregister: "set (woken (unregister a k m) b) = (if b = a then set (woken m a) - {k} else set (woken m b))"
  by (auto simp: woken_def unregister_def Let_def filter_empty_conv split: option.splits)

lemma woken_account: "a \<noteq> [] \<Longrightarrow> wakeAutomationsReconciler (Some a) m = woken m a"
  by (cases a) (simp_all add: wakeAutomationsReconciler_def woken_def)

text \<open>The loops running for an account, when each registers as it starts and unregisters as it ends.\<close>

datatype life = Starts string nat | Ends string nat

fun live :: "string \<Rightarrow> life list \<Rightarrow> nat set" where
  "live a [] = {}"
| "live a (Starts b k # ls) = (if b = a then insert k (live a ls) else live a ls)"
| "live a (Ends b k # ls) = (if b = a then live a ls - {k} else live a ls)"

definition live_step :: "wakers \<Rightarrow> life \<Rightarrow> wakers" where
  "live_step m l = (case l of Starts a k \<Rightarrow> registerWaker a k m | Ends a k \<Rightarrow> unregister a k m)"

text \<open>
  A wake for an account reaches exactly the loops of that account that have started and not ended,
  also while an old and a new loop of it overlap.
\<close>

theorem wake_reaches_live_loops:
  assumes "a \<noteq> []"
  shows "set (wakeAutomationsReconciler (Some a) (run live_step [] ls)) = live a (rev ls)"
proof -
  have "set (woken (run live_step [] ls) a) = live a (rev ls)"
  proof (induction ls rule: rev_induct)
    case (snoc l ls)
    then show ?case by (cases l) (simp_all add: live_step_def woken_register woken_unregister)
  qed (simp add: woken_def)
  then show ?thesis by (simp add: woken_account assms)
qed

section \<open>The loop\<close>

text \<open>
  One run of \<open>runAutomationsReconciler\<close>. \<open>AtTop\<close> is a turn of the loop that goes on without leaving
  the microtask queue: no event of another source can come before its next step. The trace records
  the wakes and the beginnings of passes. The handle is process-global and set from outside.
\<close>

datatype loop_phase = AtTop | InPass | Asleep | Stopped

datatype loop_mark = Woken | Begun

record rloop =
  lp_phase :: loop_phase
  lp_dirty :: bool
  lp_aborted :: bool
  lp_cron :: bool
  lp_trace :: "loop_mark list"

definition go_sleep :: "rloop \<Rightarrow> rloop" where
  "go_sleep l = l\<lparr>lp_phase := (if lp_aborted l \<or> lp_dirty l then AtTop else Asleep)\<rparr>"

definition loop_top :: "rloop \<Rightarrow> rloop" where
  "loop_top l =
     (if lp_aborted l then l\<lparr>lp_phase := Stopped\<rparr>
      else if \<not> lp_cron l then go_sleep l
      else l\<lparr>lp_phase := InPass, lp_dirty := False, lp_trace := lp_trace l @ [Begun]\<rparr>)"

definition pass_done :: "rloop \<Rightarrow> rloop" where
  "pass_done l = (if lp_dirty l \<and> \<not> lp_aborted l then l\<lparr>lp_phase := AtTop\<rparr> else go_sleep l)"

definition wake :: "rloop \<Rightarrow> rloop" where
  "wake l = l\<lparr>lp_dirty := True, lp_trace := lp_trace l @ [Woken],
     lp_phase := (if lp_phase l = Asleep then AtTop else lp_phase l)\<rparr>"

definition abort_loop :: "rloop \<Rightarrow> rloop" where
  "abort_loop l = l\<lparr>lp_aborted := True, lp_phase := (if lp_phase l = Asleep then AtTop else lp_phase l)\<rparr>"

text \<open>
  The steps: a turn at the top when the loop is there, and otherwise the end of the pass, the timer,
  a wake, an abort or a change of the handle.
\<close>

datatype loop_event = Turn | PassEnds | Timer | Wake | Abort | Handle bool

definition loop_step :: "rloop \<Rightarrow> loop_event \<Rightarrow> rloop" where
  "loop_step l e =
     (case e of
        Turn \<Rightarrow> if lp_phase l = AtTop then loop_top l else l
      | PassEnds \<Rightarrow> if lp_phase l = InPass then pass_done l else l
      | Timer \<Rightarrow> if lp_phase l = Asleep then l\<lparr>lp_phase := AtTop\<rparr> else l
      | Wake \<Rightarrow> if lp_phase l = Stopped then l else wake l
      | Abort \<Rightarrow> abort_loop l
      | Handle b \<Rightarrow> l\<lparr>lp_cron := b\<rparr>)"

definition loop_start :: "bool \<Rightarrow> rloop" where
  "loop_start c = \<lparr>lp_phase = AtTop, lp_dirty = False, lp_aborted = False, lp_cron = c, lp_trace = []\<rparr>"

text \<open>Every wake of a trace has a pass that began after it.\<close>

definition answered :: "loop_mark list \<Rightarrow> bool" where
  "answered t = (Woken \<notin> set (takeWhile (\<lambda>m. m \<noteq> Begun) (rev t)))"

lemma answered_simps [simp]: "answered []" "answered (t @ [Begun])"
  by (simp_all add: answered_def)

definition loop_good :: "rloop \<Rightarrow> bool" where
  "loop_good l \<longleftrightarrow> (\<not> lp_dirty l \<longrightarrow> answered (lp_trace l)) \<and> (lp_phase l = Asleep \<longrightarrow> \<not> lp_dirty l)"

interpretation rloop: transition_system "loop_start c" loop_step loop_good
proof
  show "loop_good (loop_start c)" by (simp add: loop_good_def loop_start_def)
  fix l e
  show "loop_good l \<Longrightarrow> loop_good (loop_step l e)"
    by (cases e) (auto simp: loop_good_def loop_step_def loop_top_def go_sleep_def pass_done_def wake_def
        abort_loop_def)
qed

text \<open>
  C9: No wake is lost: whatever the order of wakes, passes, timers, aborts and changes of the handle,
  a loop that sleeps has begun a pass after the last wake it got.
\<close>

theorem no_wake_is_lost:
  assumes "lp_phase (run loop_step (loop_start c) es) = Asleep"
  shows "answered (lp_trace (run loop_step (loop_start c) es))"
  using assms rloop.good_run [of c es] by (simp add: loop_good_def)

text \<open>
  A loop without a handle that has been woken never sleeps again: it turns at the top for ever,
  without leaving the microtask queue, because only a pass clears the mark of the wake.
\<close>

theorem woken_without_handle_spins:
  assumes "lp_phase l = Asleep" and "\<not> lp_cron l" and "\<not> lp_aborted l"
  shows "lp_phase ((loop_top ^^ n) (wake l)) = AtTop \<and> lp_trace ((loop_top ^^ n) (wake l)) = lp_trace l @ [Woken]"
proof -
  have "(loop_top ^^ n) (wake l) = wake l"
  proof (induction n)
    case (Suc n)
    have "loop_top (wake l) = wake l"
      using assms by (simp add: loop_top_def go_sleep_def wake_def)
    with Suc show ?case by simp
  qed simp
  with assms show ?thesis by (auto simp: wake_def)
qed

section \<open>Examples\<close>

definition demo_gateway :: "nat cron" where
  "demo_gateway = \<lparr>c_list = (\<lambda>g. (Inr [demo_job], g)), c_add = (\<lambda>q g. (Inl ''full'', g)), c_update = (\<lambda>i q g. (Inr JUndef, g)),
     c_remove = (\<lambda>i g. (Inl ''busy'', g)), c_run = (\<lambda>i g. (Inr (JObj [(''ok'', JBool True), (''ran'', JBool True)]), Suc g)),
     c_now = (\<lambda>g. Fin 0)\<rparr>"

definition demo_runtime :: runtime where
  "demo_runtime = \<lparr>fmt_num = (\<lambda>q. []), date_parse = (\<lambda>s. None)\<rparr>"

definition demo_world :: "nat world" where
  "demo_world = \<lparr>w_gw = 0, w_calls = []\<rparr>"

definition demo_item :: "string \<Rightarrow> bool \<Rightarrow> int \<Rightarrow> desired_item" where
  "demo_item i absent requested = \<lparr>di_id = i, di_job = None, di_gen = 4, di_absent = absent, di_spec = demo_spec,
     di_run_requested = Some requested, di_run_observed = None\<rparr>"

definition demo_owner :: string where
  "demo_owner = ''01234567-89ab-4cde-8f01-23456789abcd''"

definition demo_items :: "desired_item list" where
  "demo_items = [demo_item ''b2'' False 0, demo_item ''a1'' False 3, demo_item ''c3'' True 0]"

lemma pass_answers_every_item_witness:
  "\<exists>rep w'. reconcileOnce demo_runtime demo_gateway ''acc'' None (Inr demo_items) demo_world = (Inr rep, w') \<and>
     list_all2 answers (filter reportable demo_items) (rp_managed rep) \<and> runs_made w' \<le> 1"
proof -
  obtain r w' where e: "reconcileOnce demo_runtime demo_gateway ''acc'' None (Inr demo_items) demo_world = (r, w')" by fastforce
  moreover have "\<exists>rep. r = Inr rep"
    using e by (auto simp: reconcileOnce_def calling_def demo_gateway_def demo_world_def Let_def split: prod.splits)
  then obtain rep where "r = Inr rep" by blast
  ultimately have e': "reconcileOnce demo_runtime demo_gateway ''acc'' None (Inr demo_items) demo_world = (Inr rep, w')" by simp
  have "length (filter (\<lambda>it. reportable it \<and> \<not> di_absent it \<and> run_asked it) demo_items) = 1"
    by (simp add: demo_items_def demo_item_def reportable_def run_asked_def generation_def demo_spec_def)
  moreover have "runs_made demo_world = 0" by (simp add: demo_world_def runs_made_def)
  ultimately show ?thesis using pass_answers_every_item [OF e'] e' by auto
qed

definition settled_job_demo :: cron_job where
  "settled_job_demo = demo_job\<lparr>j_delivery := JObj [(''mode'', JStr ''announce''), (''channel'', JStr ''clawbits''),
     (''to'', JStr ''ops''), (''accountId'', JStr ''acc'')]\<rparr>"

definition settled_gateway :: "nat cron" where
  "settled_gateway = demo_gateway\<lparr>c_list := (\<lambda>g. (Inr [settled_job_demo], g))\<rparr>"

lemma is_channel_id_demo: "is_channel_id demo_owner"
  by code_simp

lemma demo_delivery: "ownerChannelDelivery ''acc'' (Some demo_owner) = Some (JObj [(''mode'', JStr ''announce''),
    (''channel'', JStr ''clawbits''), (''to'', JStr demo_owner), (''accountId'', JStr ''acc'')])"
proof -
  have "trim demo_owner = demo_owner" by code_simp
  moreover have "demo_owner \<noteq> []" by (simp add: demo_owner_def)
  ultimately show ?thesis using is_channel_id_demo by (simp add: ownerChannelDelivery_def)
qed

lemma demo_settled: "settled (ownerChannelDelivery ''acc'' (Some demo_owner)) [settled_job_demo] (demo_item ''a1'' False 0)"
proof -
  have "parseSentinel settled_job_demo = Some ''a1''" by code_simp
  moreover have "list_all is_alnum ''a1''" by code_simp
  ultimately show ?thesis
    by (simp add: settled_def demo_delivery demo_item_def run_asked_def generation_def settled_job_demo_def demo_cron
        applied_def schedule_stored_def schedule_authored_def carries_def)
qed

lemma settled_pass_is_quiet_witness:
  "\<exists>rep. reconcileOnce demo_runtime settled_gateway ''acc'' (Some demo_owner) (Inr [demo_item ''a1'' False 0]) demo_world
    = (Inr rep, \<lparr>w_gw = 0, w_calls = [CallList]\<rparr>)"
proof -
  have "list_all (settled (ownerChannelDelivery ''acc'' (Some demo_owner)) [settled_job_demo]) [demo_item ''a1'' False 0]"
    using demo_settled by simp
  then show ?thesis
    using settled_pass_is_quiet [of settled_gateway demo_world "[settled_job_demo]" 0 "''acc''" "Some demo_owner" "[demo_item ''a1'' False 0]" demo_runtime]
    by (auto simp: settled_gateway_def demo_world_def)
qed

lemma removal_reported_though_refused_witness:
  "\<exists>m. reconcile_item demo_runtime demo_gateway None [(''a1'', demo_job)] [] (demo_item ''a1'' True 0) ([], [], demo_world)
      = ([m], [], \<lparr>w_gw = 0, w_calls = [CallRemove ''job-1'']\<rparr>) \<and> mr_status m = Removed"
  using removal_reported_though_refused [of demo_gateway demo_job demo_world "''busy''" 0 "demo_item ''a1'' True 0"
      "[(''a1'', demo_job)]" "[]" demo_runtime None "[]" "[]"]
  by (auto simp: demo_gateway_def demo_item_def existing_job_def demo_world_def demo_job_def)

lemma no_wake_is_lost_witness:
  "answered (lp_trace (run loop_step (loop_start True) [Turn, Wake, PassEnds, Turn, PassEnds]))"
  by (rule no_wake_is_lost) (simp add: loop_start_def loop_step_def loop_top_def wake_def pass_done_def go_sleep_def)

lemma woken_without_handle_spins_witness:
  "lp_phase ((loop_top ^^ 1000) (wake (loop_step (loop_start False) Turn))) = AtTop"
  using woken_without_handle_spins [of "loop_step (loop_start False) Turn" 1000]
  by (simp add: loop_start_def loop_step_def loop_top_def go_sleep_def)

lemma wake_reaches_live_loops_witness:
  "set (wakeAutomationsReconciler (Some ''a'') (run live_step [] [Starts ''a'' 1, Starts ''a'' 2, Starts ''b'' 3, Ends ''a'' 1])) = {2}"
  by (subst wake_reaches_live_loops) auto

end
