(* ===== verification/Game_Sessions.thy ===== *)
theory Game_Sessions
  imports Game_Guards Model_Choice
begin

text \<open>
  The life of a game's sessions (\<open>plugin/src/widgets/session.ts\<close>, second half): when a session rotates
  into the next generation, which generation a move runs in, and how the sessions of a game are
  deleted. The host's session store is a record of functions over its own state; the reset policy and
  the size of a transcript are answers of the host.
\<close>

section \<open>Stored sessions\<close>

record game_entry = session_entry +
  ge_sessionId :: "string option"
  ge_sessionFile :: "string option"
  ge_family :: "string option list"
  ge_totalTokens :: jsval
  ge_totalTokensFresh :: jsval
  ge_totalTokensVersion :: jsval
  ge_contextTokens :: jsval
  ge_model :: "string option"
  ge_compactionCount :: "jsnum option"
  ge_memoryFlush :: jsval
  ge_memoryFlushCompactionCount :: jsval

record stored =
  st_key :: string
  st_widget :: string
  st_gen :: nat
  st_entry :: game_entry

datatype store_kind = Sqlite | FileStore

record sdk =
  has_cleanup :: bool
  has_deleteSessionEntry :: bool
  has_updateSessionStore :: bool
  has_resolveStorePath :: bool

definition storeKind :: "sdk \<Rightarrow> store_kind option" where
  "storeKind k =
     (if has_cleanup k \<and> has_deleteSessionEntry k then Some Sqlite
      else if has_updateSessionStore k \<and> has_resolveStorePath k then Some FileStore
      else None)"

definition listGameSessions :: "(string \<times> game_entry) list option \<Rightarrow> stored list option" where
  "listGameSessions rows =
     map_option (List.map_filter (\<lambda>(key, entry).
       map_option (\<lambda>(w, g). \<lparr>st_key = key, st_widget = w, st_gen = g, st_entry = entry\<rparr>) (gameSessionOf (Some key)))) rows"

definition listGameSessionGenerations :: "stored list option \<Rightarrow> (string, nat list) jsmap option" where
  "listGameSessionGenerations listed =
     map_option (foldl (\<lambda>games x. mset_key (st_widget x)
       ((case mget games (st_widget x) of Some gs \<Rightarrow> gs | None \<Rightarrow> []) @ [st_gen x]) games) []) listed"

section \<open>When a session rotates\<close>

definition DEFAULT_RESERVE_TOKENS :: int where "DEFAULT_RESERVE_TOKENS = 20000"
definition DEFAULT_SOFT_TOKENS :: int where "DEFAULT_SOFT_TOKENS = 4000"
definition DEFAULT_FORCE_FLUSH_BYTES :: int where "DEFAULT_FORCE_FLUSH_BYTES = 2 * 1024 * 1024"
definition ROTATE_TRANSCRIPT_BYTES :: int where "ROTATE_TRANSCRIPT_BYTES = 1024 * 1024"
definition UNMEASURED_MOVES_PER_SESSION :: nat where "UNMEASURED_MOVES_PER_SESSION = 10"

record usage =
  us_totalTokens :: jsval
  us_totalTokensFresh :: jsval
  us_totalTokensVersion :: jsval
  us_tokensVersioned :: bool
  us_contextTokens :: jsval
  us_modelChanged :: "bool option"
  us_compactionCount :: "jsnum option"
  us_flushed :: bool
  us_transcriptBytes :: "int option"
  us_resetDue :: bool

definition positiveNumber :: "jsval \<Rightarrow> int option" where
  "positiveNumber v = (case as_finite v of Some q \<Rightarrow> if 0 < q then Some \<lfloor>q\<rfloor> else None | None \<Rightarrow> None)"

definition BYTE_UNITS :: "(string \<times> int) list" where
  "BYTE_UNITS = [(''b'', 1), (''k'', 1024), (''kb'', 1024), (''m'', 1024 ^ 2), (''mb'', 1024 ^ 2), (''g'', 1024 ^ 3), (''gb'', 1024 ^ 3)]"

text \<open>\<open>/^(\d+(?:\.\d+)?)([a-z]+)?$/\<close>: the numeral and the unit.\<close>

definition size_parts :: "string \<Rightarrow> (string \<times> string option) option" where
  "size_parts s =
     (let ds = takeWhile is_digit s; r = dropWhile is_digit s;
          (frac, r') = (case r of
              c # r1 \<Rightarrow> if c = CHR ''.'' \<and> takeWhile is_digit r1 \<noteq> [] then (c # takeWhile is_digit r1, dropWhile is_digit r1) else ([], r)
            | [] \<Rightarrow> ([], []))
      in if ds = [] \<or> \<not> list_all is_lower r' then None
         else Some (ds @ frac, if r' = [] then None else Some r'))"

definition byteSize :: "jsval \<Rightarrow> int option" where
  "byteSize v =
     (case as_str v of
        None \<Rightarrow> positiveNumber v
      | Some s \<Rightarrow>
         (case size_parts (lower (trim s)) of
            None \<Rightarrow> None
          | Some (n, u) \<Rightarrow>
             (case map_of BYTE_UNITS (case u of Some x \<Rightarrow> x | None \<Rightarrow> ''b'') of
                None \<Rightarrow> None
              | Some unit \<Rightarrow> (case js_number n of Fin q \<Rightarrow> positiveNumber (JNum (Fin (q * of_int unit))) | _ \<Rightarrow> None))))"

record flush_settings =
  fs_reserve :: int
  fs_soft :: int
  fs_force :: int

definition flushSettings :: "jsval \<Rightarrow> flush_settings" where
  "flushSettings cfg =
     (let compaction = jget (jget (jget cfg ''agents'') ''defaults'') ''compaction'';
          soft = jget (jget compaction ''memoryFlush'') ''softThresholdTokens''
      in \<lparr>fs_reserve = (case positiveNumber (jget compaction ''reserveTokensFloor'') of Some n \<Rightarrow> n | None \<Rightarrow> DEFAULT_RESERVE_TOKENS),
          fs_soft = (case as_finite soft of Some q \<Rightarrow> if 0 \<le> q then \<lfloor>q\<rfloor> else DEFAULT_SOFT_TOKENS | None \<Rightarrow> DEFAULT_SOFT_TOKENS),
          fs_force = (case byteSize (jget (jget compaction ''memoryFlush'') ''forceFlushTranscriptBytes'') of
              Some n \<Rightarrow> n | None \<Rightarrow> DEFAULT_FORCE_FLUSH_BYTES)\<rparr>)"

text \<open>The two thresholds of the host's flush, of the versions from and before 2026.9.3.\<close>

definition flush_at :: "int \<Rightarrow> jsval \<Rightarrow> int" where
  "flush_at ctx cfg =
     (let reserve = min DEFAULT_RESERVE_TOKENS (ctx div 4)
      in max 0 (ctx - reserve) - min (fs_soft (flushSettings cfg)) ((ctx - reserve) div 2))"

definition flush_at_before :: "int \<Rightarrow> jsval \<Rightarrow> int" where
  "flush_at_before ctx cfg = ctx - fs_reserve (flushSettings cfg) - fs_soft (flushSettings cfg)"

definition rotationTokenLimit :: "int \<Rightarrow> jsval \<Rightarrow> int" where
  "rotationTokenLimit ctx cfg =
     (let margin = max 8000 (ctx div 10)
      in min (ctx * 6 div 10) (min (flush_at ctx cfg) (flush_at_before ctx cfg) - margin))"

definition fresh_tokens :: "usage \<Rightarrow> int option" where
  "fresh_tokens u =
     (if us_totalTokensFresh u = JBool True \<and>
         (strict_prim (us_totalTokensVersion u) (jint 1) \<or> (us_totalTokensVersion u = JUndef \<and> \<not> us_tokensVersioned u))
      then positiveNumber (us_totalTokens u) else None)"

definition ceil_div :: "nat \<Rightarrow> nat \<Rightarrow> nat" where
  "ceil_div n d = (n + d - 1) div d"

definition gameRotationReason :: "usage option \<Rightarrow> nat option \<Rightarrow> nat \<Rightarrow> jsval \<Rightarrow> string option" where
  "gameRotationReason u moves briefChars cfg =
     (let is = (\<lambda>f. case u of Some x \<Rightarrow> f x | None \<Rightarrow> False);
          byteLimit = min ROTATE_TRANSCRIPT_BYTES (fs_force (flushSettings cfg) div 2)
      in if is us_resetDue then Some ''a session reset is due''
         else if is us_flushed then Some ''a memory flush ran''
         else if is (\<lambda>x. case us_compactionCount x of Some n \<Rightarrow> num_positive n | None \<Rightarrow> False) then Some ''compacted''
         else if is (\<lambda>x. us_modelChanged x = Some True) then Some ''the model changed''
         else if is (\<lambda>x. case us_transcriptBytes x of Some b \<Rightarrow> byteLimit \<le> b | None \<Rightarrow> False) then Some ''transcript size''
         else case (case u of Some x \<Rightarrow> (positiveNumber (us_contextTokens x), fresh_tokens x) | None \<Rightarrow> (None, None)) of
             (Some ctx, Some tokens) \<Rightarrow>
               if rotationTokenLimit ctx cfg \<le> tokens + int (ceil_div briefChars 3) then Some ''near the memory flush'' else None
           | _ \<Rightarrow>
               (case moves of
                  None \<Rightarrow> Some ''size unmeasured''
                | Some n \<Rightarrow> if UNMEASURED_MOVES_PER_SESSION \<le> n then Some ''size unmeasured'' else None))"

lemma below_margin: "min a (b - max 8000 m) + 8000 \<le> b" for a b m :: int
  by (simp add: min_def max_def)

lemma rotationTokenLimit_bounds:
  "rotationTokenLimit ctx cfg \<le> ctx * 6 div 10"
  "rotationTokenLimit ctx cfg + 8000 \<le> min (flush_at ctx cfg) (flush_at_before ctx cfg)"
  unfolding rotationTokenLimit_def Let_def by (rule min.cobounded1) (rule below_margin)

lemma kept_last_case:
  assumes "gameRotationReason (Some u) moves briefChars cfg = None"
  shows "(case (positiveNumber (us_contextTokens u), fresh_tokens u) of
      (Some ctx, Some tokens) \<Rightarrow> tokens + int (ceil_div briefChars 3) < rotationTokenLimit ctx cfg
    | _ \<Rightarrow> (case moves of Some n \<Rightarrow> n < UNMEASURED_MOVES_PER_SESSION | None \<Rightarrow> False))"
proof -
  from assms have "(case (positiveNumber (us_contextTokens u), fresh_tokens u) of
      (Some ctx, Some tokens) \<Rightarrow>
        if rotationTokenLimit ctx cfg \<le> tokens + int (ceil_div briefChars 3) then Some ''near the memory flush'' else None
    | _ \<Rightarrow> (case moves of
          None \<Rightarrow> Some ''size unmeasured''
        | Some n \<Rightarrow> if UNMEASURED_MOVES_PER_SESSION \<le> n then Some ''size unmeasured'' else None)) = None"
    unfolding gameRotationReason_def Let_def by (auto split: if_split_asm)
  then show ?thesis by (auto split: option.splits if_split_asm)
qed

text \<open>
  A session kept for its next move stays below the host's memory flush: when its prompt is measured,
  the prompt with the brief and a margin of eight thousand tokens is below the flush thresholds of the
  old and the new host and below six tenths of its window; when it is not, the session has taken fewer
  than ten moves.
\<close>

theorem kept_session_below_flush:
  assumes "gameRotationReason (Some u) moves briefChars cfg = None"
  shows "case (positiveNumber (us_contextTokens u), fresh_tokens u) of
      (Some ctx, Some tokens) \<Rightarrow>
        tokens + int (ceil_div briefChars 3) + 8000 < min (flush_at ctx cfg) (flush_at_before ctx cfg) \<and>
        tokens + int (ceil_div briefChars 3) < ctx * 6 div 10
    | _ \<Rightarrow> (case moves of Some n \<Rightarrow> n < 10 | None \<Rightarrow> False)"
proof (cases "positiveNumber (us_contextTokens u)"; cases "fresh_tokens u")
  fix ctx tokens
  assume c: "positiveNumber (us_contextTokens u) = Some ctx" and t: "fresh_tokens u = Some tokens"
  with kept_last_case [OF assms] have "tokens + int (ceil_div briefChars 3) < rotationTokenLimit ctx cfg" by simp
  with rotationTokenLimit_bounds [of ctx cfg] show ?thesis unfolding c t by auto
qed (use kept_last_case [OF assms] in \<open>auto simp: UNMEASURED_MOVES_PER_SESSION_def split: option.splits\<close>)

definition demo_usage :: usage where
  "demo_usage = \<lparr>us_totalTokens = jint 30000, us_totalTokensFresh = JBool True, us_totalTokensVersion = jint 1, us_tokensVersioned = True,
     us_contextTokens = jint 200000, us_modelChanged = Some False, us_compactionCount = None, us_flushed = False,
     us_transcriptBytes = Some 40000, us_resetDue = False\<rparr>"

lemma demo_flushSettings: "flushSettings JUndef = \<lparr>fs_reserve = 20000, fs_soft = 4000, fs_force = 2097152\<rparr>"
  by (simp add: flushSettings_def positiveNumber_def byteSize_def DEFAULT_RESERVE_TOKENS_def DEFAULT_SOFT_TOKENS_def DEFAULT_FORCE_FLUSH_BYTES_def)

lemma kept_session_below_flush_witness:
  "30000 + int (ceil_div 900 3) + 8000 < min (flush_at 200000 JUndef) (flush_at_before 200000 JUndef)"
proof -
  have e: "positiveNumber (us_contextTokens demo_usage) = Some 200000" "fresh_tokens demo_usage = Some 30000"
    by (simp_all add: demo_usage_def fresh_tokens_def positiveNumber_def num_eq_def)
  have "gameRotationReason (Some demo_usage) None 900 JUndef = None"
    by (simp add: gameRotationReason_def Let_def e) (simp add: demo_usage_def demo_flushSettings rotationTokenLimit_def flush_at_def
        flush_at_before_def ceil_div_def ROTATE_TRANSCRIPT_BYTES_def DEFAULT_RESERVE_TOKENS_def)
  from kept_session_below_flush [OF this] show ?thesis unfolding e by simp
qed

section \<open>The model of the next move\<close>

definition model_ref :: "string option \<Rightarrow> string \<Rightarrow> string" where
  "model_ref provider model =
     (let i = lower (trim model) in
      case map_option (lower \<circ> trim) provider of
        Some p \<Rightarrow> if p \<noteq> [] \<and> \<not> starts_with i (p @ ''/'') then p @ ''/'' @ i else i
      | None \<Rightarrow> i)"

definition sameModel :: "string option \<times> string \<Rightarrow> string \<times> string \<Rightarrow> bool" where
  "sameModel prev coming =
     (let nextRef = model_ref (Some (fst coming)) (snd coming) in
      case map_option trim (fst prev) of
        Some (c # p) \<Rightarrow> model_ref (fst prev) (snd prev) = nextRef
      | _ \<Rightarrow> lower (trim (snd prev)) \<in> {nextRef, lower (trim (snd coming))})"

text \<open>
  \<open>resolve\<close> is the host's resolver applied to the live configuration, absent when either is missing;
  its result is absent when it throws.
\<close>

definition modelChanged ::
  "game_entry \<Rightarrow> model_choice option \<Rightarrow> (game_entry \<Rightarrow> (string \<times> string) option) option \<Rightarrow> bool option" where
  "modelChanged e choice resolve =
     (case map_option trim (ge_model e) of
        Some (c # m) \<Rightarrow>
          (let prev = (if modelProvider e = Some [] then None else modelProvider e, the (ge_model e));
               patch = (case choice of
                   None \<Rightarrow> None
                 | Some ch \<Rightarrow> (case planSessionPatch (Some (session_entry.truncate e)) ch of None \<Rightarrow> None | Some p \<Rightarrow> p_model p))
           in case patch of
                Some (Some ref) \<Rightarrow>
                  (let slash = index_of ref ''/'' in
                   Some (\<not> sameModel prev (case slash of Some i \<Rightarrow> (take i ref, drop (Suc i) ref) | None \<Rightarrow> ([], ref))))
              | _ \<Rightarrow>
                 (case resolve of
                    None \<Rightarrow> None
                  | Some f \<Rightarrow>
                     (let coming = (if patch = Some None
                          then e\<lparr>providerOverride := None, modelOverride := None, fallbackProvider := None, fallbackModel := None\<rparr> else e)
                      in map_option (\<lambda>n. \<not> sameModel prev n) (f coming))))
      | _ \<Rightarrow> None)"

section \<open>The store and the module's state\<close>

record 's store =
  gs_kind :: "store_kind option"
  gs_list :: "string option \<Rightarrow> 's \<Rightarrow> stored list option"
  gs_cleanup :: "string option \<Rightarrow> string \<Rightarrow> 's \<Rightarrow> (string + nat) \<times> 's"
  gs_readdir :: "'s \<Rightarrow> (string + string list) \<times> 's"
  gs_rm :: "string \<Rightarrow> 's \<Rightarrow> (string + unit) \<times> 's"
  gs_update :: "string list \<Rightarrow> 's \<Rightarrow> (string + string list) \<times> 's"
  gs_dir :: "string option \<Rightarrow> string"
  gs_usage :: "stored \<Rightarrow> model_choice option \<Rightarrow> 's \<Rightarrow> usage"

record game_state =
  gm_runs :: game_runs
  generations :: "(string, nat \<times> nat option) jsmap"
  failureLogged :: "string list"

definition baseSessionKey :: "string \<Rightarrow> string" where
  "baseSessionKey key = (case GAME_GENERATION (lower key) of Some (w, _) \<Rightarrow> w | None \<Rightarrow> lower key)"

definition noteGameMove :: "string \<Rightarrow> game_state \<Rightarrow> game_state" where
  "noteGameMove key m =
     (case gameSessionOf (Some key) of
        None \<Rightarrow> m
      | Some (w, g) \<Rightarrow>
         (case mget (generations m) (baseSessionKey key) of
            Some (gen, Some n) \<Rightarrow>
              if gen = g then m\<lparr>generations := mset_key (baseSessionKey key) (gen, Some (Suc n)) (generations m)\<rparr> else m
          | _ \<Rightarrow> m))"

definition keySegment :: "string \<Rightarrow> string" where
  "keySegment key =
     (let k = lower key in
      case index_of k '':'' of
        None \<Rightarrow> k
      | Some i \<Rightarrow> (case index_of (drop (Suc i) k) '':'' of None \<Rightarrow> k | Some j \<Rightarrow> drop (Suc j) (drop (Suc i) k)))"

definition transcriptIds :: "game_entry \<Rightarrow> string list" where
  "transcriptIds e = filter (\<lambda>i. trim i \<noteq> []) (List.map_filter id (ge_sessionId e # ge_family e))"

definition is_hex_char :: "char \<Rightarrow> bool" where
  "is_hex_char c = (hex_val c \<noteq> None)"

definition UUID :: "string \<Rightarrow> bool" where
  "UUID s = (length s = 36 \<and>
     list_all (\<lambda>i. if i \<in> set [8, 13, 18, 23] then s ! i = CHR ''-'' else is_hex_char (s ! i)) [0..<36])"

text \<open>A pattern in which \<open>9\<close> stands for a digit.\<close>

definition matches_digits :: "string \<Rightarrow> string \<Rightarrow> bool" where
  "matches_digits pat s = list_all2 (\<lambda>p c. if p = CHR ''9'' then is_digit c else p = c) pat s"

definition ARCHIVE_SUFFIX :: "string \<Rightarrow> bool" where
  "ARCHIVE_SUFFIX s =
     list_ex (\<lambda>pre. starts_with s (pre @ ''.'') \<and>
       (matches_digits ''9999-99-99T99-99-99Z'' (drop (length pre + 1) s) \<or>
        matches_digits ''9999-99-99T99-99-99.999Z'' (drop (length pre + 1) s))) [''reset'', ''deleted'', ''bak'']"

definition isTranscriptFile :: "string \<Rightarrow> string \<Rightarrow> bool" where
  "isTranscriptFile name i =
     (if UUID i then starts_with name (i @ ''.'') \<or> starts_with name (i @ ''-topic-'')
      else let transcript = i @ ''.jsonl'' in
        name = transcript \<or> (starts_with name (transcript @ ''.'') \<and> ARCHIVE_SUFFIX (drop (length transcript + 1) name)))"

section \<open>Deletion\<close>

datatype deletion = Deleted | NoSession | Busy | Kept

definition agent_for :: "string option \<Rightarrow> string \<Rightarrow> string option" where
  "agent_for agentId key = (case agentId of Some a \<Rightarrow> Some a | None \<Rightarrow> sessionAgentId key)"

text \<open>One cleanup for each group of sessions; the sessions it leaves.\<close>

fun sqlite_groups :: "'s store \<Rightarrow> string option \<Rightarrow> (string \<times> stored list) list \<Rightarrow> stored list \<Rightarrow> 's
    \<Rightarrow> (string + stored list) \<times> 's" where
  "sqlite_groups E agentId [] listed s = (Inr [], s)"
| "sqlite_groups E agentId ((prefix, grp) # gs) listed s =
     (if list_ex (\<lambda>x. starts_with (keySegment (st_key x)) prefix \<and> x \<notin> set grp) listed
      then (case sqlite_groups E agentId gs listed s of
          (Inl e, s') \<Rightarrow> (Inl e, s') | (Inr kept, s') \<Rightarrow> (Inr (grp @ kept), s'))
      else (case gs_cleanup E (agent_for agentId (st_key (hd grp))) prefix s of
          (Inl e, s') \<Rightarrow> (Inl e, s')
        | (Inr removed, s') \<Rightarrow>
            (case sqlite_groups E agentId gs listed s' of
               (Inl e, s'') \<Rightarrow> (Inl e, s'')
             | (Inr kept, s'') \<Rightarrow> (Inr ((if removed < length grp then grp else []) @ kept), s''))))"

definition deletion_groups :: "nat list option \<Rightarrow> stored list \<Rightarrow> (string \<times> stored list) list" where
  "deletion_groups gens targets =
     (case gens of
        Some _ \<Rightarrow> map (\<lambda>x. (keySegment (st_key x), [x])) targets
      | None \<Rightarrow> (case targets of [] \<Rightarrow> [] | x # _ \<Rightarrow> [(keySegment (baseSessionKey (st_key x)), targets)]))"

definition deleteFromSqlite :: "'s store \<Rightarrow> string option \<Rightarrow> nat list option \<Rightarrow> stored list \<Rightarrow> stored list \<Rightarrow> 's
    \<Rightarrow> (string + stored list) \<times> 's" where
  "deleteFromSqlite E agentId gens targets listed s =
     sqlite_groups E agentId (deletion_groups gens targets) listed s"

text \<open>The segments of \<open>path.resolve(dir, file)\<close>, for an absolute directory.\<close>

definition path_segments :: "string \<Rightarrow> string list" where
  "path_segments p = foldl (\<lambda>segs x. if x = [] \<or> x = ''.'' then segs else if x = ''..'' then butlast segs else segs @ [x]) [] (split_on CHR ''/'' p)"

definition resolve_segments :: "string \<Rightarrow> string \<Rightarrow> string list" where
  "resolve_segments dir file = path_segments (if starts_with file ''/'' then file else dir @ ''/'' @ file)"

text \<open>The names in the sessions directory that a session's entry names as its file.\<close>

definition named_files :: "string \<Rightarrow> stored list \<Rightarrow> string list" where
  "named_files dir targets =
     List.map_filter (\<lambda>x. case map_option trim (ge_sessionFile (st_entry x)) of
        Some (c # f) \<Rightarrow>
          (let segs = resolve_segments dir (c # f) in
           if segs \<noteq> [] \<and> butlast segs = path_segments dir then Some (last segs) else None)
      | _ \<Rightarrow> None) targets"

fun rm_files :: "'s store \<Rightarrow> (string \<Rightarrow> bool) \<Rightarrow> string list \<Rightarrow> 's \<Rightarrow> (string + unit) \<times> 's" where
  "rm_files E doomed [] s = (Inr (), s)"
| "rm_files E doomed (n # ns) s =
     (if doomed n then (case gs_rm E n s of (Inl e, s') \<Rightarrow> (Inl e, s') | (Inr _, s') \<Rightarrow> rm_files E doomed ns s')
      else rm_files E doomed ns s)"

definition deleteFromFiles :: "'s store \<Rightarrow> string option \<Rightarrow> stored list \<Rightarrow> 's \<Rightarrow> (string + stored list) \<times> 's" where
  "deleteFromFiles E agentId targets s =
     (let dir = gs_dir E (case targets of x # _ \<Rightarrow> agent_for agentId (st_key x) | [] \<Rightarrow> agentId);
          ids = concat (map (\<lambda>x. transcriptIds (st_entry x)) targets);
          named = named_files dir targets
      in case gs_readdir E s of
           (Inl e, s1) \<Rightarrow> (Inl e, s1)
         | (Inr names, s1) \<Rightarrow>
            (case rm_files E (\<lambda>n. n \<in> set named \<or> list_ex (isTranscriptFile n) ids) names s1 of
               (Inl e, s2) \<Rightarrow> (Inl e, s2)
             | (Inr _, s2) \<Rightarrow>
                (case gs_update E (map st_key targets) s2 of
                   (Inl e, s3) \<Rightarrow> (Inl e, s3)
                 | (Inr removed, s3) \<Rightarrow> (Inr (filter (\<lambda>x. st_key x \<notin> set removed) targets), s3))))"

fun any_busy :: "int \<Rightarrow> stored list \<Rightarrow> game_runs \<Rightarrow> bool \<times> game_runs" where
  "any_busy now [] r = (False, r)"
| "any_busy now (x # xs) r =
     (case gameSessionBusy now (st_key x) r of (True, r') \<Rightarrow> (True, r') | (False, r') \<Rightarrow> any_busy now xs r')"

definition IN_FLIGHT :: "string \<Rightarrow> bool" where
  "IN_FLIGHT m = (str_includes (lower m) ''competing work'' \<or> str_includes (lower m) ''in flight'')"

text \<open>The sessions a deletion is for, widened to the whole game where one generation can't go alone.\<close>

definition deletion_targets :: "'s store \<Rightarrow> string \<Rightarrow> nat list option \<Rightarrow> bool \<Rightarrow> stored list \<Rightarrow> stored list \<times> nat list option" where
  "deletion_targets E widgetId gens orWhole listed =
     (let game = filter (\<lambda>x. lower (st_widget x) = lower widgetId) listed;
          targets = filter (\<lambda>x. case gens of None \<Rightarrow> True | Some gs \<Rightarrow> st_gen x \<in> set gs) game
      in if targets \<noteq> [] \<and> gens \<noteq> None \<and> orWhole \<and> gs_kind E = Some Sqlite \<and>
            list_ex (\<lambda>t. list_ex (\<lambda>x. x \<notin> set targets \<and> starts_with (keySegment (st_key x)) (keySegment (st_key t))) game) targets
         then (game, None) else (targets, gens))"

definition settle_deletion :: "stored list \<Rightarrow> nat list option \<Rightarrow> stored list \<Rightarrow> game_state \<Rightarrow> deletion \<times> game_state" where
  "settle_deletion targets gens kept m =
     (let gone = filter (\<lambda>x. x \<notin> set kept) targets;
          m1 = m\<lparr>failureLogged := filter (\<lambda>k. k \<notin> st_key ` set gone) (failureLogged m),
                 generations := (if gens = None then foldl (\<lambda>g x. mdel (baseSessionKey (st_key x)) g) (generations m) gone else generations m)\<rparr>
      in if kept = [] then (Deleted, m1)
         else (Kept, m1\<lparr>failureLogged := foldl (\<lambda>l x. sadd (st_key x) l) (failureLogged m1) kept\<rparr>))"

definition deleteGameSessions ::
  "'s store \<Rightarrow> int \<Rightarrow> string option \<Rightarrow> string \<Rightarrow> nat list option \<Rightarrow> bool \<Rightarrow> game_state \<times> 's \<Rightarrow> deletion \<times> game_state \<times> 's" where
  "deleteGameSessions E now agentId widgetId gens orWhole ms =
     (case ms of (m, s) \<Rightarrow>
       (case gs_list E agentId s of
          None \<Rightarrow> (Kept, m, s)
        | Some listed \<Rightarrow>
           (let (targets, gens') = deletion_targets E widgetId gens orWhole listed in
            if targets = [] then (NoSession, m, s)
            else case any_busy now targets (gm_runs m) of
                (True, r) \<Rightarrow> (Busy, m\<lparr>gm_runs := r\<rparr>, s)
              | (False, r) \<Rightarrow>
                 (let m0 = m\<lparr>gm_runs := r\<rparr>;
                      res = (case gs_kind E of
                          Some Sqlite \<Rightarrow> deleteFromSqlite E agentId gens' targets listed s
                        | Some FileStore \<Rightarrow> deleteFromFiles E agentId targets s
                        | None \<Rightarrow> (Inr targets, s))
                  in case res of
                       (Inl e, s') \<Rightarrow>
                         if IN_FLIGHT e then (Busy, m0, s')
                         else (let (d, m1) = settle_deletion targets gens' targets m0 in (d, m1, s'))
                     | (Inr kept, s') \<Rightarrow> (let (d, m1) = settle_deletion targets gens' kept m0 in (d, m1, s'))))))"

section \<open>The generation of the next move\<close>

definition newest_session :: "stored list \<Rightarrow> stored option" where
  "newest_session xs = foldl (\<lambda>mx x. case mx of Some y \<Rightarrow> if st_gen x \<le> st_gen y then mx else Some x | None \<Rightarrow> Some x) None xs"

record move_gen =
  mg_gen :: nat
  mg_rotated :: "string option"
  mg_deleted :: "deletion option"

text \<open>The generation the moves of a game run in, with the moves it took, kept in the module's map.\<close>

definition current_generation :: "string \<Rightarrow> stored list option \<Rightarrow> game_state \<Rightarrow> (nat \<times> nat option) \<times> game_state" where
  "current_generation base own m =
     (let newest = (case own of Some xs \<Rightarrow> newest_session xs | None \<Rightarrow> None);
          fresh = (case newest of Some x \<Rightarrow> (st_gen x, None) | None \<Rightarrow> (0, Some 0))
      in case mget (generations m) base of
           Some (g, n) \<Rightarrow>
             if (case newest of Some x \<Rightarrow> g < st_gen x | None \<Rightarrow> False)
             then (fresh, m\<lparr>generations := mset_key base fresh (generations m)\<rparr>) else ((g, n), m)
         | None \<Rightarrow> (fresh, m\<lparr>generations := mset_key base fresh (generations m)\<rparr>))"

definition kept_generation :: "nat \<Rightarrow> move_gen" where
  "kept_generation gen = \<lparr>mg_gen = gen, mg_rotated = None, mg_deleted = None\<rparr>"

definition rotate_generation ::
  "'s store \<Rightarrow> int \<Rightarrow> string option \<Rightarrow> string \<Rightarrow> string \<Rightarrow> nat \<Rightarrow> string \<Rightarrow> game_state \<times> 's \<Rightarrow> move_gen \<times> game_state \<times> 's" where
  "rotate_generation E now agentId widgetId base gen why ms =
     (case deleteGameSessions E now agentId widgetId (Some [gen]) False ms of
        (d, m, s) \<Rightarrow> (\<lparr>mg_gen = Suc gen, mg_rotated = Some why, mg_deleted = Some d\<rparr>,
                      m\<lparr>generations := mset_key base (Suc gen, Some 0) (generations m)\<rparr>, s))"

definition gameGenerationForMove ::
  "'s store \<Rightarrow> int \<Rightarrow> string \<Rightarrow> string option \<Rightarrow> string \<Rightarrow> nat \<Rightarrow> model_choice option \<Rightarrow> jsval \<Rightarrow> game_state \<times> 's
     \<Rightarrow> move_gen \<times> game_state \<times> 's" where
  "gameGenerationForMove E now key agent widgetId briefChars choice cfg ms =
     (case ms of (m, s) \<Rightarrow>
       (let base = baseSessionKey key; agentId = agent_for agent key;
            own = map_option (filter (\<lambda>x. baseSessionKey (st_key x) = base)) (gs_list E agentId s);
            ((gen, moves), m0) = current_generation base own m;
            current = (case own of Some xs \<Rightarrow> List.find (\<lambda>x. st_gen x = gen) xs | None \<Rightarrow> None)
        in if own \<noteq> None \<and> current = None \<and> (case moves of Some n \<Rightarrow> n | None \<Rightarrow> 0) < UNMEASURED_MOVES_PER_SESSION
           then (kept_generation gen, m0, s)
           else case gameRotationReason (map_option (\<lambda>x. gs_usage E x choice s) current) moves briefChars cfg of
               None \<Rightarrow> (kept_generation gen, m0, s)
             | Some why \<Rightarrow>
                (case (case current of Some x \<Rightarrow> gameSessionBusy now (st_key x) (gm_runs m0) | None \<Rightarrow> (False, gm_runs m0)) of
                   (True, r) \<Rightarrow> (kept_generation gen, m0\<lparr>gm_runs := r\<rparr>, s)
                 | (False, r) \<Rightarrow> rotate_generation E now agentId widgetId base gen why (m0\<lparr>gm_runs := r\<rparr>, s))))"

section \<open>What a deletion leaves alone\<close>

text \<open>
  What the host documents of its store, with \<open>rows\<close> the sessions a state lists: a cleanup removes only
  sessions whose key segment starts with its prefix, an update of the store only the keys it is given,
  and reading the directory or removing a file touches no session.
\<close>

definition removes_only :: "'s store \<Rightarrow> ('s \<Rightarrow> stored list) \<Rightarrow> bool" where
  "removes_only E rows \<longleftrightarrow>
     (\<forall>a p s x. x \<in> set (rows s) \<longrightarrow> \<not> starts_with (keySegment (st_key x)) p \<longrightarrow> x \<in> set (rows (snd (gs_cleanup E a p s)))) \<and>
     (\<forall>ks s x. x \<in> set (rows s) \<longrightarrow> st_key x \<notin> set ks \<longrightarrow> x \<in> set (rows (snd (gs_update E ks s)))) \<and>
     (\<forall>s. rows (snd (gs_readdir E s)) = rows s) \<and> (\<forall>n s. rows (snd (gs_rm E n s)) = rows s)"

lemma removes_onlyD:
  assumes "removes_only E rows"
  shows "x \<in> set (rows s) \<Longrightarrow> \<not> starts_with (keySegment (st_key x)) p \<Longrightarrow> gs_cleanup E a p s = (r, s') \<Longrightarrow> x \<in> set (rows s')"
    and "x \<in> set (rows s) \<Longrightarrow> st_key x \<notin> set ks \<Longrightarrow> gs_update E ks s = (r2, s') \<Longrightarrow> x \<in> set (rows s')"
    and "gs_readdir E s = (r3, s') \<Longrightarrow> rows s' = rows s"
    and "gs_rm E n s = (r4, s') \<Longrightarrow> rows s' = rows s"
  using assms unfolding removes_only_def by (metis snd_conv)+

lemma sqlite_groups_spare:
  assumes "removes_only E rows" and "x \<in> set listed" and "list_all (\<lambda>g. x \<notin> set (snd g)) gs"
  shows "x \<in> set (rows s) \<Longrightarrow> sqlite_groups E a gs listed s = (r, s') \<Longrightarrow> x \<in> set (rows s')"
  using assms(3)
proof (induction gs arbitrary: s r)
  case (Cons g gs)
  obtain prefix grp where g: "g = (prefix, grp)" by fastforce
  show ?case
  proof (cases "list_ex (\<lambda>x. starts_with (keySegment (st_key x)) prefix \<and> x \<notin> set grp) listed")
    case True
    with Cons show ?thesis by (auto simp: g split: prod.splits sum.splits)
  next
    case False
    with assms(2) Cons.prems(3) have np: "\<not> starts_with (keySegment (st_key x)) prefix" by (auto simp: list_ex_iff g)
    obtain r1 s1 where c: "gs_cleanup E (agent_for a (st_key (hd grp))) prefix s = (r1, s1)" by fastforce
    have "x \<in> set (rows s1)" using removes_onlyD(1) [OF assms(1) Cons.prems(1) np c] .
    with Cons False c show ?thesis by (auto simp: g split: prod.splits sum.splits)
  qed
qed simp

lemma rm_files_rows: "removes_only E rows \<Longrightarrow> rm_files E d ns s = (r, s') \<Longrightarrow> rows s' = rows s"
proof (induction ns arbitrary: s)
  case (Cons n ns)
  obtain r1 s1 where c: "gs_rm E n s = (r1, s1)" by fastforce
  from removes_onlyD(4) [OF Cons.prems(1) c] Cons c show ?case by (auto split: if_splits sum.splits)
qed simp

lemma deleteFromFiles_spare:
  assumes "removes_only E rows" and "x \<in> set (rows s)" and "st_key x \<notin> st_key ` set targets"
    and "deleteFromFiles E a targets s = (r, s')"
  shows "x \<in> set (rows s')"
proof -
  obtain r1 s1 where c1: "gs_readdir E s = (r1, s1)" by fastforce
  note e1 = removes_onlyD(3) [OF assms(1) c1]
  show ?thesis
  proof (cases r1)
    case (Inr names)
    let ?d = "\<lambda>n. n \<in> set (named_files (gs_dir E (case targets of x # _ \<Rightarrow> agent_for a (st_key x) | [] \<Rightarrow> a)) targets) \<or>
        list_ex (isTranscriptFile n) (concat (map (\<lambda>x. transcriptIds (st_entry x)) targets))"
    obtain r2 s2 where c2: "rm_files E ?d names s1 = (r2, s2)" by fastforce
    note e2 = rm_files_rows [OF assms(1) c2]
    show ?thesis
    proof (cases r2)
      case (Inr u)
      obtain r3 s3 where c3: "gs_update E (map st_key targets) s2 = (r3, s3)" by fastforce
      have "x \<in> set (rows s3)"
        using removes_onlyD(2) [OF assms(1) _ _ c3, of x] assms(2,3) e1 e2 by simp
      moreover have "s' = s3" using assms(4) c1 c2 c3 \<open>r1 = Inr names\<close> Inr
        by (auto simp: deleteFromFiles_def Let_def split: sum.splits)
      ultimately show ?thesis by simp
    qed (use assms(2,4) c1 c2 e1 e2 Inr in \<open>auto simp: deleteFromFiles_def Let_def\<close>)
  qed (use assms(2,4) c1 e1 in \<open>auto simp: deleteFromFiles_def Let_def\<close>)
qed

lemma deletion_targets_scope:
  assumes "deletion_targets E w gens orWhole listed = (targets, gens')" and "x \<in> set targets"
  shows "x \<in> set listed \<and> lower (st_widget x) = lower w \<and> (\<not> orWhole \<longrightarrow> (case gens of Some gs \<Rightarrow> st_gen x \<in> set gs | None \<Rightarrow> True))"
  using assms by (auto simp: deletion_targets_def Let_def split: if_splits option.splits)

lemma deletion_groups_targets: "g \<in> set (deletion_groups gens targets) \<Longrightarrow> set (snd g) \<subseteq> set targets"
  by (auto simp: deletion_groups_def split: option.splits list.splits)

lemma delete_spares_untargeted:
  assumes "removes_only E rows" and "gs_list E agentId s = Some (rows s)" and "distinct (map st_key (rows s))"
    and "x \<in> set (rows s)" and "x \<notin> set (fst (deletion_targets E w gens orWhole (rows s)))"
    and "deleteGameSessions E now agentId w gens orWhole (m, s) = (d, m', s')"
  shows "x \<in> set (rows s')"
proof -
  obtain targets gens' where dt: "deletion_targets E w gens orWhole (rows s) = (targets, gens')" by fastforce
  then have nt: "x \<notin> set targets" using assms(5) by simp
  have sub: "set targets \<subseteq> set (rows s)" using deletion_targets_scope [OF dt] by blast
  have key: "st_key x \<notin> st_key ` set targets"
  proof
    assume "st_key x \<in> st_key ` set targets"
    then obtain y where "y \<in> set targets" "st_key y = st_key x" by auto
    with sub assms(3,4) nt show False by (metis distinct_map inj_onD subsetD)
  qed
  have "list_all (\<lambda>g. x \<notin> set (snd g)) (deletion_groups gens' targets)"
    unfolding list_all_iff using deletion_groups_targets nt by blast
  then have sq: "x \<in> set (rows s1)" if "deleteFromSqlite E agentId gens' targets (rows s) s = (r, s1)" for r s1
    using sqlite_groups_spare [OF assms(1,4) _ assms(4)] that by (simp add: deleteFromSqlite_def)
  have fl: "x \<in> set (rows s1)" if "deleteFromFiles E agentId targets s = (r, s1)" for r s1
    using deleteFromFiles_spare [OF assms(1,4) key that] .
  show ?thesis using assms(2,4,6) dt sq fl
    by (auto simp: deleteGameSessions_def Let_def split: if_splits prod.splits bool.splits option.splits store_kind.splits sum.splits)
qed

text \<open>
  A deletion reaches only the game it is for: no session of another game is ever removed, and when
  generations are named and the game may not go as a whole, no other generation of the game either,
  whatever prefixes the keys share and whichever store the host has.
\<close>

theorem deletion_spares_others:
  assumes "removes_only E rows" and "gs_list E agentId s = Some (rows s)" and "distinct (map st_key (rows s))"
    and "deleteGameSessions E now agentId w gens orWhole (m, s) = (d, m', s')" and "x \<in> set (rows s)"
    and "if lower (st_widget x) = lower w then \<not> orWhole \<and> (case gens of Some gs \<Rightarrow> st_gen x \<notin> set gs | None \<Rightarrow> False) else True"
  shows "x \<in> set (rows s')"
proof -
  obtain targets gens' where dt: "deletion_targets E w gens orWhole (rows s) = (targets, gens')" by fastforce
  have "x \<notin> set targets"
    using deletion_targets_scope [OF dt, of x] assms(6) by (auto split: if_splits option.splits)
  with dt delete_spares_untargeted [OF assms(1-3,5) _ assms(4)] show ?thesis by simp
qed

lemma busy_scan_pruned: "fst (busy_scan now k (snd (busy_scan now k' rs))) = fst (busy_scan now k rs)"
  by (induction now k' rs rule: busy_scan.induct) (auto split: if_splits option.splits prod.splits)

lemma gameSessionBusy_pruned:
  "fst (gameSessionBusy now k (snd (gameSessionBusy now k' r))) = fst (gameSessionBusy now k r)"
  using busy_scan_pruned [of now "lower k" "lower k'" "gameRuns r"]
  by (simp add: gameSessionBusy_def split_beta)

lemma any_busy_found:
  assumes "x \<in> set xs" and "fst (gameSessionBusy now (st_key x) r)"
  shows "fst (any_busy now xs r)"
  using assms
proof (induction xs arbitrary: r)
  case (Cons y ys)
  obtain b r' where g: "gameSessionBusy now (st_key y) r = (b, r')" by fastforce
  show ?case
  proof (cases b)
    case False
    with Cons.prems g have "x \<in> set ys" by auto
    moreover have "fst (gameSessionBusy now (st_key x) r')"
      using gameSessionBusy_pruned [of now "st_key x" "st_key y" r] Cons.prems(2) g by simp
    ultimately show ?thesis using Cons.IH False g by simp
  qed (use g in simp)
qed simp

text \<open>
  A session with a run on it is never deleted: while one of the sessions a deletion is for is busy,
  the deletion answers that it is and leaves the store as it was.
\<close>

theorem busy_session_is_not_deleted:
  assumes "gs_list E agentId s = Some listed" and "x \<in> set (fst (deletion_targets E w gens orWhole listed))"
    and "fst (gameSessionBusy now (st_key x) (gm_runs m))"
  shows "fst (deleteGameSessions E now agentId w gens orWhole (m, s)) = Busy \<and>
    snd (snd (deleteGameSessions E now agentId w gens orWhole (m, s))) = s"
proof -
  obtain targets gens' where dt: "deletion_targets E w gens orWhole listed = (targets, gens')" by fastforce
  obtain r where "any_busy now targets (gm_runs m) = (True, r)"
    using any_busy_found [of x targets now "gm_runs m"] assms(2,3) dt by (cases "any_busy now targets (gm_runs m)") auto
  then show ?thesis using assms(1,2) dt by (auto simp: deleteGameSessions_def Let_def)
qed

lemma newest_max: "x \<in> set xs \<Longrightarrow> \<exists>y. newest_session xs = Some y \<and> st_gen x \<le> st_gen y"
proof -
  have "(\<forall>z. mx = Some z \<longrightarrow> (\<exists>y. foldl (\<lambda>mx x. case mx of Some y \<Rightarrow> if st_gen x \<le> st_gen y then mx else Some x | None \<Rightarrow> Some x) mx xs = Some y \<and> st_gen z \<le> st_gen y)) \<and>
      (\<forall>x \<in> set xs. \<exists>y. foldl (\<lambda>mx x. case mx of Some y \<Rightarrow> if st_gen x \<le> st_gen y then mx else Some x | None \<Rightarrow> Some x) mx xs = Some y \<and> st_gen x \<le> st_gen y)" for mx
  proof (induction xs arbitrary: mx)
    case (Cons a xs)
    let ?m = "case mx of Some y \<Rightarrow> if st_gen a \<le> st_gen y then mx else Some a | None \<Rightarrow> Some a"
    obtain y where y: "?m = Some y" "st_gen a \<le> st_gen y" "\<forall>z. mx = Some z \<longrightarrow> st_gen z \<le> st_gen y"
    proof (cases mx)
      case (Some b)
      then show ?thesis using that by (cases "st_gen a \<le> st_gen b") simp_all
    qed (use that in simp)
    from Cons.IH [of ?m] y show ?case by (fastforce intro: order_trans)
  qed simp
  then show "x \<in> set xs \<Longrightarrow> ?thesis" by (simp add: newest_session_def)
qed

lemma current_generation_newest:
  assumes "current_generation base (Some xs) m = ((gen, moves), m0)"
  shows "x \<in> set xs \<Longrightarrow> st_gen x \<le> gen"
proof -
  assume "x \<in> set xs"
  then obtain y where y: "newest_session xs = Some y" "st_gen x \<le> st_gen y" using newest_max by blast
  with assms show ?thesis
    by (auto simp: current_generation_def Let_def not_less split: option.splits prod.splits if_splits)
qed

lemma current_generation_known:
  assumes "current_generation base own m = ((gen, moves), m0)"
  shows "case mget (generations m) base of Some (g, _) \<Rightarrow> g \<le> gen | None \<Rightarrow> True"
    and "map_option fst (mget (generations m0) base) = Some gen"
  using assms by (auto simp: current_generation_def Let_def split: option.splits prod.splits if_splits)

lemma rotate_generation_gen:
  assumes "rotate_generation E now agentId w base gen why ms = (r, m', s')"
  shows "mg_gen r = Suc gen \<and> mg_rotated r \<noteq> None \<and> map_option fst (mget (generations m') base) = Some (Suc gen)"
  using assms by (auto simp: rotate_generation_def split: prod.splits)

text \<open>
  A game never goes back to an earlier generation: the generation a move gets is at least that of
  every listed session of the game and that of its last move, it is remembered for the next move, and
  the store is touched only when the session rotates.
\<close>

theorem move_generation_advances:
  assumes "gameGenerationForMove E now key agent w briefChars choice cfg (m, s) = (r, m', s')"
    and "gs_list E (agent_for agent key) s = Some listed"
  shows "list_all (\<lambda>x. baseSessionKey (st_key x) \<noteq> baseSessionKey key \<or> st_gen x \<le> mg_gen r) listed \<and>
    (case mget (generations m) (baseSessionKey key) of Some (g, _) \<Rightarrow> g \<le> mg_gen r | None \<Rightarrow> True) \<and>
    map_option fst (mget (generations m') (baseSessionKey key)) = Some (mg_gen r) \<and>
    (if mg_rotated r = None then s' = s else True)"
proof -
  let ?base = "baseSessionKey key"
  let ?xs = "filter (\<lambda>x. baseSessionKey (st_key x) = ?base) listed"
  obtain gen moves m0 where c: "current_generation ?base (Some ?xs) m = ((gen, moves), m0)" by (metis prod.collapse)
  let ?cur = "List.find (\<lambda>x. st_gen x = gen) ?xs"
  have "(r = kept_generation gen \<and> generations m' = generations m0 \<and> s' = s) \<or>
      (\<exists>why ms. rotate_generation E now (agent_for agent key) w ?base gen why ms = (r, m', s'))"
  proof (cases "gameRotationReason (map_option (\<lambda>x. gs_usage E x choice s) ?cur) moves briefChars cfg")
    case None
    with assms c show ?thesis by (auto simp: gameGenerationForMove_def Let_def split: if_splits)
  next
    case (Some why)
    obtain b rr where b: "(case ?cur of Some x \<Rightarrow> gameSessionBusy now (st_key x) (gm_runs m0) | None \<Rightarrow> (False, gm_runs m0)) = (b, rr)" by fastforce
    from assms c Some b show ?thesis
      by (cases b) (auto simp: gameGenerationForMove_def Let_def split: if_splits)
  qed
  then show ?thesis
  proof
    assume k: "r = kept_generation gen \<and> generations m' = generations m0 \<and> s' = s"
    with current_generation_newest [OF c] current_generation_known [OF c] show ?thesis
      by (auto simp: list_all_iff kept_generation_def split: option.splits)
  next
    assume "\<exists>why ms. rotate_generation E now (agent_for agent key) w ?base gen why ms = (r, m', s')"
    then have "mg_gen r = Suc gen \<and> mg_rotated r \<noteq> None \<and> map_option fst (mget (generations m') ?base) = Some (Suc gen)"
      by (elim exE) (rule rotate_generation_gen)
    with current_generation_newest [OF c] current_generation_known(1) [OF c] show ?thesis
      by (auto simp: list_all_iff le_SucI split: option.splits)
  qed
qed

section \<open>Examples\<close>

definition demo_store :: "stored list store" where
  "demo_store = \<lparr>gs_kind = Some Sqlite, gs_list = (\<lambda>_ s. Some s),
     gs_cleanup = (\<lambda>_ p s. (Inr (length (filter (\<lambda>x. starts_with (keySegment (st_key x)) p) s)),
                           filter (\<lambda>x. \<not> starts_with (keySegment (st_key x)) p) s)),
     gs_readdir = (\<lambda>s. (Inr [], s)), gs_rm = (\<lambda>_ s. (Inr (), s)),
     gs_update = (\<lambda>ks s. (Inr ks, filter (\<lambda>x. st_key x \<notin> set ks) s)), gs_dir = (\<lambda>_. ''/s''), gs_usage = (\<lambda>_ _ _. demo_usage)\<rparr>"

definition demo_entry :: game_entry where
  "demo_entry = \<lparr>fallbackProvider = None, fallbackModel = None, providerOverride = None, modelOverride = None, modelProvider = None,
     selectionLocked = False, thinkingLevel = None, stamp = JUndef, ge_sessionId = Some ''t1'', ge_sessionFile = None, ge_family = [],
     ge_totalTokens = JUndef, ge_totalTokensFresh = JUndef, ge_totalTokensVersion = JUndef, ge_contextTokens = JUndef, ge_model = None,
     ge_compactionCount = None, ge_memoryFlush = JUndef, ge_memoryFlushCompactionCount = JUndef\<rparr>"

definition demo_session :: "string \<Rightarrow> nat \<Rightarrow> stored" where
  "demo_session w g = \<lparr>st_key = ''agent:main:clawbits:channel:'' @ gamePeerId w g, st_widget = w, st_gen = g, st_entry = demo_entry\<rparr>"

definition demo_rows :: "stored list" where
  "demo_rows = [demo_session ''a'' 0, demo_session ''a'' 1, demo_session ''a'' 12, demo_session ''ab'' 0]"

definition demo_game_state :: game_state where
  "demo_game_state = \<lparr>gm_runs = \<lparr>gameRuns = [], gameHolds = 0\<rparr>, generations = [], failureLogged = []\<rparr>"

lemma demo_removes_only: "removes_only demo_store (\<lambda>s. s)"
  by (simp add: removes_only_def demo_store_def)

lemma deletion_spares_others_witness:
  "demo_session ''a'' 12 \<in> set (snd (snd (deleteGameSessions demo_store 0 None ''a'' (Some [1]) False (demo_game_state, demo_rows))))"
proof -
  obtain d m' s' where e: "deleteGameSessions demo_store 0 None ''a'' (Some [1]) False (demo_game_state, demo_rows) = (d, m', s')"
    by (metis prod.collapse)
  have "distinct (map st_key demo_rows)" by code_simp
  moreover have "demo_session ''a'' 12 \<in> set demo_rows" by (simp add: demo_rows_def)
  ultimately have "demo_session ''a'' 12 \<in> set s'"
    by (intro deletion_spares_others [OF demo_removes_only _ _ e]) (simp_all add: demo_store_def demo_session_def)
  with e show ?thesis by simp
qed

lemma busy_session_is_not_deleted_witness:
  "fst (deleteGameSessions demo_store 0 None ''a'' None False
     (demo_game_state\<lparr>gm_runs := holdGameSession (st_key (demo_session ''a'' 1)) (gm_runs demo_game_state)\<rparr>, demo_rows)) = Busy"
proof -
  let ?m = "demo_game_state\<lparr>gm_runs := holdGameSession (st_key (demo_session ''a'' 1)) (gm_runs demo_game_state)\<rparr>"
  have "gs_list demo_store None demo_rows = Some demo_rows" by (simp add: demo_store_def)
  moreover have "demo_session ''a'' 1 \<in> set (fst (deletion_targets demo_store ''a'' None False demo_rows))"
    by (simp add: deletion_targets_def demo_rows_def demo_session_def Let_def)
  moreover have "fst (gameSessionBusy 0 (st_key (demo_session ''a'' 1)) (gm_runs ?m))" by code_simp
  ultimately show ?thesis using busy_session_is_not_deleted [of demo_store None demo_rows demo_rows _ _ _ _ _ ?m] by blast
qed

lemma move_generation_advances_witness:
  "12 \<le> mg_gen (fst (gameGenerationForMove demo_store 0 (st_key (demo_session ''a'' 0)) None ''a'' 900 None JUndef (demo_game_state, demo_rows)))"
proof -
  let ?k = "st_key (demo_session ''a'' 0)"
  obtain r m' s' where e: "gameGenerationForMove demo_store 0 ?k None ''a'' 900 None JUndef (demo_game_state, demo_rows) = (r, m', s')"
    by (metis prod.collapse)
  have "gs_list demo_store (agent_for None ?k) demo_rows = Some demo_rows" by (simp add: demo_store_def)
  from move_generation_advances [OF e this]
  have "baseSessionKey (st_key (demo_session ''a'' 12)) \<noteq> baseSessionKey ?k \<or> st_gen (demo_session ''a'' 12) \<le> mg_gen r"
    by (simp add: demo_rows_def)
  moreover have "baseSessionKey (st_key (demo_session ''a'' 12)) = baseSessionKey ?k" by code_simp
  ultimately show ?thesis using e by (simp add: demo_session_def)
qed

end
