(* ===== verification/Open_Drafts.thy ===== *)
theory Open_Drafts
  imports Js_Values
begin

text \<open>
  The open drafts of the turns in flight (\<open>plugin/src/draft-registry.ts\<close>) and the paths that end or replace one
  (\<open>plugin/src/outbound-adapter.ts\<close>). A turn's handle is an object the paths share, so it lives in a heap: its address is
  its place in \<open>refs\<close>. The store of orphans answers at once. A path that has taken a draft and has not sent
  its request yet is in \<open>taken\<close>, and a request for a fresh draft that is in flight is in \<open>awaited\<close>.
\<close>

section \<open>State\<close>

type_synonym chat = "string \<times> string"

datatype settlement = Finished_As string | Cancelled

record open_ref =
  ref_chat :: chat
  ref_id :: "nat option"

record drafts =
  refs :: "open_ref list"
  openDrafts :: "(string, nat) jsmap"
  orphans :: "(string, nat) jsmap"
  made :: nat
  awaited :: "nat list"
  taken :: "(nat \<times> settlement) list"
  patches_sent :: "(nat \<times> settlement) list"

definition draftKey :: "chat \<Rightarrow> string" where
  "draftKey c = fst c @ CHR 0x00 # snd c"

definition orphanKey :: "chat \<Rightarrow> string" where
  "orphanKey c = fst c @ CHR '':'' # snd c"

definition drafts_start :: "nat \<Rightarrow> (string, nat) jsmap \<Rightarrow> drafts" where
  "drafts_start n left = \<lparr>refs = [], openDrafts = [], orphans = left, made = n, awaited = [], taken = [], patches_sent = []\<rparr>"

definition set_ref :: "nat \<Rightarrow> nat option \<Rightarrow> drafts \<Rightarrow> drafts" where
  "set_ref n i s = s\<lparr>refs := (refs s)[n := (refs s ! n)\<lparr>ref_id := i\<rparr>]\<rparr>"

section \<open>The registry\<close>

definition registerOpenDraft :: "nat \<Rightarrow> drafts \<Rightarrow> drafts" where
  "registerOpenDraft n s =
     (let r = refs s ! n; s1 = s\<lparr>openDrafts := mset_key (draftKey (ref_chat r)) n (openDrafts s)\<rparr> in
      case ref_id r of
        Some d \<Rightarrow> s1\<lparr>orphans := mset_key (orphanKey (ref_chat r)) d (orphans s1)\<rparr>
      | None \<Rightarrow> s1)"

definition openTurnContext :: "chat \<Rightarrow> drafts \<Rightarrow> nat option" where
  "openTurnContext c s = mget (openDrafts s) (draftKey c)"

definition claimOpenDraft :: "chat \<Rightarrow> drafts \<Rightarrow> nat option \<times> drafts" where
  "claimOpenDraft c s = (case openTurnContext c s of
      None \<Rightarrow> (None, s)
    | Some n \<Rightarrow> (case ref_id (refs s ! n) of
        None \<Rightarrow> (None, s)
      | Some d \<Rightarrow> (Some d, set_ref n None s)))"

definition forgetOrphanDraft :: "chat \<Rightarrow> drafts \<Rightarrow> drafts" where
  "forgetOrphanDraft c s = s\<lparr>orphans := mdel (orphanKey c) (orphans s)\<rparr>"

definition unregisterOpenDraft :: "nat \<Rightarrow> drafts \<Rightarrow> drafts" where
  "unregisterOpenDraft n s =
     (let c = ref_chat (refs s ! n) in
      if openTurnContext c s \<noteq> Some n then s
      else forgetOrphanDraft c (s\<lparr>openDrafts := mdel (draftKey c) (openDrafts s)\<rparr>))"

definition claimDraft :: "chat \<Rightarrow> drafts \<Rightarrow> nat option \<times> drafts" where
  "claimDraft c s = (case claimOpenDraft c s of
      (live, s1) \<Rightarrow> ((case live of Some d \<Rightarrow> Some d | None \<Rightarrow> mget (orphans s1) (orphanKey c)), forgetOrphanDraft c s1))"

section \<open>The paths over a draft\<close>

definition take_draft :: "nat \<Rightarrow> settlement \<Rightarrow> drafts \<Rightarrow> drafts" where
  "take_draft d how s = s\<lparr>taken := taken s @ [(d, how)]\<rparr>"

text \<open>\<open>sendText\<close> and \<open>sendMedia\<close> up to their request on the draft.\<close>

definition send_claims :: "chat \<Rightarrow> settlement \<Rightarrow> drafts \<Rightarrow> drafts" where
  "send_claims c how s = (case claimDraft c s of
      (Some d, s1) \<Rightarrow> take_draft d how s1
    | (None, s1) \<Rightarrow> s1)"

text \<open>What ends a draft that is handed over: the text streamed so far, or nothing.\<close>

definition handed_over :: "string \<Rightarrow> settlement" where
  "handed_over streamed = (if trim streamed = [] then Cancelled else Finished_As (trim streamed))"

definition endDraft :: "nat \<Rightarrow> string \<Rightarrow> drafts \<Rightarrow> bool \<times> drafts" where
  "endDraft n streamed s = (case ref_id (refs s ! n) of
      None \<Rightarrow> (False, s)
    | Some d \<Rightarrow> (True, take_draft d (handed_over streamed) (forgetOrphanDraft (ref_chat (refs s ! n)) (set_ref n None s))))"

text \<open>\<open>openDraft\<close> up to its request, and after it: the server made a draft, or refused.\<close>

definition openDraft :: "nat \<Rightarrow> drafts \<Rightarrow> drafts" where
  "openDraft n s = s\<lparr>awaited := awaited s @ [n]\<rparr>"

definition draft_opened :: "nat \<Rightarrow> bool \<Rightarrow> drafts \<Rightarrow> drafts" where
  "draft_opened n ok s =
     (let s1 = s\<lparr>awaited := remove1 n (awaited s)\<rparr>; d = made s in
      if \<not> ok then s1
      else let s2 = s1\<lparr>made := Suc d\<rparr> in
        if openTurnContext (ref_chat (refs s ! n)) s \<noteq> Some n then take_draft d Cancelled s2
        else registerOpenDraft n (set_ref n (Some d) s2))"

text \<open>A turn begins with the draft the server made for it, or without one.\<close>

definition turn_begins :: "chat \<Rightarrow> bool \<Rightarrow> drafts \<Rightarrow> drafts" where
  "turn_begins c ok s =
     registerOpenDraft (length (refs s))
       (s\<lparr>made := (if ok then Suc (made s) else made s),
          refs := refs s @ [\<lparr>ref_chat = c, ref_id = (if ok then Some (made s) else None)\<rparr>]\<rparr>)"

text \<open>Its end: the handle leaves the registry, and a draft nobody took is settled.\<close>

definition turn_ends :: "nat \<Rightarrow> settlement \<Rightarrow> drafts \<Rightarrow> drafts" where
  "turn_ends n how s =
     (let s1 = unregisterOpenDraft n s in
      case ref_id (refs s1 ! n) of
        None \<Rightarrow> s1
      | Some d \<Rightarrow> take_draft d how (set_ref n None s1))"

definition patch_goes :: "nat \<Rightarrow> drafts \<Rightarrow> drafts" where
  "patch_goes d s = s\<lparr>taken := filter (\<lambda>t. fst t \<noteq> d) (taken s),
     patches_sent := patches_sent s @ filter (\<lambda>t. fst t = d) (taken s)\<rparr>"

datatype draft_event =
    TurnBegins chat bool
  | SendClaims chat settlement
  | EndDraft nat string
  | OpenDraft nat
  | DraftOpened nat bool
  | TurnEnds nat settlement
  | PatchGoes nat
  | OrphanExpires string

fun draft_step :: "drafts \<Rightarrow> draft_event \<Rightarrow> drafts" where
  "draft_step s (TurnBegins c ok) = turn_begins c ok s"
| "draft_step s (SendClaims c how) = send_claims c how s"
| "draft_step s (EndDraft n streamed) = snd (endDraft n streamed s)"
| "draft_step s (OpenDraft n) = openDraft n s"
| "draft_step s (DraftOpened n ok) = draft_opened n ok s"
| "draft_step s (TurnEnds n how) = turn_ends n how s"
| "draft_step s (PatchGoes d) = patch_goes d s"
| "draft_step s (OrphanExpires k) = s\<lparr>orphans := mdel k (orphans s)\<rparr>"

text \<open>
  The discipline of the callers: a chat has one turn at a time (its posts are handled in a queue), the account of a chat has no separator in its name,
  and requests are answered once. With \<open>strict\<close>, a fresh draft is also asked for only when the turn has none and none is on its way, which two
  questions asked at once do not keep to.
\<close>

definition plain_chat :: "chat \<Rightarrow> bool" where
  "plain_chat c = (CHR 0x00 \<notin> set (fst c) \<and> CHR '':'' \<notin> set (fst c))"

fun draft_allowed :: "bool \<Rightarrow> drafts \<Rightarrow> draft_event \<Rightarrow> bool" where
  "draft_allowed q s (TurnBegins c ok) = (plain_chat c \<and> openTurnContext c s = None)"
| "draft_allowed q s (SendClaims c how) = plain_chat c"
| "draft_allowed q s (EndDraft n streamed) = (n < length (refs s))"
| "draft_allowed q s (OpenDraft n) = (n < length (refs s) \<and> (q \<longrightarrow> ref_id (refs s ! n) = None \<and> n \<notin> set (awaited s)))"
| "draft_allowed q s (DraftOpened n ok) = (n \<in> set (awaited s))"
| "draft_allowed q s (TurnEnds n how) = (n < length (refs s))"
| "draft_allowed q s (PatchGoes d) = True"
| "draft_allowed q s (OrphanExpires k) = True"

section \<open>The invariant\<close>

definition gone :: "drafts \<Rightarrow> nat list" where
  "gone s = map fst (taken s) @ map fst (patches_sent s)"

definition holder :: "drafts \<Rightarrow> nat \<Rightarrow> nat \<Rightarrow> bool" where
  "holder s n d = (n < length (refs s) \<and> ref_id (refs s ! n) = Some d)"

definition chat_of :: "drafts \<Rightarrow> nat \<Rightarrow> chat" where
  "chat_of s n = ref_chat (refs s ! n)"

lemma key_inj:
  "plain_chat c \<Longrightarrow> plain_chat c' \<Longrightarrow> draftKey c = draftKey c' \<longleftrightarrow> c = c'"
  "plain_chat c \<Longrightarrow> plain_chat c' \<Longrightarrow> orphanKey c = orphanKey c' \<longleftrightarrow> c = c'"
proof -
  have split: "a @ x # b = a' @ x # b' \<longleftrightarrow> a = a' \<and> b = b'" if "x \<notin> set a" "x \<notin> set a'" for a a' b b' :: string and x
    using that
  proof (induction a arbitrary: a')
    case Nil
    then show ?case by (cases a') auto
  next
    case (Cons y a)
    then show ?case by (cases a') auto
  qed
  assume "plain_chat c" "plain_chat c'"
  then show "draftKey c = draftKey c' \<longleftrightarrow> c = c'" "orphanKey c = orphanKey c' \<longleftrightarrow> c = c'"
    by (auto simp: plain_chat_def draftKey_def orphanKey_def split prod_eq_iff)
qed

text \<open>A draft is with one holder or one path; holders are registered; an orphan is its holder's or nobody's.\<close>

definition refs_ok :: "bool \<Rightarrow> drafts \<Rightarrow> bool" where
  "refs_ok q s =
     ((\<forall>n < length (refs s). plain_chat (chat_of s n)) \<and>
      (\<forall>n d. holder s n d \<longrightarrow> openTurnContext (chat_of s n) s = Some n) \<and>
      (\<forall>k n. mget (openDrafts s) k = Some n \<longrightarrow> n < length (refs s) \<and> k = draftKey (chat_of s n)) \<and>
      (\<forall>n \<in> set (awaited s). n < length (refs s)) \<and>
      (q \<longrightarrow> distinct (awaited s) \<and> (\<forall>n \<in> set (awaited s). ref_id (refs s ! n) = None)))"

definition one_owner :: "drafts \<Rightarrow> bool" where
  "one_owner s =
     ((\<forall>n m d. holder s n d \<and> holder s m d \<longrightarrow> n = m) \<and>
      (\<forall>n d. holder s n d \<longrightarrow> d < made s \<and> d \<notin> set (gone s)) \<and>
      distinct (gone s) \<and> (\<forall>d \<in> set (gone s). d < made s))"

definition orphans_ok :: "drafts \<Rightarrow> bool" where
  "orphans_ok s =
     ((\<forall>k d. mget (orphans s) k = Some d \<longrightarrow> d < made s \<and> d \<notin> set (gone s) \<and>
         (\<forall>n. holder s n d \<longrightarrow> k = orphanKey (chat_of s n))) \<and>
      (\<forall>k k' d. mget (orphans s) k = Some d \<and> mget (orphans s) k' = Some d \<longrightarrow> k = k'))"

definition all_owned :: "bool \<Rightarrow> nat \<Rightarrow> drafts \<Rightarrow> bool" where
  "all_owned q b s = (q \<longrightarrow> (\<forall>d. b \<le> d \<and> d < made s \<longrightarrow> d \<in> set (gone s) \<or> (\<exists>n. holder s n d)))"

definition drafts_ok :: "bool \<Rightarrow> nat \<Rightarrow> drafts \<Rightarrow> bool" where
  "drafts_ok q b s = (refs_ok q s \<and> one_owner s \<and> orphans_ok s \<and> all_owned q b s)"

lemma refs_okD:
  assumes "refs_ok q s"
  shows "n < length (refs s) \<Longrightarrow> plain_chat (chat_of s n)"
    and "holder s n d \<Longrightarrow> openTurnContext (chat_of s n) s = Some n"
    and "mget (openDrafts s) k = Some n \<Longrightarrow> n < length (refs s)"
    and "mget (openDrafts s) k = Some n \<Longrightarrow> k = draftKey (chat_of s n)"
    and "n \<in> set (awaited s) \<Longrightarrow> n < length (refs s)"
    and "q \<Longrightarrow> n \<in> set (awaited s) \<Longrightarrow> ref_id (refs s ! n) = None"
    and "q \<Longrightarrow> distinct (awaited s)"
  using assms unfolding refs_ok_def by blast+

lemma one_ownerD:
  assumes "one_owner s"
  shows "holder s n d \<Longrightarrow> holder s m d \<Longrightarrow> n = m" and "holder s n d \<Longrightarrow> d < made s"
    and "holder s n d \<Longrightarrow> d \<notin> set (gone s)" and "distinct (gone s)" and "d \<in> set (gone s) \<Longrightarrow> d < made s"
  using assms unfolding one_owner_def by blast+

lemma orphans_okD:
  assumes "orphans_ok s" and "mget (orphans s) k = Some d"
  shows "d < made s" and "d \<notin> set (gone s)" and "holder s n d \<Longrightarrow> k = orphanKey (chat_of s n)"
    and "mget (orphans s) k' = Some d \<Longrightarrow> k' = k"
  using assms unfolding orphans_ok_def by metis+

lemma drafts_okD:
  assumes "drafts_ok q b s"
  shows "refs_ok q s" "one_owner s" "orphans_ok s" "all_owned q b s"
  using assms by (simp_all add: drafts_ok_def)

lemma set_ref_simps [simp]:
  "openDrafts (set_ref n i s) = openDrafts s" "orphans (set_ref n i s) = orphans s" "made (set_ref n i s) = made s"
  "awaited (set_ref n i s) = awaited s" "gone (set_ref n i s) = gone s" "length (refs (set_ref n i s)) = length (refs s)"
  "openTurnContext c (set_ref n i s) = openTurnContext c s"
  by (simp_all add: set_ref_def gone_def openTurnContext_def)

lemma ref_set_ref: "n < length (refs s) \<Longrightarrow> refs (set_ref n i s) ! m = (if m = n then (refs s ! n)\<lparr>ref_id := i\<rparr> else refs s ! m)"
  by (simp add: set_ref_def)

lemma chat_of_set_ref [simp]: "n < length (refs s) \<Longrightarrow> chat_of (set_ref n i s) m = chat_of s m"
  by (simp add: chat_of_def ref_set_ref)

lemma holder_set_ref: "n < length (refs s) \<Longrightarrow> holder (set_ref n i s) m d \<longleftrightarrow> (if m = n then i = Some d else holder s m d)"
  by (auto simp: holder_def ref_set_ref)

lemma take_simps [simp]:
  "refs (take_draft d how s) = refs s" "openDrafts (take_draft d how s) = openDrafts s" "orphans (take_draft d how s) = orphans s"
  "made (take_draft d how s) = made s" "awaited (take_draft d how s) = awaited s"
  "openTurnContext c (take_draft d how s) = openTurnContext c s" "holder (take_draft d how s) = holder s"
  "chat_of (take_draft d how s) = chat_of s"
  by (simp_all add: take_draft_def openTurnContext_def holder_def chat_of_def fun_eq_iff)

lemma gone_take: "set (gone (take_draft d how s)) = insert d (set (gone s))"
    "distinct (gone (take_draft d how s)) \<longleftrightarrow> distinct (gone s) \<and> d \<notin> set (gone s)"
  by (auto simp: gone_def take_draft_def)

text \<open>Forgetting an orphan, and a path that takes the draft of a holder.\<close>

definition drop_orphan :: "string \<Rightarrow> drafts \<Rightarrow> drafts" where
  "drop_orphan k s = s\<lparr>orphans := mdel k (orphans s)\<rparr>"

lemma drop_orphan_simps [simp]:
  "refs (drop_orphan k s) = refs s" "openDrafts (drop_orphan k s) = openDrafts s" "made (drop_orphan k s) = made s"
  "awaited (drop_orphan k s) = awaited s" "gone (drop_orphan k s) = gone s" "orphans (drop_orphan k s) = mdel k (orphans s)"
  "openTurnContext c (drop_orphan k s) = openTurnContext c s" "holder (drop_orphan k s) = holder s" "chat_of (drop_orphan k s) = chat_of s"
  by (simp_all add: drop_orphan_def gone_def openTurnContext_def holder_def chat_of_def fun_eq_iff)

lemma forget_is_drop: "forgetOrphanDraft c s = drop_orphan (orphanKey c) s"
  by (simp add: forgetOrphanDraft_def drop_orphan_def)

lemma drop_orphan_ok: "drafts_ok q b s \<Longrightarrow> drafts_ok q b (drop_orphan k s)"
  by (auto simp: drafts_ok_def refs_ok_def one_owner_def orphans_ok_def all_owned_def split: if_splits)

lemma take_held_ok:
  assumes ok: "drafts_ok q b s" and n: "holder s n d" and none: "mget (orphans s) (orphanKey (chat_of s n)) = None"
  shows "drafts_ok q b (take_draft d how (set_ref n None s))"
proof -
  let ?t = "take_draft d how (set_ref n None s)"
  have len: "n < length (refs s)" using n by (simp add: holder_def)
  have holder: "holder (set_ref n None s) m e \<longleftrightarrow> m \<noteq> n \<and> holder s m e" for m e by (simp add: holder_set_ref [OF len])
  have other: "e \<noteq> d" if "m \<noteq> n" "holder s m e" for m e using ok n that by (auto simp: drafts_ok_def one_owner_def)
  note d = drafts_okD [OF ok]
  have "refs_ok q ?t" using d(1) len by (auto simp: refs_ok_def holder ref_set_ref)
  moreover have "one_owner ?t" unfolding one_owner_def
  proof (intro conjI allI impI)
    show "m = m'" if "holder ?t m e \<and> holder ?t m' e" for m m' e using that one_ownerD(1) [OF d(2)] by (auto simp: holder)
    show "e < made ?t" if "holder ?t m e" for m e using that one_ownerD(2) [OF d(2)] by (auto simp: holder)
    show "e \<notin> set (gone ?t)" if "holder ?t m e" for m e
      using that one_ownerD(3) [OF d(2)] other by (auto simp: holder gone_take)
    show "distinct (gone ?t)" using one_ownerD(3,4) [OF d(2)] n by (simp add: gone_take)
    show "\<forall>e \<in> set (gone ?t). e < made ?t" using one_ownerD(2,5) [OF d(2)] n by (auto simp: gone_take)
  qed
  moreover have "orphans_ok ?t" unfolding orphans_ok_def
  proof (intro conjI allI impI)
    fix k e assume e: "mget (orphans ?t) k = Some e"
    then have e': "mget (orphans s) k = Some e" by simp
    show "e < made ?t" using orphans_okD(1) [OF d(3) e'] by simp
    have "e \<noteq> d" using orphans_okD(3) [OF d(3) e', of n] n none e' by auto
    then show "e \<notin> set (gone ?t)" using orphans_okD(2) [OF d(3) e'] by (simp add: gone_take)
    show "k = orphanKey (chat_of ?t m)" if "holder ?t m e" for m
      using that orphans_okD(3) [OF d(3) e'] len by (simp add: holder)
  qed (use orphans_okD(4) [OF d(3)] in auto)
  moreover have "all_owned q b ?t" unfolding all_owned_def
  proof (intro allI impI)
    fix e assume q and "b \<le> e \<and> e < made ?t"
    then have "e \<in> set (gone s) \<or> (\<exists>m. holder s m e)" using d(4) by (simp add: all_owned_def)
    then consider "e \<in> set (gone s)" | m where "holder s m e" by blast
    then show "e \<in> set (gone ?t) \<or> (\<exists>m. holder ?t m e)"
    proof cases
      case (2 m)
      show ?thesis
      proof (cases "m = n")
        case True
        with 2 n show ?thesis by (simp add: gone_take holder_def)
      next
        case False
        with 2 have "holder ?t m e" by (simp add: holder)
        then show ?thesis by blast
      qed
    qed (simp add: gone_take)
  qed
  ultimately show ?thesis by (simp add: drafts_ok_def)
qed

text \<open>A path that takes a draft nobody holds and no orphan names.\<close>

lemma take_free_ok:
  assumes "drafts_ok q b s" and "d < made s" and "d \<notin> set (gone s)" and "\<And>n. \<not> holder s n d" and "\<And>k. mget (orphans s) k \<noteq> Some d"
  shows "drafts_ok q b (take_draft d how s)"
proof -
  let ?t = "take_draft d how s"
  note ok = drafts_okD [OF assms(1)]
  have "refs_ok q ?t" using ok(1) by (simp add: refs_ok_def)
  moreover have "one_owner ?t" unfolding one_owner_def
  proof (intro conjI allI impI)
    show "m = m'" if "holder ?t m e \<and> holder ?t m' e" for m m' e using that one_ownerD(1) [OF ok(2)] by auto
    show "e < made ?t" if "holder ?t m e" for m e using that one_ownerD(2) [OF ok(2)] by simp
    show "e \<notin> set (gone ?t)" if "holder ?t m e" for m e using that one_ownerD(3) [OF ok(2)] assms(4) by (auto simp: gone_take)
    show "distinct (gone ?t)" using one_ownerD(4) [OF ok(2)] assms(3) by (simp add: gone_take)
    show "\<forall>e \<in> set (gone ?t). e < made ?t" using one_ownerD(5) [OF ok(2)] assms(2) by (auto simp: gone_take)
  qed
  moreover have "orphans_ok ?t" unfolding orphans_ok_def
  proof (intro conjI allI impI)
    fix k e assume "mget (orphans ?t) k = Some e"
    then have e: "mget (orphans s) k = Some e" by simp
    show "e < made ?t" using orphans_okD(1) [OF ok(3) e] by simp
    show "e \<notin> set (gone ?t)" using orphans_okD(2) [OF ok(3) e] assms(5) e by (auto simp: gone_take)
    show "k = orphanKey (chat_of ?t m)" if "holder ?t m e" for m using that orphans_okD(3) [OF ok(3) e] by simp
  qed (use orphans_okD(4) [OF ok(3)] in auto)
  moreover have "all_owned q b ?t" using ok(4) by (auto simp: all_owned_def gone_take)
  ultimately show ?thesis by (simp add: drafts_ok_def)
qed

section \<open>Every step keeps it\<close>

lemma orphan_of_holder:
  assumes ok: "drafts_ok q b s" and c: "plain_chat c" and d: "mget (orphans s) (orphanKey c) = Some d" and n: "holder s n d"
  shows "chat_of s n = c"
proof -
  have "orphanKey c = orphanKey (chat_of s n)" by (rule orphans_okD(3) [OF drafts_okD(3) [OF ok] d n])
  moreover have "plain_chat (chat_of s n)" using refs_okD(1) [OF drafts_okD(1) [OF ok]] n by (simp add: holder_def)
  ultimately show ?thesis using c key_inj(2) by metis
qed

lemma set_ref_drop: "set_ref n i (drop_orphan k s) = drop_orphan k (set_ref n i s)"
  by (simp add: set_ref_def drop_orphan_def)

lemma take_dropped_ok:
  assumes "drafts_ok q b s" and "holder s n d"
  shows "drafts_ok q b (take_draft d how (drop_orphan (orphanKey (chat_of s n)) (set_ref n None s)))"
proof -
  have "drafts_ok q b (drop_orphan (orphanKey (chat_of s n)) s)" using assms(1) by (rule drop_orphan_ok)
  from take_held_ok [OF this, of n d how] assms(2) show ?thesis by (simp add: set_ref_drop)
qed

lemma send_claims_ok:
  assumes ok: "drafts_ok q b s" and c: "plain_chat c"
  shows "drafts_ok q b (send_claims c how s)"
proof (cases "openTurnContext c s")
  case None
  have nobody: "\<not> holder s n d" if d: "mget (orphans s) (orphanKey c) = Some d" for n d
  proof
    assume n: "holder s n d"
    then have "openTurnContext (chat_of s n) s = Some n" by (rule refs_okD(2) [OF drafts_okD(1) [OF ok]])
    with orphan_of_holder [OF ok c d n] None show False by simp
  qed
  show ?thesis
  proof (cases "mget (orphans s) (orphanKey c)")
    case None
    with \<open>openTurnContext c s = None\<close> drop_orphan_ok [OF ok] show ?thesis
      by (simp add: send_claims_def claimDraft_def claimOpenDraft_def forget_is_drop)
  next
    case (Some d)
    have only: "mget (orphans s) k \<noteq> Some d" if "k \<noteq> orphanKey c" for k
      using orphans_okD(4) [OF drafts_okD(3) [OF ok] Some] that by blast
    have "drafts_ok q b (take_draft d how (drop_orphan (orphanKey c) s))"
    proof (rule take_free_ok [OF drop_orphan_ok [OF ok]])
      show "d < made (drop_orphan (orphanKey c) s)" "d \<notin> set (gone (drop_orphan (orphanKey c) s))"
        using orphans_okD(1,2) [OF drafts_okD(3) [OF ok] Some] by simp_all
    qed (use nobody [OF Some] only in auto)
    with \<open>openTurnContext c s = None\<close> Some show ?thesis
      by (simp add: send_claims_def claimDraft_def claimOpenDraft_def forget_is_drop)
  qed
next
  case n: (Some n)
  have len: "n < length (refs s)" and key: "draftKey c = draftKey (chat_of s n)"
    using refs_okD(3,4) [OF drafts_okD(1) [OF ok]] n by (simp_all add: openTurnContext_def)
  moreover have "plain_chat (chat_of s n)" using len by (rule refs_okD(1) [OF drafts_okD(1) [OF ok]])
  ultimately have chat: "chat_of s n = c" using c key_inj(1) by metis
  show ?thesis
  proof (cases "ref_id (refs s ! n)")
    case (Some d)
    with len have "holder s n d" by (simp add: holder_def)
    from take_dropped_ok [OF ok this] chat Some n show ?thesis
      by (simp add: send_claims_def claimDraft_def claimOpenDraft_def forget_is_drop)
  next
    case None
    show ?thesis
    proof (cases "mget (orphans s) (orphanKey c)")
      case (Some d)
      have only: "mget (orphans s) k \<noteq> Some d" if "k \<noteq> orphanKey c" for k
        using orphans_okD(4) [OF drafts_okD(3) [OF ok] Some] that by blast
      have nobody: "\<not> holder s m d" for m
      proof
        assume m: "holder s m d"
        then have "openTurnContext (chat_of s m) s = Some m" by (rule refs_okD(2) [OF drafts_okD(1) [OF ok]])
        with orphan_of_holder [OF ok c Some m] n have "m = n" by simp
        with m None show False by (simp add: holder_def)
      qed
      have "drafts_ok q b (take_draft d how (drop_orphan (orphanKey c) s))"
      proof (rule take_free_ok [OF drop_orphan_ok [OF ok]])
        show "d < made (drop_orphan (orphanKey c) s)" "d \<notin> set (gone (drop_orphan (orphanKey c) s))"
          using orphans_okD(1,2) [OF drafts_okD(3) [OF ok] Some] by simp_all
      qed (use nobody only in auto)
      with n None Some show ?thesis
        by (simp add: send_claims_def claimDraft_def claimOpenDraft_def forget_is_drop)
    next
      case none: None
      with n None drop_orphan_ok [OF ok] show ?thesis
        by (simp add: send_claims_def claimDraft_def claimOpenDraft_def forget_is_drop)
    qed
  qed
qed

lemma endDraft_ok: "drafts_ok q b s \<Longrightarrow> n < length (refs s) \<Longrightarrow> drafts_ok q b (snd (endDraft n streamed s))"
  using take_dropped_ok [of q b s n _ "handed_over streamed"]
  by (auto simp: endDraft_def forget_is_drop holder_def chat_of_def split: option.split)

lemma openDraft_ok:
  "drafts_ok q b s \<Longrightarrow> draft_allowed q s (OpenDraft n) \<Longrightarrow> drafts_ok q b (openDraft n s)"
  by (auto simp: drafts_ok_def refs_ok_def one_owner_def orphans_ok_def all_owned_def openDraft_def
    gone_def openTurnContext_def holder_def chat_of_def)

text \<open>A holder that gets a draft the server has just made.\<close>

lemma register_fresh_ok:
  assumes ok: "drafts_ok q b s" and len: "n < length (refs s)" and none: "q \<Longrightarrow> ref_id (refs s ! n) = None"
    and here: "openTurnContext (chat_of s n) s = Some n" and idle: "q \<Longrightarrow> n \<notin> set (awaited s)"
  shows "drafts_ok q b (registerOpenDraft n (set_ref n (Some (made s)) (s\<lparr>made := Suc (made s)\<rparr>)))" (is "drafts_ok q b ?t")
proof -
  note d = drafts_okD [OF ok]
  have chat: "chat_of ?t m = chat_of s m" for m
    by (simp add: registerOpenDraft_def chat_of_def ref_set_ref len set_ref_def nth_list_update)
  have holder: "holder ?t m e \<longleftrightarrow> (if m = n then e = made s else holder s m e)" for m e
    using len by (auto simp: registerOpenDraft_def holder_def set_ref_def nth_list_update)
  have lens: "length (refs ?t) = length (refs s)" and made: "made ?t = Suc (made s)" and gone: "gone ?t = gone s"
    and awaited: "awaited ?t = awaited s"
    and orphans: "mget (orphans ?t) k = (if k = orphanKey (chat_of s n) then Some (made s) else mget (orphans s) k)"
    and drafts: "mget (openDrafts ?t) k = (if k = draftKey (chat_of s n) then Some n else mget (openDrafts s) k)" for k
    using len by (simp_all add: registerOpenDraft_def set_ref_def gone_def chat_of_def)
  have ids: "ref_id (refs ?t ! m) = (if m = n then Some (made s) else ref_id (refs s ! m))" for m
    using len by (simp add: registerOpenDraft_def set_ref_def nth_list_update)
  have fresh: "\<not> holder s m (made s)" "made s \<notin> set (gone s)" for m
    using one_ownerD(2,5) [OF d(2)] by blast+
  have ctx: "openTurnContext c ?t = (if draftKey c = draftKey (chat_of s n) then Some n else openTurnContext c s)" for c
    by (simp add: openTurnContext_def drafts)
  have "refs_ok q ?t" unfolding refs_ok_def
  proof (intro conjI allI impI ballI)
    show "plain_chat (chat_of ?t m)" if "m < length (refs ?t)" for m using that refs_okD(1) [OF d(1)] by (simp add: chat lens)
    show "openTurnContext (chat_of ?t m) ?t = Some m" if m: "holder ?t m e" for m e
    proof (cases "m = n")
      case False
      then have "holder s m e" using m by (simp add: holder)
      then have reg: "openTurnContext (chat_of s m) s = Some m" by (rule refs_okD(2) [OF d(1)])
      with here False have "draftKey (chat_of s m) \<noteq> draftKey (chat_of s n)" by (auto simp: openTurnContext_def)
      with reg show ?thesis by (simp add: chat ctx)
    qed (simp add: chat ctx)
    show "m < length (refs ?t)" "k = draftKey (chat_of ?t m)" if "mget (openDrafts ?t) k = Some m" for k m
      using that refs_okD(3,4) [OF d(1)] len by (auto simp: drafts lens chat split: if_splits)
    show "m < length (refs ?t)" if "m \<in> set (awaited ?t)" for m using that refs_okD(5) [OF d(1)] by (simp add: awaited lens)
    show "distinct (awaited ?t)" if q using refs_okD(7) [OF d(1) that] by (simp add: awaited)
    show "ref_id (refs ?t ! m) = None" if q "m \<in> set (awaited ?t)" for m
      using that refs_okD(6) [OF d(1)] idle by (auto simp: awaited ids)
  qed
  moreover have "one_owner ?t" unfolding one_owner_def
  proof (intro conjI allI impI ballI)
    show "m = m'" if "holder ?t m e \<and> holder ?t m' e" for m m' e
      using that one_ownerD(1) [OF d(2)] fresh by (auto simp: holder split: if_splits)
    show "e < made ?t" "e \<notin> set (gone ?t)" if "holder ?t m e" for m e
      using that one_ownerD(2,3) [OF d(2)] fresh by (auto simp: holder made gone less_Suc_eq split: if_splits)
    show "distinct (gone ?t)" using one_ownerD(4) [OF d(2)] by (simp add: gone)
    show "e < made ?t" if "e \<in> set (gone ?t)" for e using that one_ownerD(5) [OF d(2)] by (simp add: gone made less_Suc_eq)
  qed
  moreover have "orphans_ok ?t" unfolding orphans_ok_def
  proof (intro conjI allI impI)
    fix k e assume e: "mget (orphans ?t) k = Some e"
    show "e < made ?t" "e \<notin> set (gone ?t)"
      using e orphans_okD(1,2) [OF d(3)] fresh by (auto simp: orphans made gone less_Suc_eq split: if_splits)
    show "k = orphanKey (chat_of ?t m)" if "holder ?t m e" for m
      using that e fresh orphans_okD(1,3) [OF d(3)] by (auto simp: orphans holder chat split: if_splits)
  next
    fix k k' e assume "mget (orphans ?t) k = Some e \<and> mget (orphans ?t) k' = Some e"
    then show "k = k'" using orphans_okD(1,4) [OF d(3)] by (auto simp: orphans split: if_splits)
  qed
  moreover have "all_owned q b ?t" unfolding all_owned_def
  proof (intro allI impI)
    fix e assume q: q and e: "b \<le> e \<and> e < made ?t"
    show "e \<in> set (gone ?t) \<or> (\<exists>m. holder ?t m e)"
    proof (cases "e = made s")
      case False
      with e have "e \<in> set (gone s) \<or> (\<exists>m. holder s m e)" using d(4) q by (auto simp: all_owned_def made)
      moreover have "\<not> holder s n e" using none [OF q] by (simp add: holder_def)
      ultimately show ?thesis by (auto simp: gone holder)
    qed (auto simp: holder)
  qed
  ultimately show ?thesis by (simp add: drafts_ok_def)
qed

text \<open>A new turn's handle, before it is registered and without a draft.\<close>

lemma new_ref_ok:
  assumes ok: "drafts_ok q b s" and c: "plain_chat c"
  shows "drafts_ok q b (s\<lparr>refs := refs s @ [\<lparr>ref_chat = c, ref_id = None\<rparr>]\<rparr>)" (is "drafts_ok q b ?t")
proof -
  note d = drafts_okD [OF ok]
  have holder: "holder ?t m e \<longleftrightarrow> holder s m e" for m e by (auto simp: holder_def nth_append less_Suc_eq)
  have chat: "chat_of ?t m = chat_of s m" if "m < length (refs s)" for m using that by (simp add: chat_of_def nth_append)
  have held: "m < length (refs s)" if "holder s m e" for m e using that by (simp add: holder_def)
  have gone: "gone ?t = gone s" by (simp add: gone_def)
  have ctx: "openTurnContext k ?t = openTurnContext k s" for k by (simp add: openTurnContext_def)
  have "refs_ok q ?t" unfolding refs_ok_def
  proof (intro conjI allI impI ballI)
    show "plain_chat (chat_of ?t m)" if "m < length (refs ?t)" for m
      using that refs_okD(1) [OF d(1)] c by (auto simp: chat_of_def nth_append less_Suc_eq)
    show "openTurnContext (chat_of ?t m) ?t = Some m" if "holder ?t m e" for m e
      using that refs_okD(2) [OF d(1)] held by (auto simp: holder chat ctx)
    show "m < length (refs ?t)" "k = draftKey (chat_of ?t m)" if "mget (openDrafts ?t) k = Some m" for k m
      using that refs_okD(3,4) [OF d(1), of k m] by (simp_all add: chat)
    show "m < length (refs ?t)" if "m \<in> set (awaited ?t)" for m using that refs_okD(5) [OF d(1), of m] by simp
    show "distinct (awaited ?t)" if q using refs_okD(7) [OF d(1) that] by simp
    show "ref_id (refs ?t ! m) = None" if q "m \<in> set (awaited ?t)" for m
      using that refs_okD(5,6) [OF d(1), of m] by (simp add: nth_append)
  qed
  moreover have "one_owner ?t" using d(2) by (simp add: one_owner_def holder gone)
  moreover have "orphans_ok ?t" unfolding orphans_ok_def
  proof (intro conjI allI impI)
    fix k e assume "mget (orphans ?t) k = Some e"
    then have e: "mget (orphans s) k = Some e" by simp
    show "e < made ?t" "e \<notin> set (gone ?t)" using orphans_okD(1,2) [OF d(3) e] by (simp_all add: gone)
    show "k = orphanKey (chat_of ?t m)" if "holder ?t m e" for m
      using that orphans_okD(3) [OF d(3) e] held by (auto simp: holder chat)
  qed (use orphans_okD(4) [OF d(3)] in auto)
  moreover have "all_owned q b ?t" using d(4) by (simp add: all_owned_def holder gone)
  ultimately show ?thesis by (simp add: drafts_ok_def)
qed

text \<open>Registering a handle of a chat that has none in flight.\<close>

lemma register_empty_ok:
  assumes ok: "drafts_ok q b s" and len: "n < length (refs s)" and free: "openTurnContext (chat_of s n) s = None"
  shows "drafts_ok q b (s\<lparr>openDrafts := mset_key (draftKey (chat_of s n)) n (openDrafts s)\<rparr>)" (is "drafts_ok q b ?t")
proof -
  note d = drafts_okD [OF ok]
  have same: "holder ?t = holder s" "chat_of ?t = chat_of s" "gone ?t = gone s"
    by (simp_all add: holder_def chat_of_def gone_def fun_eq_iff)
  have ctx: "openTurnContext c ?t = (if draftKey c = draftKey (chat_of s n) then Some n else openTurnContext c s)" for c
    by (simp add: openTurnContext_def)
  have "refs_ok q ?t" unfolding refs_ok_def
  proof (intro conjI allI impI ballI)
    show "plain_chat (chat_of ?t m)" if "m < length (refs ?t)" for m using that refs_okD(1) [OF d(1)] by (simp add: same)
    show "openTurnContext (chat_of ?t m) ?t = Some m" if "holder ?t m e" for m e
    proof -
      have "openTurnContext (chat_of s m) s = Some m" using that by (auto simp: same intro: refs_okD(2) [OF d(1)])
      with free show ?thesis by (auto simp: ctx same openTurnContext_def)
    qed
    show "m < length (refs ?t)" "k = draftKey (chat_of ?t m)" if "mget (openDrafts ?t) k = Some m" for k m
      using that refs_okD(3,4) [OF d(1)] len by (auto simp: same split: if_splits)
    show "m < length (refs ?t)" if "m \<in> set (awaited ?t)" for m using that refs_okD(5) [OF d(1), of m] by simp
    show "distinct (awaited ?t)" if q using refs_okD(7) [OF d(1) that] by simp
    show "ref_id (refs ?t ! m) = None" if q "m \<in> set (awaited ?t)" for m using that refs_okD(6) [OF d(1)] by simp
  qed
  then show ?thesis using d by (simp add: drafts_ok_def one_owner_def orphans_ok_def all_owned_def same)
qed

lemma turn_begins_ok:
  assumes ok: "drafts_ok q b s" and c: "plain_chat c" and free: "openTurnContext c s = None"
  shows "drafts_ok q b (turn_begins c made_one s)"
proof -
  let ?n = "length (refs s)"
  let ?s1 = "s\<lparr>refs := refs s @ [\<lparr>ref_chat = c, ref_id = None\<rparr>]\<rparr>"
  let ?s2 = "?s1\<lparr>openDrafts := mset_key (draftKey c) ?n (openDrafts s)\<rparr>"
  have chat: "chat_of ?s1 ?n = c" by (simp add: chat_of_def)
  have s1: "drafts_ok q b ?s1" using ok c by (rule new_ref_ok)
  have "openTurnContext (chat_of ?s1 ?n) ?s1 = None" using free unfolding chat by (simp add: openTurnContext_def)
  then have s2: "drafts_ok q b ?s2" using register_empty_ok [OF s1, of ?n] unfolding chat by simp
  show ?thesis
  proof (cases made_one)
    case False
    with s2 show ?thesis by (simp add: turn_begins_def registerOpenDraft_def)
  next
    case True
    have "?n \<notin> set (awaited s)" using refs_okD(5) [OF drafts_okD(1) [OF ok], of ?n] by auto
    then have "drafts_ok q b (registerOpenDraft ?n (set_ref ?n (Some (made ?s2)) (?s2\<lparr>made := Suc (made ?s2)\<rparr>)))"
      by (intro register_fresh_ok [OF s2]) (simp_all add: openTurnContext_def chat_of_def)
    moreover have "mset_key k ?n (mset_key k ?n m) = mset_key k ?n m" for k :: string and m by (induction m) auto
    ultimately show ?thesis using True by (simp add: turn_begins_def registerOpenDraft_def set_ref_def)
  qed
qed

lemma unawait_ok: "drafts_ok q b s \<Longrightarrow> drafts_ok q b (s\<lparr>awaited := remove1 n (awaited s)\<rparr>)"
proof -
  assume ok: "drafts_ok q b s"
  have "refs_ok q (s\<lparr>awaited := remove1 n (awaited s)\<rparr>)"
    using drafts_okD(1) [OF ok] notin_set_remove1
    by (auto simp: refs_ok_def openTurnContext_def holder_def chat_of_def dest: in_set_remove1 set_remove1_subset [THEN subsetD])
  with ok show ?thesis
    by (simp add: drafts_ok_def one_owner_def orphans_ok_def all_owned_def gone_def holder_def chat_of_def)
qed

text \<open>A draft the server made that goes straight to a path.\<close>

lemma take_fresh_ok:
  assumes ok: "drafts_ok q b s"
  shows "drafts_ok q b (take_draft (made s) how (s\<lparr>made := Suc (made s)\<rparr>))" (is "drafts_ok q b ?t")
proof -
  note d = drafts_okD [OF ok]
  let ?u = "s\<lparr>made := Suc (made s)\<rparr>"
  have same: "holder ?u = holder s" "chat_of ?u = chat_of s" "gone ?u = gone s" "openTurnContext c ?u = openTurnContext c s" for c
    by (simp_all add: holder_def chat_of_def gone_def openTurnContext_def fun_eq_iff)
  have fresh: "\<not> holder s m (made s)" "made s \<notin> set (gone s)" "mget (orphans s) k \<noteq> Some (made s)" for m k
    using one_ownerD(2,5) [OF d(2)] orphans_okD(1) [OF d(3)] by blast+
  have "refs_ok q ?t" using d(1) by (simp add: refs_ok_def same)
  moreover have "one_owner ?t" unfolding one_owner_def
  proof (intro conjI allI impI ballI)
    show "m = m'" if "holder ?t m e \<and> holder ?t m' e" for m m' e
      using that one_ownerD(1) [OF d(2)] by (auto simp: same)
    show "e < made ?t" "e \<notin> set (gone ?t)" if "holder ?t m e" for m e
      using that one_ownerD(2,3) [OF d(2)] fresh by (auto simp: same gone_take less_Suc_eq)
    show "distinct (gone ?t)" using one_ownerD(4) [OF d(2)] fresh by (simp add: same gone_take)
    show "e < made ?t" if "e \<in> set (gone ?t)" for e
      using that one_ownerD(5) [OF d(2)] by (auto simp: same gone_take less_Suc_eq)
  qed
  moreover have "orphans_ok ?t" unfolding orphans_ok_def
  proof (intro conjI allI impI)
    fix k e assume "mget (orphans ?t) k = Some e"
    then have e: "mget (orphans s) k = Some e" by simp
    show "e < made ?t" "e \<notin> set (gone ?t)"
      using orphans_okD(1,2) [OF d(3) e] by (auto simp: same gone_take)
    show "k = orphanKey (chat_of ?t m)" if "holder ?t m e" for m
      using that orphans_okD(3) [OF d(3) e] by (simp add: same)
  qed (use orphans_okD(4) [OF d(3)] in auto)
  moreover have "all_owned q b ?t" using d(4) by (auto simp: all_owned_def same gone_take less_Suc_eq)
  ultimately show ?thesis by (simp add: drafts_ok_def)
qed

lemma draft_opened_ok:
  assumes ok: "drafts_ok q b s" and n: "n \<in> set (awaited s)"
  shows "drafts_ok q b (draft_opened n made_one s)"
proof -
  let ?s1 = "s\<lparr>awaited := remove1 n (awaited s)\<rparr>"
  have s1: "drafts_ok q b ?s1" using ok by (rule unawait_ok)
  note r = drafts_okD(1) [OF ok]
  have n1: "n < length (refs ?s1)" "q \<Longrightarrow> ref_id (refs ?s1 ! n) = None" "q \<Longrightarrow> n \<notin> set (awaited ?s1)"
    using refs_okD(5,6,7) [OF r] n by simp_all
  show ?thesis
  proof (cases "made_one \<and> openTurnContext (ref_chat (refs s ! n)) s = Some n")
    case True
    then have "openTurnContext (chat_of ?s1 n) ?s1 = Some n" by (simp add: chat_of_def openTurnContext_def)
    from register_fresh_ok [OF s1 n1(1,2) this n1(3)] True show ?thesis by (simp add: draft_opened_def Let_def)
  next
    case False
    with s1 take_fresh_ok [OF s1, of Cancelled] show ?thesis by (auto simp: draft_opened_def Let_def)
  qed
qed

lemma unregister_draft_ok:
  assumes ok: "drafts_ok q b s" and gone_id: "ref_id (refs s ! n) = None"
  shows "drafts_ok q b (unregisterOpenDraft n s)"
proof (cases "openTurnContext (ref_chat (refs s ! n)) s = Some n")
  case True
  let ?t = "s\<lparr>openDrafts := mdel (draftKey (chat_of s n)) (openDrafts s)\<rparr>"
  note d = drafts_okD [OF ok]
  have same: "holder ?t = holder s" "chat_of ?t = chat_of s" "gone ?t = gone s"
    by (simp_all add: holder_def chat_of_def gone_def fun_eq_iff)
  have here: "mget (openDrafts s) (draftKey (chat_of s n)) = Some n" using True by (simp add: openTurnContext_def chat_of_def)
  have "refs_ok q ?t" unfolding refs_ok_def
  proof (intro conjI allI impI ballI)
    show "plain_chat (chat_of ?t m)" if "m < length (refs ?t)" for m using that refs_okD(1) [OF d(1)] by (simp add: same)
    show "openTurnContext (chat_of ?t m) ?t = Some m" if "holder ?t m e" for m e
    proof -
      have m: "holder s m e" using that by (simp add: same)
      have "openTurnContext (chat_of s m) s = Some m" using m by (rule refs_okD(2) [OF d(1)])
      moreover have "m \<noteq> n" using m gone_id by (auto simp: holder_def)
      ultimately show ?thesis using here by (auto simp: openTurnContext_def same)
    qed
    show "m < length (refs ?t)" "k = draftKey (chat_of ?t m)" if "mget (openDrafts ?t) k = Some m" for k m
      using that refs_okD(3,4) [OF d(1)] by (auto simp: same split: if_splits)
    show "m < length (refs ?t)" if "m \<in> set (awaited ?t)" for m using that refs_okD(5) [OF d(1), of m] by simp
    show "distinct (awaited ?t)" if q using refs_okD(7) [OF d(1) that] by simp
    show "ref_id (refs ?t ! m) = None" if q "m \<in> set (awaited ?t)" for m using that refs_okD(6) [OF d(1)] by simp
  qed
  then have "drafts_ok q b ?t" using d by (simp add: drafts_ok_def one_owner_def orphans_ok_def all_owned_def same)
  from drop_orphan_ok [OF this] True show ?thesis
    by (simp add: unregisterOpenDraft_def forget_is_drop chat_of_def Let_def)
qed (use ok in \<open>simp add: unregisterOpenDraft_def Let_def\<close>)

lemma patch_goes_ok: "drafts_ok q b s \<Longrightarrow> drafts_ok q b (patch_goes d s)"
proof -
  assume ok: "drafts_ok q b s"
  let ?t = "patch_goes d s"
  have "set (gone ?t) = set (gone s)" by (auto simp: gone_def patch_goes_def)
  moreover have "distinct (gone s) \<longrightarrow> distinct (gone ?t)"
    by (auto simp: gone_def patch_goes_def distinct_map_filter)
  moreover have "holder ?t = holder s" "chat_of ?t = chat_of s" "refs ?t = refs s" "openDrafts ?t = openDrafts s"
      "orphans ?t = orphans s" "made ?t = made s" "awaited ?t = awaited s" "openTurnContext c ?t = openTurnContext c s" for c
    by (simp_all add: patch_goes_def holder_def chat_of_def openTurnContext_def fun_eq_iff)
  ultimately show ?thesis using ok by (simp add: drafts_ok_def refs_ok_def one_owner_def orphans_ok_def all_owned_def)
qed

lemma turn_ends_ok:
  assumes ok: "drafts_ok q b s" and len: "n < length (refs s)"
  shows "drafts_ok q b (turn_ends n how s)"
proof (cases "ref_id (refs s ! n)")
  case None
  then have "turn_ends n how s = unregisterOpenDraft n s"
    by (simp add: turn_ends_def unregisterOpenDraft_def forgetOrphanDraft_def Let_def)
  with unregister_draft_ok [OF ok None] show ?thesis by simp
next
  case (Some d)
  let ?u = "take_draft d how (drop_orphan (orphanKey (chat_of s n)) (set_ref n None s))"
  have n: "holder s n d" using Some len by (simp add: holder_def)
  then have reg: "openTurnContext (chat_of s n) s = Some n" by (rule refs_okD(2) [OF drafts_okD(1) [OF ok]])
  have "turn_ends n how s = unregisterOpenDraft n ?u"
    using reg Some len
    by (simp add: turn_ends_def unregisterOpenDraft_def forgetOrphanDraft_def Let_def openTurnContext_def chat_of_def
      take_draft_def set_ref_def drop_orphan_def mdel_def)
  moreover have "drafts_ok q b ?u" using ok n by (rule take_dropped_ok)
  moreover have "ref_id (refs ?u ! n) = None" using len by (simp add: ref_set_ref)
  ultimately show ?thesis using unregister_draft_ok by simp
qed

lemma draft_step_ok:
  assumes "drafts_ok q b s" and "draft_allowed q s e"
  shows "drafts_ok q b (draft_step s e)"
proof (cases e)
  case (OrphanExpires k)
  with drop_orphan_ok [OF assms(1), of k] show ?thesis by (simp add: drop_orphan_def)
qed (use assms in \<open>simp_all add: turn_begins_ok send_claims_ok endDraft_ok openDraft_ok draft_opened_ok turn_ends_ok patch_goes_ok\<close>)

text \<open>What a previous process left: drafts below the first one of this process, each under one key.\<close>

definition leftovers_ok :: "nat \<Rightarrow> (string, nat) jsmap \<Rightarrow> bool" where
  "leftovers_ok b left = (list_all (\<lambda>d. d < b) (map snd left) \<and> distinct (map fst left) \<and> distinct (map snd left))"

lemma drafts_start_ok: "leftovers_ok b left \<Longrightarrow> drafts_ok q b (drafts_start b left)"
proof -
  assume left: "leftovers_ok b left"
  have "k = k'" if "mget left k = Some d" "mget left k' = Some d" for k k' d
  proof -
    have "(k, d) \<in> set left" "(k', d) \<in> set left" using that by (auto dest: mget_SomeD)
    then show ?thesis using left by (auto simp: leftovers_ok_def distinct_map dest: inj_onD [where x = "(k, d)" and y = "(k', d)"])
  qed
  moreover have "d < b" if "mget left k = Some d" for k d
    using left mget_SomeD [OF that] by (auto simp: leftovers_ok_def list_all_iff)
  ultimately show ?thesis
    by (auto simp: drafts_start_def drafts_ok_def refs_ok_def one_owner_def orphans_ok_def all_owned_def gone_def holder_def)
qed

interpretation drafts: guarded_system "drafts_start b left" draft_step "draft_allowed q"
    "\<lambda>s. leftovers_ok b left \<longrightarrow> drafts_ok q b s" for b left q
  by unfold_locales (simp_all add: drafts_start_ok draft_step_ok)

section \<open>Properties\<close>

definition no_turn :: "drafts \<Rightarrow> bool" where
  "no_turn s = (openDrafts s = [] \<and> awaited s = [])"

lemma count_distinct: "distinct xs \<Longrightarrow> count_list xs x = (if x \<in> set xs then 1 else 0)"
  by (induction xs) auto

text \<open>C25: A draft is settled once. While a chat has one turn at a time, however the paths over the drafts interleave, no two of them take one
  draft, so a draft gets at most one finishing request. If moreover a turn asks for a fresh draft only when it has none and none is on
  its way, then with no turn left and no draft on its way every draft this process made has been taken by exactly one path, and has
  had exactly one finishing request once no path has one to send.\<close>

theorem draft_is_settled_once:
  assumes "leftovers_ok b left" and "obeys (draft_allowed strict) draft_step (drafts_start b left) es"
    and "s = run draft_step (drafts_start b left) es"
  shows "count_list (map fst (taken s) @ map fst (patches_sent s)) d \<le> 1 \<and>
    (if strict \<and> no_turn s \<and> b \<le> d \<and> d < made s
     then count_list (map fst (taken s) @ map fst (patches_sent s)) d = 1 \<and>
       (taken s = [] \<longrightarrow> count_list (map fst (patches_sent s)) d = 1)
     else True)"
proof -
  have ok: "drafts_ok strict b s" using drafts.good_disciplined_run [OF assms(2)] assms(1,3) by simp
  note dr = drafts_okD [OF ok]
  have "d \<in> set (gone s)" if none: "no_turn s" and new: "b \<le> d" "d < made s" and strict
  proof -
    have "\<not> holder s n d" for n
      using refs_okD(2) [OF dr(1), of n d] none by (auto simp: no_turn_def openTurnContext_def)
    with dr(4) new \<open>strict\<close> show ?thesis by (auto simp: all_owned_def)
  qed
  with one_ownerD(4) [OF dr(2)] show ?thesis by (auto simp: count_distinct gone_def)
qed

definition demo_chat :: chat where "demo_chat = (''a'', ''7'')"

text \<open>A turn whose draft ends above a block, whose next draft a reply claims, and which then ends.\<close>

definition demo_drafts :: "draft_event list" where
  "demo_drafts = [TurnBegins demo_chat True, EndDraft 0 ''so far'', OpenDraft 0, PatchGoes 1, DraftOpened 0 True,
     SendClaims demo_chat (Finished_As ''done''), PatchGoes 2, TurnEnds 0 Cancelled]"

theorem draft_is_settled_once_witness:
  "count_list (map fst (patches_sent (run draft_step (drafts_start 1 [(''a:9'', 0)]) demo_drafts))) 2 = 1"
proof -
  have left: "leftovers_ok 1 [(''a:9'', 0)]" by (simp add: leftovers_ok_def)
  have obeys: "obeys (draft_allowed True) draft_step (drafts_start 1 [(''a:9'', 0)]) demo_drafts" by code_simp
  have "no_turn (run draft_step (drafts_start 1 [(''a:9'', 0)]) demo_drafts)"
      "taken (run draft_step (drafts_start 1 [(''a:9'', 0)]) demo_drafts) = []"
      "made (run draft_step (drafts_start 1 [(''a:9'', 0)]) demo_drafts) = 3" by code_simp+
  with draft_is_settled_once [OF left obeys refl, of 2] show ?thesis by simp
qed

text \<open>
  Two questions asked at once in one turn: both see its draft open before either has ended it, so each opens a fresh one when it is
  answered, and the first of the two is forgotten when the turn ends.
\<close>

theorem parallel_questions_leak_draft:
  "(let s = run draft_step (drafts_start 0 [])
      [TurnBegins demo_chat True, EndDraft 0 [], EndDraft 0 [], OpenDraft 0, DraftOpened 0 True, OpenDraft 0, DraftOpened 0 True,
       TurnEnds 0 Cancelled]
    in no_turn s \<and> made s = 3 \<and> gone s = [0, 2])"
  by code_simp

end
