(* ===== verification/Turn_Dispatch.thy ===== *)
theory Turn_Dispatch
  imports Game_Guards Dispatch_Guard Model_Choice
begin

text \<open>
  One inbound message as a turn (\<open>dispatchInboundMessage\<close> of \<open>plugin/src/gateway-adapter.ts\<close>): what it is (a chat message, an
  operator's command, a typed answer, a game move), the route and session it runs in, what the chat shows while it runs,
  what of its finals goes out, and how its draft and its failure are settled. What the host answers is a \<open>turn_host\<close>; the result is the effects
  in their order and whether the dispatch throws. Attachments, the text the agent is given, the channel's status rows, spans and logs are
  not modelled.
\<close>

section \<open>Commands of the operator\<close>

text \<open>\<open>(?=\s|$)\<close>\<close>

definition at_word_end :: "string \<Rightarrow> bool" where
  "at_word_end s = (case s of [] \<Rightarrow> True | c # _ \<Rightarrow> is_ws c)"

definition session_words :: "(string \<times> string) list" where
  "session_words = [(''new'', ''/new''), (''reset'', ''/reset''), (''start'', ''/new''), (''clear'', ''/reset'')]"

definition says_command :: "string \<Rightarrow> string \<Rightarrow> bool" where
  "says_command t w =
     (lower (take (Suc (length w)) t) = CHR ''/'' # w \<and> at_word_end (drop (Suc (length w)) t))"

definition normalizeSessionCommand :: "string \<Rightarrow> string option" where
  "normalizeSessionCommand text =
     map_option (\<lambda>(w, command). command @ drop (Suc (length w)) (trim text))
       (List.find (\<lambda>(w, command). says_command (trim text) w) session_words)"

definition normalizeUsageCommand :: "string \<Rightarrow> string option" where
  "normalizeUsageCommand text = (if lower (trim text) = ''/usage'' then Some ''/usage cost'' else None)"

definition is_letter :: "char \<Rightarrow> bool" where
  "is_letter c = (is_lower c \<or> is_upper c)"

text \<open>\<open>/^\/([a-z]+)(?:\s|$)/iu\<close>, its word in lower case.\<close>

definition slash_word :: "string \<Rightarrow> string option" where
  "slash_word t = (case t of
      c # r \<Rightarrow> (let w = takeWhile is_letter r in
        if c = CHR ''/'' \<and> w \<noteq> [] \<and> at_word_end (drop (length w) r) then Some (lower w) else None)
    | [] \<Rightarrow> None)"

definition PICK_ABOVE :: string where "PICK_ABOVE = ''Pick the model and effort from the composer.''"

definition operatorDmAnswer :: "string \<Rightarrow> string \<Rightarrow> model_choice \<Rightarrow> string option" where
  "operatorDmAnswer help text choice =
     (let command = slash_word (trim text) in
      if command = Some ''help'' then Some help
      else (let pinned = (if command = Some ''model'' then c_model choice
                  else if command \<in> {Some ''think'', Some ''thinking'', Some ''t''} then c_thinking choice else None)
            in if pinned = None then None else Some PICK_ABOVE))"

text \<open>\<open>/^\/[a-z][a-z-]*(?:\s|$)/iu\<close>\<close>

definition is_text_command :: "string \<Rightarrow> bool" where
  "is_text_command t = (case t of
      c # d # r \<Rightarrow> c = CHR ''/'' \<and> is_letter d \<and> at_word_end (dropWhile (\<lambda>x. is_letter x \<or> x = CHR ''-'') r)
    | _ \<Rightarrow> False)"

section \<open>Tags of replies\<close>

definition REPLY_PUNCTUATION :: string where "REPLY_PUNCTUATION = '',.:;!?''"

definition tagReplyBody :: "string \<Rightarrow> string option \<Rightarrow> string" where
  "tagReplyBody body senderTag = (case map_option trim senderTag of
      Some (c # cs) \<Rightarrow>
        (let raw = c # cs; tag = (if c = CHR ''@'' then raw else CHR ''@'' # raw);
             leading = takeWhile is_ws body; rest = dropWhile is_ws body in
         if starts_with (lower rest) (lower tag) \<and>
            (case drop (length tag) rest of [] \<Rightarrow> True | x # _ \<Rightarrow> is_ws x \<or> x \<in> set REPLY_PUNCTUATION)
         then body else leading @ tag @ CHR '' '' # rest)
    | _ \<Rightarrow> body)"

section \<open>The message and what answers it\<close>

record inbound_message =
  im_text :: string
  im_channel :: string
  im_type :: "string option"
  im_sender :: string
  im_game :: "string option"
  im_click :: bool
  im_answer :: bool
  im_tag :: "string option"

record turn_account =
  ta_channel :: "string option"
  ta_shimmer :: bool
  ta_streaming :: bool
  ta_activity :: bool

record turn_peer =
  tp_direct :: bool
  tp_id :: string

record final_payload =
  fp_text :: "string option"
  fp_media :: "string option"

text \<open>What the queue of outbound sends says of a final: sent, held to be posted later, or failed.\<close>

datatype send_status = Sent | HeldForRetry | SendFailed

record turn_host =
  th_ready :: bool
  th_client :: bool
  th_answers :: bool
  th_help :: string
  th_choice :: model_choice
  th_route :: "turn_peer \<Rightarrow> guard_target option"
  th_generation :: nat
  th_draft :: "nat option"
  th_finals :: "(final_payload \<times> send_status) list"
  th_errors :: nat
  th_throws :: bool
  th_adopted :: bool
  th_stopped :: bool
  th_streamed :: string
  th_draft_left :: bool

record turn_call =
  tc_peer :: turn_peer
  tc_session :: "guard_target option"
  tc_recipient :: string
  tc_originating :: string
  tc_command :: string
  tc_authorized :: bool

datatype ending = StoppedWith string | Tombstone | CancelDraft

datatype turn_effect =
    Answered string
  | StatusIs string
  | OpensDraft
  | FollowsTurn bool bool
  | RegistersHandle
  | RunsTurn turn_call
  | SendsFinal "string option" "string option"
  | DeliveryNotice
  | SettlesDraft nat ending

section \<open>What a message is\<close>

definition isDirectChannel :: "inbound_message \<Rightarrow> bool" where
  "isDirectChannel m = (im_game m = None \<and> im_type m \<in> {None, Some ''direct''})"

definition isOperatorDm :: "turn_account \<Rightarrow> inbound_message \<Rightarrow> bool" where
  "isOperatorDm A m =
     (im_game m = None \<and> \<not> im_click m \<and> im_type m = Some ''direct'' \<and> Some (im_channel m) = ta_channel A)"

definition session_command :: "turn_account \<Rightarrow> inbound_message \<Rightarrow> string option" where
  "session_command A m = (if isOperatorDm A m then normalizeSessionCommand (im_text m) else None)"

definition effectiveText :: "turn_account \<Rightarrow> inbound_message \<Rightarrow> string" where
  "effectiveText A m = (case session_command A m of
      Some t \<Rightarrow> t
    | None \<Rightarrow> (case (if isOperatorDm A m then normalizeUsageCommand (im_text m) else None) of
        Some t \<Rightarrow> t
      | None \<Rightarrow> im_text m))"

definition operator_answer :: "turn_host \<Rightarrow> turn_account \<Rightarrow> inbound_message \<Rightarrow> string option" where
  "operator_answer H A m = (if isOperatorDm A m then operatorDmAnswer (th_help H) (im_text m) (th_choice H) else None)"

definition authorized_command :: "turn_host \<Rightarrow> turn_account \<Rightarrow> inbound_message \<Rightarrow> bool" where
  "authorized_command H A m =
     (session_command A m \<noteq> None \<or>
      isOperatorDm A m \<and> operator_answer H A m = None \<and> is_text_command (trim (im_text m)))"

definition instant_command :: "turn_account \<Rightarrow> inbound_message \<Rightarrow> bool" where
  "instant_command A m = says_command (trim (effectiveText A m)) ''usage''"

definition usePreOpenShimmer :: "turn_account \<Rightarrow> inbound_message \<Rightarrow> bool" where
  "usePreOpenShimmer A m =
     (im_game m = None \<and> \<not> im_answer m \<and> (isDirectChannel m \<or> ta_shimmer A) \<and> \<not> instant_command A m)"

section \<open>Its route\<close>

definition chat_peer :: "inbound_message \<Rightarrow> turn_peer" where
  "chat_peer m =
     (if isDirectChannel m then \<lparr>tp_direct = True, tp_id = (if im_sender m = [] then im_channel m else im_sender m)\<rparr>
      else \<lparr>tp_direct = False, tp_id = im_channel m\<rparr>)"

definition game_peer :: "string \<Rightarrow> nat \<Rightarrow> turn_peer" where
  "game_peer i gen = \<lparr>tp_direct = False, tp_id = gamePeerId i gen\<rparr>"

definition own_session :: "guard_target option \<Rightarrow> string \<Rightarrow> nat option \<Rightarrow> bool" where
  "own_session target i gen = isOwnGameSession (map_option gt_session target) i gen"

text \<open>The peer and target a message runs in, or nothing for a game that has no session of its own.\<close>

definition turn_route :: "turn_host \<Rightarrow> inbound_message \<Rightarrow> (turn_peer \<times> guard_target option) option" where
  "turn_route H m = (case im_game m of
      None \<Rightarrow> Some (chat_peer m, th_route H (chat_peer m))
    | Some i \<Rightarrow>
       (let first = th_route H (game_peer i 0);
            gen = (if own_session first i None then th_generation H else 0);
            peer = game_peer i gen;
            target = (if 0 < gen then th_route H peer else first)
        in if own_session target i (Some gen) then Some (peer, target) else None))"

definition ADDRESS :: string where "ADDRESS = ''clawbits:''"

definition recipient_of :: "inbound_message \<Rightarrow> turn_peer \<Rightarrow> string" where
  "recipient_of m peer =
     (if im_game m \<noteq> None then ADDRESS @ tp_id peer
      else if isDirectChannel m then ADDRESS @ (if im_sender m = [] then im_channel m else im_sender m)
      else ADDRESS @ im_channel m)"

definition turn_call_of :: "turn_host \<Rightarrow> turn_account \<Rightarrow> inbound_message \<Rightarrow> turn_peer \<times> guard_target option \<Rightarrow> turn_call" where
  "turn_call_of H A m r =
     \<lparr>tc_peer = fst r, tc_session = (if im_answer m then None else snd r), tc_recipient = recipient_of m (fst r),
      tc_originating = (if isDirectChannel m then ADDRESS @ ''channel:'' @ im_channel m else recipient_of m (fst r)),
      tc_command = effectiveText A m, tc_authorized = authorized_command H A m\<rparr>"

section \<open>Its finals\<close>

text \<open>
  \<open>deliver\<close>: the body delivered last, and whether a final went out. A body that repeats it without media is dropped; a
  failed send is thrown to the host.
\<close>

record delivery =
  dl_last :: "string option"
  dl_delivered :: bool
  dl_effects :: "turn_effect list"

definition deliver :: "inbound_message \<Rightarrow> delivery \<Rightarrow> final_payload \<times> send_status \<Rightarrow> delivery" where
  "deliver m s f =
     (if im_game m \<noteq> None then s
      else let text = (case fp_text (fst f) of Some (c # cs) \<Rightarrow> Some (tagReplyBody (c # cs) (im_tag m)) | _ \<Rightarrow> None);
               media = fp_media (fst f)
        in if text = None \<and> media = None then s
           else if text = dl_last s \<and> media = None then s
           else \<lparr>dl_last = text, dl_delivered = (dl_delivered s \<or> snd f = Sent),
                  dl_effects = dl_effects s @ [SendsFinal text media]\<rparr>)"

definition delivered_finals :: "turn_host \<Rightarrow> inbound_message \<Rightarrow> turn_effect list" where
  "delivered_finals H m =
     dl_effects (foldl (deliver m) \<lparr>dl_last = None, dl_delivered = False, dl_effects = []\<rparr> (th_finals H))"

definition delivery_notices :: "turn_host \<Rightarrow> inbound_message \<Rightarrow> turn_effect list" where
  "delivery_notices H m =
     (if th_client H \<and> th_answers H \<and> im_game m = None then replicate (th_errors H) DeliveryNotice else [])"

section \<open>Its end\<close>

text \<open>\<open>last\<close> says whether an attempt on the queue is its last one; without a queue there is no other attempt.\<close>

definition turn_follows :: "turn_host \<Rightarrow> turn_account \<Rightarrow> inbound_message \<Rightarrow> bool" where
  "turn_follows H A m = (th_client H \<and> \<not> im_answer m \<and> (im_game m \<noteq> None \<or> ta_streaming A \<or> ta_activity A))"

definition STOPPED :: string where "STOPPED = [CHR 0x0A, CHR 0x0A] @ ''_(stopped)_''"

definition draft_ending :: "turn_host \<Rightarrow> turn_account \<Rightarrow> inbound_message \<Rightarrow> bool option \<Rightarrow> ending" where
  "draft_ending H A m attempt =
     (let partial = (if th_stopped H \<and> turn_follows H A m then trim (th_streamed H) else []) in
      if partial \<noteq> [] then StoppedWith (tagReplyBody (partial @ STOPPED) (im_tag m))
      else if th_throws H \<and> \<not> th_stopped H \<and> (attempt \<noteq> None \<and> th_adopted H \<or> attempt = None \<or> attempt = Some True)
      then Tombstone else CancelDraft)"

definition opened_draft :: "turn_host \<Rightarrow> turn_account \<Rightarrow> inbound_message \<Rightarrow> nat option" where
  "opened_draft H A m = (if th_client H \<and> usePreOpenShimmer A m then th_draft H else None)"

definition turn_settled :: "turn_host \<Rightarrow> turn_account \<Rightarrow> inbound_message \<Rightarrow> bool option \<Rightarrow> turn_effect list" where
  "turn_settled H A m attempt = (case opened_draft H A m of
      Some d \<Rightarrow> (if th_draft_left H then [SettlesDraft d (draft_ending H A m attempt)] else [])
    | None \<Rightarrow> [])"

definition rethrown :: "turn_host \<Rightarrow> bool option \<Rightarrow> bool" where
  "rethrown H attempt = (th_throws H \<and> attempt \<noteq> None \<and> \<not> th_adopted H)"

definition run_turn :: "turn_host \<Rightarrow> turn_account \<Rightarrow> inbound_message \<Rightarrow> bool option \<Rightarrow> turn_peer \<times> guard_target option \<Rightarrow> turn_effect list" where
  "run_turn H A m attempt r =
     (if th_client H \<and> usePreOpenShimmer A m then [StatusIs ''generating'', OpensDraft] else []) @
     (if turn_follows H A m then [FollowsTurn (im_game m = None \<and> ta_streaming A) (im_game m = None \<and> ta_activity A)] else []) @
     (if im_game m = None \<and> \<not> im_answer m then [RegistersHandle] else []) @
     [RunsTurn (turn_call_of H A m r)] @
     delivered_finals H m @ delivery_notices H m @
     turn_settled H A m attempt @
     (if im_game m = None \<and> \<not> im_answer m \<and> th_client H then [StatusIs ''online''] else [])"

definition dispatchInboundMessage ::
  "turn_host \<Rightarrow> turn_account \<Rightarrow> inbound_message \<Rightarrow> bool option \<Rightarrow> turn_effect list \<times> bool" where
  "dispatchInboundMessage H A m attempt = (case operator_answer H A m of
      Some reply \<Rightarrow> (if th_client H \<and> th_answers H then [Answered reply] else [], False)
    | None \<Rightarrow>
       (if \<not> th_ready H then ([], False)
        else case turn_route H m of
            None \<Rightarrow> ([], False)
          | Some r \<Rightarrow> (run_turn H A m attempt r, rethrown H attempt)))"

section \<open>A reply is tagged once\<close>

definition tagged :: "string \<Rightarrow> string \<Rightarrow> bool" where
  "tagged tag body =
     (starts_with (lower (dropWhile is_ws body)) (lower tag) \<and>
      (case drop (length tag) (dropWhile is_ws body) of [] \<Rightarrow> True | x # _ \<Rightarrow> is_ws x \<or> x \<in> set REPLY_PUNCTUATION))"

lemma drop_ws_leading: "\<not> is_ws c \<Longrightarrow> dropWhile is_ws (takeWhile is_ws b @ c # r) = c # r"
  by (induction b) auto

lemma at_not_ws: "\<not> is_ws CHR ''@''"
  by (simp add: is_ws_def)

lemma space_ws: "is_ws CHR '' ''"
  by (simp add: is_ws_def)

lemma tagged_after: "tagged (CHR ''@'' # t) (takeWhile is_ws b @ (CHR ''@'' # t) @ CHR '' '' # r)"
proof -
  have "dropWhile is_ws (takeWhile is_ws b @ (CHR ''@'' # t) @ CHR '' '' # r) = (CHR ''@'' # t) @ CHR '' '' # r"
    using drop_ws_leading [OF at_not_ws] by simp
  moreover have "starts_with (lower ((CHR ''@'' # t) @ CHR '' '' # r)) (lower (CHR ''@'' # t))" by (simp only: lower_append starts_with_append)
  ultimately show ?thesis by (simp add: tagged_def space_ws del: append_Cons)
qed

lemma tagReplyBody_cases:
  assumes "map_option trim senderTag = Some (c # cs)" and "tag = (if c = CHR ''@'' then c # cs else CHR ''@'' # c # cs)"
  shows "tagReplyBody body senderTag = (if tagged tag body then body else takeWhile is_ws body @ tag @ CHR '' '' # dropWhile is_ws body)"
  using assms by (cases senderTag) (simp_all add: tagReplyBody_def tagged_def Let_def)

lemma tag_twice: "tagReplyBody (tagReplyBody body t) t = tagReplyBody body t"
proof (cases "map_option trim t")
  case None
  then show ?thesis by (cases t) (simp_all add: tagReplyBody_def)
next
  case (Some raw)
  show ?thesis
  proof (cases raw)
    case Nil
    with Some show ?thesis by (cases t) (simp_all add: tagReplyBody_def)
  next
    case (Cons c cs)
    define tag where "tag = (if c = CHR ''@'' then c # cs else CHR ''@'' # c # cs)"
    then obtain u where u: "tag = CHR ''@'' # u" by (auto split: if_splits)
    note reply = tagReplyBody_cases [OF Some [unfolded Cons] tag_def]
    have "tagged tag (takeWhile is_ws body @ tag @ CHR '' '' # dropWhile is_ws body)" unfolding u by (rule tagged_after)
    then show ?thesis by (simp add: reply)
  qed
qed

section \<open>Properties\<close>

definition silent_move :: "string \<Rightarrow> turn_effect \<Rightarrow> bool" where
  "silent_move i e = (case e of
      RunsTurn c \<Rightarrow> own_session (tc_session c) i None \<and> tp_direct (tc_peer c) = False \<and> isGamePeerId (tp_id (tc_peer c))
    | FollowsTurn text steps \<Rightarrow> \<not> text \<and> \<not> steps
    | _ \<Rightarrow> False)"

lemma game_peer_is_game: "isGamePeerId (gamePeerId i gen)"
proof -
  have "lower GAME_PEER_PREFIX = GAME_PEER_PREFIX" by code_simp
  then show ?thesis by (simp add: isGamePeerId_def gamePeerId_def)
qed

lemma turn_route_game:
  "im_game m = Some i \<Longrightarrow> turn_route H m = Some r \<Longrightarrow>
   own_session (snd r) i None \<and> \<not> tp_direct (fst r) \<and> isGamePeerId (tp_id (fst r))"
  by (auto simp: turn_route_def Let_def game_peer_def game_peer_is_game own_session_def isOwnGameSession_def
    split: if_splits option.splits)

text \<open>Deliveries only add finals.\<close>

lemma deliver_adds: "e \<in> set (dl_effects (deliver m s f)) \<Longrightarrow> e \<in> set (dl_effects s) \<or> (\<exists>t x. e = SendsFinal t x)"
  by (auto simp: deliver_def Let_def split: if_splits)

lemma delivered_add: "e \<in> set (dl_effects (foldl (deliver m) s fs)) \<Longrightarrow> e \<in> set (dl_effects s) \<or> (\<exists>t x. e = SendsFinal t x)"
proof (induction fs arbitrary: s)
  case (Cons f fs)
  from Cons.IH [of "deliver m s f"] Cons.prems deliver_adds [of e m s f] show ?case by auto
qed simp

lemma delivered_finalsD: "e \<in> set (delivered_finals H m) \<Longrightarrow> \<exists>t x. e = SendsFinal t x"
  using delivered_add by (fastforce simp: delivered_finals_def)

lemma deliver_game: "im_game m = Some i \<Longrightarrow> foldl (deliver m) s fs = s"
  by (induction fs arbitrary: s) (simp_all add: deliver_def)

text \<open>C26: A game move shows nothing in the chat. Whatever the agent writes and however the run ends, a move opens no draft, sets no
  status, sends no final and no notice; it follows its run with both lanes off, and runs only in a session that is its game's own.\<close>

theorem moves_stay_silent:
  assumes "im_game m = Some i" and "\<not> im_answer m"
  shows "list_all (silent_move i) (fst (dispatchInboundMessage H A m attempt))"
proof -
  have none: "operator_answer H A m = None" using assms by (simp add: operator_answer_def isOperatorDm_def)
  show ?thesis
  proof (cases "turn_route H m")
    case (Some r)
    have "silent_move i (RunsTurn (turn_call_of H A m r))"
      using turn_route_game [OF assms(1) Some] assms(2) by (simp add: silent_move_def turn_call_of_def)
    then show ?thesis using assms none Some
      by (simp add: dispatchInboundMessage_def run_turn_def usePreOpenShimmer_def delivered_finals_def deliver_game
        delivery_notices_def turn_settled_def opened_draft_def silent_move_def [of i "FollowsTurn _ _"])
  qed (simp add: dispatchInboundMessage_def none)
qed

definition demo_message :: inbound_message where
  "demo_message = \<lparr>im_text = '' /new plan'', im_channel = ''7'', im_type = Some ''direct'', im_sender = ''3'', im_game = None,
     im_click = False, im_answer = False, im_tag = Some ''ann''\<rparr>"

definition demo_turn_account :: turn_account where
  "demo_turn_account = \<lparr>ta_channel = Some ''7'', ta_shimmer = True, ta_streaming = True, ta_activity = True\<rparr>"

definition demo_turn_host :: turn_host where
  "demo_turn_host = \<lparr>th_ready = True, th_client = True, th_answers = True, th_help = ''help'', th_choice = INHERIT,
     th_route = (\<lambda>peer. Some \<lparr>gt_session = ''agent:a:clawbits:channel:'' @ tp_id peer, gt_agent = Some ''a''\<rparr>),
     th_generation = 2, th_draft = Some 5, th_finals = [(\<lparr>fp_text = Some ''hi'', fp_media = None\<rparr>, Sent)], th_errors = 1,
     th_throws = True, th_adopted = False, th_stopped = False, th_streamed = ''par'', th_draft_left = True\<rparr>"

theorem moves_stay_silent_witness:
  "list_all (silent_move ''w1'')
     (fst (dispatchInboundMessage demo_turn_host demo_turn_account (demo_message\<lparr>im_game := Some ''w1''\<rparr>) None)) \<and>
   fst (dispatchInboundMessage demo_turn_host demo_turn_account (demo_message\<lparr>im_game := Some ''w1''\<rparr>) None) \<noteq> []"
proof
  show "list_all (silent_move ''w1'')
      (fst (dispatchInboundMessage demo_turn_host demo_turn_account (demo_message\<lparr>im_game := Some ''w1''\<rparr>) None))"
    by (rule moves_stay_silent) (simp_all add: demo_message_def)
  show "fst (dispatchInboundMessage demo_turn_host demo_turn_account (demo_message\<lparr>im_game := Some ''w1''\<rparr>) None) \<noteq> []"
    by code_simp
qed

text \<open>Commands are the operator's alone. Of a message that was not typed in the operator's own direct chat nothing is answered by the
  plugin, its text reaches the host as it was written, and it is never authorized as a command.\<close>

theorem commands_need_operator_dm:
  assumes "im_game m \<noteq> None \<or> im_click m \<or> im_type m \<noteq> Some ''direct'' \<or> Some (im_channel m) \<noteq> ta_channel A"
  shows "list_all (\<lambda>e. case e of Answered reply \<Rightarrow> False
        | RunsTurn c \<Rightarrow> tc_command c = im_text m \<and> \<not> tc_authorized c
        | _ \<Rightarrow> True) (fst (dispatchInboundMessage H A m attempt))" (is "list_all ?ok _")
proof -
  have no: "\<not> isOperatorDm A m" using assms by (auto simp: isOperatorDm_def)
  then have call: "tc_command (turn_call_of H A m r) = im_text m \<and> \<not> tc_authorized (turn_call_of H A m r)" for r
    by (simp add: turn_call_of_def effectiveText_def session_command_def authorized_command_def)
  have finals: "list_all ?ok (delivered_finals H m)" by (auto simp: list_all_iff dest!: delivered_finalsD)
  have "list_all ?ok (turn_settled H A m attempt)" by (simp add: turn_settled_def split: option.split)
  moreover have "list_all ?ok (delivery_notices H m)" by (simp add: delivery_notices_def list_all_iff)
  ultimately have "list_all ?ok (run_turn H A m attempt r)" for r
    using call finals by (simp add: run_turn_def)
  with no show ?thesis
    by (simp add: dispatchInboundMessage_def operator_answer_def split: option.split)
qed

theorem commands_need_operator_dm_witness:
  "list_all (\<lambda>e. case e of Answered reply \<Rightarrow> False
        | RunsTurn c \<Rightarrow> tc_command c = im_text (demo_message\<lparr>im_click := True\<rparr>) \<and> \<not> tc_authorized c
        | _ \<Rightarrow> True) (fst (dispatchInboundMessage demo_turn_host demo_turn_account (demo_message\<lparr>im_click := True\<rparr>) None)) \<and>
   effectiveText demo_turn_account demo_message = ''/new plan'' \<and> authorized_command demo_turn_host demo_turn_account demo_message"
  using commands_need_operator_dm [of "demo_message\<lparr>im_click := True\<rparr>" demo_turn_account demo_turn_host None]
  by (simp; code_simp)

text \<open>C27: A failed turn whose draft is still open tells the chat exactly when no other attempt will. When the dispatch of a turn
  throws, nobody stopped the turn, and it has opened a draft that nothing has settled yet, the draft becomes the failure notice exactly
  if the message is not handed back to the queue or this was its last attempt, and is taken back without a word exactly if the message
  is handed back and was not at its last attempt; and the message is handed back exactly if it came from the queue and the host
  had not adopted it. (Of a turn without an open draft it says nothing: such a turn leaves no notice.)\<close>

theorem failure_is_told_once:
  assumes "th_throws H" and "\<not> th_stopped H" and "th_ready H" and "operator_answer H A m = None" and "turn_route H m = Some r"
    and "opened_draft H A m = Some d" and "th_draft_left H"
  shows "(SettlesDraft d Tombstone \<in> set (fst (dispatchInboundMessage H A m attempt)))
      = (\<not> snd (dispatchInboundMessage H A m attempt) \<or> attempt = Some True) \<and>
    (SettlesDraft d CancelDraft \<in> set (fst (dispatchInboundMessage H A m attempt)))
      = (snd (dispatchInboundMessage H A m attempt) \<and> attempt = Some False) \<and>
    snd (dispatchInboundMessage H A m attempt) = (attempt \<noteq> None \<and> \<not> th_adopted H)"
proof -
  have finals: "SettlesDraft d how \<notin> set (delivered_finals H m)" for d how by (auto dest: delivered_finalsD)
  have notices: "SettlesDraft d how \<notin> set (delivery_notices H m)" for d how by (simp add: delivery_notices_def)
  have result: "dispatchInboundMessage H A m attempt = (run_turn H A m attempt r, rethrown H attempt)"
    using assms(3-5) by (simp add: dispatchInboundMessage_def)
  have ends: "SettlesDraft d how \<in> set (run_turn H A m attempt r) \<longleftrightarrow> how = draft_ending H A m attempt" for how
    using assms(6,7) finals notices by (auto simp: run_turn_def turn_settled_def)
  have how: "draft_ending H A m attempt = (if attempt \<noteq> None \<and> th_adopted H \<or> attempt = None \<or> attempt = Some True then Tombstone else CancelDraft)"
    using assms(1,2) by (simp add: draft_ending_def)
  show ?thesis unfolding result fst_conv snd_conv ends how rethrown_def using assms(1) by (cases attempt) auto
qed

theorem failure_is_told_once_witness:
  "SettlesDraft 5 CancelDraft \<in> set (fst (dispatchInboundMessage demo_turn_host demo_turn_account demo_message (Some False))) \<and>
   snd (dispatchInboundMessage demo_turn_host demo_turn_account demo_message (Some False))"
proof -
  have "operator_answer demo_turn_host demo_turn_account demo_message = None" by code_simp
  moreover have "opened_draft demo_turn_host demo_turn_account demo_message = Some 5" by code_simp
  moreover have "turn_route demo_turn_host demo_message = Some (chat_peer demo_message, th_route demo_turn_host (chat_peer demo_message))"
    by (simp add: turn_route_def demo_message_def)
  ultimately show ?thesis
    using failure_is_told_once [of demo_turn_host demo_turn_account demo_message _ 5 "Some False"]
    by (simp add: demo_turn_host_def)
qed

end
