(* ===== verification/Gateway_Upkeep.thy ===== *)
theory Gateway_Upkeep
  imports Turn_Dispatch
begin

text \<open>
  What the gateway does besides turns (\<open>plugin/src/gateway-adapter.ts\<close>): the start of an account with its version handshake and
  the notice of an outdated plugin, and the sweep of the sessions of games. The answers of the server and the
  host are arguments; the result is what is posted, started and deleted.
\<close>

section \<open>The notice of an outdated plugin\<close>

record version_check =
  vc_supported :: bool
  vc_plugin :: "string option"
  vc_minimum :: "string option"
  vc_message :: "string option"
  vc_operator :: "string option"

definition or_unknown :: "string option \<Rightarrow> string" where
  "or_unknown v = (case v of Some s \<Rightarrow> s | None \<Rightarrow> ''unknown'')"

definition notice_marker :: "version_check \<Rightarrow> string" where
  "notice_marker v =
     ''[clawbits-plugin-outdated-v'' @ or_unknown (vc_plugin v) @ ''-min-'' @ or_unknown (vc_minimum v) @ '']''"

definition post_messages :: "jsval \<Rightarrow> string list" where
  "post_messages posts = (case posts of
      JArr ps \<Rightarrow> List.map_filter (\<lambda>p. as_str (jget p ''message'')) ps
    | JObj fs \<Rightarrow> List.map_filter (\<lambda>f. as_str (jget (snd f) ''message'')) fs
    | _ \<Rightarrow> [])"

definition UPDATE_HINT :: string where
  "UPDATE_HINT = ''Update with `openclaw clawbits update` (prints the right command for this install).''"

definition notice_text :: "string \<Rightarrow> version_check \<Rightarrow> string" where
  "notice_text sign v =
     sign @ '' **'' @ (case vc_operator v of Some (c # s) \<Rightarrow> ''Hi '' @ (c # s) @ '','' | _ \<Rightarrow> ''Hi there,'') @
     '' plugin update required.**'' @ [CHR 0x0A, CHR 0x0A] @
     (case vc_message v of Some t \<Rightarrow> t | None \<Rightarrow> UPDATE_HINT) @ [CHR 0x0A, CHR 0x0A] @ ''_'' @ notice_marker v @ ''_''"

text \<open>The recent posts of the channel, \<open>None\<close> when they cannot be read; what is posted. \<open>sign\<close> is the warning sign.\<close>

definition postOutdatedNoticeOnce :: "string \<Rightarrow> version_check \<Rightarrow> jsval option \<Rightarrow> string option" where
  "postOutdatedNoticeOnce sign v scanned =
     (if (case scanned of
            Some payload \<Rightarrow> list_ex (\<lambda>t. str_includes t (notice_marker v)) (post_messages (jget payload ''posts''))
          | None \<Rightarrow> False)
      then None else Some (notice_text sign v))"

section \<open>The start of an account\<close>

record gateway_account =
  ga_enabled :: bool
  ga_configured :: bool
  ga_key :: "string option"
  ga_agent :: "string option"
  ga_channel :: "string option"

datatype start_effect = IdleBecause string | PostsNotice string string | StartsLiveness | StartsPoller

definition was_given :: "string option \<Rightarrow> bool" where
  "was_given v = (case v of Some (c # s) \<Rightarrow> True | _ \<Rightarrow> False)"

definition startAccount ::
  "string \<Rightarrow> gateway_account \<Rightarrow> bool \<Rightarrow> version_check option \<Rightarrow> jsval option \<Rightarrow> start_effect list" where
  "startAccount sign A runtime verdict scanned =
     (if \<not> ga_enabled A then [IdleBecause ''disabled'']
      else if \<not> ga_configured A \<or> \<not> was_given (ga_key A) \<or> \<not> was_given (ga_agent A) then [IdleBecause ''not fully configured'']
      else if \<not> runtime then [IdleBecause ''plugin runtime unavailable'']
      else case verdict of
          Some v \<Rightarrow>
            (if \<not> vc_supported v
             then (case ga_channel A of
                   Some (c # s) \<Rightarrow> (case postOutdatedNoticeOnce sign v scanned of Some t \<Rightarrow> [PostsNotice (c # s) t] | None \<Rightarrow> [])
                 | _ \<Rightarrow> []) @
               [IdleBecause (case vc_message v of Some t \<Rightarrow> t | None \<Rightarrow> ''plugin is below the server's minimum'')]
             else [StartsLiveness, StartsPoller])
        | None \<Rightarrow> [StartsLiveness, StartsPoller])"

section \<open>The sweep of game sessions\<close>

definition GAME_SWEEP_READS :: nat where "GAME_SWEEP_READS = 20"
definition GAME_ROUTE_PROBE :: string where "GAME_ROUTE_PROBE = ''probe''"

definition gameRoute :: "(turn_peer \<Rightarrow> guard_target option) \<Rightarrow> guard_target option" where
  "gameRoute route = route (game_peer GAME_ROUTE_PROBE 0)"

definition gameAgentId :: "(turn_peer \<Rightarrow> guard_target option) \<Rightarrow> string \<Rightarrow> string option" where
  "gameAgentId route widgetId = (case route (game_peer widgetId 0) of
      None \<Rightarrow> None
    | Some t \<Rightarrow> (case gt_agent t of Some a \<Rightarrow> Some a | None \<Rightarrow> sessionAgentId (gt_session t)))"

datatype widget_answer = HasStatus string | NotFound | NoAnswer

datatype sweep_order = DeleteGame string | DeleteOlder string "nat list"

text \<open>Whether a game is live, as the sweep sees it: nothing when it must be left for the next one.\<close>

definition swept_live :: "bool \<Rightarrow> (string \<Rightarrow> bool) \<Rightarrow> string \<Rightarrow> widget_answer \<Rightarrow> bool option" where
  "swept_live shared seats widgetId a = (case a of
      HasStatus st \<Rightarrow> Some (st = ''active'')
    | NotFound \<Rightarrow> (if shared \<and> \<not> seats widgetId then None else Some False)
    | NoAnswer \<Rightarrow> None)"

definition sweep_one :: "bool \<Rightarrow> string \<Rightarrow> nat list \<Rightarrow> sweep_order list" where
  "sweep_one live widgetId gens =
     (if live then (let stale = filter (\<lambda>g. g < Max (set gens)) gens in if stale = [] then [] else [DeleteOlder widgetId stale])
      else [DeleteGame widgetId])"

text \<open>The loop: the games left, the reads made so far, and whether the signal aborts before each game.\<close>

fun sweep_games ::
  "(string \<Rightarrow> widget_answer) \<Rightarrow> bool \<Rightarrow> (string \<Rightarrow> bool) \<Rightarrow> string list \<Rightarrow> (nat \<Rightarrow> bool) \<Rightarrow> string list \<Rightarrow> (string \<times> nat list) list
   \<Rightarrow> sweep_order list \<times> string list" where
  "sweep_games read shared seats active aborts reads [] = ([], reads)"
| "sweep_games read shared seats active aborts reads ((w, gens) # games) =
     (if aborts (length games) then ([], reads)
      else if lower w \<in> set active then
        (let (orders, reads') = sweep_games read shared seats active aborts reads games in (sweep_one True w gens @ orders, reads'))
      else if GAME_SWEEP_READS \<le> length reads then sweep_games read shared seats active aborts reads games
      else (let (orders, reads') = sweep_games read shared seats active aborts (reads @ [w]) games in
        ((case swept_live shared seats w (read w) of None \<Rightarrow> [] | Some live \<Rightarrow> sweep_one live w gens) @ orders, reads')))"

record sweep_host =
  sh_route :: "turn_peer \<Rightarrow> guard_target option"
  sh_others :: "(turn_peer \<Rightarrow> guard_target option) list"
  sh_games :: "(string, nat list) jsmap option"
  sh_active :: "string list option"
  sh_read :: "string \<Rightarrow> widget_answer"
  sh_seated :: "string \<Rightarrow> bool"
  sh_aborts :: "nat \<Rightarrow> bool"

definition shared_agent :: "sweep_host \<Rightarrow> bool" where
  "shared_agent S = list_ex (\<lambda>route. gameAgentId route GAME_ROUTE_PROBE = gameAgentId (sh_route S) GAME_ROUTE_PROBE) (sh_others S)"

definition sweepGameSessions :: "sweep_host \<Rightarrow> sweep_order list \<times> string list" where
  "sweepGameSessions S =
     (case (sh_games S, sh_active S) of
        (Some games, Some active) \<Rightarrow>
          (if \<not> was_given (gameAgentId (sh_route S) GAME_ROUTE_PROBE) \<or> games = [] then ([], [])
           else sweep_games (sh_read S) (shared_agent S) (sh_seated S) (map lower active) (sh_aborts S) [] games)
      | _ \<Rightarrow> ([], []))"

section \<open>Properties\<close>

lemma messages_of_array: "JStr t = jget p ''message'' \<Longrightarrow> p \<in> set ps \<Longrightarrow> t \<in> set (post_messages (JArr ps))"
  unfolding post_messages_def by (simp add: List.map_filter_def image_iff) (metis as_str_Some option.sel option.distinct(1))

text \<open>The notice is found again. Once the channel's recent posts hold the notice, posted as it was, a start posts no second one, even
  among other posts and whatever else the server's verdict says, as long as both versions are the same.\<close>

theorem notice_is_posted_once:
  assumes "p \<in> set ps" and "jget p ''message'' = JStr (notice_text sign v)"
    and "vc_plugin w = vc_plugin v" and "vc_minimum w = vc_minimum v"
  shows "postOutdatedNoticeOnce sign' w (Some (JObj [(''posts'', JArr ps)])) = None"
proof -
  have "notice_text sign v \<in> set (post_messages (JArr ps))" using assms(1,2) messages_of_array by metis
  moreover have "str_includes (notice_text sign v) (notice_marker w)"
  proof -
    have "notice_marker w = notice_marker v" using assms(3,4) by (simp add: notice_marker_def)
    moreover have "\<exists>u. notice_text sign v = u @ notice_marker v @ ''_''"
      by (simp add: notice_text_def append_assoc [symmetric] del: append_assoc)
    ultimately show ?thesis by (auto simp: str_includes_iff)
  qed
  ultimately show ?thesis by (auto simp: postOutdatedNoticeOnce_def list_ex_iff)
qed

definition demo_verdict :: "string option \<Rightarrow> version_check" where
  "demo_verdict message = \<lparr>vc_supported = False, vc_plugin = Some ''1.2'', vc_minimum = Some ''2.0'', vc_message = message, vc_operator = None\<rparr>"

theorem notice_is_posted_once_witness:
  "postOutdatedNoticeOnce ''!'' (demo_verdict None)
     (Some (JObj [(''posts'', JArr [JNull, JObj [(''message'', JStr (notice_text ''*'' (demo_verdict (Some ''Update!''))))]])])) = None"
  by (rule notice_is_posted_once [where p = "JObj [(''message'', JStr (notice_text ''*'' (demo_verdict (Some ''Update!''))))]"
      and v = "demo_verdict (Some ''Update!'')"]) (simp_all add: demo_verdict_def)

text \<open>What a pass of the loop deletes and reads, in one invariant over its recursion.\<close>

definition older_ok :: "(string \<times> nat list) list \<Rightarrow> sweep_order \<Rightarrow> bool" where
  "older_ok games o1 = (case o1 of
      DeleteOlder w gs \<Rightarrow> (\<exists>gens. (w, gens) \<in> set games \<and> set gs \<subseteq> set gens \<and> Max (set gens) \<notin> set gs)
    | DeleteGame w \<Rightarrow> True)"

definition games_deleted :: "sweep_order list \<Rightarrow> string set" where
  "games_deleted orders = {w. DeleteGame w \<in> set orders}"

lemma games_deleted_simps [simp]:
  "games_deleted [] = {}" "games_deleted (xs @ ys) = games_deleted xs \<union> games_deleted ys"
  "games_deleted (sweep_one True w gens) = {}" "games_deleted (sweep_one False w gens) = {w}"
  by (auto simp: games_deleted_def sweep_one_def Let_def)

lemma older_ok_mono: "older_ok games o1 \<Longrightarrow> set games \<subseteq> set games' \<Longrightarrow> older_ok games' o1"
  unfolding older_ok_def by (cases o1) auto

lemma sweep_one_ok: "list_all (older_ok ((w, gens) # games)) (sweep_one live w gens)"
  by (auto simp: sweep_one_def older_ok_def Let_def list_all_iff)

lemma sweep_games_ok:
  "\<exists>new. snd (sweep_games read shared seats active aborts reads games) = reads @ new \<and>
     games_deleted (fst (sweep_games read shared seats active aborts reads games)) =
       {w \<in> set new. swept_live shared seats w (read w) = Some False} \<and>
     (\<forall>w \<in> set new. lower w \<notin> set active) \<and>
     (length reads \<le> GAME_SWEEP_READS \<longrightarrow> length reads + length new \<le> GAME_SWEEP_READS) \<and>
     list_all (older_ok games) (fst (sweep_games read shared seats active aborts reads games))"
proof (induction games arbitrary: reads)
  case (Cons g games)
  obtain w gens where g: "g = (w, gens)" by (cases g)
  have mono: "list_all (older_ok games) os \<Longrightarrow> list_all (older_ok ((w, gens) # games)) os" for os
    by (auto simp: list_all_iff intro: older_ok_mono [OF _ set_subset_Cons])
  consider "aborts (length games)" | "\<not> aborts (length games)" "lower w \<in> set active"
    | "\<not> aborts (length games)" "lower w \<notin> set active" "GAME_SWEEP_READS \<le> length reads"
    | "\<not> aborts (length games)" "lower w \<notin> set active" "length reads < GAME_SWEEP_READS" by fastforce
  then show ?case
  proof cases
    case 1
    then show ?thesis by (simp add: g)
  next
    case 2
    obtain new where new: "snd (sweep_games read shared seats active aborts reads games) = reads @ new"
      "games_deleted (fst (sweep_games read shared seats active aborts reads games)) = {w \<in> set new. swept_live shared seats w (read w) = Some False}"
      "\<forall>w \<in> set new. lower w \<notin> set active"
      "length reads \<le> GAME_SWEEP_READS \<longrightarrow> length reads + length new \<le> GAME_SWEEP_READS"
      "list_all (older_ok games) (fst (sweep_games read shared seats active aborts reads games))"
      using Cons.IH [of reads] by blast
    then show ?thesis using 2 mono sweep_one_ok [of w gens games True]
      by (intro exI [of _ new]) (simp add: g case_prod_beta)
  next
    case 3
    then have "sweep_games read shared seats active aborts reads (g # games) = sweep_games read shared seats active aborts reads games"
      by (simp add: g)
    with Cons.IH [of reads] mono show ?thesis by (auto simp: g)
  next
    case 4
    let ?r = "sweep_games read shared seats active aborts (reads @ [w]) games"
    obtain new where new: "snd ?r = (reads @ [w]) @ new"
      "games_deleted (fst ?r) = {w \<in> set new. swept_live shared seats w (read w) = Some False}"
      "\<forall>w \<in> set new. lower w \<notin> set active"
      "length (reads @ [w]) \<le> GAME_SWEEP_READS \<longrightarrow> length (reads @ [w]) + length new \<le> GAME_SWEEP_READS"
      "list_all (older_ok games) (fst ?r)"
      using Cons.IH [of "reads @ [w]"] by blast
    let ?mine = "case swept_live shared seats w (read w) of None \<Rightarrow> [] | Some live \<Rightarrow> sweep_one live w gens"
    have step: "sweep_games read shared seats active aborts reads (g # games) = (?mine @ fst ?r, snd ?r)"
      using 4 by (simp add: g case_prod_beta)
    have mine: "games_deleted ?mine = (if swept_live shared seats w (read w) = Some False then {w} else {})"
      by (auto split: option.split)
    have "list_all (older_ok ((w, gens) # games)) ?mine" using sweep_one_ok by (simp split: option.split)
    with new 4 mono mine show ?thesis
      unfolding step by (intro exI [of _ "w # new"]) (auto simp: g)
  qed
qed (simp add: games_deleted_def)

text \<open>A sweep takes only what is over. A game is deleted exactly when the sweep read it, it is not among the active ones, and the server
  calls it ended or, where no other account plays through the same agent or this account sat in it, no longer knows it; of a
  live game the newest generation is never named; and no more than twenty games are read.\<close>

theorem sweep_takes_what_is_over:
  "games_deleted (fst (sweepGameSessions S)) =
     {w \<in> set (snd (sweepGameSessions S)). (case sh_read S w of
        HasStatus st \<Rightarrow> st \<noteq> ''active''
      | NotFound \<Rightarrow> (if shared_agent S then sh_seated S w else True)
      | NoAnswer \<Rightarrow> False)} \<and>
   set (map lower (snd (sweepGameSessions S))) \<inter> set (case sh_active S of Some active \<Rightarrow> map lower active | None \<Rightarrow> []) = {} \<and>
   list_all (older_ok (case sh_games S of Some games \<Rightarrow> games | None \<Rightarrow> [])) (fst (sweepGameSessions S)) \<and>
   length (snd (sweepGameSessions S)) \<le> 20"
proof -
  have live: "swept_live (shared_agent S) (sh_seated S) w (sh_read S w) = Some False \<longleftrightarrow> (case sh_read S w of
        HasStatus st \<Rightarrow> st \<noteq> ''active'' | NotFound \<Rightarrow> (if shared_agent S then sh_seated S w else True) | NoAnswer \<Rightarrow> False)" for w
    by (simp add: swept_live_def split: widget_answer.split)
  consider "sweepGameSessions S = ([], [])"
    | games active where "sh_games S = Some games" "sh_active S = Some active"
        "sweepGameSessions S = sweep_games (sh_read S) (shared_agent S) (sh_seated S) (map lower active) (sh_aborts S) [] games"
    by (cases "sh_games S"; cases "sh_active S"; cases "was_given (gameAgentId (sh_route S) GAME_ROUTE_PROBE)"; cases "sh_games S = Some []")
      (auto simp: sweepGameSessions_def)
  then show ?thesis
  proof cases
    case 1
    then show ?thesis by simp
  next
    case (2 games active)
    obtain new where "snd (sweepGameSessions S) = new"
      "games_deleted (fst (sweepGameSessions S)) = {w \<in> set new. swept_live (shared_agent S) (sh_seated S) w (sh_read S w) = Some False}"
      "\<forall>w \<in> set new. lower w \<notin> set (map lower active)" "length new \<le> GAME_SWEEP_READS"
      "list_all (older_ok games) (fst (sweepGameSessions S))"
      using sweep_games_ok [of "sh_read S" "shared_agent S" "sh_seated S" "map lower active" "sh_aborts S" "[]" games] unfolding 2(3) by auto
    then show ?thesis using 2(1,2) by (auto simp: live GAME_SWEEP_READS_def)
  qed
qed

end
