(* ===== verification/Accounts.thy ===== *)
theory Accounts
  imports Gateway_Upkeep
begin

text \<open>
  The accounts of the plugin (\<open>plugin/src/accounts.ts\<close>): which accounts a configuration declares, how the configuration of one
  is layered, and what it resolves to. The configuration is any value; \<open>num_to_string\<close> is the runtime's.
\<close>

section \<open>The section of the channel\<close>

definition CHANNEL_ID :: string where "CHANNEL_ID = ''clawbits''"
definition DEFAULT_ACCOUNT_ID :: string where "DEFAULT_ACCOUNT_ID = ''default''"
definition DEFAULT_ENDPOINT :: string where "DEFAULT_ENDPOINT = ''https://app.clawbits.ai''"
definition DEFAULT_EMAIL_POLL_MS :: int where "DEFAULT_EMAIL_POLL_MS = 60000"
definition MIN_EMAIL_POLL_MS :: int where "MIN_EMAIL_POLL_MS = 30000"

definition readChannelSection :: "jsval \<Rightarrow> jsval option" where
  "readChannelSection cfg =
     (let channels = jget cfg ''channels'' in
      if \<not> is_object channels then None
      else let part = jget channels CHANNEL_ID in if is_object part then Some part else None)"

definition section_field :: "jsval option \<Rightarrow> string \<Rightarrow> jsval" where
  "section_field part k = (case part of Some s \<Rightarrow> jget s k | None \<Rightarrow> JUndef)"

definition normalizeAccountId :: "string option \<Rightarrow> string" where
  "normalizeAccountId raw = (case map_option trim raw of Some (c # cs) \<Rightarrow> c # cs | _ \<Rightarrow> DEFAULT_ACCOUNT_ID)"

definition INLINE_FIELDS :: "string list" where
  "INLINE_FIELDS = [''endpoint'', ''orgId'', ''org_id'', ''ownerEmail'', ''agentId'', ''apiKey'', ''channelId'', ''interAgentMode'']"

definition hasInlineAccount :: "jsval option \<Rightarrow> bool" where
  "hasInlineAccount part = list_ex (\<lambda>k. section_field part k \<noteq> JUndef) INLINE_FIELDS"

definition listClawBitsAccountIds :: "jsval \<Rightarrow> string list" where
  "listClawBitsAccountIds cfg =
     (let part = readChannelSection cfg; accounts = section_field part ''accounts'';
          declared = (if is_object accounts then foldl (\<lambda>ids k. sadd k ids) [] (filter (\<lambda>k. trim k \<noteq> []) (object_keys accounts)) else []);
          ids = (if hasInlineAccount part then sadd DEFAULT_ACCOUNT_ID declared else declared)
      in if ids = [] then [DEFAULT_ACCOUNT_ID] else ids)"

definition resolveDefaultClawBitsAccountId :: "jsval \<Rightarrow> string" where
  "resolveDefaultClawBitsAccountId cfg =
     (case map_option trim (as_str (section_field (readChannelSection cfg) ''defaultAccount'')) of
        Some (c # cs) \<Rightarrow> c # cs
      | _ \<Rightarrow> hd (listClawBitsAccountIds cfg))"

section \<open>Layers\<close>

definition RESERVED_KEYS :: "string list" where
  "RESERVED_KEYS = [''accounts'', ''defaultAccount'', ''serviceOwner'']"

fun object_entries :: "jsval \<Rightarrow> (string \<times> jsval) list" where
  "object_entries (JObj ps) = ps"
| "object_entries (JArr vs) = zip (map show_nat [0..<length vs]) vs"
| "object_entries _ = []"

definition set_all :: "(string \<times> jsval) list \<Rightarrow> (string, jsval) jsmap \<Rightarrow> (string, jsval) jsmap" where
  "set_all ps base = foldl (\<lambda>m (k, v). mset_key k v m) base ps"

definition account_override :: "jsval option \<Rightarrow> string \<Rightarrow> jsval" where
  "account_override part accountId = (case section_field part ''accounts'' of
      JObj ps \<Rightarrow> jget (JObj ps) accountId
    | _ \<Rightarrow> JUndef)"

definition mergeAccountConfig :: "jsval option \<Rightarrow> string \<Rightarrow> (string, jsval) jsmap" where
  "mergeAccountConfig part accountId =
     (let base = set_all (filter (\<lambda>(k, v). k \<notin> set RESERVED_KEYS) (case part of Some s \<Rightarrow> object_entries s | None \<Rightarrow> [])) []
      in set_all (filter (\<lambda>(k, v). v \<noteq> JUndef) (object_entries (account_override part accountId))) base)"

definition merged_field :: "(string, jsval) jsmap \<Rightarrow> string \<Rightarrow> jsval" where
  "merged_field m k = (case mget m k of Some v \<Rightarrow> v | None \<Rightarrow> JUndef)"

section \<open>What an account resolves to\<close>

record resolved_account =
  ra_id :: string
  ra_enabled :: bool
  ra_configured :: bool
  ra_name :: "string option"
  ra_endpoint :: string
  ra_org :: "string option"
  ra_ownerEmail :: "string option"
  ra_agent :: "string option"
  ra_key :: "string option"
  ra_channel :: "string option"
  ra_answers :: "(string, string) jsmap"
  ra_allowFrom :: "string list"
  ra_interAgentMode :: bool
  ra_interAgentLimit :: int
  ra_shimmer :: bool
  ra_backlog :: int
  ra_alivePingMs :: int
  ra_emailEnabled :: bool
  ra_emailPollMs :: int
  ra_streaming :: bool
  ra_liveActivity :: bool
  ra_widgets :: bool

text \<open>\<open>(typeof v === "string" && v.trim()) || undefined\<close>\<close>

definition trimmed_field :: "jsval \<Rightarrow> string option" where
  "trimmed_field v = (case map_option trim (as_str v) of Some (c # cs) \<Rightarrow> Some (c # cs) | _ \<Rightarrow> None)"

definition org_of :: "(string, jsval) jsmap \<Rightarrow> string option" where
  "org_of m = (case trimmed_field (merged_field m ''orgId'') of Some s \<Rightarrow> Some s | None \<Rightarrow> trimmed_field (merged_field m ''org_id''))"

definition answers_of :: "jsval \<Rightarrow> (string, string) jsmap" where
  "answers_of v = foldl (\<lambda>m (k, x). case as_str x of Some s \<Rightarrow> mset_key k s m | None \<Rightarrow> m) [] (object_entries v)"

definition HUMAN_PREFIX :: string where "HUMAN_PREFIX = ''human:''"
definition AGENT_PREFIX :: string where "AGENT_PREFIX = ''agent:''"

definition allow_entry :: "runtime \<Rightarrow> string list \<Rightarrow> jsval \<Rightarrow> string list" where
  "allow_entry R allowed item = (case item of
      JStr raw \<Rightarrow>
        (let v = trim raw in
         if v = [] then allowed
         else if CHR '':'' \<in> set v then sadd v allowed
         else sadd (AGENT_PREFIX @ v) (sadd (HUMAN_PREFIX @ v) (sadd v allowed)))
    | JNum (Fin q) \<Rightarrow> (let v = num_to_string R (Fin q) in sadd (HUMAN_PREFIX @ v) (sadd v allowed))
    | _ \<Rightarrow> allowed)"

definition allow_from_of :: "runtime \<Rightarrow> jsval \<Rightarrow> string list" where
  "allow_from_of R v = (case v of JArr items \<Rightarrow> foldl (allow_entry R) [] items | _ \<Rightarrow> [])"

definition DEFAULT_INTER_AGENT_MESSAGE_LIMIT :: int where "DEFAULT_INTER_AGENT_MESSAGE_LIMIT = 10"
definition MAX_INTER_AGENT_MESSAGE_LIMIT :: int where "MAX_INTER_AGENT_MESSAGE_LIMIT = 50"

definition message_limit_of :: "jsval \<Rightarrow> int" where
  "message_limit_of v = (case as_finite v of
      Some q \<Rightarrow> if 1 \<le> q then min MAX_INTER_AGENT_MESSAGE_LIMIT \<lfloor>q\<rfloor> else DEFAULT_INTER_AGENT_MESSAGE_LIMIT
    | None \<Rightarrow> DEFAULT_INTER_AGENT_MESSAGE_LIMIT)"

definition DEFAULT_CONTEXT_BACKLOG :: int where "DEFAULT_CONTEXT_BACKLOG = 100"

definition backlog_of :: "jsval \<Rightarrow> int" where
  "backlog_of v = (case as_finite v of Some q \<Rightarrow> if 0 \<le> q then \<lfloor>q\<rfloor> else DEFAULT_CONTEXT_BACKLOG | None \<Rightarrow> DEFAULT_CONTEXT_BACKLOG)"

definition DEFAULT_ALIVE_SECONDS :: rat where "DEFAULT_ALIVE_SECONDS = 600"
definition MIN_ALIVE_SECONDS :: int where "MIN_ALIVE_SECONDS = 60"

definition alive_ping_of :: "jsval \<Rightarrow> int" where
  "alive_ping_of alive =
     (if jget alive ''enabled'' = JBool False \<or> jget alive ''every'' = JNum (Fin 0) then 0
      else let everySec = (case as_finite (jget alive ''every'') of Some q \<Rightarrow> if 0 < q then q else DEFAULT_ALIVE_SECONDS | None \<Rightarrow> DEFAULT_ALIVE_SECONDS)
        in max MIN_ALIVE_SECONDS \<lfloor>everySec\<rfloor> * 1000)"

definition email_poll_of :: "jsval \<Rightarrow> int" where
  "email_poll_of v = (case as_finite v of
      Some q \<Rightarrow> if 0 < q then max MIN_EMAIL_POLL_MS \<lfloor>q\<rfloor> else DEFAULT_EMAIL_POLL_MS
    | None \<Rightarrow> DEFAULT_EMAIL_POLL_MS)"

definition not_off :: "(string, jsval) jsmap \<Rightarrow> string \<Rightarrow> bool" where
  "not_off m k = (merged_field m k \<noteq> JBool False)"

definition resolveClawBitsAccount :: "runtime \<Rightarrow> jsval \<Rightarrow> string option \<Rightarrow> resolved_account" where
  "resolveClawBitsAccount R cfg rawId =
     (let part = readChannelSection cfg; accountId = normalizeAccountId rawId; m = mergeAccountConfig part accountId;
          org = org_of m
      in \<lparr>ra_id = accountId,
          ra_enabled = (section_field part ''enabled'' \<noteq> JBool False \<and> not_off m ''enabled''),
          ra_configured = (truthy (merged_field m ''agentId'') \<and> truthy (merged_field m ''apiKey'') \<and> truthy (merged_field m ''channelId'') \<and>
            (org \<noteq> None \<or> truthy (merged_field m ''ownerEmail''))),
          ra_name = as_str (merged_field m ''name''),
          ra_endpoint = (case trimmed_field (merged_field m ''endpoint'') of Some e \<Rightarrow> e | None \<Rightarrow> DEFAULT_ENDPOINT),
          ra_org = org,
          ra_ownerEmail = as_str (merged_field m ''ownerEmail''),
          ra_agent = as_str (merged_field m ''agentId''),
          ra_key = as_str (merged_field m ''apiKey''),
          ra_channel = as_str (merged_field m ''channelId''),
          ra_answers = answers_of (merged_field m ''knownAnswers''),
          ra_allowFrom = allow_from_of R (merged_field m ''allowFrom''),
          ra_interAgentMode = (coalesce (merged_field m ''interAgentMode'') (merged_field m ''inter_agent_mode_enabled'') = JBool True),
          ra_interAgentLimit = message_limit_of (coalesce (merged_field m ''interAgentMessageLimit'') (merged_field m ''inter_agent_message_limit'')),
          ra_shimmer = not_off m ''groupChannelShimmer'',
          ra_backlog = backlog_of (merged_field m ''channelContextBacklog''),
          ra_alivePingMs = alive_ping_of (merged_field m ''alive''),
          ra_emailEnabled = not_off m ''emailEnabled'',
          ra_emailPollMs = email_poll_of (merged_field m ''emailPollIntervalMs''),
          ra_streaming = not_off m ''streaming'',
          ra_liveActivity = not_off m ''liveActivity'',
          ra_widgets = not_off m ''widgets''\<rparr>)"

section \<open>The order of the layers\<close>

lemma mget_set_all: "distinct (map fst ps) \<Longrightarrow> mget (set_all ps m) k = (case map_of ps k of Some v \<Rightarrow> Some v | None \<Rightarrow> mget m k)"
proof (induction ps arbitrary: m)
  case (Cons p ps)
  obtain k' v where p: "p = (k', v)" by fastforce
  have "map_of ps k' = None" using Cons.prems p by (simp add: map_of_eq_None_iff)
  then show ?case using Cons p by (simp add: set_all_def split: option.split)
qed (simp add: set_all_def)

lemma distinct_filter_keys: "distinct (map fst ps) \<Longrightarrow> distinct (map fst (filter P ps))"
  by (induction ps) auto

lemma map_of_filter_keys:
  "distinct (map fst ps) \<Longrightarrow> map_of (filter P ps) k = (case map_of ps k of Some v \<Rightarrow> if P (k, v) then Some v else None | None \<Rightarrow> None)"
proof (induction ps)
  case (Cons p ps)
  obtain k' v where p: "p = (k', v)" by fastforce
  have "map_of ps k' = None" using Cons.prems p by (simp add: map_of_eq_None_iff)
  then show ?case using Cons p by (auto split: option.split)
qed simp

text \<open>An object of JavaScript has each key once; the section and the entry of an account are objects or missing.\<close>

definition plain_layer :: "jsval \<Rightarrow> bool" where
  "plain_layer v = (case v of JObj ps \<Rightarrow> distinct (map fst ps) | JUndef \<Rightarrow> True | _ \<Rightarrow> False)"

lemma entries_of_plain: "plain_layer v \<Longrightarrow> distinct (map fst (object_entries v)) \<and> (case map_of (object_entries v) k of Some x \<Rightarrow> x | None \<Rightarrow> JUndef) = jget v k"
  by (auto simp: plain_layer_def split: jsval.splits option.splits)

text \<open>The fields of an account win. Each setting an account is run with is the one its own entry states, and
  else the section's, whose bookkeeping keys never reach it; nothing of another account's entry does.\<close>

theorem account_overrides_section:
  assumes "plain_layer (case part of Some s \<Rightarrow> s | None \<Rightarrow> JUndef)" and "plain_layer (account_override part i)"
  shows "merged_field (mergeAccountConfig part i) k =
    (if jget (account_override part i) k \<noteq> JUndef then jget (account_override part i) k
     else if k \<in> set RESERVED_KEYS then JUndef else section_field part k)"
proof -
  let ?s = "case part of Some s \<Rightarrow> s | None \<Rightarrow> JUndef"
  have entries: "(case part of Some s \<Rightarrow> object_entries s | None \<Rightarrow> []) = object_entries ?s" by (cases part) simp_all
  have get: "section_field part k = jget ?s k" by (cases part) (simp_all add: section_field_def)
  note own = entries_of_plain [OF assms(2), of k] and base = entries_of_plain [OF assms(1), of k]
  have reads: "mget (mergeAccountConfig part i) k =
      (case map_of (filter (\<lambda>(k, v). v \<noteq> JUndef) (object_entries (account_override part i))) k of Some v \<Rightarrow> Some v
       | None \<Rightarrow> map_of (filter (\<lambda>(k, v). k \<notin> set RESERVED_KEYS) (object_entries ?s)) k)"
    using own base by (simp add: mergeAccountConfig_def entries Let_def mget_set_all distinct_filter_keys split: option.split)
  have d: "distinct (map fst (object_entries (account_override part i)))" "distinct (map fst (object_entries ?s))" using own base by simp_all
  have vals: "jget (account_override part i) k = (case map_of (object_entries (account_override part i)) k of Some x \<Rightarrow> x | None \<Rightarrow> JUndef)"
    "jget ?s k = (case map_of (object_entries ?s) k of Some x \<Rightarrow> x | None \<Rightarrow> JUndef)" using own base by simp_all
  show ?thesis unfolding merged_field_def reads get map_of_filter_keys [OF d(1)] map_of_filter_keys [OF d(2)] vals
    by (cases "map_of (object_entries (account_override part i)) k"; cases "map_of (object_entries ?s) k") simp_all
qed

definition demo_section :: jsval where
  "demo_section = JObj [(''agentId'', JStr ''bot''), (''serviceOwner'', JStr ''tools''),
     (''accounts'', JObj [(''work'', JObj [(''agentId'', JStr ''eve'')]), (''home'', JObj [(''apiKey'', JStr ''k'')])])]"

theorem account_overrides_section_witness:
  "merged_field (mergeAccountConfig (Some demo_section) ''work'') ''agentId'' = JStr ''eve'' \<and>
   merged_field (mergeAccountConfig (Some demo_section) ''work'') ''apiKey'' = JUndef \<and>
   merged_field (mergeAccountConfig (Some demo_section) ''home'') ''agentId'' = JStr ''bot''"
proof -
  have "plain_layer (case Some demo_section of Some s \<Rightarrow> s | None \<Rightarrow> JUndef)" by code_simp
  moreover have "plain_layer (account_override (Some demo_section) ''work'')" "plain_layer (account_override (Some demo_section) ''home'')" by code_simp+
  ultimately show ?thesis
    by (simp add: account_overrides_section) (simp add: demo_section_def account_override_def section_field_def RESERVED_KEYS_def)
qed

section \<open>Bounds\<close>

lemma sadd_keeps: "distinct xs \<and> [] \<notin> set xs \<Longrightarrow> v \<noteq> [] \<Longrightarrow> distinct (sadd v xs) \<and> [] \<notin> set (sadd v xs)"
  by simp

text \<open>What the rest of the plugin relies on.\<close>

definition resolved_ok :: "resolved_account \<Rightarrow> bool" where
  "resolved_ok A = (ra_id A \<noteq> [] \<and> trim (ra_id A) = ra_id A \<and> ra_endpoint A \<noteq> [] \<and> trim (ra_endpoint A) = ra_endpoint A \<and>
     ra_org A \<noteq> Some [] \<and> distinct (mkeys (ra_answers A)) \<and> distinct (ra_allowFrom A) \<and>
     1 \<le> ra_interAgentLimit A \<and> ra_interAgentLimit A \<le> 50 \<and> 0 \<le> ra_backlog A \<and>
     (if ra_alivePingMs A = 0 then True else 60000 \<le> ra_alivePingMs A \<and> ra_alivePingMs A mod 1000 = 0) \<and> 30000 \<le> ra_emailPollMs A)"

lemma normalized_id: "normalizeAccountId raw \<noteq> [] \<and> trim (normalizeAccountId raw) = normalizeAccountId raw"
proof (cases "map_option trim raw")
  case None
  have "trim DEFAULT_ACCOUNT_ID = DEFAULT_ACCOUNT_ID" "DEFAULT_ACCOUNT_ID \<noteq> []" by code_simp+
  with None show ?thesis by (cases raw) (simp_all add: normalizeAccountId_def)
next
  case (Some t)
  have "trim DEFAULT_ACCOUNT_ID = DEFAULT_ACCOUNT_ID" "DEFAULT_ACCOUNT_ID \<noteq> []" by code_simp+
  moreover have "trim t = t" using Some trim_idem by auto
  ultimately show ?thesis using Some by (cases t) (auto simp: normalizeAccountId_def)
qed

lemma trimmed_fieldD: "trimmed_field v = Some s \<Longrightarrow> s \<noteq> [] \<and> trim s = s"
  by (cases "as_str v") (auto simp: trimmed_field_def trim_idem split: list.splits)

lemma answers_distinct: "distinct (mkeys (answers_of v))"
proof -
  have "distinct (mkeys m) \<Longrightarrow> distinct (mkeys (foldl (\<lambda>m (k, x). case as_str x of Some s \<Rightarrow> mset_key k s m | None \<Rightarrow> m) m ps))" for m ps
  proof (induction ps arbitrary: m)
    case (Cons p ps)
    then show ?case by (cases p) (auto split: option.split simp: distinct_mkeys_mset)
  qed simp
  from this [of "[]" "object_entries v"] show ?thesis by (simp add: answers_of_def mkeys_def)
qed

lemma allow_distinct: "distinct (allow_from_of R v)"
proof -
  have step: "distinct xs \<Longrightarrow> distinct (allow_entry R xs x)" for xs x
    by (cases x) (auto simp: allow_entry_def Let_def split: jsnum.split)
  have "distinct xs \<Longrightarrow> distinct (foldl (allow_entry R) xs items)" for xs items
    by (induction items arbitrary: xs) (simp_all add: step)
  then show ?thesis by (cases v) (simp_all add: allow_from_of_def)
qed

lemma limits:
  "1 \<le> message_limit_of v \<and> message_limit_of v \<le> 50" "0 \<le> backlog_of v" "30000 \<le> email_poll_of v"
  "alive_ping_of v = 0 \<or> 60000 \<le> alive_ping_of v \<and> alive_ping_of v mod 1000 = 0"
proof -
  have "1 \<le> \<lfloor>q\<rfloor>" if "1 \<le> q" for q :: rat using that by linarith
  then show "1 \<le> message_limit_of v \<and> message_limit_of v \<le> 50"
    by (auto simp: message_limit_of_def DEFAULT_INTER_AGENT_MESSAGE_LIMIT_def MAX_INTER_AGENT_MESSAGE_LIMIT_def split: option.split)
  show "0 \<le> backlog_of v" by (auto simp: backlog_of_def DEFAULT_CONTEXT_BACKLOG_def split: option.split)
  show "30000 \<le> email_poll_of v" by (auto simp: email_poll_of_def MIN_EMAIL_POLL_MS_def DEFAULT_EMAIL_POLL_MS_def split: option.split)
  show "alive_ping_of v = 0 \<or> 60000 \<le> alive_ping_of v \<and> alive_ping_of v mod 1000 = 0"
    by (simp add: alive_ping_of_def MIN_ALIVE_SECONDS_def Let_def)
qed

text \<open>C33: Whatever the configuration file holds, of whatever type, an account resolves to settings within their bounds: identifiers
  and endpoint are trimmed and not empty, answers and allowed senders are listed once, agents get one to fifty
  messages, and no timer runs faster than its floor.\<close>

theorem resolved_account_is_sound: "resolved_ok (resolveClawBitsAccount R cfg rawId)"
proof -
  have "trim DEFAULT_ENDPOINT = DEFAULT_ENDPOINT" "DEFAULT_ENDPOINT \<noteq> []" by code_simp+
  moreover have "org_of m \<noteq> Some []" for m by (auto simp: org_of_def dest: trimmed_fieldD split: option.splits)
  ultimately show ?thesis using normalized_id [of rawId] limits(4)
    by (auto simp: resolved_ok_def resolveClawBitsAccount_def Let_def answers_distinct allow_distinct limits(1-3) dest: trimmed_fieldD split: option.split)
qed

section \<open>What the start of an account sees\<close>

definition gateway_view :: "resolved_account \<Rightarrow> gateway_account" where
  "gateway_view A = \<lparr>ga_enabled = ra_enabled A, ga_configured = ra_configured A, ga_key = ra_key A, ga_agent = ra_agent A, ga_channel = ra_channel A\<rparr>"

text \<open>The start of an account speaks of the channel as optional, but an account without one never counts as configured.\<close>

theorem channel_is_required:
  assumes "merged_field (mergeAccountConfig (readChannelSection cfg) (normalizeAccountId rawId)) ''channelId'' = JUndef"
  shows "\<exists>reason. startAccount sign (gateway_view (resolveClawBitsAccount R cfg rawId)) runtime verdict scanned = [IdleBecause reason]"
  using assms by (simp add: startAccount_def gateway_view_def resolveClawBitsAccount_def Let_def)

text \<open>An account whose key is padded is listed as it stands and then resolved by its trimmed name.\<close>

theorem padded_account_is_lost:
  "let part = JObj [(''accounts'', JObj [('' a'', JObj [(''agentId'', JStr ''bot'')])])];
       cfg = JObj [(''channels'', JObj [(CHANNEL_ID, part)])]
   in listClawBitsAccountIds cfg = ['' a''] \<and> merged_field (mergeAccountConfig (readChannelSection cfg) (normalizeAccountId (Some '' a''))) ''agentId'' = JUndef"
  by code_simp

end
