(* ===== verification/Companion_Services.thy ===== *)
theory Companion_Services
  imports Accounts
begin

text \<open>
  The services of the companion plugin (\<open>plugin/src/companion-services.ts\<close>) and their hand-over by the channel
  (\<open>plugin/src/service-handoff.ts\<close>): the versions that go together, the registries the two plugins share, which
  services an account gets, and the machine that starts and stops them. A start waits for the services before it to
  end, so it is split there. A group is one set of services with its abort signal.
\<close>

section \<open>Versions and owners\<close>

definition digits_only :: "string \<Rightarrow> bool" where
  "digits_only s = (s \<noteq> [] \<and> list_all is_digit s)"

fun compare_parts :: "nat list \<Rightarrow> nat list \<Rightarrow> int" where
  "compare_parts [] [] = 0"
| "compare_parts (x # xs) [] = (if x = 0 then compare_parts xs [] else 1)"
| "compare_parts [] (y # ys) = (if y = 0 then compare_parts [] ys else - 1)"
| "compare_parts (x # xs) (y # ys) = (if x = y then compare_parts xs ys else if x < y then - 1 else 1)"

text \<open>\<open>None\<close> is \<open>NaN\<close>.\<close>

definition compareVersions :: "string \<Rightarrow> string \<Rightarrow> int option" where
  "compareVersions a b =
     (let l = split_on CHR ''.'' a; r = split_on CHR ''.'' b in
      if list_ex (\<lambda>p. \<not> digits_only p) l \<or> list_ex (\<lambda>p. \<not> digits_only p) r then None
      else Some (compare_parts (map nat_of_digits l) (map nat_of_digits r)))"

definition CLAWBITS_SLIM_CHANNEL_MIN_VERSION :: string where "CLAWBITS_SLIM_CHANNEL_MIN_VERSION = ''0.17.0''"

datatype service_owner = ChannelOwner | ToolsOwner

record resolved_owner =
  so_owner :: service_owner
  so_valid :: bool
  so_configured :: bool

definition resolveClawBitsServiceOwner :: "jsval \<Rightarrow> resolved_owner" where
  "resolveClawBitsServiceOwner cfg =
     (let raw = section_field (readChannelSection cfg) ''serviceOwner'' in
      if raw \<in> {JUndef, JNull, JStr []} then \<lparr>so_owner = ChannelOwner, so_valid = True, so_configured = False\<rparr>
      else if raw = JStr ''channel'' then \<lparr>so_owner = ChannelOwner, so_valid = True, so_configured = True\<rparr>
      else if raw = JStr ''tools'' then \<lparr>so_owner = ToolsOwner, so_valid = True, so_configured = True\<rparr>
      else \<lparr>so_owner = ChannelOwner, so_valid = False, so_configured = True\<rparr>)"

record handoff =
  ho_version :: string
  ho_moved :: string
  ho_models :: bool
  ho_wakes :: bool

definition supportsCompanionServices :: "handoff option \<Rightarrow> bool" where
  "supportsCompanionServices h = (case h of
      None \<Rightarrow> False
    | Some c \<Rightarrow> ho_moved c = ''clawbits-tools'' \<and>
        (case compareVersions (ho_version c) CLAWBITS_SLIM_CHANNEL_MIN_VERSION of Some n \<Rightarrow> 0 \<le> n | None \<Rightarrow> False))"

definition supportsModelSelection :: "handoff option \<Rightarrow> bool" where
  "supportsModelSelection h = (case h of Some c \<Rightarrow> ho_models c | None \<Rightarrow> False)"

datatype activation = ActiveServices | ChannelOwns | InvalidOwner | MissingSlimChannel

definition resolveCompanionServiceActivation :: "jsval \<Rightarrow> handoff option \<Rightarrow> activation" where
  "resolveCompanionServiceActivation cfg h =
     (let owner = resolveClawBitsServiceOwner cfg in
      if \<not> so_valid owner then InvalidOwner
      else if so_owner owner \<noteq> ToolsOwner then ChannelOwns
      else if \<not> supportsCompanionServices h then MissingSlimChannel
      else ActiveServices)"

section \<open>The order of versions\<close>

text \<open>The reference: the first place at which the parts differ, where a missing part is zero.\<close>

definition part :: "nat list \<Rightarrow> nat \<Rightarrow> nat" where
  "part xs i = (if i < length xs then xs ! i else 0)"

lemma part_simps [simp]: "part [] i = 0" "part (x # xs) 0 = x" "part (x # xs) (Suc i) = part xs i"
  by (simp_all add: part_def)

lemma all_first: "(\<forall>i. P i) \<longleftrightarrow> P 0 \<and> (\<forall>i. P (Suc i))"
  by (metis not0_implies_Suc)

lemma ex_first: "(\<exists>i. P i \<and> (\<forall>j < i. Q j)) \<longleftrightarrow> P 0 \<or> Q 0 \<and> (\<exists>i. P (Suc i) \<and> (\<forall>j < i. Q (Suc j)))"
proof
  assume "\<exists>i. P i \<and> (\<forall>j < i. Q j)"
  then obtain i where "P i" "\<forall>j < i. Q j" by blast
  then show "P 0 \<or> Q 0 \<and> (\<exists>i. P (Suc i) \<and> (\<forall>j < i. Q (Suc j)))" by (cases i) auto
next
  assume "P 0 \<or> Q 0 \<and> (\<exists>i. P (Suc i) \<and> (\<forall>j < i. Q (Suc j)))"
  then show "\<exists>i. P i \<and> (\<forall>j < i. Q j)"
  proof
    assume "Q 0 \<and> (\<exists>i. P (Suc i) \<and> (\<forall>j < i. Q (Suc j)))"
    then obtain i where "Q 0" "P (Suc i)" "\<forall>j < i. Q (Suc j)" by blast
    then show ?thesis by (intro exI [of _ "Suc i"]) (auto simp: less_Suc_eq_0_disj)
  qed auto
qed

lemma compare_parts_zero: "compare_parts xs ys = 0 \<longleftrightarrow> (\<forall>i. part xs i = part ys i)"
proof (induction xs ys rule: compare_parts.induct)
  case (2 x xs)
  then show ?case by (subst all_first) auto
next
  case (3 y ys)
  then show ?case by (subst all_first) auto
next
  case (4 x xs y ys)
  then show ?case by (subst all_first) auto
qed simp

lemma compare_parts_less: "compare_parts xs ys = - 1 \<longleftrightarrow> (\<exists>i. part xs i < part ys i \<and> (\<forall>j < i. part xs j = part ys j))"
proof (induction xs ys rule: compare_parts.induct)
  case (2 x xs)
  then show ?case by (subst ex_first) auto
next
  case (3 y ys)
  then show ?case by (subst ex_first) auto
next
  case (4 x xs y ys)
  then show ?case by (subst ex_first) auto
qed simp

lemma compare_parts_values: "compare_parts xs ys \<in> {- 1, 0, 1}"
  by (induction xs ys rule: compare_parts.induct) auto

section \<open>What the two plugins share\<close>

record shared =
  companionWakers :: "nat list"
  companionTools :: "string list"
  companionToolListeners :: "nat list"

definition onCompanionWake :: "nat \<Rightarrow> shared \<Rightarrow> shared" where
  "onCompanionWake w s = s\<lparr>companionWakers := sadd w (companionWakers s)\<rparr>"

definition stop_waking :: "nat \<Rightarrow> shared \<Rightarrow> shared" where
  "stop_waking w s = s\<lparr>companionWakers := filter (\<lambda>x. x \<noteq> w) (companionWakers s)\<rparr>"

text \<open>The wakers that are called.\<close>

definition wakeCompanion :: "shared \<Rightarrow> nat list" where
  "wakeCompanion s = companionWakers s"

text \<open>The tools after a report, and the listeners that are called.\<close>

definition reportCompanionTools :: "jsval list \<Rightarrow> shared \<Rightarrow> nat list \<times> shared" where
  "reportCompanionTools names s =
     (let new = foldl (\<lambda>xs x. sadd x xs) [] (List.map_filter as_str names) in
      if length new = length (companionTools s) \<and> list_all (\<lambda>x. x \<in> set (companionTools s)) new then ([], s)
      else (companionToolListeners s, s\<lparr>companionTools := new\<rparr>))"

definition companionToolRegistered :: "shared \<Rightarrow> string \<Rightarrow> bool" where
  "companionToolRegistered s x = (x \<in> set (companionTools s))"

definition onCompanionToolsChanged :: "nat \<Rightarrow> shared \<Rightarrow> shared" where
  "onCompanionToolsChanged l s = s\<lparr>companionToolListeners := sadd l (companionToolListeners s)\<rparr>"

definition unlisten_tools :: "nat \<Rightarrow> shared \<Rightarrow> shared" where
  "unlisten_tools l s = s\<lparr>companionToolListeners := filter (\<lambda>x. x \<noteq> l) (companionToolListeners s)\<rparr>"

lemma fold_sadd: "distinct xs \<Longrightarrow> distinct (foldl (\<lambda>xs x. sadd x xs) xs ys) \<and> set (foldl (\<lambda>xs x. sadd x xs) xs ys) = set xs \<union> set ys"
  by (induction ys arbitrary: xs) auto

text \<open>Listeners hear of a report exactly when it changed the set of tools, which is then what was reported.\<close>

lemma report_tools:
  assumes "distinct (companionTools s)"
  shows "set (companionTools (snd (reportCompanionTools names s))) = set (List.map_filter as_str names)"
    and "distinct (companionTools (snd (reportCompanionTools names s)))"
    and "fst (reportCompanionTools names s) = (if set (companionTools s) = set (List.map_filter as_str names) then [] else companionToolListeners s)"
proof -
  let ?new = "foldl (\<lambda>xs x. sadd x xs) [] (List.map_filter as_str names)"
  have new: "distinct ?new" "set ?new = set (List.map_filter as_str names)" using fold_sadd [of "[]" "List.map_filter as_str names"] by simp_all
  have same: "length ?new = length (companionTools s) \<and> list_all (\<lambda>x. x \<in> set (companionTools s)) ?new \<longleftrightarrow> set (companionTools s) = set ?new"
  proof
    assume l: "length ?new = length (companionTools s) \<and> list_all (\<lambda>x. x \<in> set (companionTools s)) ?new"
    then have "set ?new \<subseteq> set (companionTools s)" by (auto simp: list_all_iff)
    moreover have "card (set ?new) = card (set (companionTools s))" using l distinct_card [OF new(1)] distinct_card [OF assms] by simp
    ultimately show "set (companionTools s) = set ?new" by (metis List.finite_set card_subset_eq)
  next
    assume eq: "set (companionTools s) = set ?new"
    then have "length ?new = length (companionTools s)" using distinct_card [OF new(1)] distinct_card [OF assms] by simp
    with eq show "length ?new = length (companionTools s) \<and> list_all (\<lambda>x. x \<in> set (companionTools s)) ?new"
      by (simp add: list_all_iff)
  qed
  show "set (companionTools (snd (reportCompanionTools names s))) = set (List.map_filter as_str names)"
    "distinct (companionTools (snd (reportCompanionTools names s)))"
    "fst (reportCompanionTools names s) = (if set (companionTools s) = set (List.map_filter as_str names) then [] else companionToolListeners s)"
    using same new assms by (simp_all add: reportCompanionTools_def Let_def)
qed

section \<open>The services of the accounts\<close>

datatype service = Automations string | Usage string | Models string | Skills string | Email string

definition is_served :: "resolved_account \<Rightarrow> bool" where
  "is_served A = (ra_enabled A \<and> ra_configured A \<and> was_given (ra_key A) \<and> was_given (ra_agent A))"

fun account_services :: "bool \<Rightarrow> bool \<Rightarrow> resolved_account list \<Rightarrow> service list" where
  "account_services models skillsStarted [] = []"
| "account_services models skillsStarted (A # As) =
     (if \<not> is_served A then account_services models skillsStarted As
      else [Automations (ra_id A), Usage (ra_id A)] @ (if models then [Models (ra_id A)] else []) @
        (if skillsStarted then [] else [Skills (ra_id A)]) @ (if ra_emailEnabled A then [Email (ra_id A)] else []) @
        account_services models True As)"

definition is_skills :: "service \<Rightarrow> bool" where
  "is_skills x = (case x of Skills i \<Rightarrow> True | _ \<Rightarrow> False)"

lemma is_skills_simps [simp]:
  "is_skills (Skills i)" "\<not> is_skills (Automations i)" "\<not> is_skills (Usage i)" "\<not> is_skills (Models i)" "\<not> is_skills (Email i)"
  by (simp_all add: is_skills_def)

lemma no_second_skills: "filter is_skills (account_services models True As) = []"
  by (induction As) simp_all

text \<open>One reporter of skills serves all accounts: the first served one carries it.\<close>

lemma one_skills_reporter:
  "filter is_skills (account_services models False As) =
     (case List.find is_served As of Some A \<Rightarrow> [Skills (ra_id A)] | None \<Rightarrow> [])"
  by (induction As) (simp_all add: no_second_skills)

lemma services_of_account:
  assumes "distinct (map ra_id As)"
  shows "filter (\<lambda>x. x \<in> {Automations i, Usage i, Models i, Email i}) (account_services models started As) =
    (case List.find (\<lambda>A. ra_id A = i) As of
       Some A \<Rightarrow> if is_served A then [Automations i, Usage i] @ (if models then [Models i] else []) @ (if ra_emailEnabled A then [Email i] else []) else []
     | None \<Rightarrow> [])"
  using assms
proof (induction As arbitrary: started)
  case (Cons A As)
  have "filter (\<lambda>x. x \<in> {Automations i, Usage i, Models i, Email i}) (account_services models b As) = []" if "ra_id A = i" for b
  proof -
    have "List.find (\<lambda>A. ra_id A = i) As = None" using Cons.prems that by (simp add: find_None_iff) (metis image_eqI)
    with Cons show ?thesis by simp
  qed
  with Cons show ?case by (cases "is_served A"; cases "ra_id A = i") auto
qed simp

section \<open>Starts and stops\<close>

record group =
  gr_services :: "service list"
  gr_cron :: "nat option"
  gr_aborted :: bool
  gr_settled :: bool

text \<open>A pending start has its configuration and cron handle, and like a pending stop the group it waits for.\<close>

record companion =
  groups :: "group list"
  running_group :: "nat option"
  cron_handle :: "nat option"
  common :: shared
  starting :: "(jsval \<times> nat option \<times> nat option) list"
  stopping :: "nat list"

definition companion_start :: companion where
  "companion_start = \<lparr>groups = [], running_group = None, cron_handle = None,
     common = \<lparr>companionWakers = [], companionTools = [], companionToolListeners = []\<rparr>, starting = [], stopping = []\<rparr>"

definition set_group :: "nat \<Rightarrow> (group \<Rightarrow> group) \<Rightarrow> companion \<Rightarrow> companion" where
  "set_group g f s = s\<lparr>groups := (groups s)[g := f (groups s ! g)]\<rparr>"

text \<open>\<open>stopRunningServices\<close> up to its wait, and after it.\<close>

definition stop_now :: "companion \<Rightarrow> nat option \<times> companion" where
  "stop_now s = (case running_group s of
      None \<Rightarrow> (None, s)
    | Some g \<Rightarrow> (Some g, set_group g (\<lambda>r. r\<lparr>gr_aborted := True\<rparr>) (s\<lparr>running_group := None, common := stop_waking g (common s)\<rparr>)))"

definition stop_done :: "nat option \<Rightarrow> companion \<Rightarrow> companion" where
  "stop_done waited s = (if waited = None then s else s\<lparr>cron_handle := None\<rparr>)"

text \<open>\<open>startCompanionServices\<close> after its wait.\<close>

definition begin_services :: "runtime \<Rightarrow> handoff option \<Rightarrow> jsval \<Rightarrow> nat option \<Rightarrow> companion \<Rightarrow> companion" where
  "begin_services R h cfg cron s =
     (if resolveCompanionServiceActivation cfg h \<noteq> ActiveServices then s
      else let g = length (groups s);
               accounts = map (\<lambda>i. resolveClawBitsAccount R cfg (Some i)) (listClawBitsAccountIds cfg)
        in s\<lparr>groups := groups s @ [\<lparr>gr_services = account_services (supportsModelSelection h) False accounts, gr_cron = cron,
               gr_aborted = False, gr_settled = False\<rparr>],
             running_group := Some g, cron_handle := cron,
             common := (if (case h of Some c \<Rightarrow> ho_wakes c | None \<Rightarrow> False) then onCompanionWake g (common s) else common s)\<rparr>)"

datatype companion_event =
    GatewayStart jsval "nat option"
  | StartContinues nat "handoff option"
  | GatewayStop
  | StopContinues nat
  | TasksSettle nat

definition drop_nth :: "nat \<Rightarrow> 'a list \<Rightarrow> 'a list" where
  "drop_nth k xs = take k xs @ drop (Suc k) xs"

fun companion_step :: "runtime \<Rightarrow> companion \<Rightarrow> companion_event \<Rightarrow> companion" where
  "companion_step R s (GatewayStart cfg cron) =
     (let (waited, s1) = stop_now s in s1\<lparr>starting := starting s1 @ [(cfg, cron, waited)]\<rparr>)"
| "companion_step R s (StartContinues k h) =
     (let (cfg, cron, waited) = starting s ! k in
      begin_services R h cfg cron (stop_done waited (s\<lparr>starting := drop_nth k (starting s)\<rparr>)))"
| "companion_step R s GatewayStop =
     (let (waited, s1) = stop_now s in case waited of None \<Rightarrow> s1 | Some g \<Rightarrow> s1\<lparr>stopping := stopping s1 @ [g]\<rparr>)"
| "companion_step R s (StopContinues k) = stop_done (Some (stopping s ! k)) (s\<lparr>stopping := drop_nth k (stopping s)\<rparr>)"
| "companion_step R s (TasksSettle g) = set_group g (\<lambda>r. r\<lparr>gr_settled := True\<rparr>) s"

definition group_settled :: "companion \<Rightarrow> nat \<Rightarrow> bool" where
  "group_settled s g = gr_settled (groups s ! g)"

text \<open>\<open>Promise.allSettled\<close> waits for the tasks of a group, which end once it is aborted.\<close>

fun companion_possible :: "companion \<Rightarrow> companion_event \<Rightarrow> bool" where
  "companion_possible s (GatewayStart cfg cron) = True"
| "companion_possible s (StartContinues k h) =
     (k < length (starting s) \<and> (case snd (snd (starting s ! k)) of None \<Rightarrow> True | Some g \<Rightarrow> group_settled s g))"
| "companion_possible s GatewayStop = True"
| "companion_possible s (StopContinues k) = (k < length (stopping s) \<and> group_settled s (stopping s ! k))"
| "companion_possible s (TasksSettle g) = (g < length (groups s) \<and> gr_aborted (groups s ! g))"

text \<open>A host that awaits each hook before it calls the next one.\<close>

fun companion_allowed :: "companion \<Rightarrow> companion_event \<Rightarrow> bool" where
  "companion_allowed s (GatewayStart cfg cron) = (starting s = [] \<and> stopping s = [])"
| "companion_allowed s GatewayStop = (starting s = [] \<and> stopping s = [])"
| "companion_allowed s e = companion_possible s e"

text \<open>What the hooks of the host do meanwhile: a usage event passes, and a change of a cron job wakes the reconcilers.\<close>

definition usage_passes :: "companion \<Rightarrow> bool" where
  "usage_passes s = (case running_group s of None \<Rightarrow> False | Some g \<Rightarrow> gr_services (groups s ! g) \<noteq> [])"

definition cron_change_wakes :: "companion \<Rightarrow> bool" where
  "cron_change_wakes s = (running_group s \<noteq> None)"

definition live_groups :: "companion \<Rightarrow> nat list" where
  "live_groups s = filter (\<lambda>g. \<not> gr_aborted (groups s ! g)) [0..<length (groups s)]"

definition running_list :: "companion \<Rightarrow> nat list" where
  "running_list s = (case running_group s of None \<Rightarrow> [] | Some g \<Rightarrow> [g])"

text \<open>One hook at most is pending, and then nothing runs.\<close>

definition companion_ok :: "companion \<Rightarrow> bool" where
  "companion_ok s =
     (live_groups s = running_list s \<and> set (companionWakers (common s)) \<subseteq> set (running_list s) \<and>
      (case running_group s of
         Some g \<Rightarrow> starting s = [] \<and> stopping s = [] \<and> cron_handle s = gr_cron (groups s ! g)
       | None \<Rightarrow> length (starting s) + length (stopping s) \<le> 1 \<and>
           (cron_handle s = None \<or> (\<exists>cfg cron g. starting s = [(cfg, cron, Some g)]) \<or> stopping s \<noteq> [])))"

lemma live_set_group:
  assumes "\<And>r. gr_aborted (f r) = gr_aborted r"
  shows "live_groups (set_group g f s) = live_groups s"
proof -
  have "gr_aborted ((groups s)[g := f (groups s ! g)] ! x) = gr_aborted (groups s ! x)" for x
    using assms by (cases "x = g"; cases "g < length (groups s)") (simp_all add: nth_list_update list_update_beyond not_less)
  then show ?thesis by (simp add: live_groups_def set_group_def)
qed

lemma stop_now_ok:
  assumes ok: "companion_ok s" and free: "starting s = []" "stopping s = []"
  shows "live_groups (snd (stop_now s)) = []" and "companionWakers (common (snd (stop_now s))) = []"
    and "running_group (snd (stop_now s)) = None" and "starting (snd (stop_now s)) = []" and "stopping (snd (stop_now s)) = []"
    and "fst (stop_now s) = None \<Longrightarrow> cron_handle (snd (stop_now s)) = None"
proof -
  show "live_groups (snd (stop_now s)) = []"
  proof (cases "running_group s")
    case None
    then show ?thesis using ok by (simp add: stop_now_def companion_ok_def running_list_def)
  next
    case (Some g)
    have only: "live_groups s = [g]" using ok Some by (simp add: companion_ok_def running_list_def)
    have "x = g" if "x < length (groups s)" "\<not> gr_aborted (groups s ! x)" for x
    proof -
      have "x \<in> set (live_groups s)" using that by (simp add: live_groups_def)
      then show ?thesis by (simp add: only)
    qed
    then have "gr_aborted ((groups s)[g := (groups s ! g)\<lparr>gr_aborted := True\<rparr>] ! x)" if "x < length (groups s)" for x
      using that by (cases "x = g") auto
    then show ?thesis using Some by (simp add: stop_now_def set_group_def live_groups_def filter_empty_conv)
  qed
  show "companionWakers (common (snd (stop_now s))) = []"
    using ok by (cases "running_group s") (auto simp: stop_now_def companion_ok_def running_list_def stop_waking_def set_group_def filter_empty_conv)
qed (use assms in \<open>auto simp: stop_now_def companion_ok_def set_group_def split: option.splits\<close>)

lemma begin_services_ok:
  assumes "live_groups s = []" and "companionWakers (common s) = []" and "running_group s = None" and "starting s = []"
    and "stopping s = []" and "cron_handle s = None"
  shows "companion_ok (begin_services R h cfg cron s)"
proof (cases "resolveCompanionServiceActivation cfg h = ActiveServices")
  case True
  have "filter (\<lambda>g. \<not> gr_aborted ((groups s @ [r]) ! g)) [0..<length (groups s)] = live_groups s" for r
    unfolding live_groups_def by (rule filter_cong) (auto simp: nth_append)
  then show ?thesis using True assms by (simp add: begin_services_def companion_ok_def live_groups_def running_list_def onCompanionWake_def Let_def split: option.split)
next
  case False
  then show ?thesis using assms by (simp add: begin_services_def companion_ok_def running_list_def)
qed

lemma one_pending: "length xs \<le> 1 \<Longrightarrow> k < length xs \<Longrightarrow> k = 0 \<and> xs = [xs ! 0] \<and> drop_nth k xs = []"
  by (cases xs) (auto simp: drop_nth_def)

lemma companion_step_ok:
  assumes ok: "companion_ok s" and allowed: "companion_allowed s e"
  shows "companion_ok (companion_step R s e)"
proof (cases e)
  case (GatewayStart cfg cron)
  obtain waited s1 where s1: "stop_now s = (waited, s1)" by fastforce
  show ?thesis using stop_now_ok [OF ok] allowed GatewayStart s1
    by (cases waited) (simp_all add: companion_ok_def running_list_def live_groups_def)
next
  case GatewayStop
  obtain waited s1 where s1: "stop_now s = (waited, s1)" by fastforce
  show ?thesis using stop_now_ok [OF ok] allowed GatewayStop s1
    by (cases waited) (simp_all add: companion_ok_def running_list_def live_groups_def)
next
  case (StartContinues k h)
  have k: "k < length (starting s)" using allowed StartContinues by simp
  then have none: "running_group s = None" using ok by (cases "running_group s") (auto simp: companion_ok_def)
  with ok have "length (starting s) + length (stopping s) \<le> 1" by (simp add: companion_ok_def)
  with k have one: "length (starting s) \<le> 1" "stopping s = []" by (simp, cases "stopping s", simp_all)
  obtain cfg cron waited where w: "starting s ! k = (cfg, cron, waited)" by (metis surj_pair)
  have only: "starting s = [(cfg, cron, waited)]" "drop_nth k (starting s) = []" using one_pending [OF one(1) k] w by auto
  show ?thesis unfolding StartContinues companion_step.simps w Let_def prod.case only(2)
    by (rule begin_services_ok) (use ok none one only in \<open>auto simp: companion_ok_def running_list_def stop_done_def live_groups_def\<close>)
next
  case (StopContinues k)
  have k: "k < length (stopping s)" using allowed StopContinues by simp
  then have none: "running_group s = None" using ok by (cases "running_group s") (auto simp: companion_ok_def)
  with ok have "length (starting s) + length (stopping s) \<le> 1" by (simp add: companion_ok_def)
  with k have one: "length (stopping s) \<le> 1" "starting s = []" by (simp, cases "starting s", simp_all)
  have "drop_nth k (stopping s) = []" using one_pending [OF one(1) k] by blast
  with ok none one StopContinues show ?thesis by (simp add: companion_ok_def running_list_def stop_done_def live_groups_def)
next
  case (TasksSettle g)
  have keeps: "gr_cron ((groups s)[g := (groups s ! g)\<lparr>gr_settled := True\<rparr>] ! x) = gr_cron (groups s ! x)" for x
    by (cases "x = g"; cases "g < length (groups s)") (simp_all add: nth_list_update list_update_beyond not_less)
  have live: "live_groups (companion_step R s e) = live_groups s" unfolding TasksSettle by (simp add: live_set_group)
  then show ?thesis using ok keeps TasksSettle
    by (cases "running_group s") (simp_all add: companion_ok_def running_list_def set_group_def)
qed

interpretation companions: guarded_system companion_start "companion_step R" companion_allowed companion_ok for R
  by unfold_locales (simp_all add: companion_step_ok, simp add: companion_ok_def companion_start_def live_groups_def running_list_def)

section \<open>Properties\<close>

text \<open>C30: The companion's services run once. Under a host that awaits its hooks, however starts and stops follow each other and tasks take
  their time to end, the groups of services that are not told to stop are the running one alone; the channel's nudges reach it alone, and
  while it runs the cron handle is the one its start was given.\<close>

theorem services_run_once:
  assumes "obeys companion_allowed (companion_step R) companion_start es"
  shows "live_groups (run (companion_step R) companion_start es) = running_list (run (companion_step R) companion_start es) \<and>
    set (wakeCompanion (common (run (companion_step R) companion_start es))) \<subseteq> set (running_list (run (companion_step R) companion_start es)) \<and>
    (case running_group (run (companion_step R) companion_start es) of
       Some g \<Rightarrow> cron_handle (run (companion_step R) companion_start es) = gr_cron (groups (run (companion_step R) companion_start es) ! g)
     | None \<Rightarrow> True)"
  using companions.good_disciplined_run [OF assms] by (simp add: companion_ok_def wakeCompanion_def split: option.splits)

definition demo_services :: jsval where
  "demo_services = JObj [(''channels'', JObj [(CHANNEL_ID, JObj [(''serviceOwner'', JStr ''tools''), (''agentId'', JStr ''bot''),
     (''apiKey'', JStr ''k''), (''channelId'', JStr ''7''), (''orgId'', JStr ''o'')])])]"

definition demo_handoff :: handoff where
  "demo_handoff = \<lparr>ho_version = ''0.17'', ho_moved = ''clawbits-tools'', ho_models = True, ho_wakes = True\<rparr>"

definition demo_format :: runtime where
  "demo_format = \<lparr>fmt_num = (\<lambda>q. []), date_parse = (\<lambda>s. None)\<rparr>"

definition demo_restart :: "companion_event list" where
  "demo_restart = [GatewayStart demo_services (Some 1), StartContinues 0 (Some demo_handoff), GatewayStart demo_services (Some 2), TasksSettle 0,
     StartContinues 0 (Some demo_handoff)]"

theorem services_run_once_witness:
  "live_groups (run (companion_step demo_format) companion_start demo_restart) = [1] \<and>
   gr_services (groups (run (companion_step demo_format) companion_start demo_restart) ! 1) =
     [Automations ''default'', Usage ''default'', Models ''default'', Skills ''default'', Email ''default'']"
proof
  have "obeys companion_allowed (companion_step demo_format) companion_start demo_restart" by code_simp
  from services_run_once [OF this]
  have "live_groups (run (companion_step demo_format) companion_start demo_restart) = running_list (run (companion_step demo_format) companion_start demo_restart)" by simp
  also have "running_list (run (companion_step demo_format) companion_start demo_restart) = [1]" by code_simp
  finally show "live_groups (run (companion_step demo_format) companion_start demo_restart) = [1]" .
  show "gr_services (groups (run (companion_step demo_format) companion_start demo_restart) ! 1) =
      [Automations ''default'', Usage ''default'', Models ''default'', Skills ''default'', Email ''default'']" by code_simp
qed

text \<open>
  Without the host's waiting: of two starts at once the first one's group is never stopped; a stop during a start is lost; and a
  stop that is still waiting takes the handle of the start after it.
\<close>

theorem overlapping_hooks_lose_track:
  "live_groups (run (companion_step demo_format) companion_start
     [GatewayStart demo_services (Some 1), GatewayStart demo_services (Some 2), StartContinues 0 (Some demo_handoff),
      StartContinues 0 (Some demo_handoff), GatewayStop]) = [0]"
  "running_group (run (companion_step demo_format) companion_start
     [GatewayStart demo_services (Some 1), GatewayStop, StartContinues 0 (Some demo_handoff)]) = Some 0"
  "cron_handle (run (companion_step demo_format) companion_start
     [GatewayStart demo_services (Some 1), StartContinues 0 (Some demo_handoff), GatewayStop, GatewayStart demo_services (Some 2),
      StartContinues 0 (Some demo_handoff), TasksSettle 0, StopContinues 0]) = None"
  by code_simp+

end
