(* ===== verification/Capabilities.thy ===== *)
theory Capabilities
  imports Gateway_Upkeep
begin

text \<open>
  What an agent claims to be able to do (\<open>plugin/src/widgets/capability.ts\<close>) and the pinger that tells the server
  (\<open>plugin/src/liveness.ts\<close>). The pinger is split at its request and its sleep; a change of the capabilities is
  announced to it.
\<close>

section \<open>Tool policies\<close>

definition WIDGETS_CAPABILITY :: string where "WIDGETS_CAPABILITY = ''widgets''"
definition WIDGET_ACT_TOOL :: string where "WIDGET_ACT_TOOL = ''clawbits_widget_act''"
definition TOOLS_PLUGIN_ID :: string where "TOOLS_PLUGIN_ID = ''clawbits-tools''"

definition policy_entries :: "jsval \<Rightarrow> string list" where
  "policy_entries v = (case v of JArr vs \<Rightarrow> map (\<lambda>s. lower (trim s)) (List.map_filter as_str vs) | _ \<Rightarrow> [])"

text \<open>The dot of a pattern, which no line break matches, and the literal parts joined by \<open>.*\<close>.\<close>

definition dot :: "char \<Rightarrow> bool" where
  "dot c = (c \<noteq> CHR 0x0A \<and> c \<noteq> CHR 0x0D)"

fun match_parts :: "string list \<Rightarrow> string \<Rightarrow> bool" where
  "match_parts [] s = (s = [])"
| "match_parts [p] s = (s = p)"
| "match_parts (p # q # ps) s =
     (starts_with s p \<and>
      list_ex (\<lambda>n. list_all dot (take n (drop (length p) s)) \<and> match_parts (q # ps) (drop n (drop (length p) s)))
        [0..<Suc (length (drop (length p) s))])"

definition globMatches :: "string \<Rightarrow> string \<Rightarrow> bool" where
  "globMatches pattern tool =
     (if CHR ''*'' \<notin> set pattern then pattern = tool else match_parts (split_on CHR ''*'' pattern) tool)"

definition agentToolPolicy :: "jsval \<Rightarrow> string option \<Rightarrow> jsval" where
  "agentToolPolicy cfg agentId = (case agentId of
      Some (c # cs) \<Rightarrow>
        (let agents = jget cfg ''agents''; wanted = lower (trim (c # cs)); entries = jget agents ''entries'' in
         if is_object entries then
           (case List.find (\<lambda>k. lower (trim k) = wanted) (object_keys entries) of
              None \<Rightarrow> JUndef
            | Some k \<Rightarrow> coalesce (jget (jget entries k) ''tools'') JUndef)
         else (case jget agents ''list'' of
             JArr es \<Rightarrow>
               (case List.find (\<lambda>e. (case as_str (jget e ''id'') of Some i \<Rightarrow> lower (trim i) = wanted | None \<Rightarrow> False)) es of
                  None \<Rightarrow> JUndef
                | Some e \<Rightarrow> jget e ''tools'')
           | _ \<Rightarrow> JUndef))
    | _ \<Rightarrow> JUndef)"

definition policy_matches :: "string \<Rightarrow> string \<Rightarrow> string \<Rightarrow> bool" where
  "policy_matches plugin tool e =
     (e = ''*'' \<or> e = ''group:plugins'' \<or> e = plugin \<or> e = tool \<or> globMatches e tool)"

definition optionalToolAllowed :: "jsval \<Rightarrow> string \<Rightarrow> string \<Rightarrow> string option \<Rightarrow> bool" where
  "optionalToolAllowed cfg toolName pluginId agentId =
     (let shared = jget cfg ''tools''; own = agentToolPolicy cfg agentId;
          allow = concat (map policy_entries [jget shared ''allow'', jget shared ''alsoAllow'', jget own ''allow'', jget own ''alsoAllow'']);
          deny = concat (map policy_entries [jget shared ''deny'', jget own ''deny''])
      in list_ex (policy_matches (lower pluginId) (lower toolName)) allow \<and>
         \<not> list_ex (policy_matches (lower pluginId) (lower toolName)) deny)"

definition widgetsAvailable :: "jsval \<Rightarrow> bool \<Rightarrow> guard_target option \<Rightarrow> (string \<Rightarrow> bool) \<Rightarrow> bool" where
  "widgetsAvailable cfg widgets route toolRegistered = (case route of
      None \<Rightarrow> False
    | Some t \<Rightarrow> widgets \<and> isOwnGameSession (Some (gt_session t)) GAME_ROUTE_PROBE None \<and> toolRegistered WIDGET_ACT_TOOL \<and>
        optionalToolAllowed cfg WIDGET_ACT_TOOL TOOLS_PLUGIN_ID (gt_agent t))"

definition agentCapabilities :: "jsval \<Rightarrow> bool \<Rightarrow> guard_target option \<Rightarrow> (string \<Rightarrow> bool) \<Rightarrow> string list" where
  "agentCapabilities cfg widgets route toolRegistered =
     (if widgetsAvailable cfg widgets route toolRegistered then [WIDGETS_CAPABILITY] else [])"

section \<open>Wildcards\<close>

text \<open>What a pattern means: a star stands for any run of characters of one line.\<close>

inductive wild :: "string \<Rightarrow> string \<Rightarrow> bool" where
  wild_end: "wild [] []"
| wild_char: "c \<noteq> CHR ''*'' \<Longrightarrow> wild p s \<Longrightarrow> wild (c # p) (c # s)"
| wild_none: "wild p s \<Longrightarrow> wild (CHR ''*'' # p) s"
| wild_more: "dot c \<Longrightarrow> wild (CHR ''*'' # p) s \<Longrightarrow> wild (CHR ''*'' # p) (c # s)"

inductive_simps wild_Nil: "wild [] s"
inductive_cases wild_starE: "wild (CHR ''*'' # p) s"
inductive_cases wild_charE: "wild (c # p) s"

lemma wild_char_iff: "c \<noteq> CHR ''*'' \<Longrightarrow> wild (c # p) s \<longleftrightarrow> (\<exists>t. s = c # t \<and> wild p t)"
  by (auto intro: wild_char elim: wild_charE)

lemma wild_star_iff: "wild (CHR ''*'' # p) s \<longleftrightarrow> (\<exists>n \<le> length s. list_all dot (take n s) \<and> wild p (drop n s))"
proof (induction s)
  case Nil
  then show ?case by (auto intro: wild_none elim: wild_starE)
next
  case (Cons c s)
  have "wild (CHR ''*'' # p) (c # s) \<longleftrightarrow> wild p (c # s) \<or> dot c \<and> wild (CHR ''*'' # p) s"
    by (auto intro: wild_none wild_more elim: wild_starE)
  moreover have "(\<exists>n \<le> length (c # s). list_all dot (take n (c # s)) \<and> wild p (drop n (c # s))) \<longleftrightarrow>
      wild p (c # s) \<or> dot c \<and> (\<exists>n \<le> length s. list_all dot (take n s) \<and> wild p (drop n s))"
  proof
    assume "\<exists>n \<le> length (c # s). list_all dot (take n (c # s)) \<and> wild p (drop n (c # s))"
    then obtain n where n: "n \<le> length (c # s)" "list_all dot (take n (c # s))" "wild p (drop n (c # s))" by blast
    then show "wild p (c # s) \<or> dot c \<and> (\<exists>n \<le> length s. list_all dot (take n s) \<and> wild p (drop n s))" by (cases n) auto
  next
    assume "wild p (c # s) \<or> dot c \<and> (\<exists>n \<le> length s. list_all dot (take n s) \<and> wild p (drop n s))"
    then show "\<exists>n \<le> length (c # s). list_all dot (take n (c # s)) \<and> wild p (drop n (c # s))"
    proof
      assume "wild p (c # s)"
      then show ?thesis by (intro exI [of _ 0]) simp
    next
      assume "dot c \<and> (\<exists>n \<le> length s. list_all dot (take n s) \<and> wild p (drop n s))"
      then obtain n where "dot c" "n \<le> length s" "list_all dot (take n s)" "wild p (drop n s)" by blast
      then show ?thesis by (intro exI [of _ "Suc n"]) simp
    qed
  qed
  ultimately show ?case using Cons.IH by simp
qed

lemma match_parts_Cons: "match_parts ((c # p) # ps) s \<longleftrightarrow> (\<exists>t. s = c # t \<and> match_parts (p # ps) t)"
  by (cases ps; cases s) auto

lemma match_parts_star:
  "ps \<noteq> [] \<Longrightarrow> match_parts ([] # ps) s \<longleftrightarrow> (\<exists>n \<le> length s. list_all dot (take n s) \<and> match_parts ps (drop n s))"
  by (cases ps) (simp_all add: list_ex_iff less_Suc_eq_le Bex_def del: upt_Suc)

lemma match_parts_wild: "match_parts (split_on CHR ''*'' p) s \<longleftrightarrow> wild p s"
proof (induction p arbitrary: s)
  case Nil
  then show ?case by (simp add: wild_Nil)
next
  case (Cons c p)
  show ?case
  proof (cases "c = CHR ''*''")
    case True
    then show ?thesis using Cons.IH by (simp add: match_parts_star wild_star_iff)
  next
    case False
    obtain r rs where "split_on CHR ''*'' p = r # rs" by (metis split_on_nonempty neq_Nil_conv)
    with False show ?thesis using Cons.IH by (simp add: match_parts_Cons wild_char_iff)
  qed
qed

text \<open>A policy pattern means what it says: it matches a tool exactly when each star stands for some run of characters and everything
  else is taken literally.\<close>

theorem glob_is_wildcard: "globMatches pattern tool = wild pattern tool"
proof (cases "CHR ''*'' \<in> set pattern")
  case False
  then show ?thesis using match_parts_wild [of pattern tool] by (simp add: globMatches_def split_on_no_sep) blast
qed (simp add: globMatches_def match_parts_wild)

section \<open>Claims are kept\<close>

lemma own_game_key:
  assumes "widgetId \<noteq> []" and "CHR '':'' \<notin> set widgetId" and "GAME_GENERATION widgetId = None"
  shows "gameSessionOf (Some ((''agent:'' @ a @ '':clawbits:channel:'') @ gamePeerId widgetId gen)) = Some (widgetId, gen)"
proof -
  let ?peer = "widgetId @ (if gen > 0 then ''-g'' @ show_nat gen else [])"
  have "CHR '':'' \<notin> set ?peer" "?peer \<noteq> []"
    using assms show_nat_digits [of "CHR '':''" gen] by (auto simp: is_digit_def)
  then show ?thesis
    using gameSessionOf_key [of ?peer "''agent:'' @ a"] assms(1,3) GAME_GENERATION_show [of gen widgetId]
    by (cases "gen > 0") (simp_all add: gamePeerId_def GAME_SESSION_MARKER_def)
qed

text \<open>
  The host routes every game peer alike: to a session of its own, or to one that all of them share and that is no game's.
\<close>

definition routes_alike :: "(turn_peer \<Rightarrow> guard_target option) \<Rightarrow> bool \<Rightarrow> string \<Rightarrow> string option \<Rightarrow> bool" where
  "routes_alike route apart a agent =
     (gameSessionOf (Some a) = None \<and>
      route = (\<lambda>peer. Some \<lparr>gt_session = (if apart then (''agent:'' @ a @ '':clawbits:channel:'') @ tp_id peer else a), gt_agent = agent\<rparr>))"

text \<open>C31: An agent that claims games can play them. When the claim's probe finds a session of its own, the agent's move in any game is
  run, in that game's own session, and the tool it needs is registered and allowed there.\<close>

theorem claimed_games_are_playable:
  assumes "WIDGETS_CAPABILITY \<in> set (agentCapabilities cfg widgets (gameRoute (th_route H)) reg)"
    and "routes_alike (th_route H) apart a agent"
    and "im_game m = Some i" and "i \<noteq> []" and "CHR '':'' \<notin> set i" and "GAME_GENERATION i = None"
  shows "\<exists>gen t. turn_route H m = Some (game_peer i gen, Some t) \<and> gameSessionOf (Some (gt_session t)) = Some (i, gen) \<and>
    reg WIDGET_ACT_TOOL \<and> optionalToolAllowed cfg WIDGET_ACT_TOOL TOOLS_PLUGIN_ID (gt_agent t)"
proof -
  have route: "th_route H peer = Some \<lparr>gt_session = (if apart then (''agent:'' @ a @ '':clawbits:channel:'') @ tp_id peer else a), gt_agent = agent\<rparr>" for peer
    using assms(2) unfolding routes_alike_def by metis
  have folded: "gameSessionOf (Some a) = None" using assms(2) by (simp add: routes_alike_def)
  have avail: "widgetsAvailable cfg widgets (gameRoute (th_route H)) reg" using assms(1) by (simp add: agentCapabilities_def split: if_splits)
  then have apart: apart using route folded by (cases apart) (auto simp: widgetsAvailable_def gameRoute_def isOwnGameSession_def)
  note read = own_game_key [OF assms(4-6)]
  have own: "own_session (th_route H (game_peer i gen)) i g \<longleftrightarrow> g = None \<or> g = Some gen" for gen g
    using read [of a gen] apart by (simp add: own_session_def route isOwnGameSession_def game_peer_def)
  have "turn_route H m = Some (game_peer i (th_generation H), th_route H (game_peer i (th_generation H)))"
    using assms(3) own by (cases "th_generation H = 0") (simp_all add: turn_route_def Let_def)
  then show ?thesis using avail route read [of a "th_generation H"] apart
    by (auto simp: widgetsAvailable_def gameRoute_def game_peer_def)
qed

definition demo_policy :: jsval where
  "demo_policy = JObj [(''tools'', JObj [(''alsoAllow'', JArr [JStr '' Clawbits_* ''])])]"

definition demo_game_host :: turn_host where
  "demo_game_host = demo_turn_host\<lparr>th_route := \<lambda>peer. Some \<lparr>gt_session = (''agent:'' @ ''a'' @ '':clawbits:channel:'') @ tp_id peer, gt_agent = None\<rparr>\<rparr>"

theorem claimed_games_are_playable_witness:
  "\<exists>gen t. turn_route demo_game_host (demo_message\<lparr>im_game := Some ''w1''\<rparr>) = Some (game_peer ''w1'' gen, Some t) \<and>
    gameSessionOf (Some (gt_session t)) = Some (''w1'', gen) \<and> (\<lambda>x. True) WIDGET_ACT_TOOL \<and>
    optionalToolAllowed demo_policy WIDGET_ACT_TOOL TOOLS_PLUGIN_ID (gt_agent t)"
proof (rule claimed_games_are_playable)
  show "WIDGETS_CAPABILITY \<in> set (agentCapabilities demo_policy True (gameRoute (th_route demo_game_host)) (\<lambda>x. True))" by code_simp
  have "gameSessionOf (Some ''a'') = None" by code_simp
  then show "routes_alike (th_route demo_game_host) True ''a'' None" by (simp add: routes_alike_def demo_game_host_def)
  show "GAME_GENERATION ''w1'' = None" by code_simp
qed simp_all

section \<open>The pinger\<close>

fun str_le :: "string \<Rightarrow> string \<Rightarrow> bool" where
  "str_le [] t = True"
| "str_le (c # s) [] = False"
| "str_le (c # s) (d # t) = (if c = d then str_le s t else (of_char c :: nat) < of_char d)"

fun insert_sorted :: "string \<Rightarrow> string list \<Rightarrow> string list" where
  "insert_sorted x [] = [x]"
| "insert_sorted x (y # ys) = (if str_le x y then x # y # ys else y # insert_sorted x ys)"

text \<open>\<open>[...new Set(names)].sort()\<close>\<close>

definition reported_names :: "string list \<Rightarrow> string list" where
  "reported_names names = foldr insert_sorted (foldl (\<lambda>xs x. sadd x xs) [] names) []"

datatype ping_phase = Pinging "string list" bool | Asleep bool | PingerStopped

record pinger =
  pg_now :: "string list"
  pg_sent :: "string list option"
  pg_phase :: ping_phase
  pg_server :: "string list option"
  pg_aborted :: bool

text \<open>The head of the loop: the next ping goes out, or the pinger has ended.\<close>

definition next_ping :: "pinger \<Rightarrow> pinger" where
  "next_ping p = p\<lparr>pg_phase := (if pg_aborted p then PingerStopped else Pinging (reported_names (pg_now p)) False)\<rparr>"

definition runLivenessPinger :: "string list \<Rightarrow> int \<Rightarrow> bool \<Rightarrow> pinger" where
  "runLivenessPinger names intervalMs hasKey =
     (let p = \<lparr>pg_now = names, pg_sent = None, pg_phase = PingerStopped, pg_server = None, pg_aborted = False\<rparr> in
      if intervalMs \<le> 0 \<or> \<not> hasKey then p else next_ping p)"

datatype ping_event =
    NamesChange "string list"
  | PingArrives
  | PingAnswers bool
  | SleepEnds
  | PingAborts

definition fall_asleep :: "bool \<Rightarrow> pinger \<Rightarrow> pinger" where
  "fall_asleep ok p = p\<lparr>pg_phase := (if pg_aborted p then PingerStopped else Asleep ok)\<rparr>"

fun ping_step :: "pinger \<Rightarrow> ping_event \<Rightarrow> pinger" where
  "ping_step p (NamesChange names) =
     (let p1 = p\<lparr>pg_now := names\<rparr> in
      case pg_phase p of
        Asleep ok \<Rightarrow> (if Some (reported_names names) \<noteq> pg_sent p then next_ping p1 else p1)
      | _ \<Rightarrow> p1)"
| "ping_step p PingArrives = (case pg_phase p of
      Pinging names arrived \<Rightarrow> p\<lparr>pg_server := Some names, pg_phase := Pinging names True\<rparr>
    | _ \<Rightarrow> p)"
| "ping_step p (PingAnswers ok) = (case pg_phase p of
      Pinging names arrived \<Rightarrow>
        (if \<not> ok then fall_asleep False p
         else let p1 = p\<lparr>pg_sent := Some names\<rparr> in
           if reported_names (pg_now p) \<noteq> names then next_ping p1 else fall_asleep True p1)
    | _ \<Rightarrow> p)"
| "ping_step p SleepEnds = (case pg_phase p of Asleep ok \<Rightarrow> next_ping p | _ \<Rightarrow> p)"
| "ping_step p PingAborts =
     (let p1 = p\<lparr>pg_aborted := True\<rparr> in case pg_phase p of Asleep ok \<Rightarrow> p1\<lparr>pg_phase := PingerStopped\<rparr> | _ \<Rightarrow> p1)"

text \<open>A ping is acknowledged only after the server took it.\<close>

fun ping_allowed :: "pinger \<Rightarrow> ping_event \<Rightarrow> bool" where
  "ping_allowed p (PingAnswers ok) = (case pg_phase p of Pinging names arrived \<Rightarrow> ok \<longrightarrow> arrived | _ \<Rightarrow> False)"
| "ping_allowed p e = True"

definition pinger_ok :: "pinger \<Rightarrow> bool" where
  "pinger_ok p = (case pg_phase p of
      Pinging names arrived \<Rightarrow> (if arrived then pg_server p = Some names else True)
    | Asleep ok \<Rightarrow> \<not> pg_aborted p \<and> (if ok then pg_sent p = Some (reported_names (pg_now p)) \<and> pg_server p = pg_sent p else True)
    | PingerStopped \<Rightarrow> True)"

lemma next_ping_ok: "pinger_ok (next_ping p)"
  by (simp add: next_ping_def pinger_ok_def)

lemma ping_step_ok: "pinger_ok p \<Longrightarrow> ping_allowed p e \<Longrightarrow> pinger_ok (ping_step p e)"
proof (induction e)
  case (NamesChange names)
  then show ?case by (cases "pg_phase p") (auto simp: pinger_ok_def next_ping_def Let_def)
next
  case (PingAnswers ok)
  then show ?case by (cases "pg_phase p") (auto simp: pinger_ok_def fall_asleep_def next_ping_def Let_def)
qed (cases "pg_phase p"; auto simp: pinger_ok_def next_ping_def Let_def)+

lemma pinger_starts_ok: "pinger_ok (runLivenessPinger names intervalMs hasKey)"
  by (simp add: runLivenessPinger_def Let_def next_ping_ok) (simp add: pinger_ok_def)

interpretation pings: guarded_system "runLivenessPinger names intervalMs hasKey" ping_step ping_allowed pinger_ok
  for names intervalMs hasKey
  by unfold_locales (simp_all add: ping_step_ok pinger_starts_ok)

text \<open>C32: The server's picture of the agent is current. Whenever the pinger sleeps after a ping that was answered, what the server holds is what the
  agent can do at that moment, also if that changed while a ping was in flight or during the sleep.\<close>

theorem sleeping_pinger_is_current:
  assumes "obeys ping_allowed ping_step (runLivenessPinger names intervalMs hasKey) es"
    and "pg_phase (run ping_step (runLivenessPinger names intervalMs hasKey) es) = Asleep True"
  shows "pg_server (run ping_step (runLivenessPinger names intervalMs hasKey) es) =
    Some (reported_names (pg_now (run ping_step (runLivenessPinger names intervalMs hasKey) es)))"
  using pings.good_disciplined_run [OF assms(1)] assms(2) by (simp add: pinger_ok_def)

definition demo_pings :: "ping_event list" where
  "demo_pings = [PingArrives, NamesChange [''widgets''], PingAnswers True, PingArrives, PingAnswers True]"

theorem sleeping_pinger_is_current_witness:
  "pg_server (run ping_step (runLivenessPinger [] 60000 True) demo_pings) = Some [''widgets'']"
proof -
  have "obeys ping_allowed ping_step (runLivenessPinger [] 60000 True) demo_pings" by code_simp
  moreover have "pg_phase (run ping_step (runLivenessPinger [] 60000 True) demo_pings) = Asleep True" by code_simp
  moreover have "reported_names (pg_now (run ping_step (runLivenessPinger [] 60000 True) demo_pings)) = [''widgets'']" by code_simp
  ultimately show ?thesis using sleeping_pinger_is_current [of "[]" 60000 True demo_pings] by simp
qed

end
