(* ===== verification/Outbound_Sends.thy ===== *)
theory Outbound_Sends
  imports Turn_Dispatch
begin

text \<open>
  What leaves the plugin (\<open>plugin/src/outbound-adapter.ts\<close>, \<open>outbound-media.ts\<close>, \<open>challenge.ts\<close>): the address of a send, the
  challenge before a post, the upload of media, and the sends of a durable intent over a network that may lose
  requests and answers. The chat is the server's, as its handlers write it (\<open>fastapi/clawbits_server.py\<close>): a key is kept
  with the post that carries it, and a post under a key it holds answers with that post.
  The draft a send claims (theory \<open>Open_Drafts\<close>) is an argument.
\<close>

section \<open>Challenges\<close>

record challenge =
  ch_question :: string
  ch_token :: string

definition DEFAULT_MAX_ATTEMPTS :: nat where "DEFAULT_MAX_ATTEMPTS = 16"

text \<open>The draws of the server, \<open>None\<close> when asking for one throws.\<close>

fun answer_from :: "(string, string) jsmap \<Rightarrow> (nat \<Rightarrow> challenge option) \<Rightarrow> nat \<Rightarrow> nat \<Rightarrow> (string \<times> string) option" where
  "answer_from known draws i 0 = None"
| "answer_from known draws i (Suc left) = (case draws i of
      None \<Rightarrow> None
    | Some c \<Rightarrow> (case mget known (ch_question c) of
        Some answer \<Rightarrow> Some (ch_token c, answer)
      | None \<Rightarrow> answer_from known draws (Suc i) left))"

definition withChallenge :: "(string, string) jsmap \<Rightarrow> (nat \<Rightarrow> challenge option) \<Rightarrow> (string \<times> string) option" where
  "withChallenge known draws = answer_from known draws 0 DEFAULT_MAX_ATTEMPTS"

definition resolveKnownAnswers :: "(string, string) jsmap \<Rightarrow> (string, string) jsmap option \<Rightarrow> (string, string) jsmap" where
  "resolveKnownAnswers bundled override = (case override of
      None \<Rightarrow> bundled
    | Some own \<Rightarrow> foldl (\<lambda>m (k, v). mset_key k v m) bundled own)"

lemma answer_from_known:
  "answer_from known draws i n = Some (token, answer) \<Longrightarrow>
   \<exists>c j. i \<le> j \<and> j < i + n \<and> draws j = Some c \<and> ch_token c = token \<and> mget known (ch_question c) = Some answer"
proof (induction n arbitrary: i)
  case (Suc n)
  show ?case
  proof (cases "draws i")
    case (Some c)
    show ?thesis
    proof (cases "mget known (ch_question c)")
      case None
      with Suc Some obtain c' j where "Suc i \<le> j" "j < Suc i + n" "draws j = Some c'" "ch_token c' = token"
          "mget known (ch_question c') = Some answer" by fastforce
      then show ?thesis by (intro exI [of _ c'] exI [of _ j]) simp
    next
      case (Some a)
      with Suc.prems \<open>draws i = Some c\<close> show ?thesis by (intro exI [of _ c] exI [of _ i]) simp
    qed
  qed (use Suc.prems in simp)
qed simp

lemma answer_from_none:
  "answer_from known draws i n = None \<Longrightarrow>
   (\<exists>j < i + n. draws j = None) \<or> (\<forall>j. i \<le> j \<and> j < i + n \<longrightarrow> (\<exists>c. draws j = Some c \<and> mget known (ch_question c) = None))"
proof (induction n arbitrary: i)
  case (Suc n)
  show ?case
  proof (cases "draws i")
    case None
    then show ?thesis by (intro disjI1 exI [of _ i]) simp
  next
    case (Some c)
    with Suc.prems have miss: "mget known (ch_question c) = None" "answer_from known draws (Suc i) n = None" by (auto split: option.splits)
    have "\<exists>c. draws j = Some c \<and> mget known (ch_question c) = None"
      if "\<forall>j. Suc i \<le> j \<and> j < Suc i + n \<longrightarrow> (\<exists>c. draws j = Some c \<and> mget known (ch_question c) = None)" "i \<le> j" "j < i + Suc n" for j
      using that Some miss(1) by (cases "j = i") auto
    with Suc.IH [OF miss(2)] show ?thesis by auto
  qed
qed auto

section \<open>Addresses\<close>

datatype send_error = AccountDisabled | NoChannel | GamePostsNothing

definition CHANNEL_PREFIX :: string where "CHANNEL_PREFIX = ''channel:''"

text \<open>\<open>/^clawbits:/i\<close>\<close>

definition strip_address :: "string \<Rightarrow> string" where
  "strip_address s = (if starts_with (lower s) ADDRESS then drop (length ADDRESS) s else s)"

text \<open>\<open>/^channel:(.+)$/i\<close>, whose dot stops at the end of a line\<close>

definition channel_peer :: "string \<Rightarrow> string option" where
  "channel_peer s = (let r = drop (length CHANNEL_PREFIX) s in
     if starts_with (lower s) CHANNEL_PREFIX \<and> r \<noteq> [] \<and> CHR 0x0A \<notin> set r \<and> CHR 0x0D \<notin> set r then Some r else None)"

definition resolveSendTarget :: "bool \<Rightarrow> string option \<Rightarrow> string option \<Rightarrow> send_error + string" where
  "resolveSendTarget enabled owner to =
     (if \<not> enabled then Inl AccountDisabled
      else
       let stripped = strip_address (case to of Some t \<Rightarrow> trim t | None \<Rightarrow> []);
           channelId = (case channel_peer stripped of
               Some c \<Rightarrow> Some c
             | None \<Rightarrow> if stripped \<noteq> [] \<and> lower stripped \<noteq> ''default'' \<and> CHR '':'' \<notin> set stripped then Some stripped else owner)
       in case channelId of
           Some (c # cs) \<Rightarrow> if isGamePeerId (c # cs) then Inl GamePostsNothing else Inr (c # cs)
         | _ \<Rightarrow> Inl NoChannel)"

section \<open>Media\<close>

definition EXT_BY_CONTENT_TYPE :: "(string, string) jsmap" where
  "EXT_BY_CONTENT_TYPE =
     [(''image/png'', ''.png''), (''image/jpeg'', ''.jpg''), (''image/gif'', ''.gif''), (''image/webp'', ''.webp''),
      (''image/svg+xml'', ''.svg''), (''video/mp4'', ''.mp4''), (''audio/mpeg'', ''.mp3''), (''audio/ogg'', ''.ogg''),
      (''application/pdf'', ''.pdf'')]"

definition last_segment :: "string \<Rightarrow> string" where
  "last_segment s = rev (takeWhile (\<lambda>c. c \<notin> {CHR ''/'', CHR 0x5C}) (rev s))"

definition basenameFromMediaUrl :: "string \<Rightarrow> string option" where
  "basenameFromMediaUrl mediaUrl =
     (let base = last_segment (takeWhile (\<lambda>c. c \<notin> {CHR ''?'', CHR ''#''}) mediaUrl) in
      if base \<noteq> [] \<and> base \<noteq> ''.'' \<and> base \<noteq> ''..'' then Some base else None)"

definition deriveFilename :: "string \<Rightarrow> string option \<Rightarrow> string option \<Rightarrow> string" where
  "deriveFilename mediaUrl fileName contentType = (case map_option trim fileName of
      Some (c # cs) \<Rightarrow> c # cs
    | _ \<Rightarrow>
       (let ext = (case mget EXT_BY_CONTENT_TYPE (lower (case contentType of Some t \<Rightarrow> t | None \<Rightarrow> [])) of Some e \<Rightarrow> e | None \<Rightarrow> []) in
        case basenameFromMediaUrl mediaUrl of
          Some base \<Rightarrow> if CHR ''.'' \<in> set base then base else base @ ext
        | None \<Rightarrow> ''media'' @ (if ext = [] then ''.bin'' else ext)))"

text \<open>The answers on the way: an error carries its status, zero when it did not come from the server.\<close>

record loaded_media =
  lm_name :: "string option"
  lm_type :: "string option"
  lm_size :: nat

record media_world =
  mw_load :: "loaded_media option"
  mw_direct :: "nat + jsval"
  mw_reserve :: "nat + jsval"
  mw_put :: nat
  mw_confirm :: "nat + jsval"

datatype upload_call = Direct string string nat | Reserve string string nat | Put string | Confirm string

definition extractFileId :: "jsval \<Rightarrow> string option" where
  "extractFileId response = (case as_str (jget response ''file_id'') of Some (c # cs) \<Rightarrow> Some (c # cs) | _ \<Rightarrow> None)"

definition content_type_of :: "loaded_media \<Rightarrow> string" where
  "content_type_of m = (case lm_type m of Some (c # cs) \<Rightarrow> c # cs | _ \<Rightarrow> ''application/octet-stream'')"

definition put_ok :: "nat \<Rightarrow> bool" where "put_ok status = (200 \<le> status \<and> status < 300)"

definition presigned_upload :: "media_world \<Rightarrow> string \<Rightarrow> string \<Rightarrow> nat \<Rightarrow> upload_call list \<times> string option" where
  "presigned_upload W filename contentType bytes = (case mw_reserve W of
      Inl e \<Rightarrow> ([Reserve filename contentType bytes], None)
    | Inr reserved \<Rightarrow> (case (extractFileId reserved, as_str (jget reserved ''upload_url'')) of
        (Some fileId, Some (c # cs)) \<Rightarrow>
          (if \<not> put_ok (mw_put W) then ([Reserve filename contentType bytes, Put (c # cs)], None)
           else ([Reserve filename contentType bytes, Put (c # cs), Confirm fileId],
                 case mw_confirm W of Inr _ \<Rightarrow> Some fileId | Inl _ \<Rightarrow> None))
      | _ \<Rightarrow> ([Reserve filename contentType bytes], None)))"

definition uploadOutboundMedia :: "media_world \<Rightarrow> string option \<Rightarrow> upload_call list \<times> string option" where
  "uploadOutboundMedia W mediaUrl = (case (mediaUrl, mw_load W) of
      (Some (u # us), Some m) \<Rightarrow>
        (let filename = deriveFilename (u # us) (lm_name m) (lm_type m); contentType = content_type_of m in
         case mw_direct W of
           Inr direct \<Rightarrow> ([Direct filename contentType (lm_size m)], extractFileId direct)
         | Inl status \<Rightarrow>
             (if status \<noteq> 404 then ([Direct filename contentType (lm_size m)], None)
              else (let (calls, fileId) = presigned_upload W filename contentType (lm_size m)
                    in (Direct filename contentType (lm_size m) # calls, fileId))))
    | _ \<Rightarrow> ([], None))"

lemma upload_ends_confirmed:
  assumes "snd (uploadOutboundMedia W mediaUrl) = Some fileId"
  shows "(\<exists>name type bytes. fst (uploadOutboundMedia W mediaUrl) = [Direct name type bytes] \<and> (\<exists>r. mw_direct W = Inr r)) \<or>
    mw_direct W = Inl 404 \<and> put_ok (mw_put W) \<and> last (fst (uploadOutboundMedia W mediaUrl)) = Confirm fileId"
  using assms
  by (auto simp: uploadOutboundMedia_def presigned_upload_def Let_def split: option.splits list.splits sum.splits if_splits prod.splits)

section \<open>The chat\<close>

record post_body =
  pb_text :: string
  pb_file :: "string option"
  pb_surface :: "string option"

record room_post =
  rp_id :: nat
  rp_body :: post_body
  rp_streaming :: bool
  rp_key :: "string option"

record room =
  room_posts :: "room_post list"
  room_next :: nat

definition text_body :: "string \<Rightarrow> post_body" where
  "text_body t = \<lparr>pb_text = t, pb_file = None, pb_surface = None\<rparr>"

definition key_holder :: "room \<Rightarrow> string option \<Rightarrow> room_post option" where
  "key_holder R key = (if key = None then None else List.find (\<lambda>p. rp_key p = key) (room_posts R))"

definition add_post :: "post_body \<Rightarrow> bool \<Rightarrow> string option \<Rightarrow> room \<Rightarrow> room" where
  "add_post body streaming key R =
     R\<lparr>room_posts := room_posts R @ [\<lparr>rp_id = room_next R, rp_body = body, rp_streaming = streaming, rp_key = key\<rparr>],
       room_next := Suc (room_next R)\<rparr>"

text \<open>A refusal is the status of whatever else the handler may object to.\<close>

definition create_room_post :: "nat option \<Rightarrow> post_body \<Rightarrow> string option \<Rightarrow> room \<Rightarrow> (nat + nat) \<times> room" where
  "create_room_post refusal body key R = (case key_holder R key of
      Some p \<Rightarrow> (Inr (rp_id p), R)
    | None \<Rightarrow> (case refusal of
        Some status \<Rightarrow> (Inl status, R)
      | None \<Rightarrow> (Inr (room_next R), add_post body False key R)))"

definition change_post :: "nat \<Rightarrow> (room_post \<Rightarrow> room_post) \<Rightarrow> room \<Rightarrow> room" where
  "change_post d f R = R\<lparr>room_posts := map (\<lambda>p. if rp_id p = d then f p else p) (room_posts R)\<rparr>"

definition open_post :: "room \<Rightarrow> nat \<Rightarrow> nat + room_post" where
  "open_post R d = (case List.find (\<lambda>p. rp_id p = d) (room_posts R) of
      None \<Rightarrow> Inl 404
    | Some p \<Rightarrow> if rp_streaming p then Inr p else Inl 409)"

text \<open>The end of a draft as a post; a key that another post holds breaks the unique index.\<close>

definition finish_room_post :: "nat option \<Rightarrow> nat \<Rightarrow> string \<Rightarrow> string option \<Rightarrow> room \<Rightarrow> (nat + nat) \<times> room" where
  "finish_room_post refusal d t key R = (case open_post R d of
      Inl status \<Rightarrow> (Inl status, R)
    | Inr p \<Rightarrow> (case refusal of
        Some status \<Rightarrow> (Inl status, R)
      | None \<Rightarrow> if key_holder R key \<noteq> None then (Inl 500, R)
          else (Inr d, change_post d (\<lambda>p. p\<lparr>rp_body := (rp_body p)\<lparr>pb_text := t\<rparr>, rp_streaming := False, rp_key := key\<rparr>) R)))"

definition cancel_room_post :: "nat \<Rightarrow> room \<Rightarrow> (nat + nat) \<times> room" where
  "cancel_room_post d R = (case open_post R d of
      Inl status \<Rightarrow> (Inl status, R)
    | Inr p \<Rightarrow> (Inr d, R\<lparr>room_posts := filter (\<lambda>p. rp_id p \<noteq> d) (room_posts R)\<rparr>))"

definition append_room_post :: "nat \<Rightarrow> string \<Rightarrow> room \<Rightarrow> (nat + nat) \<times> room" where
  "append_room_post d t R = (case open_post R d of
      Inl status \<Rightarrow> (Inl status, R)
    | Inr p \<Rightarrow> (Inr d, change_post d (\<lambda>p. p\<lparr>rp_body := (rp_body p)\<lparr>pb_text := pb_text (rp_body p) @ t\<rparr>\<rparr>) R))"

section \<open>Sends\<close>

datatype wire = Arrives | AnswerLost | RequestLost

definition over_wire :: "wire \<Rightarrow> (room \<Rightarrow> (nat + nat) \<times> room) \<Rightarrow> room \<Rightarrow> (nat + nat) \<times> room" where
  "over_wire w call R = (case w of
      Arrives \<Rightarrow> call R
    | AnswerLost \<Rightarrow> (Inl 0, snd (call R))
    | RequestLost \<Rightarrow> (Inl 0, R))"

text \<open>What meets one request: the hand-off to the queue, the challenges, the network and the server's objections.\<close>

record trip =
  tr_handoff :: bool
  tr_draws :: "nat \<Rightarrow> challenge option"
  tr_wire :: wire
  tr_refusal :: "nat option"

definition sendKey :: "string option \<Rightarrow> nat option \<Rightarrow> string option" where
  "sendKey deliveryQueueId deliveryPartIndex = (case deliveryQueueId of
      Some (c # cs) \<Rightarrow> Some ((c # cs) @ CHR '':'' # show_nat (case deliveryPartIndex of Some n \<Rightarrow> n | None \<Rightarrow> 0))
    | _ \<Rightarrow> None)"

definition post_to_room :: "(string, string) jsmap \<Rightarrow> trip \<Rightarrow> post_body \<Rightarrow> string option \<Rightarrow> room \<Rightarrow> (nat + nat) \<times> room" where
  "post_to_room known T body key R =
     (if \<not> tr_handoff T \<or> withChallenge known (tr_draws T) = None then (Inl 0, R)
      else over_wire (tr_wire T) (create_room_post (tr_refusal T) body key) R)"

definition sendText ::
  "(string, string) jsmap \<Rightarrow> string option \<Rightarrow> string \<Rightarrow> nat option \<Rightarrow> trip \<Rightarrow> trip \<Rightarrow> room \<Rightarrow> (nat + nat) \<times> room" where
  "sendText known key t draft T1 T2 R = (case draft of
      None \<Rightarrow> post_to_room known T2 (text_body t) key R
    | Some d \<Rightarrow>
       (if \<not> tr_handoff T1 then (Inl 0, R)
        else case over_wire (tr_wire T1) (finish_room_post (tr_refusal T1) d t key) R of
            (Inr i, R1) \<Rightarrow> (Inr d, R1)
          | (Inl e, R1) \<Rightarrow> post_to_room known T2 (text_body t) key R1))"

definition is_https :: "string \<Rightarrow> bool" where
  "is_https u = starts_with (lower u) ''https://''"

definition media_body :: "string \<Rightarrow> string \<Rightarrow> string option \<Rightarrow> post_body option" where
  "media_body t mediaUrl fileId = (case fileId of
      Some f \<Rightarrow> Some \<lparr>pb_text = t, pb_file = Some f, pb_surface = None\<rparr>
    | None \<Rightarrow> if \<not> is_https mediaUrl then None
        else Some (text_body (if t = [] then mediaUrl else t @ CHR 0x0A # mediaUrl)))"

definition sendMedia ::
  "(string, string) jsmap \<Rightarrow> string option \<Rightarrow> string \<Rightarrow> string \<Rightarrow> nat option \<Rightarrow> trip \<Rightarrow> media_world \<Rightarrow> trip \<Rightarrow> room \<Rightarrow> (nat + nat) \<times> room" where
  "sendMedia known key t mediaUrl draft T1 W T2 R =
     (let R1 = (case draft of Some d \<Rightarrow> snd (over_wire (tr_wire T1) (cancel_room_post d) R) | None \<Rightarrow> R) in
      case media_body t mediaUrl (snd (uploadOutboundMedia W (Some mediaUrl))) of
        None \<Rightarrow> (Inl 0, R1)
      | Some body \<Rightarrow> post_to_room known T2 body key R1)"

definition card_body :: "string \<Rightarrow> post_body" where
  "card_body surface = \<lparr>pb_text = [], pb_file = None, pb_surface = Some surface\<rparr>"

text \<open>\<open>postQuestion\<close> up to its post: the card, or its text when there is no card or the server refuses it.\<close>

definition postQuestion ::
  "(string, string) jsmap \<Rightarrow> string option \<Rightarrow> string option \<Rightarrow> string \<Rightarrow> trip \<Rightarrow> trip \<Rightarrow> room \<Rightarrow> (nat + nat) \<times> room" where
  "postQuestion known key drawn fallback T1 T2 R = (case drawn of
      None \<Rightarrow> post_to_room known T2 (text_body fallback) key R
    | Some surface \<Rightarrow> (case post_to_room known T1 (card_body surface) key R of
        (Inl status, R1) \<Rightarrow> (if status = 422 then post_to_room known T2 (text_body fallback) key R1 else (Inl status, R1))
      | (Inr i, R1) \<Rightarrow> (Inr i, R1)))"

datatype send_payload =
    QuestionPayload "string option" string
  | MediaPayload string string
  | TextPayload string

definition sendPayload ::
  "(string, string) jsmap \<Rightarrow> string option \<Rightarrow> send_payload \<Rightarrow> nat option \<Rightarrow> trip \<Rightarrow> media_world \<Rightarrow> trip \<Rightarrow> room \<Rightarrow> (nat + nat) \<times> room" where
  "sendPayload known key payload draft T1 W T2 R = (case payload of
      QuestionPayload drawn fallback \<Rightarrow> postQuestion known key drawn fallback T1 T2 R
    | MediaPayload t mediaUrl \<Rightarrow> sendMedia known key t mediaUrl draft T1 W T2 R
    | TextPayload t \<Rightarrow> sendText known key t draft T1 T2 R)"

text \<open>The bodies a payload may become.\<close>

definition payload_bodies :: "send_payload \<Rightarrow> media_world \<Rightarrow> post_body list" where
  "payload_bodies payload W = (case payload of
      QuestionPayload drawn fallback \<Rightarrow> text_body fallback # (case drawn of Some s \<Rightarrow> [card_body s] | None \<Rightarrow> [])
    | MediaPayload t mediaUrl \<Rightarrow> (case media_body t mediaUrl (snd (uploadOutboundMedia W (Some mediaUrl))) of Some b \<Rightarrow> [b] | None \<Rightarrow> [])
    | TextPayload t \<Rightarrow> [text_body t])"

definition postSurface :: "(string, string) jsmap \<Rightarrow> string \<Rightarrow> trip \<Rightarrow> room \<Rightarrow> (nat + nat) \<times> room" where
  "postSurface known surface T R =
     (if withChallenge known (tr_draws T) = None then (Inl 0, R)
      else over_wire (tr_wire T) (create_room_post (tr_refusal T) (card_body surface) None) R)"

section \<open>The chat under sends and drafts\<close>

text \<open>Besides the chat: what was tried under a key, and what the sends of a key reported as delivered.\<close>

record sends =
  chat_room :: room
  tried :: "(string \<times> post_body) list"
  told :: "(string \<times> nat) list"

datatype room_event =
    PayloadSent "string option" send_payload "nat option" trip media_world trip
  | SurfaceSent string trip
  | DraftMade
  | DraftGrows nat string
  | DraftFinished nat string
  | DraftCancelled nat
  | OthersPost post_body

definition no_sends :: sends where
  "no_sends = \<lparr>chat_room = \<lparr>room_posts = [], room_next = 0\<rparr>, tried = [], told = []\<rparr>"

definition noted_send :: "string option \<Rightarrow> post_body list \<Rightarrow> (nat + nat) \<times> room \<Rightarrow> sends \<Rightarrow> sends" where
  "noted_send key bodies r S = (case key of
      None \<Rightarrow> S\<lparr>chat_room := snd r\<rparr>
    | Some k \<Rightarrow> \<lparr>chat_room = snd r, tried = tried S @ map (Pair k) bodies,
        told = told S @ (case fst r of Inr i \<Rightarrow> [(k, i)] | Inl e \<Rightarrow> [])\<rparr>)"

fun send_step :: "(string, string) jsmap \<Rightarrow> sends \<Rightarrow> room_event \<Rightarrow> sends" where
  "send_step known S (PayloadSent key payload draft T1 W T2) =
     noted_send key (payload_bodies payload W) (sendPayload known key payload draft T1 W T2 (chat_room S)) S"
| "send_step known S (SurfaceSent surface T) = S\<lparr>chat_room := snd (postSurface known surface T (chat_room S))\<rparr>"
| "send_step known S DraftMade = S\<lparr>chat_room := add_post (text_body []) True None (chat_room S)\<rparr>"
| "send_step known S (DraftGrows d t) = S\<lparr>chat_room := snd (append_room_post d t (chat_room S))\<rparr>"
| "send_step known S (DraftFinished d t) = S\<lparr>chat_room := snd (finish_room_post None d t None (chat_room S))\<rparr>"
| "send_step known S (DraftCancelled d) = S\<lparr>chat_room := snd (cancel_room_post d (chat_room S))\<rparr>"
| "send_step known S (OthersPost body) = S\<lparr>chat_room := add_post body False None (chat_room S)\<rparr>"

section \<open>The invariant\<close>

definition ids_ok :: "room \<Rightarrow> bool" where
  "ids_ok R = (distinct (map rp_id (room_posts R)) \<and> (\<forall>i \<in> set (map rp_id (room_posts R)). i < room_next R))"

definition keys_apart :: "room_post set \<Rightarrow> bool" where
  "keys_apart P = (\<forall>p \<in> P. \<forall>q \<in> P. rp_key p = rp_key q \<longrightarrow> rp_key p = None \<or> p = q)"

definition keys_ok :: "room \<Rightarrow> bool" where
  "keys_ok R = keys_apart (set (room_posts R))"

definition posts_ok :: "(string \<times> post_body) list \<Rightarrow> room \<Rightarrow> bool" where
  "posts_ok T R = (\<forall>p \<in> set (room_posts R).
     (\<forall>k. rp_key p = Some k \<longrightarrow> \<not> rp_streaming p \<and> (k, rp_body p) \<in> set T) \<and>
     (rp_streaming p \<longrightarrow> pb_file (rp_body p) = None \<and> pb_surface (rp_body p) = None))"

definition room_ok :: "(string \<times> post_body) list \<Rightarrow> room \<Rightarrow> bool" where
  "room_ok T R = (ids_ok R \<and> keys_ok R \<and> posts_ok T R)"

definition keeps_keyed :: "room \<Rightarrow> room \<Rightarrow> bool" where
  "keeps_keyed R R' = (\<forall>p \<in> set (room_posts R). rp_key p \<noteq> None \<longrightarrow> p \<in> set (room_posts R'))"

definition holds_key :: "room \<Rightarrow> string \<Rightarrow> nat \<Rightarrow> bool" where
  "holds_key R k i = (\<exists>p \<in> set (room_posts R). rp_key p = Some k \<and> rp_id p = i)"

text \<open>A good move of the chat, and a good send under a key.\<close>

definition good_move :: "(string \<times> post_body) list \<Rightarrow> room \<Rightarrow> room \<Rightarrow> bool" where
  "good_move T R R' = (room_ok T R' \<and> keeps_keyed R R')"

definition good_send :: "(string \<times> post_body) list \<Rightarrow> string option \<Rightarrow> room \<Rightarrow> (nat + nat) \<times> room \<Rightarrow> bool" where
  "good_send T key R r = (good_move T R (snd r) \<and> (\<forall>i k. fst r = Inr i \<and> key = Some k \<longrightarrow> holds_key (snd r) k i))"

lemma keeps_refl [simp]: "keeps_keyed R R" by (simp add: keeps_keyed_def)

lemma keeps_trans: "keeps_keyed R R' \<Longrightarrow> keeps_keyed R' R'' \<Longrightarrow> keeps_keyed R R''"
  by (auto simp: keeps_keyed_def)

lemma holds_kept: "holds_key R k i \<Longrightarrow> keeps_keyed R R' \<Longrightarrow> holds_key R' k i"
  by (auto simp: holds_key_def keeps_keyed_def)

lemma good_move_refl: "room_ok T R \<Longrightarrow> good_move T R R" by (simp add: good_move_def)

lemma good_send_after: "good_move T R R1 \<Longrightarrow> good_send T key R1 r \<Longrightarrow> good_send T key R r"
  by (auto simp: good_send_def good_move_def intro: keeps_trans)

lemma good_send_failed: "good_move T R R1 \<Longrightarrow> good_send T key R (Inl e, R1)"
  by (simp add: good_send_def)

lemma good_send_move: "good_send T key R r \<Longrightarrow> good_move T R (snd r)"
  by (simp add: good_send_def)

lemma good_move_ok: "good_move T R R' \<Longrightarrow> room_ok T R'" by (simp add: good_move_def)

lemma key_holderD: "key_holder R key = Some p \<Longrightarrow> p \<in> set (room_posts R) \<and> rp_key p = key \<and> key \<noteq> None"
  by (auto simp: key_holder_def split: if_splits dest: find_SomeD)

lemma key_holder_None: "key_holder R key = None \<Longrightarrow> key \<noteq> None \<Longrightarrow> p \<in> set (room_posts R) \<Longrightarrow> rp_key p \<noteq> key"
  by (auto simp: key_holder_def find_None_iff)

lemma keys_apart_insert: "keys_apart P \<Longrightarrow> (\<And>q. q \<in> P \<Longrightarrow> rp_key p \<noteq> None \<Longrightarrow> rp_key q \<noteq> rp_key p) \<Longrightarrow> keys_apart (insert p P)"
  unfolding keys_apart_def by (metis insert_iff)

lemma keys_apart_subset: "keys_apart P \<Longrightarrow> Q \<subseteq> P \<Longrightarrow> keys_apart Q"
  unfolding keys_apart_def by blast

lemma keys_apartD: "keys_apart P \<Longrightarrow> p \<in> P \<Longrightarrow> q \<in> P \<Longrightarrow> rp_key p = Some k \<Longrightarrow> rp_key q = Some k \<Longrightarrow> q = p"
  unfolding keys_apart_def by (metis option.distinct(1))

lemma ids_unique: "ids_ok R \<Longrightarrow> p \<in> set (room_posts R) \<Longrightarrow> q \<in> set (room_posts R) \<Longrightarrow> rp_id p = rp_id q \<Longrightarrow> p = q"
  by (simp add: ids_ok_def distinct_map inj_on_def)

lemma open_postD: "open_post R d = Inr p \<Longrightarrow> p \<in> set (room_posts R) \<and> rp_id p = d \<and> rp_streaming p"
  by (auto simp: open_post_def split: option.splits if_splits dest: find_SomeD)

lemma add_post_ok:
  assumes "room_ok T R" and "key_holder R key = None" and "\<And>k. key = Some k \<Longrightarrow> \<not> streaming \<and> (k, body) \<in> set T"
    and "streaming \<Longrightarrow> pb_file body = None \<and> pb_surface body = None"
  shows "good_move T R (add_post body streaming key R)"
proof -
  let ?R = "add_post body streaming key R"
  have "ids_ok ?R" using assms(1) by (auto simp: room_ok_def ids_ok_def add_post_def)
  moreover have "keys_ok ?R" using assms(1) key_holder_None [OF assms(2)]
    by (auto simp: room_ok_def keys_ok_def add_post_def intro!: keys_apart_insert)
  moreover have "posts_ok T ?R" using assms(1,3,4) by (auto simp: room_ok_def posts_ok_def add_post_def)
  moreover have "keeps_keyed R ?R" by (simp add: keeps_keyed_def add_post_def)
  ultimately show ?thesis by (simp add: good_move_def room_ok_def)
qed

lemma create_ok:
  assumes "room_ok T R" and "\<And>k. key = Some k \<Longrightarrow> (k, body) \<in> set T"
  shows "good_send T key R (create_room_post refusal body key R)"
proof (cases "key_holder R key")
  case (Some p)
  then show ?thesis using key_holderD [OF Some] assms(1)
    by (auto simp: create_room_post_def good_send_def good_move_def holds_key_def)
next
  case None
  have add: "good_move T R (add_post body False key R)" using assms None by (intro add_post_ok) auto
  show ?thesis
  proof (cases refusal)
    case (Some e)
    then show ?thesis using None assms(1) by (simp add: create_room_post_def good_send_failed good_move_refl)
  next
    case none: None
    have "holds_key (add_post body False key R) k (room_next R)" if "key = Some k" for k
      using that by (simp add: holds_key_def add_post_def)
    with add none None show ?thesis by (simp add: create_room_post_def good_send_def)
  qed
qed

text \<open>A change of one post without a key.\<close>

lemma change_post_set:
  assumes "ids_ok R" and "p \<in> set (room_posts R)" and "rp_id p = d"
  shows "set (room_posts (change_post d f R)) = insert (f p) (set (room_posts R) - {p})"
proof -
  have q: "(rp_id q = d) = (q = p)" if "q \<in> set (room_posts R)" for q
    using that assms ids_unique [OF assms(1)] by blast
  have "set (room_posts (change_post d f R)) = (\<lambda>q. if q = p then f q else q) ` set (room_posts R)"
    using q by (simp add: change_post_def cong: image_cong)
  then show ?thesis using assms(2) by auto
qed

lemma change_post_ok:
  assumes ok: "room_ok T R" and p: "open_post R d = Inr p" and "rp_id (f p) = d" and "\<And>q. rp_id (f q) = rp_id q"
    and "key_holder R (rp_key (f p)) = None"
    and "\<And>k. rp_key (f p) = Some k \<Longrightarrow> \<not> rp_streaming (f p) \<and> (k, rp_body (f p)) \<in> set T"
    and "rp_streaming (f p) \<Longrightarrow> pb_file (rp_body (f p)) = None \<and> pb_surface (rp_body (f p)) = None"
  shows "good_move T R (change_post d f R)"
proof -
  let ?R = "change_post d f R"
  note p = open_postD [OF p]
  have ids: "ids_ok R" using ok by (simp add: room_ok_def)
  note set = change_post_set [OF ids conjunct1 [OF p] conjunct1 [OF conjunct2 [OF p]], of f]
  have fresh: "rp_key p = None" using ok p by (cases "rp_key p") (auto simp: room_ok_def posts_ok_def)
  have "map rp_id (room_posts ?R) = map rp_id (room_posts R)" using assms(4) by (simp add: change_post_def)
  moreover have "room_next ?R = room_next R" by (simp add: change_post_def)
  ultimately have "ids_ok ?R" using ids by (auto simp only: ids_ok_def)
  moreover have "keys_ok ?R"
  proof -
    have "keys_apart (set (room_posts R) - {p})"
      by (rule keys_apart_subset [of "set (room_posts R)"]) (use ok in \<open>auto simp: room_ok_def keys_ok_def\<close>)
    moreover have "rp_key q \<noteq> rp_key (f p)" if "q \<in> set (room_posts R) - {p}" "rp_key (f p) \<noteq> None" for q
      using key_holder_None [OF assms(5) that(2)] that(1) by simp
    ultimately show ?thesis unfolding keys_ok_def set by (rule keys_apart_insert)
  qed
  moreover have "posts_ok T ?R"
  proof -
    have "\<forall>q \<in> set (room_posts R). (\<forall>k. rp_key q = Some k \<longrightarrow> \<not> rp_streaming q \<and> (k, rp_body q) \<in> set T) \<and>
        (rp_streaming q \<longrightarrow> pb_file (rp_body q) = None \<and> pb_surface (rp_body q) = None)" using ok by (simp add: room_ok_def posts_ok_def)
    then show ?thesis using assms(6,7) unfolding posts_ok_def set by (simp add: Ball_def)
  qed
  moreover have "keeps_keyed R ?R" unfolding keeps_keyed_def set using fresh by auto
  ultimately show ?thesis by (simp add: good_move_def room_ok_def)
qed

lemma finish_ok:
  assumes "room_ok T R" and "\<And>k. key = Some k \<Longrightarrow> (k, text_body t) \<in> set T"
  shows "good_send T key R (finish_room_post refusal d t key R)"
proof (cases "open_post R d")
  case (Inl e)
  then show ?thesis using assms(1) by (simp add: finish_room_post_def good_send_failed good_move_refl)
next
  case (Inr p)
  note p = open_postD [OF Inr]
  let ?f = "\<lambda>p. p\<lparr>rp_body := (rp_body p)\<lparr>pb_text := t\<rparr>, rp_streaming := False, rp_key := key\<rparr>"
  show ?thesis
  proof (cases "refusal = None \<and> key_holder R key = None")
    case False
    then show ?thesis using Inr assms(1) by (auto simp: finish_room_post_def good_send_failed good_move_refl split: option.split)
  next
    case True
    have "(rp_body p)\<lparr>pb_text := t\<rparr> = text_body t" using assms(1) p
      by (cases "rp_body p") (auto simp: room_ok_def posts_ok_def text_body_def)
    then have "good_move T R (change_post d ?f R)" using True assms p by (intro change_post_ok [OF assms(1) Inr]) auto
    moreover have "holds_key (change_post d ?f R) k d" if "key = Some k" for k
      using change_post_set [of R p d ?f] p assms(1) that by (auto simp: holds_key_def room_ok_def)
    ultimately show ?thesis using Inr True by (simp add: finish_room_post_def good_send_def)
  qed
qed

lemma cancel_ok:
  assumes "room_ok T R"
  shows "good_move T R (snd (cancel_room_post d R))"
proof (cases "open_post R d")
  case (Inr p)
  note p = open_postD [OF Inr]
  have key: "rp_key q = None" if "q \<in> set (room_posts R)" "rp_id q = d" for q
  proof -
    have "q = p" using that p assms by (auto simp: room_ok_def intro: ids_unique)
    with p assms show ?thesis by (cases "rp_key p") (auto simp: room_ok_def posts_ok_def)
  qed
  have "keeps_keyed R (R\<lparr>room_posts := filter (\<lambda>p. rp_id p \<noteq> d) (room_posts R)\<rparr>)" using key by (auto simp: keeps_keyed_def)
  then show ?thesis using assms Inr
    by (auto simp: cancel_room_post_def good_move_def room_ok_def ids_ok_def keys_ok_def posts_ok_def distinct_map_filter
      intro: keys_apart_subset)
qed (simp add: cancel_room_post_def good_move_refl [OF assms])

lemma append_ok:
  assumes "room_ok T R"
  shows "good_move T R (snd (append_room_post d t R))"
proof (cases "open_post R d")
  case (Inr p)
  note p = open_postD [OF Inr]
  have "rp_key p = None" using p assms by (cases "rp_key p") (auto simp: room_ok_def posts_ok_def)
  then have "good_move T R (change_post d (\<lambda>p. p\<lparr>rp_body := (rp_body p)\<lparr>pb_text := pb_text (rp_body p) @ t\<rparr>\<rparr>) R)"
    using assms p by (intro change_post_ok [OF assms Inr]) (auto simp: key_holder_def room_ok_def posts_ok_def)
  then show ?thesis using Inr by (simp add: append_room_post_def)
qed (simp add: append_room_post_def good_move_refl [OF assms])

lemma over_wire_ok: "room_ok T R \<Longrightarrow> good_send T key R (call R) \<Longrightarrow> good_send T key R (over_wire w call R)"
  by (cases w) (auto simp: over_wire_def good_send_def good_move_refl)

lemma post_to_room_ok:
  "room_ok T R \<Longrightarrow> (\<And>k. key = Some k \<Longrightarrow> (k, body) \<in> set T) \<Longrightarrow> good_send T key R (post_to_room known trip body key R)"
  by (simp add: post_to_room_def good_send_failed good_move_refl over_wire_ok create_ok)

lemma sendText_ok:
  assumes "room_ok T R" and key: "\<And>k. key = Some k \<Longrightarrow> (k, text_body t) \<in> set T"
  shows "good_send T key R (sendText known key t draft T1 T2 R)"
proof (cases draft)
  case None
  then show ?thesis using assms by (simp add: sendText_def post_to_room_ok)
next
  case (Some d)
  have ends: "good_send T key R (over_wire (tr_wire T1) (finish_room_post (tr_refusal T1) d t key) R)"
    using assms by (intro over_wire_ok finish_ok)
  obtain r R1 where r: "over_wire (tr_wire T1) (finish_room_post (tr_refusal T1) d t key) R = (r, R1)" by fastforce
  show ?thesis
  proof (cases r)
    case (Inl e)
    have "good_move T R R1" using ends unfolding r by (simp add: good_send_def)
    then have "good_send T key R (post_to_room known T2 (text_body t) key R1)"
      by (rule good_send_after) (use key good_move_ok [OF \<open>good_move T R R1\<close>] in \<open>intro post_to_room_ok\<close>)
    then show ?thesis using Some r Inl assms(1) by (simp add: sendText_def good_send_failed good_move_refl)
  next
    case (Inr i)
    have "i = d"
      using r Inr by (auto simp: over_wire_def finish_room_post_def split: wire.splits sum.splits option.splits if_splits)
    then show ?thesis using Some r Inr ends assms(1) by (simp add: sendText_def good_send_failed good_move_refl)
  qed
qed

lemma sendMedia_ok:
  assumes "room_ok T R"
    and "\<And>k b. key = Some k \<Longrightarrow> media_body t mediaUrl (snd (uploadOutboundMedia W (Some mediaUrl))) = Some b \<Longrightarrow> (k, b) \<in> set T"
  shows "good_send T key R (sendMedia known key t mediaUrl draft T1 W T2 R)"
proof -
  let ?R = "case draft of Some d \<Rightarrow> snd (over_wire (tr_wire T1) (cancel_room_post d) R) | None \<Rightarrow> R"
  have move: "good_move T R ?R"
    using assms(1) by (auto simp: over_wire_def good_move_refl cancel_ok split: option.split wire.split)
  show ?thesis
  proof (cases "media_body t mediaUrl (snd (uploadOutboundMedia W (Some mediaUrl)))")
    case None
    then show ?thesis using move by (simp add: sendMedia_def good_send_failed)
  next
    case (Some b)
    have "good_send T key R (post_to_room known T2 b key ?R)"
      by (rule good_send_after [OF move], rule post_to_room_ok [OF good_move_ok [OF move]]) (use assms(2) Some in auto)
    then show ?thesis using Some by (simp add: sendMedia_def)
  qed
qed

lemma postQuestion_ok:
  assumes "room_ok T R" and "\<And>k. key = Some k \<Longrightarrow> (k, text_body fallback) \<in> set T"
    and "\<And>k s. key = Some k \<Longrightarrow> drawn = Some s \<Longrightarrow> (k, card_body s) \<in> set T"
  shows "good_send T key R (postQuestion known key drawn fallback T1 T2 R)"
proof (cases drawn)
  case None
  then show ?thesis using assms by (simp add: postQuestion_def post_to_room_ok)
next
  case (Some s)
  have carded: "good_send T key R (post_to_room known T1 (card_body s) key R)"
    using assms Some by (intro post_to_room_ok) auto
  obtain r R1 where r: "post_to_room known T1 (card_body s) key R = (r, R1)" by fastforce
  have move: "good_move T R R1" using carded unfolding r by (simp add: good_send_def)
  have "good_send T key R (post_to_room known T2 (text_body fallback) key R1)"
    by (rule good_send_after [OF move], rule post_to_room_ok [OF good_move_ok [OF move]]) (use assms(2) in auto)
  then show ?thesis using Some r carded move by (cases r) (simp_all add: postQuestion_def good_send_failed)
qed

lemma sendPayload_ok:
  assumes "room_ok T R" and "\<And>k. key = Some k \<Longrightarrow> Pair k ` set (payload_bodies payload W) \<subseteq> set T"
  shows "good_send T key R (sendPayload known key payload draft T1 W T2 R)"
proof (cases payload)
  case (QuestionPayload drawn fallback)
  have "good_send T key R (postQuestion known key drawn fallback T1 T2 R)"
    using assms(2) QuestionPayload by (intro postQuestion_ok [OF assms(1)]) (auto simp: payload_bodies_def)
  then show ?thesis using QuestionPayload by (simp add: sendPayload_def)
next
  case (MediaPayload t u)
  have "good_send T key R (sendMedia known key t u draft T1 W T2 R)"
    using assms(2) MediaPayload by (intro sendMedia_ok [OF assms(1)]) (auto simp: payload_bodies_def)
  then show ?thesis using MediaPayload by (simp add: sendPayload_def)
next
  case (TextPayload t)
  have "good_send T key R (sendText known key t draft T1 T2 R)"
    using assms(2) TextPayload by (intro sendText_ok [OF assms(1)]) (auto simp: payload_bodies_def)
  then show ?thesis using TextPayload by (simp add: sendPayload_def)
qed

definition sends_ok :: "sends \<Rightarrow> bool" where
  "sends_ok S = (room_ok (tried S) (chat_room S) \<and> (\<forall>(k, i) \<in> set (told S). holds_key (chat_room S) k i))"

lemma sends_okD: "sends_ok S \<Longrightarrow> room_ok (tried S) (chat_room S)"
  by (simp add: sends_ok_def)

lemma room_ok_more: "room_ok T R \<Longrightarrow> set T \<subseteq> set T' \<Longrightarrow> room_ok T' R"
  by (fastforce simp: room_ok_def posts_ok_def)

lemma moved_ok: "sends_ok S \<Longrightarrow> good_move (tried S) (chat_room S) R \<Longrightarrow> sends_ok (S\<lparr>chat_room := R\<rparr>)"
  by (auto simp: sends_ok_def good_move_def intro: holds_kept)

lemma noted_ok:
  assumes "sends_ok S" and send: "\<And>T. set (tried S) \<subseteq> set T \<Longrightarrow> (\<And>k. key = Some k \<Longrightarrow> Pair k ` set bodies \<subseteq> set T) \<Longrightarrow>
      good_send T key (chat_room S) r"
  shows "sends_ok (noted_send key bodies r S)"
proof (cases key)
  case None
  then have "good_send (tried S) key (chat_room S) r" by (intro send) simp_all
  then show ?thesis using None assms(1) by (simp add: noted_send_def moved_ok good_send_def)
next
  case (Some k)
  let ?T = "tried S @ map (Pair k) bodies"
  have good: "good_send ?T key (chat_room S) r" using Some by (intro send) auto
  then have kept: "holds_key (snd r) k' i" if "(k', i) \<in> set (told S)" for k' i
    using assms(1) that by (auto simp: sends_ok_def good_send_def good_move_def intro: holds_kept)
  have "room_ok ?T (snd r)" "\<And>i. fst r = Inr i \<Longrightarrow> holds_key (snd r) k i"
    using good Some by (auto simp: good_send_def good_move_def)
  with kept show ?thesis using Some by (auto simp: noted_send_def sends_ok_def split: sum.split)
qed

lemma step_move:
  "room_ok T R \<Longrightarrow> good_move T R (snd (postSurface known surface trip R))"
  "room_ok T R \<Longrightarrow> good_move T R (add_post (text_body []) True None R)"
  "room_ok T R \<Longrightarrow> good_move T R (snd (append_room_post d t R))"
  "room_ok T R \<Longrightarrow> good_move T R (snd (finish_room_post None d t None R))"
  "room_ok T R \<Longrightarrow> good_move T R (snd (cancel_room_post d R))"
  "room_ok T R \<Longrightarrow> good_move T R (add_post body False None R)"
proof -
  assume ok: "room_ok T R"
  have "good_send T None R (postSurface known surface trip R)"
    using ok by (auto simp: postSurface_def good_send_failed good_move_refl intro!: over_wire_ok create_ok)
  then show "good_move T R (snd (postSurface known surface trip R))" by (rule good_send_move)
  show "good_move T R (snd (finish_room_post None d t None R))"
    by (rule good_send_move [of T None]) (use ok in \<open>intro finish_ok, simp_all\<close>)
  show "good_move T R (add_post (text_body []) True None R)" "good_move T R (add_post body False None R)"
    using ok by (auto intro!: add_post_ok simp: key_holder_def text_body_def)
qed (simp_all add: append_ok cancel_ok)

lemma send_step_ok: "sends_ok S \<Longrightarrow> sends_ok (send_step known S e)"
proof (induction e)
  case (PayloadSent key payload draft T1 W T2)
  have "room_ok (tried S) (chat_room S)" using PayloadSent by (simp add: sends_ok_def)
  then have send: "good_send T key (chat_room S) (sendPayload known key payload draft T1 W T2 (chat_room S))"
    if "set (tried S) \<subseteq> set T" "\<And>k. key = Some k \<Longrightarrow> Pair k ` set (payload_bodies payload W) \<subseteq> set T" for T
    using sendPayload_ok [OF room_ok_more [OF _ that(1)] that(2)] by simp
  show ?case unfolding send_step.simps by (rule noted_ok [OF PayloadSent]) (rule send)
qed (simp_all add: moved_ok step_move sends_okD)

interpretation sends: transition_system no_sends "send_step known" sends_ok for known
proof unfold_locales
  show "sends_ok no_sends" by (simp add: no_sends_def sends_ok_def room_ok_def ids_ok_def keys_ok_def keys_apart_def posts_ok_def)
qed (rule send_step_ok)

section \<open>Properties\<close>

lemma filter_unique:
  assumes "distinct xs" and "x \<in> set xs" and "P x" and "\<And>y. y \<in> set xs \<Longrightarrow> P y \<Longrightarrow> y = x"
  shows "filter P xs = [x]"
proof -
  obtain ys zs where xs: "xs = ys @ x # zs" using assms(2) by (metis split_list)
  have "\<not> P y" if "y \<in> set ys \<union> set zs" for y
  proof
    assume "P y"
    moreover have "y \<in> set xs" using that xs by auto
    ultimately have "y = x" by (rule assms(4) [rotated])
    then show False using that assms(1) xs by simp
  qed
  then have "filter P ys = []" "filter P zs = []" by (auto simp: filter_empty_conv)
  then show ?thesis using xs assms(3) by simp
qed

text \<open>C28: A reply is posted once however often its send is replayed. Whatever requests and answers the network loses, whichever drafts the
  replays claim, and whatever else happens in the chat: once a send of a durable intent has reported a post, the chat holds exactly one
  post under the intent's key, it is the reported one, published and with a body the intent was sent with, so all replays report the same post.\<close>

theorem replayed_send_posts_once:
  assumes "(k, i) \<in> set (told (run (send_step known) no_sends es))"
  shows "\<exists>body. filter (\<lambda>p. rp_key p = Some k) (room_posts (chat_room (run (send_step known) no_sends es))) =
      [\<lparr>rp_id = i, rp_body = body, rp_streaming = False, rp_key = Some k\<rparr>] \<and>
    (k, body) \<in> set (tried (run (send_step known) no_sends es))"
proof -
  let ?S = "run (send_step known) no_sends es"
  have ok: "sends_ok ?S" by (rule sends.good_run)
  then have room: "room_ok (tried ?S) (chat_room ?S)" by (simp add: sends_ok_def)
  obtain p where p: "p \<in> set (room_posts (chat_room ?S))" "rp_key p = Some k" "rp_id p = i"
    using ok assms by (auto simp: sends_ok_def holds_key_def)
  have "distinct (room_posts (chat_room ?S))" using room by (auto simp: room_ok_def ids_ok_def distinct_map)
  then have "filter (\<lambda>p. rp_key p = Some k) (room_posts (chat_room ?S)) = [p]"
    using p keys_apartD [of _ p _ k] room by (intro filter_unique) (auto simp: room_ok_def keys_ok_def)
  moreover have "\<not> rp_streaming p" "(k, rp_body p) \<in> set (tried ?S)" using room p by (auto simp: room_ok_def posts_ok_def)
  ultimately show ?thesis using p by (intro exI [of _ "rp_body p"]) (cases p, simp)
qed

definition demo_trip :: "wire \<Rightarrow> trip" where
  "demo_trip w = \<lparr>tr_handoff = True, tr_draws = (\<lambda>i. Some \<lparr>ch_question = ''q'', ch_token = ''s''\<rparr>), tr_wire = w, tr_refusal = None\<rparr>"

definition demo_media :: media_world where
  "demo_media = \<lparr>mw_load = None, mw_direct = Inl 0, mw_reserve = Inl 0, mw_put = 0, mw_confirm = Inl 0\<rparr>"

text \<open>The first try's answer is lost; its replay claims another turn's draft.\<close>

definition demo_sends :: "room_event list" where
  "demo_sends =
     [PayloadSent (sendKey (Some ''Q'') None) (TextPayload ''hi'') None (demo_trip Arrives) demo_media (demo_trip AnswerLost), DraftMade,
      PayloadSent (sendKey (Some ''Q'') None) (TextPayload ''hi'') (Some 1) (demo_trip Arrives) demo_media (demo_trip Arrives)]"

theorem replayed_send_posts_once_witness:
  "\<exists>body. filter (\<lambda>p. rp_key p = Some ''Q:0'') (room_posts (chat_room (run (send_step [(''q'', ''a'')]) no_sends demo_sends))) =
      [\<lparr>rp_id = 0, rp_body = body, rp_streaming = False, rp_key = Some ''Q:0''\<rparr>] \<and>
    (''Q:0'', body) \<in> set (tried (run (send_step [(''q'', ''a'')]) no_sends demo_sends))"
proof (rule replayed_send_posts_once)
  show "(''Q:0'', 0) \<in> set (told (run (send_step [(''q'', ''a'')]) no_sends demo_sends))" by code_simp
qed

text \<open>The draft whose end failed stays open: the send has claimed it, so the end of the turn leaves it alone.\<close>

theorem failed_finish_leaves_draft:
  "map (\<lambda>p. (rp_id p, rp_streaming p)) (room_posts (chat_room (run (send_step [(''q'', ''a'')]) no_sends demo_sends)))
    = [(0, False), (1, True)]"
  by code_simp

lemma send_keys_apart:
  assumes "sendKey (Some q) i = sendKey (Some q') j" and "q \<noteq> []" and "q' \<noteq> []"
  shows "q = q' \<and> (case i of Some n \<Rightarrow> n | None \<Rightarrow> 0) = (case j of Some n \<Rightarrow> n | None \<Rightarrow> 0)"
proof -
  have digits: "CHR '':'' \<notin> set (show_nat n)" for n using show_nat_digits [of "CHR '':''" n] by (auto simp: is_digit_def)
  have split: "a @ x # b = a' @ x # b' \<Longrightarrow> x \<notin> set b \<Longrightarrow> x \<notin> set b' \<Longrightarrow> a = a' \<and> b = b'" for a a' b b' :: string and x
    by (auto simp: append_eq_append_conv2 Cons_eq_append_conv append_eq_Cons_conv)
  from assms have "q @ CHR '':'' # show_nat (case i of Some n \<Rightarrow> n | None \<Rightarrow> 0) = q' @ CHR '':'' # show_nat (case j of Some n \<Rightarrow> n | None \<Rightarrow> 0)"
    by (cases q; cases q') (simp_all add: sendKey_def)
  from split [OF this digits digits] show ?thesis by (metis nat_of_show)
qed

section \<open>Where a reply goes\<close>

definition plain_id :: "string \<Rightarrow> bool" where
  "plain_id c = (c \<noteq> [] \<and> CHR '':'' \<notin> set c \<and> list_all (\<lambda>x. \<not> is_ws x) c)"

lemma trim_plain:
  assumes "list_all (\<lambda>x. \<not> is_ws x) s"
  shows "trim s = s"
proof -
  have drop: "dropWhile is_ws u = u" if "list_all (\<lambda>x. \<not> is_ws x) u" for u using that by (cases u) auto
  have "list_all (\<lambda>x. \<not> is_ws x) (rev s)" using assms by simp
  with drop [OF assms] drop [OF this] show ?thesis by (simp add: trim_def trim_start_def trim_end_def)
qed

lemma address_words:
  "lower ADDRESS = ADDRESS" "lower CHANNEL_PREFIX = CHANNEL_PREFIX"
  "list_all (\<lambda>x. \<not> is_ws x) ADDRESS" "list_all (\<lambda>x. \<not> is_ws x) CHANNEL_PREFIX"
  by code_simp+

lemma strip_trimmed: "list_all (\<lambda>x. \<not> is_ws x) s \<Longrightarrow> strip_address (trim (ADDRESS @ s)) = s"
  using address_words by (simp add: trim_plain strip_address_def)

lemma no_channel_peer: "CHR '':'' \<notin> set c \<Longrightarrow> channel_peer c = None"
proof -
  assume "CHR '':'' \<notin> set c"
  then have "CHR '':'' \<notin> set (lower c)" by (simp add: lower_colon)
  moreover have "CHR '':'' \<in> set CHANNEL_PREFIX" by (simp add: CHANNEL_PREFIX_def)
  ultimately have "\<not> starts_with (lower c) CHANNEL_PREFIX" by (auto simp: starts_with_iff)
  then show ?thesis by (simp add: channel_peer_def)
qed

lemma resolve_bare:
  assumes "plain_id c" and "lower c \<noteq> ''default''"
  shows "resolveSendTarget True owner (Some (ADDRESS @ c)) = (if isGamePeerId c then Inl GamePostsNothing else Inr c)"
  using assms strip_trimmed [of c] no_channel_peer [of c]
  by (cases c) (simp_all add: resolveSendTarget_def plain_id_def)

lemma resolve_room:
  assumes "plain_id c"
  shows "resolveSendTarget True owner (Some (ADDRESS @ CHANNEL_PREFIX @ c)) = (if isGamePeerId c then Inl GamePostsNothing else Inr c)"
proof -
  have ws: "is_ws (CHR 0x0A)" "is_ws (CHR 0x0D)" by code_simp+
  have "CHR 0x0A \<notin> set c" "CHR 0x0D \<notin> set c" using assms ws by (auto simp: plain_id_def list_all_iff)
  then have "channel_peer (CHANNEL_PREFIX @ c) = Some c"
    using assms address_words(2) by (simp add: channel_peer_def plain_id_def)
  moreover have "strip_address (trim (ADDRESS @ CHANNEL_PREFIX @ c)) = CHANNEL_PREFIX @ c"
    using assms address_words(4) by (intro strip_trimmed) (simp add: plain_id_def)
  ultimately show ?thesis using assms by (cases c) (simp_all add: resolveSendTarget_def plain_id_def)
qed

lemma game_peer_plain:
  assumes "plain_id i"
  shows "plain_id (gamePeerId i gen)" and "lower (gamePeerId i gen) \<noteq> ''default''"
proof -
  have digits: "c \<noteq> CHR '':'' \<and> \<not> is_ws c" if "c \<in> set (show_nat gen)" for c
    using show_nat_digits [OF that] by (auto simp: is_digit_def is_ws_def)
  have "list_all (\<lambda>x. x \<noteq> CHR '':'' \<and> \<not> is_ws x) GAME_PEER_PREFIX" "list_all (\<lambda>x. x \<noteq> CHR '':'' \<and> \<not> is_ws x) ''-g''" by code_simp+
  then show "plain_id (gamePeerId i gen)" using assms digits by (auto simp: plain_id_def gamePeerId_def list_all_iff)
  have "starts_with (lower (gamePeerId i gen)) GAME_PEER_PREFIX" using game_peer_is_game by (simp add: isGamePeerId_def)
  then show "lower (gamePeerId i gen) \<noteq> ''default''" by (auto simp: GAME_PEER_PREFIX_def)
qed

text \<open>C29: The address a turn leaves with the host leads back. What the host sends on its own for a message of a chat (a question, a
  notice after a restart) resolves to that chat, be it a room or a direct chat, and never to the owner's; what it
  sends for a game move is refused.\<close>

theorem addresses_lead_back:
  assumes "turn_route H m = Some r" and "plain_id (im_channel m)" and "lower (im_channel m) \<noteq> ''default''"
    and "\<not> isGamePeerId (im_channel m)" and "case im_game m of Some i \<Rightarrow> plain_id i | None \<Rightarrow> True"
  shows "resolveSendTarget True owner (Some (tc_originating (turn_call_of H A m r))) =
    (if im_game m = None then Inr (im_channel m) else Inl GamePostsNothing)"
proof (cases "im_game m")
  case None
  then show ?thesis using assms(2-4) resolve_bare [OF assms(2,3)] resolve_room [OF assms(2)]
    by (simp add: turn_call_of_def recipient_of_def CHANNEL_PREFIX_def)
next
  case (Some i)
  then obtain gen where "fst r = game_peer i gen"
    using assms(1) by (auto simp: turn_route_def Let_def split: if_splits)
  then show ?thesis using Some assms(5) resolve_bare [OF game_peer_plain [of i gen]] game_peer_is_game [of i gen]
    by (simp add: turn_call_of_def recipient_of_def isDirectChannel_def game_peer_def)
qed

theorem addresses_lead_back_witness:
  "resolveSendTarget True (Some ''1'') (Some (tc_originating (turn_call_of demo_turn_host demo_turn_account demo_message
     (chat_peer demo_message, None)))) = Inr ''7''"
proof -
  define H where "H = demo_turn_host\<lparr>th_route := \<lambda>peer. None\<rparr>"
  have "turn_route H demo_message = Some (chat_peer demo_message, None)" by (simp add: turn_route_def demo_message_def H_def)
  moreover have "plain_id (im_channel demo_message)" "lower (im_channel demo_message) \<noteq> ''default''" "\<not> isGamePeerId (im_channel demo_message)"
    by code_simp+
  moreover have "case im_game demo_message of Some i \<Rightarrow> plain_id i | None \<Rightarrow> True" by (simp add: demo_message_def)
  moreover have "tc_originating (turn_call_of demo_turn_host demo_turn_account demo_message (chat_peer demo_message, None))
      = tc_originating (turn_call_of H demo_turn_account demo_message (chat_peer demo_message, None))"
    by (simp add: turn_call_of_def)
  ultimately show ?thesis
    using addresses_lead_back [of H demo_message "(chat_peer demo_message, None)" "Some ''1''" demo_turn_account]
    by (simp add: demo_message_def)
qed

end
