(* ===== verification/Message_Drafts.thy ===== *)
theory Message_Drafts
  imports Js_Values
begin

text \<open>
  The unsent messages of the web client (\<open>frontend/src/lib/messageDrafts.ts\<close>): one store per tab, with its memory, its
  snapshot for the lists and its debounced write to the storage that the tabs share. A stored value is the JSON value of its text, nothing when it is
  missing or no JSON; a write may fail for want of space. The clock and the success of writes are arguments. A reply is a JSON value as the
  server sent it, so that writing and reading it gives it back.
\<close>

section \<open>Drafts\<close>

definition MAX_ENTRIES :: nat where "MAX_ENTRIES = 50"
definition MAX_TEXT_LEN :: nat where "MAX_TEXT_LEN = 4000"
definition MAX_REPLY_EXCERPT_LEN :: nat where "MAX_REPLY_EXCERPT_LEN = 500"

record message_draft =
  md_text :: string
  md_reply :: "jsval option"
  md_target :: "string option"
  md_at :: rat

record draft_input =
  di_text :: string
  di_reply :: "jsval option"
  di_target :: "string option"

definition slimReply :: "jsval \<Rightarrow> jsval" where
  "slimReply reply =
     (let entries = (case reply of JObj ps \<Rightarrow> ps | _ \<Rightarrow> []);
          message = (case jget reply ''message'' of JStr s \<Rightarrow> take MAX_REPLY_EXCERPT_LEN s | _ \<Rightarrow> [])
      in JObj (foldl (\<lambda>m (k, v). mset_key k v m) entries
           [(''message'', JStr message), (''reactions'', JArr []), (''files'', JArr []), (''link_preview'', JNull), (''parent_preview'', JNull)]))"

definition reply_fits :: "jsval \<Rightarrow> bool" where
  "reply_fits r = (is_object r \<and> as_num (jget r ''post_id'') \<noteq> None \<and> as_str (jget r ''message'') \<noteq> None)"

definition meaningful :: "string \<Rightarrow> jsval option \<Rightarrow> bool" where
  "meaningful t reply = (trim t \<noteq> [] \<or> reply \<noteq> None)"

definition stored_draft :: "rat \<Rightarrow> jsval \<Rightarrow> message_draft option" where
  "stored_draft now v =
     (case (is_object v, as_str (jget v ''text'')) of
        (True, Some raw) \<Rightarrow>
          (let t = take MAX_TEXT_LEN raw; reply = (if reply_fits (jget v ''reply'') then Some (jget v ''reply'') else None) in
           if \<not> meaningful t reply then None
           else Some \<lparr>md_text = t, md_reply = reply, md_target = as_str (jget v ''targetAgentId''),
             md_at = (case as_finite (jget v ''updatedAt'') of Some q \<Rightarrow> q | None \<Rightarrow> now)\<rparr>)
      | _ \<Rightarrow> None)"

definition add_stored :: "rat \<Rightarrow> (string, message_draft) jsmap \<Rightarrow> string \<times> jsval \<Rightarrow> (string, message_draft) jsmap" where
  "add_stored now m e = (case stored_draft now (snd e) of Some d \<Rightarrow> mset_key (fst e) d m | None \<Rightarrow> m)"

definition parseStored :: "rat \<Rightarrow> jsval option \<Rightarrow> (string, message_draft) jsmap" where
  "parseStored now raw = (case raw of Some (JObj ps) \<Rightarrow> foldl (add_stored now) [] ps | _ \<Rightarrow> [])"

definition draft_json :: "message_draft \<Rightarrow> jsval" where
  "draft_json d = JObj [(''text'', JStr (md_text d)), (''reply'', case md_reply d of Some r \<Rightarrow> r | None \<Rightarrow> JNull),
     (''targetAgentId'', case md_target d of Some a \<Rightarrow> JStr a | None \<Rightarrow> JNull), (''updatedAt'', JNum (Fin (md_at d)))]"

definition drafts_json :: "(string, message_draft) jsmap \<Rightarrow> jsval" where
  "drafts_json m = JObj (map (\<lambda>(c, d). (c, draft_json d)) m)"

section \<open>The store\<close>

record draft_store =
  ds_user :: "nat option"
  ds_cache :: "(string, message_draft) jsmap"
  ds_snapshot :: "(string, message_draft) jsmap"
  ds_dirty :: bool
  ds_timer :: bool

record browser =
  tab :: draft_store
  storage :: "nat \<Rightarrow> jsval option"

definition new_store :: draft_store where
  "new_store = \<lparr>ds_user = None, ds_cache = [], ds_snapshot = [], ds_dirty = False, ds_timer = False\<rparr>"

definition prune_drafts :: "nat \<Rightarrow> (string, message_draft) jsmap \<Rightarrow> (string, message_draft) jsmap" where
  "prune_drafts limit m = (if length m \<le> limit then m else take limit (sort_key (\<lambda>e. - md_at (snd e)) m))"

text \<open>The two attempts to write, and whether each succeeds.\<close>

definition writeToStorage :: "bool \<Rightarrow> bool \<Rightarrow> browser \<Rightarrow> browser" where
  "writeToStorage ok again b = (case ds_user (tab b) of
      None \<Rightarrow> b
    | Some u \<Rightarrow>
       (let m = ds_cache (tab b) in
        if ok then b\<lparr>storage := (storage b)(u := if m = [] then None else Some (drafts_json m))\<rparr>
        else let m' = prune_drafts (max 1 (length m div 2)) m; b1 = b\<lparr>tab := (tab b)\<lparr>ds_cache := m'\<rparr>\<rparr>
          in if again then b1\<lparr>storage := (storage b1)(u := Some (drafts_json m'))\<rparr> else b1))"

definition flush_drafts :: "bool \<Rightarrow> bool \<Rightarrow> browser \<Rightarrow> browser" where
  "flush_drafts ok again b =
     (let b1 = b\<lparr>tab := (tab b)\<lparr>ds_timer := False\<rparr>\<rparr> in
      if \<not> ds_dirty (tab b) \<or> ds_user (tab b) = None then b1
      else let b2 = writeToStorage ok again (b1\<lparr>tab := (tab b1)\<lparr>ds_dirty := False, ds_cache := prune_drafts MAX_ENTRIES (ds_cache (tab b1))\<rparr>\<rparr>)
        in b2\<lparr>tab := (tab b2)\<lparr>ds_snapshot := ds_cache (tab b2)\<rparr>\<rparr>)"

definition ensure_user :: "rat \<Rightarrow> bool \<Rightarrow> bool \<Rightarrow> nat \<Rightarrow> browser \<Rightarrow> browser" where
  "ensure_user now ok again u b =
     (if ds_user (tab b) = Some u then b
      else let b1 = flush_drafts ok again b; m = parseStored now (storage b1 u)
        in b1\<lparr>tab := (tab b1)\<lparr>ds_user := Some u, ds_cache := m, ds_dirty := False, ds_snapshot := m\<rparr>\<rparr>)"

definition scheduleWrite :: "draft_store \<Rightarrow> draft_store" where
  "scheduleWrite s = s\<lparr>ds_dirty := True, ds_timer := True\<rparr>"

definition reply_id :: "jsval option \<Rightarrow> jsval" where
  "reply_id r = (case r of None \<Rightarrow> JNull | Some v \<Rightarrow> coalesce (jget v ''post_id'') JNull)"

definition put_draft :: "rat \<Rightarrow> string \<Rightarrow> draft_input \<Rightarrow> draft_store \<Rightarrow> draft_store" where
  "put_draft now c v s =
     (let t = take MAX_TEXT_LEN (di_text v); prev = mget (ds_cache s) c in
      if \<not> meaningful t (di_reply v) then (if prev = None then s else scheduleWrite (s\<lparr>ds_cache := mdel c (ds_cache s)\<rparr>))
      else if (case prev of
            Some p \<Rightarrow> md_text p = t \<and> reply_id (md_reply p) = reply_id (di_reply v) \<and> md_target p = di_target v
          | None \<Rightarrow> False) then s
      else scheduleWrite (s\<lparr>ds_cache := mset_key c
             \<lparr>md_text = t, md_reply = map_option slimReply (di_reply v), md_target = di_target v, md_at = now\<rparr> (ds_cache s)\<rparr>))"

definition set_draft :: "rat \<Rightarrow> bool \<Rightarrow> bool \<Rightarrow> nat \<Rightarrow> string \<Rightarrow> draft_input \<Rightarrow> browser \<Rightarrow> browser" where
  "set_draft now ok again u c v b = (let b1 = ensure_user now ok again u b in b1\<lparr>tab := put_draft now c v (tab b1)\<rparr>)"

definition no_input :: draft_input where
  "no_input = \<lparr>di_text = [], di_reply = None, di_target = None\<rparr>"

definition clear_draft :: "rat \<Rightarrow> bool \<Rightarrow> bool \<Rightarrow> nat \<Rightarrow> string \<Rightarrow> browser \<Rightarrow> browser" where
  "clear_draft now ok again u c b = set_draft now ok again u c no_input b"

definition get_draft :: "rat \<Rightarrow> bool \<Rightarrow> bool \<Rightarrow> nat \<Rightarrow> string \<Rightarrow> browser \<Rightarrow> message_draft option" where
  "get_draft now ok again u c b = mget (ds_cache (tab (ensure_user now ok again u b))) c"

definition newer_of :: "(string, message_draft) jsmap \<Rightarrow> string \<times> message_draft \<Rightarrow> (string, message_draft) jsmap" where
  "newer_of incoming e =
     (case mget incoming (fst e) of
        Some theirs \<Rightarrow> if md_at theirs < md_at (snd e) then mset_key (fst e) (snd e) incoming else incoming
      | None \<Rightarrow> mset_key (fst e) (snd e) incoming)"

definition handleStorageEvent :: "rat \<Rightarrow> nat \<Rightarrow> jsval option \<Rightarrow> browser \<Rightarrow> browser" where
  "handleStorageEvent now u v b =
     (if ds_user (tab b) \<noteq> Some u then b
      else let incoming = parseStored now v;
               m = (if ds_dirty (tab b) then foldl newer_of incoming (ds_cache (tab b)) else incoming)
        in b\<lparr>tab := (tab b)\<lparr>ds_cache := m, ds_snapshot := m\<rparr>\<rparr>)"

datatype draft_call =
    Looks rat bool bool nat
  | Sets rat bool bool nat string draft_input
  | Flushes bool bool
  | OtherTabWrites nat "jsval option"
  | HearsOfWrite rat nat "jsval option"
  | Reloads

fun browser_step :: "browser \<Rightarrow> draft_call \<Rightarrow> browser" where
  "browser_step b (Looks now ok again u) = ensure_user now ok again u b"
| "browser_step b (Sets now ok again u c v) = set_draft now ok again u c v b"
| "browser_step b (Flushes ok again) = flush_drafts ok again b"
| "browser_step b (OtherTabWrites u v) = b\<lparr>storage := (storage b)(u := v)\<rparr>"
| "browser_step b (HearsOfWrite now u v) = handleStorageEvent now u v b"
| "browser_step b Reloads = b\<lparr>tab := new_store\<rparr>"

section \<open>Accounts apart\<close>

text \<open>\<open>Q u c t\<close> is any property of a text under a channel and user that holds of what that user writes, in this tab or another.\<close>

definition map_has :: "(string \<Rightarrow> string \<Rightarrow> bool) \<Rightarrow> (string, message_draft) jsmap \<Rightarrow> bool" where
  "map_has P m = list_all (\<lambda>(c, d). P c (md_text d)) m"

definition stored_has :: "(string \<Rightarrow> string \<Rightarrow> bool) \<Rightarrow> jsval option \<Rightarrow> bool" where
  "stored_has P v = map_has P (parseStored 0 v)"

fun writes_own :: "(nat \<Rightarrow> string \<Rightarrow> string \<Rightarrow> bool) \<Rightarrow> browser \<Rightarrow> draft_call \<Rightarrow> bool" where
  "writes_own Q b (Sets now ok again u c v) =
     (Q u c (take MAX_TEXT_LEN (di_text v)) \<and> (case di_reply v of Some r \<Rightarrow> reply_fits r \<and> (\<exists>ps. r = JObj ps) | None \<Rightarrow> True))"
| "writes_own Q b (OtherTabWrites u v) = stored_has (Q u) v"
| "writes_own Q b (HearsOfWrite now u v) = stored_has (Q u) v"
| "writes_own Q b e = True"

definition draft_fits :: "message_draft \<Rightarrow> bool" where
  "draft_fits d = (length (md_text d) \<le> MAX_TEXT_LEN \<and> meaningful (md_text d) (md_reply d) \<and>
     (case md_reply d of Some r \<Rightarrow> reply_fits r | None \<Rightarrow> True))"

definition map_fits :: "(string, message_draft) jsmap \<Rightarrow> bool" where
  "map_fits m = (distinct (mkeys m) \<and> list_all (\<lambda>e. draft_fits (snd e)) m)"

definition cache_ok :: "(nat \<Rightarrow> string \<Rightarrow> string \<Rightarrow> bool) \<Rightarrow> draft_store \<Rightarrow> bool" where
  "cache_ok Q s = (map_fits (ds_cache s) \<and> (case ds_user s of Some u \<Rightarrow> map_has (Q u) (ds_cache s) \<and> map_has (Q u) (ds_snapshot s) | None \<Rightarrow> ds_cache s = []))"

definition browser_ok :: "(nat \<Rightarrow> string \<Rightarrow> string \<Rightarrow> bool) \<Rightarrow> browser \<Rightarrow> bool" where
  "browser_ok Q b = (cache_ok Q (tab b) \<and> (\<forall>u. stored_has (Q u) (storage b u)))"

lemma map_has_mset: "map_has P m \<Longrightarrow> P c (md_text d) \<Longrightarrow> map_has P (mset_key c d m)"
  by (auto simp: map_has_def list_all_iff dest: set_mset_key)

lemma map_has_mdel: "map_has P m \<Longrightarrow> map_has P (mdel c m)"
  by (auto simp: map_has_def list_all_iff set_mdel)

lemma map_fits_mset: "map_fits m \<Longrightarrow> draft_fits d \<Longrightarrow> map_fits (mset_key c d m)"
  by (auto simp: map_fits_def list_all_iff distinct_mkeys_mset dest: set_mset_key)

lemma map_fits_mdel: "map_fits m \<Longrightarrow> map_fits (mdel c m)"
  by (auto simp: map_fits_def list_all_iff distinct_mkeys_mdel set_mdel)

lemma map_fits_Nil [simp]: "map_fits []" by (simp add: map_fits_def mkeys_def)

lemma map_has_Nil [simp]: "map_has P []" by (simp add: map_has_def)

lemma prune_set: "set (prune_drafts n m) \<subseteq> set m"
  by (auto simp: prune_drafts_def dest: in_set_takeD)

lemma prune_distinct: "distinct (mkeys m) \<Longrightarrow> distinct (mkeys (prune_drafts n m))"
proof -
  assume d: "distinct (mkeys m)"
  have "distinct (map fst (sort_key f m))" for f :: "string \<times> message_draft \<Rightarrow> rat"
    using d by (metis mkeys_def distinct_map distinct_sort set_sort)
  then show ?thesis using d by (simp add: prune_drafts_def mkeys_def take_map [symmetric])
qed

lemma prune_fits: "map_fits m \<Longrightarrow> map_fits (prune_drafts n m)"
  using prune_set [of n m] prune_distinct [of m n] by (auto simp: map_fits_def list_all_iff)

lemma prune_has: "map_has P m \<Longrightarrow> map_has P (prune_drafts n m)"
  using prune_set [of n m] by (auto simp: map_has_def list_all_iff)

lemma prune_length: "length (prune_drafts n m) \<le> n"
  by (simp add: prune_drafts_def)

text \<open>The texts of a stored value do not depend on the clock.\<close>

lemma stored_draft_fits: "stored_draft now v = Some d \<Longrightarrow> draft_fits d"
  by (auto simp: stored_draft_def draft_fits_def Let_def split: option.splits bool.splits if_splits)

lemma stored_draft_text: "map_option md_text (stored_draft now v) = map_option md_text (stored_draft 0 v)"
  by (auto simp: stored_draft_def Let_def split: option.splits bool.splits)

lemma parse_fits: "map_fits (parseStored now v)"
proof -
  have "map_fits m \<Longrightarrow> map_fits (foldl (add_stored now) m ps)" for m ps
  proof (induction ps arbitrary: m)
    case (Cons p ps)
    then show ?case by (auto simp: add_stored_def map_fits_mset stored_draft_fits split: option.split)
  qed simp
  then show ?thesis by (auto simp: parseStored_def split: option.split jsval.split)
qed

lemma map_fst_mset: "map (\<lambda>(c, d). (c, md_text d)) (mset_key k d m) = mset_key k (md_text d) (map (\<lambda>(c, d). (c, md_text d)) m)"
  by (induction m) auto

lemma parse_texts: "map (\<lambda>(c, d). (c, md_text d)) (parseStored now v) = map (\<lambda>(c, d). (c, md_text d)) (parseStored 0 v)"
proof -
  have "map (\<lambda>(c, d). (c, md_text d)) m = map (\<lambda>(c, d). (c, md_text d)) m' \<Longrightarrow>
      map (\<lambda>(c, d). (c, md_text d)) (foldl (add_stored now) m ps) = map (\<lambda>(c, d). (c, md_text d)) (foldl (add_stored 0) m' ps)" for m m' ps
  proof (induction ps arbitrary: m m')
    case (Cons p ps)
    have "map (\<lambda>(c, d). (c, md_text d)) (add_stored now m p) = map (\<lambda>(c, d). (c, md_text d)) (add_stored 0 m' p)"
      using stored_draft_text [of now "snd p"] Cons.prems
      by (cases "stored_draft now (snd p)"; cases "stored_draft 0 (snd p)") (simp_all add: add_stored_def map_fst_mset)
    then show ?case using Cons.IH by simp
  qed simp
  then show ?thesis by (auto simp: parseStored_def split: option.split jsval.split)
qed

lemma map_has_texts: "map_has P m = list_all (\<lambda>(c, t). P c t) (map (\<lambda>(c, d). (c, md_text d)) m)"
  by (auto simp: map_has_def list_all_iff)

lemma parse_has: "stored_has P v \<Longrightarrow> map_has P (parseStored now v)"
  unfolding stored_has_def map_has_texts by (simp only: parse_texts [of now v])

section \<open>What is written is read back\<close>

lemma stored_draft_json:
  assumes "draft_fits d"
  shows "stored_draft now (draft_json d) = Some d"
proof -
  have "take MAX_TEXT_LEN (md_text d) = md_text d" using assms by (simp add: draft_fits_def)
  moreover have "reply_fits JNull = False" by (simp add: reply_fits_def)
  ultimately show ?thesis using assms
    by (cases d; cases "md_reply d"; cases "md_target d") (auto simp: stored_draft_def draft_json_def draft_fits_def Let_def)
qed

lemma mset_new: "k \<notin> set (mkeys m) \<Longrightarrow> mset_key k v m = m @ [(k, v)]"
  by (induction m) (auto simp: mkeys_def)

lemma parse_json:
  assumes "map_fits m"
  shows "parseStored now (Some (drafts_json m)) = m"
proof -
  have "foldl (add_stored now) acc (map (\<lambda>(c, d). (c, draft_json d)) m) = acc @ m"
    if "list_all (\<lambda>e. draft_fits (snd e)) m" "distinct (mkeys (acc @ m))" for acc
    using that
  proof (induction m arbitrary: acc)
    case (Cons e m)
    obtain c d where e: "e = (c, d)" by fastforce
    have "add_stored now acc (c, draft_json d) = acc @ [(c, d)]"
      using Cons.prems e by (auto simp: add_stored_def stored_draft_json mset_new mkeys_def)
    then show ?case using Cons.IH [of "acc @ [(c, d)]"] Cons.prems e by simp
  qed simp
  from this [of "[]"] show ?thesis using assms by (simp add: parseStored_def drafts_json_def map_fits_def)
qed

lemma json_has: "map_fits m \<Longrightarrow> map_has P m \<Longrightarrow> stored_has P (Some (drafts_json m))"
  by (simp add: stored_has_def parse_json)

lemma none_has [simp]: "stored_has P None" by (simp add: stored_has_def parseStored_def)

section \<open>The invariant\<close>

lemma write_ok:
  assumes "browser_ok Q b"
  shows "browser_ok Q (writeToStorage ok again b)"
proof (cases "ds_user (tab b)")
  case (Some u)
  have "map_fits (ds_cache (tab b))" "map_has (Q u) (ds_cache (tab b))" "map_has (Q u) (ds_snapshot (tab b))"
    using assms Some by (simp_all add: browser_ok_def cache_ok_def)
  then show ?thesis using assms Some
    by (simp add: writeToStorage_def browser_ok_def cache_ok_def Let_def json_has prune_fits prune_has)
qed (simp add: writeToStorage_def assms)

lemma flush_ok: "browser_ok Q b \<Longrightarrow> browser_ok Q (flush_drafts ok again b)"
proof -
  assume ok: "browser_ok Q b"
  show ?thesis
  proof (cases "\<not> ds_dirty (tab b) \<or> ds_user (tab b) = None")
    case True
    with ok show ?thesis by (cases "ds_user (tab b)") (auto simp: flush_drafts_def browser_ok_def cache_ok_def Let_def)
  next
    case False
    let ?b = "b\<lparr>tab := (tab b)\<lparr>ds_timer := False, ds_dirty := False, ds_cache := prune_drafts MAX_ENTRIES (ds_cache (tab b))\<rparr>\<rparr>"
    have "prune_drafts MAX_ENTRIES [] = []" by (simp add: prune_drafts_def)
    then have "browser_ok Q ?b" using ok by (auto simp: browser_ok_def cache_ok_def prune_fits prune_has split: option.splits)
    then have w: "browser_ok Q (writeToStorage ok again ?b)" by (rule write_ok)
    have "flush_drafts ok again b = (writeToStorage ok again ?b)\<lparr>tab := (tab (writeToStorage ok again ?b))\<lparr>ds_snapshot := ds_cache (tab (writeToStorage ok again ?b))\<rparr>\<rparr>"
      using False by (auto simp: flush_drafts_def Let_def)
    then show ?thesis using w by (simp add: browser_ok_def cache_ok_def split: option.splits)
  qed
qed

lemma ensure_ok: "browser_ok Q b \<Longrightarrow> browser_ok Q (ensure_user now ok again u b)"
  using flush_ok [of Q b ok again] by (auto simp: ensure_user_def Let_def browser_ok_def cache_ok_def parse_fits parse_has)

lemma ensure_user_is: "ds_user (tab (ensure_user now ok again u b)) = Some u"
  by (simp add: ensure_user_def Let_def)

lemma slim_fits: "reply_fits r \<Longrightarrow> \<exists>ps. r = JObj ps \<Longrightarrow> reply_fits (slimReply r)"
proof -
  assume fits: "reply_fits r" and obj: "\<exists>ps. r = JObj ps"
  then obtain ps where r: "r = JObj ps" by blast
  have get: "jget (JObj m) k = (case mget m k of Some v \<Rightarrow> v | None \<Rightarrow> JUndef)" for m k by (simp add: mget_def)
  show ?thesis using fits unfolding r by (simp add: reply_fits_def slimReply_def get Let_def del: jget.simps split: jsval.split)
qed

lemma put_draft_ok:
  assumes ok: "cache_ok Q s" and "ds_user s = Some u" and "Q u c (take MAX_TEXT_LEN (di_text v))"
    and "case di_reply v of Some r \<Rightarrow> reply_fits r \<and> (\<exists>ps. r = JObj ps) | None \<Rightarrow> True"
  shows "cache_ok Q (put_draft now c v s)"
proof -
  let ?t = "take MAX_TEXT_LEN (di_text v)"
  let ?d = "\<lparr>md_text = ?t, md_reply = map_option slimReply (di_reply v), md_target = di_target v, md_at = now\<rparr>"
  have "draft_fits ?d" if "meaningful ?t (di_reply v)"
    using that assms(4) by (auto simp: draft_fits_def meaningful_def slim_fits split: option.splits)
  then have "cache_ok Q (scheduleWrite (s\<lparr>ds_cache := mset_key c ?d (ds_cache s)\<rparr>))" if "meaningful ?t (di_reply v)"
    using that ok assms(2,3) by (simp add: cache_ok_def scheduleWrite_def map_fits_mset map_has_mset)
  moreover have "cache_ok Q (scheduleWrite (s\<lparr>ds_cache := mdel c (ds_cache s)\<rparr>))"
    using ok assms(2) by (simp add: cache_ok_def scheduleWrite_def map_fits_mdel map_has_mdel)
  ultimately show ?thesis using ok by (simp add: put_draft_def Let_def)
qed

lemma newer_of_is: "newer_of m e = m \<or> newer_of m e = mset_key (fst e) (snd e) m"
  by (auto simp: newer_of_def split: option.split)

lemma merge_ok:
  assumes "map_fits m" and "map_has P m" and "map_fits ours" and "map_has P ours"
  shows "map_fits (foldl newer_of m ours) \<and> map_has P (foldl newer_of m ours)"
  using assms
proof (induction ours arbitrary: m)
  case (Cons e ours)
  obtain c d where e: "e = (c, d)" by fastforce
  have ours: "map_fits ours" "map_has P ours" "draft_fits d" "P c (md_text d)"
    using Cons.prems(3,4) e by (simp_all add: map_fits_def map_has_def mkeys_def)
  have "map_fits (newer_of m e)" "map_has P (newer_of m e)"
    using newer_of_is [of m e] Cons.prems(1,2) ours e by (auto simp: map_fits_mset map_has_mset)
  then show ?case using Cons.IH ours by simp
qed simp

lemma heard_ok:
  assumes "browser_ok Q b" and "stored_has (Q u) v"
  shows "browser_ok Q (handleStorageEvent now u v b)"
proof (cases "ds_user (tab b) = Some u")
  case True
  then have "map_fits (ds_cache (tab b))" "map_has (Q u) (ds_cache (tab b))" using assms(1) by (simp_all add: browser_ok_def cache_ok_def)
  then have "map_fits (foldl newer_of (parseStored now v) (ds_cache (tab b))) \<and> map_has (Q u) (foldl newer_of (parseStored now v) (ds_cache (tab b)))"
    using merge_ok parse_fits parse_has [OF assms(2)] by blast
  then show ?thesis using True assms by (simp add: handleStorageEvent_def browser_ok_def cache_ok_def Let_def parse_fits parse_has)
qed (simp add: handleStorageEvent_def assms(1))

lemma browser_step_ok: "browser_ok Q b \<Longrightarrow> writes_own Q b e \<Longrightarrow> browser_ok Q (browser_step b e)"
proof (induction e)
  case (Sets now ok again u c v)
  have "browser_ok Q (ensure_user now ok again u b)" using Sets(1) by (rule ensure_ok)
  then show ?case using Sets(2) put_draft_ok [OF _ ensure_user_is] by (simp add: set_draft_def browser_ok_def Let_def)
next
  case Reloads
  then show ?case by (simp add: browser_ok_def cache_ok_def new_store_def)
qed (simp_all add: ensure_ok flush_ok heard_ok browser_ok_def [of Q "b\<lparr>storage := _\<rparr>"], simp add: browser_ok_def)

definition first_visit :: browser where
  "first_visit = \<lparr>tab = new_store, storage = (\<lambda>u. None)\<rparr>"

interpretation drafts_store: guarded_system first_visit browser_step "writes_own Q" "browser_ok Q" for Q
  by unfold_locales (simp_all add: browser_step_ok, simp add: first_visit_def browser_ok_def cache_ok_def new_store_def)

section \<open>Properties\<close>

text \<open>C34: Unsent text stays with its account. Whatever accounts sign in and out of the tab, whatever other tabs write and however
  writes fail, every draft a user is shown, and every one the lists show, was written by that user: it has any property that all
  the user's own writing has.\<close>

theorem drafts_stay_with_account:
  assumes "obeys (writes_own Q) browser_step first_visit es"
    and "get_draft now ok again u c (run browser_step first_visit es) = Some d"
  shows "Q u c (md_text d)"
proof -
  have "browser_ok Q (ensure_user now ok again u (run browser_step first_visit es))"
    by (rule ensure_ok [OF drafts_store.good_disciplined_run [OF assms(1)]])
  then have "map_has (Q u) (ds_cache (tab (ensure_user now ok again u (run browser_step first_visit es))))"
    by (simp add: browser_ok_def cache_ok_def ensure_user_is)
  moreover have "(c, d) \<in> set (ds_cache (tab (ensure_user now ok again u (run browser_step first_visit es))))"
    using assms(2) by (simp add: get_draft_def mget_SomeD)
  ultimately show ?thesis by (auto simp: map_has_def list_all_iff)
qed

definition demo_typing :: "nat \<Rightarrow> string \<Rightarrow> draft_call" where
  "demo_typing u t = Sets 1 True True u ''home'' \<lparr>di_text = t, di_reply = None, di_target = None\<rparr>"

theorem drafts_stay_with_account_witness:
  "get_draft 2 True True 1 ''home'' (run browser_step first_visit [demo_typing 1 ''hi'', demo_typing 2 ''yo'', Reloads]) =
     Some \<lparr>md_text = ''hi'', md_reply = None, md_target = None, md_at = 1\<rparr> \<and>
   (\<lambda>u c t. t = (if u = 1 then ''hi'' else ''yo'')) (1::nat) ''home'' ''hi''"
proof -
  have got: "get_draft 2 True True 1 ''home'' (run browser_step first_visit [demo_typing 1 ''hi'', demo_typing 2 ''yo'', Reloads]) =
     Some \<lparr>md_text = ''hi'', md_reply = None, md_target = None, md_at = 1\<rparr>" by code_simp
  have "obeys (writes_own (\<lambda>u c t. t = (if u = 1 then ''hi'' else ''yo''))) browser_step first_visit [demo_typing 1 ''hi'', demo_typing 2 ''yo'', Reloads]"
    by (simp add: demo_typing_def MAX_TEXT_LEN_def)
  from drafts_stay_with_account [OF this got] got show ?thesis by simp
qed

text \<open>C35: A saved draft survives a reload. After a write that succeeds, a tab that is opened anew on the same account shows for
  every channel the draft the old one held after the write, its text, reply and target included; there are at most fifty.\<close>

theorem drafts_survive_reload:
  assumes "obeys (writes_own Q) browser_step first_visit es"
    and "ds_dirty (tab (run browser_step first_visit es))" and "ds_user (tab (run browser_step first_visit es)) = Some u"
  shows "get_draft now ok' again' u c (run browser_step first_visit (es @ [Flushes True again, Reloads])) =
      mget (ds_cache (tab (run browser_step first_visit (es @ [Flushes True again])))) c \<and>
    length (ds_cache (tab (run browser_step first_visit (es @ [Flushes True again])))) \<le> 50"
proof -
  let ?b = "run browser_step first_visit es"
  let ?m = "prune_drafts MAX_ENTRIES (ds_cache (tab ?b))"
  have "browser_ok Q ?b" by (rule drafts_store.good_disciplined_run [OF assms(1)])
  then have "map_fits ?m" by (simp add: browser_ok_def cache_ok_def prune_fits)
  then have reread: "parseStored now (if ?m = [] then None else Some (drafts_json ?m)) = ?m"
    by (simp add: parse_json) (simp add: parseStored_def)
  have flushed: "ds_cache (tab (flush_drafts True again ?b)) = ?m"
    "storage (flush_drafts True again ?b) u = (if ?m = [] then None else Some (drafts_json ?m))"
    using assms(2,3) by (simp_all add: flush_drafts_def writeToStorage_def Let_def)
  then show ?thesis using reread prune_length [of MAX_ENTRIES "ds_cache (tab ?b)"]
    by (simp add: get_draft_def ensure_user_def flush_drafts_def new_store_def Let_def MAX_ENTRIES_def)
qed

theorem drafts_survive_reload_witness:
  "get_draft 5 True True 1 ''home'' (run browser_step first_visit ([demo_typing 1 ''hi''] @ [Flushes True True, Reloads])) =
     Some \<lparr>md_text = ''hi'', md_reply = None, md_target = None, md_at = 1\<rparr>"
proof -
  have "obeys (writes_own (\<lambda>u c t. True)) browser_step first_visit [demo_typing 1 ''hi'']" by (simp add: demo_typing_def)
  moreover have "ds_dirty (tab (run browser_step first_visit [demo_typing 1 ''hi'']))"
    "ds_user (tab (run browser_step first_visit [demo_typing 1 ''hi''])) = Some 1" by (code_simp+)
  moreover have "ds_cache (tab (run browser_step first_visit ([demo_typing 1 ''hi''] @ [Flushes True True]))) =
     [(''home'', \<lparr>md_text = ''hi'', md_reply = None, md_target = None, md_at = 1\<rparr>)]" by code_simp
  ultimately show ?thesis using drafts_survive_reload [of "\<lambda>u c t. True" "[demo_typing 1 ''hi'']" 1 5 True True "''home''" True] by simp
qed

text \<open>A draft that is sent while its removal still waits to be written comes back when another tab, which holds it still, writes a
  draft of its own in another channel.\<close>

definition demo_draft :: "string \<Rightarrow> rat \<Rightarrow> message_draft" where
  "demo_draft t now = \<lparr>md_text = t, md_reply = None, md_target = None, md_at = now\<rparr>"

theorem sent_draft_returns:
  "get_draft 4 True True 1 ''home'' (run browser_step first_visit
     [demo_typing 1 ''hi'', Flushes True True, Sets 2 True True 1 ''home'' no_input,
      HearsOfWrite 3 1 (Some (drafts_json [(''home'', demo_draft ''hi'' 1), (''c2'', demo_draft ''yo'' 3)]))]) = Some (demo_draft ''hi'' 1)"
  by code_simp

text \<open>A write that fails twice has dropped the older half of the drafts from the memory, too.\<close>

theorem failed_write_forgets:
  "length (ds_cache (tab (run browser_step first_visit
     [demo_typing 1 ''hi'', Sets 2 True True 1 ''c2'' \<lparr>di_text = ''yo'', di_reply = None, di_target = None\<rparr>, Flushes False False]))) = 1"
  by code_simp

end
