(* ===== verification/Channel_Timeline.thy ===== *)
theory Channel_Timeline
  imports Channel_Posts Game_Guards "HOL-Library.Multiset" "HOL-Library.Product_Lexorder"
begin

text \<open>
  The rows of a channel in the web client (\<open>frontend/src/lib/channelTimeline.ts\<close>): the posts that are shown, in their order with
  the events between them, the groups they form, and the outline of what people said. The instant of a timestamp and
  the calendar day are the browser's.
\<close>

section \<open>Posts and their order\<close>

definition STALE_STREAMING_MS :: int where "STALE_STREAMING_MS = 60 * 60 * 1000"
definition GROUP_WINDOW_MS :: int where "GROUP_WINDOW_MS = 5 * 60 * 1000"

record shown_post =
  wp_id :: int
  wp_agent :: "string option"
  wp_human :: "int option"
  wp_author :: "string option"
  wp_message :: string
  wp_at :: string
  wp_status :: string
  wp_surface :: bool
  wp_files :: "string list"
  wp_parent :: "int option"
  wp_pinned :: bool
  wp_edited :: bool

record shown_event =
  we_id :: int
  we_at :: string

record shown_member =
  sm_agent :: "string option"
  sm_name :: string

datatype timeline_item = PostItem shown_post int | EventItem shown_event int

fun dedupe_from :: "int list \<Rightarrow> shown_post list \<Rightarrow> shown_post list" where
  "dedupe_from known [] = []"
| "dedupe_from known (p # ps) = (if wp_id p \<in> set known then dedupe_from known ps else p # dedupe_from (wp_id p # known) ps)"

definition dedupePostsById :: "shown_post list \<Rightarrow> shown_post list" where
  "dedupePostsById posts = dedupe_from [] posts"

definition mergePosts :: "shown_post list option \<Rightarrow> shown_post list \<Rightarrow> shown_post list \<Rightarrow> shown_post list" where
  "mergePosts anchorPosts olderPosts latestPosts =
     dedupePostsById (case anchorPosts of Some ps \<Rightarrow> ps | None \<Rightarrow> olderPosts @ rev latestPosts)"

text \<open>An agent's identifier that is there and not empty.\<close>

definition agent_of :: "shown_post \<Rightarrow> string option" where
  "agent_of p = (case wp_agent p of Some (c # cs) \<Rightarrow> Some (c # cs) | _ \<Rightarrow> None)"

definition latest_of :: "(string, int) jsmap \<Rightarrow> string \<Rightarrow> int" where
  "latest_of m a = (case mget m a of Some i \<Rightarrow> i | None \<Rightarrow> 0)"

definition note_published :: "(string, int) jsmap \<Rightarrow> shown_post \<Rightarrow> (string, int) jsmap" where
  "note_published m p = (case agent_of p of
      None \<Rightarrow> m
    | Some a \<Rightarrow> if wp_status p = ''published'' \<and> \<not> wp_surface p \<and> latest_of m a < wp_id p then mset_key a (wp_id p) m else m)"

definition latestPublishedByAgent :: "shown_post list \<Rightarrow> (string, int) jsmap" where
  "latestPublishedByAgent posts = foldl note_published [] posts"

definition deadPlaceholder :: "(string \<Rightarrow> int) \<Rightarrow> int \<Rightarrow> (string, int) jsmap \<Rightarrow> shown_post \<Rightarrow> bool" where
  "deadPlaceholder instant now latest p =
     (wp_status p = ''streaming'' \<and> trim (wp_message p) = [] \<and> wp_files p = [] \<and>
      (instant (wp_at p) < now - STALE_STREAMING_MS \<or>
       0 < wp_id p \<and> (case wp_agent p of Some a \<Rightarrow> wp_id p < latest_of latest a | None \<Rightarrow> False)))"

fun item_place :: "timeline_item \<Rightarrow> int \<times> int" where
  "item_place (PostItem p ts) = (ts, wp_id p)"
| "item_place (EventItem e ts) = (ts, we_id e)"

definition buildTimeline :: "(string \<Rightarrow> int) \<Rightarrow> int \<Rightarrow> shown_post list \<Rightarrow> shown_event list \<Rightarrow> timeline_item list" where
  "buildTimeline instant now posts events =
     sort_key item_place
       (map (\<lambda>p. PostItem p (instant (wp_at p))) (filter (\<lambda>p. \<not> deadPlaceholder instant now (latestPublishedByAgent posts) p) posts) @
        map (\<lambda>e. EventItem e (instant (we_at e))) events)"

fun post_of_item :: "timeline_item \<Rightarrow> shown_post option" where
  "post_of_item (PostItem p ts) = Some p"
| "post_of_item (EventItem e ts) = None"

fun event_of_item :: "timeline_item \<Rightarrow> shown_event option" where
  "event_of_item (PostItem p ts) = None"
| "event_of_item (EventItem e ts) = Some e"

definition postsOf :: "timeline_item list \<Rightarrow> shown_post list" where
  "postsOf timeline = List.map_filter post_of_item timeline"

section \<open>Agents at work and messages that wait\<close>

definition AGENT_KIND :: string where "AGENT_KIND = ''agent''"

text \<open>\<open>key.split(":", 2)\<close>\<close>

definition presence_agent :: "string \<Rightarrow> string option" where
  "presence_agent key = (case split_on CHR '':'' key of
      kind # (c # cs) # rest \<Rightarrow> if kind = AGENT_KIND then Some (c # cs) else None
    | _ \<Rightarrow> None)"

definition generatingAgentsOf :: "(string \<times> string) list \<Rightarrow> shown_post list \<Rightarrow> shown_member list \<Rightarrow> (string \<times> shown_member option) list" where
  "generatingAgentsOf presence posts members =
     List.map_filter (\<lambda>(key, status). if status \<noteq> ''generating'' then None else case presence_agent key of
         None \<Rightarrow> None
       | Some a \<Rightarrow> if list_ex (\<lambda>p. wp_agent p = Some a \<and> wp_status p = ''streaming'') posts then None else Some (a, List.find (\<lambda>m. sm_agent m = Some a) members)) presence"

definition after_last_agent :: "shown_post list \<Rightarrow> shown_post list" where
  "after_last_agent posts = rev (takeWhile (\<lambda>p. agent_of p = None) (rev posts))"

definition queuedOwnPostIdsOf :: "shown_post list \<Rightarrow> bool \<Rightarrow> int option \<Rightarrow> int list" where
  "queuedOwnPostIdsOf posts anyGenerating currentUserId =
     (if \<not> anyGenerating \<or> currentUserId = None then []
      else map wp_id (drop 1 (filter (\<lambda>p. wp_agent p = None \<and> wp_human p = currentUserId) (after_last_agent posts))))"

section \<open>Rows\<close>

datatype timeline_row =
    PostRow shown_post bool bool bool bool
  | EventRow shown_event bool
  | GeneratingRow "string \<times> shown_member option"

fun item_time :: "timeline_item \<Rightarrow> int" where
  "item_time (PostItem p ts) = ts"
| "item_time (EventItem e ts) = ts"

definition continuation :: "timeline_item option \<Rightarrow> bool \<Rightarrow> shown_post \<Rightarrow> int \<Rightarrow> bool" where
  "continuation prev newDay p ts = (case prev of
      Some (PostItem q qts) \<Rightarrow> \<not> newDay \<and> wp_agent q = wp_agent p \<and> wp_human q = wp_human p \<and> ts - qts < GROUP_WINDOW_MS \<and>
        wp_parent p = None \<and> \<not> wp_pinned p \<and> \<not> wp_edited p
    | _ \<Rightarrow> False)"

definition decorated :: "(int \<Rightarrow> int \<Rightarrow> bool) \<Rightarrow> int option \<Rightarrow> int list \<Rightarrow> timeline_item option \<Rightarrow> timeline_item \<Rightarrow> timeline_row" where
  "decorated sameDay unread queued prev row =
     (let newDay = (case prev of None \<Rightarrow> True | Some r \<Rightarrow> \<not> sameDay (item_time r) (item_time row)) in
      case row of
        EventItem e ts \<Rightarrow> EventRow e newDay
      | PostItem p ts \<Rightarrow> PostRow p (\<not> continuation prev newDay p ts) newDay (Some (wp_id p) = unread) (wp_id p \<in> set queued))"

fun decorate_from :: "(int \<Rightarrow> int \<Rightarrow> bool) \<Rightarrow> int option \<Rightarrow> int list \<Rightarrow> timeline_item option \<Rightarrow> timeline_item list \<Rightarrow> timeline_row list" where
  "decorate_from sameDay unread queued prev [] = []"
| "decorate_from sameDay unread queued prev (row # rows) =
     decorated sameDay unread queued prev row # decorate_from sameDay unread queued (Some row) rows"

definition decorateRows :: "(int \<Rightarrow> int \<Rightarrow> bool) \<Rightarrow> timeline_item list \<Rightarrow> int option \<Rightarrow> (string \<times> shown_member option) list \<Rightarrow> int list \<Rightarrow> timeline_row list" where
  "decorateRows sameDay timeline unread generating queued =
     decorate_from sameDay unread queued None timeline @ map GeneratingRow generating"

section \<open>The outline\<close>

record outline_section =
  os_index :: nat
  os_post :: int
  os_sender :: "string option"
  os_text :: string

text \<open>\<open>/^(?:#{1,6}|>|[-*+]|\d+\.)\s+/\<close>\<close>

definition after_marker :: "string \<Rightarrow> string \<Rightarrow> string" where
  "after_marker line r = (case r of c # cs \<Rightarrow> if is_ws c then dropWhile is_ws cs else line | [] \<Rightarrow> line)"

definition without_marker :: "string \<Rightarrow> string" where
  "without_marker line =
     (let hashes = length (takeWhile (\<lambda>c. c = CHR ''#'') line); ds = takeWhile is_digit line in
      if 1 \<le> hashes \<and> hashes \<le> 6 then after_marker line (drop hashes line)
      else case line of
        c # cs \<Rightarrow>
          (if c \<in> {CHR ''>'', CHR ''-'', CHR ''*'', CHR ''+''} then after_marker line cs
           else if ds \<noteq> [] then (case drop (length ds) line of
               d # r \<Rightarrow> if d = CHR ''.'' then after_marker line r else line
             | [] \<Rightarrow> line)
           else line)
      | [] \<Rightarrow> line)"

definition FENCE_MARK :: string where "FENCE_MARK = [CHR 0x60, CHR 0x60, CHR 0x60]"

definition firstLine :: "shown_post \<Rightarrow> string" where
  "firstLine p =
     (case List.find (\<lambda>l. l \<noteq> [] \<and> \<not> starts_with l FENCE_MARK) (map (\<lambda>l. without_marker (trim l)) (split_on CHR 0x0A (wp_message p))) of
        Some l \<Rightarrow> l
      | None \<Rightarrow> (case wp_files p of f # fs \<Rightarrow> f | [] \<Rightarrow> ''Attachment''))"

fun human_starts :: "nat \<Rightarrow> timeline_row list \<Rightarrow> (nat \<times> shown_post) list" where
  "human_starts i [] = []"
| "human_starts i (row # rows) = (case row of
      PostRow p start newDay unread queued \<Rightarrow> (if start \<and> wp_human p \<noteq> None then [(i, p)] else [])
    | _ \<Rightarrow> []) @ human_starts (Suc i) rows"

definition outlineOf :: "timeline_row list \<Rightarrow> outline_section list" where
  "outlineOf rows =
     (let starts = human_starts 0 rows; named = (1 < length (remdups (map (\<lambda>s. wp_human (snd s)) starts)))
      in map (\<lambda>(i, p). \<lparr>os_index = i, os_post = wp_id p, os_sender = (if named then wp_author p else None), os_text = firstLine p\<rparr>) starts)"

section \<open>What is shown\<close>

lemma dedupe_distinct: "distinct (map wp_id (dedupe_from known ps)) \<and> set (map wp_id (dedupe_from known ps)) = set (map wp_id ps) - set known"
  by (induction ps arbitrary: known) auto

text \<open>The reference: a published post of the same agent, which is no surface, came after it.\<close>

definition overtakes :: "string \<Rightarrow> int \<Rightarrow> shown_post \<Rightarrow> bool" where
  "overtakes a i q = (agent_of q = Some a \<and> wp_status q = ''published'' \<and> \<not> wp_surface q \<and> i < wp_id q)"

lemma note_published_latest:
  "0 \<le> i \<Longrightarrow> i < latest_of (note_published m q) a \<longleftrightarrow> i < latest_of m a \<or> overtakes a i q"
  by (auto simp: note_published_def overtakes_def latest_of_def split: option.splits if_splits)

lemma latest_published: "0 \<le> i \<Longrightarrow> i < latest_of (latestPublishedByAgent posts) a \<longleftrightarrow> (\<exists>q \<in> set posts. overtakes a i q)"
proof -
  assume i: "0 \<le> i"
  have "i < latest_of (foldl note_published m posts) a \<longleftrightarrow> i < latest_of m a \<or> (\<exists>q \<in> set posts. overtakes a i q)" for m
    using i by (induction posts arbitrary: m) (auto simp: note_published_latest)
  from this [of "[]"] i show ?thesis by (simp add: latestPublishedByAgent_def latest_of_def)
qed

definition is_dead :: "(string \<Rightarrow> int) \<Rightarrow> int \<Rightarrow> shown_post list \<Rightarrow> shown_post \<Rightarrow> bool" where
  "is_dead instant now posts p =
     (wp_status p = ''streaming'' \<and> trim (wp_message p) = [] \<and> wp_files p = [] \<and>
      (instant (wp_at p) < now - STALE_STREAMING_MS \<or>
       0 < wp_id p \<and> (\<exists>q \<in> set posts. \<exists>a. wp_agent p = Some a \<and> overtakes a (wp_id p) q)))"

lemma dead_is_dead: "deadPlaceholder instant now (latestPublishedByAgent posts) p = is_dead instant now posts p"
proof (cases "0 < wp_id p")
  case True
  then have "(wp_id p < latest_of (latestPublishedByAgent posts) a) = (\<exists>q \<in> set posts. overtakes a (wp_id p) q)" for a
    using latest_published [of "wp_id p" posts a] by simp
  with True show ?thesis by (auto simp: deadPlaceholder_def is_dead_def split: option.split)
qed (auto simp: deadPlaceholder_def is_dead_def)

lemma map_filter_append: "List.map_filter f (xs @ ys) = List.map_filter f xs @ List.map_filter f ys"
  by (simp add: List.map_filter_def)

lemma mset_map_filter: "mset (List.map_filter f xs) = image_mset (\<lambda>x. the (f x)) (filter_mset (\<lambda>x. f x \<noteq> None) (mset xs))"
  by (simp add: List.map_filter_def comp_def)

lemma map_filter_sort: "mset (List.map_filter f (sort_key k xs)) = mset (List.map_filter f xs)"
  by (simp add: mset_map_filter)

text \<open>C36: The timeline shows what lives, in order. It holds each event and each post as often as it was loaded, but for the
  placeholders of replies that are stale or that the same agent's later post has overtaken; instants and then identifiers ascend.\<close>

theorem timeline_shows_what_lives:
  "mset (postsOf (buildTimeline instant now posts events)) = filter_mset (\<lambda>p. \<not> is_dead instant now posts p) (mset posts) \<and>
   mset (List.map_filter event_of_item (buildTimeline instant now posts events)) = mset events \<and>
   sorted (map item_place (buildTimeline instant now posts events))"
proof -
  have posts: "List.map_filter post_of_item (map (\<lambda>p. PostItem p (f p)) ps) = ps" "List.map_filter event_of_item (map (\<lambda>p. PostItem p (f p)) ps) = []" for f ps
    by (induction ps) (simp_all add: List.map_filter_def)
  have events: "List.map_filter post_of_item (map (\<lambda>e. EventItem e (f e)) es) = []" "List.map_filter event_of_item (map (\<lambda>e. EventItem e (f e)) es) = es" for f es
    by (induction es) (simp_all add: List.map_filter_def)
  show ?thesis unfolding postsOf_def buildTimeline_def map_filter_sort map_filter_append posts events
    by (simp add: dead_is_dead)
qed

section \<open>Groups\<close>

definition row_post :: "timeline_row \<Rightarrow> (shown_post \<times> bool) option" where
  "row_post r = (case r of PostRow p start newDay unread queued \<Rightarrow> Some (p, start) | _ \<Rightarrow> None)"

definition same_author :: "shown_post \<Rightarrow> shown_post \<Rightarrow> bool" where
  "same_author p q = (wp_agent p = wp_agent q \<and> wp_human p = wp_human q)"

lemma decorate_length [simp]: "length (decorate_from sameDay unread queued prev rows) = length rows"
  by (induction rows arbitrary: prev) simp_all

lemma decorate_nth:
  "j < length rows \<Longrightarrow> decorate_from sameDay unread queued prev rows ! j =
   decorated sameDay unread queued (if j = 0 then prev else Some (rows ! (j - 1))) (rows ! j)"
proof (induction rows arbitrary: prev j)
  case (Cons row rows)
  then show ?case by (cases j) (auto simp: nth_Cons')
qed simp

text \<open>Rows \<open>i\<close> to \<open>j\<close> are one group: posts of one author, of which the first one alone is marked as a start.\<close>

definition one_group :: "timeline_row list \<Rightarrow> nat \<Rightarrow> nat \<Rightarrow> bool" where
  "one_group rows i j =
     (\<exists>p. row_post (rows ! i) = Some (p, True) \<and>
      list_all (\<lambda>k. case row_post (rows ! k) of Some (q, start) \<Rightarrow> same_author p q \<and> \<not> start | None \<Rightarrow> False) [Suc i..<Suc j])"

lemma row_follows:
  assumes "j < length rows" and "row_post (decorate_from sameDay unread queued None rows ! j) = Some (q, False)"
  shows "\<exists>p start k. j = Suc k \<and> row_post (decorate_from sameDay unread queued None rows ! k) = Some (p, start) \<and> same_author p q"
proof -
  obtain ts nd where q: "rows ! j = PostItem q ts" "continuation (if j = 0 then None else Some (rows ! (j - 1))) nd q ts"
    using assms by (cases "rows ! j") (auto simp: decorate_nth row_post_def decorated_def Let_def simp del: if_split_asm)
  then have "j \<noteq> 0" by (cases j) (auto simp: continuation_def)
  then obtain k where k: "j = Suc k" by (cases j) auto
  obtain p pts where p: "rows ! k = PostItem p pts" "same_author p q"
    using q(2) k by (cases "rows ! k") (auto simp: continuation_def same_author_def)
  have "row_post (decorate_from sameDay unread queued None rows ! k) = Some (p, \<not> continuation (if k = 0 then None else Some (rows ! (k - 1)))
      (case (if k = 0 then None else Some (rows ! (k - 1))) of None \<Rightarrow> True | Some r \<Rightarrow> \<not> sameDay (item_time r) pts) p pts)"
    using assms(1) k p by (simp add: decorate_nth decorated_def row_post_def Let_def del: if_split)
  with k p(2) show ?thesis by blast
qed

lemma groups_have_heads:
  assumes "j < length rows" and "row_post (decorate_from sameDay unread queued None rows ! j) = Some (q, start)"
  shows "\<exists>i p. i \<le> j \<and> row_post (decorate_from sameDay unread queued None rows ! i) = Some (p, True) \<and> same_author p q \<and>
    one_group (decorate_from sameDay unread queued None rows) i j"
  using assms
proof (induction j arbitrary: q start)
  case 0
  then have "start" using row_follows [of 0 rows sameDay unread queued q] by (cases start) auto
  with 0 show ?case by (intro exI [of _ 0] exI [of _ q]) (simp add: same_author_def one_group_def)
next
  case (Suc j)
  show ?case
  proof (cases start)
    case True
    with Suc.prems show ?thesis by (intro exI [of _ "Suc j"] exI [of _ q]) (simp add: same_author_def one_group_def)
  next
    case False
    obtain p b where p: "row_post (decorate_from sameDay unread queued None rows ! j) = Some (p, b)" "same_author p q"
      using row_follows [OF Suc.prems(1), of sameDay unread queued q] Suc.prems(2) False by auto
    obtain i h where h: "i \<le> j" "row_post (decorate_from sameDay unread queued None rows ! i) = Some (h, True)" "same_author h p"
        "one_group (decorate_from sameDay unread queued None rows) i j"
      using Suc.IH [OF _ p(1)] Suc.prems(1) by auto
    have "same_author h q" using h(3) p(2) by (simp add: same_author_def)
    moreover from this have "one_group (decorate_from sameDay unread queued None rows) i (Suc j)"
      using h Suc.prems(2) False by (simp add: one_group_def)
    ultimately show ?thesis using h by (intro exI [of _ i] exI [of _ h]) simp
  qed
qed

lemma human_starts_from: "(i, p) \<in> set (human_starts n rows) \<longleftrightarrow>
    n \<le> i \<and> i < n + length rows \<and> row_post (rows ! (i - n)) = Some (p, True) \<and> wp_human p \<noteq> None"
proof (induction rows arbitrary: n)
  case (Cons row rows)
  show ?case
  proof (cases "i = n")
    case True
    then show ?thesis using Cons.IH [of "Suc n"] by (cases row) (auto simp: row_post_def)
  next
    case False
    then have "(i, p) \<in> set (human_starts n (row # rows)) \<longleftrightarrow> (i, p) \<in> set (human_starts (Suc n) rows)"
      by (cases row) auto
    also have "\<dots> \<longleftrightarrow> n \<le> i \<and> i < n + length (row # rows) \<and> row_post ((row # rows) ! (i - n)) = Some (p, True) \<and> wp_human p \<noteq> None"
    proof (cases "n < i")
      case True
      then have "i - n = Suc (i - Suc n)" by simp
      then show ?thesis using Cons.IH [of "Suc n"] True by (auto simp: Suc_le_eq)
    qed (use False Cons.IH [of "Suc n"] in auto)
    finally show ?thesis .
  qed
qed simp

lemma human_starts_sorted: "sorted_wrt (<) (map fst (human_starts n rows)) \<and> list_all (\<lambda>s. n \<le> fst s) (human_starts n rows)"
proof (induction rows arbitrary: n)
  case (Cons row rows)
  from Cons.IH [of "Suc n"] show ?case
    by (cases row) (auto simp: list_all_iff)
qed simp

text \<open>Whatever a person said is under a heading. The sections of the outline ascend, and each post of a human in the rows has
  one that starts at or above it, from which on every row down to the post is a post of that human.\<close>

theorem outline_covers_people:
  assumes "j < length timeline" and "row_post (decorateRows sameDay timeline unread generating queued ! j) = Some (q, start)" and "wp_human q \<noteq> None"
  shows "sorted_wrt (<) (map os_index (outlineOf (decorateRows sameDay timeline unread generating queued))) \<and>
    (\<exists>s \<in> set (outlineOf (decorateRows sameDay timeline unread generating queued)). os_index s \<le> j \<and>
       one_group (decorateRows sameDay timeline unread generating queued) (os_index s) j)"
proof -
  let ?d = "decorate_from sameDay unread queued None timeline" and ?rows = "decorateRows sameDay timeline unread generating queued"
  have rows: "?rows ! k = ?d ! k" if "k \<le> j" for k using that assms(1) by (simp add: decorateRows_def nth_append)
  obtain i p where i: "i \<le> j" "row_post (?d ! i) = Some (p, True)" "same_author p q" "one_group ?d i j"
    using groups_have_heads [OF assms(1), of sameDay unread queued q start] assms(2) rows [of j] by auto
  have "wp_human p \<noteq> None" using i(3) assms(3) by (simp add: same_author_def)
  then have "(i, p) \<in> set (human_starts 0 ?rows)"
    using i(1,2) rows [OF i(1)] assms(1) by (simp add: human_starts_from decorateRows_def)
  then obtain s where "s \<in> set (outlineOf ?rows)" "os_index s = i"
    by (force simp: outlineOf_def Let_def)
  moreover have "one_group ?rows i j" using i(1,4) rows by (auto simp: one_group_def list_all_iff)
  moreover have "map os_index (outlineOf ?rows) = map fst (human_starts 0 ?rows)" by (auto simp: outlineOf_def Let_def)
  ultimately show ?thesis using i(1) human_starts_sorted [of 0 ?rows] by auto
qed

definition demo_shown :: "int \<Rightarrow> shown_post" where
  "demo_shown i = \<lparr>wp_id = i, wp_agent = None, wp_human = Some 3, wp_author = Some ''ann'', wp_message = ''# plan'', wp_at = [],
     wp_status = ''published'', wp_surface = False, wp_files = [], wp_parent = None, wp_pinned = False, wp_edited = False\<rparr>"

definition demo_timeline :: "timeline_item list" where
  "demo_timeline = buildTimeline (\<lambda>t. 0) 0 [demo_shown 2, demo_shown 1] []"

theorem outline_covers_people_witness:
  "\<exists>s \<in> set (outlineOf (decorateRows (\<lambda>a b. True) demo_timeline None [] [])). os_index s \<le> 1 \<and>
    one_group (decorateRows (\<lambda>a b. True) demo_timeline None [] []) (os_index s) 1"
proof -
  have "1 < length demo_timeline" by code_simp
  moreover have "row_post (decorateRows (\<lambda>a b. True) demo_timeline None [] [] ! 1) = Some (demo_shown 2, False)" by code_simp
  ultimately show ?thesis
    using outline_covers_people [of 1 demo_timeline "\<lambda>a b. True" None "[]" "[]" "demo_shown 2" False]
    by (simp add: demo_shown_def)
qed

end
