(* ===== verification/Auto_Mention.thy ===== *)
theory Auto_Mention
  imports Channel_Timeline
begin

text \<open>
  Whom the composer of the web client offers to mention (\<open>frontend/src/lib/autoMention.ts\<close>): the agent the viewer replies to, the agent whose last post
  addressed the viewer, or the agent the viewer's last post addressed. \<open>Date.parse\<close> is a parameter, and so are the handle
  and the label of a member.
\<close>

section \<open>Timestamps\<close>

text \<open>\<open>/^\d{4}-\d{2}-\d{2} \d{2}:\d{2}:\d{2}(?:\.\d+)?$/\<close>\<close>

definition NAIVE_SHAPE :: string where "NAIVE_SHAPE = ''dddd-dd-dd dd:dd:dd''"

definition naive_post_time :: "string \<Rightarrow> bool" where
  "naive_post_time raw =
     (length NAIVE_SHAPE \<le> length raw \<and>
      list_all2 (\<lambda>t c. if t = CHR ''d'' then is_digit c else c = t) NAIVE_SHAPE (take (length NAIVE_SHAPE) raw) \<and>
      (case drop (length NAIVE_SHAPE) raw of [] \<Rightarrow> True | c # ds \<Rightarrow> c = CHR ''.'' \<and> ds \<noteq> [] \<and> list_all is_digit ds))"

fun first_space_T :: "string \<Rightarrow> string" where
  "first_space_T [] = []"
| "first_space_T (c # s) = (if c = CHR '' '' then CHR ''T'' # s else c # first_space_T s)"

definition parsePostTimestamp :: "(string \<Rightarrow> rat option) \<Rightarrow> string \<Rightarrow> rat option" where
  "parsePostTimestamp parse_date raw =
     (if raw = [] then None else if naive_post_time raw then parse_date (first_space_T raw @ ''Z'') else parse_date raw)"

section \<open>The three triggers\<close>

record channel_member =
  cm_agent :: "string option"
  cm_can_tag :: "bool option"

datatype mention_reason = ByReply | AgentToMe | MeToAgent

record pending_mention =
  pm_agent :: string
  pm_handle :: string
  pm_label :: string
  pm_trigger :: string
  pm_reason :: mention_reason

record mention_input =
  mi_user :: "int option"
  mi_direct :: bool
  mi_members :: "channel_member list"
  mi_posts :: "shown_post list"
  mi_reply :: "shown_post option"
  mi_handle :: "channel_member \<Rightarrow> string"
  mi_label :: "channel_member \<Rightarrow> string"
  mi_tokens :: "string list"
  mi_now :: rat
  mi_window :: rat
  mi_entered :: rat

definition agent_members :: "mention_input \<Rightarrow> channel_member list" where
  "agent_members I = filter (\<lambda>m. cm_agent m \<noteq> None \<and> cm_can_tag m \<noteq> Some False) (mi_members I)"

definition member_of :: "mention_input \<Rightarrow> string \<Rightarrow> channel_member option" where
  "member_of I a = List.find (\<lambda>m. cm_agent m = Some a) (agent_members I)"

definition pending :: "mention_input \<Rightarrow> channel_member \<Rightarrow> string \<Rightarrow> string \<Rightarrow> mention_reason \<Rightarrow> pending_mention" where
  "pending I m a key reason = \<lparr>pm_agent = a, pm_handle = mi_handle I m, pm_label = mi_label I m, pm_trigger = key, pm_reason = reason\<rparr>"

definition is_live :: "mention_input \<Rightarrow> shown_post \<Rightarrow> bool" where
  "is_live I p = (wp_status p = ''published'' \<or> wp_human p = mi_user I)"

definition in_window :: "(string \<Rightarrow> rat option) \<Rightarrow> mention_input \<Rightarrow> shown_post \<Rightarrow> bool" where
  "in_window parse_date I p =
     (case parsePostTimestamp parse_date (wp_at p) of
        None \<Rightarrow> False
      | Some ms \<Rightarrow> mi_now I - ms \<le> mi_window I \<and> \<not> (0 < mi_entered I \<and> ms < mi_entered I))"

definition addresses_me :: "mention_input \<Rightarrow> shown_post \<Rightarrow> bool" where
  "addresses_me I p =
     ((case wp_parent p of Some q \<Rightarrow> list_ex (\<lambda>r. wp_id r = q \<and> wp_human r = mi_user I) (mi_posts I) | None \<Rightarrow> False) \<or>
      list_ex (\<lambda>t. str_includes (lower (wp_message p)) (CHR ''@'' # t)) (mi_tokens I))"

definition tryAgentToMe :: "mention_input \<Rightarrow> shown_post \<Rightarrow> pending_mention option" where
  "tryAgentToMe I p =
     (case agent_of p of
        None \<Rightarrow> None
      | Some a \<Rightarrow> (case member_of I a of
          None \<Rightarrow> None
        | Some m \<Rightarrow> if addresses_me I p then Some (pending I m a (''a2m:'' @ show_int (wp_id p)) AgentToMe) else None))"

text \<open>The last of the agents the post names.\<close>

definition names_agent :: "shown_post \<Rightarrow> string \<Rightarrow> bool" where
  "names_agent p a = str_includes (lower (wp_message p)) (CHR ''@'' # lower a)"

definition tryMeToAgent :: "mention_input \<Rightarrow> shown_post \<Rightarrow> pending_mention option" where
  "tryMeToAgent I p =
     (if wp_human p \<noteq> mi_user I then None
      else case List.find (\<lambda>m. case cm_agent m of Some a \<Rightarrow> names_agent p a | None \<Rightarrow> False) (rev (agent_members I)) of
          Some m \<Rightarrow> (case cm_agent m of Some a \<Rightarrow> Some (pending I m a (''m2a:'' @ show_int (wp_id p)) MeToAgent) | None \<Rightarrow> None)
        | None \<Rightarrow> None)"

definition either_trigger :: "mention_input \<Rightarrow> shown_post \<Rightarrow> pending_mention option" where
  "either_trigger I p = (case tryAgentToMe I p of Some h \<Rightarrow> Some h | None \<Rightarrow> tryMeToAgent I p)"

text \<open>The walk back, which passes over the newest post by its place.\<close>

fun walk_back :: "(string \<Rightarrow> rat option) \<Rightarrow> mention_input \<Rightarrow> nat \<Rightarrow> (nat \<times> shown_post) list \<Rightarrow> pending_mention option" where
  "walk_back parse_date I skip [] = None"
| "walk_back parse_date I skip ((i, p) # ps) =
     (if i = skip \<or> \<not> is_live I p \<or> \<not> in_window parse_date I p then walk_back parse_date I skip ps
      else case either_trigger I p of Some h \<Rightarrow> Some h | None \<Rightarrow> walk_back parse_date I skip ps)"

definition by_reply :: "mention_input \<Rightarrow> pending_mention option" where
  "by_reply I =
     (case mi_reply I of
        None \<Rightarrow> None
      | Some r \<Rightarrow> (case agent_of r of
          None \<Rightarrow> None
        | Some a \<Rightarrow> (case member_of I a of
            None \<Rightarrow> None
          | Some m \<Rightarrow> Some (pending I m a (''reply:'' @ show_int (wp_id r)) ByReply))))"

definition by_turn :: "(string \<Rightarrow> rat option) \<Rightarrow> mention_input \<Rightarrow> pending_mention option" where
  "by_turn parse_date I =
     (case List.find (\<lambda>(i, p). is_live I p) (enumerate 0 (mi_posts I)) of
        None \<Rightarrow> None
      | Some (i, newest) \<Rightarrow>
          if \<not> in_window parse_date I newest then None
          else if agent_of newest \<noteq> None
          then (case tryAgentToMe I newest of Some h \<Rightarrow> Some h | None \<Rightarrow> walk_back parse_date I i (enumerate 0 (mi_posts I)))
          else tryMeToAgent I newest)"

definition computePendingAutoMention :: "(string \<Rightarrow> rat option) \<Rightarrow> mention_input \<Rightarrow> pending_mention option" where
  "computePendingAutoMention parse_date I =
     (if mi_user I = None \<or> mi_direct I \<or> agent_members I = [] then None
      else case by_reply I of Some h \<Rightarrow> Some h | None \<Rightarrow> by_turn parse_date I)"

section \<open>An offer has a reason\<close>

lemma find_in_list: "List.find P xs = Some x \<Longrightarrow> x \<in> set xs \<and> P x"
  by (auto simp: find_Some_iff)

definition taggable :: "mention_input \<Rightarrow> string \<Rightarrow> bool" where
  "taggable I a = (\<exists>m \<in> set (mi_members I). cm_agent m = Some a \<and> cm_can_tag m \<noteq> Some False)"

lemma member_of_taggable: "member_of I a = Some m \<Longrightarrow> taggable I a"
  by (auto simp: member_of_def agent_members_def taggable_def dest!: find_in_list)

text \<open>The post an offer stands for: an agent's, which addresses the viewer, or the viewer's, which names the agent.\<close>

definition speaks_for :: "mention_input \<Rightarrow> shown_post \<Rightarrow> string \<Rightarrow> bool" where
  "speaks_for I p a = (agent_of p = Some a \<and> addresses_me I p \<or> wp_human p = mi_user I \<and> names_agent p a)"

lemma agent_to_me: "tryAgentToMe I p = Some h \<Longrightarrow> taggable I (pm_agent h) \<and> speaks_for I p (pm_agent h)"
  by (auto simp: tryAgentToMe_def pending_def speaks_for_def member_of_taggable split: option.splits if_splits)

lemma me_to_agent: "tryMeToAgent I p = Some h \<Longrightarrow> taggable I (pm_agent h) \<and> speaks_for I p (pm_agent h)"
  by (auto simp: tryMeToAgent_def pending_def speaks_for_def taggable_def agent_members_def split: option.splits if_splits dest!: find_in_list)

lemma either_spoken: "either_trigger I p = Some h \<Longrightarrow> taggable I (pm_agent h) \<and> speaks_for I p (pm_agent h)"
  by (auto simp: either_trigger_def dest: agent_to_me me_to_agent split: option.splits)

lemma walk_back_found:
  "walk_back parse_date I skip ps = Some h \<Longrightarrow>
   taggable I (pm_agent h) \<and> (\<exists>p \<in> snd ` set ps. is_live I p \<and> in_window parse_date I p \<and> speaks_for I p (pm_agent h))"
  by (induction ps) (auto dest: either_spoken split: if_splits option.splits)

text \<open>What is offered is an agent the viewer may tag in a channel that is not a direct one, and either the viewer replies to it, or a
  live post within the window speaks for it.\<close>

theorem offer_has_a_reason:
  assumes "computePendingAutoMention parse_date I = Some h"
  shows "\<not> mi_direct I \<and> taggable I (pm_agent h) \<and>
    ((\<exists>r. mi_reply I = Some r \<and> agent_of r = Some (pm_agent h)) \<or>
     (\<exists>p \<in> set (mi_posts I). is_live I p \<and> in_window parse_date I p \<and> speaks_for I p (pm_agent h)))"
proof -
  have top: "\<not> mi_direct I" "by_reply I = Some h \<or> by_turn parse_date I = Some h"
    using assms by (auto simp: computePendingAutoMention_def split: if_splits option.splits)
  from top(2) show ?thesis
  proof
    assume "by_reply I = Some h"
    then show ?thesis using top(1) by (auto simp: by_reply_def pending_def member_of_taggable split: option.splits)
  next
    assume turn: "by_turn parse_date I = Some h"
    then obtain i newest where newest: "List.find (\<lambda>(i, p). is_live I p) (enumerate 0 (mi_posts I)) = Some (i, newest)"
      by (auto simp: by_turn_def split: option.splits)
    then have live: "is_live I newest" "newest \<in> set (mi_posts I)" by (auto dest!: find_in_list simp: in_set_enumerate_eq)
    have posts: "snd ` set (enumerate 0 (mi_posts I)) = set (mi_posts I)" by (metis list.set_map map_snd_enumerate)
    have window: "in_window parse_date I newest" using turn newest by (simp add: by_turn_def split: if_splits)
    have "tryAgentToMe I newest = Some h \<or> tryMeToAgent I newest = Some h \<or> walk_back parse_date I i (enumerate 0 (mi_posts I)) = Some h"
      using turn newest by (auto simp: by_turn_def split: if_splits option.splits)
    then show ?thesis using top(1) live window walk_back_found [of parse_date I i "enumerate 0 (mi_posts I)" h] posts
      by (metis agent_to_me me_to_agent)
  qed
qed

end
