(* ===== verification/Chat_Widgets.thy ===== *)
theory Chat_Widgets
  imports Js_Values "HOL-Library.Multiset" "HOL-Library.Product_Lexorder"
begin

text \<open>
  The games of a chat as a client holds them (\<open>apps/mobile/src/lib/widgets.ts\<close>; \<open>frontend/src/lib/widgets.ts\<close> keeps its cache by the same code):
  the cache of each game and of a chat's list of running games under events and slow answers, and what a scene shows: the result, the
  score, the cells of a board, the amounts and the cards. An invalidated query is recorded; its answer is a later step. A cached
  query is not collected in this model.
\<close>

section \<open>Games and their scenes\<close>

datatype widget_status = WActive | WFinished | WAborted

definition WIDGET_KINDS :: "(string \<times> string) list" where
  "WIDGET_KINDS = [(''chess'', ''Chess''), (''battleship'', ''Battleship''), (''poker'', ''Poker''), (''blackjack'', ''Blackjack'')]"

record widget_seat =
  seat_name :: string
  seat_human :: "int option"
  seat_agent :: "string option"
  seat_shown :: "string option"
  seat_wins :: "nat option"

record scene_token =
  token_id :: string
  token_sprite :: string
  token_at :: string
  token_span :: "(nat \<times> nat) option"

record scene_mark =
  mark_at :: string
  mark_tone :: string

record board_layout =
  bl_cols :: "string list"
  bl_rows :: "string list"
  bl_checker :: bool
  bl_top :: bool

record widget_board =
  wb_id :: string
  wb_layout :: board_layout
  wb_seat :: "string option"
  wb_tokens :: "scene_token list option"
  wb_marks :: "scene_mark list option"

record scene_amount =
  am_min :: rat
  am_max :: rat
  am_step :: rat

record widget_scene =
  sc_title :: "string option"
  sc_board :: "board_layout option"
  sc_tokens :: "scene_token list option"
  sc_marks :: "scene_mark list option"
  sc_boards :: "widget_board list option"
  sc_table :: bool
  sc_status :: "string option"
  sc_log :: "string list option"

record chat_widget =
  cw_id :: string
  cw_channel :: string
  cw_kind :: string
  cw_status :: widget_status
  cw_rev :: nat
  cw_turn :: "string option"
  cw_waiting :: "string list option"
  cw_seats :: "widget_seat list"
  cw_scene :: widget_scene
  cw_private :: bool
  cw_outcome :: jsval
  cw_draws :: "nat option"

section \<open>The cache\<close>

datatype query_key = WidgetKey string | ActiveKey string | ScoreKey string

record widget_cache =
  wc_entry :: "string \<Rightarrow> chat_widget option"
  wc_active :: "string \<Rightarrow> chat_widget list option"
  wc_asked :: "query_key list"

definition known_newer :: "chat_widget option \<Rightarrow> chat_widget \<Rightarrow> bool" where
  "known_newer known w = (case known of Some k \<Rightarrow> cw_rev w < cw_rev k | None \<Rightarrow> False)"

definition without_widget :: "string \<Rightarrow> chat_widget list \<Rightarrow> chat_widget list" where
  "without_widget i ws = filter (\<lambda>w. cw_id w \<noteq> i) ws"

text \<open>The updater of the list; where it returns nothing the query keeps what it has, which was nothing.\<close>

definition fold_active :: "chat_widget \<Rightarrow> chat_widget list option \<Rightarrow> chat_widget list option" where
  "fold_active w old =
     (if known_newer (case old of Some ws \<Rightarrow> List.find (\<lambda>k. cw_id k = cw_id w) ws | None \<Rightarrow> None) w then old
      else let remaining = without_widget (cw_id w) (case old of Some ws \<Rightarrow> ws | None \<Rightarrow> [])
        in if cw_status w = WActive then Some (w # remaining) else map_option (\<lambda>_. remaining) old)"

definition applyWidget :: "chat_widget \<Rightarrow> widget_cache \<Rightarrow> widget_cache" where
  "applyWidget w c =
     (if known_newer (wc_entry c (cw_id w)) w then c
      else c\<lparr>wc_entry := (wc_entry c)(cw_id w := Some w),
        wc_active := (wc_active c)(cw_channel w := fold_active w (wc_active c (cw_channel w)))\<rparr>)"

definition freshWidget :: "widget_cache \<Rightarrow> chat_widget \<Rightarrow> chat_widget" where
  "freshWidget c fetched = (case wc_entry c (cw_id fetched) of Some k \<Rightarrow> if cw_rev fetched < cw_rev k then k else fetched | None \<Rightarrow> fetched)"

text \<open>A known newer entry is another object than the fetched one, so the cache is seeded where there is none.\<close>

fun freshActiveWidgets :: "chat_widget list \<Rightarrow> widget_cache \<Rightarrow> chat_widget list \<times> widget_cache" where
  "freshActiveWidgets [] c = ([], c)"
| "freshActiveWidgets (fetched # listed) c =
     (let w = freshWidget c fetched;
          c1 = (if known_newer (wc_entry c (cw_id fetched)) fetched then c else c\<lparr>wc_entry := (wc_entry c)(cw_id fetched := Some fetched)\<rparr>);
          (ws, c2) = freshActiveWidgets listed c1
      in (if cw_status w = WActive then w # ws else ws, c2))"

definition ask_again :: "query_key \<Rightarrow> widget_cache \<Rightarrow> widget_cache" where
  "ask_again k c = c\<lparr>wc_asked := k # wc_asked c\<rparr>"

definition told_private :: "chat_widget \<Rightarrow> widget_cache \<Rightarrow> widget_cache" where
  "told_private w c =
     (if (case wc_entry c (cw_id w) of Some k \<Rightarrow> cw_rev w \<le> cw_rev k | None \<Rightarrow> False) then c
      else let c1 = ask_again (WidgetKey (cw_id w)) c in
        if cw_status w \<noteq> WActive
        then c1\<lparr>wc_active := (wc_active c1)(cw_channel w := map_option (without_widget (cw_id w)) (wc_active c1 (cw_channel w)))\<rparr>
        else if (case wc_active c1 (cw_channel w) of Some (x # xs) \<Rightarrow> False | _ \<Rightarrow> True) then ask_again (ActiveKey (cw_channel w)) c1
        else c1)"

definition applyWidgetEvent :: "chat_widget \<Rightarrow> widget_cache \<Rightarrow> widget_cache" where
  "applyWidgetEvent w c =
     (let c1 = (if cw_status w = WFinished then ask_again (ScoreKey (cw_channel w)) c else c)
      in if \<not> cw_private w then applyWidget w c1 else told_private w c1)"

text \<open>What reaches the cache: an event, the answer to the viewer's own action or start, and the answers to the two queries.\<close>

datatype widget_news =
    Told chat_widget
  | Acted chat_widget
  | WidgetAnswer chat_widget
  | ListAnswer string "chat_widget list"

fun news_step :: "widget_cache \<Rightarrow> widget_news \<Rightarrow> widget_cache" where
  "news_step c (Told w) = applyWidgetEvent w c"
| "news_step c (Acted w) = applyWidget w c"
| "news_step c (WidgetAnswer w) = c\<lparr>wc_entry := (wc_entry c)(cw_id w := Some (freshWidget c w))\<rparr>"
| "news_step c (ListAnswer ch listed) =
     (let (ws, c1) = freshActiveWidgets listed c in c1\<lparr>wc_active := (wc_active c1)(ch := Some ws)\<rparr>)"

definition no_widgets :: widget_cache where
  "no_widgets = \<lparr>wc_entry = (\<lambda>i. None), wc_active = (\<lambda>ch. None), wc_asked = []\<rparr>"

section \<open>What a scene says\<close>

datatype widget_end = EWon | ELost | EDraw | EEnded | EFinished

definition endOf :: "chat_widget \<Rightarrow> string option \<Rightarrow> widget_end option" where
  "endOf w seat =
     (case cw_status w of
        WActive \<Rightarrow> None
      | WAborted \<Rightarrow> Some EEnded
      | WFinished \<Rightarrow> Some (case jget (cw_outcome w) ''winner'' of
            JNull \<Rightarrow> EDraw
          | JStr winner \<Rightarrow> (case seat of None \<Rightarrow> EFinished | Some s \<Rightarrow> if winner = s then EWon else ELost)
          | _ \<Rightarrow> EFinished))"

fun END_HEADLINE :: "widget_end \<Rightarrow> string" where
  "END_HEADLINE EWon = ''You won''"
| "END_HEADLINE ELost = ''You lost''"
| "END_HEADLINE EDraw = ''Draw''"
| "END_HEADLINE EEnded = ''Ended''"
| "END_HEADLINE EFinished = ''Finished''"

definition winner_name :: "chat_widget \<Rightarrow> string option" where
  "winner_name w =
     (case List.find (\<lambda>s. JStr (seat_name s) = jget (cw_outcome w) ''winner'') (cw_seats w) of
        Some s \<Rightarrow> (case seat_shown s of Some (c # cs) \<Rightarrow> Some (c # cs) | _ \<Rightarrow> None)
      | None \<Rightarrow> None)"

definition resultOf :: "chat_widget \<Rightarrow> string option \<Rightarrow> (widget_end \<times> string) option" where
  "resultOf w seat =
     (case endOf w seat of
        None \<Rightarrow> None
      | Some e \<Rightarrow> Some (e, case (if e = EFinished then winner_name w else None) of Some n \<Rightarrow> n @ '' won'' | None \<Rightarrow> END_HEADLINE e))"

definition drawsChessPieces :: "widget_scene \<Rightarrow> bool" where
  "drawsChessPieces sc =
     list_ex (\<lambda>t. starts_with (token_sprite t) ''chess.'')
       ((case sc_tokens sc of Some ts \<Rightarrow> ts | None \<Rightarrow> []) @
        concat (map (\<lambda>b. case wb_tokens b of Some ts \<Rightarrow> ts | None \<Rightarrow> []) (case sc_boards sc of Some bs \<Rightarrow> bs | None \<Rightarrow> [])))"

definition notesOf :: "widget_scene \<Rightarrow> string list" where
  "notesOf sc = (if sc_table sc then [] else case sc_log sc of Some ls \<Rightarrow> ls | None \<Rightarrow> [])"

definition boardsBySeat :: "widget_scene \<Rightarrow> bool" where
  "boardsBySeat sc =
     (let boards = (case sc_boards sc of Some bs \<Rightarrow> bs | None \<Rightarrow> [])
      in 1 < length boards \<and> list_all (\<lambda>b. wb_seat b \<noteq> None) boards)"

definition lastWidgetId :: "string option list \<Rightarrow> string option" where
  "lastWidgetId posts = (case List.find (\<lambda>p. case p of Some (c # cs) \<Rightarrow> True | _ \<Rightarrow> False) (rev posts) of Some p \<Rightarrow> p | None \<Rightarrow> None)"

definition seatOf :: "chat_widget \<Rightarrow> int option \<Rightarrow> string option" where
  "seatOf w user = map_option seat_name (List.find (\<lambda>s. seat_human s \<noteq> None \<and> seat_human s = user) (cw_seats w))"

definition waitingOn :: "chat_widget \<Rightarrow> string list" where
  "waitingOn w =
     (if cw_status w \<noteq> WActive then []
      else case cw_waiting w of
          Some ss \<Rightarrow> ss
        | None \<Rightarrow> (case cw_turn w of Some (c # cs) \<Rightarrow> [c # cs] | _ \<Rightarrow> []))"

definition waitsOn :: "chat_widget \<Rightarrow> string option \<Rightarrow> bool" where
  "waitsOn w seat = (case seat of Some s \<Rightarrow> s \<in> set (waitingOn w) | None \<Rightarrow> False)"

definition widgetTitle :: "chat_widget \<Rightarrow> string" where
  "widgetTitle w =
     (case sc_title (cw_scene w) of
        Some t \<Rightarrow> t
      | None \<Rightarrow> (case map_of WIDGET_KINDS (cw_kind w) of Some l \<Rightarrow> l | None \<Rightarrow> cw_kind w))"

definition MIDDOT :: string where "MIDDOT = '' '' @ [CHR 0xB7] @ '' ''"

definition widgetLine :: "chat_widget \<Rightarrow> string option \<Rightarrow> string" where
  "widgetLine w seat =
     (case resultOf w seat of
        Some (e, headline) \<Rightarrow>
          (case sc_status (cw_scene w) of
             Some (c # cs) \<Rightarrow> if c # cs \<noteq> headline then headline @ MIDDOT @ (c # cs) else headline
           | _ \<Rightarrow> headline)
      | None \<Rightarrow> if waitsOn w seat then ''Your move'' else case sc_status (cw_scene w) of Some r \<Rightarrow> r | None \<Rightarrow> ''Playing'')"

section \<open>Scores\<close>

record game_score =
  gs_mine :: nat
  gs_theirs :: nat
  gs_draws :: nat
  gs_them :: "string option"

record score_player =
  sp_human :: "int option"
  sp_shown :: "string option"
  sp_wins :: nat

record chat_score =
  cs_players :: "score_player list"
  cs_draws :: nat

definition or_zero :: "nat option \<Rightarrow> nat" where
  "or_zero n = (case n of Some k \<Rightarrow> k | None \<Rightarrow> 0)"

definition scored :: "game_score \<Rightarrow> game_score option" where
  "scored s = (if 0 < gs_mine s + gs_theirs s + gs_draws s then Some s else None)"

definition scoreOf :: "chat_widget \<Rightarrow> int option \<Rightarrow> game_score option" where
  "scoreOf w user =
     (let seat = seatOf w user in
      case (List.find (\<lambda>s. Some (seat_name s) = seat) (cw_seats w), List.find (\<lambda>s. Some (seat_name s) \<noteq> seat) (cw_seats w)) of
        (Some mine, Some other) \<Rightarrow> scored \<lparr>gs_mine = or_zero (seat_wins mine), gs_theirs = or_zero (seat_wins other),
          gs_draws = or_zero (cw_draws w), gs_them = seat_shown other\<rparr>
      | _ \<Rightarrow> None)"

text \<open>Players are told apart as objects, that is by their place.\<close>

definition chatScoreOf :: "chat_score option \<Rightarrow> int \<Rightarrow> game_score option" where
  "chatScoreOf score user =
     (case score of None \<Rightarrow> None | Some sc \<Rightarrow>
       (let players = enumerate 0 (cs_players sc) in
        case List.find (\<lambda>(i, p). sp_human p = Some user) players of
          None \<Rightarrow> None
        | Some (i, mine) \<Rightarrow> (case List.find (\<lambda>(j, p). j \<noteq> i) players of
            None \<Rightarrow> None
          | Some (j, other) \<Rightarrow> scored \<lparr>gs_mine = sp_wins mine, gs_theirs = sp_wins other, gs_draws = cs_draws sc, gs_them = sp_shown other\<rparr>)))"

definition drawsText :: "nat \<Rightarrow> string" where
  "drawsText n = show_nat n @ '' '' @ (if n = 1 then ''draw'' else ''draws'')"

definition their_name :: "game_score \<Rightarrow> string" where
  "their_name s = (case gs_them s of Some n \<Rightarrow> n | None \<Rightarrow> ''your opponent'')"

definition scoreLine :: "game_score \<Rightarrow> string" where
  "scoreLine s =
     (let line = ''You '' @ show_nat (gs_mine s) @ '' '' @ [CHR 0x96] @ '' '' @ show_nat (gs_theirs s) @ '' '' @ their_name s
      in if gs_draws s \<noteq> 0 then line @ MIDDOT @ drawsText (gs_draws s) else line)"

definition scoreLabel :: "game_score \<Rightarrow> string" where
  "scoreLabel s =
     (let parts = [''score you '' @ show_nat (gs_mine s), their_name s @ '' '' @ show_nat (gs_theirs s)]
      in join '', '' (if gs_draws s \<noteq> 0 then parts @ [drawsText (gs_draws s)] else parts))"

section \<open>Amounts, boards and cards\<close>

text \<open>\<open>Math.round\<close> is \<open>\<lfloor>x + 1/2\<rfloor>\<close>; amounts are exact.\<close>

definition math_round :: "rat \<Rightarrow> rat" where
  "math_round x = rat_of_int \<lfloor>x + 1 / 2\<rfloor>"

definition snapAmount :: "scene_amount \<Rightarrow> rat \<Rightarrow> rat" where
  "snapAmount am v =
     (if am_max am \<le> v then am_max am
      else if v \<le> am_min am then am_min am
      else min (am_max am) (am_min am + math_round ((v - am_min am) / am_step am) * am_step am))"

definition normalizeBoards :: "widget_scene \<Rightarrow> widget_board list" where
  "normalizeBoards sc =
     (case sc_boards sc of
        Some bs \<Rightarrow> bs
      | None \<Rightarrow> (case sc_board sc of
          Some l \<Rightarrow> [\<lparr>wb_id = ''main'', wb_layout = l, wb_seat = None, wb_tokens = sc_tokens sc, wb_marks = sc_marks sc\<rparr>]
        | None \<Rightarrow> []))"

record board_cell =
  bc_name :: string
  bc_x :: nat
  bc_y :: nat
  bc_dx :: nat
  bc_dy :: nat
  bc_dark :: bool

definition displayOf :: "board_layout \<Rightarrow> bool \<Rightarrow> nat \<Rightarrow> nat \<Rightarrow> nat \<times> nat" where
  "displayOf b flipped x y =
     (let w = length (bl_cols b); h = length (bl_rows b)
      in (if flipped then w - 1 - x else x,
          if bl_top b then (if flipped then h - 1 - y else y) else if flipped then y else h - 1 - y))"

definition cell_of :: "board_layout \<Rightarrow> bool \<Rightarrow> nat \<Rightarrow> nat \<Rightarrow> board_cell" where
  "cell_of b flipped x y =
     (case displayOf b flipped x y of (dx, dy) \<Rightarrow>
       \<lparr>bc_name = bl_cols b ! x @ bl_rows b ! y, bc_x = x, bc_y = y, bc_dx = dx, bc_dy = dy, bc_dark = (bl_checker b \<and> (x + y) mod 2 = 0)\<rparr>)"

definition grid_cells :: "board_layout \<Rightarrow> bool \<Rightarrow> board_cell list" where
  "grid_cells b flipped = concat (map (\<lambda>y. map (\<lambda>x. cell_of b flipped x y) [0..<length (bl_cols b)]) [0..<length (bl_rows b)])"

definition boardCells :: "board_layout \<Rightarrow> bool \<Rightarrow> board_cell list" where
  "boardCells b flipped = sort_key (\<lambda>c. (bc_dy c, bc_dx c)) (grid_cells b flipped)"

definition FAN_FROM :: nat where "FAN_FROM = 5"
definition TABLE_SPAN :: rat where "TABLE_SPAN = 54 / 10"

definition fanMargin :: "nat \<Rightarrow> rat option" where
  "fanMargin cards = (if FAN_FROM < cards then Some ((TABLE_SPAN - 1) / of_nat (cards - 1) - 1) else None)"

definition RANK_NAMES :: "(char \<times> string) list" where
  "RANK_NAMES = [(CHR ''A'', ''ace''), (CHR ''K'', ''king''), (CHR ''Q'', ''queen''), (CHR ''J'', ''jack''), (CHR ''T'', ''ten''), (CHR ''9'', ''nine''),
     (CHR ''8'', ''eight''), (CHR ''7'', ''seven''), (CHR ''6'', ''six''), (CHR ''5'', ''five''), (CHR ''4'', ''four''), (CHR ''3'', ''three''), (CHR ''2'', ''two'')]"

definition SUIT_NAMES :: "(char \<times> string) list" where
  "SUIT_NAMES = [(CHR ''c'', ''clubs''), (CHR ''d'', ''diamonds''), (CHR ''h'', ''hearts''), (CHR ''s'', ''spades'')]"

text \<open>\<open>/^([2-9TJQKA])([cdhs])$/\<close>: the classes are the keys of the two tables.\<close>

definition card_code :: "string \<Rightarrow> (char \<times> char) option" where
  "card_code code =
     (case code of
        [r, s] \<Rightarrow> if r \<in> set (map fst RANK_NAMES) \<and> s \<in> set (map fst SUIT_NAMES) then Some (r, s) else None
      | _ \<Rightarrow> None)"

definition parseCard :: "string \<Rightarrow> (string \<times> char) option" where
  "parseCard code = map_option (\<lambda>(r, s). (if r = CHR ''T'' then ''10'' else [r], s)) (card_code code)"

definition cardLabel :: "string option \<Rightarrow> string" where
  "cardLabel code =
     (case code of
        None \<Rightarrow> ''empty place''
      | Some c \<Rightarrow> (case card_code c of
          Some (r, s) \<Rightarrow> the (map_of RANK_NAMES r) @ '' of '' @ the (map_of SUIT_NAMES s)
        | None \<Rightarrow> ''face-down card''))"

definition PIECE_NAMES :: "(char \<times> string) list" where
  "PIECE_NAMES = [(CHR ''P'', ''pawn''), (CHR ''N'', ''knight''), (CHR ''B'', ''bishop''), (CHR ''R'', ''rook''), (CHR ''Q'', ''queen''), (CHR ''K'', ''king'')]"

definition parseChessSprite :: "string \<Rightarrow> (char \<times> char) option" where
  "parseChessSprite n =
     (if starts_with n ''chess.'' then case drop 6 n of
          [c, p] \<Rightarrow> if c \<in> {CHR ''w'', CHR ''b''} \<and> p \<in> set (map fst PIECE_NAMES) then Some (c, p) else None
        | _ \<Rightarrow> None
      else None)"

definition spriteLabel :: "string \<Rightarrow> string" where
  "spriteLabel n =
     (if n = ''notebook.ship'' then ''ship'' else if n = ''notebook.sunk'' then ''sunk ship''
      else case parseChessSprite n of
          Some (c, p) \<Rightarrow> (if c = CHR ''w'' then ''white'' else ''black'') @ '' '' @ (case map_of PIECE_NAMES p of Some l \<Rightarrow> l | None \<Rightarrow> ''piece'')
        | None \<Rightarrow> ''piece'')"

text \<open>\<open>slice(-tail)\<close> of no lines is the whole log.\<close>

definition logLine :: "string list option \<Rightarrow> nat \<Rightarrow> string" where
  "logLine lines kept =
     (case lines of
        Some (l # ls) \<Rightarrow> (if kept < length (l # ls) then [CHR 0x85] @ '' '' else []) @
          join '' '' (drop (if kept = 0 then 0 else length (l # ls) - kept) (l # ls))
      | _ \<Rightarrow> [])"

section \<open>A finished game stays off the list\<close>

text \<open>What the server says: \<open>E\<close> gives the revision at which a game is over, its last one, and \<open>H\<close> the chat of a game.\<close>

definition told_right :: "(string \<Rightarrow> nat option) \<Rightarrow> (string \<Rightarrow> string) \<Rightarrow> chat_widget \<Rightarrow> bool" where
  "told_right E H w =
     (cw_channel w = H (cw_id w) \<and>
      (case E (cw_id w) of None \<Rightarrow> cw_status w = WActive | Some k \<Rightarrow> cw_rev w \<le> k \<and> (cw_status w \<noteq> WActive) = (cw_rev w = k)))"

fun news_right :: "(string \<Rightarrow> nat option) \<Rightarrow> (string \<Rightarrow> string) \<Rightarrow> widget_cache \<Rightarrow> widget_news \<Rightarrow> bool" where
  "news_right E H c (ListAnswer ch listed) = list_all (\<lambda>w. told_right E H w \<and> cw_channel w = ch) listed"
| "news_right E H c (Told w) = told_right E H w"
| "news_right E H c (Acted w) = told_right E H w"
| "news_right E H c (WidgetAnswer w) = told_right E H w"

definition entries_right :: "(string \<Rightarrow> nat option) \<Rightarrow> (string \<Rightarrow> string) \<Rightarrow> widget_cache \<Rightarrow> bool" where
  "entries_right E H c = (\<forall>i e. wc_entry c i = Some e \<longrightarrow> cw_id e = i \<and> told_right E H e)"

definition list_right :: "(string \<Rightarrow> nat option) \<Rightarrow> (string \<Rightarrow> string) \<Rightarrow> string \<Rightarrow> chat_widget list option \<Rightarrow> bool" where
  "list_right E H ch l = (case l of Some ws \<Rightarrow> list_all (\<lambda>w. told_right E H w \<and> cw_channel w = ch \<and> cw_status w = WActive) ws | None \<Rightarrow> True)"

definition cache_right :: "(string \<Rightarrow> nat option) \<Rightarrow> (string \<Rightarrow> string) \<Rightarrow> widget_cache \<Rightarrow> bool" where
  "cache_right E H c = (entries_right E H c \<and> (\<forall>ch. list_right E H ch (wc_active c ch)))"

definition not_listed :: "string \<Rightarrow> chat_widget list option \<Rightarrow> bool" where
  "not_listed i l = (case l of Some ws \<Rightarrow> i \<notin> set (map cw_id ws) | None \<Rightarrow> True)"

definition holds_end :: "nat \<Rightarrow> string \<Rightarrow> widget_cache \<Rightarrow> bool" where
  "holds_end k i c = (\<exists>e. wc_entry c i = Some e \<and> cw_rev e = k \<and> cw_status e \<noteq> WActive)"

definition stays_off :: "nat \<Rightarrow> string \<Rightarrow> widget_cache \<Rightarrow> bool" where
  "stays_off k i c = (holds_end k i c \<and> (\<forall>ch. not_listed i (wc_active c ch)))"

lemma entries_right_lists [simp]: "entries_right E H (c\<lparr>wc_active := a\<rparr>) = entries_right E H c"
  by (simp add: entries_right_def)

lemma entry_rightD: "entries_right E H c \<Longrightarrow> wc_entry c i = Some e \<Longrightarrow> cw_id e = i \<and> told_right E H e"
  by (simp add: entries_right_def)

lemma entries_right_set: "entries_right E H c \<Longrightarrow> told_right E H w \<Longrightarrow> entries_right E H (c\<lparr>wc_entry := (wc_entry c)(cw_id w := Some w)\<rparr>)"
  by (simp add: entries_right_def)

lemma told_end: "told_right E H w \<Longrightarrow> E (cw_id w) = Some k \<Longrightarrow> cw_rev w \<le> k \<and> (cw_status w \<noteq> WActive) = (cw_rev w = k)"
  by (simp add: told_right_def)

lemma fresh_right:
  assumes "entries_right E H c" and "told_right E H w"
  shows "told_right E H (freshWidget c w) \<and> cw_id (freshWidget c w) = cw_id w \<and> cw_rev w \<le> cw_rev (freshWidget c w)"
  using assms entry_rightD [OF assms(1)] by (auto simp: freshWidget_def split: option.split)

lemma holds_end_set:
  assumes "holds_end k i c" and "told_right E H w" and "E i = Some k" and "\<not> known_newer (wc_entry c (cw_id w)) w"
  shows "holds_end k i (c\<lparr>wc_entry := (wc_entry c)(cw_id w := Some w)\<rparr>)"
  using assms told_end [OF assms(2)] by (cases "cw_id w = i") (auto simp: holds_end_def known_newer_def)

lemma fresh_over:
  assumes "holds_end k i c" and "told_right E H w" and "E i = Some k" and "cw_id w = i"
  shows "cw_status (freshWidget c w) \<noteq> WActive \<and> cw_rev (freshWidget c w) = k"
  using assms told_end [OF assms(2)] by (auto simp: holds_end_def freshWidget_def)

lemma find_in: "List.find P xs = Some x \<Longrightarrow> x \<in> set xs \<and> P x"
  by (auto simp: find_Some_iff)

lemma fold_active_right:
  assumes "list_right E H (cw_channel w) old" and "told_right E H w"
  shows "list_right E H (cw_channel w) (fold_active w old)"
  using assms by (auto simp: list_right_def fold_active_def without_widget_def Let_def list_all_iff split: option.splits)

lemma fold_active_off: "not_listed i old \<Longrightarrow> cw_id w = i \<longrightarrow> cw_status w \<noteq> WActive \<Longrightarrow> not_listed i (fold_active w old)"
  by (auto simp: not_listed_def fold_active_def without_widget_def Let_def split: option.splits)

lemma fold_active_removes:
  assumes "list_right E H ch old" and "told_right E H w" and "cw_status w \<noteq> WActive"
  shows "not_listed (cw_id w) (fold_active w old)"
proof -
  obtain k where k: "E (cw_id w) = Some k" "cw_rev w = k"
    using assms(2,3) by (auto simp: told_right_def split: option.splits)
  have "\<not> known_newer (case old of Some ws \<Rightarrow> List.find (\<lambda>q. cw_id q = cw_id w) ws | None \<Rightarrow> None) w"
  proof
    assume "known_newer (case old of Some ws \<Rightarrow> List.find (\<lambda>q. cw_id q = cw_id w) ws | None \<Rightarrow> None) w"
    then obtain ws q where q: "old = Some ws" "List.find (\<lambda>q. cw_id q = cw_id w) ws = Some q" "k < cw_rev q"
      using k by (auto simp: known_newer_def split: option.splits)
    then have "told_right E H q" "cw_id q = cw_id w" using assms(1) find_in [OF q(2)] by (auto simp: list_right_def list_all_iff)
    then show False using told_end [of E H q k] k q(3) by simp
  qed
  then show ?thesis using assms(3) by (auto simp: not_listed_def fold_active_def without_widget_def Let_def split: option.splits)
qed

section \<open>The steps keep it\<close>

lemma apply_right: "cache_right E H c \<Longrightarrow> told_right E H w \<Longrightarrow> cache_right E H (applyWidget w c)"
  by (auto simp: cache_right_def applyWidget_def entries_right_set fold_active_right intro: entries_right_set)

lemma apply_off:
  assumes "stays_off k i c" and "told_right E H w" and "E i = Some k"
  shows "stays_off k i (applyWidget w c)"
proof (cases "known_newer (wc_entry c (cw_id w)) w")
  case False
  have "holds_end k i (applyWidget w c)"
    using holds_end_set [OF _ assms(2,3) False] assms(1) False by (simp add: stays_off_def applyWidget_def holds_end_def)
  moreover have "cw_id w = i \<longrightarrow> cw_status w \<noteq> WActive"
    using assms False told_end [OF assms(2)] by (auto simp: stays_off_def holds_end_def known_newer_def)
  ultimately show ?thesis using assms(1) False by (simp add: stays_off_def applyWidget_def fold_active_off)
qed (simp add: applyWidget_def assms(1))

lemma fresh_active_right:
  assumes "entries_right E H c" and "list_all (\<lambda>w. told_right E H w \<and> cw_channel w = ch) listed" and "freshActiveWidgets listed c = (ws, c')"
  shows "entries_right E H c' \<and> wc_active c' = wc_active c \<and> list_right E H ch (Some ws)"
  using assms
proof (induction listed arbitrary: c ws)
  case (Cons w listed)
  let ?c = "if known_newer (wc_entry c (cw_id w)) w then c else c\<lparr>wc_entry := (wc_entry c)(cw_id w := Some w)\<rparr>"
  obtain vs where vs: "freshActiveWidgets listed ?c = (vs, c')" "ws = (if cw_status (freshWidget c w) = WActive then freshWidget c w # vs else vs)"
    using Cons.prems(3) by (auto simp: Let_def split: prod.splits)
  have "told_right E H w" "cw_channel w = ch" using Cons.prems(2) by simp_all
  moreover have fresh: "told_right E H (freshWidget c w)" "cw_id (freshWidget c w) = cw_id w"
    using fresh_right [OF Cons.prems(1) calculation(1)] by simp_all
  moreover have "cw_channel (freshWidget c w) = ch" using calculation(1,2) fresh unfolding told_right_def by metis
  moreover have "entries_right E H ?c" using Cons.prems(1) calculation(1) by (simp add: entries_right_set)
  ultimately show ?case using Cons.IH [OF _ _ vs(1)] Cons.prems(2) vs(2) by (auto simp: list_right_def)
qed (auto simp: list_right_def)

lemma fresh_active_off:
  assumes "entries_right E H c" and "list_all (told_right E H) listed" and "E i = Some k" and "holds_end k i c" and "freshActiveWidgets listed c = (ws, c')"
  shows "holds_end k i c' \<and> not_listed i (Some ws)"
  using assms
proof (induction listed arbitrary: c ws)
  case (Cons w listed)
  let ?c = "if known_newer (wc_entry c (cw_id w)) w then c else c\<lparr>wc_entry := (wc_entry c)(cw_id w := Some w)\<rparr>"
  obtain vs where vs: "freshActiveWidgets listed ?c = (vs, c')" "ws = (if cw_status (freshWidget c w) = WActive then freshWidget c w # vs else vs)"
    using Cons.prems(5) by (auto simp: Let_def split: prod.splits)
  have w: "told_right E H w" using Cons.prems(2) by simp
  have "entries_right E H ?c" "holds_end k i ?c"
    using Cons.prems(1,4) w holds_end_set [OF Cons.prems(4) w Cons.prems(3)] by (simp_all add: entries_right_set)
  then have "holds_end k i c' \<and> not_listed i (Some vs)" using Cons.IH [OF _ _ Cons.prems(3) _ vs(1)] Cons.prems(2) by simp
  moreover have "cw_id (freshWidget c w) = i \<longrightarrow> cw_status (freshWidget c w) \<noteq> WActive"
    using fresh_over [OF Cons.prems(4) w Cons.prems(3)] fresh_right [OF Cons.prems(1) w] by auto
  ultimately show ?case using vs(2) by (auto simp: not_listed_def)
qed (auto simp: not_listed_def)

lemma private_right: "cache_right E H c \<Longrightarrow> cache_right E H (told_private w c)"
  by (auto simp: cache_right_def told_private_def ask_again_def entries_right_def list_right_def without_widget_def Let_def list_all_iff split: option.splits)

lemma private_off: "stays_off k i c \<Longrightarrow> stays_off k i (told_private w c)"
  by (auto simp: stays_off_def holds_end_def told_private_def ask_again_def not_listed_def without_widget_def Let_def split: option.splits)

lemma asking_right [simp]: "cache_right E H (ask_again q c) = cache_right E H c"
  by (simp add: ask_again_def cache_right_def entries_right_def)

lemma asking_off [simp]: "stays_off k i (ask_again q c) = stays_off k i c"
  by (simp add: ask_again_def stays_off_def holds_end_def)

lemma news_step_right: "cache_right E H c \<Longrightarrow> news_right E H c n \<Longrightarrow> cache_right E H (news_step c n)"
proof (induction n)
  case (ListAnswer ch listed)
  obtain ws c' where f: "freshActiveWidgets listed c = (ws, c')" by fastforce
  with ListAnswer have "entries_right E H c' \<and> wc_active c' = wc_active c \<and> list_right E H ch (Some ws)"
    by (intro fresh_active_right) (auto simp: cache_right_def)
  with f ListAnswer show ?case by (simp add: cache_right_def entries_right_def)
next
  case (WidgetAnswer w)
  then have "entries_right E H c" "told_right E H w" by (simp_all add: cache_right_def)
  from fresh_right [OF this] WidgetAnswer show ?case by (simp add: cache_right_def entries_right_def)
qed (simp_all add: applyWidgetEvent_def Let_def apply_right private_right)

lemma news_step_off: "cache_right E H c \<Longrightarrow> stays_off k i c \<Longrightarrow> E i = Some k \<Longrightarrow> news_right E H c n \<Longrightarrow> stays_off k i (news_step c n)"
proof (induction n)
  case (ListAnswer ch listed)
  obtain ws c' where f: "freshActiveWidgets listed c = (ws, c')" by fastforce
  have told: "list_all (told_right E H) listed" using ListAnswer.prems(4) by (simp add: list_all_iff)
  have "holds_end k i c' \<and> not_listed i (Some ws)"
    using fresh_active_off [OF _ told ListAnswer.prems(3) _ f] ListAnswer.prems(1,2) by (simp add: cache_right_def stays_off_def)
  moreover have "wc_active c' = wc_active c" using fresh_active_right [OF _ _ f, of E H ch] ListAnswer.prems by (simp add: cache_right_def)
  ultimately show ?case using ListAnswer.prems(2) f by (simp add: stays_off_def holds_end_def)
next
  case (WidgetAnswer w)
  then have right: "entries_right E H c" "told_right E H w" "holds_end k i c" by (simp_all add: cache_right_def stays_off_def)
  have "holds_end k i (news_step c (WidgetAnswer w))"
    using fresh_over [OF right(3,2) WidgetAnswer.prems(3)] right(3) by (cases "cw_id w = i") (auto simp: holds_end_def)
  with WidgetAnswer show ?case by (simp add: stays_off_def)
next
  case (Told w)
  then show ?case by (auto simp: applyWidgetEvent_def Let_def intro: apply_off private_off)
next
  case (Acted w)
  then show ?case by (auto intro: apply_off)
qed

lemma end_told:
  assumes "cache_right E H c" and "told_right E H w" and "cw_status w \<noteq> WActive" and "\<not> cw_private w"
  shows "stays_off (cw_rev w) (cw_id w) (news_step c (Told w)) \<and> E (cw_id w) = Some (cw_rev w)"
proof -
  have k: "E (cw_id w) = Some (cw_rev w)" using assms(2,3) by (auto simp: told_right_def split: option.splits)
  have lists: "list_right E H ch (wc_active c ch)" for ch using assms(1) by (simp add: cache_right_def)
  have "cw_rev e \<le> cw_rev w" if "wc_entry c (cw_id w) = Some e" for e
    using entry_rightD [OF _ that, of E H] told_end [of E H e "cw_rev w"] assms(1) k by (simp add: cache_right_def)
  then have "\<not> known_newer (wc_entry c (cw_id w)) w" by (fastforce simp: known_newer_def split: option.splits)
  moreover have "not_listed (cw_id w) (fold_active w (wc_active c (cw_channel w)))" by (rule fold_active_removes [OF lists assms(2,3)])
  moreover have "not_listed (cw_id w) (wc_active c ch)" if "ch \<noteq> cw_channel w" for ch
    using lists [of ch] that assms(2) by (auto simp: not_listed_def list_right_def list_all_iff told_right_def split: option.splits)
  ultimately have "stays_off (cw_rev w) (cw_id w) (applyWidget w c')" if "wc_entry c' = wc_entry c" "wc_active c' = wc_active c" for c'
    using assms(3) that by (simp add: stays_off_def holds_end_def applyWidget_def)
  then show ?thesis using k assms(4) by (simp add: applyWidgetEvent_def ask_again_def Let_def)
qed

interpretation widget_news: guarded_system no_widgets news_step "news_right E H" "cache_right E H" for E H
  by unfold_locales (simp_all add: news_step_right, simp add: no_widgets_def cache_right_def entries_right_def list_right_def)

lemma obeys_append: "obeys G step s (es @ fs) = (obeys G step s es \<and> obeys G step (run step s es) fs)"
  by (induction es arbitrary: s) auto

lemma stays_off_run:
  "cache_right E H c \<Longrightarrow> stays_off k i c \<Longrightarrow> E i = Some k \<Longrightarrow> obeys (news_right E H) news_step c es \<Longrightarrow> stays_off k i (run news_step c es)"
  by (induction es arbitrary: c) (simp_all add: news_step_right news_step_off)

section \<open>The board\<close>

lemma sorted_unique: "sorted xs \<Longrightarrow> sorted ys \<Longrightarrow> mset xs = mset ys \<Longrightarrow> xs = (ys :: ('a :: linorder) list)"
  by (metis properties_for_sort)

lemma sort_key_is:
  assumes "mset ys = mset xs" and "sorted (map f ys)" and "inj_on f (set xs)"
  shows "sort_key f xs = ys"
proof -
  have "mset (map f (sort_key f xs)) = mset (map f ys)" using assms(1) by (metis mset_map mset_sort)
  then have "map f (sort_key f xs) = map f ys" using assms(2) by (intro sorted_unique) simp_all
  moreover have "set (sort_key f xs) \<union> set ys = set xs" using mset_eq_setD [OF assms(1)] by simp
  ultimately show ?thesis using assms(3) by (metis map_inj_on)
qed

definition grid :: "nat \<Rightarrow> nat \<Rightarrow> (nat \<times> nat) list" where
  "grid h w = List.product [0..<h] [0..<w]"

lemma set_grid [simp]: "set (grid h w) = {..<h} \<times> {..<w}"
  by (auto simp: grid_def)

lemma sorted_grid: "sorted (grid h w)"
proof (induction h)
  case (Suc h)
  have "grid (Suc h) w = grid h w @ map (Pair h) [0..<w]" by (simp add: grid_def product_concat_map)
  moreover have "sorted (map (Pair h) [0..<w])" by (simp add: sorted_map sorted_wrt_upt)
  ultimately show ?case using Suc by (auto simp: sorted_append)
qed (simp add: grid_def)

lemma distinct_grid: "distinct (grid h w)"
  by (simp add: grid_def distinct_product)

definition turned :: "nat \<Rightarrow> nat \<Rightarrow> nat \<times> nat \<Rightarrow> nat \<times> nat" where
  "turned h w p = (h - 1 - fst p, w - 1 - snd p)"

lemma permuted_grid:
  assumes "\<And>p. p \<in> set (grid h w) \<Longrightarrow> D p \<in> set (grid h w) \<and> D (D p) = p"
  shows "mset (map D (grid h w)) = mset (grid h w)"
proof -
  have "inj_on D (set (grid h w))" using assms by (metis inj_onI)
  moreover have "D ` set (grid h w) = set (grid h w)" using assms by (force simp del: set_grid)
  ultimately show ?thesis using distinct_grid [of h w] set_eq_iff_mset_eq_distinct [of "map D (grid h w)" "grid h w"]
    by (simp add: distinct_map del: set_grid)
qed

lemma turned_grid: "map (turned h w) (grid h w) = rev (grid h w)"
proof -
  have "sorted_wrt (\<lambda>p q. turned h w q \<le> turned h w p) (grid h w)"
    by (rule sorted_wrt_mono_rel [OF _ sorted_grid]) (auto simp: turned_def less_eq_prod_def)
  then have "sorted (rev (map (turned h w) (grid h w)))" by (simp add: sorted_wrt_rev sorted_wrt_map)
  moreover have "mset (rev (map (turned h w) (grid h w))) = mset (grid h w)"
    using permuted_grid [of h w "turned h w"] by (auto simp: turned_def)
  ultimately have "rev (map (turned h w) (grid h w)) = grid h w"
    by (intro sorted_unique sorted_grid) simp_all
  then show ?thesis by (metis rev_rev_ident)
qed

text \<open>Where the cell in row \<open>fst p\<close> and column \<open>snd p\<close> of the board shows, as row and column; the other way round it is the same.\<close>

definition shown_at :: "board_layout \<Rightarrow> bool \<Rightarrow> nat \<times> nat \<Rightarrow> nat \<times> nat" where
  "shown_at b flipped p = prod.swap (displayOf b flipped (snd p) (fst p))"

lemma shown_at_involution:
  "p \<in> set (grid (length (bl_rows b)) (length (bl_cols b))) \<Longrightarrow>
   shown_at b flipped p \<in> set (grid (length (bl_rows b)) (length (bl_cols b))) \<and> shown_at b flipped (shown_at b flipped p) = p"
  by (cases p) (auto simp: shown_at_def displayOf_def Let_def)

lemma shown_twice:
  "map (\<lambda>p. shown_at b flipped (shown_at b flipped p)) (grid (length (bl_rows b)) (length (bl_cols b))) = grid (length (bl_rows b)) (length (bl_cols b))"
  using shown_at_involution by (intro map_idI) blast

lemma shown_at_turned:
  "p \<in> set (grid (length (bl_rows b)) (length (bl_cols b))) \<Longrightarrow>
   shown_at b True p = shown_at b False (turned (length (bl_rows b)) (length (bl_cols b)) p)"
  by (cases p) (auto simp: shown_at_def turned_def displayOf_def Let_def)

lemma boardCells_is:
  "boardCells b flipped = map (\<lambda>p. cell_of b flipped (snd (shown_at b flipped p)) (fst (shown_at b flipped p))) (grid (length (bl_rows b)) (length (bl_cols b)))"
proof -
  let ?P = "grid (length (bl_rows b)) (length (bl_cols b))" and ?D = "shown_at b flipped"
  have cells: "grid_cells b flipped = map (\<lambda>p. cell_of b flipped (snd p) (fst p)) ?P"
    by (simp add: grid_cells_def grid_def product_concat_map map_concat comp_def)
  have place: "(bc_dy (cell_of b flipped x y), bc_dx (cell_of b flipped x y)) = ?D (y, x)" for x y
    by (simp add: cell_of_def shown_at_def split: prod.split)
  have "inj_on ?D (set ?P)" using shown_at_involution [of _ b flipped] by (metis inj_onI)
  then have "inj_on ((\<lambda>c. (bc_dy c, bc_dx c)) \<circ> (\<lambda>p. cell_of b flipped (snd p) (fst p))) (set ?P)"
    by (simp add: comp_def place del: set_grid)
  then have inj: "inj_on (\<lambda>c. (bc_dy c, bc_dx c)) (set (grid_cells b flipped))"
    unfolding cells set_map by (rule inj_on_imageI)
  note shown_twice [of b flipped]
  then have "sorted (map (\<lambda>c. (bc_dy c, bc_dx c)) (map (\<lambda>p. cell_of b flipped (snd (?D p)) (fst (?D p))) ?P))"
    using sorted_grid by (simp add: place comp_def)
  moreover have "mset (map (\<lambda>p. cell_of b flipped (snd (?D p)) (fst (?D p))) ?P) = mset (grid_cells b flipped)"
  proof -
    have "mset (map ?D ?P) = mset ?P" by (rule permuted_grid [OF shown_at_involution])
    then have "image_mset (\<lambda>p. cell_of b flipped (snd p) (fst p)) (mset (map ?D ?P)) = image_mset (\<lambda>p. cell_of b flipped (snd p) (fst p)) (mset ?P)" by simp
    then show ?thesis unfolding cells by (simp add: image_mset.compositionality comp_def)
  qed
  ultimately show ?thesis unfolding boardCells_def by (intro sort_key_is [OF _ _ inj])
qed

section \<open>Amounts\<close>

lemma round_nearest: "\<bar>math_round x - x\<bar> \<le> \<bar>rat_of_int k - x\<bar>"
proof -
  define n where "n = \<lfloor>x + 1 / 2\<rfloor>"
  have n: "rat_of_int n \<le> x + 1 / 2" "x + 1 / 2 < rat_of_int n + 1" unfolding n_def by linarith+
  consider "k = n" | "rat_of_int k \<le> rat_of_int n - 1" | "rat_of_int n + 1 \<le> rat_of_int k" by linarith
  then show ?thesis unfolding math_round_def n_def [symmetric] using n by cases auto
qed

section \<open>Properties\<close>

text \<open>C37: A finished game never comes back to the list. Once the end of a public game is told, no list of running games shows it, in
  whatever order slow answers, late events and the answers to actions arrive, and the cache keeps its last revision.\<close>

theorem finished_game_stays_off:
  assumes "obeys (news_right E H) news_step no_widgets (es @ Told w # fs)" and "cw_status w \<noteq> WActive" and "\<not> cw_private w"
  shows "not_listed (cw_id w) (wc_active (run news_step no_widgets (es @ Told w # fs)) ch) \<and>
    (\<exists>e. wc_entry (run news_step no_widgets (es @ Told w # fs)) (cw_id w) = Some e \<and> cw_rev e = cw_rev w \<and> cw_status e \<noteq> WActive)"
proof -
  let ?c = "run news_step no_widgets es"
  have "obeys (news_right E H) news_step no_widgets es" and w: "told_right E H w"
      and fs: "obeys (news_right E H) news_step (news_step ?c (Told w)) fs"
    using assms(1) by (simp_all add: obeys_append)
  then have right: "cache_right E H ?c" by (intro widget_news.good_disciplined_run)
  have "cache_right E H (news_step ?c (Told w))" using news_step_right [OF right, of "Told w"] w by simp
  then have "stays_off (cw_rev w) (cw_id w) (run news_step no_widgets (es @ Told w # fs))"
    using stays_off_run [OF _ _ _ fs] end_told [OF right w assms(2,3)] by simp
  then show ?thesis by (simp add: stays_off_def holds_end_def)
qed

definition empty_scene :: widget_scene where
  "empty_scene = \<lparr>sc_title = None, sc_board = None, sc_tokens = None, sc_marks = None, sc_boards = None, sc_table = False, sc_status = None, sc_log = None\<rparr>"

definition demo_widget :: "bool \<Rightarrow> nat \<Rightarrow> widget_status \<Rightarrow> chat_widget" where
  "demo_widget hidden r s = \<lparr>cw_id = ''g'', cw_channel = ''ch'', cw_kind = ''chess'', cw_status = s, cw_rev = r, cw_turn = None, cw_waiting = None,
     cw_seats = [], cw_scene = empty_scene, cw_private = hidden, cw_outcome = JNull, cw_draws = None\<rparr>"

theorem finished_game_stays_off_witness:
  "not_listed ''g'' (wc_active (run news_step no_widgets
     ([Acted (demo_widget False 1 WActive)] @ Told (demo_widget False 2 WFinished) # [ListAnswer ''ch'' [demo_widget False 1 WActive]])) ''ch'')"
proof -
  have "obeys (news_right (\<lambda>i. Some 2) (\<lambda>i. ''ch'')) news_step no_widgets
      ([Acted (demo_widget False 1 WActive)] @ Told (demo_widget False 2 WFinished) # [ListAnswer ''ch'' [demo_widget False 1 WActive]])"
    by (simp add: told_right_def demo_widget_def)
  from finished_game_stays_off [OF this] show ?thesis by (simp add: demo_widget_def)
qed

text \<open>The end of a private game is not kept, so a slow answer brings the game back, and the answer that tells its end leaves it
  in the list.\<close>

theorem private_game_returns:
  "\<not> not_listed ''g'' (wc_active (run news_step no_widgets
     [Acted (demo_widget True 1 WActive), Told (demo_widget True 2 WFinished), ListAnswer ''ch'' [demo_widget True 1 WActive],
      WidgetAnswer (demo_widget True 2 WFinished)]) ''ch'')"
  by code_simp

text \<open>C38: A board fills its grid. Its cells come row by row from the top left, one for each place, each named by its own column and row,
  and the board flipped for the other seat is the same one turned around.\<close>

theorem board_fills_its_grid:
  "map (\<lambda>c. (bc_dy c, bc_dx c)) (boardCells b flipped) = List.product [0..<length (bl_rows b)] [0..<length (bl_cols b)] \<and>
   mset (map bc_name (boardCells b flipped)) = mset (map (\<lambda>(y, x). bl_cols b ! x @ bl_rows b ! y) (List.product [0..<length (bl_rows b)] [0..<length (bl_cols b)])) \<and>
   map bc_name (boardCells b True) = rev (map bc_name (boardCells b False))"
proof -
  let ?P = "grid (length (bl_rows b)) (length (bl_cols b))" and ?N = "\<lambda>p. bl_cols b ! snd p @ bl_rows b ! fst p"
  have name: "bc_name (cell_of b f x y) = ?N (y, x)" for f x y by (simp add: cell_of_def split: prod.split)
  have place: "(bc_dy (cell_of b f x y), bc_dx (cell_of b f x y)) = shown_at b f (y, x)" for f x y
    by (simp add: cell_of_def shown_at_def split: prod.split)
  have names: "map bc_name (boardCells b f) = map ?N (map (shown_at b f) ?P)" for f
    by (simp add: boardCells_is name)
  have "map (\<lambda>c. (bc_dy c, bc_dx c)) (boardCells b flipped) = ?P" using shown_twice [of b flipped] by (simp add: boardCells_is place comp_def)
  moreover have "mset (map bc_name (boardCells b flipped)) = mset (map ?N ?P)"
    unfolding names mset_map [of ?N] by (simp only: permuted_grid [OF shown_at_involution])
  moreover have "map (shown_at b True) ?P = map (shown_at b False) (map (turned (length (bl_rows b)) (length (bl_cols b))) ?P)"
    by (simp add: shown_at_turned del: set_grid)
  then have "map bc_name (boardCells b True) = rev (map bc_name (boardCells b False))"
    unfolding names turned_grid by (simp add: rev_map)
  ultimately show ?thesis by (simp add: grid_def split_beta')
qed

text \<open>An amount snaps to the nearest step. What is sent is within the bounds, and for a value within them no step from the least
  amount is nearer.\<close>

theorem snap_is_nearest:
  assumes "am_min am \<le> am_max am" and "0 < am_step am"
  shows "am_min am \<le> snapAmount am v \<and> snapAmount am v \<le> am_max am \<and>
    (am_min am \<le> v \<and> v \<le> am_max am \<longrightarrow> \<bar>snapAmount am v - v\<bar> \<le> \<bar>am_min am + of_int k * am_step am - v\<bar>)"
proof (cases "am_max am \<le> v \<or> v \<le> am_min am")
  case False
  let ?x = "(v - am_min am) / am_step am" and ?g = "\<lambda>r. am_min am + r * am_step am"
  have near: "\<bar>?g (math_round ?x) - v\<bar> \<le> \<bar>?g (of_int k) - v\<bar>" for k
  proof -
    have "?g r - v = (r - ?x) * am_step am" for r using assms(2) by (simp add: field_simps)
    then have "\<bar>?g r - v\<bar> = \<bar>r - ?x\<bar> * am_step am" for r using assms(2) by (simp add: abs_mult)
    then show ?thesis using round_nearest [of ?x k] assms(2) by (simp add: mult_right_mono)
  qed
  have "0 \<le> ?x" using False assms(2) by simp
  then have "0 \<le> math_round ?x" by (simp add: math_round_def)
  then have "am_min am \<le> ?g (math_round ?x)" using assms(2) by simp
  then show ?thesis using near [of k] False assms(1) by (auto simp: snapAmount_def min_def)
qed (use assms in \<open>auto simp: snapAmount_def\<close>)

theorem snap_is_nearest_witness:
  "snapAmount \<lparr>am_min = 2, am_max = 9, am_step = 5\<rparr> 8 = 7 \<and> \<bar>(7::rat) - 8\<bar> \<le> \<bar>2 + of_int 2 * 5 - 8\<bar>"
proof -
  have "snapAmount \<lparr>am_min = 2, am_max = 9, am_step = 5\<rparr> 8 = 7" by code_simp
  then show ?thesis using snap_is_nearest [of "\<lparr>am_min = 2, am_max = 9, am_step = 5\<rparr>" 8 2] by simp
qed

end
