(* ===== verification/Web_Automations.thy ===== *)
theory Web_Automations
  imports Chat_Widgets "HOL-Library.Word"
begin

text \<open>
  The automations form of the web client (\<open>frontend/src/lib/schedule.ts\<close>, \<open>automations.ts\<close>): schedules and their stored form, intervals and
  units, the specification an edit stores, and the state an automation shows. \<open>Date.parse\<close>, \<open>toISOString\<close>, the time zone of the
  browser and the library that reads cron expressions aloud are parameters. Milliseconds are exact numbers; \<open>math_round\<close> is that of
  \<open>Chat_Widgets\<close>.
\<close>

section \<open>Schedules\<close>

datatype schedule =
    EverySchedule rat
  | CronSchedule string "string option"
  | AtSchedule rat

definition digits_of :: "string \<Rightarrow> bool" where
  "digits_of s = (s \<noteq> [] \<and> list_all is_digit s)"

definition parseAtValue :: "(string \<Rightarrow> rat option) \<Rightarrow> jsval \<Rightarrow> rat option" where
  "parseAtValue parse_date raw =
     (case raw of
        JNum n \<Rightarrow> as_finite raw
      | JStr s \<Rightarrow> (let t = trim s in if t = [] then None else if digits_of t then Some (of_nat (nat_of_digits t)) else parse_date t)
      | _ \<Rightarrow> None)"

definition nonempty :: "string option \<Rightarrow> string option" where
  "nonempty s = (case s of Some (c # cs) \<Rightarrow> Some (c # cs) | _ \<Rightarrow> None)"

definition parseSchedule :: "(string \<Rightarrow> rat option) \<Rightarrow> jsval \<Rightarrow> schedule option" where
  "parseSchedule parse_date s =
     (if \<not> typeof_object s \<or> \<not> truthy s then None
      else case (jget s ''kind'', as_finite (jget s ''everyMs''), as_str (jget s ''expr'')) of
        (JStr k, every, expr) \<Rightarrow>
          (if k = ''every'' \<and> (case every of Some q \<Rightarrow> 0 < q | None \<Rightarrow> False) then map_option EverySchedule every
           else if k = ''cron'' \<and> (case expr of Some e \<Rightarrow> trim e \<noteq> [] | None \<Rightarrow> False)
           then map_option (\<lambda>e. CronSchedule (trim e) (nonempty (as_str (jget s ''tz'')))) expr
           else if k = ''at'' then map_option AtSchedule (parseAtValue parse_date (jget s ''at''))
           else None)
      | _ \<Rightarrow> None)"

fun scheduleToSpec :: "(rat \<Rightarrow> string) \<Rightarrow> schedule \<Rightarrow> jsval" where
  "scheduleToSpec to_iso (EverySchedule q) = JObj [(''kind'', JStr ''every''), (''everyMs'', JNum (Fin q))]"
| "scheduleToSpec to_iso (CronSchedule e tz) =
     JObj ([(''kind'', JStr ''cron''), (''expr'', JStr e)] @ (case nonempty tz of Some z \<Rightarrow> [(''tz'', JStr z)] | None \<Rightarrow> []))"
| "scheduleToSpec to_iso (AtSchedule t) = JObj [(''kind'', JStr ''at''), (''at'', JStr (to_iso t))]"

text \<open>\<open>x % y === 0\<close> for a positive \<open>y\<close>.\<close>

definition rat_divides :: "rat \<Rightarrow> rat \<Rightarrow> bool" where
  "rat_divides y x = (rat_of_int \<lfloor>x / y\<rfloor> = x / y)"

definition MINUTE_MS :: rat where "MINUTE_MS = 60 * 1000"
definition HOUR_MS :: rat where "HOUR_MS = 60 * MINUTE_MS"
definition DAY_MS :: rat where "DAY_MS = 24 * HOUR_MS"
definition WEEK_MS :: rat where "WEEK_MS = 7 * DAY_MS"

definition counted :: "rat \<Rightarrow> string \<Rightarrow> string \<Rightarrow> string" where
  "counted n one many = (if n = 1 then one else show_int \<lfloor>n\<rfloor> @ '' '' @ many)"

definition humanizeEvery :: "rat \<Rightarrow> string" where
  "humanizeEvery ms =
     (if ms < 60000 then counted (max 1 (math_round (ms / 1000))) ''second'' ''sec''
      else if rat_divides WEEK_MS ms then counted (ms / WEEK_MS) ''week'' ''weeks''
      else if rat_divides DAY_MS ms then counted (ms / DAY_MS) ''day'' ''days''
      else if rat_divides HOUR_MS ms then counted (ms / HOUR_MS) ''hour'' ''hours''
      else counted (math_round (ms / MINUTE_MS)) ''minute'' ''min'')"

definition describeSchedule :: "(string \<Rightarrow> string option) \<Rightarrow> string \<Rightarrow> (rat \<Rightarrow> string) \<Rightarrow> schedule option \<Rightarrow> string" where
  "describeSchedule cronstrue local_tz formatInstant s =
     (case s of
        None \<Rightarrow> ''No schedule''
      | Some (EverySchedule q) \<Rightarrow> ''Every '' @ humanizeEvery q
      | Some (CronSchedule e tz) \<Rightarrow>
          (let base = (case if trim e = [] then None else cronstrue (trim e) of Some t \<Rightarrow> t | None \<Rightarrow> e)
           in case nonempty tz of Some z \<Rightarrow> if z \<noteq> local_tz then base @ '' ('' @ z @ '')'' else base | None \<Rightarrow> base)
      | Some (AtSchedule t) \<Rightarrow> ''Once on '' @ formatInstant t)"

section \<open>Intervals\<close>

definition SCHEDULE_UNITS :: "(string \<times> rat) list" where
  "SCHEDULE_UNITS = [(''minutes'', MINUTE_MS), (''hours'', HOUR_MS), (''days'', DAY_MS), (''weeks'', WEEK_MS)]"

definition intervalToMs :: "rat \<Rightarrow> string \<Rightarrow> rat" where
  "intervalToMs v u = max MINUTE_MS (math_round v * (case map_of SCHEDULE_UNITS u of Some ms \<Rightarrow> ms | None \<Rightarrow> DAY_MS))"

definition decomposeInterval :: "rat \<Rightarrow> rat \<times> string" where
  "decomposeInterval ms =
     (case List.find (\<lambda>u. rat_divides (snd u) ms) (rev SCHEDULE_UNITS) of
        Some (u, unit_ms) \<Rightarrow> (ms / unit_ms, u)
      | None \<Rightarrow> (max 1 (math_round (ms / MINUTE_MS)), ''minutes''))"

definition formatTimeLimit :: "nat \<Rightarrow> string" where
  "formatTimeLimit seconds =
     (let (n, u) = (if seconds mod 3600 = 0 then (seconds div 3600, ''hour'') else if seconds mod 60 = 0 then (seconds div 60, ''minute'') else (seconds, ''second''))
      in show_nat n @ '' '' @ u @ (if n = 1 then [] else ''s''))"

section \<open>Runtimes\<close>

definition AUTOMATION_INCAPABLE_RUNTIMES :: "string list" where "AUTOMATION_INCAPABLE_RUNTIMES = [''ironclaw'']"
definition HERMES_AUTOMATIONS_MIN_VERSION :: "nat \<times> nat \<times> nat" where "HERMES_AUTOMATIONS_MIN_VERSION = (0, 7, 0)"

text \<open>\<open>/^(\d+)\.(\d+)\.(\d+)/\<close>: no digit is a dot, so the greedy runs are the only ones.\<close>

definition lead_number :: "string \<Rightarrow> (nat \<times> string) option" where
  "lead_number s = (if takeWhile is_digit s = [] then None else Some (nat_of_digits (takeWhile is_digit s), dropWhile is_digit s))"

definition after_dot :: "string \<Rightarrow> (nat \<times> string) option" where
  "after_dot s = (case s of c # r \<Rightarrow> if c = CHR ''.'' then lead_number r else None | [] \<Rightarrow> None)"

definition sem_ver :: "string \<Rightarrow> (nat \<times> nat \<times> nat) option" where
  "sem_ver s = (case lead_number s of None \<Rightarrow> None | Some (a, r) \<Rightarrow>
     (case after_dot r of None \<Rightarrow> None | Some (b, r') \<Rightarrow> (case after_dot r' of None \<Rightarrow> None | Some (c, r'') \<Rightarrow> Some (a, b, c))))"

definition isBelowVersion :: "string option \<Rightarrow> nat \<times> nat \<times> nat \<Rightarrow> bool option" where
  "isBelowVersion reported least =
     (case (sem_ver (trim (case reported of Some r \<Rightarrow> r | None \<Rightarrow> [])), least) of
        (Some (a, b, c), (x, y, z)) \<Rightarrow> Some (if a \<noteq> x then a < x else if b \<noteq> y then b < y else c < z)
      | (None, _) \<Rightarrow> None)"

definition supportsAutomations :: "string option \<Rightarrow> string option \<Rightarrow> bool" where
  "supportsAutomations agentType version =
     (if (case agentType of Some t \<Rightarrow> t | None \<Rightarrow> []) \<in> set AUTOMATION_INCAPABLE_RUNTIMES then False
      else if agentType = Some ''hermes'' then isBelowVersion version HERMES_AUTOMATIONS_MIN_VERSION \<noteq> Some True
      else True)"

section \<open>The stored specification\<close>

record spec_form =
  sf_name :: string
  sf_prompt :: string
  sf_schedule :: schedule
  sf_channel :: "string option"
  sf_timeout :: "rat option"
  sf_base :: "(string, jsval) jsmap option"

definition spread_spec :: "(string, jsval) jsmap \<Rightarrow> (string, jsval) jsmap \<Rightarrow> (string, jsval) jsmap" where
  "spread_spec m entries = foldl (\<lambda>m (k, v). mset_key k v m) m entries"

definition set_when :: "string \<Rightarrow> jsval option \<Rightarrow> (string, jsval) jsmap \<Rightarrow> (string, jsval) jsmap" where
  "set_when k v m = (case v of Some x \<Rightarrow> mset_key k x m | None \<Rightarrow> m)"

definition set_or_delete :: "string \<Rightarrow> jsval option \<Rightarrow> (string, jsval) jsmap \<Rightarrow> (string, jsval) jsmap" where
  "set_or_delete k v m = (case v of Some x \<Rightarrow> mset_key k x m | None \<Rightarrow> mdel k m)"

definition base_payload :: "(string, jsval) jsmap \<Rightarrow> (string, jsval) jsmap" where
  "base_payload base = (case mget base ''payload'' of Some (JObj ps) \<Rightarrow> ps | Some (JArr vs) \<Rightarrow> zip (map show_nat [0..<length vs]) vs | _ \<Rightarrow> [])"

definition is_at :: "schedule \<Rightarrow> bool" where
  "is_at s = (case s of AtSchedule t \<Rightarrow> True | _ \<Rightarrow> False)"

definition spec_payload :: "spec_form \<Rightarrow> (string, jsval) jsmap \<Rightarrow> (string, jsval) jsmap" where
  "spec_payload I base =
     set_when ''timeoutSeconds'' (map_option (\<lambda>q. JNum (Fin q)) (sf_timeout I))
       (mset_key ''message'' (JStr (trim (sf_prompt I))) (spread_spec [(''kind'', JStr ''agentTurn'')] (base_payload base)))"

definition delivery_of :: "string option \<Rightarrow> jsval option" where
  "delivery_of ch = map_option (\<lambda>c. JObj [(''mode'', JStr ''announce''), (''to'', JStr c)]) (nonempty ch)"

definition buildDesiredSpec :: "(rat \<Rightarrow> string) \<Rightarrow> spec_form \<Rightarrow> (string, jsval) jsmap" where
  "buildDesiredSpec to_iso I =
     (let base = (case sf_base I of Some b \<Rightarrow> b | None \<Rightarrow> []);
          s0 = spread_spec [(''sessionTarget'', JStr ''isolated''), (''wakeMode'', JStr ''next-heartbeat''), (''enabled'', JBool True)] base;
          s1 = mset_key ''payload'' (JObj (spec_payload I base))
             (mset_key ''schedule'' (scheduleToSpec to_iso (sf_schedule I)) (mset_key ''name'' (JStr (trim (sf_name I))) s0))
      in set_or_delete ''deleteAfterRun'' (if is_at (sf_schedule I) then Some (JBool True) else None)
           (set_or_delete ''delivery'' (delivery_of (sf_channel I)) s1))"

definition withEnabled :: "(string, jsval) jsmap \<Rightarrow> bool \<Rightarrow> (string, jsval) jsmap" where
  "withEnabled spec on = mset_key ''enabled'' (JBool on) spec"

section \<open>The state an automation shows\<close>

record web_automation =
  au_id :: string
  au_external :: bool
  au_sync :: string
  au_error :: "string option"
  au_enabled :: "bool option"
  au_missing :: bool
  au_state :: jsval

datatype visual_key = VExternal | VRemoving | VFailed | VPending | VPaused | VRunning | VActive

record visual_state =
  vs_key :: visual_key
  vs_tone :: string
  vs_label :: string
  vs_detail :: "string option"
  vs_drifted :: bool
  vs_streak :: rat
  vs_last_error :: "string option"
  vs_failing :: bool
  vs_attention :: bool

definition FAIL_STREAK_ATTENTION :: rat where "FAIL_STREAK_ATTENTION = 2"
definition RUNNING_FRESH_MS :: rat where "RUNNING_FRESH_MS = 10 * 60 * 1000"

definition isErrorRunStatus :: "string option \<Rightarrow> bool" where
  "isErrorRunStatus s = (lower (case s of Some t \<Rightarrow> t | None \<Rightarrow> []) \<in> {''error'', ''failed'', ''failure''})"

definition fail_streak :: "web_automation \<Rightarrow> rat" where
  "fail_streak a =
     (if isErrorRunStatus (as_str (jget (au_state a) ''lastRunStatus''))
      then max 1 (case as_finite (jget (au_state a) ''consecutiveErrors'') of Some q \<Rightarrow> q | None \<Rightarrow> 1) else 0)"

definition last_error :: "web_automation \<Rightarrow> string option" where
  "last_error a =
     (if isErrorRunStatus (as_str (jget (au_state a) ''lastRunStatus''))
      then nonempty (map_option trim (as_str (jget (au_state a) ''lastError''))) else None)"

definition running_now :: "rat \<Rightarrow> web_automation \<Rightarrow> bool" where
  "running_now now a =
     (case as_finite (jget (au_state a) ''runningAtMs'') of
        None \<Rightarrow> False
      | Some at_ms \<Rightarrow> now - at_ms < RUNNING_FRESH_MS \<and>
          (case as_finite (jget (au_state a) ''lastRunAtMs'') of None \<Rightarrow> True | Some l \<Rightarrow> l < at_ms))"

definition STATE_ELLIPSIS :: string where "STATE_ELLIPSIS = [CHR 0x85]"

definition automationVisualState :: "web_automation \<Rightarrow> bool \<Rightarrow> string \<Rightarrow> rat \<Rightarrow> visual_state" where
  "automationVisualState a available agentName now =
     (let failing = (FAIL_STREAK_ATTENTION \<le> fail_streak a);
          state = (\<lambda>k tone label detail attention. \<lparr>vs_key = k, vs_tone = tone, vs_label = label, vs_detail = detail, vs_drifted = au_missing a,
            vs_streak = fail_streak a, vs_last_error = last_error a, vs_failing = failing, vs_attention = attention\<rparr>)
      in if au_external a then state VExternal ''idle'' ''Mirror'' None failing
         else if au_sync a = ''removing'' then state VRemoving ''idle'' (''Removing'' @ STATE_ELLIPSIS) None False
         else if au_sync a = ''failed'' then state VFailed ''bad'' ''Sync failed'' (au_error a) True
         else if au_sync a = ''requested''
         then (if available then state VPending ''warn'' (''Applying'' @ STATE_ELLIPSIS) None False
               else state VPending ''warn'' ''Pending'' (Some (''Will apply when '' @ agentName @ '' reconnects'')) False)
         else if au_enabled a = Some False then state VPaused ''idle'' ''Paused'' None (au_missing a \<or> failing)
         else if running_now now a then state VRunning ''info'' ''Running now'' None (au_missing a \<or> failing)
         else state VActive ''ok'' ''Active'' None (au_missing a \<or> failing))"

definition ACCENT_ORDER :: "string list" where "ACCENT_ORDER = [''blue'', ''violet'', ''teal'']"

text \<open>\<open>| 0\<close> keeps the low 32 bits; \<open>Math.abs\<close> is of the signed number, and exact.\<close>

definition accent_hash :: "string \<Rightarrow> 32 word" where
  "accent_hash s = foldl (\<lambda>h c. h * 31 + of_nat (of_char c)) 0 s"

definition accentForId :: "string \<Rightarrow> string" where
  "accentForId s = ACCENT_ORDER ! (nat \<bar>sint (accent_hash s)\<bar> mod 3)"

definition automationAccent :: "web_automation \<Rightarrow> string option" where
  "automationAccent a = (if au_external a then None else Some (accentForId (au_id a)))"

section \<open>What is stored is read back\<close>

definition good_schedule :: "schedule \<Rightarrow> bool" where
  "good_schedule s = (case s of EverySchedule q \<Rightarrow> 0 < q | CronSchedule e tz \<Rightarrow> trim e = e \<and> e \<noteq> [] \<and> tz \<noteq> Some [] | AtSchedule t \<Rightarrow> True)"

text \<open>A good schedule is read back from its stored form, for any \<open>Date.parse\<close> that reads what \<open>toISOString\<close> writes.\<close>

theorem schedule_reads_back:
  assumes "good_schedule s" and "\<And>t. parse_date (to_iso t) = Some t" and "\<And>t. trim (to_iso t) = to_iso t \<and> to_iso t \<noteq> [] \<and> \<not> digits_of (to_iso t)"
  shows "parseSchedule parse_date (scheduleToSpec to_iso s) = Some s"
proof (cases s)
  case (CronSchedule e tz)
  then show ?thesis using assms(1)
    by (auto simp: parseSchedule_def good_schedule_def nonempty_def split: option.split list.split)
qed (use assms in \<open>simp_all add: parseSchedule_def good_schedule_def parseAtValue_def\<close>)

lemma math_round_int: "math_round (of_int z) = of_int z"
  by (simp add: math_round_def floor_eq_iff)

text \<open>The form shows an interval of whole minutes in a unit that gives the same interval back.\<close>

theorem interval_reads_back:
  assumes "rat_divides MINUTE_MS ms" and "MINUTE_MS \<le> ms" and "decomposeInterval ms = (v, u)"
  shows "intervalToMs v u = ms"
proof -
  obtain e where e: "List.find (\<lambda>u. rat_divides (snd u) ms) (rev SCHEDULE_UNITS) = Some e"
  proof -
    have "List.find (\<lambda>u. rat_divides (snd u) ms) (rev SCHEDULE_UNITS) \<noteq> None"
      using assms(1) unfolding find_None_iff by (auto simp: SCHEDULE_UNITS_def)
    then show ?thesis using that by blast
  qed
  then have unit: "e \<in> set SCHEDULE_UNITS" "rat_divides (snd e) ms" by (auto simp: find_Some_iff SCHEDULE_UNITS_def nth_Cons' split: if_splits)
  have vu: "v = ms / snd e" "u = fst e" using assms(3) e by (auto simp: decomposeInterval_def split: prod.splits)
  have "map_of SCHEDULE_UNITS u = Some (snd e)" using unit(1) vu(2) by (auto simp: SCHEDULE_UNITS_def)
  moreover have "math_round v = v" using unit(2) vu(1) unfolding rat_divides_def by (metis math_round_int)
  moreover have "snd e \<noteq> 0" using unit(1) by (auto simp: SCHEDULE_UNITS_def MINUTE_MS_def HOUR_MS_def DAY_MS_def WEEK_MS_def)
  ultimately show ?thesis using assms(2) vu(1) by (simp add: intervalToMs_def)
qed

section \<open>An edit keeps what the form does not author\<close>

lemma mget_spread: "distinct (mkeys entries) \<Longrightarrow> mget (spread_spec m entries) k = (case mget entries k of Some v \<Rightarrow> Some v | None \<Rightarrow> mget m k)"
proof (induction entries arbitrary: m)
  case (Cons e es)
  obtain a v where e: "e = (a, v)" by fastforce
  have "mget es a = None" using Cons.prems e by (simp add: mget_None_iff mkeys_def)
  then show ?case using Cons.IH [of "mset_key a v m"] Cons.prems e by (auto simp: spread_spec_def mkeys_def split: option.split)
qed (simp add: spread_spec_def)

lemma mget_set_or_delete [simp]: "mget (set_or_delete k v m) k' = (if k' = k then v else mget m k')"
  by (simp add: set_or_delete_def split: option.split)

definition AUTHORED :: "string set" where
  "AUTHORED = {''name'', ''schedule'', ''payload'', ''delivery'', ''deleteAfterRun''}"

text \<open>Every field of the stored specification that the form does not author is what it was, and so is every such field of its payload.\<close>

theorem edit_keeps_the_rest:
  assumes "sf_base I = Some base" and "distinct (mkeys base)" and "mget base ''payload'' = Some (JObj ps)" and "distinct (mkeys ps)"
    and "k \<notin> AUTHORED" and "mget base k = Some v" and "k' \<notin> {''message'', ''timeoutSeconds''}" and "mget ps k' = Some v'"
  shows "mget (buildDesiredSpec to_iso I) k = Some v \<and>
    (\<exists>qs. mget (buildDesiredSpec to_iso I) ''payload'' = Some (JObj qs) \<and> mget qs k' = Some v' \<and> mget qs ''message'' = Some (JStr (trim (sf_prompt I))))"
  using assms
  by (simp add: buildDesiredSpec_def Let_def AUTHORED_def mget_spread spec_payload_def base_payload_def set_when_def split: option.split)

end
