(* ===== verification/Http_Client.thy ===== *)
theory Http_Client
  imports Js_Values Game_Guards
begin

text \<open>
  The plugin's calls of the server (\<open>client.ts\<close>, \<open>errors.ts\<close>): what a request sends, what its caller is told for each answer, its metric, and a call
  that is bounded by a timer and by its parent's abort; and the statistics of the metrics (\<open>latency-metrics.ts\<close>).
  \<open>JSON.parse\<close> and \<open>JSON.stringify\<close> are parameters. The debug capture swallows its own failures and is not modelled.
\<close>

section \<open>A request\<close>

record http_client =
  base_url :: string
  api_key :: "string option"

definition setEndpoint :: "string \<Rightarrow> string" where
  "setEndpoint endpoint = rev (dropWhile (\<lambda>c. c = CHR ''/'') (rev endpoint))"

definition client_hasApiKey :: "http_client \<Rightarrow> bool" where
  "client_hasApiKey c = (case api_key c of Some (x # xs) \<Rightarrow> True | _ \<Rightarrow> False)"

text \<open>\<open>encodeURIComponent\<close>, with characters of one byte as Latin-1 in UTF-8.\<close>

definition unreserved :: "char \<Rightarrow> bool" where
  "unreserved c = (is_alnum c \<or> c \<in> set ''-_.!~*()'' \<or> of_char c = (39 :: nat))"

definition hex_upper :: "nat \<Rightarrow> char" where
  "hex_upper n = (if n < 10 then digit_char n else char_of (55 + n))"

definition percent :: "nat \<Rightarrow> string" where
  "percent n = [CHR ''%'', hex_upper (n div 16), hex_upper (n mod 16)]"

definition encode_char :: "char \<Rightarrow> string" where
  "encode_char c =
     (let n = of_char c in
      if unreserved c then [c] else if n < 128 then percent n else percent (192 + n div 64) @ percent (128 + n mod 64))"

definition encodeURIComponent :: "string \<Rightarrow> string" where
  "encodeURIComponent s = concat (map encode_char s)"

definition encodePath :: "string list \<Rightarrow> string" where
  "encodePath segments = join ''/'' (map encodeURIComponent segments)"

record http_request =
  hr_method :: string
  hr_path :: string
  hr_json :: "jsval option"
  hr_body :: "string option"
  hr_headers :: "(string, string) jsmap"
  hr_challenge :: "(string \<times> string) option"
  hr_auth :: bool

definition PLUGIN_VERSION_HEADER :: string where "PLUGIN_VERSION_HEADER = ''X-Clawbits-Plugin-Version''"
definition TRACE_HEADER :: string where "TRACE_HEADER = ''x-clawbits-trace-id''"

definition truthy_str :: "string option \<Rightarrow> string option" where
  "truthy_str s = (case s of Some (c # cs) \<Rightarrow> Some (c # cs) | _ \<Rightarrow> None)"

definition trace_id_of :: "http_request \<Rightarrow> string option" where
  "trace_id_of r =
     (case truthy_str (mget (hr_headers r) TRACE_HEADER) of
        Some t \<Rightarrow> Some t
      | None \<Rightarrow> (case hr_json r of Some j \<Rightarrow> truthy_str (as_str (jget j ''trace_id'')) | None \<Rightarrow> None))"

definition set_opt :: "string \<Rightarrow> string option \<Rightarrow> (string, string) jsmap \<Rightarrow> (string, string) jsmap" where
  "set_opt k v m = (case v of Some x \<Rightarrow> mset_key k x m | None \<Rightarrow> m)"

definition request_headers :: "string \<Rightarrow> http_client \<Rightarrow> http_request \<Rightarrow> (string, string) jsmap" where
  "request_headers version c r =
     (let h0 = mset_key PLUGIN_VERSION_HEADER version (hr_headers r);
          h1 = (if hr_auth r \<and> client_hasApiKey c then set_opt ''Authorization'' (map_option ((@) ''Bearer '') (api_key c)) h0 else h0);
          h2 = (case hr_challenge r of Some (session, answer) \<Rightarrow> mset_key ''challenge-RESPONSE'' answer (mset_key ''session_token'' session h1) | None \<Rightarrow> h1);
          h3 = set_opt TRACE_HEADER (trace_id_of r) h2
      in if hr_json r \<noteq> None then mset_key ''Content-Type'' ''application/json'' h3 else h3)"

definition request_body :: "(jsval \<Rightarrow> string) \<Rightarrow> http_request \<Rightarrow> string option" where
  "request_body stringify r = (case hr_json r of Some j \<Rightarrow> Some (stringify j) | None \<Rightarrow> hr_body r)"

section \<open>Its outcome\<close>

text \<open>The network answers with a status and a text, or fails with a message and the message of its cause; reading the text may fail.\<close>

datatype fetch_answer =
    Unreached string "string option"
  | Response nat "string option"

datatype http_outcome =
    HttpValue jsval
  | ClawBitsError nat string string
  | HttpThrown

record request_metric =
  rm_method :: string
  rm_path :: string
  rm_status :: nat
  rm_duration :: rat
  rm_ok :: bool
  rm_type :: "string option"
  rm_at :: rat
  rm_trace :: "string option"

record http_exchange =
  hx_sent :: "(string \<times> string \<times> (string, string) jsmap \<times> string option) option"
  hx_metrics :: "request_metric list"
  hx_outcome :: http_outcome

definition response_ok :: "nat \<Rightarrow> bool" where
  "response_ok status = (200 \<le> status \<and> status < 300)"

definition formatDetail :: "(jsval \<Rightarrow> string) \<Rightarrow> jsval \<Rightarrow> string" where
  "formatDetail stringify d = (case d of JStr s \<Rightarrow> s | _ \<Rightarrow> stringify d)"

definition upper_ascii :: "string \<Rightarrow> string" where
  "upper_ascii = map (\<lambda>c. if is_lower c then char_of ((of_char c :: nat) - 32) else c)"

definition network_detail :: "http_client \<Rightarrow> http_request \<Rightarrow> string \<Rightarrow> string option \<Rightarrow> string" where
  "network_detail c r message cause =
     join ''; '' (filter (\<lambda>s. s \<noteq> [])
       [''network error calling '' @ upper_ascii (hr_method r) @ '' '' @ base_url c @ hr_path r,
        message,
        (case truthy_str cause of Some m \<Rightarrow> if m \<noteq> message then ''cause: '' @ m else [] | None \<Rightarrow> []),
        (if str_includes (base_url c) ''localhost'' \<or> str_includes (base_url c) ''127.0.0.1''
         then ''hint: verify the Clawbits API is running and reachable from this machine/environment''
         else ''hint: verify the Clawbits API URL, DNS, TLS certificate, and network reachability'')])"

definition read_answer :: "(string \<Rightarrow> jsval option) \<Rightarrow> (jsval \<Rightarrow> string) \<Rightarrow> string \<Rightarrow> nat \<Rightarrow> string option \<Rightarrow> http_outcome" where
  "read_answer parse stringify path status answer =
     (case answer of
        None \<Rightarrow> HttpThrown
      | Some t \<Rightarrow>
          if response_ok status
          then (if t = [] then HttpValue (JObj []) else case parse t of Some v \<Rightarrow> HttpValue v | None \<Rightarrow> HttpThrown)
          else ClawBitsError status (formatDetail stringify (case parse t of Some v \<Rightarrow> v | None \<Rightarrow> JStr t)) path)"

definition request_metric_of :: "http_request \<Rightarrow> fetch_answer \<Rightarrow> rat \<Rightarrow> rat \<Rightarrow> request_metric" where
  "request_metric_of r a took now =
     (let status = (case a of Unreached m cause \<Rightarrow> 0 | Response s t \<Rightarrow> s)
      in \<lparr>rm_method = hr_method r, rm_path = hr_path r, rm_status = status, rm_duration = took, rm_ok = response_ok status,
        rm_type = (if response_ok status then None else case a of Unreached m cause \<Rightarrow> Some ''network'' | Response s t \<Rightarrow> Some ''http''),
        rm_at = now, rm_trace = trace_id_of r\<rparr>)"

definition request_http ::
  "(string \<Rightarrow> jsval option) \<Rightarrow> (jsval \<Rightarrow> string) \<Rightarrow> string \<Rightarrow> http_client \<Rightarrow> http_request \<Rightarrow> fetch_answer \<Rightarrow> rat \<Rightarrow> rat \<Rightarrow> http_exchange" where
  "request_http parse stringify version c r a took now =
     (if CHR ''{'' \<in> set (hr_path r) \<or> CHR ''}'' \<in> set (hr_path r)
      then \<lparr>hx_sent = None, hx_metrics = [], hx_outcome = ClawBitsError 0 ''unsubstituted placeholder in path'' (hr_path r)\<rparr>
      else \<lparr>hx_sent = Some (base_url c @ hr_path r, hr_method r, request_headers version c r, request_body stringify r),
        hx_metrics = [request_metric_of r a took now],
        hx_outcome = (case a of
            Unreached m cause \<Rightarrow> ClawBitsError 0 (network_detail c r m cause) (hr_path r)
          | Response status t \<Rightarrow> read_answer parse stringify (hr_path r) status t)\<rparr>)"

section \<open>A bounded request\<close>

text \<open>The abort controller keeps the first reason; the request settles once, by an answer or by the abort.\<close>

record timed_call =
  tm_timer :: bool
  tm_parent :: bool
  tm_reason :: "string option"
  tm_settled :: bool

definition abort_with :: "string \<Rightarrow> timed_call \<Rightarrow> timed_call" where
  "abort_with reason s = (if tm_reason s = None then s\<lparr>tm_reason := Some reason\<rparr> else s)"

text \<open>The parent is absent, already aborted with its reason, or listened to.\<close>

definition timedRequest :: "string option option \<Rightarrow> timed_call" where
  "timedRequest parent =
     (let s = \<lparr>tm_timer = True, tm_parent = False, tm_reason = None, tm_settled = False\<rparr>
      in case parent of
          None \<Rightarrow> s
        | Some (Some reason) \<Rightarrow> abort_with reason s
        | Some None \<Rightarrow> s\<lparr>tm_parent := True\<rparr>)"

definition timeout_reason :: "string \<Rightarrow> nat \<Rightarrow> string" where
  "timeout_reason label ms = label @ '' timed out after '' @ show_nat ms @ ''ms''"

datatype timed_event = TimerFires | ParentAborts string | CallSettles

text \<open>A cleared timer and a removed listener do nothing any more; a listener that ran once is removed by itself.\<close>

fun timed_step :: "string \<Rightarrow> nat \<Rightarrow> timed_call \<Rightarrow> timed_event \<Rightarrow> timed_call" where
  "timed_step label ms s TimerFires = (if tm_timer s then abort_with (timeout_reason label ms) (s\<lparr>tm_timer := False\<rparr>) else s)"
| "timed_step label ms s (ParentAborts reason) = (if tm_parent s then abort_with reason (s\<lparr>tm_parent := False\<rparr>) else s)"
| "timed_step label ms s CallSettles = s\<lparr>tm_settled := True, tm_timer := False, tm_parent := False\<rparr>"

section \<open>Statistics\<close>

record latency_aggregate =
  la_count :: nat
  la_errors :: nat
  la_avg :: rat
  la_max :: rat
  la_last :: rat
  la_status :: nat
  la_ok :: bool
  la_at :: rat

definition emptyAggregate :: latency_aggregate where
  "emptyAggregate = \<lparr>la_count = 0, la_errors = 0, la_avg = 0, la_max = 0, la_last = 0, la_status = 0, la_ok = True, la_at = 0\<rparr>"

record latency_snapshot =
  ls_totals :: latency_aggregate
  ls_routes :: "(string, latency_aggregate) jsmap"

text \<open>The patterns end at the end of the path and may begin anywhere in it: a pattern is its segments, of which \<open>None\<close> is any.\<close>

definition route_tail :: "string option list \<Rightarrow> string list \<Rightarrow> string list \<Rightarrow> string list" where
  "route_tail pat names parts =
     (let k = length parts - length pat in
      if length pat < length parts \<and> list_all2 (\<lambda>p s. case p of Some l \<Rightarrow> s = l | None \<Rightarrow> s \<noteq> []) pat (drop k parts)
      then take k parts @ names else parts)"

definition MM_ROUTES :: "(string option list \<times> string list) list" where
  "MM_ROUTES =
     (let base = [''api'', ''agentic'', ''mm'']; channel = map Some (base @ [''channels'']) @ [None]; team = map Some (base @ [''teams'']) @ [None]
      in [(channel @ [Some ''posts''], base @ [''channels'', '':id'', ''posts'']),
          (channel, base @ [''channels'', '':id'']),
          (channel @ [Some ''members''], base @ [''channels'', '':id'', ''members'']),
          (channel @ [Some ''members'', None], base @ [''channels'', '':id'', ''members'', '':memberId'']),
          (team @ [Some ''default-channel''], base @ [''teams'', '':id'', ''default-channel'']),
          (team @ [Some ''operator-channel''], base @ [''teams'', '':id'', ''operator-channel'']),
          (team, base @ [''teams'', '':id''])])"

definition normalizePath :: "string \<Rightarrow> string" where
  "normalizePath path =
     (if path = [] then ''/'' else join ''/'' (foldl (\<lambda>parts (pat, names). route_tail pat names parts) (split_on CHR ''/'' path) MM_ROUTES))"

definition applyMetric :: "latency_aggregate \<Rightarrow> request_metric \<Rightarrow> latency_aggregate" where
  "applyMetric a m =
     \<lparr>la_count = la_count a + 1, la_errors = la_errors a + (if rm_ok m then 0 else 1),
      la_avg = (la_avg a * of_nat (la_count a) + rm_duration m) / of_nat (la_count a + 1),
      la_max = max (la_max a) (rm_duration m), la_last = rm_duration m, la_status = rm_status m, la_ok = rm_ok m, la_at = rm_at m\<rparr>"

definition route_key :: "request_metric \<Rightarrow> string" where
  "route_key m = upper_ascii (rm_method m) @ '' '' @ normalizePath (rm_path m)"

definition or_empty :: "latency_aggregate option \<Rightarrow> latency_aggregate" where
  "or_empty a = (case a of Some x \<Rightarrow> x | None \<Rightarrow> emptyAggregate)"

definition recordClawBitsRequestMetric ::
  "(string, latency_snapshot) jsmap \<Rightarrow> string \<times> request_metric \<Rightarrow> (string, latency_snapshot) jsmap" where
  "recordClawBitsRequestMetric reg e =
     (case e of (account, m) \<Rightarrow>
       (let s = (case mget reg account of Some s \<Rightarrow> s | None \<Rightarrow> \<lparr>ls_totals = emptyAggregate, ls_routes = []\<rparr>)
        in mset_key account \<lparr>ls_totals = applyMetric (ls_totals s) m,
             ls_routes = mset_key (route_key m) (applyMetric (or_empty (mget (ls_routes s) (route_key m))) m) (ls_routes s)\<rparr> reg))"

text \<open>A copy: the values are the same.\<close>

definition getClawBitsLatencySnapshot :: "(string, latency_snapshot) jsmap \<Rightarrow> string \<Rightarrow> latency_snapshot option" where
  "getClawBitsLatencySnapshot reg account = mget reg account"

section \<open>Paths keep their segments\<close>

lemma percent_safe: "n < 256 \<Longrightarrow> c \<in> set (percent n) \<Longrightarrow> c = CHR ''%'' \<or> is_digit c \<or> is_upper c"
proof -
  have hex: "is_digit (hex_upper k) \<or> is_upper (hex_upper k)" if "k < 16" for k
    using that unfolding hex_upper_def digit_char_def is_digit_def is_upper_def by (simp add: of_char_of)
  assume "n < 256" and "c \<in> set (percent n)"
  then show ?thesis using hex [of "n div 16"] hex [of "n mod 16"] by (auto simp: percent_def)
qed

lemma encode_char_safe:
  assumes "c' \<in> set (encode_char c)"
  shows "c' = c \<and> unreserved c \<or> c' = CHR ''%'' \<or> is_digit c' \<or> is_upper c'"
proof -
  have "of_char c < (4 * 64 :: nat)" using nat_of_char_less_256 [of c] by simp
  then have "of_char c div 64 < (4 :: nat)" by (rule less_mult_imp_div_less)
  moreover have "of_char c mod 64 < (64 :: nat)" by simp
  ultimately have "192 + of_char c div 64 < (256 :: nat)" "128 + of_char c mod 64 < (256 :: nat)" by linarith+
  then show ?thesis using assms by (auto simp: encode_char_def Let_def dest!: percent_safe [rotated] split: if_splits)
qed

lemma split_join: "\<forall>s \<in> set ss. d \<notin> set s \<Longrightarrow> ss \<noteq> [] \<Longrightarrow> split_on d (join [d] ss) = ss"
  by (induction "[d]" ss rule: join.induct) (simp_all add: split_on_no_sep split_on_append)

text \<open>Whatever the segments are, a server that splits the path at its slashes finds them encoded, each by itself, and the request is sent.\<close>

theorem paths_keep_segments:
  assumes "ss \<noteq> []"
  shows "split_on CHR ''/'' (encodePath ss) = map encodeURIComponent ss \<and>
    set (encodePath ss) \<inter> {CHR ''?'', CHR ''#'', CHR ''{'', CHR ''}''} = {}"
proof -
  have safe: "set (encodeURIComponent s) \<inter> {CHR ''/'', CHR ''?'', CHR ''#'', CHR ''{'', CHR ''}''} = {}" for s
  proof -
    have "c \<notin> {CHR ''/'', CHR ''?'', CHR ''#'', CHR ''{'', CHR ''}''}" if "c \<in> set (encodeURIComponent s)" for c
    proof -
      from that obtain c' where "c \<in> set (encode_char c')" by (auto simp: encodeURIComponent_def)
      from encode_char_safe [OF this] show ?thesis
        by (auto simp: unreserved_def is_alnum_def is_digit_def is_upper_def is_lower_def)
    qed
    then show ?thesis by blast
  qed
  have "set (join ''/'' ss') \<subseteq> insert CHR ''/'' (\<Union> (set ` set ss'))" for ss'
    by (induction "''/''" ss' rule: join.induct) auto
  then have "set (encodePath ss) \<subseteq> insert CHR ''/'' (\<Union>s. set (encodeURIComponent s))" by (fastforce simp: encodePath_def)
  moreover have "split_on CHR ''/'' (encodePath ss) = map encodeURIComponent ss"
    unfolding encodePath_def using assms safe by (intro split_join) auto
  ultimately show ?thesis using safe by fastforce
qed

section \<open>What a caller is told\<close>

text \<open>Status zero says exactly that no answer came; a request that was sent has one metric, which is good exactly for a good answer,
  and only then has the caller a value.\<close>

theorem outcome_tells_the_answer:
  assumes "\<And>status t. a = Response status t \<Longrightarrow> status \<noteq> 0" and "x = request_http parse stringify version c r a took now"
  shows "(\<exists>d p. hx_outcome x = ClawBitsError 0 d p) = (hx_sent x = None \<or> (\<exists>m cause. a = Unreached m cause)) \<and>
    length (hx_metrics x) = (if hx_sent x = None then 0 else 1) \<and>
    (\<forall>m \<in> set (hx_metrics x). rm_ok m = (\<exists>status t. a = Response status t \<and> response_ok status)) \<and>
    (\<forall>v. hx_outcome x = HttpValue v \<longrightarrow> (\<exists>status t. a = Response status t \<and> response_ok status))"
proof (cases a)
  case (Unreached m cause)
  then show ?thesis using assms(2) by (simp add: request_http_def request_metric_of_def response_ok_def)
next
  case (Response status t)
  then have "status \<noteq> 0" using assms(1) by simp
  have value_ok: "read_answer parse stringify p status t = HttpValue v \<Longrightarrow> response_ok status" for p v
    by (auto simp: read_answer_def split: option.splits if_splits)
  have error_status: "read_answer parse stringify p status t \<noteq> ClawBitsError 0 d q" for p d q
    using \<open>status \<noteq> 0\<close> by (simp add: read_answer_def split: option.split)
  show ?thesis
  proof (cases "CHR ''{'' \<in> set (hr_path r) \<or> CHR ''}'' \<in> set (hr_path r)")
    case True
    then have "x = \<lparr>hx_sent = None, hx_metrics = [], hx_outcome = ClawBitsError 0 ''unsubstituted placeholder in path'' (hr_path r)\<rparr>"
      using assms(2) by (simp add: request_http_def)
    then show ?thesis by simp
  next
    case False
    then have "hx_sent x \<noteq> None" "hx_metrics x = [request_metric_of r a took now]" "hx_outcome x = read_answer parse stringify (hr_path r) status t"
      using assms(2) Response by (simp_all add: request_http_def)
    moreover have "rm_ok (request_metric_of r a took now) = response_ok status" using Response by (simp add: request_metric_of_def)
    ultimately show ?thesis using Response value_ok error_status by simp
  qed
qed

text \<open>A call that is settled leaves no timer and no listener, and its signal keeps the first reason.\<close>

theorem timed_call_is_tidy:
  "(tm_settled (run (timed_step label ms) (timedRequest parent) es) \<longrightarrow>
      \<not> tm_timer (run (timed_step label ms) (timedRequest parent) es) \<and> \<not> tm_parent (run (timed_step label ms) (timedRequest parent) es)) \<and>
   (tm_reason s = Some reason \<longrightarrow> tm_reason (run (timed_step label ms) s es) = Some reason)"
proof -
  have tidy: "(tm_settled s \<longrightarrow> \<not> tm_timer s \<and> \<not> tm_parent s) \<Longrightarrow>
      tm_settled (run (timed_step label ms) s es) \<longrightarrow> \<not> tm_timer (run (timed_step label ms) s es) \<and> \<not> tm_parent (run (timed_step label ms) s es)" for s
  proof (induction es arbitrary: s)
    case (Cons e es)
    then have "tm_settled (timed_step label ms s e) \<longrightarrow> \<not> tm_timer (timed_step label ms s e) \<and> \<not> tm_parent (timed_step label ms s e)"
      by (cases e) (auto simp: abort_with_def)
    then show ?case using Cons.IH by simp
  qed simp
  have "tm_reason s = Some reason \<longrightarrow> tm_reason (run (timed_step label ms) s es) = Some reason" for s
  proof (induction es arbitrary: s)
    case (Cons e es)
    have "tm_reason s = Some reason \<longrightarrow> tm_reason (timed_step label ms s e) = Some reason" by (cases e) (simp_all add: abort_with_def)
    then show ?case using Cons.IH by simp
  qed simp
  moreover have "tm_settled (timedRequest parent) \<longrightarrow> \<not> tm_timer (timedRequest parent) \<and> \<not> tm_parent (timedRequest parent)"
    by (cases parent; cases "the parent") (simp_all add: timedRequest_def abort_with_def)
  ultimately show ?thesis using tidy by blast
qed

section \<open>The statistics are those of the metrics\<close>

definition stats_of :: "request_metric list \<Rightarrow> latency_aggregate" where
  "stats_of ms =
     (if ms = [] then emptyAggregate
      else \<lparr>la_count = length ms, la_errors = length (filter (\<lambda>m. \<not> rm_ok m) ms), la_avg = sum_list (map rm_duration ms) / of_nat (length ms),
        la_max = fold max (map rm_duration ms) 0, la_last = rm_duration (last ms), la_status = rm_status (last ms), la_ok = rm_ok (last ms),
        la_at = rm_at (last ms)\<rparr>)"

lemma applyMetric_stats: "applyMetric (stats_of ms) m = stats_of (ms @ [m])"
  by (cases "ms = []") (simp_all add: stats_of_def applyMetric_def emptyAggregate_def max.commute)

definition metrics_of :: "string \<Rightarrow> (string \<times> request_metric) list \<Rightarrow> request_metric list" where
  "metrics_of account es = map snd (filter (\<lambda>e. fst e = account) es)"

lemma record_totals:
  "or_empty (map_option ls_totals (mget (recordClawBitsRequestMetric reg (a, m)) account)) =
   (if a = account then applyMetric (or_empty (map_option ls_totals (mget reg account))) m else or_empty (map_option ls_totals (mget reg account)))"
  by (cases "mget reg account") (simp_all add: recordClawBitsRequestMetric_def or_empty_def Let_def)

lemma record_route:
  "or_empty (case mget (recordClawBitsRequestMetric reg (a, m)) account of Some s \<Rightarrow> mget (ls_routes s) k | None \<Rightarrow> None) =
   (if a = account \<and> route_key m = k then applyMetric (or_empty (case mget reg account of Some s \<Rightarrow> mget (ls_routes s) k | None \<Rightarrow> None)) m
    else or_empty (case mget reg account of Some s \<Rightarrow> mget (ls_routes s) k | None \<Rightarrow> None))"
  by (cases "mget reg account") (auto simp: recordClawBitsRequestMetric_def or_empty_def Let_def)

text \<open>However the calls of the accounts interleave, an account's totals are the statistics of its own metrics, and each route's those of
  the metrics of the route.\<close>

theorem latency_is_statistics:
  "or_empty (map_option ls_totals (getClawBitsLatencySnapshot (run recordClawBitsRequestMetric [] es) account)) = stats_of (metrics_of account es) \<and>
   or_empty (case getClawBitsLatencySnapshot (run recordClawBitsRequestMetric [] es) account of Some s \<Rightarrow> mget (ls_routes s) k | None \<Rightarrow> None) =
     stats_of (filter (\<lambda>m. route_key m = k) (metrics_of account es))"
proof (induction es rule: rev_induct)
  case Nil
  then show ?case by (simp add: getClawBitsLatencySnapshot_def metrics_of_def stats_of_def or_empty_def)
next
  case (snoc e es)
  obtain a m where e: "e = (a, m)" by fastforce
  have "metrics_of account (es @ [e]) = metrics_of account es @ (if a = account then [m] else [])" by (simp add: metrics_of_def e)
  then show ?case using snoc.IH
    by (simp add: getClawBitsLatencySnapshot_def e record_totals record_route applyMetric_stats del: mget_mset)
qed

end
