(* ===== verification/Poller_Loop.thy ===== *)
theory Poller_Loop
  imports Inbound_Poller "HOL-Library.Multiset"
begin

text \<open>
  The main loop of the inbound poller and its streams (\<open>runInboundPoller\<close> in \<open>plugin/src/inbound-poller.ts\<close>), over the operations of
  \<open>Inbound_Poller\<close>: when it lists the channels, catches up, opens the agent's WebSocket or the event streams of channels, polls and
  sleeps. The loop is cut at its awaits, at which the sockets and the other operations of the poller run; an
  event that does not fit the state it meets does nothing. The sweep of game sessions has its own theory.
\<close>

section \<open>State\<close>

definition MAX_CATCH_UP_DEFERRALS :: nat where "MAX_CATCH_UP_DEFERRALS = 1"
definition CATCH_UP_DEFERRAL_RETRY_MS :: rat where "CATCH_UP_DEFERRAL_RETRY_MS = 1000"

record loop_config =
  websocketEnabled :: bool
  has_apiKey :: bool
  pollMs :: rat
  reconcileMs :: rat
  controlMs :: rat

datatype loop_effect =
    ListsChannels
  | Offers "widget_signal list"
  | Defers
  | CatchesUp "discovered list"
  | OpensWs
  | OpensSse string
  | Polls source "discovered list"
  | ReadsWaiting
  | WsCalls "ws_effect list"
  | SleepsFor rat
  | Stops

datatype loop_point =
    LTop
  | LListing bool "string multiset"
  | LCatching "discovered list" bool
  | LRacing "discovered list" bool
  | LPolling bool
  | LReading
  | LSleeping
  | LDone

text \<open>The task of the WebSocket, if any, with whether it is aborted; each channel's stream with the same.\<close>

record loop_state =
  lp_poller :: poller
  lp_point :: loop_point
  lp_ws :: "bool option"
  lp_connected :: bool
  lp_disabledUntil :: rat
  lp_sse :: "(string, bool) jsmap"
  lp_force :: bool
  lp_nextReconcile :: rat
  lp_nextControl :: "rat option"
  lp_deferrals :: nat
  lp_controlOk :: bool
  lp_waitingSupported :: bool
  lp_aborted :: bool
  lp_trace :: "loop_effect list"

text \<open>The draw of \<open>Math.random\<close> is an argument.\<close>

definition jitter :: "rat \<Rightarrow> rat \<Rightarrow> rat" where
  "jitter random ms = (if 0 < ms then of_int \<lfloor>random * min 30000 (of_int \<lfloor>ms / 10\<rfloor>)\<rfloor> else 0)"

definition loop_init :: "account \<Rightarrow> loop_config \<Rightarrow> bool \<Rightarrow> rat \<Rightarrow> rat \<Rightarrow> loop_state" where
  "loop_init A C catchUp now random =
     \<lparr>lp_poller = poller_init A catchUp, lp_point = LTop, lp_ws = None, lp_connected = False, lp_disabledUntil = 0, lp_sse = [],
      lp_force = False, lp_nextReconcile = now + reconcileMs C + jitter random (reconcileMs C),
      lp_nextControl = Some (now + controlMs C + jitter random (controlMs C)), lp_deferrals = 0, lp_controlOk = False,
      lp_waitingSupported = True, lp_aborted = False, lp_trace = []\<rparr>"

definition does :: "loop_effect \<Rightarrow> loop_state \<Rightarrow> loop_state" where
  "does e s = s\<lparr>lp_trace := e # lp_trace s\<rparr>"

section \<open>Streams\<close>

definition stopSse :: "loop_state \<Rightarrow> loop_state" where
  "stopSse s = s\<lparr>lp_sse := map (\<lambda>(c, aborted). (c, True)) (lp_sse s)\<rparr>"

definition stopAgentWebSocket :: "loop_state \<Rightarrow> loop_state" where
  "stopAgentWebSocket s = s\<lparr>lp_ws := map_option (\<lambda>_. True) (lp_ws s)\<rparr>"

definition scheduleNextWebSocketReconcile :: "loop_config \<Rightarrow> rat \<Rightarrow> rat \<Rightarrow> loop_state \<Rightarrow> loop_state" where
  "scheduleNextWebSocketReconcile C now random s = s\<lparr>lp_nextReconcile := now + reconcileMs C + jitter random (reconcileMs C)\<rparr>"

definition scheduleNextWebSocketControlRefresh :: "loop_config \<Rightarrow> rat \<Rightarrow> rat \<Rightarrow> loop_state \<Rightarrow> loop_state" where
  "scheduleNextWebSocketControlRefresh C now random s =
     s\<lparr>lp_nextControl := (if 0 < controlMs C then Some (now + controlMs C + jitter random (controlMs C)) else None)\<rparr>"

definition startAgentWebSocket :: "loop_config \<Rightarrow> rat \<Rightarrow> loop_state \<Rightarrow> loop_state" where
  "startAgentWebSocket C now s =
     (if \<not> websocketEnabled C \<or> lp_ws s \<noteq> None \<or> now < lp_disabledUntil s \<or> lp_aborted s \<or> agentSnoozed (lp_poller s) \<or> \<not> has_apiKey C
      then s else does OpensWs (s\<lparr>lp_ws := Some False\<rparr>))"

definition startSse :: "loop_config \<Rightarrow> rat \<Rightarrow> loop_state \<Rightarrow> discovered \<Rightarrow> loop_state" where
  "startSse C now s c =
     (if mget (lp_sse s) (ch_id c) \<noteq> None \<or> lp_aborted s \<or> agentSnoozed (lp_poller s) \<or> lp_connected s \<or>
         (websocketEnabled C \<and> lp_ws s \<noteq> None \<and> lp_disabledUntil s \<le> now)
      then s else does (OpensSse (ch_id c)) (s\<lparr>lp_sse := mset_key (ch_id c) False (lp_sse s)\<rparr>))"

definition ws_opened :: "loop_config \<Rightarrow> rat \<Rightarrow> rat \<Rightarrow> loop_state \<Rightarrow> loop_state" where
  "ws_opened C now random s = stopSse (scheduleNextWebSocketControlRefresh C now random (s\<lparr>lp_connected := True, lp_force := True\<rparr>))"

definition ws_gets :: "runtime \<Rightarrow> account \<Rightarrow> loop_config \<Rightarrow> int \<Rightarrow> rat \<Rightarrow> ws_event \<Rightarrow> loop_state \<Rightarrow> loop_state" where
  "ws_gets R A C now random e s =
     (case onWsEvent R A now e (lp_poller s) of (p, calls) \<Rightarrow>
       (let s1 = does (WsCalls calls) (s\<lparr>lp_poller := p, lp_force := (lp_force s \<or> ForceReconcile \<in> set calls)\<rparr>)
        in if ws_type e = ''snapshot'' then scheduleNextWebSocketControlRefresh C (of_int now) random s1 else s1))"

text \<open>A socket that was told to stop resolves; one that fails by itself is not tried for a minute.\<close>

definition ws_ended :: "bool \<Rightarrow> rat \<Rightarrow> loop_state \<Rightarrow> loop_state" where
  "ws_ended failed now s =
     (let s1 = (if failed \<and> \<not> lp_aborted s \<and> lp_ws s = Some False then s\<lparr>lp_disabledUntil := now + 60000, lp_force := True\<rparr> else s)
      in s1\<lparr>lp_ws := None, lp_connected := False\<rparr>)"

section \<open>One iteration\<close>

definition sleeps :: "rat \<Rightarrow> loop_state \<Rightarrow> loop_state" where
  "sleeps ms s = (does (SleepsFor ms) s)\<lparr>lp_point := LSleeping\<rparr>"

definition loop_stops :: "loop_state \<Rightarrow> loop_state" where
  "loop_stops s = (does Stops (stopSse (stopAgentWebSocket s)))\<lparr>lp_point := LDone\<rparr>"

definition rests :: "loop_config \<Rightarrow> loop_state \<Rightarrow> loop_state" where
  "rests C s = (if lp_aborted s then loop_stops s else sleeps (pollMs C) s)"

definition serves_channels :: "loop_config \<Rightarrow> rat \<Rightarrow> rat \<Rightarrow> discovered list \<Rightarrow> bool \<Rightarrow> loop_state \<Rightarrow> loop_state" where
  "serves_channels C now random cs listed s0 =
     (let s = foldl (startSse C now) s0 cs in
      if websocketEnabled C \<and> lp_connected s \<and> lp_disabledUntil s \<le> now
      then (if lp_force s \<or> 0 < reconcileMs C \<and> lp_nextReconcile s \<le> now
            then (does (Polls Reconcile cs) (scheduleNextWebSocketReconcile C now random (s\<lparr>lp_force := False\<rparr>)))\<lparr>lp_point := LPolling True\<rparr>
            else rests C s)
      else (does (Polls Poll cs) s)\<lparr>lp_point := LPolling (\<not> listed)\<rparr>)"

definition starts_streams :: "loop_config \<Rightarrow> rat \<Rightarrow> rat \<Rightarrow> discovered list \<Rightarrow> bool \<Rightarrow> loop_state \<Rightarrow> loop_state" where
  "starts_streams C now random cs listed s0 =
     (let s = startAgentWebSocket C now s0 in
      if websocketEnabled C \<and> lp_ws s \<noteq> None \<and> \<not> lp_connected s \<and> lp_disabledUntil s \<le> now then s\<lparr>lp_point := LRacing cs listed\<rparr>
      else serves_channels C now random cs listed s)"

definition with_fallback :: "account \<Rightarrow> discovered list \<Rightarrow> loop_state \<Rightarrow> discovered list \<times> loop_state" where
  "with_fallback A cs s =
     (case fallback_channel A of
        Some (c # r) \<Rightarrow>
          (if cs = [] then (let ds = [\<lparr>ch_id = c # r, ch_type = None, latestPostId = None, lastReadPostId = None\<rparr>]
             in (ds, s\<lparr>lp_poller := rebuildDiscoveredChannels ds (lp_poller s)\<rparr>)) else (cs, s))
      | _ \<Rightarrow> (cs, s))"

definition catches_up :: "loop_config \<Rightarrow> rat \<Rightarrow> rat \<Rightarrow> discovered list \<Rightarrow> bool \<Rightarrow> loop_state \<Rightarrow> loop_state" where
  "catches_up C now random cs listed s =
     (if \<not> catchUpPending (lp_poller s) then starts_streams C now random cs listed s
      else if \<not> lp_controlOk s \<and> lp_deferrals s < MAX_CATCH_UP_DEFERRALS
      then sleeps (min CATCH_UP_DEFERRAL_RETRY_MS (pollMs C)) (does Defers (s\<lparr>lp_deferrals := lp_deferrals s + 1\<rparr>))
      else (does (CatchesUp cs) (s\<lparr>lp_poller := (lp_poller s)\<lparr>catchUpPending := False\<rparr>\<rparr>))\<lparr>lp_point := LCatching cs listed\<rparr>)"

definition goes_on :: "account \<Rightarrow> loop_config \<Rightarrow> rat \<Rightarrow> rat \<Rightarrow> discovered list \<Rightarrow> bool \<Rightarrow> bool \<Rightarrow> loop_state \<Rightarrow> loop_state" where
  "goes_on A C now random found wasSnoozed listed s0 =
     (case with_fallback A found s0 of (cs, s) \<Rightarrow>
       if agentSnoozed (lp_poller s) then sleeps (pollMs C) (stopSse (stopAgentWebSocket s))
       else catches_up C now random cs listed
         (if wasSnoozed \<and> \<not> catchUpPending (lp_poller s) then s\<lparr>lp_poller := foldl skip_snoozed (lp_poller s) cs\<rparr> else s))"

text \<open>The sorted identifiers, joined: equal for the same channels.\<close>

definition channelSetKey :: "discovered list \<Rightarrow> string multiset" where
  "channelSetKey cs = mset (map ch_id cs)"

definition refreshes_control :: "loop_config \<Rightarrow> rat \<Rightarrow> loop_state \<Rightarrow> bool" where
  "refreshes_control C now s =
     (\<not> lp_connected s \<or> channelTypes (lp_poller s) = [] \<or>
      (0 < controlMs C \<and> (case lp_nextControl s of Some t \<Rightarrow> t \<le> now | None \<Rightarrow> False)))"

definition iterates :: "account \<Rightarrow> loop_config \<Rightarrow> rat \<Rightarrow> rat \<Rightarrow> loop_state \<Rightarrow> loop_state" where
  "iterates A C now random s =
     (if lp_aborted s then loop_stops s
      else if refreshes_control C now s
      then (does ListsChannels s)\<lparr>lp_point := LListing (agentSnoozed (lp_poller s)) (channelSetKey (discoveredFromChannelTypes (lp_poller s)))\<rparr>
      else goes_on A C now random (discoveredFromChannelTypes (lp_poller s)) (agentSnoozed (lp_poller s)) False s)"

definition listed_channels ::
  "account \<Rightarrow> loop_config \<Rightarrow> rat \<Rightarrow> rat \<Rightarrow> bool \<Rightarrow> string multiset \<Rightarrow> jsval option \<Rightarrow> loop_state \<Rightarrow> loop_state" where
  "listed_channels A C now random wasSnoozed before answer s =
     (case answer of
        Some raw \<Rightarrow>
          (case applyControlPayload A raw (lp_poller s) of (p, cs, offers) \<Rightarrow>
            (let s1 = does (Offers offers) (s\<lparr>lp_poller := p, lp_controlOk := True\<rparr>);
                 s2 = (if lp_connected s1 then scheduleNextWebSocketControlRefresh C now random s1 else s1);
                 s3 = (if lp_connected s2 \<and> before \<noteq> channelSetKey cs then stopAgentWebSocket (s2\<lparr>lp_force := True\<rparr>) else s2)
             in goes_on A C now random cs wasSnoozed True s3))
      | None \<Rightarrow>
          (let s1 = (if lp_connected s then scheduleNextWebSocketControlRefresh C now random s
                     else s\<lparr>lp_poller := (lp_poller s)\<lparr>interAgentMode := acct_interAgent A\<rparr>\<rparr>)
           in goes_on A C now random (discoveredFromChannelTypes (lp_poller s1)) wasSnoozed False s1))"

definition caught_up :: "account \<Rightarrow> loop_config \<Rightarrow> rat \<Rightarrow> rat \<Rightarrow> discovered list \<Rightarrow> bool \<Rightarrow> loop_state \<Rightarrow> loop_state" where
  "caught_up A C now random cs listed s =
     (if lp_aborted s then loop_stops s
      else starts_streams C now random cs listed
        (does (Offers (if widgets_on A then heldSignals (lp_poller s) else [])) (s\<lparr>lp_poller := (lp_poller s)\<lparr>heldSignals := []\<rparr>\<rparr>)))"

definition raced :: "loop_config \<Rightarrow> rat \<Rightarrow> rat \<Rightarrow> discovered list \<Rightarrow> bool \<Rightarrow> loop_state \<Rightarrow> loop_state" where
  "raced C now random cs listed s =
     (if lp_aborted s then loop_stops s else if lp_connected s then s\<lparr>lp_point := LTop\<rparr> else serves_channels C now random cs listed s)"

definition polled :: "account \<Rightarrow> loop_config \<Rightarrow> bool \<Rightarrow> loop_state \<Rightarrow> loop_state" where
  "polled A C asks s =
     (if asks \<and> widgets_on A \<and> lp_waitingSupported s \<and> \<not> agentSnoozed (lp_poller s) \<and> \<not> lp_aborted s
      then (does ReadsWaiting s)\<lparr>lp_point := LReading\<rparr> else rests C s)"

text \<open>The waiting games, or a failure with whether the server has no such route.\<close>

definition read_waiting :: "loop_config \<Rightarrow> bool + widget_signal list \<Rightarrow> loop_state \<Rightarrow> loop_state" where
  "read_waiting C answer s =
     rests C (case answer of Inr offers \<Rightarrow> does (Offers offers) s | Inl unknown \<Rightarrow> if unknown then s\<lparr>lp_waitingSupported := False\<rparr> else s)"

section \<open>The machine\<close>

datatype main_event =
    LoopRuns rat rat
  | ControlAnswered rat rat "jsval option"
  | CaughtUp rat rat
  | RaceEnds rat rat
  | PollEnds
  | WaitingRead "bool + widget_signal list"
  | SleepEnds
  | WsOpens rat rat
  | WsGets int rat ws_event
  | WsEnds bool rat
  | SseEnds string
  | Aborts
  | Inner poller_step

fun inner_step :: "poller_step \<Rightarrow> bool" where
  "inner_step (Control raw) = False"
| "inner_step (WsEvent now e) = False"
| "inner_step CatchUpBegins = False"
| "inner_step (Unsnoozed cs) = False"
| "inner_step e = True"

fun main_step :: "runtime \<Rightarrow> account \<Rightarrow> loop_config \<Rightarrow> loop_state \<Rightarrow> main_event \<Rightarrow> loop_state" where
  "main_step R A C s (LoopRuns now random) = (if lp_point s = LTop then iterates A C now random s else s)"
| "main_step R A C s (ControlAnswered now random answer) =
     (case lp_point s of LListing wasSnoozed before \<Rightarrow> listed_channels A C now random wasSnoozed before answer s | _ \<Rightarrow> s)"
| "main_step R A C s (CaughtUp now random) = (case lp_point s of LCatching cs listed \<Rightarrow> caught_up A C now random cs listed s | _ \<Rightarrow> s)"
| "main_step R A C s (RaceEnds now random) = (case lp_point s of LRacing cs listed \<Rightarrow> raced C now random cs listed s | _ \<Rightarrow> s)"
| "main_step R A C s PollEnds = (case lp_point s of LPolling asks \<Rightarrow> polled A C asks s | _ \<Rightarrow> s)"
| "main_step R A C s (WaitingRead answer) = (if lp_point s = LReading then read_waiting C answer s else s)"
| "main_step R A C s SleepEnds = (if lp_point s = LSleeping then s\<lparr>lp_point := LTop\<rparr> else s)"
| "main_step R A C s (WsOpens now random) = (if lp_ws s = Some False then ws_opened C now random s else s)"
| "main_step R A C s (WsGets now random e) = (if lp_ws s = Some False \<and> lp_connected s then ws_gets R A C now random e s else s)"
| "main_step R A C s (WsEnds failed now) = (if lp_ws s \<noteq> None then ws_ended failed now s else s)"
| "main_step R A C s (SseEnds c) = s\<lparr>lp_sse := mdel c (lp_sse s)\<rparr>"
| "main_step R A C s Aborts = (stopSse (stopAgentWebSocket s))\<lparr>lp_aborted := True\<rparr>"
| "main_step R A C s (Inner e) = (if inner_step e then s\<lparr>lp_poller := poller_do R A (lp_poller s) e\<rparr> else s)"

section \<open>The operations keep the pending catch-up\<close>

lemma pending_ack [simp]:
  "catchUpPending (ack_loop c s) = catchUpPending s" "catchUpPending (ackRead c n s) = catchUpPending s"
  "catchUpPending (set_baseline c n s) = catchUpPending s" "catchUpPending (ack_result c b s) = catchUpPending s"
  by (simp_all add: ackRead_def ack_loop_def set_baseline_def ack_result_def Let_def split: option.split)

lemma pending_discover: "catchUpPending (foldl (discover b) s cs) = catchUpPending s"
  by (induction cs arbitrary: s) (auto simp: discover_def seedBaseline_def Let_def split: option.split)

lemma pending_rebuild [simp]: "catchUpPending (rebuildDiscoveredChannels cs s) = catchUpPending s"
  by (simp add: rebuildDiscoveredChannels_def pending_discover)

lemma pending_skip [simp]: "catchUpPending (foldl skip_snoozed s cs) = catchUpPending s"
  by (induction cs arbitrary: s) (simp_all add: skip_snoozed_def split: option.split)

lemma pending_payload: "applyControlPayload A raw s = (p, cs, offers) \<Longrightarrow> catchUpPending p = catchUpPending s"
  by (auto simp: applyControlPayload_def Let_def split: if_splits option.splits)

lemma pending_ws: "onWsEvent R A now e s = (p, calls) \<Longrightarrow> catchUpPending p = catchUpPending s"
  by (auto simp: onWsEvent_def Let_def mergeDiscoveredChannels_def removeDiscoveredChannel_def pending_discover
      split: if_splits option.splits prod.splits dest: pending_payload)

lemma pending_observe [simp]: "catchUpPending (observe_admitted ev durable s) = catchUpPending s"
  by (simp add: observe_admitted_def Let_def)

lemma pending_poll [simp]: "catchUpPending (fst (poll_posts A waits durable ch src posts s)) = catchUpPending s"
proof (induction posts arbitrary: s)
  case (Cons p ps)
  show ?case
  proof (cases "observe A waits ch p src False s")
    case None
    then show ?thesis using Cons.IH by simp
  next
    case (Some ev)
    then show ?thesis using Cons.IH [of "observe_admitted ev (durable ev) s"] by (simp add: split_beta)
  qed
qed simp

lemma pending_catch_up: "catchUpPending (fst (catchUpChannel R A fetch recent durable c s)) = catchUpPending s"
proof (cases "lastReadPostId c")
  case None
  then show ?thesis by (cases "latestPostId c") (simp_all add: catchUpChannel_def Let_def)
next
  case (Some lst)
  show ?thesis
  proof (cases "drainGap R fetch lst")
    case None
    then show ?thesis using Some by (simp add: catchUpChannel_def Let_def)
  next
    case (Some g)
    obtain gap overflowed where g: "g = (gap, overflowed)" by fastforce
    show ?thesis
      by (cases "if overflowed then map_option (parsePostsResponse R) recent else Some gap")
        (simp_all add: catchUpChannel_def Let_def Some \<open>lastReadPostId c = Some lst\<close> g del: if_split split: if_split)
  qed
qed

lemma pending_handle: "catchUpPending (fst (handlePost R A sits q ev shown hist s)) = catchUpPending s"
  by (simp add: handlePost_def after_mention_def Let_def)

lemma pending_inner: "inner_step e \<Longrightarrow> catchUpPending (poller_do R A s e) = catchUpPending s"
  by (cases e) (simp_all add: pending_catch_up pending_handle poll_channel_def Let_def split: option.split)

section \<open>Invariant\<close>

fun is_stream :: "loop_effect \<Rightarrow> bool" where
  "is_stream OpensWs = True"
| "is_stream (OpensSse c) = True"
| "is_stream (Polls src cs) = True"
| "is_stream e = False"

fun is_catch_up :: "loop_effect \<Rightarrow> bool" where
  "is_catch_up (CatchesUp cs) = True"
| "is_catch_up e = False"

text \<open>On the trace, the latest first: a stream only after the catch-up, and one catch-up.\<close>

fun in_order :: "loop_effect list \<Rightarrow> bool" where
  "in_order [] = True"
| "in_order (e # es) = (in_order es \<and> (is_stream e \<longrightarrow> list_ex is_catch_up es) \<and> (is_catch_up e \<longrightarrow> \<not> list_ex is_catch_up es))"

definition loop_core :: "loop_state \<Rightarrow> bool" where
  "loop_core s =
     (in_order (lp_trace s) \<and> catchUpPending (lp_poller s) = (\<not> list_ex is_catch_up (lp_trace s)) \<and>
      (lp_connected s \<longrightarrow> lp_ws s \<noteq> None \<and> list_all snd (lp_sse s)) \<and>
      length (filter (\<lambda>e. e = Defers) (lp_trace s)) = lp_deferrals s \<and> lp_deferrals s \<le> MAX_CATCH_UP_DEFERRALS)"

fun after_catch_up :: "loop_point \<Rightarrow> bool" where
  "after_catch_up (LCatching cs listed) = True"
| "after_catch_up (LRacing cs listed) = True"
| "after_catch_up (LPolling asks) = True"
| "after_catch_up LReading = True"
| "after_catch_up p = False"

definition main_good :: "loop_state \<Rightarrow> bool" where
  "main_good s = (loop_core s \<and> (after_catch_up (lp_point s) \<longrightarrow> \<not> catchUpPending (lp_poller s)))"

lemma core_frame [simp]:
  "loop_core (s\<lparr>lp_point := x\<rparr>) = loop_core s" "loop_core (s\<lparr>lp_force := b\<rparr>) = loop_core s"
  "loop_core (s\<lparr>lp_nextReconcile := t\<rparr>) = loop_core s" "loop_core (s\<lparr>lp_nextControl := t'\<rparr>) = loop_core s"
  "loop_core (s\<lparr>lp_controlOk := b\<rparr>) = loop_core s" "loop_core (s\<lparr>lp_waitingSupported := b\<rparr>) = loop_core s"
  "loop_core (s\<lparr>lp_aborted := b\<rparr>) = loop_core s" "loop_core (s\<lparr>lp_disabledUntil := t\<rparr>) = loop_core s"
  by (simp_all add: loop_core_def)

lemma core_poller: "catchUpPending p = catchUpPending (lp_poller s) \<Longrightarrow> loop_core (s\<lparr>lp_poller := p\<rparr>) = loop_core s"
  by (simp add: loop_core_def)

lemma core_does: "loop_core s \<Longrightarrow> \<not> is_stream e \<Longrightarrow> \<not> is_catch_up e \<Longrightarrow> e \<noteq> Defers \<Longrightarrow> loop_core (does e s)"
  by (simp add: loop_core_def does_def)

lemma core_stream: "loop_core s \<Longrightarrow> \<not> catchUpPending (lp_poller s) \<Longrightarrow> is_stream e \<Longrightarrow> loop_core (does e s)"
  by (cases e) (simp_all add: loop_core_def does_def)

lemma core_stop [simp]: "loop_core s \<Longrightarrow> loop_core (stopSse s)" "loop_core s \<Longrightarrow> loop_core (stopAgentWebSocket s)"
  by (auto simp: loop_core_def stopSse_def stopAgentWebSocket_def list_all_iff)

lemma kept [simp]:
  "lp_poller (does e s) = lp_poller s" "lp_poller (stopSse s) = lp_poller s" "lp_poller (stopAgentWebSocket s) = lp_poller s"
  "lp_poller (scheduleNextWebSocketReconcile C now random s) = lp_poller s"
  "lp_poller (scheduleNextWebSocketControlRefresh C now random s) = lp_poller s"
  "lp_poller (startAgentWebSocket C now s) = lp_poller s" "lp_poller (startSse C now s c) = lp_poller s"
  by (simp_all add: does_def stopSse_def stopAgentWebSocket_def scheduleNextWebSocketReconcile_def scheduleNextWebSocketControlRefresh_def
      startAgentWebSocket_def startSse_def)

lemma core_schedule [simp]:
  "loop_core (scheduleNextWebSocketReconcile C now random s) = loop_core s"
  "loop_core (scheduleNextWebSocketControlRefresh C now random s) = loop_core s"
  by (simp_all add: scheduleNextWebSocketReconcile_def scheduleNextWebSocketControlRefresh_def)

lemma core_startWs: "loop_core s \<Longrightarrow> \<not> catchUpPending (lp_poller s) \<Longrightarrow> loop_core (startAgentWebSocket C now s)"
  by (simp add: startAgentWebSocket_def) (simp add: loop_core_def does_def)

lemma core_startSse: "loop_core s \<Longrightarrow> \<not> catchUpPending (lp_poller s) \<Longrightarrow> loop_core (startSse C now s c)"
  by (simp add: startSse_def) (simp add: loop_core_def does_def)

lemma core_all_sse:
  "loop_core s \<Longrightarrow> \<not> catchUpPending (lp_poller s) \<Longrightarrow>
   loop_core (foldl (startSse C now) s cs) \<and> lp_poller (foldl (startSse C now) s cs) = lp_poller s"
  by (induction cs arbitrary: s) (simp_all add: core_startSse)

lemma good_sleeps: "loop_core s \<Longrightarrow> main_good (sleeps ms s)"
  by (simp add: main_good_def sleeps_def core_does)

lemma good_stops: "loop_core s \<Longrightarrow> main_good (loop_stops s)"
  by (simp add: main_good_def loop_stops_def core_does)

lemma good_rests: "loop_core s \<Longrightarrow> main_good (rests C s)"
  by (simp add: rests_def good_sleeps good_stops)

lemma good_serves: "loop_core s \<Longrightarrow> \<not> catchUpPending (lp_poller s) \<Longrightarrow> main_good (serves_channels C now random cs listed s)"
  using core_all_sse [of s C now cs]
  by (auto simp: serves_channels_def Let_def good_rests main_good_def [of "loop_state.lp_point_update _ _"] core_stream)

lemma good_starts: "loop_core s \<Longrightarrow> \<not> catchUpPending (lp_poller s) \<Longrightarrow> main_good (starts_streams C now random cs listed s)"
  using core_startWs [of s C now] by (simp add: starts_streams_def Let_def good_serves main_good_def [of "loop_state.lp_point_update _ _"])

lemma fallback_kept: "with_fallback A cs s = (ds, s') \<Longrightarrow> loop_core s \<Longrightarrow> loop_core s'"
  by (auto simp: with_fallback_def Let_def core_poller split: option.splits list.splits if_splits)

lemma good_catches_up:
  assumes "loop_core s"
  shows "main_good (catches_up C now random cs listed s)"
proof -
  have "loop_core (does Defers (s\<lparr>lp_deferrals := lp_deferrals s + 1\<rparr>))" if "lp_deferrals s < MAX_CATCH_UP_DEFERRALS"
    using assms that by (simp add: loop_core_def does_def)
  moreover have "main_good ((does (CatchesUp cs) (s\<lparr>lp_poller := (lp_poller s)\<lparr>catchUpPending := False\<rparr>\<rparr>))\<lparr>lp_point := LCatching cs listed\<rparr>)"
    if "catchUpPending (lp_poller s)"
    using assms that by (simp add: main_good_def loop_core_def does_def)
  ultimately show ?thesis using assms by (simp add: catches_up_def good_sleeps good_starts)
qed

lemma good_goes_on:
  assumes "loop_core s"
  shows "main_good (goes_on A C now random found wasSnoozed listed s)"
proof -
  obtain cs s' where f: "with_fallback A found s = (cs, s')" by fastforce
  have "loop_core s'" by (rule fallback_kept [OF f assms])
  then show ?thesis by (simp add: goes_on_def f good_sleeps good_catches_up core_poller)
qed

lemma good_iterates: "loop_core s \<Longrightarrow> main_good (iterates A C now random s)"
  by (simp add: iterates_def good_stops good_goes_on main_good_def [of "loop_state.lp_point_update _ _"] core_does)

lemma good_listed:
  assumes "loop_core s"
  shows "main_good (listed_channels A C now random wasSnoozed before answer s)"
proof (cases answer)
  case None
  then show ?thesis using assms by (simp add: listed_channels_def Let_def good_goes_on core_poller)
next
  case (Some raw)
  obtain p cs offers where p: "applyControlPayload A raw (lp_poller s) = (p, cs, offers)" by (metis prod_cases3)
  have "loop_core (does (Offers offers) (s\<lparr>lp_poller := p, lp_controlOk := True\<rparr>))"
    using assms pending_payload [OF p] by (simp add: core_does core_poller)
  then show ?thesis using Some by (simp add: listed_channels_def p Let_def good_goes_on)
qed

lemma good_caught: "loop_core s \<Longrightarrow> \<not> catchUpPending (lp_poller s) \<Longrightarrow> main_good (caught_up A C now random cs listed s)"
  by (simp add: caught_up_def good_stops good_starts core_does core_poller)

lemma good_raced: "loop_core s \<Longrightarrow> \<not> catchUpPending (lp_poller s) \<Longrightarrow> main_good (raced C now random cs listed s)"
  by (simp add: raced_def good_stops good_serves main_good_def [of "loop_state.lp_point_update _ _"])

lemma good_polled: "loop_core s \<Longrightarrow> \<not> catchUpPending (lp_poller s) \<Longrightarrow> main_good (polled A C asks s)"
  by (simp add: polled_def good_rests main_good_def [of "loop_state.lp_point_update _ _"] core_does)

lemma good_read: "loop_core s \<Longrightarrow> main_good (read_waiting C answer s)"
  by (cases answer) (simp_all add: read_waiting_def good_rests core_does)

lemma good_opened: "main_good s \<Longrightarrow> lp_ws s = Some False \<Longrightarrow> main_good (ws_opened C now random s)"
  by (auto simp: main_good_def loop_core_def ws_opened_def stopSse_def scheduleNextWebSocketControlRefresh_def list_all_iff)

lemma good_gets:
  assumes "main_good s"
  shows "main_good (ws_gets R A C now random e s)"
proof -
  obtain p calls where p: "onWsEvent R A now e (lp_poller s) = (p, calls)" by fastforce
  have "loop_core (does (WsCalls calls) (s\<lparr>lp_poller := p, lp_force := (lp_force s \<or> ForceReconcile \<in> set calls)\<rparr>))"
    using assms pending_ws [OF p] by (simp add: main_good_def core_does core_poller)
  then show ?thesis using assms pending_ws [OF p]
    by (simp add: ws_gets_def p Let_def main_good_def) (simp add: does_def scheduleNextWebSocketControlRefresh_def)
qed

lemma good_ended: "main_good s \<Longrightarrow> main_good (ws_ended failed now s)"
  by (auto simp: main_good_def loop_core_def ws_ended_def Let_def)

lemma good_sse_end: "main_good s \<Longrightarrow> main_good (s\<lparr>lp_sse := mdel c (lp_sse s)\<rparr>)"
  by (auto simp: main_good_def loop_core_def list_all_iff set_mdel)

lemma good_aborts: "main_good s \<Longrightarrow> main_good ((stopSse (stopAgentWebSocket s))\<lparr>lp_aborted := True\<rparr>)"
  by (simp add: main_good_def) (simp add: stopSse_def stopAgentWebSocket_def)

lemma good_coreD: "main_good s \<Longrightarrow> loop_core s" by (simp add: main_good_def)

lemma good_after: "main_good s \<Longrightarrow> after_catch_up (lp_point s) \<Longrightarrow> \<not> catchUpPending (lp_poller s)" by (simp add: main_good_def)

lemma main_step_good: "main_good s \<Longrightarrow> main_good (main_step R A C s e)"
proof (induction e)
  case (Inner e)
  then show ?case using pending_inner [of e R A "lp_poller s"] by (simp add: main_good_def core_poller)
qed (auto simp: good_coreD good_after good_iterates good_listed good_caught good_raced good_polled good_read good_opened good_gets good_ended
      good_sse_end good_aborts main_good_def [of "loop_state.lp_point_update _ _"] split: loop_point.split)

interpretation poller_loop: transition_system "loop_init A C True now random" "main_step R A C" main_good for R A C now random
  by unfold_locales (simp_all add: main_step_good, simp add: loop_init_def main_good_def loop_core_def poller_init_def)

section \<open>Properties\<close>

text \<open>Streams of channels that are not aborted and a connected socket exclude each other.\<close>

definition one_transport :: "loop_state \<Rightarrow> bool" where
  "one_transport s = (lp_connected s \<longrightarrow> list_all snd (lp_sse s))"

text \<open>C40: The poller catches up first, once, and listens one way. However sockets, answers, sleeps and the other operations interleave,
  no stream is opened and nothing is polled before the catch-up of what was missed has begun, it begins once and is put off
  at most once, and while the agent's socket is connected the event stream of every channel is aborted.\<close>

theorem streams_follow_catch_up:
  "in_order (lp_trace (run (main_step R A C) (loop_init A C True now random) es)) \<and>
   one_transport (run (main_step R A C) (loop_init A C True now random) es) \<and>
   length (filter (\<lambda>e. e = Defers) (lp_trace (run (main_step R A C) (loop_init A C True now random) es))) \<le> 1"
proof -
  have "loop_core (run (main_step R A C) (loop_init A C True now random) es)"
    using poller_loop.free.good_disciplined_run [OF obeys_True] by (auto simp: main_good_def)
  then show ?thesis by (auto simp: loop_core_def one_transport_def MAX_CATCH_UP_DEFERRALS_def)
qed

text \<open>The catch-up is not held up by a server that lists no channels: awake, it begins in the second iteration at the latest.\<close>

lemma snoozed_rebuild: "agentSnoozed (rebuildDiscoveredChannels cs p) = agentSnoozed p"
proof -
  have "agentSnoozed (foldl (discover b) p cs) = agentSnoozed p" for b p
    by (induction cs arbitrary: p) (auto simp: discover_def seedBaseline_def Let_def split: option.split)
  then show ?thesis by (simp add: rebuildDiscoveredChannels_def)
qed

lemma fallback_fields:
  "with_fallback A cs s = (ds, s') \<Longrightarrow>
   agentSnoozed (lp_poller s') = agentSnoozed (lp_poller s) \<and> catchUpPending (lp_poller s') = catchUpPending (lp_poller s) \<and>
   lp_controlOk s' = lp_controlOk s \<and> lp_deferrals s' = lp_deferrals s \<and> lp_aborted s' = lp_aborted s \<and> lp_connected s' = lp_connected s"
  by (auto simp: with_fallback_def Let_def snoozed_rebuild split: option.splits list.splits if_splits)

definition waits_for_channels :: "loop_state \<Rightarrow> bool" where
  "waits_for_channels s =
     (lp_point s = LTop \<and> \<not> lp_aborted s \<and> \<not> lp_connected s \<and> \<not> agentSnoozed (lp_poller s) \<and> catchUpPending (lp_poller s))"

lemma iteration_without_channels:
  assumes "waits_for_channels s"
  shows "let s' = run (main_step R A C) s [LoopRuns now random, ControlAnswered now' random' None, SleepEnds] in
    if lp_controlOk s \<or> MAX_CATCH_UP_DEFERRALS \<le> lp_deferrals s then list_ex is_catch_up (lp_trace s') \<and> after_catch_up (lp_point s')
    else waits_for_channels s' \<and> lp_deferrals s' = lp_deferrals s + 1"
proof -
  let ?p = "lp_poller s\<lparr>interAgentMode := acct_interAgent A\<rparr>"
  define s0 where "s0 = (does ListsChannels s)\<lparr>lp_point := LListing False (channelSetKey (discoveredFromChannelTypes (lp_poller s))), lp_poller := ?p\<rparr>"
  obtain cs s1 where f: "with_fallback A (discoveredFromChannelTypes ?p) s0 = (cs, s1)" by fastforce
  have s1: "\<not> agentSnoozed (lp_poller s1)" "catchUpPending (lp_poller s1)" "lp_controlOk s1 = lp_controlOk s" "lp_deferrals s1 = lp_deferrals s"
      "\<not> lp_aborted s1" "\<not> lp_connected s1"
    using fallback_fields [OF f] assms by (simp_all add: s0_def waits_for_channels_def does_def)
  have "run (main_step R A C) s [LoopRuns now random, ControlAnswered now' random' None] = catches_up C now' random' cs False s1"
    using assms f s1(1) by (simp add: waits_for_channels_def iterates_def refreshes_control_def listed_channels_def goes_on_def s0_def does_def Let_def)
  then have "run (main_step R A C) s [LoopRuns now random, ControlAnswered now' random' None, SleepEnds] =
      main_step R A C (catches_up C now' random' cs False s1) SleepEnds"
    by simp
  then show ?thesis using s1
    by (auto simp: Let_def catches_up_def sleeps_def does_def waits_for_channels_def)
qed

theorem catch_up_begins:
  assumes "main_good s" and "waits_for_channels s"
  shows "list_ex is_catch_up (lp_trace (run (main_step R A C) s
    ([LoopRuns now random, ControlAnswered now' random' None, SleepEnds] @ [LoopRuns t r, ControlAnswered t' r' None, SleepEnds])))"
proof -
  let ?s = "run (main_step R A C) s [LoopRuns now random, ControlAnswered now' random' None, SleepEnds]"
  show ?thesis
  proof (cases "lp_controlOk s \<or> MAX_CATCH_UP_DEFERRALS \<le> lp_deferrals s")
    case True
    then have "list_ex is_catch_up (lp_trace ?s)" "after_catch_up (lp_point ?s)"
      using iteration_without_channels [OF assms(2)] by (simp_all add: Let_def)
    moreover have "run (main_step R A C) s' [LoopRuns t r, ControlAnswered t' r' None, SleepEnds] = s'" if "after_catch_up (lp_point s')" for s'
      using that by (cases "lp_point s'") simp_all
    ultimately show ?thesis by (simp only: run_append)
  next
    case False
    then have "waits_for_channels ?s" "MAX_CATCH_UP_DEFERRALS \<le> lp_deferrals ?s"
      using iteration_without_channels [OF assms(2)] by (simp_all add: Let_def MAX_CATCH_UP_DEFERRALS_def)
    then show ?thesis using iteration_without_channels [of ?s] by (simp only: run_append Let_def) simp
  qed
qed

end
