(* ===== verification/Spec2Isabelle.thy ===== *)
theory Spec2Isabelle
  imports A2UI_Core Skills_Sync Channel_Posts Live_Turn Chat_Features Dispatch_Guard Reported_Steps Reports_Shown Agent_Events Email_Poller Email_Dispatch Usage_Collector Turn_Registry Stream_Patcher Inbound_Poller Reconcile Game_Sessions Skills_Apply Sanitize Open_Drafts Companion_Services Capabilities Outbound_Sends Message_Drafts Auto_Mention Web_Automations Http_Client Agent_Body Poller_Loop
begin

text \<open>
  Verification of the Clawbits plugin for OpenClaw (\<open>plugin/src\<close>), with the parts of the web and mobile
  clients that read what it sends, and the features of the addressee model.

  \<^bold>\<open>The program.\<close> Clawbits is a chat in which people and agents share channels. An agent runs in an
  OpenClaw gateway; the plugin is the agent's side of the chat. It polls and listens for posts and
  turns some of them into turns of the agent, streams what a turn does back into the channel, keeps
  the agent's automations, skills, model and usage in step with the server, answers the cards of
  \<open>ask_user\<close>, and plays chat games in sessions of their own. The parts share one process and call
  each other across awaits, so most of what can go wrong is an interleaving: an answer that comes
  after an abort, two events for one post, a rewrite while a request is in flight.

  \<^bold>\<open>Conventions.\<close> A module's variables are a record and each of its functions is a function on that
  record, under the name it has in the source. A function that awaits is split at the await: what
  comes before and what comes after are two steps, and the answer is an argument of the second, so
  the properties of a machine hold for every order in which the answers arrive. The clock is an
  argument. A JavaScript value of type \<open>unknown\<close> is a \<open>jsval\<close> (theory \<open>Js_Values\<close>), a \<open>Map\<close> is its list of
  entries in insertion order, an object that is shared by reference lives in a heap, and a throw is
  the left side of a sum or a \<open>None\<close>. The server and the gateway are records of functions over a
  state of their own, or the answers a step is given. Strings are lists of characters of one byte.

  \<^item> \<open>Prelude\<close>, \<open>Js_Values\<close>: the collections of rules, ordered maps and sets, decimal numbers, the
    values of JavaScript and its string functions, and the interfaces \<open>transition_system\<close> (a state, its
    steps and an invariant they keep) and \<open>bounded_memory\<close> (identifiers remembered up to a limit), each
    interpreted by the components that provide it.
  \<^item> \<open>Usage_Collector\<close> (\<open>usage/collector.ts\<close>, \<open>usage/reporter.ts\<close>): the queue of usage events, the hooks
    that fill it and the reporter. Its lemmas give the bounds of the state, that an event is delivered
    at least once, and that the tokens of a run are counted once.
  \<^item> \<open>Turn_Registry\<close> (\<open>activity/turn-registry.ts\<close>): which turn a run of the gateway belongs to. A binding
    is sound, exclusive and stable.
  \<^item> \<open>Stream_Patcher\<close> (\<open>activity/stream-patcher.ts\<close>): the text of a turn in its open draft. While texts extend one
    another, the draft is a prefix of the text and whole at rest; a rewrite that arrives during an append is lost.
  \<^item> \<open>Sanitize\<close>, \<open>Thinking_Tail\<close> (\<open>activity/sanitize.ts\<close>): the label of a tool call, with what it may show of the
    arguments, and the tail of the thinking text, from which fenced code is gone.
  \<^item> \<open>Activity_Reporter\<close> (\<open>activity/reporter.ts\<close>): the status updates of a turn, throttled and serialized, and the
    steps its reply keeps. After the end of a run whose turn has a state nothing more goes out; a turn without one is not closed.
  \<^item> \<open>Agent_Events\<close> (\<open>activity/subscription.ts\<close>): the routing of the gateway's events over the registry, both lanes
    and the game sessions. An event stays in the turn of its run.
  \<^item> \<open>Thinking_Stitch\<close>, \<open>Turn_Steps\<close> (\<open>frontend/src/lib/thinkingStitch.ts\<close>, \<open>turnSteps.ts\<close>) and \<open>Live_Turn\<close>
    (\<open>apps/mobile/src/lib/liveTurn.ts\<close>): the folds with which the two clients rebuild a turn from those updates, and
    the mobile app's timers. The clients fold alike what has no blank label, and a channel shows a turn while its timer is pending.
  \<^item> \<open>Reported_Steps\<close>, \<open>Reports_Shown\<close>: both ends of that lane together. While sends succeed, a client that has every update holds
    the calls that the reply will keep; and the two clients agree on whatever the server took, unless a tool has a blank name.
  \<^item> \<open>Dispatch_Guard\<close> (\<open>inbound-dispatch-guard.ts\<close>): one dispatch per session at a time, in the order they came.
  \<^item> \<open>Email_Text\<close> (\<open>email-html.ts\<close>, \<open>email-dm-frame.ts\<close>), \<open>Email_Poller\<close> (\<open>email-poller.ts\<close>), \<open>Email_Dispatch\<close>
    (\<open>email-adapter.ts\<close>): the text of a mail, the poller of the agent's mailbox and the handler of one mail. A mail is
    handed over once; a quiet cycle hands over all that is new, a burst beyond the page cap is lost; a mail gets one
    reply at most, of blocks the agent delivered.
  \<^item> \<open>Open_Drafts\<close> (\<open>draft-registry.ts\<close>, \<open>outbound-adapter.ts\<close>): the drafts of the turns in flight and the paths that
    take or replace one. With one turn at a time in a chat a draft is settled at most once, and once in the end unless
    two questions are asked at once in one turn, which leaves a draft open.
  \<^item> \<open>Outbound_Sends\<close> (\<open>outbound-adapter.ts\<close>, \<open>outbound-media.ts\<close>, \<open>challenge.ts\<close>): addresses, challenges, uploads and the sends
    of a durable intent against the server's handlers of posts, which are modelled with them. A replayed send posts once; the address a turn
    leaves leads back to its chat. Published posts are not deleted in this model.
  \<^item> \<open>Turn_Dispatch\<close>, \<open>Gateway_Upkeep\<close> (\<open>gateway-adapter.ts\<close>): one message as a turn, from the operator's commands to the
    notice of a failure; the start of an account and the sweep of game sessions. Moves are silent, commands are the operator's
    alone, a failure with an open draft is told once.
  \<^item> \<open>Agent_Body\<close> (\<open>agent-body.ts\<close>): the text of a turn, with the fence around what a person picked on a card: the picked
    part is escaped, the names beside it are not.
  \<^item> \<open>Accounts\<close> (\<open>accounts.ts\<close>), \<open>Companion_Services\<close> (\<open>companion-services.ts\<close>, \<open>service-handoff.ts\<close>), \<open>Capabilities\<close>
    (\<open>widgets/capability.ts\<close>, \<open>liveness.ts\<close>): what a configuration resolves to, the services that run for its accounts, and what
    the agent claims and reports of itself. Settings stay in their bounds; services run once under a host that awaits its hooks;
    an agent that claims games can play them.
  \<^item> \<open>Game_Wakes\<close> (\<open>widgets/wake.ts\<close>): the loop that wakes an agent for its move. Wakes are admitted,
    paced and bounded, and an ended game is left alone.
  \<^item> \<open>Game_Guards\<close>, \<open>Game_Sessions\<close> (\<open>widgets/session.ts\<close>): the keys of the sessions of games, the hooks that
    keep other tools out of them, the runs that hold them, their rotation and their deletion.
  \<^item> \<open>Questions\<close> (\<open>questions.ts\<close>): the cards of \<open>ask_user\<close>, waiting chats and clicks.
  \<^item> \<open>Model_Choice\<close> (\<open>model-choice.ts\<close>): the choice of a model and thinking level, as a patch of a session
    or of the host's roster.
  \<^item> \<open>Inbound_Posts\<close>, \<open>Inbound_Poller\<close> (\<open>inbound-poller.ts\<close>): what the poller parses, and its state machine:
    which posts become turns, how far a channel is read, what a catch-up replays, and how long agents
    may talk to agents. It uses the questions and the game signals.
  \<^item> \<open>Poller_Loop\<close> (\<open>inbound-poller.ts\<close>): the main loop of the poller over those operations, cut at its awaits: it catches
    up first, once, and puts this off at most once; one transport is live at a time; and the catch-up begins in the second
    iteration even if the server never lists a channel.
  \<^item> \<open>Cron_Handle\<close>, \<open>Reconcile\<close> (\<open>automations/\<close>): the parameters and the drift of a cron job, one pass of
    the reconciler, the registry of wakers and the loop around the passes.
  \<^item> \<open>Skills_Apply\<close> (\<open>skills/apply.ts\<close>): the applier of skills over a disk that may fail at any operation.
  \<^item> \<open>Skills_Scan\<close> (\<open>skills/scan.ts\<close>), \<open>Skills_Sync\<close> (\<open>skills/sync.ts\<close>): the walk of the skill directories, which lists
    what lies on the disk as an inductive layout defines it, the climb to the host's package, which ends, and the reports
    with what the server's handler keeps of them: a text is not sent again for a hash that was reported, and yet the server holds the
    texts of the disk it can store, unless an operator drops a row or an answer is lost.
  \<^item> \<open>Channel_Posts\<close> (\<open>frontend/src/hooks/useChannelEvents.ts\<close>): the web client's page of posts under the events of the
    channel. No event takes a shown post back and every update reaches the page; the answer of a refetch may take one back, and a
    deleted post may come back.
  \<^item> \<open>Channel_Timeline\<close> (\<open>frontend/src/lib/channelTimeline.ts\<close>), \<open>Message_Drafts\<close> (\<open>frontend/src/lib/messageDrafts.ts\<close>): the rows
    of a channel with their order, groups and outline, and the store of unsent messages. The timeline is the sorted multiset of
    what lives; drafts stay with their account and survive a reload, but a sent one may come back.
  \<^item> \<open>Chat_Widgets\<close> (\<open>apps/mobile/src/lib/widgets.ts\<close>): the caches of games under events and slow answers, and what their scenes
    show. The end of a public game is final in the cache, that of a private one is not; boards, scores and amounts.
  \<^item> \<open>Auto_Mention\<close>, \<open>Web_Automations\<close> (\<open>frontend/src/lib/autoMention.ts\<close>, \<open>schedule.ts\<close>, \<open>automations.ts\<close>): whom the composer offers to
    mention, and the form of an automation. An offer has a reason; schedules and intervals are read back as they were stored, and an
    edit keeps what the form does not author.
  \<^item> \<open>Http_Client\<close> (\<open>client.ts\<close>, \<open>latency-metrics.ts\<close>): a request, what its caller is told, a call bounded in time and the statistics. Status
    zero says exactly that no answer came, and the totals are the statistics of the metrics.

  \<^item> \<open>A2UI_Core\<close> (\<open>frontend/src/lib/a2ui/core.ts\<close>): the surfaces an agent draws, parsed into a tree. The parser
    returns the tree the references describe, and only when they describe one; a write is read back.
  \<^item> \<open>Murmur_Hash\<close>, \<open>Chat_Features\<close> (\<open>clawbits/lobstertalk/tslib/src\<close>): the keyword hash, equal to the published
    algorithm on 32-bit words, and the layout of the feature vector.

  \<^bold>\<open>Recursion.\<close> Every function of the model is total: loops of the source are recursion over the list
  or the text they walk, over a count that the source bounds (the pages of a gap, the attempts of a wake), or
  over the components of a surface that are not used yet. The climb of \<open>Skills_Scan\<close> is a partial function whose return is a theorem.
  No fuel is used.

  \<^bold>\<open>Not modelled.\<close> HTTP, WebSockets, timers and sleeps, file locks and logging appear as the answers of
  steps only. The text of errors and of the e-mail prompts is kept where code inspects it. \<open>JSON.parse\<close>, \<open>Date.parse\<close>,
  the host's SDK and its session store are parameters. Characters are a byte: Latin-1, and the Windows code
  page for the few beyond it that the sources name. The set-up and command-line modules and the tools of the
  companion are glue around these calls; the components and screens of the two
  clients, the server (Python) beyond its handlers of posts and of the report of skills, the command-line tool (Rust) and the other gateways' channels are separate programs.
\<close>

end
